(* ===== verification/Prelude.thy ===== *)
theory Prelude
  imports Main "HOL-Library.Monad_Syntax"
begin

text \<open>
  Shared vocabulary of the development.

  \<^item> Addresses of intrusive nodes and coroutine handles are opaque numbers; a C++ pointer that
    may be null is an \<open>option\<close>.
  \<^item> A computation whose C++ original could run into undefined behaviour (a null or dangling
    dereference, a failed \<open>assert\<close>, a loop that never ends) returns an \<open>option\<close>, with
    \<open>None\<close> for that outcome. A theorem of the form \<open>op s = Some s'\<close> therefore also says
    that the operation is free of undefined behaviour and returns.
  \<^item> \<open>lseg\<close> is the usual list segment over a partial ``next'' function, with its frame rules.
  \<^item> \<open>foldM_opt\<close> is the left fold of a fallible step, the specification of the loops that visit
    every node of a list.
\<close>

type_synonym addr = nat
type_synonym handle = nat

named_theorems seg_simps "rewrite rules for list segments"
named_theorems model_defs "unfolding of small model definitions"

section \<open>Fallible steps\<close>

primrec foldM_opt :: "('a \<Rightarrow> 's \<Rightarrow> 's option) \<Rightarrow> 'a list \<Rightarrow> 's \<Rightarrow> 's option" where
  "foldM_opt f [] s = Some s"
| "foldM_opt f (x # xs) s = do { s' \<leftarrow> f x s; foldM_opt f xs s' }"

lemma foldM_opt_append:
  "foldM_opt f (xs @ ys) s = do { s' \<leftarrow> foldM_opt f xs s; foldM_opt f ys s' }"
  by (induction xs arbitrary: s) (auto split: bind_splits)

lemma foldM_opt_cong:
  "(\<And>x s. x \<in> set xs \<Longrightarrow> f x s = g x s) \<Longrightarrow> foldM_opt f xs s = foldM_opt g xs s"
  by (induction xs arbitrary: s) (auto intro!: Option.bind_cong)

text \<open>
  An invariant indexed by the elements still to be visited makes a fallible fold succeed.
\<close>

lemma foldM_opt_inv:
  assumes "I xs s"
    and "\<And>y ys s. I (y # ys) s \<Longrightarrow> \<exists>s'. f y s = Some s' \<and> I ys s'"
  shows "\<exists>s'. foldM_opt f xs s = Some s' \<and> I [] s'"
  using assms(1)
proof (induction xs arbitrary: s)
  case Nil
  then show ?case by simp
next
  case (Cons y ys)
  from assms(2)[OF Cons.prems] obtain s1 where "f y s = Some s1" "I ys s1" by blast
  with Cons.IH show ?case by simp
qed

section \<open>List segments\<close>

text \<open>
  \<open>nx a = None\<close>: there is no live node at \<open>a\<close>; \<open>nx a = Some p\<close>: its \<open>next\<close> field is \<open>p\<close>.
\<close>

primrec lseg :: "('a \<Rightarrow> 'a option option) \<Rightarrow> 'a option \<Rightarrow> 'a list \<Rightarrow> 'a option \<Rightarrow> bool" where
  "lseg nx p [] q \<longleftrightarrow> p = q"
| "lseg nx p (a # as) q \<longleftrightarrow> p = Some a \<and> (case nx a of None \<Rightarrow> False | Some p' \<Rightarrow> lseg nx p' as q)"

lemma lseg_None [simp, seg_simps]: "lseg nx None as None \<longleftrightarrow> as = []"
  by (cases as) auto

lemma lseg_Some_iff:
  "lseg nx (Some a) as None \<longleftrightarrow>
     (\<exists>bs p. as = a # bs \<and> nx a = Some p \<and> lseg nx p bs None)"
  by (cases as) (auto split: option.splits)

lemma lseg_append [seg_simps]:
  "lseg nx p (as @ bs) q \<longleftrightarrow> (\<exists>r. lseg nx p as r \<and> lseg nx r bs q)"
  by (induction as arbitrary: p) (auto split: option.splits)

lemma lseg_cong:
  "(\<And>a. a \<in> set as \<Longrightarrow> nx' a = nx a) \<Longrightarrow> lseg nx' p as q = lseg nx p as q"
  by (induction as arbitrary: p) (auto split: option.splits)

lemma lseg_upd [simp, seg_simps]:
  "a \<notin> set as \<Longrightarrow> lseg (nx(a := v)) p as q = lseg nx p as q"
  by (rule lseg_cong) auto

lemma lseg_unique: "lseg nx p as None \<Longrightarrow> lseg nx p bs None \<Longrightarrow> as = bs"
proof (induction as arbitrary: p bs)
  case Nil
  then show ?case by simp
next
  case (Cons a as)
  then show ?case by (cases bs) (auto split: option.splits)
qed

lemma lseg_live: "lseg nx p as q \<Longrightarrow> a \<in> set as \<Longrightarrow> nx a \<noteq> None"
  by (induction as arbitrary: p) (auto split: option.splits)

lemma lseg_hd: "lseg nx p as None \<Longrightarrow> p = (case as of [] \<Rightarrow> None | a # _ \<Rightarrow> Some a)"
  by (cases as) auto

lemma lseg_not_in_tail:
  assumes "lseg nx p as None" and "nx a = Some p"
  shows "a \<notin> set as"
proof
  assume "a \<in> set as"
  then obtain xs ys where as: "as = xs @ a # ys" by (auto simp: in_set_conv_decomp)
  with assms have "lseg nx p ys None" by (auto simp: lseg_append)
  with assms(1) have "as = ys" by (rule lseg_unique)
  with as show False by simp
qed

lemma lseg_distinct: "lseg nx p as None \<Longrightarrow> distinct as"
  by (induction as arbitrary: p) (auto split: option.splits dest: lseg_not_in_tail)

text \<open>Redirecting the last link of a segment appends another segment.\<close>

lemma lseg_link_last:
  assumes "lseg nx p as None" "as \<noteq> []" "distinct as"
  shows "lseg (nx(last as := Some r)) p as r"
proof -
  obtain xs a where as: "as = xs @ [a]" using assms(2) by (cases as rule: rev_cases) auto
  with assms show ?thesis by (auto simp: lseg_append split: option.splits)
qed

lemma lseg_last_next:
  assumes "lseg nx p as None" "as \<noteq> []"
  shows "nx (last as) = Some None"
proof -
  obtain xs a where as: "as = xs @ [a]" using assms(2) by (cases as rule: rev_cases) auto
  with assms show ?thesis by (auto simp: lseg_append split: option.splits)
qed

end
