(* ===== verification/Executor.thy ===== *)
theory Executor
  imports Prelude
begin

text \<open>
  \<open>executor_interface.hpp\<close>: task nodes, the executor concept, the loops over intrusive
  lists of nodes (\<open>attach_list\<close>, \<open>reverse_list\<close>), \<open>create_node_and_attach\<close> and
  the three stateless executors.

  The nodes live in a store from addresses to node records: \<open>nodes w a = None\<close> means that no
  node is alive at \<open>a\<close>, so reading it is undefined behaviour. The code run by
  \<open>handle.resume()\<close> is user code: it is the parameter \<open>resume\<close> of the definitions, an
  arbitrary fallible change of the world, so that it may free the node it was resumed from,
  push new nodes or change the object that resumed it.
\<close>

section \<open>Nodes\<close>

datatype schedule_errc = ok | cancelled | timed_out | executor_overload

record schedule_status =
  what :: schedule_errc

definition schedule_status_bool :: "schedule_status \<Rightarrow> bool" where
  "schedule_status_bool s \<longleftrightarrow> what s = ok"

record task_node =
  nd_next :: "addr option"
  nd_task :: "handle option"
  nd_status :: schedule_errc

definition task_node_init :: task_node where
  "task_node_init = \<lparr>nd_next = None, nd_task = None, nd_status = ok\<rparr>"

definition deadpill :: task_node where
  "deadpill = task_node_init\<lparr>nd_next := None, nd_task := None\<rparr>"

definition is_deadpill :: "task_node \<Rightarrow> bool" where
  "is_deadpill n \<longleftrightarrow> nd_task n = None"

type_synonym node_heap = "addr \<Rightarrow> task_node option"

definition next_of :: "node_heap \<Rightarrow> addr \<Rightarrow> addr option option" where
  "next_of h a = map_option nd_next (h a)"

definition set_next :: "addr \<Rightarrow> addr option \<Rightarrow> node_heap \<Rightarrow> node_heap option" where
  "set_next a p h = do { n \<leftarrow> h a; Some (h(a \<mapsto> n\<lparr>nd_next := p\<rparr>)) }"

definition set_task :: "addr \<Rightarrow> handle option \<Rightarrow> node_heap \<Rightarrow> node_heap option" where
  "set_task a t h = do { n \<leftarrow> h a; Some (h(a \<mapsto> n\<lparr>nd_task := t\<rparr>)) }"

definition set_status :: "addr \<Rightarrow> schedule_errc \<Rightarrow> node_heap \<Rightarrow> node_heap option" where
  "set_status a s h = do { n \<leftarrow> h a; Some (h(a \<mapsto> n\<lparr>nd_status := s\<rparr>)) }"

text \<open>The nodes \<open>as\<close>, linked in this order from \<open>p\<close> to null.\<close>

abbreviation node_list :: "node_heap \<Rightarrow> addr option \<Rightarrow> addr list \<Rightarrow> bool" where
  "node_list h p as \<equiv> lseg (next_of h) p as None"

abbreviation task_of :: "node_heap \<Rightarrow> addr \<Rightarrow> handle option" where
  "task_of h a \<equiv> Option.bind (h a) nd_task"

lemma next_of_upd [simp]: "next_of (h(a \<mapsto> n)) = (next_of h)(a := Some (nd_next n))"
  by (auto simp: next_of_def)

lemma next_of_None [simp]: "next_of h a = None \<longleftrightarrow> h a = None"
  by (simp add: next_of_def)

lemma next_of_Some: "next_of h a = Some p \<longleftrightarrow> (\<exists>n. h a = Some n \<and> nd_next n = p)"
  by (simp add: next_of_def)

lemma next_of_live [simp]: "h a = Some n \<Longrightarrow> next_of h a = Some (nd_next n)"
  by (simp add: next_of_def)

lemma node_list_cong:
  "(\<And>a. a \<in> set as \<Longrightarrow> h' a = h a) \<Longrightarrow> lseg (next_of h') p as q = lseg (next_of h) p as q"
  by (rule lseg_cong) (simp add: next_of_def)

lemma node_list_live: "node_list h p as \<Longrightarrow> a \<in> set as \<Longrightarrow> \<exists>n. h a = Some n"
  using lseg_live[of "next_of h" p as None a] by (simp add: next_of_None)

lemma set_next_Some [simp]:
  "h a = Some n \<Longrightarrow> set_next a p h = Some (h(a \<mapsto> n\<lparr>nd_next := p\<rparr>))"
  by (simp add: set_next_def)

lemma set_task_Some [simp]:
  "h a = Some n \<Longrightarrow> set_task a t h = Some (h(a \<mapsto> n\<lparr>nd_task := t\<rparr>))"
  by (simp add: set_task_def)

lemma set_status_Some [simp]:
  "h a = Some n \<Longrightarrow> set_status a s h = Some (h(a \<mapsto> n\<lparr>nd_status := s\<rparr>))"
  by (simp add: set_status_def)

section \<open>The world and the executors\<close>

record world =
  nodes :: node_heap

text \<open>The life of a node: an awaiter is constructed in a frame, and destroyed with it.\<close>

definition construct_node :: "addr \<Rightarrow> 'w world_scheme \<Rightarrow> 'w world_scheme" where
  "construct_node p w = w\<lparr>nodes := (nodes w)(p \<mapsto> task_node_init)\<rparr>"

definition destroy_nodes :: "addr list \<Rightarrow> 'w world_scheme \<Rightarrow> 'w world_scheme" where
  "destroy_nodes as w = w\<lparr>nodes := (\<lambda>a. if a \<in> set as then None else nodes w a)\<rparr>"

lemma construct_node_simps [simp]:
  "nodes (construct_node p w) = (nodes w)(p \<mapsto> task_node_init)"
  by (simp add: construct_node_def)

definition this_thread_attach ::
  "(handle \<Rightarrow> 'w world_scheme \<Rightarrow> 'w world_scheme option) \<Rightarrow> addr
     \<Rightarrow> 'w world_scheme \<Rightarrow> 'w world_scheme option" where
  "this_thread_attach resume node w = do {
     n \<leftarrow> nodes w node;
     t \<leftarrow> nd_task n;
     resume t w }"

definition noop_attach :: "addr \<Rightarrow> 'w world_scheme \<Rightarrow> 'w world_scheme option" where
  "noop_attach node w = Some w"

text \<open>
  Every call of the new-thread executor adds a detached thread whose whole body is
  \<open>node->task.resume()\<close>; \<open>new_thread_body\<close> is what that thread does when it runs.
\<close>

record threads_world = world +
  spawned :: "addr list"

definition new_thread_attach ::
  "addr \<Rightarrow> 'w threads_world_scheme \<Rightarrow> 'w threads_world_scheme option" where
  "new_thread_attach node w = Some (w\<lparr>spawned := spawned w @ [node]\<rparr>)"

definition new_thread_body ::
  "(handle \<Rightarrow> 'w threads_world_scheme \<Rightarrow> 'w threads_world_scheme option) \<Rightarrow> addr
     \<Rightarrow> 'w threads_world_scheme \<Rightarrow> 'w threads_world_scheme option" where
  "new_thread_body resume node w = do {
     n \<leftarrow> nodes w node;
     t \<leftarrow> nd_task n;
     resume t w }"

text \<open>
  \<open>any_executor_ref\<close>: a pointer to a function over an untyped object address, and the
  address. \<open>attach_at\<close> stands for the \<open>attach\<close> of the referenced executor type.
\<close>

record 'w any_executor_ref =
  attach_node :: "addr \<Rightarrow> addr \<Rightarrow> 'w \<Rightarrow> 'w option"
  exe_data :: addr

definition do_attach ::
  "(addr \<Rightarrow> addr \<Rightarrow> 'w \<Rightarrow> 'w option) \<Rightarrow> addr \<Rightarrow> addr \<Rightarrow> 'w \<Rightarrow> 'w option" where
  "do_attach attach_at e node w = attach_at e node w"

definition make_any_executor_ref ::
  "(addr \<Rightarrow> addr \<Rightarrow> 'w \<Rightarrow> 'w option) \<Rightarrow> addr \<Rightarrow> 'w any_executor_ref" where
  "make_any_executor_ref attach_at exe = \<lparr>attach_node = do_attach attach_at, exe_data = exe\<rparr>"

definition any_executor_attach ::
  "'w any_executor_ref \<Rightarrow> addr \<Rightarrow> 'w \<Rightarrow> 'w option" where
  "any_executor_attach r node w = attach_node r (exe_data r) node w"

lemma any_executor_attach_make [simp]:
  "any_executor_attach (make_any_executor_ref attach_at exe) = attach_at exe"
  by (intro ext) (simp add: any_executor_attach_def make_any_executor_ref_def do_attach_def)

section \<open>Loops over intrusive lists\<close>

text \<open>
  \<open>attach_list\<close> reads \<open>top->next\<close> before it hands \<open>top\<close> to the executor, since the
  node may be gone afterwards.
\<close>

partial_function (option) attach_list ::
  "(addr \<Rightarrow> 'w world_scheme \<Rightarrow> 'w world_scheme option) \<Rightarrow> addr option
     \<Rightarrow> 'w world_scheme \<Rightarrow> 'w world_scheme option" where
  "attach_list attach tp w = (case tp of
      None \<Rightarrow> Some w
    | Some p \<Rightarrow> do {
        nxt \<leftarrow> next_of (nodes w) p;
        w' \<leftarrow> attach p w;
        attach_list attach nxt w' })"

lemma attach_list_None [simp]: "attach_list attach None w = Some w"
  by (simp add: attach_list.simps)

lemma attach_list_Some:
  "attach_list attach (Some p) w =
     do { nxt \<leftarrow> next_of (nodes w) p; w' \<leftarrow> attach p w; attach_list attach nxt w' }"
  by (subst attach_list.simps) simp

partial_function (option) reverse_loop ::
  "addr option \<Rightarrow> addr option \<Rightarrow> node_heap \<Rightarrow> (addr option \<times> node_heap) option" where
  "reverse_loop prev tp h = (case tp of
      None \<Rightarrow> Some (prev, h)
    | Some t \<Rightarrow> do {
        nxt \<leftarrow> next_of h t;
        h' \<leftarrow> set_next t prev h;
        reverse_loop (Some t) nxt h' })"

definition reverse_list :: "addr option \<Rightarrow> node_heap \<Rightarrow> (addr option \<times> node_heap) option" where
  "reverse_list tp h = reverse_loop None tp h"

lemma reverse_loop_None [simp]: "reverse_loop prev None h = Some (prev, h)"
  by (simp add: reverse_loop.simps)

lemma reverse_loop_Some:
  "reverse_loop prev (Some t) h =
     do { nxt \<leftarrow> next_of h t; h' \<leftarrow> set_next t prev h; reverse_loop (Some t) nxt h' }"
  by (subst reverse_loop.simps) simp

text \<open>
  Contract between an executor and \<open>attach_list\<close>. \<open>accepts ps w\<close> is the precondition under
  which the nodes \<open>ps\<close> may be attached one after the other; attaching one of them may free it,
  resume it or link it somewhere, but leaves the nodes still to be attached untouched.
\<close>

locale executor =
  fixes attach :: "addr \<Rightarrow> 'w world_scheme \<Rightarrow> 'w world_scheme option"
    and accepts :: "addr list \<Rightarrow> 'w world_scheme \<Rightarrow> bool"
  assumes spares_rest:
    "accepts (a # as) w \<Longrightarrow> attach a w = Some w' \<Longrightarrow>
       accepts as w' \<and> (\<forall>q\<in>set as. nodes w' q = nodes w q)"
begin

lemma attach_list_fold:
  "node_list (nodes w) p as \<Longrightarrow> accepts as w \<Longrightarrow> attach_list attach p w = foldM_opt attach as w"
proof (induction as arbitrary: p w)
  case Nil
  then show ?case by simp
next
  case (Cons a as)
  from Cons.prems(1) obtain r where p: "p = Some a" and r: "next_of (nodes w) a = Some r"
    and rest: "node_list (nodes w) r as"
    by (auto split: option.splits)
  show ?case
  proof (cases "attach a w")
    case None
    with p r show ?thesis by (simp add: attach_list_Some)
  next
    case (Some w1)
    from spares_rest[OF Cons.prems(2) Some] have acc: "accepts as w1"
      and same: "\<And>q. q \<in> set as \<Longrightarrow> nodes w1 q = nodes w q" by auto
    have "node_list (nodes w1) r as" using rest node_list_cong[where h' = "nodes w1" and h = "nodes w" and as = as and p = r and q = None] same
    by simp
    from Cons.IH[OF this acc] p r Some show ?thesis by (simp add: attach_list_Some)
  qed
qed

end

locale total_executor = executor +
  assumes attach_total: "accepts (a # as) w \<Longrightarrow> \<exists>w'. attach a w = Some w'"
begin

lemma attach_list_returns:
  assumes "node_list (nodes w) p as" "accepts as w"
  shows "\<exists>w'. attach_list attach p w = Some w' \<and> accepts [] w'"
proof -
  have "\<exists>w'. foldM_opt attach as w = Some w' \<and> accepts [] w'"
    using assms(2) by (rule foldM_opt_inv) (metis attach_total spares_rest)
  with attach_list_fold[OF assms] show ?thesis by simp
qed

end

interpretation noop_executor: total_executor noop_attach "\<lambda>_ _. True"
  by unfold_locales (simp_all add: noop_attach_def)

interpretation new_thread_executor: total_executor new_thread_attach "\<lambda>_ _. True"
  by unfold_locales (auto simp: new_thread_attach_def)

text \<open>Reversal keeps every field but \<open>next\<close>, and touches the nodes of the list only.\<close>

definition same_payload :: "node_heap \<Rightarrow> node_heap \<Rightarrow> bool" where
  "same_payload h h' \<longleftrightarrow>
     (\<forall>q. map_option (\<lambda>n. n\<lparr>nd_next := None\<rparr>) (h' q) = map_option (\<lambda>n. n\<lparr>nd_next := None\<rparr>) (h q))"

lemma same_payload_refl [simp]: "same_payload h h"
  by (simp add: same_payload_def)

lemma same_payload_trans: "same_payload h h' \<Longrightarrow> same_payload h' h'' \<Longrightarrow> same_payload h h''"
  by (simp add: same_payload_def)

lemma same_payload_set_next: "set_next a p h = Some h' \<Longrightarrow> same_payload h h'"
  by (auto simp: same_payload_def set_next_def split: bind_splits)

lemma same_payload_task: "same_payload h h' \<Longrightarrow> task_of h' a = task_of h a"
proof -
  assume "same_payload h h'"
  then have "map_option (\<lambda>n. n\<lparr>nd_next := None\<rparr>) (h' a) = map_option (\<lambda>n. n\<lparr>nd_next := None\<rparr>) (h a)"
    by (simp add: same_payload_def)
  then show ?thesis
    by (cases "h a"; cases "h' a") (auto dest: arg_cong[where f = nd_task])
qed

lemma reverse_loop_spec:
  assumes "node_list h p as" "node_list h prev bs" "set as \<inter> set bs = {}"
  shows "\<exists>r h'. reverse_loop prev p h = Some (r, h') \<and> node_list h' r (rev as @ bs)
           \<and> (\<forall>q. q \<notin> set as \<longrightarrow> h' q = h q) \<and> same_payload h h'"
  using assms
proof (induction as arbitrary: p prev bs h)
  case Nil
  then show ?case by auto
next
  case (Cons a as)
  from Cons.prems(1) obtain n where p: "p = Some a" and n: "h a = Some n"
    and rest: "node_list h (nd_next n) as"
    by (auto simp: next_of_Some split: option.splits)
  define h1 where "h1 = h(a \<mapsto> n\<lparr>nd_next := prev\<rparr>)"
  have a: "a \<notin> set as" using lseg_distinct[OF Cons.prems(1)] by simp
  have b: "a \<notin> set bs" using Cons.prems(3) by simp
  have "node_list h1 (nd_next n) as" "node_list h1 (Some a) (a # bs)"
    using a b rest Cons.prems(2) by (simp_all add: h1_def)
  then obtain r h' where step: "reverse_loop (Some a) (nd_next n) h1 = Some (r, h')"
    and l: "node_list h' r (rev as @ a # bs)"
    and fr: "\<forall>q. q \<notin> set as \<longrightarrow> h' q = h1 q" and pl: "same_payload h1 h'"
    using Cons.IH[of h1 "nd_next n" "Some a" "a # bs"] a Cons.prems(3) by auto
  have "same_payload h h1" using n by (auto simp: h1_def same_payload_def)
  with step l fr pl p n show ?case
    by (auto simp: reverse_loop_Some next_of_Some h1_def intro: same_payload_trans)
qed

lemma reverse_list_spec:
  assumes "node_list h p as"
  shows "\<exists>r h'. reverse_list p h = Some (r, h') \<and> node_list h' r (rev as)
           \<and> (\<forall>q. q \<notin> set as \<longrightarrow> h' q = h q) \<and> same_payload h h'"
  using reverse_loop_spec[OF assms, of None "[]"] by (simp add: reverse_list_def)

text \<open>The list read from a heap and the payloads determine the nodes of the list.\<close>

lemma node_list_heap_eq:
  assumes "node_list h p as" "node_list h' p as" "same_payload h h'" "q \<in> set as"
  shows "h' q = h q"
proof -
  have nx: "next_of h' q = next_of h q"
    using assms(1,2,4)
  proof (induction as arbitrary: p)
    case (Cons a as)
    then obtain r r' where "next_of h a = Some r" "node_list h r as"
      "next_of h' a = Some r'" "node_list h' r' as"
      by (auto split: option.splits)
    moreover from this have "r = r'" using lseg_hd by metis
    ultimately show ?case using Cons.IH[of r] Cons.prems(3) by auto
  qed simp
  have pl: "map_option (\<lambda>n. n\<lparr>nd_next := None\<rparr>) (h' q) = map_option (\<lambda>n. n\<lparr>nd_next := None\<rparr>) (h q)"
    using assms(3) by (simp add: same_payload_def)
  show ?thesis
  proof (cases "h q"; cases "h' q")
    fix n n' assume nn: "h q = Some n" "h' q = Some n'"
    with nx have e: "nd_next n' = nd_next n" by (simp add: next_of_def)
    from nn pl have "n'\<lparr>nd_next := None\<rparr> = n\<lparr>nd_next := None\<rparr>" by simp
    then have "n'\<lparr>nd_next := None\<rparr>\<lparr>nd_next := nd_next n\<rparr> = n\<lparr>nd_next := None\<rparr>\<lparr>nd_next := nd_next n\<rparr>"
      by (rule arg_cong)
    with e have "n' = n" by (cases n; cases n') simp
    with nn show ?thesis by simp
  qed (use pl in auto)
qed

section \<open>\<open>jump_on\<close>\<close>

text \<open>
  The awaiter returned by \<open>jump_on(e)\<close> is itself the node at address \<open>this\<close>.
\<close>

definition create_node_await_ready :: bool where
  "create_node_await_ready = False"

definition create_node_await_suspend ::
  "(addr \<Rightarrow> 'w world_scheme \<Rightarrow> 'w world_scheme option) \<Rightarrow> addr \<Rightarrow> handle
     \<Rightarrow> 'w world_scheme \<Rightarrow> 'w world_scheme option" where
  "create_node_await_suspend attach this handle w = do {
     h \<leftarrow> set_task this (Some handle) (nodes w);
     attach this (w\<lparr>nodes := h\<rparr>) }"

definition create_node_await_resume :: "addr \<Rightarrow> 'w world_scheme \<Rightarrow> schedule_status option" where
  "create_node_await_resume this w = do { n \<leftarrow> nodes w this; Some \<lparr>what = nd_status n\<rparr> }"

section \<open>Properties\<close>

text \<open>
  \<open>attach_list\<close> hands every node of the list to the executor exactly once and in order,
  although the executor may free or relink a node as soon as it has it. The hypothesis is the
  executor's contract, with any precondition \<open>acc\<close> the executor may need: attaching a node
  leaves the nodes that are still to be attached untouched.
\<close>

theorem attach_list_visits_each_once:
  assumes "\<And>a as w w'. acc (a # as) w \<Longrightarrow> attach a w = Some w' \<Longrightarrow>
             acc as w' \<and> (\<forall>q\<in>set as. nodes w' q = nodes w q)"
    and "acc as w" and "node_list (nodes w) p as"
  shows "attach_list attach p w = foldM_opt attach as w"
proof -
  have "executor attach acc" using assms(1) by unfold_locales
  then show ?thesis using assms(2,3) by (simp add: executor.attach_list_fold)
qed

text \<open>Two suspended coroutines, each of which destroys its own node when it is resumed.\<close>

definition two_nodes :: world where
  "two_nodes = \<lparr>nodes = [1 \<mapsto> \<lparr>nd_next = Some 2, nd_task = Some 1, nd_status = ok\<rparr>,
                          2 \<mapsto> \<lparr>nd_next = None, nd_task = Some 2, nd_status = ok\<rparr>]\<rparr>"

definition free_self :: "handle \<Rightarrow> 'w world_scheme \<Rightarrow> 'w world_scheme option" where
  "free_self t w = Some (destroy_nodes [t] w)"

definition own_handles :: "addr list \<Rightarrow> 'w world_scheme \<Rightarrow> bool" where
  "own_handles as w \<longleftrightarrow> distinct as \<and> (\<forall>a\<in>set as. task_of (nodes w) a = Some a)"

lemma free_self_spares:
  assumes "own_handles (a # as) w" "this_thread_attach free_self a w = Some w'"
  shows "own_handles as w' \<and> (\<forall>q\<in>set as. nodes w' q = nodes w q)"
proof -
  have "w' = destroy_nodes [a] w"
    using assms by (auto simp: own_handles_def this_thread_attach_def free_self_def split: bind_splits)
  moreover have "q \<noteq> a" if "q \<in> set as" for q using assms(1) that by (auto simp: own_handles_def)
  ultimately show ?thesis using assms(1) by (auto simp: own_handles_def destroy_nodes_def)
qed

theorem attach_list_visits_each_once_witness:
  "attach_list (this_thread_attach free_self) (Some 1) two_nodes =
     foldM_opt (this_thread_attach free_self) [1, 2] two_nodes
   \<and> foldM_opt (this_thread_attach free_self) [1, 2] two_nodes = Some \<lparr>nodes = Map.empty\<rparr>"
proof
  show "attach_list (this_thread_attach free_self) (Some 1) two_nodes =
     foldM_opt (this_thread_attach free_self) [1, 2] two_nodes"
    by (rule attach_list_visits_each_once[where acc = own_handles, OF free_self_spares])
      (auto simp: own_handles_def two_nodes_def next_of_def)
  show "foldM_opt (this_thread_attach free_self) [1, 2] two_nodes = Some \<lparr>nodes = Map.empty\<rparr>"
    by (auto simp: this_thread_attach_def free_self_def destroy_nodes_def two_nodes_def fun_eq_iff)
qed

text \<open>
  \<open>reverse_list\<close> returns, without leaving the list, a list with the same nodes in the
  opposite order; nothing but \<open>next\<close> links of its nodes changes, and reversing the result
  restores the store exactly.
\<close>

theorem reverse_list_involutive:
  assumes "node_list h p as"
  shows "\<exists>r h'. reverse_list p h = Some (r, h') \<and> node_list h' r (rev as) \<and> same_payload h h'
           \<and> reverse_list r h' = Some (p, h)"
proof -
  obtain r h' where 1: "reverse_list p h = Some (r, h')" "node_list h' r (rev as)"
    "\<forall>q. q \<notin> set as \<longrightarrow> h' q = h q" "same_payload h h'"
    using reverse_list_spec[OF assms] by blast
  obtain r2 h2 where 2: "reverse_list r h' = Some (r2, h2)" "node_list h2 r2 as"
    "\<forall>q. q \<notin> set as \<longrightarrow> h2 q = h' q" "same_payload h' h2"
    using reverse_list_spec[OF 1(2)] by auto
  have r2: "r2 = p" using lseg_hd[OF assms] lseg_hd[OF 2(2)] by simp
  have "h2 q = h q" for q
    using 1 2 r2 assms node_list_heap_eq[of h p as h2 q] same_payload_trans[of h h' h2]
    by (cases "q \<in> set as") auto
  with 1 2 r2 show ?thesis by auto
qed

theorem reverse_list_involutive_witness:
  "\<exists>r h'. reverse_list (Some 1) (nodes two_nodes) = Some (r, h') \<and> node_list h' r (rev [1, 2])
     \<and> same_payload (nodes two_nodes) h' \<and> reverse_list r h' = Some (Some 1, nodes two_nodes)"
  by (rule reverse_list_involutive) (simp add: two_nodes_def next_of_def)

end
