(* ===== verification/Awaiters_Queue.thy ===== *)
theory Awaiters_Queue
  imports Executor
begin

text \<open>
  \<open>awaiters_queue\<close> of \<open>road.hpp\<close>: the intrusive FIFO of suspended awaiters, and the
  contract \<open>intrusive_queue\<close> that it shares with the \<open>task_queue\<close> of the thread pool. The
  queue object holds two pointers; the links are in the nodes.
\<close>

section \<open>The contract of an intrusive queue\<close>

text \<open>
  \<open>holds q h ps\<close>: the queue object \<open>q\<close> contains exactly the nodes \<open>ps\<close>, oldest first, in
  the store \<open>h\<close>.
\<close>

locale intrusive_queue =
  fixes push_list :: "'q \<Rightarrow> addr \<Rightarrow> addr \<Rightarrow> node_heap \<Rightarrow> ('q \<times> node_heap) option"
    and push :: "'q \<Rightarrow> addr \<Rightarrow> node_heap \<Rightarrow> ('q \<times> node_heap) option"
    and pop_all :: "'q \<Rightarrow> addr option \<times> 'q"
    and holds :: "'q \<Rightarrow> node_heap \<Rightarrow> addr list \<Rightarrow> bool"
  assumes push_list_holds:
    "holds q h ps \<Longrightarrow> node_list h (Some f) ls \<Longrightarrow> ls \<noteq> [] \<Longrightarrow> last ls = l \<Longrightarrow>
     set ps \<inter> set ls = {} \<Longrightarrow>
     \<exists>q' h'. push_list q f l h = Some (q', h') \<and> holds q' h' (ps @ ls)
       \<and> (\<forall>a. a \<notin> set ps \<longrightarrow> h' a = h a) \<and> same_payload h h'"
    and push_is_push_list: "push q p h = do { h' \<leftarrow> set_next p None h; push_list q p p h' }"
    and pop_all_holds:
    "holds q h ps \<Longrightarrow> \<exists>q'. pop_all q = ((case ps of [] \<Rightarrow> None | a # _ \<Rightarrow> Some a), q') \<and> holds q' h []"
    and holds_node_list: "holds q h ps \<Longrightarrow> \<exists>p. node_list h p ps"
    and holds_cong: "holds q h ps \<Longrightarrow> (\<And>a. a \<in> set ps \<Longrightarrow> h' a = h a) \<Longrightarrow> holds q h' ps"
begin

lemma holds_live: "holds q h ps \<Longrightarrow> a \<in> set ps \<Longrightarrow> h a \<noteq> None"
  using holds_node_list node_list_live by blast

lemma holds_distinct: "holds q h ps \<Longrightarrow> distinct ps"
  using holds_node_list lseg_distinct by blast

lemma push_holds:
  assumes "holds q h ps" "h p = Some n" "p \<notin> set ps"
  shows "\<exists>q' h'. push q p h = Some (q', h') \<and> holds q' h' (ps @ [p])
     \<and> (\<forall>a. a \<notin> set ps \<and> a \<noteq> p \<longrightarrow> h' a = h a) \<and> same_payload h h'"
proof -
  define h1 where "h1 = h(p \<mapsto> n\<lparr>nd_next := None\<rparr>)"
  have "holds q h1 ps" using assms(1) by (rule holds_cong) (use assms(3) in \<open>auto simp: h1_def\<close>)
  moreover have "node_list h1 (Some p) [p]" by (simp add: h1_def)
  ultimately obtain q' h' where "push_list q p p h1 = Some (q', h')" "holds q' h' (ps @ [p])"
    "\<forall>a. a \<notin> set ps \<longrightarrow> h' a = h1 a" "same_payload h1 h'"
    using push_list_holds[of q h1 ps p "[p]" p] assms(3) by auto
  moreover have "same_payload h h1" using assms(2) by (auto simp: h1_def same_payload_def)
  ultimately show ?thesis
    using assms(2) by (auto simp: push_is_push_list h1_def intro: same_payload_trans)
qed

lemma pop_all_list:
  assumes "holds q h ps"
  shows "\<exists>p q'. pop_all q = (p, q') \<and> node_list h p ps \<and> holds q' h []"
proof -
  obtain p where p: "node_list h p ps" using holds_node_list[OF assms] by blast
  from lseg_hd[OF p] pop_all_holds[OF assms] p show ?thesis by auto
qed

lemma push_all_holds:
  assumes "holds q h ps" "distinct (ps @ as)" "\<And>a. a \<in> set as \<Longrightarrow> h a \<noteq> None"
  shows "\<exists>q' h'. foldM_opt (\<lambda>p (q, h). push q p h) as (q, h) = Some (q', h')
           \<and> holds q' h' (ps @ as) \<and> same_payload h h'"
  using assms
proof (induction as arbitrary: q h ps)
  case Nil
  then show ?case by auto
next
  case (Cons p as)
  from Cons.prems(3) obtain n where "h p = Some n" by fastforce
  with push_holds[OF Cons.prems(1), of p n] Cons.prems(2) obtain q1 h1 where
    1: "push q p h = Some (q1, h1)" "holds q1 h1 (ps @ [p])" "same_payload h h1"
    and "\<forall>a. a \<notin> set ps \<and> a \<noteq> p \<longrightarrow> h1 a = h a" by auto
  with Cons.prems have "\<And>a. a \<in> set as \<Longrightarrow> h1 a \<noteq> None" by auto
  with Cons.IH[OF 1(2)] Cons.prems(2) obtain q' h' where
    "foldM_opt (\<lambda>p (q, h). push q p h) as (q1, h1) = Some (q', h')"
    "holds q' h' (ps @ p # as)" "same_payload h1 h'" by auto
  with 1 show ?case by (auto intro: same_payload_trans)
qed

text \<open>What is pushed one by one is popped in the order of the pushes.\<close>

lemma fifo:
  assumes "holds q h ps" "distinct (ps @ as)" "\<And>a. a \<in> set as \<Longrightarrow> h a \<noteq> None"
  shows "\<exists>q' h' p q''. foldM_opt (\<lambda>p (q, h). push q p h) as (q, h) = Some (q', h')
           \<and> pop_all q' = (p, q'') \<and> node_list h' p (ps @ as) \<and> holds q'' h' []"
proof -
  obtain q' h' where 1: "foldM_opt (\<lambda>p (q, h). push q p h) as (q, h) = Some (q', h')"
    "holds q' h' (ps @ as)" using push_all_holds[OF assms] by blast
  from pop_all_list[OF 1(2)] 1(1) show ?thesis by blast
qed

end

section \<open>The queue of awaiters\<close>

record awaiters_queue =
  aq_first :: "addr option"
  aq_last :: "addr option"

definition awaiters_queue_init :: awaiters_queue where
  "awaiters_queue_init = \<lparr>aq_first = None, aq_last = None\<rparr>"

definition aq_empty :: "awaiters_queue \<Rightarrow> bool" where
  "aq_empty q \<longleftrightarrow> aq_first q = None"

definition aq_push_list ::
  "awaiters_queue \<Rightarrow> addr \<Rightarrow> addr \<Rightarrow> node_heap \<Rightarrow> (awaiters_queue \<times> node_heap) option" where
  "aq_push_list q f l h = (case aq_first q of
      Some _ \<Rightarrow> do {
        old \<leftarrow> aq_last q;
        h' \<leftarrow> set_next old (Some f) h;
        Some (q\<lparr>aq_last := Some l\<rparr>, h') }
    | None \<Rightarrow> Some (q\<lparr>aq_first := Some f, aq_last := Some l\<rparr>, h))"

definition aq_push ::
  "awaiters_queue \<Rightarrow> addr \<Rightarrow> node_heap \<Rightarrow> (awaiters_queue \<times> node_heap) option" where
  "aq_push q node h = do {
     h' \<leftarrow> set_next node None h;
     aq_push_list q node node h' }"

text \<open>The walk \<open>while (last_->next) last_ = last_->next\<close>.\<close>

partial_function (option) find_last :: "addr \<Rightarrow> node_heap \<Rightarrow> addr option" where
  "find_last l h = do {
     nxt \<leftarrow> next_of h l;
     (case nxt of None \<Rightarrow> Some l | Some p \<Rightarrow> find_last p h) }"

definition aq_push_chain ::
  "awaiters_queue \<Rightarrow> addr option \<Rightarrow> node_heap \<Rightarrow> (awaiters_queue \<times> node_heap) option" where
  "aq_push_chain q p h = (case p of
      None \<Rightarrow> Some (q, h)
    | Some f \<Rightarrow> do { l \<leftarrow> find_last f h; aq_push_list q f l h })"

definition aq_pop_all :: "awaiters_queue \<Rightarrow> addr option \<times> awaiters_queue" where
  "aq_pop_all q = (aq_first q, q\<lparr>aq_first := None\<rparr>)"

definition aq_attach ::
  "awaiters_queue \<Rightarrow> addr \<Rightarrow> node_heap \<Rightarrow> (awaiters_queue \<times> node_heap) option" where
  "aq_attach q node h = (if task_of h node = None then None else aq_push q node h)"

text \<open>Move construction (result: new object, moved-from object) and move assignment.\<close>

definition aq_move_ctor :: "awaiters_queue \<Rightarrow> awaiters_queue \<times> awaiters_queue" where
  "aq_move_ctor other =
     (\<lparr>aq_first = aq_first other, aq_last = aq_last other\<rparr>,
      other\<lparr>aq_first := None, aq_last := None\<rparr>)"

definition aq_move_assign ::
  "awaiters_queue \<Rightarrow> awaiters_queue \<Rightarrow> awaiters_queue \<times> awaiters_queue" where
  "aq_move_assign this other =
     (this\<lparr>aq_first := aq_first other, aq_last := aq_last other\<rparr>,
      other\<lparr>aq_first := aq_first this, aq_last := aq_last this\<rparr>)"

section \<open>Invariant and behaviour\<close>

text \<open>The value of \<open>last\<close> is unspecified in an empty queue, as the source says.\<close>

definition aq_holds :: "awaiters_queue \<Rightarrow> node_heap \<Rightarrow> addr list \<Rightarrow> bool" where
  "aq_holds q h ps \<longleftrightarrow> node_list h (aq_first q) ps \<and> (ps \<noteq> [] \<longrightarrow> aq_last q = Some (last ps))"

lemma aq_holds_init [simp]: "aq_holds awaiters_queue_init h []"
  by (simp add: aq_holds_def awaiters_queue_init_def)

lemma aq_empty_holds: "aq_holds q h ps \<Longrightarrow> aq_empty q \<longleftrightarrow> ps = []"
  by (cases ps) (auto simp: aq_holds_def aq_empty_def)

lemma aq_push_list_holds:
  assumes "aq_holds q h ps" "node_list h (Some f) ls" "ls \<noteq> []" "last ls = l"
    "set ps \<inter> set ls = {}"
  shows "\<exists>q' h'. aq_push_list q f l h = Some (q', h') \<and> aq_holds q' h' (ps @ ls)
     \<and> (\<forall>a. a \<notin> set ps \<longrightarrow> h' a = h a) \<and> same_payload h h'"
proof (cases "ps = []")
  case True
  with assms show ?thesis by (auto simp: aq_push_list_def aq_holds_def)
next
  case False
  from assms(1) False have l: "aq_last q = Some (last ps)" and ps: "node_list h (aq_first q) ps"
    by (auto simp: aq_holds_def)
  from False ps obtain a where a: "aq_first q = Some a" by (cases ps) auto
  obtain n where n: "h (last ps) = Some n" using node_list_live[OF ps] False by fastforce
  define h' where "h' = h(last ps \<mapsto> n\<lparr>nd_next := Some f\<rparr>)"
  have "lseg (next_of h') (aq_first q) ps (Some f)"
    using lseg_link_last[OF ps False lseg_distinct[OF ps]] by (simp add: h'_def)
  moreover have "last ps \<notin> set ls" using assms(5) False last_in_set by blast
  then have "node_list h' (Some f) ls" using assms(2) by (simp add: h'_def)
  ultimately have "node_list h' (aq_first q) (ps @ ls)" by (auto simp: lseg_append)
  moreover have "same_payload h h'" using n by (auto simp: h'_def same_payload_def)
  ultimately show ?thesis
    using a l n assms(3,4) False
    by (auto simp: aq_push_list_def aq_holds_def h'_def)
qed

interpretation awaiters_queue: intrusive_queue aq_push_list aq_push aq_pop_all aq_holds
proof unfold_locales
  fix q h ps
  assume a: "aq_holds q h ps"
  then show "\<exists>q'. aq_pop_all q = ((case ps of [] \<Rightarrow> None | a # _ \<Rightarrow> Some a), q') \<and> aq_holds q' h []"
    using lseg_hd[of "next_of h" "aq_first q" ps]
    by (auto simp: aq_pop_all_def aq_holds_def)
  show "\<exists>p. node_list h p ps" using a by (auto simp: aq_holds_def)
  fix h'
  assume "\<And>a. a \<in> set ps \<Longrightarrow> h' a = h a"
  with a show "aq_holds q h' ps"
    using node_list_cong[of ps h' h "aq_first q" None] by (simp add: aq_holds_def)
qed (rule aq_push_list_holds, auto simp: aq_push_def)

lemma find_last_end [simp]: "next_of h l = Some None \<Longrightarrow> find_last l h = Some l"
  by (subst find_last.simps) simp

lemma find_last_step [simp]: "next_of h l = Some (Some p) \<Longrightarrow> find_last l h = find_last p h"
  by (subst find_last.simps) simp

lemma find_last_spec:
  assumes "node_list h (Some f) ls"
  shows "find_last f h = Some (last ls)"
  using assms
proof (induction ls arbitrary: f)
  case Nil
  then show ?case by simp
next
  case (Cons a ls)
  then obtain r where "a = f" "next_of h f = Some r" "node_list h r ls"
    by (auto split: option.splits)
  with Cons.IH show ?case by (cases ls) auto
qed

lemma aq_push_chain_holds:
  assumes "aq_holds q h ps" "node_list h p ls" "set ps \<inter> set ls = {}"
  shows "\<exists>q' h'. aq_push_chain q p h = Some (q', h') \<and> aq_holds q' h' (ps @ ls)
     \<and> (\<forall>a. a \<notin> set ps \<longrightarrow> h' a = h a)"
proof (cases p)
  case None
  with assms show ?thesis by (simp add: aq_push_chain_def)
next
  case (Some f)
  with assms(2) have "ls \<noteq> []" by auto
  with Some assms find_last_spec[of h f ls] aq_push_list_holds[OF assms(1), of f ls "last ls"]
  show ?thesis by (auto simp: aq_push_chain_def)
qed

lemma aq_move_ctor_holds:
  "aq_holds q h ps \<Longrightarrow> aq_move_ctor q = (new, old) \<Longrightarrow> aq_holds new h ps \<and> aq_holds old h []"
  by (auto simp: aq_move_ctor_def aq_holds_def)

lemma aq_move_assign_holds:
  "aq_holds q h ps \<Longrightarrow> aq_holds r h rs \<Longrightarrow> aq_move_assign q r = (q', r') \<Longrightarrow>
     aq_holds q' h rs \<and> aq_holds r' h ps"
  by (auto simp: aq_move_assign_def aq_holds_def)

lemma aq_holds_construct: "aq_holds q h ps \<Longrightarrow> p \<notin> set ps \<Longrightarrow> aq_holds q (h(p \<mapsto> n)) ps"
  by (erule awaiters_queue.holds_cong) auto

lemma aq_holds_destroy:
  "aq_holds q (nodes w) ps \<Longrightarrow> set as \<inter> set ps = {} \<Longrightarrow> aq_holds q (nodes (destroy_nodes as w)) ps"
  by (erule awaiters_queue.holds_cong) (auto simp: destroy_nodes_def)

section \<open>The queue as an executor\<close>

record queue_world = world +
  ready :: awaiters_queue

definition ready_attach :: "addr \<Rightarrow> 'w queue_world_scheme \<Rightarrow> 'w queue_world_scheme option" where
  "ready_attach node w = do {
     (q, h) \<leftarrow> aq_attach (ready w) node (nodes w);
     Some (w\<lparr>nodes := h, ready := q\<rparr>) }"

definition ready_accepts :: "addr list \<Rightarrow> 'w queue_world_scheme \<Rightarrow> bool" where
  "ready_accepts as w \<longleftrightarrow> distinct as \<and> (\<forall>a\<in>set as. task_of (nodes w) a \<noteq> None) \<and>
     (\<exists>ps. aq_holds (ready w) (nodes w) ps \<and> set ps \<inter> set as = {})"

lemma ready_attach_spec:
  assumes "aq_holds (ready w) (nodes w) ps" "task_of (nodes w) a \<noteq> None" "a \<notin> set ps"
  shows "\<exists>q h. ready_attach a w = Some (w\<lparr>nodes := h, ready := q\<rparr>) \<and> aq_holds q h (ps @ [a])
     \<and> (\<forall>b. b \<notin> set ps \<and> b \<noteq> a \<longrightarrow> h b = nodes w b) \<and> same_payload (nodes w) h"
proof -
  obtain n where "nodes w a = Some n" using assms(2) by (cases "nodes w a") auto
  with awaiters_queue.push_holds[OF assms(1) this assms(3)] assms(2) obtain q' h' where
    "aq_push (ready w) a (nodes w) = Some (q', h')" "aq_holds q' h' (ps @ [a])"
    "\<forall>b. b \<notin> set ps \<and> b \<noteq> a \<longrightarrow> h' b = nodes w b" "same_payload (nodes w) h'" by blast
  with assms(2) show ?thesis
    by (intro exI[of _ q'] exI[of _ h']) (auto simp: ready_attach_def aq_attach_def)
qed

interpretation ready_executor: total_executor ready_attach ready_accepts
proof unfold_locales
  fix a as and w w' :: "'w queue_world_scheme"
  assume acc: "ready_accepts (a # as) w"
  then obtain ps where ps: "aq_holds (ready w) (nodes w) ps" "set ps \<inter> set (a # as) = {}"
    and t: "task_of (nodes w) a \<noteq> None" by (auto simp: ready_accepts_def)
  with ready_attach_spec[of w ps a] obtain q h where
    1: "ready_attach a w = Some (w\<lparr>nodes := h, ready := q\<rparr>)" "aq_holds q h (ps @ [a])"
    "\<forall>b. b \<notin> set ps \<and> b \<noteq> a \<longrightarrow> h b = nodes w b" "same_payload (nodes w) h" by auto
  then show "\<exists>w'. ready_attach a w = Some w'" by blast
  assume "ready_attach a w = Some w'"
  with 1 have w': "w' = w\<lparr>nodes := h, ready := q\<rparr>" by simp
  have same: "h b = nodes w b" if "b \<in> set as" for b
    using 1(3) that acc ps(2) by (auto simp: ready_accepts_def)
  have "ready_accepts as w'"
    using acc ps 1(2) same by (auto simp: ready_accepts_def w' intro!: exI[of _ "ps @ [a]"])
  with same show "ready_accepts as w' \<and> (\<forall>q\<in>set as. nodes w' q = nodes w q)" by (simp add: w')
qed

text \<open>Attaching a whole list to the queue appends it, in order.\<close>

lemma ready_fold_holds:
  assumes "aq_holds (ready w) (nodes w) ps" "distinct (ps @ as)"
    "\<And>a. a \<in> set as \<Longrightarrow> task_of (nodes w) a \<noteq> None"
  shows "\<exists>q h. foldM_opt ready_attach as w = Some (w\<lparr>nodes := h, ready := q\<rparr>)
           \<and> aq_holds q h (ps @ as) \<and> same_payload (nodes w) h
           \<and> (\<forall>b. b \<notin> set ps \<union> set as \<longrightarrow> h b = nodes w b)"
  using assms
proof (induction as arbitrary: w ps)
  case Nil
  then show ?case by (auto intro!: exI[of _ "ready w"] exI[of _ "nodes w"])
next
  case (Cons a as)
  from ready_attach_spec[OF Cons.prems(1), of a] Cons.prems obtain q h where
    1: "ready_attach a w = Some (w\<lparr>nodes := h, ready := q\<rparr>)" "aq_holds q h (ps @ [a])"
    "\<forall>b. b \<notin> set ps \<and> b \<noteq> a \<longrightarrow> h b = nodes w b" "same_payload (nodes w) h" by auto
  let ?w = "w\<lparr>nodes := h, ready := q\<rparr>"
  have t: "task_of (nodes ?w) b \<noteq> None" if "b \<in> set as" for b
    using that Cons.prems(3)[of b] 1(4) by (simp add: same_payload_task)
  from Cons.IH[of ?w "ps @ [a]"] 1(2) t Cons.prems(2) obtain q' h' where
    "foldM_opt ready_attach as ?w = Some (?w\<lparr>nodes := h', ready := q'\<rparr>)"
    "aq_holds q' h' (ps @ a # as)" "same_payload h h'"
    "\<forall>b. b \<notin> set (ps @ [a]) \<union> set as \<longrightarrow> h' b = h b" by auto
  with 1 show ?case by (auto intro: same_payload_trans)
qed

section \<open>Properties\<close>

text \<open>
  Nodes pushed one by one into an awaiters queue are popped by \<open>pop_all\<close> as one list, older
  nodes first and in the order of the pushes, and the queue is empty afterwards; no push touches
  a dead node or fails.
\<close>

theorem awaiters_queue_fifo:
  assumes "aq_holds q h ps" "distinct (ps @ as)" "\<And>a. a \<in> set as \<Longrightarrow> h a \<noteq> None"
  shows "\<exists>q' h' p q''. foldM_opt (\<lambda>p (q, h). aq_push q p h) as (q, h) = Some (q', h')
           \<and> aq_pop_all q' = (p, q'') \<and> node_list h' p (ps @ as) \<and> aq_holds q'' h' []"
  using assms by (rule awaiters_queue.fifo)

theorem awaiters_queue_fifo_witness:
  "\<exists>q' h' p q''. foldM_opt (\<lambda>p (q, h). aq_push q p h) [1, 2] (awaiters_queue_init, nodes two_nodes)
       = Some (q', h')
     \<and> aq_pop_all q' = (p, q'') \<and> node_list h' p ([] @ [1, 2]) \<and> aq_holds q'' h' []"
  by (rule awaiters_queue_fifo) (auto simp: two_nodes_def)

end
