(* ===== verification/Road.thy ===== *)
theory Road
  imports Awaiters_Queue
begin

text \<open>
  \<open>road\<close> of \<open>road.hpp\<close>: a flag that coroutines may wait for. The road and the queue of its
  waiters are part of the world, since the coroutines resumed by \<open>open\<close> may close the road again
  or wait for it again while \<open>open\<close> is still running.
\<close>

section \<open>State and operations\<close>

record road =
  rd_waiters :: awaiters_queue
  rd_closed :: bool

record road_world = queue_world +
  the_road :: road

definition road_init :: road where
  "road_init = \<lparr>rd_waiters = awaiters_queue_init, rd_closed = False\<rparr>"

definition road_close :: "'w road_world_scheme \<Rightarrow> 'w road_world_scheme option" where
  "road_close w = (if rd_closed (the_road w) then None
     else Some (w\<lparr>the_road := (the_road w)\<lparr>rd_closed := True\<rparr>\<rparr>))"

definition road_is_closed :: "'w road_world_scheme \<Rightarrow> bool" where
  "road_is_closed w = rd_closed (the_road w)"

definition road_open ::
  "(addr \<Rightarrow> 'w road_world_scheme \<Rightarrow> 'w road_world_scheme option)
     \<Rightarrow> 'w road_world_scheme \<Rightarrow> 'w road_world_scheme option" where
  "road_open attach w =
     (let w1 = w\<lparr>the_road := (the_road w)\<lparr>rd_closed := False\<rparr>\<rparr>;
          (t, q) = aq_pop_all (rd_waiters (the_road w1));
          w2 = w1\<lparr>the_road := (the_road w1)\<lparr>rd_waiters := q\<rparr>\<rparr>
      in attach_list attach t w2)"

text \<open>The awaiter \<open>open_awaiter\<close> is the node at \<open>this\<close>.\<close>

definition open_awaiter_await_ready :: "'w road_world_scheme \<Rightarrow> bool" where
  "open_awaiter_await_ready w \<longleftrightarrow> \<not> road_is_closed w"

definition open_awaiter_await_suspend ::
  "addr \<Rightarrow> handle \<Rightarrow> 'w road_world_scheme \<Rightarrow> 'w road_world_scheme option" where
  "open_awaiter_await_suspend this hnd w = do {
     h \<leftarrow> set_task this (Some hnd) (nodes w);
     (q, h') \<leftarrow> aq_push (rd_waiters (the_road w)) this h;
     Some (w\<lparr>nodes := h', the_road := (the_road w)\<lparr>rd_waiters := q\<rparr>\<rparr>) }"

definition open_awaiter_await_resume :: "'w road_world_scheme \<Rightarrow> bool" where
  "open_awaiter_await_resume w \<longleftrightarrow> \<not> road_is_closed w"

section \<open>Behaviour of the operations\<close>

definition road_waiting :: "'w road_world_scheme \<Rightarrow> addr list \<Rightarrow> bool" where
  "road_waiting w ps \<longleftrightarrow> aq_holds (rd_waiters (the_road w)) (nodes w) ps"

definition road_opened :: "'w road_world_scheme \<Rightarrow> 'w road_world_scheme" where
  "road_opened w = w\<lparr>the_road := (the_road w)\<lparr>rd_closed := False,
       rd_waiters := snd (aq_pop_all (rd_waiters (the_road w)))\<rparr>\<rparr>"

lemma road_opened_simps [simp]:
  "nodes (road_opened w) = nodes w" "ready (road_opened w) = ready w"
  "rd_closed (the_road (road_opened w)) = False"
  by (simp_all add: road_opened_def)

lemma road_opened_waiting: "road_waiting w ps \<Longrightarrow> road_waiting (road_opened w) []"
  by (auto simp: road_waiting_def road_opened_def aq_pop_all_def aq_holds_def)

lemma road_open_unfold:
  "road_open attach w = attach_list attach (aq_first (rd_waiters (the_road w))) (road_opened w)"
  by (simp add: road_open_def road_opened_def aq_pop_all_def)

lemma road_suspend_spec:
  assumes "road_waiting w ps" "nodes w p = Some n" "p \<notin> set ps"
  shows "\<exists>q h. open_awaiter_await_suspend p hnd w =
             Some (w\<lparr>nodes := h, the_road := (the_road w)\<lparr>rd_waiters := q\<rparr>\<rparr>)
           \<and> aq_holds q h (ps @ [p]) \<and> task_of h p = Some hnd
           \<and> (\<forall>a. a \<noteq> p \<longrightarrow> task_of h a = task_of (nodes w) a)
           \<and> (\<forall>a. a \<notin> set ps \<and> a \<noteq> p \<longrightarrow> h a = nodes w a)"
proof -
  let ?h = "(nodes w)(p \<mapsto> n\<lparr>nd_task := Some hnd\<rparr>)"
  have "aq_holds (rd_waiters (the_road w)) ?h ps"
    using assms(1)[unfolded road_waiting_def]
    by (rule awaiters_queue.holds_cong) (use assms(3) in auto)
  from awaiters_queue.push_holds[OF this _ assms(3), of "n\<lparr>nd_task := Some hnd\<rparr>"]
  obtain q h' where 1: "aq_push (rd_waiters (the_road w)) p ?h = Some (q, h')"
    "aq_holds q h' (ps @ [p])" "\<forall>a. a \<notin> set ps \<and> a \<noteq> p \<longrightarrow> h' a = ?h a" "same_payload ?h h'"
    by auto
  then have "task_of h' a = task_of ?h a" for a by (simp add: same_payload_task)
  with 1 assms(2) show ?thesis
    by (intro exI[of _ q] exI[of _ h']) (auto simp: open_awaiter_await_suspend_def)
qed

section \<open>Runs of a road whose executor is a run queue\<close>

text \<open>
  All the interleavings of coroutines that close the road, wait for it and open it, with the
  run queue \<open>ready\<close> as the executor passed to \<open>open\<close>. \<open>road_reach w ss rs\<close>: the state \<open>w\<close> is
  reachable, \<open>ss\<close> are the awaiters suspended so far, in order, and \<open>rs\<close> the ones resumed so far.
  A resumed coroutine destroys its awaiter.
\<close>

inductive road_reach :: "road_world \<Rightarrow> addr list \<Rightarrow> addr list \<Rightarrow> bool" where
  init: "road_reach \<lparr>nodes = Map.empty, ready = awaiters_queue_init, the_road = road_init\<rparr> [] []"
| close: "road_reach w ss rs \<Longrightarrow> road_close w = Some w' \<Longrightarrow> road_reach w' ss rs"
| pass: "road_reach w ss rs \<Longrightarrow> open_awaiter_await_ready w \<Longrightarrow> road_reach w ss rs"
| suspend: "road_reach w ss rs \<Longrightarrow> \<not> open_awaiter_await_ready w \<Longrightarrow> nodes w p = None \<Longrightarrow>
    open_awaiter_await_suspend p hnd (construct_node p w) = Some w' \<Longrightarrow>
    road_reach w' (ss @ [p]) rs"
| open_road: "road_reach w ss rs \<Longrightarrow> road_open ready_attach w = Some w' \<Longrightarrow> road_reach w' ss rs"
| run: "road_reach w ss rs \<Longrightarrow> aq_pop_all (ready w) = (t, q) \<Longrightarrow> node_list (nodes w) t as \<Longrightarrow>
    road_reach (destroy_nodes as (w\<lparr>ready := q\<rparr>)) ss (rs @ as)"

text \<open>
  Invariant: the waiters and the run queue hold disjoint lists of nodes with a task, waiters
  exist only while the road is closed, and every suspended awaiter is, in order, resumed, in the
  run queue or waiting.
\<close>

definition road_inv :: "'w road_world_scheme \<Rightarrow> addr list \<Rightarrow> addr list \<Rightarrow> addr list \<Rightarrow> addr list \<Rightarrow> bool" where
  "road_inv w ss rs qs ps \<longleftrightarrow> road_waiting w ps \<and> aq_holds (ready w) (nodes w) qs
     \<and> set qs \<inter> set ps = {} \<and> (\<forall>a\<in>set qs \<union> set ps. task_of (nodes w) a \<noteq> None)
     \<and> (ps \<noteq> [] \<longrightarrow> road_is_closed w) \<and> ss = rs @ qs @ ps"

lemma road_inv_close: "road_inv w ss rs qs ps \<Longrightarrow> road_close w = Some w' \<Longrightarrow> road_inv w' ss rs qs ps"
  by (auto simp: road_inv_def road_waiting_def road_close_def road_is_closed_def split: if_splits)

lemma road_inv_suspend:
  assumes inv: "road_inv w ss rs qs ps" and cl: "\<not> open_awaiter_await_ready w"
    and fresh: "nodes w p = None"
    and s: "open_awaiter_await_suspend p hnd (construct_node p w) = Some w'"
  shows "road_inv w' (ss @ [p]) rs qs (ps @ [p])"
proof -
  have p: "p \<notin> set ps" "p \<notin> set qs"
    using inv fresh awaiters_queue.holds_live unfolding road_inv_def road_waiting_def by blast+
  have "road_waiting (construct_node p w) ps" and q: "aq_holds (ready w) (nodes (construct_node p w)) qs"
    using inv aq_holds_construct[OF _ p(1)] aq_holds_construct[OF _ p(2)]
    by (simp_all add: road_inv_def road_waiting_def construct_node_def)
  from road_suspend_spec[OF this(1), of p task_node_init hnd] s p obtain q' h where
    w': "w' = (construct_node p w)\<lparr>nodes := h, the_road := (the_road (construct_node p w))\<lparr>rd_waiters := q'\<rparr>\<rparr>"
    and 1: "aq_holds q' h (ps @ [p])" "task_of h p = Some hnd"
    and 2: "\<forall>a. a \<noteq> p \<longrightarrow> task_of h a = task_of ((nodes w)(p \<mapsto> task_node_init)) a"
    and 3: "\<forall>a. a \<notin> set ps \<and> a \<noteq> p \<longrightarrow> h a = ((nodes w)(p \<mapsto> task_node_init)) a" by auto
  have "aq_holds (ready w) h qs"
    using q by (rule awaiters_queue.holds_cong) (use 3 inv p in \<open>auto simp: road_inv_def\<close>)
  moreover have "rd_closed (the_road w)"
    using cl by (simp add: open_awaiter_await_ready_def road_is_closed_def)
  ultimately show ?thesis
    using inv p 1 2 unfolding road_inv_def w'
    by (auto simp: road_waiting_def road_is_closed_def construct_node_def)
qed

lemma road_inv_open:
  assumes inv: "road_inv w ss rs qs ps" and s: "road_open ready_attach w = Some w'"
  shows "road_inv w' ss rs (qs @ ps) []"
proof -
  let ?w = "road_opened w"
  have ps: "node_list (nodes w) (aq_first (rd_waiters (the_road w))) ps"
    and qs: "aq_holds (ready w) (nodes w) qs"
    and t: "\<And>a. a \<in> set ps \<Longrightarrow> task_of (nodes w) a \<noteq> None" and disj: "set qs \<inter> set ps = {}"
    using inv by (auto simp: road_inv_def road_waiting_def aq_holds_def)
  have dist: "distinct (qs @ ps)"
    using lseg_distinct[OF ps] awaiters_queue.holds_distinct[OF qs] disj by auto
  have acc: "ready_accepts ps ?w"
    using dist t qs unfolding ready_accepts_def by (auto intro!: exI[of _ qs])
  have "road_open ready_attach w = foldM_opt ready_attach ps ?w"
    unfolding road_open_unfold using ps acc by (intro ready_executor.attach_list_fold) auto
  moreover obtain q h where "foldM_opt ready_attach ps ?w = Some (?w\<lparr>nodes := h, ready := q\<rparr>)"
    "aq_holds q h (qs @ ps)" "same_payload (nodes w) h"
    using ready_fold_holds[of ?w qs ps] qs dist t by auto
  ultimately show ?thesis using inv s road_opened_waiting[of w ps]
    by (auto simp: road_inv_def road_waiting_def aq_holds_def same_payload_task)
qed

lemma road_inv_run:
  assumes inv: "road_inv w ss rs qs ps" and pop: "aq_pop_all (ready w) = (t, q)"
    and l: "node_list (nodes w) t as"
  shows "road_inv (destroy_nodes as (w\<lparr>ready := q\<rparr>)) ss (rs @ as) [] ps"
proof -
  have as: "as = qs"
    using inv pop l lseg_unique unfolding road_inv_def aq_holds_def aq_pop_all_def by blast
  have "aq_holds (rd_waiters (the_road w)) (nodes (destroy_nodes as (w\<lparr>ready := q\<rparr>))) ps"
    using aq_holds_destroy[of _ "w\<lparr>ready := q\<rparr>" ps as] inv
    by (simp add: road_inv_def road_waiting_def as)
  with inv pop show ?thesis unfolding road_inv_def as
    by (auto simp: road_waiting_def destroy_nodes_def aq_pop_all_def aq_holds_def road_is_closed_def)
qed

lemma road_reach_inv: "road_reach w ss rs \<Longrightarrow> \<exists>qs ps. road_inv w ss rs qs ps"
proof (induction rule: road_reach.induct)
  case init
  show ?case
    by (rule exI[of _ "[]"], rule exI[of _ "[]"])
      (simp add: road_inv_def road_waiting_def road_init_def)
next
  case (close w ss rs w')
  then show ?case using road_inv_close by blast
next
  case (suspend w ss rs p hnd w')
  then show ?case using road_inv_suspend by blast
next
  case (open_road w ss rs w')
  then show ?case using road_inv_open by blast
next
  case (run w ss rs t q as)
  then show ?case using road_inv_run by blast
qed

section \<open>Properties\<close>

text \<open>
  \<open>open\<close> marks the road open, empties the queue of waiters and then hands exactly the
  waiters that were queued before the call to the executor, in the order in which they
  suspended. Whatever the resumed coroutines do to the road (close it, wait again), no waiter is
  attached twice by this call and none is skipped.
\<close>

theorem road_open_wakes_all:
  assumes "\<And>a as w w'. acc (a # as) w \<Longrightarrow> attach a w = Some w' \<Longrightarrow>
             acc as w' \<and> (\<forall>q\<in>set as. nodes w' q = nodes w q)"
    and "road_waiting w ps" and "acc ps (road_opened w)"
  shows "road_open attach w = foldM_opt attach ps (road_opened w) \<and> road_waiting (road_opened w) []"
proof -
  have "executor attach acc" using assms(1) by unfold_locales
  moreover have "node_list (nodes (road_opened w)) (aq_first (rd_waiters (the_road w))) ps"
    using assms(2) by (simp add: road_waiting_def aq_holds_def)
  ultimately show ?thesis
    using assms(2,3) road_opened_waiting by (auto simp: road_open_unfold executor.attach_list_fold)
qed

definition road_example :: road_world where
  "road_example = \<lparr>nodes = nodes two_nodes, ready = awaiters_queue_init,
     the_road = \<lparr>rd_waiters = \<lparr>aq_first = Some 1, aq_last = Some 2\<rparr>, rd_closed = True\<rparr>\<rparr>"

theorem road_open_wakes_all_witness:
  "road_open ready_attach road_example = foldM_opt ready_attach [1, 2] (road_opened road_example)
     \<and> road_waiting (road_opened road_example) []"
proof (rule road_open_wakes_all[where acc = ready_accepts])
  show "road_waiting road_example [1, 2]"
    by (simp add: road_waiting_def road_example_def aq_holds_def two_nodes_def next_of_def)
  show "ready_accepts [1, 2] (road_opened road_example)"
    by (auto simp: ready_accepts_def road_example_def two_nodes_def road_opened_def
        intro!: exI[of _ "[]"])
qed (rule ready_executor.spares_rest)

text \<open>
  With an executor that runs what it gets later and in order, the awaiters resumed so far, those in the run
  queue and those still waiting are together exactly the awaiters that suspended, in this order. (What holds
  for any executor is the subject of \<open>Road_Runs\<close>.)
\<close>

lemma road_queue_fifo:
  assumes "road_reach w ss rs"
  shows "\<exists>qs ps. road_waiting w ps \<and> aq_holds (ready w) (nodes w) qs \<and> ss = rs @ qs @ ps
           \<and> (\<not> road_is_closed w \<longrightarrow> ps = [])"
  using road_reach_inv[OF assms] unfolding road_inv_def by blast

end
