(* ===== verification/Road_Runs.thy ===== *)
theory Road_Runs
  imports Road "HOL-Library.Multiset"
begin

text \<open>
  \<open>road.hpp\<close> with any executor: what \<open>open\<close> hands over may be resumed at once, inside of \<open>attach\<close>, or at any time
  later and in any order, and what runs meanwhile may close the road, wait for it, and open it again while an
  outer call of \<open>open\<close> is still in its loop.
\<close>

section \<open>The steps\<close>

text \<open>
  \<open>rn_opens\<close> are the calls of \<open>open\<close> that have not returned, the innermost first, each with the pointer
  \<open>top\<close> of its loop in \<open>attach_list\<close>; \<open>rn_held\<close> are the nodes the executor has and has not resumed.
\<close>

record road_run = road_world +
  rn_opens :: "addr option list"
  rn_held :: "addr list"

definition open_begins :: "road_run \<Rightarrow> road_run" where
  "open_begins w =
     (let w1 = w\<lparr>the_road := (the_road w)\<lparr>rd_closed := False\<rparr>\<rparr>;
          (t, q) = aq_pop_all (rd_waiters (the_road w1))
      in w1\<lparr>the_road := (the_road w1)\<lparr>rd_waiters := q\<rparr>, rn_opens := t # rn_opens w\<rparr>)"

text \<open>One round of the loop reads \<open>next\<close> and calls \<open>attach\<close>; the loop ends at a null pointer.\<close>

definition open_round :: "road_run \<Rightarrow> (addr \<times> road_run) option" where
  "open_round w = (case rn_opens w of
      Some p # ts \<Rightarrow> do {
        nxt \<leftarrow> next_of (nodes w) p;
        if task_of (nodes w) p = None then None
        else Some (p, w\<lparr>rn_opens := nxt # ts, rn_held := rn_held w @ [p]\<rparr>) }
    | _ \<Rightarrow> None)"

definition open_ends :: "road_run \<Rightarrow> road_run option" where
  "open_ends w = (case rn_opens w of None # ts \<Rightarrow> Some (w\<lparr>rn_opens := ts\<rparr>) | _ \<Rightarrow> None)"

lemma open_is_road_open:
  "road_open attach w = attach_list attach (hd (rn_opens (open_begins w))) ((open_begins w)\<lparr>rn_opens := rn_opens w\<rparr>)"
  "rn_opens w = Some p # ts \<Longrightarrow> attach_list attach (Some p) w
     = do { nxt \<leftarrow> next_of (nodes w) p; w' \<leftarrow> attach p w; attach_list attach nxt w' }"
  by (cases w; simp add: road_open_def open_begins_def aq_pop_all_def) (rule attach_list_Some)

text \<open>The executor links the nodes it has as it likes, and resumes one; the awaiter is destroyed after it.\<close>

definition executor_links :: "addr \<Rightarrow> addr option \<Rightarrow> road_run \<Rightarrow> road_run option" where
  "executor_links p x w = do { h \<leftarrow> set_next p x (nodes w); Some (w\<lparr>nodes := h\<rparr>) }"

definition executor_resumes :: "addr \<Rightarrow> road_run \<Rightarrow> road_run" where
  "executor_resumes p w = destroy_nodes [p] (w\<lparr>rn_held := remove1 p (rn_held w)\<rparr>)"

text \<open>
  \<open>road_runs w ss hs rs nested\<close>: \<open>w\<close> is reachable; \<open>ss\<close>, \<open>hs\<close>, \<open>rs\<close> are the awaiters that suspended, that were
  handed to the executor and that were resumed so far, in order; \<open>nested\<close> says that \<open>open\<close> was called while
  another call still had waiters to hand over.
\<close>

inductive road_runs :: "road_run \<Rightarrow> addr list \<Rightarrow> addr list \<Rightarrow> addr list \<Rightarrow> bool \<Rightarrow> bool" where
  init: "road_runs \<lparr>nodes = Map.empty, ready = awaiters_queue_init, the_road = road_init, rn_opens = [], rn_held = []\<rparr> [] [] [] False"
| close: "road_runs w ss hs rs nested \<Longrightarrow> road_close w = Some w' \<Longrightarrow> road_runs w' ss hs rs nested"
| suspend: "road_runs w ss hs rs nested \<Longrightarrow> \<not> open_awaiter_await_ready w \<Longrightarrow> nodes w p = None \<Longrightarrow>
    open_awaiter_await_suspend p hnd (construct_node p w) = Some w' \<Longrightarrow> road_runs w' (ss @ [p]) hs rs nested"
| begins: "road_runs w ss hs rs nested \<Longrightarrow> road_runs (open_begins w) ss hs rs (nested \<or> (\<exists>t\<in>set (rn_opens w). t \<noteq> None))"
| round: "road_runs w ss hs rs nested \<Longrightarrow> open_round w = Some (p, w') \<Longrightarrow> road_runs w' ss (hs @ [p]) rs nested"
| ends: "road_runs w ss hs rs nested \<Longrightarrow> open_ends w = Some w' \<Longrightarrow> road_runs w' ss hs rs nested"
| links: "road_runs w ss hs rs nested \<Longrightarrow> p \<in> set (rn_held w) \<Longrightarrow> executor_links p x w = Some w' \<Longrightarrow> road_runs w' ss hs rs nested"
| resumes: "road_runs w ss hs rs nested \<Longrightarrow> p \<in> set (rn_held w) \<Longrightarrow> road_runs (executor_resumes p w) ss hs (rs @ [p]) nested"

section \<open>Invariant\<close>

definition runs_inv :: "road_run \<Rightarrow> addr list \<Rightarrow> addr list \<Rightarrow> addr list \<Rightarrow> bool \<Rightarrow> addr list list \<Rightarrow> addr list \<Rightarrow> bool" where
  "runs_inv w ss hs rs nested ls ps \<longleftrightarrow> road_waiting w ps \<and> list_all2 (node_list (nodes w)) (rn_opens w) ls
     \<and> distinct (rn_held w @ concat ls @ ps) \<and> (\<forall>a\<in>set (rn_held w @ concat ls @ ps). task_of (nodes w) a \<noteq> None)
     \<and> mset hs = mset rs + mset (rn_held w) \<and> mset ss = mset hs + mset (concat ls) + mset ps
     \<and> (\<not> road_is_closed w \<longrightarrow> ps = []) \<and> (\<exists>xs. ss = xs @ ps) \<and> (\<forall>l\<in>set ls. \<exists>xs ys. ss = xs @ l @ ys)
     \<and> (\<not> nested \<longrightarrow> ss = hs @ concat ls @ ps)"

lemma node_lists_cong:
  assumes "list_all2 (node_list h) ts ls" and "\<And>a. a \<in> set (concat ls) \<Longrightarrow> h' a = h a"
  shows "list_all2 (node_list h') ts ls"
  using assms(1)
proof (rule list.rel_mono_strong)
  fix t l assume "t \<in> set ts" "l \<in> set ls" "node_list h t l"
  then show "node_list h' t l" using assms(2) node_list_cong[of l h' h t None] by auto
qed

lemma runs_invD:
  assumes "runs_inv w ss hs rs nested ls ps"
  shows "road_waiting w ps" and "list_all2 (node_list (nodes w)) (rn_opens w) ls" and "distinct (rn_held w @ concat ls @ ps)"
    and "\<forall>a\<in>set (rn_held w @ concat ls @ ps). task_of (nodes w) a \<noteq> None"
  using assms by (simp_all add: runs_inv_def)

lemma runs_lists_kept:
  assumes inv: "runs_inv w ss hs rs nested ls ps" and same: "\<And>a. a \<noteq> p \<Longrightarrow> nodes w' a = nodes w a"
    and p: "p \<notin> set (concat ls)" "p \<notin> set ps" and w': "rn_opens w' = rn_opens w" "the_road w' = the_road w"
  shows "road_waiting w' ps" and "list_all2 (node_list (nodes w')) (rn_opens w') ls"
proof -
  have l: "nodes w' a = nodes w a" if "a \<in> set (concat ls)" for a using same that p(1) by metis
  have q: "nodes w' a = nodes w a" if "a \<in> set ps" for a using same that p(2) by metis
  show "list_all2 (node_list (nodes w')) (rn_opens w') ls" unfolding w'(1) by (rule node_lists_cong[OF runs_invD(2)[OF inv] l])
  show "road_waiting w' ps" unfolding road_waiting_def w'(2)
    by (rule awaiters_queue.holds_cong[OF runs_invD(1)[OF inv, unfolded road_waiting_def] q])
qed

lemma null_lists_empty: "list_all2 (node_list h) ts ls \<Longrightarrow> \<forall>t\<in>set ts. t = None \<Longrightarrow> concat ls = []"
  by (induction rule: list_all2_induct) (auto simp: neq_Nil_conv)

lemma runs_inv_close:
  assumes "runs_inv w ss hs rs nested ls ps" and "road_close w = Some w'"
  shows "runs_inv w' ss hs rs nested ls ps"
proof -
  from assms(2) have "w' = w\<lparr>the_road := (the_road w)\<lparr>rd_closed := True\<rparr>\<rparr>" by (simp add: road_close_def split: if_splits)
  with assms(1) show ?thesis by (simp add: runs_inv_def road_waiting_def road_is_closed_def)
qed

lemma runs_inv_suspend:
  assumes inv: "runs_inv w ss hs rs nested ls ps" and cl: "\<not> open_awaiter_await_ready w" and fresh: "nodes w p = None"
    and s: "open_awaiter_await_suspend p hnd (construct_node p w) = Some w'"
  shows "runs_inv w' (ss @ [p]) hs rs nested ls (ps @ [p])"
proof -
  have live: "a \<in> set (rn_held w @ concat ls @ ps) \<Longrightarrow> a \<noteq> p" for a using inv fresh unfolding runs_inv_def by fastforce
  then have p: "p \<notin> set ps" by auto
  have "road_waiting (construct_node p w) ps"
    using inv aq_holds_construct[OF _ p] by (simp add: runs_inv_def road_waiting_def construct_node_def)
  from road_suspend_spec[OF this, of p task_node_init hnd] s p obtain q' h where
    w': "w' = (construct_node p w)\<lparr>nodes := h, the_road := (the_road (construct_node p w))\<lparr>rd_waiters := q'\<rparr>\<rparr>"
    and 1: "aq_holds q' h (ps @ [p])" "task_of h p = Some hnd"
    and 2: "\<forall>a. a \<noteq> p \<longrightarrow> task_of h a = task_of ((nodes w)(p \<mapsto> task_node_init)) a"
    and 3: "\<forall>a. a \<notin> set ps \<and> a \<noteq> p \<longrightarrow> h a = ((nodes w)(p \<mapsto> task_node_init)) a" by auto
  have same: "h a = nodes w a" if "a \<in> set (concat ls)" for a
  proof -
    have "a \<notin> set ps" "a \<noteq> p" using that inv live by (auto simp: runs_inv_def)
    with 3 show ?thesis by simp
  qed
  have task: "task_of h a = task_of (nodes w) a" if "a \<in> set (rn_held w @ concat ls @ ps)" for a
    using live[OF that] 2 by simp
  have old: "list_all2 (node_list (nodes w)) (rn_opens w) ls" "distinct (rn_held w @ concat ls @ ps)"
    "\<forall>a\<in>set (rn_held w @ concat ls @ ps). task_of (nodes w) a \<noteq> None" "mset hs = mset rs + mset (rn_held w)"
    "mset ss = mset hs + mset (concat ls) + mset ps" "\<exists>xs. ss = xs @ ps" "\<forall>l\<in>set ls. \<exists>xs ys. ss = xs @ l @ ys"
    "\<not> nested \<longrightarrow> ss = hs @ concat ls @ ps" using inv by (simp_all add: runs_inv_def)
  have held: "rn_held w' = rn_held w" "rn_opens w' = rn_opens w" "nodes w' = h" by (simp_all add: w' construct_node_def)
  have "road_waiting w' (ps @ [p])" using 1(1) by (simp add: w' road_waiting_def)
  moreover have "list_all2 (node_list (nodes w')) (rn_opens w') ls" unfolding held by (rule node_lists_cong[OF old(1) same])
  moreover have "distinct (rn_held w' @ concat ls @ ps @ [p])" using old(2) live unfolding held by fastforce
  moreover have "\<forall>a\<in>set (rn_held w' @ concat ls @ ps @ [p]). task_of (nodes w') a \<noteq> None"
    using old(3) task 1(2) unfolding held by auto
  moreover have "road_is_closed w'" using cl by (simp add: w' construct_node_def open_awaiter_await_ready_def road_is_closed_def)
  moreover have "\<exists>xs. ss @ [p] = xs @ ps @ [p]" using old(6) by auto
  moreover have "\<forall>l\<in>set ls. \<exists>xs ys. ss @ [p] = xs @ l @ ys"
  proof
    fix l assume "l \<in> set ls"
    with old(7) obtain xs ys where "ss = xs @ l @ ys" by blast
    then have "ss @ [p] = xs @ l @ (ys @ [p])" by simp
    then show "\<exists>xs ys. ss @ [p] = xs @ l @ ys" by blast
  qed
  ultimately show ?thesis using old(4,5,8) by (simp add: runs_inv_def held)
qed

lemma runs_inv_begins:
  assumes inv: "runs_inv w ss hs rs nested ls ps"
  shows "runs_inv (open_begins w) ss hs rs (nested \<or> (\<exists>t\<in>set (rn_opens w). t \<noteq> None)) (ps # ls) []"
proof -
  let ?w = "open_begins w"
  have w: "nodes ?w = nodes w" "rn_opens ?w = aq_first (rd_waiters (the_road w)) # rn_opens w" "rn_held ?w = rn_held w" "road_waiting ?w []"
    by (simp_all add: open_begins_def aq_pop_all_def road_waiting_def aq_holds_def)
  have "node_list (nodes w) (aq_first (rd_waiters (the_road w))) ps" using inv by (simp add: runs_inv_def road_waiting_def aq_holds_def)
  moreover have "ss = hs @ concat (ps # ls) @ []" if "\<not> (nested \<or> (\<exists>t\<in>set (rn_opens w). t \<noteq> None))"
  proof -
    from that have "concat ls = []" using inv null_lists_empty[of "nodes w" "rn_opens w" ls] by (simp add: runs_inv_def)
    moreover have "ss = hs @ concat ls @ ps" using that inv by (simp add: runs_inv_def)
    ultimately show ?thesis by (simp del: concat_eq_Nil_conv)
  qed
  moreover have "\<exists>xs ys. ss = xs @ ps @ ys" using inv unfolding runs_inv_def by (metis append_Nil2)
  moreover have "set (rn_held w @ concat (ps # ls) @ []) = set (rn_held w @ concat ls @ ps)" by auto
  moreover have "distinct (rn_held w @ concat (ps # ls) @ [])" using inv by (auto simp: runs_inv_def)
  moreover have "mset ss = mset hs + mset (concat (ps # ls)) + mset []" using inv by (simp add: runs_inv_def)
  ultimately show ?thesis using inv w unfolding runs_inv_def by simp
qed

lemma runs_inv_round:
  assumes inv: "runs_inv w ss hs rs nested ls ps" and r: "open_round w = Some (p, w')"
  shows "\<exists>ls'. runs_inv w' ss (hs @ [p]) rs nested ls' ps"
proof -
  from r obtain ts nxt where w: "rn_opens w = Some p # ts" "next_of (nodes w) p = Some nxt" "w' = w\<lparr>rn_opens := nxt # ts, rn_held := rn_held w @ [p]\<rparr>"
    by (auto simp: open_round_def split: list.splits option.splits bind_splits if_splits)
  with inv obtain l0 ls' where l0: "ls = l0 # ls'" "node_list (nodes w) (Some p) l0" "list_all2 (node_list (nodes w)) ts ls'"
    unfolding runs_inv_def by (auto simp: list_all2_Cons1)
  then obtain l where ls: "ls = (p # l) # ls'" "node_list (nodes w) nxt l" "list_all2 (node_list (nodes w)) ts ls'"
    using w(2) by (cases l0) auto
  obtain xs ys where "ss = xs @ (p # l) @ ys" using inv ls(1) unfolding runs_inv_def by auto
  then have "ss = (xs @ [p]) @ l @ ys" by simp
  then have "\<exists>xs ys. ss = xs @ l @ ys" by blast
  then have "runs_inv w' ss (hs @ [p]) rs nested (l # ls') ps"
    using inv ls w unfolding runs_inv_def by (simp add: road_waiting_def road_is_closed_def)
  then show ?thesis by blast
qed

lemma runs_inv_ends:
  assumes inv: "runs_inv w ss hs rs nested ls ps" and r: "open_ends w = Some w'"
  shows "\<exists>ls'. runs_inv w' ss hs rs nested ls' ps"
proof -
  from r obtain ts where w: "rn_opens w = None # ts" "w' = w\<lparr>rn_opens := ts\<rparr>"
    by (auto simp: open_ends_def split: list.splits option.splits)
  with inv obtain ls' where ls: "ls = [] # ls'" "list_all2 (node_list (nodes w)) ts ls'"
    unfolding runs_inv_def by (auto simp: list_all2_Cons1 neq_Nil_conv)
  then have "runs_inv w' ss hs rs nested ls' ps"
    using inv w unfolding runs_inv_def by (simp add: road_waiting_def road_is_closed_def)
  then show ?thesis by blast
qed

lemma runs_inv_links:
  assumes inv: "runs_inv w ss hs rs nested ls ps" and p: "p \<in> set (rn_held w)" and r: "executor_links p x w = Some w'"
  shows "runs_inv w' ss hs rs nested ls ps"
proof -
  from r obtain n where n: "nodes w p = Some n" "w' = w\<lparr>nodes := (nodes w)(p \<mapsto> n\<lparr>nd_next := x\<rparr>)\<rparr>"
    by (cases "nodes w p") (auto simp: executor_links_def set_next_def)
  have np: "p \<notin> set (concat ls)" "p \<notin> set ps" using inv p by (auto simp: runs_inv_def)
  have same: "nodes w' a = nodes w a" if "a \<noteq> p" for a using that n by simp
  have "rn_opens w' = rn_opens w" "the_road w' = the_road w" using n(2) by simp_all
  note runs_lists_kept[OF inv same np this]
  moreover have "task_of (nodes w') a = task_of (nodes w) a" for a using n by simp
  ultimately show ?thesis using inv n(2) by (simp add: runs_inv_def road_is_closed_def)
qed

lemma runs_inv_resumes:
  assumes inv: "runs_inv w ss hs rs nested ls ps" and p: "p \<in> set (rn_held w)"
  shows "runs_inv (executor_resumes p w) ss hs (rs @ [p]) nested ls ps"
proof -
  let ?w = "executor_resumes p w"
  have w: "rn_opens ?w = rn_opens w" "rn_held ?w = remove1 p (rn_held w)" "the_road ?w = the_road w" "nodes ?w = (\<lambda>a. if a = p then None else nodes w a)"
    by (simp_all add: executor_resumes_def destroy_nodes_def fun_eq_iff)
  have d: "distinct (rn_held w)" "p \<notin> set (concat ls)" "p \<notin> set ps" using inv p by (auto simp: runs_inv_def)
  have same: "nodes ?w a = nodes w a" if "a \<noteq> p" for a using that by (simp add: w)
  note runs_lists_kept[OF inv same d(2,3) w(1,3)]
  moreover have "set (rn_held ?w) = set (rn_held w) - {p}" using d(1) by (simp add: w set_remove1_eq)
  moreover have "distinct (rn_held ?w)" using d(1) by (simp add: w)
  moreover have "mset hs = mset (rs @ [p]) + mset (rn_held ?w)" using inv p by (simp add: w runs_inv_def)
  moreover have "\<forall>a\<in>set (rn_held ?w @ concat ls @ ps). task_of (nodes ?w) a \<noteq> None"
  proof
    fix a assume a: "a \<in> set (rn_held ?w @ concat ls @ ps)"
    then have "a \<noteq> p" "a \<in> set (rn_held w @ concat ls @ ps)" using d by (auto simp: w set_remove1_eq)
    with inv show "task_of (nodes ?w) a \<noteq> None" unfolding runs_inv_def w by simp
  qed
  moreover have "distinct (rn_held ?w @ concat ls @ ps)"
  proof -
    have "distinct (rn_held w @ concat ls @ ps)" using inv by (simp add: runs_inv_def)
    then show ?thesis unfolding w distinct_append set_append by (auto simp: set_remove1_eq simp del: set_concat distinct_concat_iff)
  qed
  ultimately show ?thesis using inv by (simp add: runs_inv_def road_is_closed_def w(3))
qed

lemma road_runs_inv: "road_runs w ss hs rs nested \<Longrightarrow> \<exists>ls ps. runs_inv w ss hs rs nested ls ps"
proof (induction rule: road_runs.induct)
  case init
  show ?case by (rule exI[of _ "[]"], rule exI[of _ "[]"]) (simp add: runs_inv_def road_waiting_def road_init_def)
next
  case (close w ss hs rs nested w')
  then show ?case using runs_inv_close by blast
next
  case (suspend w ss hs rs nested p hnd w')
  then show ?case using runs_inv_suspend by blast
next
  case (begins w ss hs rs nested)
  then show ?case using runs_inv_begins by blast
next
  case (round w ss hs rs nested p w')
  then show ?case using runs_inv_round by blast
next
  case (ends w ss hs rs nested w')
  then show ?case using runs_inv_ends by blast
next
  case (links w ss hs rs nested p x w')
  then show ?case using runs_inv_links by blast
next
  case (resumes w ss hs rs nested p)
  then show ?case using runs_inv_resumes by blast
qed

section \<open>Properties\<close>

text \<open>
  C35. Whenever the executor resumes what \<open>open\<close> hands to it, at once or later and in any order, and whatever
  runs meanwhile does to the road: every awaiter that suspended is, exactly once, resumed, with the executor,
  in the list that some call of \<open>open\<close> is still handing over, or waiting; nobody waits for an open road, and no
  loop of \<open>open\<close> reaches a dead node or one without a task. Each call hands over what suspended without a
  break, in this order, and those who wait are the last ones that suspended; over all calls the order is that of the suspensions
  unless \<open>open\<close> is called from within another call that has waiters left, whose waiters then come later.
\<close>

theorem road_no_lost_waiter:
  assumes "road_runs w ss hs rs nested"
  shows "\<exists>ls ps. list_all2 (node_list (nodes w)) (rn_opens w) ls \<and> road_waiting w ps
    \<and> mset hs = mset rs + mset (rn_held w) \<and> mset ss = mset hs + mset (concat ls) + mset ps
    \<and> distinct (rn_held w @ concat ls @ ps) \<and> (\<forall>a\<in>set (rn_held w @ concat ls @ ps). task_of (nodes w) a \<noteq> None)
    \<and> (\<not> road_is_closed w \<longrightarrow> ps = []) \<and> (\<forall>p ts. rn_opens w = Some p # ts \<longrightarrow> open_round w \<noteq> None)
    \<and> (\<exists>xs. ss = xs @ ps) \<and> (\<forall>l\<in>set ls. \<exists>xs ys. ss = xs @ l @ ys)
    \<and> (\<not> nested \<longrightarrow> ss = hs @ concat ls @ ps)"
proof -
  from road_runs_inv[OF assms] obtain ls ps where inv: "runs_inv w ss hs rs nested ls ps" by blast
  have "open_round w \<noteq> None" if o: "rn_opens w = Some p # ts" for p ts
  proof -
    from runs_invD(2)[OF inv] o obtain l ls' where l: "ls = l # ls'" "node_list (nodes w) (Some p) l" by (auto simp: list_all2_Cons1)
    then have "p \<in> set (concat ls)" by (cases l) auto
    then have "task_of (nodes w) p \<noteq> None" by (intro runs_invD(4)[OF inv, rule_format]) simp
    then obtain n where "nodes w p = Some n" "nd_task n \<noteq> None" by (cases "nodes w p") simp_all
    with o show ?thesis by (simp add: open_round_def)
  qed
  then have "\<forall>p ts. rn_opens w = Some p # ts \<longrightarrow> open_round w \<noteq> None" by blast
  with inv show ?thesis unfolding runs_inv_def by blast
qed

text \<open>
  A coroutine waits for a closed road; \<open>open\<close> hands it to an executor that resumes it at once, and it closes
  the road, so that the next one has to wait.
\<close>

lemma road_runs_example: "\<exists>w. road_runs w [3, 4] [3] [3] False \<and> rn_held w = []"
proof -
  let ?w0 = "\<lparr>nodes = Map.empty, ready = awaiters_queue_init, the_road = road_init, rn_opens = [], rn_held = []\<rparr> :: road_run"
  let ?w1 = "?w0\<lparr>the_road := \<lparr>rd_waiters = awaiters_queue_init, rd_closed = True\<rparr>\<rparr>"
  let ?n = "\<lambda>h. \<lparr>nd_next = None, nd_task = Some h, nd_status = ok\<rparr>"
  let ?q = "\<lambda>p. \<lparr>aq_first = Some p, aq_last = Some p\<rparr>" and ?e = "\<lparr>aq_first = None, aq_last = Some 3\<rparr>"
  let ?w2 = "?w1\<lparr>nodes := [3 \<mapsto> ?n 7], the_road := \<lparr>rd_waiters = ?q 3, rd_closed = True\<rparr>\<rparr>"
  let ?w3 = "?w1\<lparr>nodes := [3 \<mapsto> ?n 7], the_road := \<lparr>rd_waiters = ?e, rd_closed = False\<rparr>, rn_opens := [Some 3]\<rparr>"
  let ?w4 = "?w3\<lparr>rn_opens := [None], rn_held := [3]\<rparr>"
  let ?w5 = "?w3\<lparr>nodes := Map.empty, rn_opens := [None]\<rparr>"
  let ?w6 = "?w5\<lparr>the_road := \<lparr>rd_waiters = ?e, rd_closed = True\<rparr>\<rparr>"
  let ?w7 = "?w6\<lparr>nodes := [4 \<mapsto> ?n 8], the_road := \<lparr>rd_waiters = ?q 4, rd_closed = True\<rparr>\<rparr>"
  note susp = open_awaiter_await_ready_def road_is_closed_def open_awaiter_await_suspend_def construct_node_def
    aq_push_def aq_push_list_def awaiters_queue_init_def task_node_init_def fun_eq_iff
  have "road_runs ?w1 [] [] [] False"
    by (rule road_runs.close[OF road_runs.init]) (simp add: road_close_def road_init_def)
  then have "road_runs ?w2 ([] @ [3]) [] [] False" by (rule road_runs.suspend[where hnd = 7]) (simp_all add: susp)
  from road_runs.begins[OF this] have "road_runs ?w3 [3] [] [] False" by (simp add: open_begins_def aq_pop_all_def)
  then have "road_runs ?w4 [3] ([] @ [3]) [] False" by (rule road_runs.round) (simp add: open_round_def)
  from road_runs.resumes[OF this, of 3] have "road_runs ?w5 [3] [3] [3] False"
    by (simp add: executor_resumes_def destroy_nodes_def) (simp add: fun_upd_def cong: if_cong)
  then have "road_runs ?w6 [3] [3] [3] False" by (rule road_runs.close) (simp add: road_close_def)
  then have "road_runs ?w7 ([3] @ [4]) [3] [3] False" by (rule road_runs.suspend[where hnd = 8]) (simp_all add: susp)
  then show ?thesis by (intro exI[of _ ?w7]) simp
qed

lemma road_no_lost_waiter_witness:
  "\<exists>w ls ps. road_runs w [3, 4] [3] [3] False \<and> road_waiting w ps \<and> concat ls @ ps = [4]"
proof -
  from road_runs_example obtain w where w: "road_runs w [3, 4] [3] [3] False" by blast
  from road_no_lost_waiter[OF w] obtain ls ps where "road_waiting w ps" "[3, 4] = [3] @ concat ls @ ps" by blast
  with w show ?thesis by (intro exI[of _ w] exI[of _ ls] exI[of _ ps]) simp
qed

end
