(* ===== verification/Gate.thy ===== *)
theory Gate
  imports Awaiters_Queue
begin

text \<open>
  \<open>gate.hpp\<close>: a counter of running operations that can be closed and awaited. The gate is part
  of the world, since the close waiters that \<open>leave\<close> resumes in place may use it. The counter is
  a natural number: every unit of it belongs to a live holder, so it stays far below the range of
  \<open>size_t\<close>; \<open>--count\<close> at zero is the failed \<open>assert\<close> and is \<open>None\<close>.
\<close>

section \<open>State and operations\<close>

record gate =
  gt_count :: nat
  gt_close_waiters :: awaiters_queue
  gt_close_requested :: bool

record gate_world = world +
  the_gate :: gate

datatype gate_error = gate_closed_exception

definition gate_init :: gate where
  "gate_init = \<lparr>gt_count = 0, gt_close_waiters = awaiters_queue_init, gt_close_requested = False\<rparr>"

definition gate_request_close :: "'w gate_world_scheme \<Rightarrow> 'w gate_world_scheme" where
  "gate_request_close w = w\<lparr>the_gate := (the_gate w)\<lparr>gt_close_requested := True\<rparr>\<rparr>"

definition gate_is_closed :: "'w gate_world_scheme \<Rightarrow> bool" where
  "gate_is_closed w = gt_close_requested (the_gate w)"

definition gate_active_count :: "'w gate_world_scheme \<Rightarrow> nat" where
  "gate_active_count w = gt_count (the_gate w)"

definition gate_try_enter :: "'w gate_world_scheme \<Rightarrow> bool \<times> 'w gate_world_scheme" where
  "gate_try_enter w = (if gate_is_closed w then (False, w)
     else (True, w\<lparr>the_gate := (the_gate w)\<lparr>gt_count := gt_count (the_gate w) + 1\<rparr>\<rparr>))"

definition gate_enter :: "'w gate_world_scheme \<Rightarrow> gate_error + 'w gate_world_scheme" where
  "gate_enter w = (case gate_try_enter w of
      (True, w') \<Rightarrow> Inr w' | (False, _) \<Rightarrow> Inl gate_closed_exception)"

text \<open>
  \<open>leave\<close> in two parts: everything up to and including \<open>close_waiters.pop_all()\<close>, and the
  \<open>attach_list\<close> on the popped waiters, which resumes them in this thread.
\<close>

definition gate_leave_begin ::
  "'w gate_world_scheme \<Rightarrow> (addr option \<times> 'w gate_world_scheme) option" where
  "gate_leave_begin w = (if gt_count (the_gate w) = 0 then None
     else let w1 = w\<lparr>the_gate := (the_gate w)\<lparr>gt_count := gt_count (the_gate w) - 1\<rparr>\<rparr> in
       if gate_is_closed w1 \<and> gt_count (the_gate w1) = 0
       then (let (t, q) = aq_pop_all (gt_close_waiters (the_gate w1))
             in Some (t, w1\<lparr>the_gate := (the_gate w1)\<lparr>gt_close_waiters := q\<rparr>\<rparr>))
       else Some (None, w1))"

definition gate_leave ::
  "(handle \<Rightarrow> 'w gate_world_scheme \<Rightarrow> 'w gate_world_scheme option)
     \<Rightarrow> 'w gate_world_scheme \<Rightarrow> 'w gate_world_scheme option" where
  "gate_leave resume w = do {
     (t, w1) \<leftarrow> gate_leave_begin w;
     attach_list (this_thread_attach resume) t w1 }"

definition gate_close :: "'w gate_world_scheme \<Rightarrow> 'w gate_world_scheme" where
  "gate_close w = gate_request_close w"

definition gate_close_await_ready :: "'w gate_world_scheme \<Rightarrow> bool" where
  "gate_close_await_ready w \<longleftrightarrow> gt_count (the_gate w) = 0"

definition gate_close_await_suspend ::
  "addr \<Rightarrow> handle \<Rightarrow> 'w gate_world_scheme \<Rightarrow> 'w gate_world_scheme option" where
  "gate_close_await_suspend this waiter w = do {
     h \<leftarrow> set_task this (Some waiter) (nodes w);
     (q, h') \<leftarrow> aq_push (gt_close_waiters (the_gate w)) this h;
     Some (w\<lparr>nodes := h', the_gate := (the_gate w)\<lparr>gt_close_waiters := q\<rparr>\<rparr>) }"

definition gate_reopen :: "'w gate_world_scheme \<Rightarrow> 'w gate_world_scheme option" where
  "gate_reopen w = (if gt_count (the_gate w) \<noteq> 0 \<or> \<not> aq_empty (gt_close_waiters (the_gate w)) then None
     else Some (w\<lparr>the_gate := (the_gate w)\<lparr>gt_close_requested := False\<rparr>\<rparr>))"

text \<open>Destruction, move construction (new object, moved-from object) and move assignment.\<close>

definition gate_dtor :: "gate \<Rightarrow> unit option" where
  "gate_dtor g = (if gt_count g = 0 then Some () else None)"

definition gate_move_ctor :: "gate \<Rightarrow> (gate \<times> gate) option" where
  "gate_move_ctor other = (if gt_count other \<noteq> 0 then None
     else Some (\<lparr>gt_count = 0, gt_close_waiters = gt_close_waiters other,
                 gt_close_requested = gt_close_requested other\<rparr>,
                other\<lparr>gt_close_waiters := awaiters_queue_init, gt_close_requested := False\<rparr>))"

definition gate_move_assign :: "gate \<Rightarrow> gate \<Rightarrow> (gate \<times> gate) option" where
  "gate_move_assign this other = (if gt_count this \<noteq> 0 \<or> gt_count other \<noteq> 0
       \<or> \<not> aq_empty (gt_close_waiters this) \<or> \<not> aq_empty (gt_close_waiters other) then None
     else Some (this\<lparr>gt_close_waiters := gt_close_waiters other,
                      gt_close_requested := gt_close_requested other\<rparr>,
                other\<lparr>gt_close_waiters := awaiters_queue_init, gt_close_requested := False\<rparr>))"

text \<open>
  A \<open>holder\<close> is a pointer to the gate or null; with one gate in the world it is the truth value
  ``refers to the gate''.
\<close>

type_synonym holder = bool

definition holder_ctor :: "'w gate_world_scheme \<Rightarrow> gate_error + (holder \<times> 'w gate_world_scheme)" where
  "holder_ctor w = (case gate_enter w of Inl e \<Rightarrow> Inl e | Inr w' \<Rightarrow> Inr (True, w'))"

definition holder_dtor ::
  "(handle \<Rightarrow> 'w gate_world_scheme \<Rightarrow> 'w gate_world_scheme option)
     \<Rightarrow> holder \<Rightarrow> 'w gate_world_scheme \<Rightarrow> 'w gate_world_scheme option" where
  "holder_dtor resume g w = (if g then gate_leave resume w else Some w)"

definition holder_release ::
  "(handle \<Rightarrow> 'w gate_world_scheme \<Rightarrow> 'w gate_world_scheme option)
     \<Rightarrow> holder \<Rightarrow> 'w gate_world_scheme \<Rightarrow> (holder \<times> 'w gate_world_scheme) option" where
  "holder_release resume g w =
     (if g then do { w' \<leftarrow> gate_leave resume w; Some (False, w') } else Some (g, w))"

definition holder_move_ctor :: "holder \<Rightarrow> holder \<times> holder" where
  "holder_move_ctor other = (other, False)"

definition holder_move_assign :: "holder \<Rightarrow> holder \<Rightarrow> holder \<times> holder" where
  "holder_move_assign this other = (other, this)"

section \<open>Behaviour of the operations\<close>

definition gate_waiting :: "'w gate_world_scheme \<Rightarrow> addr list \<Rightarrow> bool" where
  "gate_waiting w ps \<longleftrightarrow> aq_holds (gt_close_waiters (the_gate w)) (nodes w) ps"

definition gate_drained :: "'w gate_world_scheme \<Rightarrow> 'w gate_world_scheme" where
  "gate_drained w = w\<lparr>the_gate := (the_gate w)\<lparr>gt_count := 0,
       gt_close_waiters := snd (aq_pop_all (gt_close_waiters (the_gate w)))\<rparr>\<rparr>"

lemma gate_drained_simps [simp]:
  "nodes (gate_drained w) = nodes w" "gate_active_count (gate_drained w) = 0"
  "gate_is_closed (gate_drained w) = gate_is_closed w"
  by (simp_all add: gate_drained_def gate_active_count_def gate_is_closed_def)

lemma gate_drained_waiting: "gate_waiting w ps \<Longrightarrow> gate_waiting (gate_drained w) []"
  by (auto simp: gate_waiting_def gate_drained_def aq_pop_all_def aq_holds_def)

lemma gate_leave_begin_last:
  assumes "gate_is_closed w" "gt_count (the_gate w) = 1"
  shows "gate_leave_begin w = Some (aq_first (gt_close_waiters (the_gate w)), gate_drained w)"
  using assms by (simp add: gate_leave_begin_def gate_drained_def gate_is_closed_def aq_pop_all_def)

lemma gate_leave_begin_other:
  assumes "gt_count (the_gate w) = Suc n" "\<not> gate_is_closed w \<or> n \<noteq> 0"
  shows "gate_leave_begin w = Some (None, w\<lparr>the_gate := (the_gate w)\<lparr>gt_count := n\<rparr>\<rparr>)"
  using assms by (auto simp: gate_leave_begin_def gate_is_closed_def)

lemma gate_suspend_spec:
  assumes "gate_waiting w ps" "nodes w p = Some n" "p \<notin> set ps"
  shows "\<exists>q h. gate_close_await_suspend p hnd w =
             Some (w\<lparr>nodes := h, the_gate := (the_gate w)\<lparr>gt_close_waiters := q\<rparr>\<rparr>)
           \<and> aq_holds q h (ps @ [p]) \<and> (\<forall>a. a \<notin> set ps \<and> a \<noteq> p \<longrightarrow> h a = nodes w a)
           \<and> task_of h p = Some hnd \<and> (\<forall>a. a \<noteq> p \<longrightarrow> task_of h a = task_of (nodes w) a)"
proof -
  let ?h = "(nodes w)(p \<mapsto> n\<lparr>nd_task := Some hnd\<rparr>)"
  have "aq_holds (gt_close_waiters (the_gate w)) ?h ps"
    using assms(1,3) by (simp add: gate_waiting_def aq_holds_construct)
  from awaiters_queue.push_holds[OF this _ assms(3), of "n\<lparr>nd_task := Some hnd\<rparr>"]
  obtain q h' where 1: "aq_push (gt_close_waiters (the_gate w)) p ?h = Some (q, h')"
    "aq_holds q h' (ps @ [p])" "\<forall>a. a \<notin> set ps \<and> a \<noteq> p \<longrightarrow> h' a = ?h a" "same_payload ?h h'"
    by auto
  then have "task_of h' a = task_of ?h a" for a by (simp add: same_payload_task)
  with 1 assms(2) show ?thesis
    by (intro exI[of _ q] exI[of _ h']) (auto simp: gate_close_await_suspend_def)
qed

section \<open>Runs of a gate\<close>

text \<open>
  All orders in which coroutines enter and leave the gate, close and await it, and reopen it.
  The waiters popped by the last \<open>leave\<close> are resumed one by one, and what a resumed coroutine
  does to the gate comes as further steps. \<open>gate_reach w n ss pend rs\<close>: \<open>w\<close> is reachable, \<open>n\<close>
  enters are not yet matched by a leave, \<open>ss\<close> are the awaiters that suspended so far, \<open>pend\<close> the
  popped ones that are still to be resumed and \<open>rs\<close> the resumed ones, all in order. \<open>reopen\<close> has
  the documented precondition ``no one waits for \<open>close\<close>'', which includes \<open>pend\<close>.
\<close>

inductive gate_reach ::
  "gate_world \<Rightarrow> nat \<Rightarrow> addr list \<Rightarrow> addr list \<Rightarrow> addr list \<Rightarrow> bool" where
  init: "gate_reach \<lparr>nodes = Map.empty, the_gate = gate_init\<rparr> 0 [] [] []"
| enter: "gate_reach w n ss pend rs \<Longrightarrow> gate_try_enter w = (True, w') \<Longrightarrow>
    gate_reach w' (Suc n) ss pend rs"
| refused: "gate_reach w n ss pend rs \<Longrightarrow> gate_try_enter w = (False, w') \<Longrightarrow>
    gate_reach w' n ss pend rs"
| leave: "gate_reach w (Suc n) ss pend rs \<Longrightarrow> gate_leave_begin w = Some (t, w') \<Longrightarrow>
    node_list (nodes w') t as \<Longrightarrow> gate_reach w' n ss (as @ pend) rs"
| resumed: "gate_reach w n ss (p # pend) rs \<Longrightarrow>
    gate_reach (destroy_nodes [p] w) n ss pend (rs @ [p])"
| close_ready: "gate_reach w n ss pend rs \<Longrightarrow> gate_close_await_ready (gate_close w) \<Longrightarrow>
    gate_reach (gate_close w) n ss pend rs"
| close_suspend: "gate_reach w n ss pend rs \<Longrightarrow> \<not> gate_close_await_ready (gate_close w) \<Longrightarrow>
    nodes w p = None \<Longrightarrow>
    gate_close_await_suspend p hnd (construct_node p (gate_close w)) = Some w' \<Longrightarrow>
    gate_reach w' n (ss @ [p]) pend rs"
| reopen: "gate_reach w n ss [] rs \<Longrightarrow> gate_reopen w = Some w' \<Longrightarrow> gate_reach w' n ss [] rs"

definition gate_inv ::
  "'w gate_world_scheme \<Rightarrow> nat \<Rightarrow> addr list \<Rightarrow> addr list \<Rightarrow> addr list \<Rightarrow> addr list \<Rightarrow> bool" where
  "gate_inv w n ss pend rs ps \<longleftrightarrow> gate_active_count w = n \<and> gate_waiting w ps \<and> ss = rs @ pend @ ps
     \<and> (ps \<noteq> [] \<longrightarrow> gate_is_closed w \<and> 0 < n) \<and> (pend \<noteq> [] \<longrightarrow> gate_is_closed w \<and> n = 0)"

lemma gate_inv_leave:
  assumes inv: "gate_inv w (Suc n) ss pend rs ps" and l: "gate_leave_begin w = Some (t, w')"
    and as: "node_list (nodes w') t as"
  shows "\<exists>ps'. gate_inv w' n ss (as @ pend) rs ps'"
proof (cases "gate_is_closed w \<and> n = 0")
  case True
  with inv have "gate_leave_begin w = Some (aq_first (gt_close_waiters (the_gate w)), gate_drained w)"
    by (intro gate_leave_begin_last) (auto simp: gate_inv_def gate_active_count_def)
  with l have t: "t = aq_first (gt_close_waiters (the_gate w))" and w': "w' = gate_drained w" by auto
  have "as = ps"
    using inv as unfolding w' t gate_inv_def gate_waiting_def aq_holds_def
    by (auto intro: lseg_unique)
  with inv True gate_drained_waiting[of w ps] show ?thesis
    by (intro exI[of _ "[]"]) (auto simp: gate_inv_def w')
next
  case False
  have c: "gt_count (the_gate w) = Suc n" using inv by (simp add: gate_inv_def gate_active_count_def)
  from gate_leave_begin_other[OF c] False l have
    "t = None" and w': "w' = w\<lparr>the_gate := (the_gate w)\<lparr>gt_count := n\<rparr>\<rparr>" by auto
  with as have "as = []" by simp
  with inv False show ?thesis
    by (intro exI[of _ ps])
      (auto simp: gate_inv_def w' gate_active_count_def gate_waiting_def gate_is_closed_def)
qed

lemma gate_inv_suspend:
  assumes inv: "gate_inv w n ss pend rs ps" and nr: "\<not> gate_close_await_ready (gate_close w)"
    and fresh: "nodes w p = None"
    and s: "gate_close_await_suspend p hnd (construct_node p (gate_close w)) = Some w'"
  shows "gate_inv w' n (ss @ [p]) pend rs (ps @ [p])"
proof -
  let ?w = "construct_node p (gate_close w)"
  have p: "p \<notin> set ps"
    using inv fresh awaiters_queue.holds_live unfolding gate_inv_def gate_waiting_def by blast
  have "gate_waiting ?w ps"
    using inv aq_holds_construct[OF _ p]
    by (simp add: gate_inv_def gate_waiting_def construct_node_def gate_close_def gate_request_close_def)
  from gate_suspend_spec[OF this, of p task_node_init hnd] s p obtain q h where
    w': "w' = ?w\<lparr>nodes := h, the_gate := (the_gate ?w)\<lparr>gt_close_waiters := q\<rparr>\<rparr>"
    and q: "aq_holds q h (ps @ [p])" by auto
  have "0 < n" "pend = []"
    using nr inv by (auto simp: gate_inv_def gate_close_await_ready_def gate_close_def
      gate_request_close_def gate_active_count_def)
  with inv q show ?thesis unfolding w'
    by (auto simp: gate_inv_def gate_waiting_def gate_is_closed_def construct_node_def
        gate_close_def gate_request_close_def gate_active_count_def)
qed

lemma gate_inv_close:
  "gate_inv w n ss pend rs ps \<Longrightarrow> gate_inv (gate_close w) n ss pend rs ps"
  by (auto simp: gate_inv_def gate_close_def gate_request_close_def gate_active_count_def
      gate_waiting_def gate_is_closed_def)

lemma gate_inv_reopen:
  "gate_inv w n ss [] rs ps \<Longrightarrow> gate_reopen w = Some w' \<Longrightarrow> gate_inv w' n ss [] rs ps"
  by (auto simp: gate_inv_def gate_reopen_def gate_active_count_def gate_waiting_def
      gate_is_closed_def split: if_splits)

lemma gate_inv_enter:
  "gate_inv w n ss pend rs ps \<Longrightarrow> gate_try_enter w = (b, w') \<Longrightarrow>
     gate_inv w' (if b then Suc n else n) ss pend rs ps"
  by (auto simp: gate_inv_def gate_try_enter_def gate_active_count_def gate_waiting_def
      gate_is_closed_def split: if_splits)

lemma gate_inv_resumed:
  assumes "gate_inv w n ss (p # pend) rs ps"
  shows "gate_inv (destroy_nodes [p] w) n ss pend (rs @ [p]) ps"
proof -
  have "ps = []" using assms by (auto simp: gate_inv_def)
  with assms show ?thesis
    by (auto simp: gate_inv_def gate_waiting_def aq_holds_def destroy_nodes_def
        gate_active_count_def gate_is_closed_def)
qed

lemma gate_reach_inv: "gate_reach w n ss pend rs \<Longrightarrow> \<exists>ps. gate_inv w n ss pend rs ps"
proof (induction rule: gate_reach.induct)
  case init
  show ?case
    by (rule exI[of _ "[]"])
      (simp add: gate_inv_def gate_waiting_def gate_init_def gate_active_count_def)
next
  case (enter w n ss pend rs w')
  then show ?case using gate_inv_enter[of w n ss pend rs _ True w'] by auto
next
  case (refused w n ss pend rs w')
  then show ?case using gate_inv_enter[of w n ss pend rs _ False w'] by auto
next
  case (leave w n ss pend rs t w' as)
  then show ?case using gate_inv_leave by blast
next
  case (resumed w n ss p pend rs)
  then show ?case using gate_inv_resumed by blast
next
  case (close_ready w n ss pend rs)
  then show ?case using gate_inv_close by blast
next
  case (close_suspend w n ss pend rs p hnd w')
  then show ?case using gate_inv_suspend by blast
next
  case (reopen w n ss rs w')
  then show ?case using gate_inv_reopen by blast
qed

section \<open>Properties\<close>

text \<open>
  What \<open>leave\<close> does on every branch: at count zero it is the failed assertion; the last
  \<open>leave\<close> of a closed gate empties the queue and then resumes every close waiter exactly once, in
  the order in which they suspended, whatever these do to the gate; any other \<open>leave\<close> only
  decrements the counter and resumes no one.
\<close>

theorem gate_leave_behaviour:
  assumes "\<And>a as w w'. acc (a # as) w \<Longrightarrow> this_thread_attach resume a w = Some w' \<Longrightarrow>
             acc as w' \<and> (\<forall>q\<in>set as. nodes w' q = nodes w q)"
    and "gate_waiting w ps" and "acc ps (gate_drained w)"
  shows "gate_leave resume w =
     (case gate_active_count w of
        0 \<Rightarrow> None
      | Suc n \<Rightarrow> if gate_is_closed w \<and> n = 0
                then foldM_opt (this_thread_attach resume) ps (gate_drained w)
                else Some (w\<lparr>the_gate := (the_gate w)\<lparr>gt_count := n\<rparr>\<rparr>))"
proof (cases "gate_is_closed w \<and> gt_count (the_gate w) = 1")
  case True
  have "executor (this_thread_attach resume) acc" using assms(1) by unfold_locales
  moreover have "node_list (nodes (gate_drained w)) (aq_first (gt_close_waiters (the_gate w))) ps"
    using assms(2) by (simp add: gate_waiting_def aq_holds_def)
  ultimately show ?thesis
    using True assms(3)
    by (simp add: gate_leave_def gate_leave_begin_last gate_active_count_def executor.attach_list_fold)
next
  case False
  show ?thesis
  proof (cases "gt_count (the_gate w)")
    case 0
    then show ?thesis by (simp add: gate_leave_def gate_leave_begin_def gate_active_count_def)
  next
    case (Suc n)
    with False gate_leave_begin_other[OF Suc] show ?thesis
      by (auto simp: gate_leave_def gate_active_count_def)
  qed
qed

definition gate_example :: gate_world where
  "gate_example = \<lparr>nodes = nodes two_nodes, the_gate = \<lparr>gt_count = 1,
     gt_close_waiters = \<lparr>aq_first = Some 1, aq_last = Some 2\<rparr>, gt_close_requested = True\<rparr>\<rparr>"

theorem gate_leave_behaviour_witness:
  "gate_leave free_self gate_example = (case gate_active_count gate_example of
        0 \<Rightarrow> None
      | Suc n \<Rightarrow> if gate_is_closed gate_example \<and> n = 0
                then foldM_opt (this_thread_attach free_self) [1, 2] (gate_drained gate_example)
                else Some (gate_example\<lparr>the_gate := (the_gate gate_example)\<lparr>gt_count := n\<rparr>\<rparr>))
   \<and> gate_leave free_self gate_example \<noteq> None"
proof -
  have "gate_leave free_self gate_example = (case gate_active_count gate_example of
        0 \<Rightarrow> None
      | Suc n \<Rightarrow> if gate_is_closed gate_example \<and> n = 0
                then foldM_opt (this_thread_attach free_self) [1, 2] (gate_drained gate_example)
                else Some (gate_example\<lparr>the_gate := (the_gate gate_example)\<lparr>gt_count := n\<rparr>\<rparr>))"
    by (rule gate_leave_behaviour[where acc = own_handles, OF free_self_spares])
      (auto simp: gate_waiting_def gate_example_def own_handles_def two_nodes_def next_of_def
        aq_holds_def)
  then show ?thesis
    by (simp add: gate_active_count_def gate_is_closed_def gate_example_def this_thread_attach_def
        free_self_def destroy_nodes_def two_nodes_def)
qed

text \<open>
  C4. In every reachable state of a gate the counter is the number of enters without a leave;
  while a popped close waiter is still to be resumed the gate is closed and has no running
  operation (the documented postcondition of \<open>co_await close()\<close>); and the waiters resumed, about
  to be resumed and still queued are together exactly the ones that suspended, first in first out,
  with none left in the queue once no operation runs.
\<close>

theorem gate_close_waits_for_all:
  assumes "gate_reach w n ss pend rs"
  shows "gate_active_count w = n \<and> (pend \<noteq> [] \<longrightarrow> gate_is_closed w \<and> gate_active_count w = 0)
     \<and> (\<exists>ps. gate_waiting w ps \<and> ss = rs @ pend @ ps \<and> (n = 0 \<longrightarrow> ps = []))"
  using gate_reach_inv[OF assms] unfolding gate_inv_def by auto

text \<open>A run in which one coroutine is inside, another one closes the gate, and the first leaves.\<close>

lemma gate_run_example: "\<exists>w. gate_reach w 0 [1] [1] []"
proof -
  let ?w0 = "\<lparr>nodes = Map.empty, the_gate = gate_init\<rparr> :: gate_world"
  let ?w1 = "snd (gate_try_enter ?w0)"
  let ?w2 = "the (gate_close_await_suspend 1 7 (construct_node 1 (gate_close ?w1)))"
  let ?w3 = "snd (the (gate_leave_begin ?w2))"
  have 1: "gate_reach ?w1 (Suc 0) [] [] []"
    by (rule gate_reach.enter[OF gate_reach.init])
      (simp add: gate_try_enter_def gate_init_def gate_is_closed_def)
  have 2: "gate_reach ?w2 (Suc 0) ([] @ [1]) [] []"
    by (rule gate_reach.close_suspend[OF 1])
      (simp_all add: gate_try_enter_def gate_init_def gate_is_closed_def gate_close_await_ready_def
        gate_close_def gate_request_close_def gate_close_await_suspend_def construct_node_def
        aq_push_def aq_push_list_def awaiters_queue_init_def)
  have "gate_reach ?w3 0 [1] ([1] @ []) []"
    by (rule gate_reach.leave[OF 2[unfolded append_Nil], where t = "Some 1"])
      (simp_all add: gate_try_enter_def gate_init_def gate_is_closed_def
        gate_close_def gate_request_close_def gate_close_await_suspend_def construct_node_def
        aq_push_def aq_push_list_def awaiters_queue_init_def gate_leave_begin_def aq_pop_all_def)
  then show ?thesis by auto
qed

theorem gate_close_waits_for_all_witness:
  "\<exists>w. gate_reach w 0 [1] [1] [] \<and> gate_active_count w = 0
     \<and> ([1::addr] \<noteq> [] \<longrightarrow> gate_is_closed w \<and> gate_active_count w = 0)
     \<and> (\<exists>ps. gate_waiting w ps \<and> [1] = [] @ [1] @ ps \<and> ((0::nat) = 0 \<longrightarrow> ps = []))"
  using gate_run_example gate_close_waits_for_all by blast

end
