(* ===== verification/Lockfree_Stack.thy ===== *)
theory Lockfree_Stack
  imports Awaiters_Queue
begin

text \<open>
  \<open>nonowner_lockfree_stack.hpp\<close>: the closable intrusive stack with one atomic pointer.

  \<^item> The first part gives the atomic accesses of the code (\<open>load\<close>, \<open>exchange\<close>,
    \<open>compare_exchange_weak\<close> with its expected value in the \<open>next\<close> field of a node) and the
    methods as functions, executed without interference. A weak compare-exchange may fail
    spuriously: the list \<open>fs\<close> says which of the first attempts do.
  \<^item> The second part runs any number of threads, one atomic access at a time, and shows that the
    stack is linearizable: every run is explained by the sequential stack of \<open>lf_spec\<close>.

  Memory orders are not modelled: the steps interleave in one sequentially consistent order.
\<close>

section \<open>Atomic accesses and methods\<close>

definition closed_marker :: addr where
  "closed_marker = 0"

record lf_world = world +
  lf_top :: "addr option"

definition lf_ctor :: "bool \<Rightarrow> addr option" where
  "lf_ctor closed = (if closed then Some closed_marker else None)"

definition load_next :: "addr \<Rightarrow> 'w lf_world_scheme \<Rightarrow> 'w lf_world_scheme option" where
  "load_next nd w = do { h \<leftarrow> set_next nd (lf_top w) (nodes w); Some (w\<lparr>nodes := h\<rparr>) }"

text \<open>\<open>top.compare_exchange_weak(nd->next, desired)\<close>\<close>

definition cas_weak_next ::
  "bool \<Rightarrow> addr \<Rightarrow> addr \<Rightarrow> 'w lf_world_scheme \<Rightarrow> (bool \<times> 'w lf_world_scheme) option" where
  "cas_weak_next spurious nd desired w = do {
     e \<leftarrow> next_of (nodes w) nd;
     if lf_top w = e \<and> \<not> spurious then Some (True, w\<lparr>lf_top := Some desired\<rparr>)
     else do { w' \<leftarrow> load_next nd w; Some (False, w') } }"

fun lf_push_loop :: "bool list \<Rightarrow> addr \<Rightarrow> addr \<Rightarrow> 'w lf_world_scheme \<Rightarrow> 'w lf_world_scheme option" where
  "lf_push_loop [] nd desired w = do {
     (b, w') \<leftarrow> cas_weak_next False nd desired w;
     if b then Some w' else None }"
| "lf_push_loop (f # fs) nd desired w = do {
     (b, w') \<leftarrow> cas_weak_next f nd desired w;
     if b then Some w' else lf_push_loop fs nd desired w' }"

definition lf_push :: "bool list \<Rightarrow> addr \<Rightarrow> 'w lf_world_scheme \<Rightarrow> 'w lf_world_scheme option" where
  "lf_push fs value_ptr w = do {
     w1 \<leftarrow> load_next value_ptr w;
     lf_push_loop fs value_ptr value_ptr w1 }"

definition lf_try_pop_all :: "'w lf_world_scheme \<Rightarrow> addr option \<times> 'w lf_world_scheme" where
  "lf_try_pop_all w = (lf_top w, w\<lparr>lf_top := None\<rparr>)"

fun lf_try_push_loop ::
  "bool list \<Rightarrow> addr \<Rightarrow> 'w lf_world_scheme \<Rightarrow> (bool \<times> 'w lf_world_scheme) option" where
  "lf_try_push_loop [] value_ptr w = do {
     e \<leftarrow> next_of (nodes w) value_ptr;
     if e = Some closed_marker then Some (False, w)
     else do {
       (b, w') \<leftarrow> cas_weak_next False value_ptr value_ptr w;
       if b then Some (True, w') else None } }"
| "lf_try_push_loop (f # fs) value_ptr w = do {
     e \<leftarrow> next_of (nodes w) value_ptr;
     if e = Some closed_marker then Some (False, w)
     else do {
       (b, w') \<leftarrow> cas_weak_next f value_ptr value_ptr w;
       if b then Some (True, w') else lf_try_push_loop fs value_ptr w' } }"

definition lf_try_push ::
  "bool list \<Rightarrow> addr \<Rightarrow> 'w lf_world_scheme \<Rightarrow> (bool \<times> 'w lf_world_scheme) option" where
  "lf_try_push fs value_ptr w = do {
     w1 \<leftarrow> load_next value_ptr w;
     lf_try_push_loop fs value_ptr w1 }"

definition lf_close :: "'w lf_world_scheme \<Rightarrow> addr option \<times> 'w lf_world_scheme" where
  "lf_close w = (let t = lf_top w
     in (if t = Some closed_marker then None else t, w\<lparr>lf_top := Some closed_marker\<rparr>))"

definition lf_closed :: "'w lf_world_scheme \<Rightarrow> bool" where
  "lf_closed w \<longleftrightarrow> lf_top w = Some closed_marker"

definition lf_push_stack ::
  "bool list \<Rightarrow> addr option \<Rightarrow> 'w lf_world_scheme \<Rightarrow> 'w lf_world_scheme option" where
  "lf_push_stack fs other_top w = (case other_top of
      None \<Rightarrow> Some w
    | Some t \<Rightarrow> do {
        l \<leftarrow> find_last t (nodes w);
        w1 \<leftarrow> load_next l w;
        lf_push_loop fs l t w1 })"

section \<open>The methods without interference\<close>

text \<open>
  \<open>lf_holds w ps cl\<close>: the stack contains the nodes \<open>ps\<close>, top first; \<open>cl\<close> says whether it is
  closed, and a closed stack is empty.
\<close>

definition lf_holds :: "'w lf_world_scheme \<Rightarrow> addr list \<Rightarrow> bool \<Rightarrow> bool" where
  "lf_holds w ps cl \<longleftrightarrow> (if cl then lf_closed w \<and> ps = []
     else node_list (nodes w) (lf_top w) ps \<and> closed_marker \<notin> set ps)"

lemma lf_holds_closed: "lf_holds w ps cl \<Longrightarrow> lf_closed w \<longleftrightarrow> cl"
  by (cases ps) (auto simp: lf_holds_def lf_closed_def split: if_splits)

lemma load_next_Some:
  "nodes w p = Some n \<Longrightarrow> load_next p w = Some (w\<lparr>nodes := (nodes w)(p \<mapsto> n\<lparr>nd_next := lf_top w\<rparr>)\<rparr>)"
  by (simp add: load_next_def)

text \<open>Once the expected value is the current top, spurious failures change nothing.\<close>

lemma cas_weak_next_fresh:
  assumes "nodes w p = Some n" "nd_next n = lf_top w"
  shows "cas_weak_next f p d w = Some (if f then (False, w) else (True, w\<lparr>lf_top := Some d\<rparr>))"
proof -
  have "n\<lparr>nd_next := lf_top w\<rparr> = n" using assms(2) by (cases n) simp
  with assms have "w\<lparr>nodes := (nodes w)(p \<mapsto> n\<lparr>nd_next := lf_top w\<rparr>)\<rparr> = w" by (simp add: fun_upd_idem)
  with assms show ?thesis by (simp add: cas_weak_next_def load_next_Some)
qed

lemma lf_push_loop_fresh:
  "nodes w p = Some n \<Longrightarrow> nd_next n = lf_top w \<Longrightarrow>
     lf_push_loop fs p d w = Some (w\<lparr>lf_top := Some d\<rparr>)"
  by (induction fs) (simp_all add: cas_weak_next_fresh)

lemma lf_try_push_loop_fresh:
  "nodes w p = Some n \<Longrightarrow> nd_next n = lf_top w \<Longrightarrow>
     lf_try_push_loop fs p w =
       (if lf_closed w then Some (False, w) else Some (True, w\<lparr>lf_top := Some p\<rparr>))"
  by (induction fs) (auto simp: cas_weak_next_fresh lf_closed_def)

definition linked :: "addr \<Rightarrow> 'w lf_world_scheme \<Rightarrow> task_node \<Rightarrow> 'w lf_world_scheme" where
  "linked p w n = w\<lparr>nodes := (nodes w)(p \<mapsto> n\<lparr>nd_next := lf_top w\<rparr>)\<rparr>"

lemma linked_simps [simp]:
  "nodes (linked p w n) = (nodes w)(p \<mapsto> n\<lparr>nd_next := lf_top w\<rparr>)"
  "lf_top (linked p w n) = lf_top w" "lf_closed (linked p w n) = lf_closed w"
  by (simp_all add: linked_def lf_closed_def)

lemma lf_push_eq:
  "nodes w p = Some n \<Longrightarrow> lf_push fs p w = Some ((linked p w n)\<lparr>lf_top := Some p\<rparr>)"
  by (simp add: lf_push_def load_next_Some lf_push_loop_fresh[where n = "n\<lparr>nd_next := lf_top w\<rparr>"]
      linked_def)

lemma lf_try_push_eq:
  "nodes w p = Some n \<Longrightarrow> lf_try_push fs p w =
     Some (if lf_closed w then (False, linked p w n) else (True, (linked p w n)\<lparr>lf_top := Some p\<rparr>))"
  by (simp add: lf_try_push_def load_next_Some
      lf_try_push_loop_fresh[where n = "n\<lparr>nd_next := lf_top w\<rparr>"] linked_def lf_closed_def)

lemma lf_holds_push:
  assumes "lf_holds w ps False" "p \<notin> set ps" "p \<noteq> closed_marker"
  shows "lf_holds ((linked p w n)\<lparr>lf_top := Some p\<rparr>) (p # ps) False"
  using assms by (simp add: lf_holds_def)

lemma lf_holds_linked:
  "lf_holds w ps cl \<Longrightarrow> p \<notin> set ps \<Longrightarrow> lf_holds (linked p w n) ps cl"
  by (simp add: lf_holds_def)

lemma lf_holds_pop_all:
  "lf_holds w ps False \<Longrightarrow> lf_try_pop_all w = (t, w') \<Longrightarrow>
     node_list (nodes w') t ps \<and> nodes w' = nodes w \<and> lf_holds w' [] False"
  by (auto simp: lf_holds_def lf_try_pop_all_def)

lemma lf_holds_close:
  "lf_holds w ps cl \<Longrightarrow> lf_close w = (t, w') \<Longrightarrow>
     node_list (nodes w') t ps \<and> nodes w' = nodes w \<and> lf_holds w' [] True"
  using lf_holds_closed[of w ps cl]
  by (cases cl) (auto simp: lf_holds_def lf_close_def lf_closed_def Let_def)

text \<open>
  The contract between a closable stack and its clients, interpreted on these methods: what
  \<open>try_push\<close>, \<open>push\<close> and \<open>close\<close> do to the contents, and which nodes they touch.
\<close>

locale closable_stack =
  fixes push :: "bool list \<Rightarrow> addr \<Rightarrow> 'w world_scheme \<Rightarrow> 'w world_scheme option"
    and try_push :: "bool list \<Rightarrow> addr \<Rightarrow> 'w world_scheme \<Rightarrow> (bool \<times> 'w world_scheme) option"
    and close :: "'w world_scheme \<Rightarrow> addr option \<times> 'w world_scheme"
    and closed :: "'w world_scheme \<Rightarrow> bool"
    and contents :: "'w world_scheme \<Rightarrow> addr list \<Rightarrow> bool \<Rightarrow> bool"
    and is_node :: "addr \<Rightarrow> bool"
  assumes closed_contents: "contents w ps cl \<Longrightarrow> closed w \<longleftrightarrow> cl"
    and closed_empty: "contents w ps True \<Longrightarrow> ps = []"
    and contents_live: "contents w ps cl \<Longrightarrow> a \<in> set ps \<Longrightarrow> nodes w a \<noteq> None"
    and push_contents: "contents w ps False \<Longrightarrow> nodes w p \<noteq> None \<Longrightarrow> p \<notin> set ps \<Longrightarrow> is_node p \<Longrightarrow>
       \<exists>w'. push fs p w = Some w' \<and> contents w' (p # ps) False
         \<and> (\<forall>a. a \<noteq> p \<longrightarrow> nodes w' a = nodes w a) \<and> same_payload (nodes w) (nodes w')"
    and try_push_contents: "contents w ps cl \<Longrightarrow> nodes w p \<noteq> None \<Longrightarrow> p \<notin> set ps \<Longrightarrow> is_node p \<Longrightarrow>
       \<exists>w'. try_push fs p w = Some (\<not> cl, w') \<and> contents w' (if cl then ps else p # ps) cl
         \<and> (\<forall>a. a \<noteq> p \<longrightarrow> nodes w' a = nodes w a) \<and> same_payload (nodes w) (nodes w')"
    and close_contents: "contents w ps cl \<Longrightarrow> close w = (t, w') \<Longrightarrow>
       node_list (nodes w) t ps \<and> nodes w' = nodes w \<and> contents w' [] True"
begin

text \<open>After \<open>close\<close> no push gets in, and a second \<open>close\<close> returns nothing.\<close>

lemma closed_for_good:
  assumes "contents w ps cl" "close w = (t, w')" "nodes w' p \<noteq> None" "is_node p"
  shows "\<exists>w''. try_push fs p w' = Some (False, w'') \<and> contents w'' [] True"
  using close_contents[OF assms(1,2)] try_push_contents[of w' "[]" True p fs] assms(3,4) by auto

lemma close_twice:
  assumes "contents w ps cl" "close w = (t, w')"
  shows "fst (close w') = None"
proof -
  obtain t2 w2 where c: "close w' = (t2, w2)" by (cases "close w'")
  with close_contents[of w' "[]" True t2 w2] close_contents[OF assms] show ?thesis by simp
qed

end

lemma same_payload_linked:
  "nodes w p = Some n \<Longrightarrow> same_payload (nodes w) ((nodes w)(p \<mapsto> n\<lparr>nd_next := q\<rparr>))"
  by (auto simp: same_payload_def)

interpretation lf: closable_stack lf_push lf_try_push lf_close lf_closed lf_holds
  "\<lambda>p. p \<noteq> closed_marker"
proof unfold_locales
  fix w :: "'w lf_world_scheme" and ps cl
  assume h: "lf_holds w ps cl"
  then show "lf_closed w \<longleftrightarrow> cl" by (rule lf_holds_closed)
  show "nodes w a \<noteq> None" if "a \<in> set ps" for a
    using h that node_list_live[of "nodes w" "lf_top w" ps a] by (auto simp: lf_holds_def split: if_splits)
  show "\<exists>w'. lf_try_push fs p w = Some (\<not> cl, w') \<and> lf_holds w' (if cl then ps else p # ps) cl
         \<and> (\<forall>a. a \<noteq> p \<longrightarrow> nodes w' a = nodes w a) \<and> same_payload (nodes w) (nodes w')"
    if p: "nodes w p \<noteq> None" "p \<notin> set ps" "p \<noteq> closed_marker" for p fs
  proof -
    from p obtain n where n: "nodes w p = Some n" by blast
    show ?thesis
    proof (cases cl)
      case True
      with h lf_holds_linked[OF h p(2), of n] lf_holds_closed[OF h] show ?thesis
        by (simp add: lf_try_push_eq[OF n] same_payload_linked[OF n])
    next
      case False
      with h lf_holds_push[of w ps p n] p lf_holds_closed[OF h] show ?thesis
        by (simp add: lf_try_push_eq[OF n] same_payload_linked[OF n])
    qed
  qed
next
  fix w :: "'w lf_world_scheme" and ps p fs
  assume h: "lf_holds w ps False" and p: "nodes w p \<noteq> None" "p \<notin> set ps" "p \<noteq> closed_marker"
  from p obtain n where n: "nodes w p = Some n" by blast
  with lf_holds_push[OF h p(2,3), of n]
  show "\<exists>w'. lf_push fs p w = Some w' \<and> lf_holds w' (p # ps) False
         \<and> (\<forall>a. a \<noteq> p \<longrightarrow> nodes w' a = nodes w a) \<and> same_payload (nodes w) (nodes w')"
    by (simp add: lf_push_eq[OF n] same_payload_linked[OF n])
next
  fix w w' :: "'w lf_world_scheme" and ps cl t
  assume "lf_holds w ps cl" "lf_close w = (t, w')"
  from lf_holds_close[OF this]
  show "node_list (nodes w) t ps \<and> nodes w' = nodes w \<and> lf_holds w' [] True" by auto
qed (simp add: lf_holds_def)

section \<open>Concurrent runs\<close>

text \<open>
  A thread is idle or stands before its next atomic access: \<open>PushCAS p\<close> before the
  compare-exchange of \<open>push(p)\<close>, \<open>TryCheck p\<close> before the test for the closed marker and
  \<open>TryCAS p\<close> before the compare-exchange of \<open>try_push(p)\<close>, \<open>StackCAS t l cs\<close> before the one of
  \<open>push_stack(t)\<close>, where \<open>l\<close> is the last node of the list (\<open>cs\<close> are its nodes, kept for the proof).
\<close>

datatype lf_pc = LfIdle | PushCAS addr | TryCheck addr | TryCAS addr | StackCAS addr addr "addr list"

record lf_sys = lf_world +
  lf_pcs :: "nat \<Rightarrow> lf_pc"

text \<open>
  The effect of a call on the abstract stack, with its result, as it becomes visible to the other
  threads; \<open>Internal\<close> steps have none.
\<close>

datatype lf_event = Internal | Pushed addr | TryPushed addr bool | PoppedAll "addr list"
  | ClosedWith "addr list" | SawClosed bool | PushedStack "addr list"

fun in_flight :: "lf_pc \<Rightarrow> addr list" where
  "in_flight LfIdle = []"
| "in_flight (PushCAS p) = [p]"
| "in_flight (TryCheck p) = [p]"
| "in_flight (TryCAS p) = [p]"
| "in_flight (StackCAS t l cs) = cs"

definition set_pc :: "nat \<Rightarrow> lf_pc \<Rightarrow> lf_sys \<Rightarrow> lf_sys" where
  "set_pc i c s = s\<lparr>lf_pcs := (lf_pcs s)(i := c)\<rparr>"

text \<open>
  The nodes that a call may start with: alive, not the marker, and used by no other thread
  (``any other push works with another \<open>value_ptr\<close>'', ``node is not contained'').
\<close>

definition unused :: "lf_sys \<Rightarrow> addr list \<Rightarrow> addr list \<Rightarrow> bool" where
  "unused s ps as \<longleftrightarrow> distinct as \<and> closed_marker \<notin> set as \<and> (\<forall>a\<in>set as. nodes s a \<noteq> None)
     \<and> set as \<inter> set ps = {} \<and> (\<forall>i. set as \<inter> set (in_flight (lf_pcs s i)) = {})"

text \<open>
  One atomic access of one thread. \<open>push\<close>, \<open>push_stack\<close> and \<open>try_pop_all\<close> have the precondition
  that the stack is not closed, which the rules of their effects state. \<open>ps\<close> are the nodes
  reachable from \<open>top\<close>. \<open>environment\<close> is everything the rest of the program may do meanwhile:
  it may change, create and destroy every node that is neither in the stack nor in flight.
\<close>

inductive lf_step :: "lf_sys \<Rightarrow> lf_event \<Rightarrow> lf_sys \<Rightarrow> bool" where
  push_begin: "lf_holds s ps cl \<Longrightarrow> unused s ps [p] \<Longrightarrow> lf_pcs s i = LfIdle \<Longrightarrow>
    load_next p s = Some s' \<Longrightarrow> lf_step s Internal (set_pc i (PushCAS p) s')"
| push_done: "lf_pcs s i = PushCAS p \<Longrightarrow> \<not> lf_closed s \<Longrightarrow>
    cas_weak_next f p p s = Some (True, s') \<Longrightarrow> lf_step s (Pushed p) (set_pc i LfIdle s')"
| push_retry: "lf_pcs s i = PushCAS p \<Longrightarrow>
    cas_weak_next f p p s = Some (False, s') \<Longrightarrow> lf_step s Internal s'"
| try_begin: "lf_holds s ps cl \<Longrightarrow> unused s ps [p] \<Longrightarrow> lf_pcs s i = LfIdle \<Longrightarrow>
    load_next p s = Some s' \<Longrightarrow>
    lf_step s (if lf_closed s then TryPushed p False else Internal) (set_pc i (TryCheck p) s')"
| try_closed: "lf_pcs s i = TryCheck p \<Longrightarrow> next_of (nodes s) p = Some (Some closed_marker) \<Longrightarrow>
    lf_step s Internal (set_pc i LfIdle s)"
| try_open: "lf_pcs s i = TryCheck p \<Longrightarrow> next_of (nodes s) p = Some e \<Longrightarrow>
    e \<noteq> Some closed_marker \<Longrightarrow> lf_step s Internal (set_pc i (TryCAS p) s)"
| try_done: "lf_pcs s i = TryCAS p \<Longrightarrow>
    cas_weak_next f p p s = Some (True, s') \<Longrightarrow> lf_step s (TryPushed p True) (set_pc i LfIdle s')"
| try_retry: "lf_pcs s i = TryCAS p \<Longrightarrow> cas_weak_next f p p s = Some (False, s') \<Longrightarrow>
    lf_step s (if lf_closed s then TryPushed p False else Internal) (set_pc i (TryCheck p) s')"
| pop_all: "lf_pcs s i = LfIdle \<Longrightarrow> \<not> lf_closed s \<Longrightarrow> lf_try_pop_all s = (t, s') \<Longrightarrow>
    node_list (nodes s') t as \<Longrightarrow> lf_step s (PoppedAll as) s'"
| close: "lf_pcs s i = LfIdle \<Longrightarrow> lf_close s = (t, s') \<Longrightarrow>
    node_list (nodes s') t as \<Longrightarrow> lf_step s (ClosedWith as) s'"
| read_closed: "lf_pcs s i = LfIdle \<Longrightarrow> lf_step s (SawClosed (lf_closed s)) s"
| stack_begin: "lf_holds s ps cl \<Longrightarrow> unused s ps cs \<Longrightarrow> lf_pcs s i = LfIdle \<Longrightarrow>
    node_list (nodes s) (Some t) cs \<Longrightarrow> find_last t (nodes s) = Some l \<Longrightarrow>
    load_next l s = Some s' \<Longrightarrow> lf_step s Internal (set_pc i (StackCAS t l cs) s')"
| stack_done: "lf_pcs s i = StackCAS t l cs \<Longrightarrow> \<not> lf_closed s \<Longrightarrow>
    cas_weak_next f l t s = Some (True, s') \<Longrightarrow> lf_step s (PushedStack cs) (set_pc i LfIdle s')"
| stack_retry: "lf_pcs s i = StackCAS t l cs \<Longrightarrow>
    cas_weak_next f l t s = Some (False, s') \<Longrightarrow> lf_step s Internal s'"
| environment: "lf_holds s ps cl \<Longrightarrow>
    (\<And>a. a \<in> set ps \<or> (\<exists>i. a \<in> set (in_flight (lf_pcs s i))) \<Longrightarrow> h a = nodes s a) \<Longrightarrow>
    lf_step s Internal (s\<lparr>nodes := h\<rparr>)"

text \<open>The sequential stack: one call, with the result it must have.\<close>

fun lf_spec :: "lf_event \<Rightarrow> addr list \<times> bool \<Rightarrow> (addr list \<times> bool) option" where
  "lf_spec Internal (ps, cl) = Some (ps, cl)"
| "lf_spec (Pushed p) (ps, cl) = (if cl then None else Some (p # ps, False))"
| "lf_spec (TryPushed p b) (ps, cl) =
     (if b = cl then None else Some (if cl then ps else p # ps, cl))"
| "lf_spec (PoppedAll as) (ps, cl) = (if cl \<or> as \<noteq> ps then None else Some ([], False))"
| "lf_spec (ClosedWith as) (ps, cl) = (if as \<noteq> ps then None else Some ([], True))"
| "lf_spec (SawClosed b) (ps, cl) = (if b \<noteq> cl then None else Some (ps, cl))"
| "lf_spec (PushedStack cs) (ps, cl) = (if cl then None else Some (cs @ ps, False))"

inductive lf_reach :: "lf_sys \<Rightarrow> lf_event list \<Rightarrow> bool" where
  init: "lf_reach \<lparr>nodes = h, lf_top = lf_ctor False, lf_pcs = (\<lambda>_. LfIdle)\<rparr> []"
| step: "lf_reach s es \<Longrightarrow> lf_step s e s' \<Longrightarrow> lf_reach s' (es @ [e])"

text \<open>
  Invariant: the stack holds some list; the nodes in flight are alive, never the marker, and
  disjoint from the stack and from each other; a checked \<open>try_push\<close> does not expect the marker;
  the list given to \<open>push_stack\<close> is still linked.
\<close>

fun pc_ok :: "node_heap \<Rightarrow> lf_pc \<Rightarrow> bool" where
  "pc_ok h LfIdle \<longleftrightarrow> True"
| "pc_ok h (PushCAS p) \<longleftrightarrow> h p \<noteq> None"
| "pc_ok h (TryCheck p) \<longleftrightarrow> h p \<noteq> None"
| "pc_ok h (TryCAS p) \<longleftrightarrow> h p \<noteq> None \<and> next_of h p \<noteq> Some (Some closed_marker)"
| "pc_ok h (StackCAS t l cs) \<longleftrightarrow>
     cs \<noteq> [] \<and> last cs = l \<and> distinct cs \<and> (\<exists>r. lseg (next_of h) (Some t) cs r)"

definition lf_inv :: "lf_sys \<Rightarrow> addr list \<Rightarrow> bool \<Rightarrow> bool" where
  "lf_inv s ps cl \<longleftrightarrow> lf_holds s ps cl \<and> (\<forall>i. pc_ok (nodes s) (lf_pcs s i))
     \<and> (\<forall>i. set (in_flight (lf_pcs s i)) \<inter> set ps = {} \<and> closed_marker \<notin> set (in_flight (lf_pcs s i)))
     \<and> (\<forall>i j. i \<noteq> j \<longrightarrow> set (in_flight (lf_pcs s i)) \<inter> set (in_flight (lf_pcs s j)) = {})"

section \<open>Preservation\<close>

lemma load_nextE:
  assumes "load_next p w = Some w'"
  obtains n where "nodes w p = Some n"
    "w' = w\<lparr>nodes := (nodes w)(p \<mapsto> n\<lparr>nd_next := lf_top w\<rparr>)\<rparr>"
  using assms by (auto simp: load_next_def set_next_def split: bind_splits)

lemma cas_fail: "cas_weak_next f p d w = Some (False, w') \<Longrightarrow> load_next p w = Some w'"
  by (auto simp: cas_weak_next_def split: bind_splits if_splits)

lemma cas_success:
  "cas_weak_next f p d w = Some (True, w') \<Longrightarrow>
     next_of (nodes w) p = Some (lf_top w) \<and> w' = w\<lparr>lf_top := Some d\<rparr>"
  by (auto simp: cas_weak_next_def split: bind_splits if_splits)

lemma pc_ok_cong:
  assumes "\<And>a. a \<in> set (in_flight c) \<Longrightarrow> h' a = h a"
  shows "pc_ok h' c = pc_ok h c"
proof (cases c)
  case (StackCAS t l cs)
  with assms have "lseg (next_of h') (Some t) cs = lseg (next_of h) (Some t) cs"
    by (intro ext node_list_cong) auto
  with StackCAS show ?thesis by simp
qed (use assms in \<open>auto simp: next_of_def\<close>)

lemma lf_holds_cong:
  assumes "lf_holds w ps cl" "lf_top w' = lf_top w" "\<And>a. a \<in> set ps \<Longrightarrow> nodes w' a = nodes w a"
  shows "lf_holds w' ps cl"
  using assms(1,2) node_list_cong[OF assms(3), where p = "lf_top w" and q = None]
  by (auto simp: lf_holds_def lf_closed_def)

lemma lf_holds_unique:
  assumes "lf_holds w ps cl" "lf_holds w qs dl"
  shows "ps = qs \<and> cl = dl"
proof -
  have "cl = dl" using lf_holds_closed[OF assms(1)] lf_holds_closed[OF assms(2)] by simp
  moreover from this have "ps = qs"
    using assms by (cases cl) (simp_all add: lf_holds_def lseg_unique[of "next_of (nodes w)" "lf_top w"])
  ultimately show ?thesis by simp
qed

lemma set_pc_simps [simp]:
  "nodes (set_pc i c s) = nodes s" "lf_top (set_pc i c s) = lf_top s"
  "lf_pcs (set_pc i c s) = (lf_pcs s)(i := c)"
  by (simp_all add: set_pc_def)

lemma lf_invI:
  assumes "lf_holds s ps cl" "\<And>i. pc_ok (nodes s) (lf_pcs s i)"
    "\<And>i. set (in_flight (lf_pcs s i)) \<inter> set ps = {}"
    "\<And>i. closed_marker \<notin> set (in_flight (lf_pcs s i))"
    "\<And>i j. i \<noteq> j \<Longrightarrow> set (in_flight (lf_pcs s i)) \<inter> set (in_flight (lf_pcs s j)) = {}"
  shows "lf_inv s ps cl"
  using assms by (simp add: lf_inv_def)

lemma lf_invD:
  assumes "lf_inv s ps cl"
  shows "lf_holds s ps cl" "pc_ok (nodes s) (lf_pcs s i)"
    "set (in_flight (lf_pcs s i)) \<inter> set ps = {}"
    "closed_marker \<notin> set (in_flight (lf_pcs s i))"
    "i \<noteq> j \<Longrightarrow> set (in_flight (lf_pcs s i)) \<inter> set (in_flight (lf_pcs s j)) = {}"
  using assms by (auto simp: lf_inv_def)

lemma unusedD:
  assumes "unused s ps as"
  shows "set as \<inter> set ps = {}" "set as \<inter> set (in_flight (lf_pcs s i)) = {}" "closed_marker \<notin> set as"
  using assms by (auto simp: unused_def)

lemma owned_nodes:
  assumes inv: "lf_inv s ps cl" and own: "unused s ps as \<or> set as \<subseteq> set (in_flight (lf_pcs s i))"
  shows "set as \<inter> set ps = {}" "closed_marker \<notin> set as"
    "j \<noteq> i \<Longrightarrow> set as \<inter> set (in_flight (lf_pcs s j)) = {}"
proof -
  show "set as \<inter> set ps = {}" "closed_marker \<notin> set as"
    using own lf_invD(3)[OF inv, of i] lf_invD(4)[OF inv, of i] unusedD(1,3)[of s ps as]
    by auto
  assume "j \<noteq> i"
  then show "set as \<inter> set (in_flight (lf_pcs s j)) = {}"
    using own lf_invD(5)[OF inv, of j i] unusedD(2)[of s ps as j] by auto
qed

text \<open>A thread changes nodes of its own and moves to another program point.\<close>

lemma lf_inv_private:
  assumes inv: "lf_inv s ps cl"
    and own: "set as \<inter> set ps = {}" "\<And>j. j \<noteq> i \<Longrightarrow> set as \<inter> set (in_flight (lf_pcs s j)) = {}"
      "closed_marker \<notin> set as"
    and h: "\<And>a. a \<notin> set as \<Longrightarrow> h a = nodes s a"
    and c: "set (in_flight c) \<subseteq> set as" "pc_ok h c"
  shows "lf_inv (set_pc i c (s\<lparr>nodes := h\<rparr>)) ps cl"
proof -
  let ?s = "set_pc i c (s\<lparr>nodes := h\<rparr>)"
  have fl: "set (in_flight (lf_pcs ?s j)) \<subseteq> (if j = i then set as else set (in_flight (lf_pcs s j)))" for j
    using c(1) by simp
  have "lf_holds ?s ps cl"
  proof (rule lf_holds_cong[OF lf_invD(1)[OF inv]])
    show "nodes ?s a = nodes s a" if "a \<in> set ps" for a using own(1) that by (auto intro: h)
  qed simp
  moreover have "pc_ok (nodes ?s) (lf_pcs ?s j)" for j
  proof (cases "j = i")
    case False
    have "pc_ok h (lf_pcs s j) = pc_ok (nodes s) (lf_pcs s j)"
      by (intro pc_ok_cong h) (use own(2)[OF False] in auto)
    with False lf_invD(2)[OF inv] show ?thesis by simp
  qed (use c in simp)
  moreover have "set (in_flight (lf_pcs ?s j)) \<inter> set ps = {}" for j
    using fl[of j] own(1) lf_invD(3)[OF inv, of j] by (auto split: if_splits)
  moreover have "closed_marker \<notin> set (in_flight (lf_pcs ?s j))" for j
    using fl[of j] own(3) lf_invD(4)[OF inv, of j] by (auto split: if_splits)
  moreover have "set (in_flight (lf_pcs ?s j)) \<inter> set (in_flight (lf_pcs ?s k)) = {}" if "j \<noteq> k" for j k
    using fl[of j] fl[of k] own(2)[of j] own(2)[of k] lf_invD(5)[OF inv that] that
    by (cases "j = i"; cases "k = i") auto
  ultimately show ?thesis by (rule lf_invI)
qed

text \<open>A successful compare-exchange publishes a private segment on top of the stack.\<close>

lemma lf_inv_publish:
  assumes inv: "lf_inv s ps False" and cs: "in_flight (lf_pcs s i) = cs" "cs \<noteq> []"
    and l: "lseg (next_of (nodes s)) (Some t) cs (lf_top s)"
  shows "lf_inv (set_pc i LfIdle (s\<lparr>lf_top := Some t\<rparr>)) (cs @ ps) False"
proof -
  have ps: "node_list (nodes s) (lf_top s) ps" "closed_marker \<notin> set ps"
    using inv by (auto simp: lf_inv_def lf_holds_def)
  have "closed_marker \<notin> set cs" using inv cs by (auto simp: lf_inv_def)
  with ps l have "lf_holds (set_pc i LfIdle (s\<lparr>lf_top := Some t\<rparr>)) (cs @ ps) False"
    by (auto simp: lf_holds_def lseg_append)
  moreover have "set (in_flight (lf_pcs s j)) \<inter> set (cs @ ps) = {}" if "j \<noteq> i" for j
    using lf_invD(3)[OF inv, of j] lf_invD(5)[OF inv that] cs(1) by auto
  ultimately show ?thesis using inv unfolding lf_inv_def by simp
qed

text \<open>An exchange of \<open>top\<close> takes all nodes.\<close>

lemma lf_inv_take:
  assumes "lf_inv s ps cl" "lf_holds (s\<lparr>lf_top := t\<rparr>) [] dl"
  shows "lf_inv (s\<lparr>lf_top := t\<rparr>) [] dl"
  using assms by (auto simp: lf_inv_def)

lemma lf_inv_load:
  assumes inv: "lf_inv s ps cl" and l: "load_next p s = Some s'"
    and p: "unused s ps [p] \<or> p \<in> set (in_flight (lf_pcs s i))" and c: "c = PushCAS p \<or> c = TryCheck p"
  shows "lf_inv (set_pc i c s') ps cl"
proof -
  from l obtain n where n: "nodes s p = Some n"
    and s': "s' = s\<lparr>nodes := (nodes s)(p \<mapsto> n\<lparr>nd_next := lf_top s\<rparr>)\<rparr>" by (rule load_nextE)
  have "set [p] \<inter> set ps = {}" "closed_marker \<notin> set [p]"
    "\<And>j. j \<noteq> i \<Longrightarrow> set [p] \<inter> set (in_flight (lf_pcs s j)) = {}"
    using owned_nodes[OF inv, of "[p]" i] p by auto
  then show ?thesis unfolding s'
    using inv c by (intro lf_inv_private[where as = "[p]"]) auto
qed

lemma lf_inv_load_stack:
  assumes inv: "lf_inv s ps cl" and l: "load_next l s = Some s'"
    and own: "unused s ps cs \<or> in_flight (lf_pcs s i) = cs"
    and cs: "cs \<noteq> []" "last cs = l" "distinct cs" "lseg (next_of (nodes s)) (Some t) cs r"
  shows "lf_inv (set_pc i (StackCAS t l cs) s') ps cl"
proof -
  from l obtain n where n: "nodes s l = Some n"
    and s': "s' = s\<lparr>nodes := (nodes s)(l \<mapsto> n\<lparr>nd_next := lf_top s\<rparr>)\<rparr>" by (rule load_nextE)
  obtain bs where bs: "cs = bs @ [l]" using cs(1,2) by (cases cs rule: rev_cases) auto
  have "lseg (next_of (nodes s')) (Some t) cs (lf_top s)"
    using cs(3,4) n unfolding bs s' by (auto simp: lseg_append split: option.splits)
  moreover have "set cs \<inter> set ps = {}" "closed_marker \<notin> set cs"
    "\<And>j. j \<noteq> i \<Longrightarrow> set cs \<inter> set (in_flight (lf_pcs s j)) = {}"
    using owned_nodes[OF inv, of cs i] own by auto
  ultimately show ?thesis unfolding s'
    using inv cs bs by (intro lf_inv_private[where as = cs]) auto
qed

lemma lf_inv_environment:
  assumes inv: "lf_inv s ps cl"
    and h: "\<And>a. a \<in> set ps \<or> (\<exists>i. a \<in> set (in_flight (lf_pcs s i))) \<Longrightarrow> h a = nodes s a"
  shows "lf_inv (s\<lparr>nodes := h\<rparr>) ps cl"
proof -
  have "lf_holds (s\<lparr>nodes := h\<rparr>) ps cl"
    by (rule lf_holds_cong[OF lf_invD(1)[OF inv]]) (simp_all add: h)
  moreover have "pc_ok h (lf_pcs s i)" for i
  proof -
    have "pc_ok h (lf_pcs s i) = pc_ok (nodes s) (lf_pcs s i)" by (rule pc_ok_cong) (blast intro: h)
    with lf_invD(2)[OF inv] show ?thesis by simp
  qed
  ultimately show ?thesis using inv by (auto simp: lf_inv_def)
qed

lemma set_pc_same: "lf_pcs s i = c \<Longrightarrow> set_pc i c s = s"
  by (simp add: set_pc_def fun_upd_idem)

section \<open>Every step is explained by the sequential stack\<close>

definition lf_sim :: "lf_event \<Rightarrow> addr list \<Rightarrow> bool \<Rightarrow> lf_sys \<Rightarrow> bool" where
  "lf_sim e ps cl s' \<longleftrightarrow> (\<exists>ps' cl'. lf_spec e (ps, cl) = Some (ps', cl') \<and> lf_inv s' ps' cl')"

lemma lf_sim_internal: "lf_inv s' ps cl \<Longrightarrow> lf_sim Internal ps cl s'"
  by (simp add: lf_sim_def)

lemma lf_sim_load:
  assumes "lf_inv s ps cl" "load_next p s = Some s'"
    "unused s ps [p] \<or> p \<in> set (in_flight (lf_pcs s i))"
  shows "lf_sim (if lf_closed s then TryPushed p False else Internal) ps cl (set_pc i (TryCheck p) s')"
  using lf_inv_load[OF assms, of "TryCheck p"] lf_holds_closed[OF lf_invD(1)[OF assms(1)]]
  by (cases cl) (auto simp: lf_sim_def)

lemma lf_inv_publish_one:
  assumes inv: "lf_inv s ps cl" and "\<not> lf_closed s" "in_flight (lf_pcs s i) = [p]"
    and cas: "cas_weak_next f p p s = Some (True, s')"
  shows "lf_inv (set_pc i LfIdle s') (p # ps) False \<and> \<not> cl"
proof -
  have "\<not> cl" using lf_holds_closed[OF lf_invD(1)[OF inv]] assms(2) by simp
  with lf_inv_publish[of s ps i "[p]" p] inv assms(3) cas_success[OF cas] show ?thesis
    by (auto simp: next_of_def split: option.splits)
qed

lemma lf_sim_stack_done:
  assumes inv: "lf_inv s ps cl" and "\<not> lf_closed s" and pc: "lf_pcs s i = StackCAS t l cs"
    and cas: "cas_weak_next f l t s = Some (True, s')"
  shows "lf_sim (PushedStack cs) ps cl (set_pc i LfIdle s')"
proof -
  have "\<not> cl" using lf_holds_closed[OF lf_invD(1)[OF inv]] assms(2) by simp
  have ok: "cs \<noteq> []" "last cs = l" "\<exists>r. lseg (next_of (nodes s)) (Some t) cs r"
    using lf_invD(2)[OF inv, of i] pc by auto
  from ok(1,2) obtain bs where bs: "cs = bs @ [l]" by (cases cs rule: rev_cases) auto
  from ok(3) cas_success[OF cas] have "lseg (next_of (nodes s)) (Some t) cs (lf_top s)"
    unfolding bs by (auto simp: lseg_append split: option.splits)
  with lf_inv_publish[of s ps i cs t] inv pc ok(1) cas_success[OF cas] \<open>\<not> cl\<close> show ?thesis
    by (auto simp: lf_sim_def)
qed

lemma lf_step_simulates:
  assumes "lf_step s e s'" "lf_inv s ps cl"
  shows "lf_sim e ps cl s'"
  using assms
proof (induction rule: lf_step.induct)
  case (push_begin s qs dl p i s')
  then have "qs = ps" using lf_holds_unique lf_invD(1) by blast
  with push_begin show ?case by (auto intro: lf_sim_internal lf_inv_load)
next
  case (push_done s i p f s')
  from lf_inv_publish_one[OF push_done.prems push_done.hyps(2) _ push_done.hyps(3), of i] push_done(1)
  show ?case by (auto simp: lf_sim_def)
next
  case (push_retry s i p f s')
  then have "lf_inv (set_pc i (PushCAS p) s') ps cl"
    by (auto intro: lf_inv_load dest: cas_fail)
  moreover have "lf_pcs s' i = PushCAS p"
    using push_retry cas_fail[OF push_retry(2)] by (auto elim: load_nextE)
  ultimately show ?case by (simp add: set_pc_same lf_sim_internal)
next
  case (try_begin s qs dl p i s')
  then have "qs = ps" using lf_holds_unique lf_invD(1) by blast
  with try_begin show ?case using lf_sim_load[of s ps cl p s' i] by blast
next
  case (try_closed s i p)
  have "lf_inv (set_pc i LfIdle (s\<lparr>nodes := nodes s\<rparr>)) ps cl"
    using try_closed.prems by (rule lf_inv_private[where as = "[]"]) auto
  then show ?case by (simp add: lf_sim_internal)
next
  case (try_open s i p e)
  have "lf_inv (set_pc i (TryCAS p) (s\<lparr>nodes := nodes s\<rparr>)) ps cl"
    using try_open lf_invD(2)[OF try_open.prems, of i] owned_nodes[OF try_open.prems, of "[p]" i]
    by (intro lf_inv_private[where as = "[p]"]) auto
  then show ?case by (simp add: lf_sim_internal)
next
  case (try_done s i p f s')
  have "next_of (nodes s) p = Some (lf_top s)" using cas_success[OF try_done(2)] by simp
  with try_done(1) lf_invD(2)[OF try_done.prems, of i] have "\<not> lf_closed s"
    by (auto simp: lf_closed_def)
  from lf_inv_publish_one[OF try_done.prems this _ try_done.hyps(2), of i] try_done(1)
  show ?case by (auto simp: lf_sim_def)
next
  case (try_retry s i p f s')
  then show ?case using lf_sim_load[of s ps cl p s' i] cas_fail[OF try_retry(2)] by auto
next
  case (pop_all s i t s' as)
  have "\<not> cl" using lf_holds_closed[OF lf_invD(1)[OF pop_all.prems]] pop_all(2) by simp
  then have h: "lf_holds s ps False" using lf_invD(1)[OF pop_all.prems] by simp
  from lf_holds_pop_all[OF h pop_all(3)] lseg_unique[OF pop_all(4)] have "as = ps" "lf_holds s' [] False"
    by auto
  moreover from this pop_all(3) have "lf_inv s' [] False"
    using lf_inv_take[OF pop_all.prems, of None False] by (auto simp: lf_try_pop_all_def)
  ultimately show ?case
    using lf_holds_closed[OF lf_invD(1)[OF pop_all.prems]] pop_all(2) by (auto simp: lf_sim_def)
next
  case (close s i t s' as)
  from lf_holds_close[OF lf_invD(1)[OF close.prems] close(2)] lseg_unique[OF close(3)]
  have "as = ps" "lf_holds s' [] True" by auto
  moreover from this close(2) have "lf_inv s' [] True"
    using lf_inv_take[OF close.prems, of "Some closed_marker" True] by (auto simp: lf_close_def Let_def)
  ultimately show ?case by (auto simp: lf_sim_def)
next
  case (read_closed s i)
  with lf_holds_closed[OF lf_invD(1)[OF read_closed.prems]] show ?case by (auto simp: lf_sim_def)
next
  case (stack_begin s qs dl cs i t l s')
  then have "qs = ps" using lf_holds_unique lf_invD(1) by blast
  moreover have "cs \<noteq> []" using stack_begin(4) by auto
  moreover have "last cs = l" using stack_begin(4,5) find_last_spec by fastforce
  moreover have "distinct cs" using stack_begin(4) lseg_distinct by blast
  ultimately show ?case
    using stack_begin by (intro lf_sim_internal lf_inv_load_stack[where r = None]) auto
next
  case (stack_done s i t l cs f s')
  from lf_sim_stack_done[OF stack_done.prems stack_done.hyps(2,1,3)] show ?case .
next
  case (stack_retry s i t l cs f s')
  have "\<exists>r. lseg (next_of (nodes s)) (Some t) cs r" "cs \<noteq> []" "last cs = l" "distinct cs"
    using lf_invD(2)[OF stack_retry.prems, of i] stack_retry(1) by auto
  then have "lf_inv (set_pc i (StackCAS t l cs) s') ps cl"
    using stack_retry.prems cas_fail[OF stack_retry(2)] stack_retry(1)
    by (auto intro: lf_inv_load_stack)
  moreover have "lf_pcs s' i = StackCAS t l cs"
    using stack_retry(1) cas_fail[OF stack_retry(2)] by (auto elim: load_nextE)
  ultimately show ?case by (simp add: set_pc_same lf_sim_internal)
next
  case (environment s qs dl h)
  then have "qs = ps" using lf_holds_unique lf_invD(1) by blast
  with environment.prems environment.hyps(2) have "lf_inv (s\<lparr>nodes := h\<rparr>) ps cl"
    by (intro lf_inv_environment) blast+
  then show ?case by (rule lf_sim_internal)
qed

text \<open>A history replayed on the sequential stack.\<close>

definition lf_replay :: "lf_event list \<Rightarrow> addr list \<times> bool \<Rightarrow> (addr list \<times> bool) option" where
  "lf_replay es a = foldM_opt lf_spec es a"

lemma lf_reach_sim: "lf_reach s es \<Longrightarrow> \<exists>ps cl. lf_replay es ([], False) = Some (ps, cl) \<and> lf_inv s ps cl"
proof (induction rule: lf_reach.induct)
  case (init h)
  show ?case by (auto simp: lf_replay_def lf_inv_def lf_holds_def lf_ctor_def)
next
  case (step s es e s')
  then obtain ps cl where 1: "lf_replay es ([], False) = Some (ps, cl)" "lf_inv s ps cl" by blast
  with lf_step_simulates[OF step(2) 1(2)] show ?case
    by (auto simp: lf_sim_def lf_replay_def foldM_opt_append)
qed

section \<open>Properties\<close>

text \<open>
  C1. The lock-free stack is linearizable: in every interleaving of the atomic accesses of any
  number of threads (with spurious failures of the weak compare-exchange, and with the rest of the
  program reusing or freeing nodes that are not in the stack), the calls, in the order in which
  their effects become visible and with the results they return, are a run of the sequential
  closable stack; the nodes linked from \<open>top\<close> are exactly its contents, so no pushed node is lost
  or popped twice and no \<open>try_push\<close> succeeds after \<open>close\<close>.
\<close>

theorem lockfree_stack_linearizable:
  assumes "lf_reach s es"
  shows "\<exists>ps cl. lf_replay es ([], False) = Some (ps, cl) \<and> lf_holds s ps cl"
  using lf_reach_sim[OF assms] lf_invD(1) by blast

text \<open>A thread pushes a node, with one spurious failure; another one closes the stack.\<close>

lemma lf_run_example: "\<exists>s. lf_reach s [Internal, Internal, Pushed 1, ClosedWith [1]]"
proof -
  let ?s0 = "\<lparr>nodes = [1 \<mapsto> task_node_init], lf_top = lf_ctor False, lf_pcs = (\<lambda>_. LfIdle)\<rparr>"
  let ?s1 = "set_pc 0 (PushCAS 1) ?s0"
  let ?s2 = "set_pc 0 LfIdle (?s1\<lparr>lf_top := Some 1\<rparr>)"
  have 0: "lf_reach ?s0 []" by (rule lf_reach.init)
  have "lf_reach ?s1 ([] @ [Internal])"
    by (rule lf_reach.step[OF 0], rule lf_step.push_begin[where ps = "[]" and cl = False and s' = ?s0])
      (auto simp: lf_holds_def lf_ctor_def unused_def closed_marker_def load_next_def task_node_init_def)
  then have 1: "lf_reach ?s1 [Internal]" by simp
  have "lf_reach ?s1 ([Internal] @ [Internal])"
    by (rule lf_reach.step[OF 1], rule lf_step.push_retry[where i = 0 and p = 1 and f = True])
      (auto simp: lf_ctor_def set_pc_def cas_weak_next_def load_next_def task_node_init_def)
  then have 2: "lf_reach ?s1 [Internal, Internal]" by simp
  have "lf_reach ?s2 ([Internal, Internal] @ [Pushed 1])"
    by (rule lf_reach.step[OF 2], rule lf_step.push_done[where f = False])
      (auto simp: lf_ctor_def set_pc_def cas_weak_next_def lf_closed_def task_node_init_def)
  then have 3: "lf_reach ?s2 [Internal, Internal, Pushed 1]" by simp
  have "lf_reach (?s2\<lparr>lf_top := Some closed_marker\<rparr>) ([Internal, Internal, Pushed 1] @ [ClosedWith [1]])"
    by (rule lf_reach.step[OF 3], rule lf_step.close[where i = 1 and t = "Some 1"])
      (auto simp: set_pc_def lf_close_def closed_marker_def task_node_init_def next_of_def)
  then show ?thesis by auto
qed

theorem lockfree_stack_linearizable_witness:
  "\<exists>s. lf_reach s [Internal, Internal, Pushed 1, ClosedWith [1]] \<and>
     (\<exists>ps cl. lf_replay [Internal, Internal, Pushed 1, ClosedWith [1]] ([], False) = Some (ps, cl)
       \<and> lf_holds s ps cl)"
  using lf_run_example lockfree_stack_linearizable by blast

text \<open>
  A push makes progress: right after the load, or after any failed attempt, the expected value
  is the current top, so the next compare-exchange that does not fail spuriously succeeds, for
  \<open>push\<close> and, on an open stack, for \<open>try_push\<close>; without interference both return after any number
  of spurious failures with the node on top, and \<open>try_push\<close> returns false exactly when the stack
  is closed.
\<close>

theorem lockfree_push_progress:
  assumes "nodes w p \<noteq> None"
  shows "\<exists>w1 w2. load_next p w = Some w1 \<and> cas_weak_next False p p w1 = Some (True, w2)
           \<and> (\<forall>fs. lf_push fs p w = Some w2)
           \<and> (\<forall>fs. lf_try_push fs p w = Some (if lf_closed w then (False, w1) else (True, w2)))"
proof -
  obtain n where n: "nodes w p = Some n" using assms by blast
  show ?thesis
    by (intro exI[of _ "linked p w n"] exI[of _ "(linked p w n)\<lparr>lf_top := Some p\<rparr>"])
      (auto simp: lf_push_eq[OF n] lf_try_push_eq[OF n] load_next_Some[of w p n, OF n]
        cas_weak_next_fresh[where n = "n\<lparr>nd_next := lf_top w\<rparr>"] linked_def)
qed

theorem lockfree_push_progress_witness:
  "\<exists>w1 w2. load_next 1 \<lparr>nodes = [1 \<mapsto> task_node_init], lf_top = None\<rparr> = Some w1
     \<and> cas_weak_next False 1 1 w1 = Some (True, w2)
     \<and> (\<forall>fs. lf_push fs 1 \<lparr>nodes = [1 \<mapsto> task_node_init], lf_top = None\<rparr> = Some w2)
     \<and> (\<forall>fs. lf_try_push fs 1 \<lparr>nodes = [1 \<mapsto> task_node_init], lf_top = None\<rparr> =
          Some (if lf_closed \<lparr>nodes = [1 \<mapsto> task_node_init], lf_top = None\<rparr> then (False, w1) else (True, w2)))"
  by (rule lockfree_push_progress) simp

end
