(* ===== verification/Latch.thy ===== *)
theory Latch
  imports Lockfree_Stack "HOL-Library.Word" "HOL-Library.Multiset"
begin

text \<open>
  \<open>latch.hpp\<close>: a single-use counter that coroutines wait for, built on the closable lock-free
  stack through its contract \<open>closable_stack\<close> (so every stack operation is one step here). The
  counter is the 64-bit signed \<open>atomic_ptrdiff_t\<close>. The executor of the latch is a parameter.
\<close>

section \<open>State and operations\<close>

record latch_world = lf_world +
  lt_counter :: "64 word"

definition latch_ctor :: "64 word \<Rightarrow> node_heap \<Rightarrow> latch_world option" where
  "latch_ctor cnt h = (if 0 \<le> sint cnt
     then Some \<lparr>nodes = h, lf_top = lf_ctor (cnt = 0), lt_counter = cnt\<rparr> else None)"

definition latch_max :: int where
  "latch_max = 2 ^ 63 - 1"

definition latch_ready :: "'w latch_world_scheme \<Rightarrow> bool" where
  "latch_ready w = lf_closed w"

definition latch_wakeup_all ::
  "(addr \<Rightarrow> 'w latch_world_scheme \<Rightarrow> 'w latch_world_scheme option)
     \<Rightarrow> 'w latch_world_scheme \<Rightarrow> 'w latch_world_scheme option" where
  "latch_wakeup_all attach w = (let (t, w1) = lf_close w in attach_list attach t w1)"

text \<open>
  \<open>count_down\<close> up to the decision: the assertion, the \<open>fetch_sub\<close> and the test \<open>c == n\<close>.
\<close>

definition latch_fetch_sub ::
  "64 word \<Rightarrow> 'w latch_world_scheme \<Rightarrow> (bool \<times> 'w latch_world_scheme) option" where
  "latch_fetch_sub n w = (if 0 \<le> sint n \<and> sint n \<le> sint (lt_counter w)
     then let c = lt_counter w in Some (c = n, w\<lparr>lt_counter := c - n\<rparr>)
     else None)"

definition latch_count_down ::
  "(addr \<Rightarrow> 'w latch_world_scheme \<Rightarrow> 'w latch_world_scheme option) \<Rightarrow> 64 word
     \<Rightarrow> 'w latch_world_scheme \<Rightarrow> 'w latch_world_scheme option" where
  "latch_count_down attach n w = do {
     (lst, w1) \<leftarrow> latch_fetch_sub n w;
     if lst then latch_wakeup_all attach w1 else Some w1 }"

definition latch_wait_await_ready :: "'w latch_world_scheme \<Rightarrow> bool" where
  "latch_wait_await_ready w = latch_ready w"

text \<open>\<open>await_suspend\<close> returns whether the coroutine stays suspended.\<close>

definition latch_wait_await_suspend ::
  "bool list \<Rightarrow> addr \<Rightarrow> handle \<Rightarrow> 'w latch_world_scheme \<Rightarrow> (bool \<times> 'w latch_world_scheme) option" where
  "latch_wait_await_suspend fs node hnd w = do {
     h \<leftarrow> set_task node (Some hnd) (nodes w);
     lf_try_push fs node (w\<lparr>nodes := h\<rparr>) }"

definition latch_arrive_await_ready :: "64 word \<Rightarrow> 'w latch_world_scheme \<Rightarrow> bool" where
  "latch_arrive_await_ready n w \<longleftrightarrow> n = 0 \<and> latch_ready w"

text \<open>The part of \<open>arrive_and_wait\<close> before \<open>count_down\<close> for \<open>n \<noteq> 0\<close>, and the whole.\<close>

definition latch_arrive_push ::
  "bool list \<Rightarrow> addr \<Rightarrow> handle \<Rightarrow> 'w latch_world_scheme \<Rightarrow> 'w latch_world_scheme option" where
  "latch_arrive_push fs node hnd w = do {
     h \<leftarrow> set_task node (Some hnd) (nodes w);
     lf_push fs node (w\<lparr>nodes := h\<rparr>) }"

definition latch_arrive_await_suspend ::
  "(addr \<Rightarrow> 'w latch_world_scheme \<Rightarrow> 'w latch_world_scheme option) \<Rightarrow> bool list \<Rightarrow> addr \<Rightarrow> handle
     \<Rightarrow> 64 word \<Rightarrow> 'w latch_world_scheme \<Rightarrow> (bool \<times> 'w latch_world_scheme) option" where
  "latch_arrive_await_suspend attach fs node hnd n w =
     (if n = 0 then latch_wait_await_suspend fs node hnd w
      else do {
        w1 \<leftarrow> latch_arrive_push fs node hnd w;
        w2 \<leftarrow> latch_count_down attach n w1;
        Some (True, w2) })"

section \<open>Behaviour of the operations\<close>

lemma sint_sub_within:
  fixes c n :: "64 word"
  assumes "0 \<le> sint n" "sint n \<le> sint c"
  shows "sint (c - n) = sint c - sint n"
proof -
  have "sint c < 2 ^ 63" using sint_lt[of c] by simp
  with assms show ?thesis
    by (simp add: sint_word_ariths(2) signed_take_bit_int_eq_self)
qed

lemma sint_eqD: "sint c = sint n \<Longrightarrow> c = (n :: 64 word)"
  by (rule signed_word_eqI)

lemma latch_fetch_sub_Some:
  "latch_fetch_sub n w = Some (lst, w') \<Longrightarrow>
     0 \<le> sint n \<and> w' = w\<lparr>lt_counter := lt_counter w - n\<rparr>
     \<and> sint (lt_counter w') = sint (lt_counter w) - sint n \<and> 0 \<le> sint (lt_counter w')
     \<and> (lst \<longleftrightarrow> sint (lt_counter w') = 0)"
  using sint_sub_within[of n "lt_counter w"]
  by (auto simp: latch_fetch_sub_def Let_def signed_word_eqI split: if_splits)

lemma lf_holds_counter [simp]: "lf_holds (w\<lparr>lt_counter := c\<rparr>) ps cl = lf_holds w ps cl"
  by (simp add: lf_holds_def lf_closed_def)

lemma latch_wait_spec:
  assumes "lf_holds w ps cl" "nodes w p = Some n" "p \<notin> set ps" "p \<noteq> closed_marker"
  shows "\<exists>w'. latch_wait_await_suspend fs p hnd w = Some (\<not> cl, w')
           \<and> lf_holds w' (if cl then ps else p # ps) cl \<and> lt_counter w' = lt_counter w
           \<and> (\<forall>a. a \<noteq> p \<longrightarrow> nodes w' a = nodes w a)"
proof -
  let ?n = "n\<lparr>nd_task := Some hnd\<rparr>"
  let ?w = "w\<lparr>nodes := (nodes w)(p \<mapsto> ?n)\<rparr>"
  have h: "lf_holds ?w ps cl" by (rule lf_holds_cong[OF assms(1)]) (use assms(3) in auto)
  then have e: "latch_wait_await_suspend fs p hnd w =
    Some (if cl then (False, linked p ?w ?n) else (True, (linked p ?w ?n)\<lparr>lf_top := Some p\<rparr>))"
    using assms(2) lf_holds_closed[OF h] by (simp add: latch_wait_await_suspend_def lf_try_push_eq)
  show ?thesis
  proof (cases cl)
    case True
    with e lf_holds_linked[OF h assms(3), of ?n] show ?thesis
      by (auto simp: linked_def)
  next
    case False
    with e h lf_holds_push[of ?w ps p ?n] assms(3,4) show ?thesis
      by (auto simp: linked_def)
  qed
qed

lemma latch_arrive_push_spec:
  assumes "lf_holds w ps False" "nodes w p = Some n" "p \<notin> set ps" "p \<noteq> closed_marker"
  shows "\<exists>w'. latch_arrive_push fs p hnd w = Some w' \<and> lf_holds w' (p # ps) False
           \<and> lt_counter w' = lt_counter w \<and> (\<forall>a. a \<noteq> p \<longrightarrow> nodes w' a = nodes w a)"
proof -
  let ?n = "n\<lparr>nd_task := Some hnd\<rparr>"
  let ?w = "w\<lparr>nodes := (nodes w)(p \<mapsto> ?n)\<rparr>"
  have h: "lf_holds ?w ps False" by (rule lf_holds_cong[OF assms(1)]) (use assms(3) in auto)
  have "latch_arrive_push fs p hnd w = Some ((linked p ?w ?n)\<lparr>lf_top := Some p\<rparr>)"
    using assms(2) by (simp add: latch_arrive_push_def lf_push_eq)
  with lf_holds_push[OF h assms(3,4), of ?n] show ?thesis by (auto simp: linked_def)
qed

section \<open>Concurrent runs\<close>

text \<open>
  Any number of coroutines and threads count down, wait, and arrive and wait. \<open>latch_reach w r k ss
  pend rs\<close>: \<open>w\<close> is reachable; \<open>r\<close> is the part of the counter that belongs to calls of
  \<open>arrive_and_wait\<close> that have pushed their node but not yet counted down; \<open>k\<close> threads have brought
  the counter to zero and are about to close the stack; \<open>ss\<close> are the nodes suspended so far, \<open>pend\<close>
  the ones popped but not yet attached to the executor, and \<open>rs\<close> the attached ones.
  The precondition \<open>n <= internal counter\<close> of concurrent calls is taken together: no call uses
  the part of the counter that another call still owns.
\<close>

inductive latch_reach ::
  "latch_world \<Rightarrow> int \<Rightarrow> nat \<Rightarrow> addr list \<Rightarrow> addr list \<Rightarrow> addr list \<Rightarrow> bool" where
  init: "latch_ctor cnt Map.empty = Some w \<Longrightarrow> latch_reach w 0 0 [] [] []"
| count_down: "latch_reach w r k ss pend rs \<Longrightarrow> sint n \<le> sint (lt_counter w) - r \<Longrightarrow>
    latch_fetch_sub n w = Some (lst, w') \<Longrightarrow>
    latch_reach w' r (if lst then Suc k else k) ss pend rs"
| wakeup: "latch_reach w r (Suc k) ss pend rs \<Longrightarrow> lf_close w = (t, w') \<Longrightarrow>
    node_list (nodes w') t as \<Longrightarrow> latch_reach w' r k ss (pend @ as) rs"
| attach: "latch_reach w r k ss (p # pend) rs \<Longrightarrow>
    latch_reach (destroy_nodes [p] w) r k ss pend (rs @ [p])"
| wait_ready: "latch_reach w r k ss pend rs \<Longrightarrow> latch_wait_await_ready w \<Longrightarrow>
    latch_reach w r k ss pend rs"
| wait: "latch_reach w r k ss pend rs \<Longrightarrow> nodes w p = None \<Longrightarrow> p \<noteq> closed_marker \<Longrightarrow>
    latch_wait_await_suspend fs p hnd (construct_node p w) = Some (susp, w') \<Longrightarrow>
    latch_reach (if susp then w' else destroy_nodes [p] w') r k (if susp then ss @ [p] else ss) pend rs"
| arrive: "latch_reach w r k ss pend rs \<Longrightarrow> nodes w p = None \<Longrightarrow> p \<noteq> closed_marker \<Longrightarrow>
    0 < sint (n :: 64 word) \<Longrightarrow> sint n \<le> sint (lt_counter w) - r \<Longrightarrow>
    latch_arrive_push fs p hnd (construct_node p w) = Some w' \<Longrightarrow>
    latch_reach w' (r + sint n) k (ss @ [p]) pend rs"
| arrive_count_down: "latch_reach w r k ss pend rs \<Longrightarrow> 0 < sint n \<Longrightarrow> sint n \<le> r \<Longrightarrow>
    latch_fetch_sub n w = Some (lst, w') \<Longrightarrow>
    latch_reach w' (r - sint n) (if lst then Suc k else k) ss pend rs"

definition latch_inv ::
  "latch_world \<Rightarrow> int \<Rightarrow> nat \<Rightarrow> addr list \<Rightarrow> addr list \<Rightarrow> addr list \<Rightarrow> addr list \<Rightarrow> bool \<Rightarrow> bool" where
  "latch_inv w r k ss pend rs ps cl \<longleftrightarrow> lf_holds w ps cl
     \<and> 0 \<le> r \<and> r \<le> sint (lt_counter w)
     \<and> (cl \<longrightarrow> sint (lt_counter w) = 0) \<and> (0 < k \<longrightarrow> sint (lt_counter w) = 0)
     \<and> (sint (lt_counter w) = 0 \<longrightarrow> cl \<or> 0 < k)
     \<and> (pend @ rs \<noteq> [] \<longrightarrow> cl)
     \<and> mset ss = mset rs + mset pend + mset ps
     \<and> distinct (pend @ ps) \<and> (\<forall>a\<in>set pend. nodes w a \<noteq> None)"

lemma construct_counter [simp]: "lt_counter (construct_node p w) = lt_counter w"
  by (simp add: construct_node_def)

lemma lf_holds_empty_closed: "lf_holds w ps True \<Longrightarrow> ps = []"
  by (simp add: lf_holds_def)

lemma latch_inv_fetch_sub:
  assumes "latch_inv w r k ss pend rs ps cl" "latch_fetch_sub n w = Some (lst, w')"
    "0 \<le> r'" "r' \<le> sint (lt_counter w')"
  shows "latch_inv w' r' (if lst then Suc k else k) ss pend rs ps cl"
  using assms(1,3,4) latch_fetch_sub_Some[OF assms(2)] by (auto simp: latch_inv_def)

lemma latch_inv_wakeup:
  assumes inv: "latch_inv w r (Suc k) ss pend rs ps cl" and c: "lf_close w = (t, w')"
    and as: "node_list (nodes w') t as"
  shows "latch_inv w' r k ss (pend @ as) rs [] True"
proof -
  have h: "lf_holds w ps cl" using inv by (simp add: latch_inv_def)
  from lf.close_contents[OF h c] lseg_unique[OF as]
  have "as = ps" "lf_holds w' [] True" "nodes w' = nodes w" by auto
  moreover have "nodes w a \<noteq> None" if "a \<in> set ps" for a using lf.contents_live[OF h that] .
  moreover have "lt_counter w' = lt_counter w" using c by (auto simp: lf_close_def Let_def)
  ultimately show ?thesis using inv by (auto simp: latch_inv_def)
qed

lemma latch_inv_attach:
  assumes "latch_inv w r k ss (p # pend) rs ps cl"
  shows "latch_inv (destroy_nodes [p] w) r k ss pend (rs @ [p]) ps cl"
proof -
  have h: "lf_holds w ps cl" and p: "p \<notin> set ps" using assms by (auto simp: latch_inv_def)
  have "lf_holds (destroy_nodes [p] w) ps cl"
    by (rule lf_holds_cong[OF h]) (use p in \<open>auto simp: destroy_nodes_def\<close>)
  with assms show ?thesis by (auto simp: latch_inv_def destroy_nodes_def)
qed


lemma latch_inv_suspended:
  assumes inv: "latch_inv w r k ss pend rs ps False" and p: "nodes w p = None"
    and w': "lf_holds w' (p # ps) False" "lt_counter w' = lt_counter w"
      "\<forall>a. a \<noteq> p \<longrightarrow> nodes w' a = nodes w a"
    and r': "0 \<le> r'" "r' \<le> sint (lt_counter w')"
  shows "latch_inv w' r' k (ss @ [p]) pend rs (p # ps) False"
proof -
  have "p \<notin> set ps" "p \<notin> set pend"
    using inv p lf.contents_live[of w ps False p] by (auto simp: latch_inv_def)
  with inv w' r' show ?thesis by (auto simp: latch_inv_def)
qed

lemma latch_inv_not_suspended:
  assumes inv: "latch_inv w r k ss pend rs ps cl" and p: "nodes w p = None"
    and w': "lf_holds w' ps cl" "lt_counter w' = lt_counter w"
      "\<forall>a. a \<noteq> p \<longrightarrow> nodes w' a = nodes w a"
  shows "latch_inv (destroy_nodes [p] w') r k ss pend rs ps cl"
proof -
  have n: "p \<notin> set ps" "p \<notin> set pend"
    using inv p lf.contents_live[of w ps cl p] by (auto simp: latch_inv_def)
  have "lf_holds (destroy_nodes [p] w') ps cl"
    by (rule lf_holds_cong[OF w'(1)]) (use n in \<open>auto simp: destroy_nodes_def\<close>)
  with inv w' n show ?thesis by (auto simp: latch_inv_def destroy_nodes_def)
qed

lemma latch_construct:
  assumes "latch_inv w r k ss pend rs ps cl" "nodes w p = None"
  shows "lf_holds (construct_node p w) ps cl" "nodes (construct_node p w) p = Some task_node_init"
    "p \<notin> set ps"
proof -
  show p: "p \<notin> set ps" using assms lf.contents_live[of w ps cl p] by (auto simp: latch_inv_def)
  have "lf_holds w ps cl" using assms(1) by (simp add: latch_inv_def)
  then show "lf_holds (construct_node p w) ps cl"
    by (rule lf_holds_cong) (use p in \<open>auto simp: construct_node_def\<close>)
qed simp

lemma latch_reach_inv: "latch_reach w r k ss pend rs \<Longrightarrow> \<exists>ps cl. latch_inv w r k ss pend rs ps cl"
proof (induction rule: latch_reach.induct)
  case (init cnt w)
  then show ?case
    by (intro exI[of _ "[]"] exI[of _ "cnt = 0"])
      (auto simp: latch_inv_def latch_ctor_def lf_holds_def lf_closed_def lf_ctor_def
        signed_word_eqI split: if_splits)
next
  case (count_down w r k ss pend rs n lst w')
  then obtain ps cl where inv: "latch_inv w r k ss pend rs ps cl" by blast
  have "0 \<le> r" using inv by (simp add: latch_inv_def)
  moreover have "r \<le> sint (lt_counter w')"
    using count_down.hyps(2) latch_fetch_sub_Some[OF count_down.hyps(3)] by linarith
  ultimately show ?case using latch_inv_fetch_sub[OF inv count_down.hyps(3)] by blast
next
  case (wakeup w r k ss pend rs t w' as)
  then show ?case using latch_inv_wakeup by blast
next
  case (attach w r k ss p pend rs)
  then show ?case using latch_inv_attach by blast
next
  case (wait w r k ss pend rs p fs hnd susp w')
  then obtain ps cl where inv: "latch_inv w r k ss pend rs ps cl" by blast
  note h = latch_construct[OF inv wait.hyps(2)]
  from latch_wait_spec[OF h, where hnd = hnd and fs = fs] wait.hyps(3,4)
  have s: "susp = (\<not> cl)" "lf_holds w' (if cl then ps else p # ps) cl" "lt_counter w' = lt_counter w"
    "\<forall>a. a \<noteq> p \<longrightarrow> nodes w' a = nodes w a" by auto
  show ?case
  proof (cases cl)
    case True
    with latch_inv_not_suspended[OF inv wait.hyps(2), of w'] s show ?thesis by auto
  next
    case False
    with inv have inv': "latch_inv w r k ss pend rs ps False" by simp
    have "0 \<le> r" "r \<le> sint (lt_counter w')" using inv s(3) by (auto simp: latch_inv_def)
    with latch_inv_suspended[OF inv' wait.hyps(2), of w' r] s False show ?thesis by auto
  qed
next
  case (arrive w r k ss pend rs p n fs hnd w')
  then obtain ps cl where inv: "latch_inv w r k ss pend rs ps cl" by blast
  have "\<not> cl" using inv arrive.hyps(4,5) by (auto simp: latch_inv_def)
  with inv have inv: "latch_inv w r k ss pend rs ps False" by simp
  note h = latch_construct[OF inv arrive.hyps(2)]
  from latch_arrive_push_spec[OF h, where hnd = hnd and fs = fs] arrive.hyps(3,6)
  have s: "lf_holds w' (p # ps) False" "lt_counter w' = lt_counter w"
    "\<forall>a. a \<noteq> p \<longrightarrow> nodes w' a = nodes w a" by auto
  have "0 \<le> r + sint n" using inv arrive.hyps(4) by (simp add: latch_inv_def)
  with latch_inv_suspended[OF inv arrive.hyps(2) s, of "r + sint n"] arrive.hyps(5) s(2) show ?case
    by auto
next
  case (arrive_count_down w r k ss pend rs n lst w')
  then obtain ps cl where inv: "latch_inv w r k ss pend rs ps cl" by blast
  have "r - sint n \<le> sint (lt_counter w')"
    using inv latch_fetch_sub_Some[OF arrive_count_down.hyps(4)] unfolding latch_inv_def by linarith
  with arrive_count_down.hyps(3) show ?case
    using latch_inv_fetch_sub[OF inv arrive_count_down.hyps(4), of "r - sint n"]
    by (intro exI[of _ ps] exI[of _ cl]) simp
qed blast


section \<open>Properties\<close>

text \<open>
  C20. In every reachable state of a latch, as long as the counter is positive no waiter has been
  popped or handed to the executor; once the counter is zero and every thread that brought it to
  zero has closed the stack, no waiter is left in the stack: the suspended coroutines are, counted
  with multiplicity, exactly the ones handed to the executor and the ones about to be. The counter
  never becomes negative.
\<close>

theorem latch_no_early_no_lost_wakeup:
  assumes "latch_reach w r k ss pend rs"
  shows "0 \<le> sint (lt_counter w) \<and> (0 < sint (lt_counter w) \<longrightarrow> pend = [] \<and> rs = [])
     \<and> (sint (lt_counter w) = 0 \<and> k = 0 \<longrightarrow> latch_ready w \<and> mset ss = mset rs + mset pend)"
proof -
  from latch_reach_inv[OF assms] obtain ps cl where inv: "latch_inv w r k ss pend rs ps cl" by blast
  then have h: "lf_holds w ps cl" by (simp add: latch_inv_def)
  show ?thesis
    using inv lf_holds_closed[OF h] lf_holds_empty_closed[of w ps] by (auto simp: latch_inv_def latch_ready_def)
qed

text \<open>A latch of count one on which a single coroutine arrives and waits.\<close>

definition latch_one :: latch_world where
  "latch_one = \<lparr>nodes = Map.empty, lf_top = None, lt_counter = 1\<rparr>"

lemma latch_one_reach: "latch_reach latch_one 0 0 [] [] []"
  by (rule latch_reach.init[of 1]) (simp add: latch_ctor_def latch_one_def lf_ctor_def)

lemma latch_run_example: "\<exists>w. latch_reach w 0 0 [1] [] [1] \<and> sint (lt_counter w) = 0"
proof -
  let ?n = "\<lparr>nd_next = None, nd_task = Some 7, nd_status = ok\<rparr>"
  let ?w1 = "\<lparr>nodes = [1 \<mapsto> ?n], lf_top = Some 1, lt_counter = 1\<rparr> :: latch_world"
  let ?w2 = "\<lparr>nodes = [1 \<mapsto> ?n], lf_top = Some 1, lt_counter = 0\<rparr> :: latch_world"
  let ?w3 = "\<lparr>nodes = [1 \<mapsto> ?n], lf_top = Some closed_marker, lt_counter = 0\<rparr> :: latch_world"
  have "latch_arrive_push [] 1 7 (construct_node 1 latch_one) = Some ?w1"
    by (simp add: latch_arrive_push_def construct_node_def latch_one_def lf_push_eq linked_def
        task_node_init_def)
  then have "latch_reach ?w1 (0 + sint (1 :: 64 word)) 0 ([] @ [1]) [] []"
    by (intro latch_reach.arrive[OF latch_one_reach, where hnd = 7 and fs = "[]" and p = 1])
      (simp_all add: closed_marker_def latch_one_def)
  then have 1: "latch_reach ?w1 1 0 [1] [] []" by simp
  have "latch_reach ?w2 (1 - sint (1 :: 64 word)) (if True then Suc 0 else 0) [1] [] []"
    by (rule latch_reach.arrive_count_down[OF 1, where n = 1]) (simp_all add: latch_fetch_sub_def)
  then have 2: "latch_reach ?w2 0 (Suc 0) [1] [] []" by simp
  have "latch_reach ?w3 0 0 [1] ([] @ [1]) []"
    by (rule latch_reach.wakeup[OF 2, where t = "Some 1"])
      (simp_all add: lf_close_def Let_def closed_marker_def)
  then have 3: "latch_reach ?w3 0 0 [1] [1] []" by simp
  have "latch_reach (destroy_nodes [1] ?w3) 0 0 [1] [] ([] @ [1])"
    by (rule latch_reach.attach[OF 3])
  then show ?thesis
    by (intro exI[of _ "destroy_nodes [1] ?w3"]) (simp add: destroy_nodes_def)
qed

theorem latch_no_early_no_lost_wakeup_witness:
  "\<exists>w. latch_reach w 0 0 [1] [] [1] \<and> sint (lt_counter w) = 0 \<and> latch_ready w"
  using latch_run_example latch_no_early_no_lost_wakeup by blast

text \<open>
  The precondition of \<open>push\<close> in \<open>arrive_and_wait\<close> is met in every reachable state: a call that
  still owns a part of the counter finds the stack open, so its push never runs into the closed
  marker, whatever other threads do; the node is then on top and the call returns.
\<close>

theorem latch_arrive_push_open:
  assumes "latch_reach w r k ss pend rs" "nodes w p = None" "p \<noteq> closed_marker"
    "0 < sint (n :: 64 word)" "sint n \<le> sint (lt_counter w) - r"
  shows "\<not> latch_ready w \<and> (\<exists>w' ps. latch_arrive_push fs p hnd (construct_node p w) = Some w'
           \<and> lf_holds w' (p # ps) False)"
proof -
  from latch_reach_inv[OF assms(1)] obtain ps cl where inv: "latch_inv w r k ss pend rs ps cl" by blast
  have "\<not> cl" using inv assms(4,5) by (auto simp: latch_inv_def)
  with inv have inv: "latch_inv w r k ss pend rs ps False" by simp
  then have "lf_holds w ps False" by (simp add: latch_inv_def)
  then have "\<not> latch_ready w" using lf_holds_closed by (auto simp: latch_ready_def)
  with latch_arrive_push_spec[OF latch_construct[OF inv assms(2)] assms(3), where hnd = hnd and fs = fs] show ?thesis
    by blast
qed

theorem latch_arrive_push_open_witness:
  "\<not> latch_ready latch_one
   \<and> (\<exists>w' ps. latch_arrive_push [False] 1 7 (construct_node 1 latch_one) = Some w'
         \<and> lf_holds w' (1 # ps) False)"
  by (rule latch_arrive_push_open[where n = 1, OF latch_one_reach])
    (simp_all add: latch_one_def closed_marker_def)

text \<open>
  \<open>count_down\<close> on every branch: it is the failed assertion exactly when the precondition
  \<open>0 <= n <= counter\<close> is violated; it only subtracts when the counter stays positive; and when it
  brings the counter to zero it closes the stack and hands every waiter, the latest first, to the
  executor.
\<close>

theorem latch_count_down_behaviour:
  assumes "\<And>a as w w'. acc (a # as) w \<Longrightarrow> attach a w = Some w' \<Longrightarrow>
             acc as w' \<and> (\<forall>q\<in>set as. nodes w' q = nodes w q)"
    and "lf_holds w ps cl"
    and "acc ps (snd (lf_close (w\<lparr>lt_counter := lt_counter w - n\<rparr>)))"
  shows "latch_count_down attach n w =
     (if sint n < 0 \<or> sint (lt_counter w) < sint n then None
      else if sint n < sint (lt_counter w) then Some (w\<lparr>lt_counter := lt_counter w - n\<rparr>)
      else foldM_opt attach ps (snd (lf_close (w\<lparr>lt_counter := lt_counter w - n\<rparr>))))"
proof (cases "0 \<le> sint n \<and> sint n = sint (lt_counter w)")
  case True
  let ?w = "w\<lparr>lt_counter := lt_counter w - n\<rparr>"
  obtain t w2 where c: "lf_close ?w = (t, w2)" by (cases "lf_close ?w")
  have "executor attach acc" using assms(1) by unfold_locales
  moreover have "node_list (nodes w2) t ps"
    using lf.close_contents[of ?w ps cl t w2] assms(2) c by simp
  ultimately have "attach_list attach t w2 = foldM_opt attach ps w2"
    using assms(3) c by (simp add: executor.attach_list_fold)
  moreover have "lt_counter w = n" using True by (simp add: sint_eqD)
  ultimately show ?thesis
    using True c by (simp add: latch_count_down_def latch_fetch_sub_def latch_wakeup_all_def)
next
  case False
  then show ?thesis by (auto simp: latch_count_down_def latch_fetch_sub_def Let_def)
qed

text \<open>Two waiters, and the call of \<open>count_down\<close> that completes the latch.\<close>

definition latch_two_waiters :: latch_world where
  "latch_two_waiters = \<lparr>nodes = nodes two_nodes, lf_top = Some 1, lt_counter = 3\<rparr>"

theorem latch_count_down_behaviour_witness:
  "latch_count_down (this_thread_attach free_self) 3 latch_two_waiters =
     (if sint (3 :: 64 word) < 0 \<or> sint (lt_counter latch_two_waiters) < sint (3 :: 64 word) then None
      else if sint (3 :: 64 word) < sint (lt_counter latch_two_waiters)
      then Some (latch_two_waiters\<lparr>lt_counter := lt_counter latch_two_waiters - 3\<rparr>)
      else foldM_opt (this_thread_attach free_self) [1, 2]
        (snd (lf_close (latch_two_waiters\<lparr>lt_counter := lt_counter latch_two_waiters - 3\<rparr>))))
   \<and> latch_count_down (this_thread_attach free_self) 3 latch_two_waiters \<noteq> None"
proof -
  have *: "latch_count_down (this_thread_attach free_self) 3 latch_two_waiters =
     (if sint (3 :: 64 word) < 0 \<or> sint (lt_counter latch_two_waiters) < sint (3 :: 64 word) then None
      else if sint (3 :: 64 word) < sint (lt_counter latch_two_waiters)
      then Some (latch_two_waiters\<lparr>lt_counter := lt_counter latch_two_waiters - 3\<rparr>)
      else foldM_opt (this_thread_attach free_self) [1, 2]
        (snd (lf_close (latch_two_waiters\<lparr>lt_counter := lt_counter latch_two_waiters - 3\<rparr>))))"
    by (rule latch_count_down_behaviour[where acc = own_handles and cl = False, OF free_self_spares])
      (auto simp: own_handles_def latch_two_waiters_def two_nodes_def lf_holds_def lf_closed_def
        next_of_def Let_def lf_close_def closed_marker_def)
  have "latch_count_down (this_thread_attach free_self) 3 latch_two_waiters \<noteq> None"
    unfolding * by (simp add: latch_two_waiters_def this_thread_attach_def free_self_def
        destroy_nodes_def two_nodes_def lf_close_def Let_def)
  with * show ?thesis by blast
qed

end
