(* ===== verification/Task_Queue.thy ===== *)
theory Task_Queue
  imports Awaiters_Queue
begin

text \<open>
  \<open>task_queue\<close> of \<open>thread_pool.hpp\<close>: an intrusive FIFO under a mutex, with the condition
  variable \<open>not_empty\<close> on which \<open>pop_all_not_empty\<close> blocks, and \<open>cancel_tasks\<close>. Every operation
  is one critical section, so it is one function of the queue and the store. The condition
  variable is the list of threads that sleep on it and the list of threads that it has woken and
  that have not got the mutex back yet; which sleeper \<open>notify_one\<close> wakes is a choice \<open>k\<close>.
\<close>

section \<open>The queue\<close>

record task_queue =
  tq_first :: "addr option"
  tq_last :: "addr option"
  tq_waiting :: "nat list"
  tq_woken :: "nat list"

definition task_queue_init :: task_queue where
  "task_queue_init = \<lparr>tq_first = None, tq_last = None, tq_waiting = [], tq_woken = []\<rparr>"

definition cv_wake :: "nat \<Rightarrow> task_queue \<Rightarrow> task_queue" where
  "cv_wake t q = q\<lparr>tq_waiting := remove1 t (tq_waiting q), tq_woken := t # tq_woken q\<rparr>"

definition notify_one :: "nat \<Rightarrow> task_queue \<Rightarrow> task_queue" where
  "notify_one k q = (if tq_waiting q = [] then q
     else cv_wake (tq_waiting q ! (k mod length (tq_waiting q))) q)"

definition tq_push_list ::
  "nat \<Rightarrow> task_queue \<Rightarrow> addr \<Rightarrow> addr \<Rightarrow> node_heap \<Rightarrow> (task_queue \<times> node_heap) option" where
  "tq_push_list k q f l h = (case tq_first q of
      Some _ \<Rightarrow> do {
        old \<leftarrow> tq_last q;
        h' \<leftarrow> set_next old (Some f) h;
        Some (q\<lparr>tq_last := Some l\<rparr>, h') }
    | None \<Rightarrow> Some (notify_one k (q\<lparr>tq_first := Some f, tq_last := Some l\<rparr>), h))"

definition tq_push :: "nat \<Rightarrow> task_queue \<Rightarrow> addr \<Rightarrow> node_heap \<Rightarrow> (task_queue \<times> node_heap) option" where
  "tq_push k q node h = do {
     h' \<leftarrow> set_next node None h;
     tq_push_list k q node node h' }"

definition tq_push_chain ::
  "nat \<Rightarrow> task_queue \<Rightarrow> addr option \<Rightarrow> node_heap \<Rightarrow> (task_queue \<times> node_heap) option" where
  "tq_push_chain k q p h = (case p of
      None \<Rightarrow> Some (q, h)
    | Some f \<Rightarrow> do { l \<leftarrow> find_last f h; tq_push_list k q f l h })"

definition tq_pop_all :: "task_queue \<Rightarrow> addr option \<times> task_queue" where
  "tq_pop_all q = (tq_first q, q\<lparr>tq_first := None\<rparr>)"

definition tq_attach ::
  "nat \<Rightarrow> task_queue \<Rightarrow> addr \<Rightarrow> node_heap \<Rightarrow> (task_queue \<times> node_heap) option" where
  "tq_attach k q node h = (if task_of h node = None then None else tq_push k q node h)"

text \<open>
  What thread \<open>t\<close> does in \<open>pop_all_not_empty\<close> each time it holds the mutex, on entry and after
  every wakeup: go (back) to sleep while the queue is empty, otherwise take everything.
\<close>

definition tq_pop_attempt :: "nat \<Rightarrow> task_queue \<Rightarrow> addr option \<times> task_queue" where
  "tq_pop_attempt t q = (let q1 = q\<lparr>tq_woken := remove1 t (tq_woken q)\<rparr> in
     case tq_first q1 of
       None \<Rightarrow> (None, q1\<lparr>tq_waiting := t # tq_waiting q1\<rparr>)
     | Some _ \<Rightarrow> tq_pop_all q1)"

section \<open>The contract of an intrusive queue\<close>

definition tq_holds :: "task_queue \<Rightarrow> node_heap \<Rightarrow> addr list \<Rightarrow> bool" where
  "tq_holds q h ps \<longleftrightarrow> node_list h (tq_first q) ps \<and> (ps \<noteq> [] \<longrightarrow> tq_last q = Some (last ps))"

lemma tq_holds_init [simp]: "tq_holds task_queue_init h []"
  by (simp add: tq_holds_def task_queue_init_def)

lemma notify_one_simps [simp]:
  "tq_first (notify_one k q) = tq_first q" "tq_last (notify_one k q) = tq_last q"
  by (simp_all add: notify_one_def cv_wake_def)

lemma tq_holds_first_last:
  "tq_first q' = tq_first q \<Longrightarrow> tq_last q' = tq_last q \<Longrightarrow> tq_holds q' h ps = tq_holds q h ps"
  by (simp add: tq_holds_def)

text \<open>Apart from the condition variable the queue works as the queue of awaiters does.\<close>

definition tq_pointers :: "task_queue \<Rightarrow> awaiters_queue" where
  "tq_pointers q = \<lparr>aq_first = tq_first q, aq_last = tq_last q\<rparr>"

lemma tq_holds_pointers: "tq_holds q h ps \<longleftrightarrow> aq_holds (tq_pointers q) h ps"
  by (simp add: tq_holds_def aq_holds_def tq_pointers_def)

lemma tq_push_list_pointers:
  "map_option (\<lambda>(q, h). (tq_pointers q, h)) (tq_push_list k q f l h) = aq_push_list (tq_pointers q) f l h"
  by (cases "tq_first q"; cases "tq_last q"; cases "\<exists>n. h (the (tq_last q)) = Some n")
    (auto simp: tq_push_list_def aq_push_list_def tq_pointers_def set_next_def)

interpretation task_queue: intrusive_queue "tq_push_list k" "tq_push k" tq_pop_all tq_holds for k
proof unfold_locales
  fix q h ps f ls l
  assume "tq_holds q h ps" "node_list h (Some f) ls" "ls \<noteq> []" "last ls = l" "set ps \<inter> set ls = {}"
  with awaiters_queue.push_list_holds[of "tq_pointers q" h ps f ls l] obtain q' h' where
    *: "aq_push_list (tq_pointers q) f l h = Some (q', h')" "aq_holds q' h' (ps @ ls)"
    "\<forall>a. a \<notin> set ps \<longrightarrow> h' a = h a" "same_payload h h'" by (auto simp: tq_holds_pointers)
  then obtain q'' where "tq_push_list k q f l h = Some (q'', h')" "tq_pointers q'' = q'"
    using tq_push_list_pointers[of k q f l h] by auto
  with * show "\<exists>q' h'. tq_push_list k q f l h = Some (q', h') \<and> tq_holds q' h' (ps @ ls)
      \<and> (\<forall>a. a \<notin> set ps \<longrightarrow> h' a = h a) \<and> same_payload h h'"
    by (auto simp: tq_holds_pointers)
next
  fix q h ps
  assume a: "tq_holds q h ps"
  then show "\<exists>q'. tq_pop_all q = ((case ps of [] \<Rightarrow> None | a # _ \<Rightarrow> Some a), q') \<and> tq_holds q' h []"
    using lseg_hd[of "next_of h" "tq_first q" ps] by (auto simp: tq_pop_all_def tq_holds_def)
  show "\<exists>p. node_list h p ps" using a by (auto simp: tq_holds_def)
  fix h'
  assume "\<And>a. a \<in> set ps \<Longrightarrow> h' a = h a"
  with a show "tq_holds q h' ps"
    using awaiters_queue.holds_cong[of "tq_pointers q" h ps h'] by (simp add: tq_holds_pointers)
qed (simp add: tq_push_def)

section \<open>No wakeup is lost\<close>

text \<open>
  The invariant of the condition variable: no thread sleeps and is woken at once, and whenever
  there is something in the queue while threads sleep, one has been woken and is on its way.
\<close>

definition tq_awake :: "task_queue \<Rightarrow> bool" where
  "tq_awake q \<longleftrightarrow> distinct (tq_waiting q @ tq_woken q)
     \<and> (tq_first q \<noteq> None \<and> tq_waiting q \<noteq> [] \<longrightarrow> tq_woken q \<noteq> [])"

lemma tq_awake_init [simp]: "tq_awake task_queue_init"
  by (simp add: tq_awake_def task_queue_init_def)

lemma cv_wake_awake: "tq_awake q \<Longrightarrow> t \<in> set (tq_waiting q) \<Longrightarrow> tq_awake (cv_wake t q)"
  by (auto simp: tq_awake_def cv_wake_def)

lemma cv_wake_woken: "t \<in> set (tq_waiting q) \<Longrightarrow> t \<in> set (tq_woken (cv_wake t q))"
  by (simp add: cv_wake_def)

lemma notify_one_woken: "tq_waiting q \<noteq> [] \<Longrightarrow> tq_woken (notify_one k q) \<noteq> []"
  by (simp add: notify_one_def cv_wake_def)

lemma notify_one_threads:
  "set (tq_waiting (notify_one k q)) \<union> set (tq_woken (notify_one k q)) = set (tq_waiting q) \<union> set (tq_woken q)"
proof (cases "tq_waiting q = []")
  case False
  then have "tq_waiting q ! (k mod length (tq_waiting q)) \<in> set (tq_waiting q)" by simp
  then show ?thesis
    by (auto simp: notify_one_def cv_wake_def dest: set_remove1_subset[THEN subsetD])
qed (simp add: notify_one_def)

lemma notify_one_distinct:
  "distinct (tq_waiting q @ tq_woken q) \<Longrightarrow> distinct (tq_waiting (notify_one k q) @ tq_woken (notify_one k q))"
proof (cases "tq_waiting q = []")
  case False
  then have "tq_waiting q ! (k mod length (tq_waiting q)) \<in> set (tq_waiting q)" by simp
  moreover assume "distinct (tq_waiting q @ tq_woken q)"
  ultimately show ?thesis by (auto simp: notify_one_def cv_wake_def)
qed (simp add: notify_one_def)

lemma tq_push_list_awake:
  assumes "tq_awake q" "tq_push_list k q f l h = Some (q', h')"
  shows "tq_awake q'"
proof (cases "tq_first q")
  case None
  let ?q = "q\<lparr>tq_first := Some f, tq_last := Some l\<rparr>"
  have q': "q' = notify_one k ?q" using assms(2) None by (simp add: tq_push_list_def)
  have "distinct (tq_waiting q' @ tq_woken q')"
    unfolding q' by (rule notify_one_distinct) (use assms(1) in \<open>simp add: tq_awake_def\<close>)
  moreover have "tq_waiting q' \<noteq> [] \<longrightarrow> tq_woken q' \<noteq> []"
    using notify_one_woken[of ?q k] by (auto simp: q' notify_one_def)
  ultimately show ?thesis by (simp add: tq_awake_def)
next
  case (Some a)
  with assms show ?thesis by (auto simp: tq_push_list_def tq_awake_def split: bind_splits)
qed

lemma tq_push_list_threads:
  assumes "tq_push_list k q f l h = Some (q', h')"
  shows "set (tq_waiting q' @ tq_woken q') = set (tq_waiting q @ tq_woken q)"
proof (cases "tq_first q")
  case None
  then have "q' = notify_one k (q\<lparr>tq_first := Some f, tq_last := Some l\<rparr>)"
    using assms by (simp add: tq_push_list_def)
  then show ?thesis using notify_one_threads[of k "q\<lparr>tq_first := Some f, tq_last := Some l\<rparr>"] by simp
next
  case (Some a)
  then have "tq_waiting q' = tq_waiting q \<and> tq_woken q' = tq_woken q"
    using assms by (auto simp: tq_push_list_def split: bind_splits)
  then show ?thesis by simp
qed

lemma tq_push_awake: "tq_awake q \<Longrightarrow> tq_push k q p h = Some (q', h') \<Longrightarrow> tq_awake q'"
  by (auto simp: tq_push_def split: bind_splits intro: tq_push_list_awake)

lemma tq_pop_all_awake: "tq_awake q \<Longrightarrow> tq_pop_all q = (t, q') \<Longrightarrow> tq_awake q'"
  by (auto simp: tq_pop_all_def tq_awake_def)

lemma tq_pop_attempt_awake:
  assumes "tq_awake q" "t \<notin> set (tq_waiting q)" "tq_pop_attempt t q = (p, q')"
  shows "tq_awake q'"
  using assms by (auto simp: tq_pop_attempt_def tq_awake_def tq_pop_all_def Let_def
      split: option.splits dest: notin_set_remove1)

lemma tq_pop_attempt_holds:
  assumes "tq_holds q h ps" "tq_pop_attempt t q = (p, q')"
  shows "node_list h p ps \<and> tq_holds q' h []"
  using assms lseg_hd[of "next_of h" "tq_first q" ps]
  by (auto simp: tq_pop_attempt_def tq_holds_def tq_pop_all_def Let_def split: option.splits list.splits)

end
