(* ===== verification/Operation_Hash.thy ===== *)
theory Operation_Hash
  imports Prelude "HOL-Library.Word"
begin

text \<open>
  \<open>operation_hash.hpp\<close> on a target with 64-bit pointers in little-endian byte order: the FNV-1a
  hash of the bytes of an address, from which the thread pool chooses a queue. All arithmetic is
  that of \<open>size_t\<close>, so the multiplication wraps around.
\<close>

unbundle bit_operations_syntax

section \<open>The hash\<close>

type_synonym operation_hash_t = "64 word"

definition fnv_offset_basis :: operation_hash_t where
  "fnv_offset_basis = 14695981039346656037"

definition fnv_prime :: operation_hash_t where
  "fnv_prime = 1099511628211"

text \<open>\<open>bytes[i]\<close> of the object representation of the pointer.\<close>

definition ptr_byte :: "64 word \<Rightarrow> nat \<Rightarrow> operation_hash_t" where
  "ptr_byte ptr i = take_bit 8 (drop_bit (8 * i) ptr)"

definition hash_step :: "operation_hash_t \<Rightarrow> operation_hash_t \<Rightarrow> operation_hash_t" where
  "hash_step b val = (val XOR b) * fnv_prime"

definition do_hash :: "64 word \<Rightarrow> operation_hash_t" where
  "do_hash ptr = fold (\<lambda>i val. hash_step (ptr_byte ptr i) val) [0..<8] fnv_offset_basis"

text \<open>
  The operation hash of a coroutine handle is the hash of its address, unless the type of its promise has a
  specialisation (\<open>Promise_Hashes\<close>); that of any other operation is the hash of the address of the operation
  object.
\<close>

definition handle_address :: "handle \<Rightarrow> 64 word" where
  "handle_address h = of_nat h"

definition operation_hash_handle :: "handle \<Rightarrow> operation_hash_t" where
  "operation_hash_handle h = do_hash (handle_address h)"

definition operation_hash_object :: "addr \<Rightarrow> operation_hash_t" where
  "operation_hash_object op = do_hash (of_nat op)"

text \<open>
  \<open>co_await this_coro::operation_hash\<close> does not suspend and yields the hash of the coroutine; \<open>hash_of\<close> is the
  \<open>calculate_operation_hash\<close> of its type.
\<close>

definition op_hash_await_ready :: bool where
  "op_hash_await_ready = False"

definition op_hash_await_suspend :: "(handle \<Rightarrow> operation_hash_t) \<Rightarrow> handle \<Rightarrow> bool \<times> operation_hash_t" where
  "op_hash_await_suspend hash_of handle = (False, hash_of handle)"

definition op_hash_await_resume :: "operation_hash_t \<Rightarrow> operation_hash_t" where
  "op_hash_await_resume hash = hash"

section \<open>Each step of the hash is a bijection\<close>

lemma fnv_prime_inverse: "fnv_prime * 14886173955864302971 = 1"
  by (simp add: fnv_prime_def)

lemma mult_fnv_prime_cancel: "a * fnv_prime = b * fnv_prime \<longleftrightarrow> a = b"
proof
  assume "a * fnv_prime = b * fnv_prime"
  then have "a * (fnv_prime * 14886173955864302971) = b * (fnv_prime * 14886173955864302971)"
    by (simp only: mult.assoc [symmetric])
  then show "a = b" by (simp only: fnv_prime_inverse mult_1_right)
qed simp

lemma xor_cancel_right: "a XOR c = b XOR c \<longleftrightarrow> a = (b :: 64 word)"
proof
  assume "a XOR c = b XOR c"
  then have "(a XOR c) XOR c = (b XOR c) XOR c" by simp
  then show "a = b" by (simp add: xor.assoc)
qed simp

lemma hash_step_state [simp]: "hash_step b u = hash_step b v \<longleftrightarrow> u = v"
  by (simp add: hash_step_def mult_fnv_prime_cancel xor_cancel_right)

lemma hash_step_byte [simp]: "hash_step b v = hash_step c v \<longleftrightarrow> b = c"
  using xor_cancel_right[of b v c] by (simp add: hash_step_def mult_fnv_prime_cancel xor.commute)

lemma fold_hash_step_state:
  "fold (\<lambda>i. hash_step (f i)) is u = fold (\<lambda>i. hash_step (f i)) is v \<longleftrightarrow> u = v"
  by (induction "is" arbitrary: u v) auto

lemma fold_hash_step_one_byte:
  assumes "distinct is" "i \<in> set is" "f i \<noteq> g i" "\<And>j. j \<in> set is \<Longrightarrow> j \<noteq> i \<Longrightarrow> f j = g j"
  shows "fold (\<lambda>i. hash_step (f i)) is v \<noteq> fold (\<lambda>i. hash_step (g i)) is v"
proof -
  obtain xs ys where s: "is = xs @ i # ys" using assms(2) by (auto simp: in_set_conv_decomp)
  have same: "f j = g j" if "j \<in> set xs \<union> set ys" for j using that assms s by auto
  have x: "fold (\<lambda>i. hash_step (f i)) xs v = fold (\<lambda>i. hash_step (g i)) xs v"
    by (rule fold_cong) (use same in auto)
  have y: "fold (\<lambda>i. hash_step (f i)) ys u = fold (\<lambda>i. hash_step (g i)) ys u" for u
    by (rule fold_cong) (use same in auto)
  show ?thesis
    unfolding s by (simp add: x y fold_hash_step_state assms(3))
qed

lemma ptr_byte_bit: "n < 64 \<Longrightarrow> bit p n \<longleftrightarrow> bit (ptr_byte p (n div 8)) (n mod 8)"
  by (simp add: ptr_byte_def bit_take_bit_iff bit_drop_bit_eq)

lemma ptr_bytes_inject:
  assumes "\<And>i. i < 8 \<Longrightarrow> ptr_byte p i = ptr_byte q i"
  shows "p = q"
proof (rule bit_word_eqI)
  fix n
  assume "n < LENGTH(64)"
  then show "bit p n \<longleftrightarrow> bit q n" using assms[of "n div 8"] by (simp add: ptr_byte_bit[of n])
qed

lemma do_hash_differs:
  assumes "p \<noteq> q" and "i < 8" and "\<And>j. j < 8 \<Longrightarrow> j \<noteq> i \<Longrightarrow> ptr_byte p j = ptr_byte q j"
  shows "do_hash p \<noteq> do_hash q"
proof -
  have "ptr_byte p i \<noteq> ptr_byte q i" using assms ptr_bytes_inject by metis
  then show ?thesis
    unfolding do_hash_def by (rule fold_hash_step_one_byte[rotated 2]) (use assms in auto)
qed

section \<open>Properties\<close>

text \<open>
  C39. Two operations whose addresses agree in all bytes but one never get the same operation hash:
  no step of the hash loses information, although the multiplication wraps around.
\<close>

theorem do_hash_one_byte:
  assumes "p \<noteq> q" and "i < 8" and "\<And>j. j < 8 \<Longrightarrow> j \<noteq> i \<Longrightarrow> ptr_byte p j = ptr_byte q j"
  shows "do_hash p \<noteq> do_hash q"
  by (rule do_hash_differs[OF assms])

theorem do_hash_one_byte_witness: "do_hash 0x1000 \<noteq> do_hash 0x1040"
proof (rule do_hash_one_byte[where i = 0])
  fix j :: nat
  assume "j < 8" "j \<noteq> 0"
  then have "j \<in> {1, 2, 3, 4, 5, 6, 7}" by auto
  then show "ptr_byte 0x1000 j = ptr_byte 0x1040 j" by (auto simp: ptr_byte_def drop_bit_word_beyond)
qed simp_all

end
