(* ===== verification/Thread_Pool.thy ===== *)
theory Thread_Pool
  imports Task_Queue Operation_Hash
begin

text \<open>
  \<open>thread_pool.hpp\<close>: the pool, its workers, and how they stop. A worker thread is a state machine
  with one program counter per place where another thread can interfere; so is the thread that
  executes \<open>~thread_pool\<close> or \<open>wait_stop\<close>. The code of the tasks is user code: in the sequential
  part (\<open>cancel_tasks\<close>, \<open>attach_list\<close>) it is the parameter \<open>resume\<close>; in the runs of
  \<open>Thread_Pool_Runs\<close> a resumed task is free to do anything the environment may do.
\<close>

section \<open>\<open>cancel_tasks\<close>\<close>

text \<open>The status is written and \<open>next\<close> is read before the task runs.\<close>

partial_function (option) cancel_tasks ::
  "(handle \<Rightarrow> 'w world_scheme \<Rightarrow> 'w world_scheme option) \<Rightarrow> addr option
     \<Rightarrow> 'w world_scheme \<Rightarrow> 'w world_scheme option" where
  "cancel_tasks resume tp w = (case tp of
      None \<Rightarrow> Some w
    | Some p \<Rightarrow> do {
        n \<leftarrow> nodes w p;
        h \<leftarrow> set_status p cancelled (nodes w);
        nxt \<leftarrow> next_of h p;
        w' \<leftarrow> (case nd_task n of
             None \<Rightarrow> Some (w\<lparr>nodes := h\<rparr>) | Some t \<Rightarrow> resume t (w\<lparr>nodes := h\<rparr>));
        cancel_tasks resume nxt w' })"

definition cancel_one ::
  "(handle \<Rightarrow> 'w world_scheme \<Rightarrow> 'w world_scheme option) \<Rightarrow> addr
     \<Rightarrow> 'w world_scheme \<Rightarrow> 'w world_scheme option" where
  "cancel_one resume p w = do {
     n \<leftarrow> nodes w p;
     h \<leftarrow> set_status p cancelled (nodes w);
     (case nd_task n of None \<Rightarrow> Some (w\<lparr>nodes := h\<rparr>) | Some t \<Rightarrow> resume t (w\<lparr>nodes := h\<rparr>)) }"

lemma cancel_tasks_None [simp]: "cancel_tasks resume None w = Some w"
  by (simp add: cancel_tasks.simps)

lemma cancel_tasks_Some:
  "cancel_tasks resume (Some p) w =
     do { nxt \<leftarrow> next_of (nodes w) p; w' \<leftarrow> cancel_one resume p w; cancel_tasks resume nxt w' }"
  by (cases "nodes w p"; subst cancel_tasks.simps) (simp_all add: cancel_one_def next_of_None[THEN iffD2])

text \<open>As a loop it is \<open>attach_list\<close> for the executor that cancels what it is given.\<close>

lemma cancel_tasks_attach_list:
  "node_list (nodes w) p as \<Longrightarrow> executor (cancel_one resume) acc \<Longrightarrow> acc as w \<Longrightarrow>
     cancel_tasks resume p w = foldM_opt (cancel_one resume) as w"
proof (induction as arbitrary: p w)
  case Nil
  then show ?case by simp
next
  case (Cons a as)
  from Cons.prems(1) obtain r where p: "p = Some a" and r: "next_of (nodes w) a = Some r"
    and rest: "node_list (nodes w) r as" by (auto split: option.splits)
  show ?case
  proof (cases "cancel_one resume a w")
    case None
    with p r show ?thesis by (simp add: cancel_tasks_Some)
  next
    case (Some w1)
    from executor.spares_rest[OF Cons.prems(2,3) Some]
    have acc: "acc as w1" and same: "\<And>q. q \<in> set as \<Longrightarrow> nodes w1 q = nodes w q" by auto
    have "node_list (nodes w1) r as"
      using rest node_list_cong[OF same, where p = r and q = None] by simp
    from Cons.IH[OF this Cons.prems(2) acc] p r Some show ?thesis
      by (simp add: cancel_tasks_Some)
  qed
qed

section \<open>The pool\<close>

text \<open>
  \<open>WPop\<close>: in \<open>pop_all_not_empty\<close>; \<open>WBatch p\<close>: in the \<open>do\<close> loop with \<open>top = p\<close>; \<open>WCancel t\<close>: in
  \<open>cancel_tasks\<close> after \<open>work_end\<close>; \<open>WExit\<close>: the thread function has returned.
\<close>

datatype worker_pc = WPop | WBatch addr | WCancel "addr option" | WExit

text \<open>
  The stopping thread. In \<open>~thread_pool\<close>, with its pill at address \<open>pl\<close>: \<open>SPush pl i\<close> before the
  \<open>i\<close>-th iteration, \<open>SJoin pl i\<close> in \<open>threads[i].join()\<close>, \<open>SCancel pl i t\<close> in the \<open>cancel_tasks\<close> that
  follows; \<open>SWait i\<close> in the join loop of \<open>wait_stop\<close>. \<open>SPop i\<close> and \<open>SFinal i t\<close> are the loop over all
  queues at the end of both. \<open>SIdle\<close>: nobody stops the pool; \<open>SDone\<close>: stopped.
\<close>

datatype stop_pc = SIdle | SPush addr nat | SJoin addr nat | SCancel addr nat "addr option"
  | SWait nat | SPop nat | SFinal nat "addr option" | SDone

record pool = world +
  pl_size :: nat
  pl_queues :: "nat \<Rightarrow> task_queue"
  pl_pcs :: "nat \<Rightarrow> worker_pc"
  pl_joinable :: "nat \<Rightarrow> bool"
  pl_stop :: stop_pc

definition default_thread_count :: "32 word \<Rightarrow> nat" where
  "default_thread_count hardware_concurrency =
     (let c = hardware_concurrency in if c < 2 then 1 else unat (c - 1))"

definition pool_ctor :: "nat \<Rightarrow> node_heap \<Rightarrow> pool" where
  "pool_ctor thread_count h = (let n = max 1 thread_count in
     \<lparr>nodes = h, pl_size = n, pl_queues = (\<lambda>_. task_queue_init), pl_pcs = (\<lambda>_. WPop),
      pl_joinable = (\<lambda>i. i < n), pl_stop = SIdle\<rparr>)"

definition select_queue :: "operation_hash_t \<Rightarrow> 'w pool_scheme \<Rightarrow> nat" where
  "select_queue op_hash s = unat op_hash mod pl_size s"

definition set_queue :: "nat \<Rightarrow> task_queue \<Rightarrow> 'w pool_scheme \<Rightarrow> 'w pool_scheme" where
  "set_queue i q s = s\<lparr>pl_queues := (pl_queues s)(i := q)\<rparr>"

definition set_worker :: "nat \<Rightarrow> worker_pc \<Rightarrow> 'w pool_scheme \<Rightarrow> 'w pool_scheme" where
  "set_worker i c s = s\<lparr>pl_pcs := (pl_pcs s)(i := c)\<rparr>"

text \<open>\<open>strand::attach\<close> and \<open>worker::attach\<close>: push to one queue of the pool.\<close>

definition queue_attach :: "nat \<Rightarrow> nat \<Rightarrow> addr \<Rightarrow> 'w pool_scheme \<Rightarrow> 'w pool_scheme option" where
  "queue_attach k i node s = do {
     (q, h) \<leftarrow> tq_attach k (pl_queues s i) node (nodes s);
     Some (set_queue i q (s\<lparr>nodes := h\<rparr>)) }"

definition pool_attach :: "nat \<Rightarrow> addr \<Rightarrow> 'w pool_scheme \<Rightarrow> 'w pool_scheme option" where
  "pool_attach k node s = do {
     n \<leftarrow> nodes s node;
     t \<leftarrow> nd_task n;
     queue_attach k (select_queue (operation_hash_handle t) s) node s }"

definition jump_on_thread_pool ::
  "nat \<Rightarrow> addr \<Rightarrow> handle \<Rightarrow> 'w pool_scheme \<Rightarrow> 'w pool_scheme option" where
  "jump_on_thread_pool k this hnd s = do {
     h \<leftarrow> set_task this (Some hnd) (nodes s);
     queue_attach k (select_queue (operation_hash_handle hnd) s) this (s\<lparr>nodes := h\<rparr>) }"

text \<open>\<open>attach_list\<close> for a pool: consecutive nodes go to consecutive queues.\<close>

partial_function (option) pool_attach_loop ::
  "nat \<Rightarrow> operation_hash_t \<Rightarrow> addr option \<Rightarrow> 'w pool_scheme \<Rightarrow> 'w pool_scheme option" where
  "pool_attach_loop k hash tp s = (case tp of
      None \<Rightarrow> Some s
    | Some p \<Rightarrow> do {
        nxt \<leftarrow> next_of (nodes s) p;
        s' \<leftarrow> queue_attach k (select_queue hash s) p s;
        pool_attach_loop k (hash + 1) nxt s' })"

definition pool_attach_list :: "nat \<Rightarrow> addr option \<Rightarrow> 'w pool_scheme \<Rightarrow> 'w pool_scheme option" where
  "pool_attach_list k tp s =
     pool_attach_loop k (do_hash (case tp of None \<Rightarrow> 0 | Some p \<Rightarrow> of_nat p)) tp s"

text \<open>
  \<open>deadpill_pusher\<close>, suspended in the coroutine \<open>push_deadpill\<close>: the pill and, behind it, the
  node that resumes the coroutine are pushed as one list. \<open>request_stop\<close> starts one such coroutine
  per queue; \<open>frames\<close> are the addresses of their two nodes and of their frames.
\<close>

definition deadpill_pusher_suspend ::
  "nat \<Rightarrow> nat \<Rightarrow> addr \<Rightarrow> addr \<Rightarrow> handle \<Rightarrow> 'w pool_scheme \<Rightarrow> 'w pool_scheme option" where
  "deadpill_pusher_suspend k i pill this_node hnd s = do {
     h1 \<leftarrow> set_next pill (Some this_node) (nodes s);
     h2 \<leftarrow> set_task this_node (Some hnd) h1;
     (q, h) \<leftarrow> tq_push_list k (pl_queues s i) pill this_node h2;
     Some (set_queue i q (s\<lparr>nodes := h\<rparr>)) }"

definition push_deadpill ::
  "nat \<Rightarrow> nat \<Rightarrow> addr \<times> addr \<times> handle \<Rightarrow> 'w pool_scheme \<Rightarrow> 'w pool_scheme option" where
  "push_deadpill k i = (\<lambda>(pill, this_node, hnd) s.
     deadpill_pusher_suspend k i pill this_node hnd
       (s\<lparr>nodes := (nodes s)(pill \<mapsto> deadpill, this_node \<mapsto> task_node_init)\<rparr>))"

definition request_stop ::
  "nat \<Rightarrow> (nat \<Rightarrow> addr \<times> addr \<times> handle) \<Rightarrow> 'w pool_scheme \<Rightarrow> 'w pool_scheme option" where
  "request_stop k frames s = foldM_opt (\<lambda>i. push_deadpill k i (frames i)) [0..<pl_size s] s"

section \<open>The worker thread\<close>

text \<open>
  What is recorded when a node leaves the pool: its address, the task read from it and its status
  at that time; \<open>Run\<close> in the \<open>do\<close> loop of the worker, \<open>Cancel\<close> in \<open>cancel_tasks\<close>.
\<close>

datatype served = Run addr "handle option" schedule_errc | Cancel addr "handle option" schedule_errc

text \<open>One iteration of the \<open>do\<close> loop: \<open>task\<close> and \<open>next\<close> are read, then the task is resumed.\<close>

definition run_task :: "addr \<Rightarrow> node_heap \<Rightarrow> (served \<times> worker_pc) option" where
  "run_task tp h = do {
     n \<leftarrow> h tp;
     Some (Run tp (nd_task n) (nd_status n),
       (case nd_task n of
          None \<Rightarrow> WCancel (nd_next n)
        | Some _ \<Rightarrow> (case nd_next n of None \<Rightarrow> WPop | Some p \<Rightarrow> WBatch p))) }"

definition cancel_task :: "addr \<Rightarrow> node_heap \<Rightarrow> (served \<times> addr option \<times> node_heap) option" where
  "cancel_task tp h = do {
     n \<leftarrow> h tp;
     h' \<leftarrow> set_status tp cancelled h;
     Some (Cancel tp (nd_task n) cancelled, nd_next n, h') }"

text \<open>Thread \<open>i\<close> can go on unless it has returned or sleeps on its condition variable.\<close>

definition worker_enabled :: "nat \<Rightarrow> 'w pool_scheme \<Rightarrow> bool" where
  "worker_enabled i s \<longleftrightarrow> i < pl_size s \<and> pl_pcs s i \<noteq> WExit \<and> i \<notin> set (tq_waiting (pl_queues s i))"

definition worker_step :: "nat \<Rightarrow> 'w pool_scheme \<Rightarrow> (served option \<times> 'w pool_scheme) option" where
  "worker_step i s = (case pl_pcs s i of
      WPop \<Rightarrow> (case tq_pop_attempt i (pl_queues s i) of
          (None, q) \<Rightarrow> Some (None, set_queue i q s)
        | (Some p, q) \<Rightarrow> Some (None, set_worker i (WBatch p) (set_queue i q s)))
    | WBatch p \<Rightarrow> do {
        (e, c) \<leftarrow> run_task p (nodes s);
        Some (Some e, set_worker i c s) }
    | WCancel None \<Rightarrow> Some (None, set_worker i WExit s)
    | WCancel (Some p) \<Rightarrow> do {
        (e, nxt, h) \<leftarrow> cancel_task p (nodes s);
        Some (Some e, set_worker i (WCancel nxt) (s\<lparr>nodes := h\<rparr>)) }
    | WExit \<Rightarrow> Some (None, s))"

section \<open>Stopping the pool\<close>

definition pool_dtor_begin :: "addr \<Rightarrow> 'w pool_scheme \<Rightarrow> 'w pool_scheme" where
  "pool_dtor_begin pill s = s\<lparr>nodes := (nodes s)(pill \<mapsto> deadpill), pl_stop := SPush pill 0\<rparr>"

definition is_worker :: "nat \<Rightarrow> 'w pool_scheme \<Rightarrow> bool" where
  "is_worker tid s \<longleftrightarrow> tid < pl_size s \<and> pl_joinable s tid"

definition wait_stop_begin :: "nat \<Rightarrow> 'w pool_scheme \<Rightarrow> 'w pool_scheme option" where
  "wait_stop_begin tid s = (if is_worker tid s then None else Some (s\<lparr>pl_stop := SWait 0\<rparr>))"

definition join_thread :: "nat \<Rightarrow> 'w pool_scheme \<Rightarrow> 'w pool_scheme" where
  "join_thread i s = s\<lparr>pl_joinable := (pl_joinable s)(i := False)\<rparr>"

definition set_stop :: "stop_pc \<Rightarrow> 'w pool_scheme \<Rightarrow> 'w pool_scheme" where
  "set_stop c s = s\<lparr>pl_stop := c\<rparr>"

text \<open>\<open>join\<close> blocks until the thread function has returned.\<close>

definition stop_enabled :: "'w pool_scheme \<Rightarrow> bool" where
  "stop_enabled s = (case pl_stop s of
      SIdle \<Rightarrow> False
    | SJoin pl i \<Rightarrow> pl_pcs s i = WExit
    | SWait i \<Rightarrow> i < pl_size s \<and> pl_joinable s i \<longrightarrow> pl_pcs s i = WExit
    | SDone \<Rightarrow> False
    | _ \<Rightarrow> True)"

text \<open>One step of the stopping thread; it returns the index of the queue and what was served.\<close>

definition stop_step ::
  "nat \<Rightarrow> 'w pool_scheme \<Rightarrow> ((nat \<times> served) option \<times> 'w pool_scheme) option" where
  "stop_step k s = (case pl_stop s of
      SPush pl i \<Rightarrow>
        if i < pl_size s then
          (if pl_joinable s i then do {
             (q, h) \<leftarrow> tq_push k (pl_queues s i) pl (nodes s);
             Some (None, set_stop (SJoin pl i) (set_queue i q (s\<lparr>nodes := h\<rparr>))) }
           else Some (None, set_stop (SPush pl (Suc i)) s))
        else Some (None, set_stop (SPop 0) s)
    | SJoin pl i \<Rightarrow> (let (t, q) = tq_pop_all (pl_queues s i) in
        Some (None, set_stop (SCancel pl i t) (set_queue i q (join_thread i s))))
    | SCancel pl i None \<Rightarrow> Some (None, set_stop (SPush pl (Suc i)) s)
    | SCancel pl i (Some p) \<Rightarrow> do {
        (e, nxt, h) \<leftarrow> cancel_task p (nodes s);
        Some (Some (i, e), set_stop (SCancel pl i nxt) (s\<lparr>nodes := h\<rparr>)) }
    | SWait i \<Rightarrow>
        if i < pl_size s
        then Some (None, set_stop (SWait (Suc i)) (if pl_joinable s i then join_thread i s else s))
        else Some (None, set_stop (SPop 0) s)
    | SPop i \<Rightarrow>
        if i < pl_size s
        then (let (t, q) = tq_pop_all (pl_queues s i) in
          Some (None, set_stop (SFinal i t) (set_queue i q s)))
        else Some (None, set_stop SDone s)
    | SFinal i None \<Rightarrow> Some (None, set_stop (SPop (Suc i)) s)
    | SFinal i (Some p) \<Rightarrow> do {
        (e, nxt, h) \<leftarrow> cancel_task p (nodes s);
        Some (Some (i, e), set_stop (SFinal i nxt) (s\<lparr>nodes := h\<rparr>)) }
    | _ \<Rightarrow> Some (None, s))"

section \<open>Attaching to the pool\<close>

definition pool_holds :: "'w pool_scheme \<Rightarrow> (nat \<Rightarrow> addr list) \<Rightarrow> bool" where
  "pool_holds s Q \<longleftrightarrow> (\<forall>i. tq_holds (pl_queues s i) (nodes s) (Q i))
     \<and> (\<forall>i j. i \<noteq> j \<longrightarrow> set (Q i) \<inter> set (Q j) = {})"

lemma set_queue_simps [simp]:
  "nodes (set_queue i q s) = nodes s" "pl_size (set_queue i q s) = pl_size s"
  "pl_queues (set_queue i q s) = (pl_queues s)(i := q)" "pl_pcs (set_queue i q s) = pl_pcs s"
  "pl_joinable (set_queue i q s) = pl_joinable s" "pl_stop (set_queue i q s) = pl_stop s"
  by (simp_all add: set_queue_def)

lemma queue_attach_spec:
  assumes "pool_holds s Q" "task_of (nodes s) p \<noteq> None" "\<And>i. p \<notin> set (Q i)"
  shows "\<exists>s'. queue_attach k i p s = Some s' \<and> pool_holds s' (Q(i := Q i @ [p]))
     \<and> pl_size s' = pl_size s \<and> (\<forall>a. a \<notin> set (Q i) \<and> a \<noteq> p \<longrightarrow> nodes s' a = nodes s a)
     \<and> same_payload (nodes s) (nodes s')"
proof -
  have h: "tq_holds (pl_queues s i) (nodes s) (Q i)" for i using assms(1) by (simp add: pool_holds_def)
  obtain n where "nodes s p = Some n" using assms(2) by (cases "nodes s p") auto
  from task_queue.push_holds[OF h this assms(3), of k] obtain q h' where
    1: "tq_push k (pl_queues s i) p (nodes s) = Some (q, h')" "tq_holds q h' (Q i @ [p])"
    "\<forall>a. a \<notin> set (Q i) \<and> a \<noteq> p \<longrightarrow> h' a = nodes s a" "same_payload (nodes s) h'" by blast
  have "tq_holds (pl_queues s j) h' (Q j)" if "j \<noteq> i" for j
    by (rule task_queue.holds_cong[OF h])
      (use 1(3) assms(1,3) that in \<open>unfold pool_holds_def, blast\<close>)
  with 1 assms show ?thesis
    by (auto simp: queue_attach_def tq_attach_def pool_holds_def)
qed

text \<open>The queue of the \<open>j\<close>-th node of a list that is attached with the hash \<open>hash\<close>.\<close>

definition robin :: "nat \<Rightarrow> operation_hash_t \<Rightarrow> nat \<Rightarrow> nat" where
  "robin n hash j = unat (hash + of_nat j) mod n"

fun dealt :: "nat \<Rightarrow> operation_hash_t \<Rightarrow> nat \<Rightarrow> addr list \<Rightarrow> addr list" where
  "dealt n hash i [] = []"
| "dealt n hash i (a # as) = (if unat hash mod n = i then [a] else []) @ dealt n (hash + 1) i as"

lemma dealt_filter:
  "dealt n hash i as = map fst (filter (\<lambda>(a, j). robin n hash j = i) (zip as [0..<length as]))"
proof (induction as arbitrary: hash)
  case Nil
  then show ?case by simp
next
  case (Cons a as)
  have "zip as [Suc 0..<Suc (length as)] = map (\<lambda>(a, j). (a, Suc j)) (zip as [0..<length as])"
    by (simp add: map_Suc_upt[symmetric] zip_map2 del: upt_Suc)
  then have "map fst (filter (\<lambda>(a, j). robin n hash j = i) (zip as [Suc 0..<Suc (length as)]))
    = map fst (filter (\<lambda>(a, j). robin n (hash + 1) j = i) (zip as [0..<length as]))"
    by (simp add: filter_map o_def case_prod_unfold robin_def add.assoc)
  with Cons show ?case by (simp add: upt_conv_Cons robin_def del: upt_Suc)
qed

lemma pool_attach_loop_None [simp]: "pool_attach_loop k hash None s = Some s"
  by (simp add: pool_attach_loop.simps)

lemma pool_attach_loop_Some:
  "pool_attach_loop k hash (Some p) s = do {
     nxt \<leftarrow> next_of (nodes s) p;
     s' \<leftarrow> queue_attach k (select_queue hash s) p s;
     pool_attach_loop k (hash + 1) nxt s' }"
  by (subst pool_attach_loop.simps) simp

lemma pool_attach_loop_spec:
  assumes "pool_holds s Q" "node_list (nodes s) tp as" "\<And>a. a \<in> set as \<Longrightarrow> task_of (nodes s) a \<noteq> None"
    "\<And>i. set as \<inter> set (Q i) = {}"
  shows "\<exists>s'. pool_attach_loop k hash tp s = Some s'
     \<and> pool_holds s' (\<lambda>i. Q i @ dealt (pl_size s) hash i as) \<and> same_payload (nodes s) (nodes s')"
  using assms
proof (induction as arbitrary: tp hash s Q)
  case Nil
  then show ?case by simp
next
  case (Cons a as)
  from Cons.prems(2) obtain r where tp: "tp = Some a" and r: "next_of (nodes s) a = Some r"
    and rest: "node_list (nodes s) r as" by (auto split: option.splits)
  let ?i = "select_queue hash s"
  have a: "a \<notin> set as" using lseg_distinct[OF Cons.prems(2)] by simp
  have "task_of (nodes s) a \<noteq> None" "a \<notin> set (Q i)" for i using Cons.prems(3,4) by auto
  from queue_attach_spec[OF Cons.prems(1) this, of k ?i] obtain s1 where
    s1: "queue_attach k ?i a s = Some s1" "pool_holds s1 (Q(?i := Q ?i @ [a]))"
      "pl_size s1 = pl_size s" "same_payload (nodes s) (nodes s1)"
    and fr: "\<forall>b. b \<notin> set (Q ?i) \<and> b \<noteq> a \<longrightarrow> nodes s1 b = nodes s b" by blast
  have same: "nodes s1 b = nodes s b" if "b \<in> set as" for b
    using fr a that Cons.prems(4)[of ?i] by auto
  have "node_list (nodes s1) r as"
    using rest node_list_cong[OF same, where p = r and q = None] by simp
  moreover have "task_of (nodes s1) b \<noteq> None" if "b \<in> set as" for b
    using Cons.prems(3)[of b] same[OF that] that by simp
  moreover have "set as \<inter> set ((Q(?i := Q ?i @ [a])) j) = {}" for j
    using Cons.prems(4)[of j] a by auto
  ultimately obtain s' where s': "pool_attach_loop k (hash + 1) r s1 = Some s'"
    "pool_holds s' (\<lambda>j. (Q(?i := Q ?i @ [a])) j @ dealt (pl_size s1) (hash + 1) j as)"
    "same_payload (nodes s1) (nodes s')"
    using Cons.IH[OF s1(2), of r "hash + 1"] by blast
  have "(\<lambda>j. (Q(?i := Q ?i @ [a])) j @ dealt (pl_size s1) (hash + 1) j as)
    = (\<lambda>j. Q j @ dealt (pl_size s) hash j (a # as))"
    by (auto simp: s1(3) select_queue_def)
  with s' s1 tp r show ?case by (auto simp: pool_attach_loop_Some intro: same_payload_trans)
qed

section \<open>Properties\<close>

text \<open>
  Attaching a list to a pool deals it out round robin: the \<open>j\<close>-th node is appended to the queue
  with number \<open>(hash + j) mod 2^64 mod size\<close>, where \<open>hash\<close> is the hash of the first node's address;
  every queue keeps what it had, and gets its share in the order of the list.
\<close>

theorem pool_attach_list_round_robin:
  assumes "pool_holds s Q" "node_list (nodes s) (Some a) as"
    "\<And>a. a \<in> set as \<Longrightarrow> task_of (nodes s) a \<noteq> None" "\<And>i. set as \<inter> set (Q i) = {}"
  shows "\<exists>s'. pool_attach_list k (Some a) s = Some s' \<and> pool_holds s' (\<lambda>i. Q i @
     map fst (filter (\<lambda>(b, j). unat (do_hash (of_nat a) + of_nat j) mod pl_size s = i)
       (zip as [0..<length as])))"
  using pool_attach_loop_spec[OF assms, of k "do_hash (of_nat a)"]
  by (auto simp: pool_attach_list_def dealt_filter robin_def)

theorem pool_attach_list_round_robin_witness:
  "\<exists>s'. pool_attach_list 0 (Some 1) (pool_ctor 2 (nodes two_nodes)) = Some s'
     \<and> pool_holds s' (\<lambda>i. [] @
       map fst (filter (\<lambda>(b, j). unat (do_hash (of_nat 1) + of_nat j)
           mod pl_size (pool_ctor 2 (nodes two_nodes)) = i)
         (zip [1, 2] [0..<length [1 :: addr, 2]])))"
  by (rule pool_attach_list_round_robin)
    (auto simp: pool_holds_def pool_ctor_def two_nodes_def)

text \<open>
  \<open>cancel_tasks\<close> resumes every node of the list exactly once and in order, each with the status
  \<open>cancelled\<close> already written, and skips the task of a dead pill, although a resumed task may free
  its node. The hypothesis is that a resumed task leaves the nodes behind it alone.
\<close>

theorem cancel_tasks_cancels_all:
  assumes "\<And>a as w w'. acc (a # as) w \<Longrightarrow> cancel_one resume a w = Some w' \<Longrightarrow>
             acc as w' \<and> (\<forall>q\<in>set as. nodes w' q = nodes w q)"
    and "acc as w" and "node_list (nodes w) p as"
  shows "cancel_tasks resume p w = foldM_opt (cancel_one resume) as w"
proof -
  have "executor (cancel_one resume) acc" using assms(1) by unfold_locales
  with assms(2,3) show ?thesis by (simp add: cancel_tasks_attach_list)
qed

text \<open>A dead pill followed by a task; the task frees its own node.\<close>

definition pill_and_task :: world where
  "pill_and_task = \<lparr>nodes = [1 \<mapsto> deadpill\<lparr>nd_next := Some 2\<rparr>,
      2 \<mapsto> \<lparr>nd_next = None, nd_task = Some 2, nd_status = ok\<rparr>]\<rparr>"

definition own_or_pill :: "addr list \<Rightarrow> 'w world_scheme \<Rightarrow> bool" where
  "own_or_pill as w \<longleftrightarrow> distinct as \<and> (\<forall>a\<in>set as. \<forall>t. task_of (nodes w) a = Some t \<longrightarrow> t = a)"

lemma cancel_free_self_spares:
  assumes "own_or_pill (a # as) w" "cancel_one free_self a w = Some w'"
  shows "own_or_pill as w' \<and> (\<forall>q\<in>set as. nodes w' q = nodes w q)"
proof -
  obtain n where n: "nodes w a = Some n" using assms(2) by (cases "nodes w a") (auto simp: cancel_one_def)
  have "nodes w' q = nodes w q" if "q \<in> set as" for q
    using assms that n
    by (auto simp: own_or_pill_def cancel_one_def free_self_def destroy_nodes_def split: option.splits)
  with assms(1) show ?thesis by (auto simp: own_or_pill_def)
qed

theorem cancel_tasks_cancels_all_witness:
  "cancel_tasks free_self (Some 1) pill_and_task = foldM_opt (cancel_one free_self) [1, 2] pill_and_task
   \<and> foldM_opt (cancel_one free_self) [1, 2] pill_and_task
     = Some \<lparr>nodes = [1 \<mapsto> \<lparr>nd_next = Some 2, nd_task = None, nd_status = cancelled\<rparr>]\<rparr>"
proof
  show "cancel_tasks free_self (Some 1) pill_and_task
      = foldM_opt (cancel_one free_self) [1, 2] pill_and_task"
    by (rule cancel_tasks_cancels_all[where acc = own_or_pill, OF cancel_free_self_spares])
      (auto simp: own_or_pill_def pill_and_task_def deadpill_def task_node_init_def next_of_def)
  show "foldM_opt (cancel_one free_self) [1, 2] pill_and_task
     = Some \<lparr>nodes = [1 \<mapsto> \<lparr>nd_next = Some 2, nd_task = None, nd_status = cancelled\<rparr>]\<rparr>"
    by (auto simp: cancel_one_def free_self_def destroy_nodes_def pill_and_task_def deadpill_def
        task_node_init_def fun_eq_iff)
qed

end
