(* ===== verification/Thread_Pool_Runs.thy ===== *)
theory Thread_Pool_Runs
  imports Thread_Pool
begin

text \<open>
  Runs of a thread pool: its worker threads, the thread that stops it, any number of threads and
  coroutines that attach tasks, and everything else the program does meanwhile, interleaved at the
  granularity of the critical sections of the queues and of the loop iterations of the workers.
  Proved about them: every node goes through its queue first in first out and is served exactly once,
  by the worker before the pill and with the status \<open>cancelled\<close> after it; the pill that
  \<open>~thread_pool\<close> shares between the queues is never in two queues; and no wakeup is lost, so a join
  cannot block forever.
\<close>

section \<open>What the pool owns\<close>

text \<open>The list that is being worked off for queue \<open>i\<close>, by its worker or by the stopping thread.\<close>

definition stop_list :: "stop_pc \<Rightarrow> nat \<Rightarrow> addr option" where
  "stop_list c i = (case c of
      SCancel pl j t \<Rightarrow> if j = i then t else None
    | SFinal j t \<Rightarrow> if j = i then t else None
    | _ \<Rightarrow> None)"

definition cur_list :: "'w pool_scheme \<Rightarrow> nat \<Rightarrow> addr option" where
  "cur_list s i = (case pl_pcs s i of
      WPop \<Rightarrow> None | WBatch p \<Rightarrow> Some p | WCancel t \<Rightarrow> t | WExit \<Rightarrow> stop_list (pl_stop s) i)"

text \<open>\<open>B i\<close> and \<open>Q i\<close>: the nodes of that list and the nodes in queue \<open>i\<close>.\<close>

definition pool_lists :: "'w pool_scheme \<Rightarrow> (nat \<Rightarrow> addr list) \<Rightarrow> (nat \<Rightarrow> addr list) \<Rightarrow> bool" where
  "pool_lists s B Q \<longleftrightarrow>
     (\<forall>i. node_list (nodes s) (cur_list s i) (B i) \<and> tq_holds (pl_queues s i) (nodes s) (Q i))"

definition stop_pill :: "stop_pc \<Rightarrow> addr option" where
  "stop_pill c = (case c of SPush pl i \<Rightarrow> Some pl | SJoin pl i \<Rightarrow> Some pl | SCancel pl i t \<Rightarrow> Some pl | _ \<Rightarrow> None)"

text \<open>The loop over all queues at the end of \<open>~thread_pool\<close> and \<open>wait_stop\<close> has begun.\<close>

definition finishing :: "'w pool_scheme \<Rightarrow> bool" where
  "finishing s \<longleftrightarrow> (case pl_stop s of SPop i \<Rightarrow> True | SFinal i t \<Rightarrow> True | SDone \<Rightarrow> True | _ \<Rightarrow> False)"

definition entry :: "node_heap \<Rightarrow> addr \<Rightarrow> addr \<times> handle option \<times> schedule_errc" where
  "entry h a = (a, task_of h a, (case h a of None \<Rightarrow> ok | Some n \<Rightarrow> nd_status n))"

definition log_served :: "nat \<Rightarrow> served option \<Rightarrow> (nat \<Rightarrow> served list) \<Rightarrow> nat \<Rightarrow> served list" where
  "log_served i e L = (case e of None \<Rightarrow> L | Some x \<Rightarrow> L(i := L i @ [x]))"

lemma cur_list_cong:
  "pl_pcs s' j = pl_pcs s j \<Longrightarrow> pl_stop s' = pl_stop s \<Longrightarrow> cur_list s' j = cur_list s j"
  by (cases "pl_pcs s j") (simp_all add: cur_list_def)

section \<open>Runs\<close>

text \<open>
  \<open>pool_reach s P L\<close>: \<open>s\<close> is reachable; \<open>P i\<close> is everything pushed to queue \<open>i\<close> so far, as triples of
  address, task and status at the time of the push, and \<open>L i\<close> everything served from it. Nodes may
  be pushed that are alive, in no queue and not being served, by anybody and at any time except
  during the final loop (a cancelled task does not produce new tasks, and nobody uses a pool that
  is gone). The environment may change, create and destroy every node that the pool does not hold
  and that is not the destructor's pill. A node is no longer held from the moment its task is resumed.
\<close>

inductive pool_reach ::
  "pool \<Rightarrow> (nat \<Rightarrow> (addr \<times> handle option \<times> schedule_errc) list) \<Rightarrow> (nat \<Rightarrow> served list) \<Rightarrow> bool" where
  init: "pool_reach (pool_ctor n h) (\<lambda>_. []) (\<lambda>_. [])"
| environment: "pool_reach s P L \<Longrightarrow> pool_lists s B Q \<Longrightarrow>
    (\<And>a. (\<exists>i. a \<in> set (B i @ Q i)) \<or> stop_pill (pl_stop s) = Some a \<Longrightarrow> h a = nodes s a) \<Longrightarrow>
    pool_reach (s\<lparr>nodes := h\<rparr>) P L"
| push_list: "pool_reach s P L \<Longrightarrow> pool_lists s B Q \<Longrightarrow> i < pl_size s \<Longrightarrow> \<not> finishing s \<Longrightarrow>
    node_list (nodes s) (Some f) as \<Longrightarrow> last as = l \<Longrightarrow>
    (\<And>a. a \<in> set as \<Longrightarrow> stop_pill (pl_stop s) \<noteq> Some a \<and> (\<forall>j. a \<notin> set (B j @ Q j))) \<Longrightarrow>
    tq_push_list k (pl_queues s i) f l (nodes s) = Some (q, h) \<Longrightarrow>
    pool_reach (set_queue i q (s\<lparr>nodes := h\<rparr>)) (P(i := P i @ map (entry (nodes s)) as)) L"
| attach: "pool_reach s P L \<Longrightarrow> pool_lists s B Q \<Longrightarrow> \<not> finishing s \<Longrightarrow>
    stop_pill (pl_stop s) \<noteq> Some p \<Longrightarrow> (\<And>j. p \<notin> set (B j @ Q j)) \<Longrightarrow>
    pool_attach k p s = Some s' \<Longrightarrow>
    i = select_queue (operation_hash_handle (the (task_of (nodes s) p))) s \<Longrightarrow>
    pool_reach s' (P(i := P i @ [entry (nodes s) p])) L"
| work: "pool_reach s P L \<Longrightarrow> worker_enabled i s \<Longrightarrow> worker_step i s = Some (e, s') \<Longrightarrow>
    pool_reach s' P (log_served i e L)"
| spurious_wakeup: "pool_reach s P L \<Longrightarrow> t \<in> set (tq_waiting (pl_queues s i)) \<Longrightarrow>
    pool_reach (set_queue i (cv_wake t (pl_queues s i)) s) P L"
| dtor: "pool_reach s P L \<Longrightarrow> pool_lists s B Q \<Longrightarrow> pl_stop s = SIdle \<or> pl_stop s = SDone \<Longrightarrow>
    (\<And>j. pl \<notin> set (B j @ Q j)) \<Longrightarrow> pool_reach (pool_dtor_begin pl s) P L"
| wait_stop: "pool_reach s P L \<Longrightarrow> pl_stop s = SIdle \<Longrightarrow> wait_stop_begin tid s = Some s' \<Longrightarrow>
    pool_reach s' P L"
| stop_push: "pool_reach s P L \<Longrightarrow> pl_stop s = SPush pl i \<Longrightarrow> i < pl_size s \<Longrightarrow> pl_joinable s i \<Longrightarrow>
    stop_step k s = Some (e, s') \<Longrightarrow> pool_reach s' (P(i := P i @ [entry (nodes s) pl])) L"
| stop: "pool_reach s P L \<Longrightarrow> stop_enabled s \<Longrightarrow>
    (\<And>pl i. pl_stop s = SPush pl i \<Longrightarrow> \<not> (i < pl_size s \<and> pl_joinable s i)) \<Longrightarrow>
    stop_step k s = Some (e, s') \<Longrightarrow>
    pool_reach s' P (case e of None \<Rightarrow> L | Some (i, x) \<Rightarrow> log_served i (Some x) L)"

section \<open>The invariant of one queue and its worker\<close>

fun served_node :: "served \<Rightarrow> addr" where
  "served_node (Run p t s) = p"
| "served_node (Cancel p t s) = p"

text \<open>A node is served with the task it was pushed with; \<open>ok\<close> stays \<open>ok\<close> unless it is cancelled.\<close>

fun served_as :: "addr \<times> handle option \<times> schedule_errc \<Rightarrow> served \<Rightarrow> bool" where
  "served_as (p, t, st) (Run p' t' st') \<longleftrightarrow> p' = p \<and> t' = t \<and> st' = st"
| "served_as (p, t, st) (Cancel p' t' st') \<longleftrightarrow> p' = p \<and> t' = t \<and> st' = cancelled"

fun runs_task :: "served \<Rightarrow> bool" where
  "runs_task (Run p t st) \<longleftrightarrow> t \<noteq> None"
| "runs_task (Cancel p t st) \<longleftrightarrow> False"

fun cancels :: "served \<Rightarrow> bool" where
  "cancels (Run p t st) \<longleftrightarrow> False"
| "cancels (Cancel p t st) \<longleftrightarrow> True"

text \<open>Tasks run until a pill is taken, everything after it is cancelled.\<close>

definition stopped_log :: "served list \<Rightarrow> bool" where
  "stopped_log L \<longleftrightarrow> (\<exists>rs p st cs. L = rs @ Run p None st # cs \<and> (\<forall>e\<in>set rs. runs_task e) \<and> (\<forall>e\<in>set cs. cancels e))"

definition log_shape :: "worker_pc \<Rightarrow> served list \<Rightarrow> bool" where
  "log_shape c L \<longleftrightarrow> (case c of
      WPop \<Rightarrow> \<forall>e\<in>set L. runs_task e
    | WBatch p \<Rightarrow> \<forall>e\<in>set L. runs_task e
    | _ \<Rightarrow> stopped_log L)"

definition history :: "node_heap \<Rightarrow> (addr \<times> handle option \<times> schedule_errc) list \<Rightarrow> served list \<Rightarrow> addr list \<Rightarrow> bool" where
  "history h P L as \<longleftrightarrow> (\<exists>pre. P = pre @ map (entry h) as \<and> list_all2 served_as pre L)"

definition cv_ok :: "nat \<Rightarrow> worker_pc \<Rightarrow> task_queue \<Rightarrow> bool" where
  "cv_ok i c q \<longleftrightarrow> tq_awake q \<and> set (tq_waiting q @ tq_woken q) \<subseteq> {i}
     \<and> (tq_waiting q @ tq_woken q \<noteq> [] \<longrightarrow> c = WPop)"

definition lane :: "node_heap \<Rightarrow> nat \<Rightarrow> addr option \<Rightarrow> worker_pc \<Rightarrow> task_queue
    \<Rightarrow> (addr \<times> handle option \<times> schedule_errc) list \<Rightarrow> served list \<Rightarrow> addr list \<Rightarrow> addr list \<Rightarrow> bool" where
  "lane h i cur c q P L bs qs \<longleftrightarrow> node_list h cur bs \<and> tq_holds q h qs \<and> distinct (bs @ qs)
     \<and> cv_ok i c q \<and> history h P L (bs @ qs) \<and> log_shape c L"

lemma entry_cong: "h' a = h a \<Longrightarrow> entry h' a = entry h a"
  by (simp add: entry_def)

lemma entry_same_payload: "same_payload h h' \<Longrightarrow> entry h' a = entry h a"
proof -
  assume "same_payload h h'"
  then have "map_option (\<lambda>n. n\<lparr>nd_next := None\<rparr>) (h' a) = map_option (\<lambda>n. n\<lparr>nd_next := None\<rparr>) (h a)"
    by (simp add: same_payload_def)
  then show ?thesis
    by (cases "h a"; cases "h' a")
      (auto simp: entry_def dest: arg_cong[where f = nd_task] arg_cong[where f = nd_status])
qed

lemma history_cong: "(\<And>a. a \<in> set as \<Longrightarrow> entry h' a = entry h a) \<Longrightarrow> history h' P L as = history h P L as"
  by (simp add: history_def cong: map_cong)

lemma history_push: "history h P L as \<Longrightarrow> history h (P @ map (entry h) bs) L (as @ bs)"
  by (auto simp: history_def)

lemma history_serve: "history h P L (a # as) \<Longrightarrow> served_as (entry h a) e \<Longrightarrow> history h P (L @ [e]) as"
proof -
  assume "history h P L (a # as)" and e: "served_as (entry h a) e"
  then obtain pre where p: "P = pre @ map (entry h) (a # as)" "list_all2 served_as pre L"
    by (auto simp: history_def)
  then have "P = (pre @ [entry h a]) @ map (entry h) as" "list_all2 served_as (pre @ [entry h a]) (L @ [e])"
    using e by (auto intro: list_all2_appendI)
  then show ?thesis unfolding history_def by blast
qed

lemma lane_cong:
  assumes "lane h i cur c q P L bs qs" "\<And>a. a \<in> set (bs @ qs) \<Longrightarrow> h' a = h a"
  shows "lane h' i cur c q P L bs qs"
proof -
  have "node_list h' cur bs"
    using assms node_list_cong[of bs h' h cur None] by (simp add: lane_def)
  moreover have "tq_holds q h' qs"
    by (rule task_queue.holds_cong[of q h]) (use assms in \<open>auto simp: lane_def\<close>)
  moreover have "history h' P L (bs @ qs)"
  proof -
    have "entry h' a = entry h a" if "a \<in> set (bs @ qs)" for a using assms(2)[OF that] by (rule entry_cong)
    from history_cong[of "bs @ qs", OF this] show ?thesis using assms(1) unfolding lane_def by blast
  qed
  ultimately show ?thesis using assms(1) by (simp add: lane_def)
qed

lemma lane_push_list:
  assumes l: "lane h i cur c q P L bs qs" and as: "node_list h (Some f) as" "last as = l"
    and d: "set as \<inter> set (bs @ qs) = {}" and p: "tq_push_list k q f l h = Some (q', h')"
  shows "lane h' i cur c q' (P @ map (entry h) as) L bs (qs @ as)"
    "\<And>a. a \<notin> set qs \<Longrightarrow> h' a = h a" "same_payload h h'"
proof -
  have ne: "as \<noteq> []" using as(1) by auto
  have holds: "tq_holds q h qs" and bs: "node_list h cur bs" and ds: "distinct (bs @ qs)"
    using l by (auto simp: lane_def)
  from task_queue.push_list_holds[OF holds as(1) ne as(2), of k] d p
  have q': "tq_holds q' h' (qs @ as)" and fr: "\<And>a. a \<notin> set qs \<Longrightarrow> h' a = h a" and pl: "same_payload h h'"
    by auto
  have "node_list h' cur bs" using bs node_list_cong[of bs h' h cur None] fr ds by auto
  moreover have "history h' (P @ map (entry h) as) L (bs @ qs @ as)"
  proof -
    have "history h (P @ map (entry h) as) L ((bs @ qs) @ as)"
      by (rule history_push) (use l in \<open>simp add: lane_def\<close>)
    moreover have "entry h' = entry h" by (rule ext) (rule entry_same_payload[OF pl])
    ultimately show ?thesis by (simp add: history_def)
  qed
  moreover have "cv_ok i c q'"
  proof -
    have "tq_awake q'" using l p tq_push_list_awake by (auto simp: lane_def cv_ok_def)
    moreover have s: "set (tq_waiting q' @ tq_woken q') = set (tq_waiting q @ tq_woken q)"
      using tq_push_list_threads[OF p] .
    moreover have "cv_ok i c q" using l by (simp add: lane_def)
    moreover have "(tq_waiting q' @ tq_woken q' = []) = (tq_waiting q @ tq_woken q = [])"
      using s by (metis set_empty)
    ultimately show ?thesis unfolding cv_ok_def by blast
  qed
  moreover have "distinct (bs @ qs @ as)" using ds d lseg_distinct[OF as(1)] by auto
  ultimately show "lane h' i cur c q' (P @ map (entry h) as) L bs (qs @ as)"
    using l q' by (simp add: lane_def)
  show "h' a = h a" if "a \<notin> set qs" for a using fr that by simp
  show "same_payload h h'" by (rule pl)
qed

section \<open>The worker's steps keep the invariant of its queue\<close>

lemma lane_pop:
  assumes l: "lane h i None WPop q P L bs qs" and p: "tq_pop_attempt i q = (p, q')"
    and s: "i \<notin> set (tq_waiting q)"
  shows "bs = []" "lane h i p (case p of None \<Rightarrow> WPop | Some a \<Rightarrow> WBatch a) q' P L qs []"
proof -
  show bs: "bs = []" using l by (simp add: lane_def)
  have "tq_holds q h qs" using l by (simp add: lane_def)
  from tq_pop_attempt_holds[OF this p] have q': "node_list h p qs" "tq_holds q' h []" by auto
  have a: "tq_awake q'" using l s p tq_pop_attempt_awake by (auto simp: lane_def cv_ok_def)
  have w: "set (tq_waiting q' @ tq_woken q') \<subseteq> {i} \<and> (p \<noteq> None \<longrightarrow> tq_waiting q' @ tq_woken q' = [])"
  proof -
    have "tq_waiting q = []" using l s by (cases "tq_waiting q") (auto simp: lane_def cv_ok_def)
    moreover have "tq_woken q = [] \<or> tq_woken q = [i]"
      using l by (cases "tq_woken q"; cases "tl (tq_woken q)") (auto simp: lane_def cv_ok_def tq_awake_def)
    ultimately show ?thesis
      using p by (auto simp: tq_pop_attempt_def tq_pop_all_def Let_def split: option.splits)
  qed
  have "log_shape (case p of None \<Rightarrow> WPop | Some a \<Rightarrow> WBatch a) L"
    using l by (simp add: lane_def log_shape_def split: option.splits)
  moreover have "history h P L (qs @ [])" using l bs by (simp add: lane_def)
  moreover have "cv_ok i (case p of None \<Rightarrow> WPop | Some a \<Rightarrow> WBatch a) q'"
    using a w by (auto simp: cv_ok_def split: option.splits)
  ultimately show "lane h i p (case p of None \<Rightarrow> WPop | Some a \<Rightarrow> WBatch a) q' P L qs []"
    using q' l by (simp add: lane_def)
qed

definition worker_list :: "worker_pc \<Rightarrow> addr option" where
  "worker_list c = (case c of WBatch p \<Rightarrow> Some p | WCancel t \<Rightarrow> t | _ \<Rightarrow> None)"

lemma stopped_log_cancel: "stopped_log L \<Longrightarrow> stopped_log (L @ [Cancel p t st])"
proof -
  assume "stopped_log L"
  then obtain rs q st' cs where L: "L = rs @ Run q None st' # cs" "\<forall>e\<in>set rs. runs_task e" "\<forall>e\<in>set cs. cancels e"
    by (auto simp: stopped_log_def)
  then have "L @ [Cancel p t st] = rs @ Run q None st' # (cs @ [Cancel p t st])"
    "\<forall>e\<in>set (cs @ [Cancel p t st]). cancels e" by auto
  with L(2) show ?thesis unfolding stopped_log_def by blast
qed

lemma stopped_log_pill: "\<forall>e\<in>set L. runs_task e \<Longrightarrow> stopped_log (L @ [Run p None st])"
  unfolding stopped_log_def by (intro exI[of _ L] exI[of _ p] exI[of _ st] exI[of _ "[]"]) simp

lemma lane_cv_idle: "cv_ok i c q \<Longrightarrow> c \<noteq> WPop \<Longrightarrow> cv_ok i c' q"
  by (simp add: cv_ok_def)

lemma lane_run:
  assumes l: "lane h i (Some p) (WBatch p) q P L bs qs" and r: "run_task p h = Some (e, c)"
  shows "\<exists>bs'. bs = p # bs' \<and> lane h i (worker_list c) c q P (L @ [e]) bs' qs \<and> c \<noteq> WExit"
proof -
  from r obtain n where n: "h p = Some n" and e: "e = Run p (nd_task n) (nd_status n)"
    and c: "c = (case nd_task n of None \<Rightarrow> WCancel (nd_next n)
        | Some _ \<Rightarrow> (case nd_next n of None \<Rightarrow> WPop | Some p \<Rightarrow> WBatch p))"
    by (auto simp: run_task_def split: bind_splits)
  have bsl: "node_list h (Some p) bs" using l by (simp add: lane_def)
  then obtain bs' where bs: "bs = p # bs'" "node_list h (nd_next n) bs'"
    using n by (auto simp: lseg_Some_iff)
  have "worker_list c = nd_next n" using c by (auto simp: worker_list_def split: option.splits)
  moreover have "history h P (L @ [e]) (bs' @ qs)"
    using l history_serve[of h P L p "bs' @ qs" e] n e by (simp add: lane_def bs(1) entry_def)
  moreover have "log_shape c (L @ [e])"
  proof (cases "nd_task n")
    case None
    with l stopped_log_pill[of L p "nd_status n"] show ?thesis
      by (auto simp: lane_def log_shape_def c e)
  next
    case (Some t)
    with l show ?thesis by (auto simp: lane_def log_shape_def c e split: option.splits)
  qed
  moreover have "cv_ok i c q" using l lane_cv_idle[of i "WBatch p" q c] by (simp add: lane_def)
  moreover have "c \<noteq> WExit" using c by (auto split: option.splits)
  ultimately show ?thesis using l bs by (auto simp: lane_def)
qed

text \<open>\<open>cancel_tasks\<close>, whether the worker or the stopping thread runs it.\<close>

lemma cancel_taskE:
  assumes "cancel_task p h = Some (e, nxt, h')"
  obtains n where "h p = Some n" "e = Cancel p (nd_task n) cancelled" "nxt = nd_next n"
    "h' = h(p \<mapsto> n\<lparr>nd_status := cancelled\<rparr>)"
  using assms by (auto simp: cancel_task_def split: bind_splits)

lemma lane_cancel:
  assumes l: "lane h i (Some p) c q P L bs qs" and c: "c = WExit \<or> (\<exists>t. c = WCancel t)"
    and c': "c' = WExit \<or> (\<exists>t. c' = WCancel t)" and r: "cancel_task p h = Some (e, nxt, h')"
  shows "\<exists>bs'. bs = p # bs' \<and> lane h' i nxt c' q P (L @ [e]) bs' qs"
proof -
  from cancel_taskE[OF r] obtain n where n: "h p = Some n" "e = Cancel p (nd_task n) cancelled"
    "nxt = nd_next n" "h' = h(p \<mapsto> n\<lparr>nd_status := cancelled\<rparr>)" .
  have bsl: "node_list h (Some p) bs" using l by (simp add: lane_def)
  then obtain bs' where bs: "bs = p # bs'" "node_list h (nd_next n) bs'"
    using n by (auto simp: lseg_Some_iff)
  have d: "p \<notin> set (bs' @ qs)" using l by (auto simp: lane_def bs(1))
  have "lane h i nxt c' q P (L @ [e]) bs' qs"
  proof -
    have "history h P (L @ [e]) (bs' @ qs)"
      using l history_serve[of h P L p "bs' @ qs" e] n by (simp add: lane_def bs(1) entry_def)
    moreover have "log_shape c' (L @ [e])"
      using l c c' stopped_log_cancel[of L] by (auto simp: lane_def log_shape_def n(2))
    moreover have "cv_ok i c' q" using l c lane_cv_idle[of i c q c'] by (auto simp: lane_def)
    ultimately show ?thesis using l bs n(3) by (auto simp: lane_def)
  qed
  then have "lane h' i nxt c' q P (L @ [e]) bs' qs"
    by (rule lane_cong) (use d n(4) in auto)
  with bs show ?thesis by blast
qed

lemma lane_exit: "lane h i None (WCancel None) q P L bs qs \<Longrightarrow> bs = [] \<and> lane h i None WExit q P L [] qs"
  by (auto simp: lane_def cv_ok_def log_shape_def)

lemma lane_pop_all:
  assumes l: "lane h i None WExit q P L bs qs" and p: "tq_pop_all q = (t, q')"
  shows "bs = []" "lane h i t WExit q' P L qs []"
proof -
  show bs: "bs = []" using l by (simp add: lane_def)
  have "tq_holds q h qs" using l by (simp add: lane_def)
  from task_queue.pop_all_list[OF this] p have "node_list h t qs" "tq_holds q' h []" by auto
  moreover have "cv_ok i WExit q'"
    using l p tq_pop_all_awake[of q t q'] by (auto simp: lane_def cv_ok_def tq_pop_all_def)
  ultimately show "lane h i t WExit q' P L qs []" using l bs by (simp add: lane_def)
qed

lemma lane_wake:
  assumes "lane h i cur c q P L bs qs" "t \<in> set (tq_waiting q)"
  shows "lane h i cur c (cv_wake t q) P L bs qs"
proof -
  have "cv_ok i c (cv_wake t q)"
    using assms cv_wake_awake[of q t]
    by (auto simp: lane_def cv_ok_def cv_wake_def dest: set_remove1_subset[THEN subsetD])
  moreover have "tq_holds (cv_wake t q) h qs"
    using assms by (simp add: lane_def cv_wake_def tq_holds_def)
  ultimately show ?thesis using assms(1) by (simp add: lane_def)
qed

section \<open>The invariant of the pool\<close>

lemma set_worker_simps [simp]:
  "nodes (set_worker i c s) = nodes s" "pl_size (set_worker i c s) = pl_size s"
  "pl_queues (set_worker i c s) = pl_queues s" "pl_pcs (set_worker i c s) = (pl_pcs s)(i := c)"
  "pl_joinable (set_worker i c s) = pl_joinable s" "pl_stop (set_worker i c s) = pl_stop s"
  by (simp_all add: set_worker_def)

lemma set_stop_simps [simp]:
  "nodes (set_stop c s) = nodes s" "pl_size (set_stop c s) = pl_size s"
  "pl_queues (set_stop c s) = pl_queues s" "pl_pcs (set_stop c s) = pl_pcs s"
  "pl_joinable (set_stop c s) = pl_joinable s" "pl_stop (set_stop c s) = c"
  by (simp_all add: set_stop_def)

lemma join_thread_simps [simp]:
  "nodes (join_thread i s) = nodes s" "pl_size (join_thread i s) = pl_size s"
  "pl_queues (join_thread i s) = pl_queues s" "pl_pcs (join_thread i s) = pl_pcs s"
  "pl_joinable (join_thread i s) = (pl_joinable s)(i := False)" "pl_stop (join_thread i s) = pl_stop s"
  by (simp_all add: join_thread_def)

definition lanes :: "pool \<Rightarrow> (nat \<Rightarrow> (addr \<times> handle option \<times> schedule_errc) list) \<Rightarrow> (nat \<Rightarrow> served list)
    \<Rightarrow> (nat \<Rightarrow> addr list) \<Rightarrow> (nat \<Rightarrow> addr list) \<Rightarrow> bool" where
  "lanes s P L B Q \<longleftrightarrow>
     (\<forall>i. lane (nodes s) i (cur_list s i) (pl_pcs s i) (pl_queues s i) (P i) (L i) (B i) (Q i))
     \<and> (\<forall>i j. i \<noteq> j \<longrightarrow> set (B i @ Q i) \<inter> set (B j @ Q j) = {})"

lemma lanesD:
  "lanes s P L B Q \<Longrightarrow> lane (nodes s) i (cur_list s i) (pl_pcs s i) (pl_queues s i) (P i) (L i) (B i) (Q i)"
  "lanes s P L B Q \<Longrightarrow> i \<noteq> j \<Longrightarrow> set (B i @ Q i) \<inter> set (B j @ Q j) = {}"
  unfolding lanes_def by blast+

lemma lanes_update:
  assumes l: "lanes s P L B Q"
    and o: "\<And>j. j \<noteq> i \<Longrightarrow> cur_list s' j = cur_list s j \<and> pl_pcs s' j = pl_pcs s j \<and> pl_queues s' j = pl_queues s j"
    and h: "\<And>a j. j \<noteq> i \<Longrightarrow> a \<in> set (B j @ Q j) \<Longrightarrow> nodes s' a = nodes s a"
    and n: "lane (nodes s') i (cur_list s' i) (pl_pcs s' i) (pl_queues s' i) P' L' bs qs"
    and d: "\<And>j. j \<noteq> i \<Longrightarrow> set (bs @ qs) \<inter> set (B j @ Q j) = {}"
  shows "lanes s' (P(i := P')) (L(i := L')) (B(i := bs)) (Q(i := qs))"
  unfolding lanes_def
proof (intro conjI allI impI)
  fix j
  show "lane (nodes s') j (cur_list s' j) (pl_pcs s' j) (pl_queues s' j) ((P(i := P')) j) ((L(i := L')) j)
      ((B(i := bs)) j) ((Q(i := qs)) j)"
  proof (cases "j = i")
    case False
    then have "lane (nodes s') j (cur_list s j) (pl_pcs s j) (pl_queues s j) (P j) (L j) (B j) (Q j)"
      by (intro lane_cong[OF lanesD(1)[OF l]] h)
    with False o show ?thesis by simp
  qed (use n in simp)
next
  fix j k :: nat
  assume "j \<noteq> k"
  then show "set ((B(i := bs)) j @ (Q(i := qs)) j) \<inter> set ((B(i := bs)) k @ (Q(i := qs)) k) = {}"
    using d[of j] d[of k] lanesD(2)[OF l, of j k] by (cases "j = i"; cases "k = i") (auto simp del: set_append)
qed

lemma lanes_lists: "lanes s P L B Q \<Longrightarrow> pool_lists s B Q"
  by (simp add: lanes_def pool_lists_def lane_def)

lemma pool_lists_unique:
  assumes "pool_lists s B Q" "pool_lists s B' Q'"
  shows "B' = B" "Q' = Q"
proof -
  show "B' = B"
  proof
    fix i
    show "B' i = B i"
      using assms lseg_unique[of "next_of (nodes s)" "cur_list s i" "B' i" "B i"] by (simp add: pool_lists_def)
  qed
  show "Q' = Q"
  proof
    fix i
    show "Q' i = Q i"
      using assms lseg_unique[of "next_of (nodes s)" "tq_first (pl_queues s i)" "Q' i" "Q i"]
      by (simp add: pool_lists_def tq_holds_def)
  qed
qed

text \<open>
  What the stopping thread knows: which threads it has joined, that its pill is a pill and, before it
  pushes it once more, that no queue and no worker has it.
\<close>

definition joined_below :: "nat \<Rightarrow> pool \<Rightarrow> bool" where
  "joined_below n s \<longleftrightarrow> (\<forall>j<n. j < pl_size s \<longrightarrow> \<not> pl_joinable s j)"

definition pill_ok :: "addr \<Rightarrow> node_heap \<Rightarrow> bool" where
  "pill_ok pl h \<longleftrightarrow> h pl \<noteq> None \<and> task_of h pl = None"

definition stopping :: "worker_pc \<Rightarrow> bool" where
  "stopping c \<longleftrightarrow> c = WExit \<or> (\<exists>t. c = WCancel t)"

definition stop_ok :: "pool \<Rightarrow> (nat \<Rightarrow> addr list) \<Rightarrow> (nat \<Rightarrow> addr list) \<Rightarrow> bool" where
  "stop_ok s B Q \<longleftrightarrow> 0 < pl_size s \<and> (\<forall>i<pl_size s. \<not> pl_joinable s i \<longrightarrow> pl_pcs s i = WExit) \<and>
     (case pl_stop s of
        SIdle \<Rightarrow> True
      | SPush pl i \<Rightarrow> joined_below i s \<and> pill_ok pl (nodes s) \<and> (\<forall>j. pl \<notin> set (B j @ Q j))
      | SJoin pl i \<Rightarrow> i < pl_size s \<and> joined_below i s \<and> pill_ok pl (nodes s)
          \<and> (\<forall>j. j \<noteq> i \<longrightarrow> pl \<notin> set (B j @ Q j))
          \<and> (stopping (pl_pcs s i) \<or> pl \<in> set (B i @ Q i))
      | SCancel pl i t \<Rightarrow> i < pl_size s \<and> joined_below (Suc i) s \<and> pill_ok pl (nodes s)
          \<and> (\<forall>j. pl \<notin> set (Q j)) \<and> (\<forall>j. j \<noteq> i \<longrightarrow> pl \<notin> set (B j))
      | SWait i \<Rightarrow> joined_below i s
      | SPop i \<Rightarrow> joined_below (pl_size s) s \<and> (\<forall>j<i. j < pl_size s \<longrightarrow> Q j = [])
      | SFinal i t \<Rightarrow> i < pl_size s \<and> joined_below (pl_size s) s \<and> (\<forall>j\<le>i. j < pl_size s \<longrightarrow> Q j = [])
      | SDone \<Rightarrow> joined_below (pl_size s) s \<and> (\<forall>j<pl_size s. Q j = []))"

definition pool_inv :: "pool \<Rightarrow> (nat \<Rightarrow> (addr \<times> handle option \<times> schedule_errc) list) \<Rightarrow> (nat \<Rightarrow> served list)
    \<Rightarrow> (nat \<Rightarrow> addr list) \<Rightarrow> (nat \<Rightarrow> addr list) \<Rightarrow> bool" where
  "pool_inv s P L B Q \<longleftrightarrow> lanes s P L B Q \<and> stop_ok s B Q"

lemma pill_ok_same_payload: "same_payload h h' \<Longrightarrow> pill_ok pl h \<Longrightarrow> pill_ok pl h'"
proof -
  assume pl: "same_payload h h'" and p: "pill_ok pl h"
  have "map_option (\<lambda>n. n\<lparr>nd_next := None\<rparr>) (h' pl) = map_option (\<lambda>n. n\<lparr>nd_next := None\<rparr>) (h pl)"
    using pl by (simp add: same_payload_def)
  then have "h' pl = None \<longleftrightarrow> h pl = None" by (metis map_option_is_None)
  with p same_payload_task[OF pl, of pl] show ?thesis by (simp only: pill_ok_def) simp
qed

lemma pool_ctor_inv: "pool_inv (pool_ctor n h) (\<lambda>_. []) (\<lambda>_. []) (\<lambda>_. []) (\<lambda>_. [])"
proof -
  have "pl_size (pool_ctor n h) = max 1 n" by (simp add: pool_ctor_def Let_def)
  moreover have "cv_ok i WPop task_queue_init" for i
    by (simp add: cv_ok_def) (simp add: task_queue_init_def)
  ultimately show ?thesis
    by (auto simp: pool_inv_def lanes_def lane_def stop_ok_def pool_ctor_def Let_def cur_list_def
        history_def log_shape_def)
qed

lemma pool_inv_environment:
  assumes inv: "pool_inv s P L B Q"
    and h: "\<And>a. (\<exists>i. a \<in> set (B i @ Q i)) \<or> stop_pill (pl_stop s) = Some a \<Longrightarrow> h a = nodes s a"
  shows "pool_inv (s\<lparr>nodes := h\<rparr>) P L B Q"
proof -
  let ?s = "s\<lparr>nodes := h\<rparr>"
  have l: "lanes s P L B Q" using inv by (simp add: pool_inv_def)
  have c: "cur_list ?s = cur_list s" by (intro ext cur_list_cong) simp_all
  have "lane h i (cur_list s i) (pl_pcs s i) (pl_queues s i) (P i) (L i) (B i) (Q i)" for i
    by (rule lane_cong[OF lanesD(1)[OF l]]) (use h in blast)
  then have "lanes ?s P L B Q" using l by (simp add: lanes_def c)
  moreover have "stop_ok ?s B Q"
    using inv h by (cases "pl_stop s")
      (simp_all add: pool_inv_def stop_ok_def joined_below_def pill_ok_def stop_pill_def)
  ultimately show ?thesis by (simp add: pool_inv_def)
qed

lemma pool_inv_push_list:
  assumes inv: "pool_inv s P L B Q" and i: "\<not> finishing s"
    and as: "node_list (nodes s) (Some f) as" "last as = l"
    and f: "\<And>a. a \<in> set as \<Longrightarrow> stop_pill (pl_stop s) \<noteq> Some a \<and> (\<forall>j. a \<notin> set (B j @ Q j))"
    and p: "tq_push_list k (pl_queues s i) f l (nodes s) = Some (q, h)"
  shows "pool_inv (set_queue i q (s\<lparr>nodes := h\<rparr>)) (P(i := P i @ map (entry (nodes s)) as)) L B (Q(i := Q i @ as))"
proof -
  let ?s = "set_queue i q (s\<lparr>nodes := h\<rparr>)"
  have l: "lanes s P L B Q" and st: "stop_ok s B Q" using inv by (simp_all add: pool_inv_def)
  have d: "set as \<inter> set (B j @ Q j) = {}" for j using f by fastforce
  note lp = lane_push_list[OF lanesD(1)[OF l] as d p]
  have c: "cur_list ?s j = cur_list s j" for j by (rule cur_list_cong) simp_all
  have "lanes ?s (P(i := P i @ map (entry (nodes s)) as)) (L(i := L i)) (B(i := B i)) (Q(i := Q i @ as))"
  proof (rule lanes_update[OF l])
    show "nodes ?s a = nodes s a" if "j \<noteq> i" "a \<in> set (B j @ Q j)" for a j
      using lp(2)[of a] lanesD(2)[OF l that(1)] that(2) by auto
    show "lane (nodes ?s) i (cur_list ?s i) (pl_pcs ?s i) (pl_queues ?s i)
        (P i @ map (entry (nodes s)) as) (L i) (B i) (Q i @ as)"
      using lp(1) by (simp add: c)
    show "set (B i @ Q i @ as) \<inter> set (B j @ Q j) = {}" if "j \<noteq> i" for j
      using lanesD(2)[OF l that] d[of j] by auto
  qed (auto simp: c)
  moreover have "stop_ok ?s B (Q(i := Q i @ as))"
    using st i f pill_ok_same_payload[OF lp(3)]
    by (cases "pl_stop s")
      (auto simp: stop_ok_def joined_below_def finishing_def stop_pill_def)
  ultimately show ?thesis by (simp add: pool_inv_def)
qed

lemma pool_inv_attach:
  assumes inv: "pool_inv s P L B Q" and i: "\<not> finishing s"
    and f: "stop_pill (pl_stop s) \<noteq> Some p" "\<And>j. p \<notin> set (B j @ Q j)"
    and p: "pool_attach k p s = Some s'"
    and q: "i = select_queue (operation_hash_handle (the (task_of (nodes s) p))) s"
  shows "pool_inv s' (P(i := P i @ [entry (nodes s) p])) L B (Q(i := Q i @ [p]))"
proof -
  from p obtain n t where n: "nodes s p = Some n" "nd_task n = Some t"
    and a: "queue_attach k i p s = Some s'"
    by (auto simp: pool_attach_def q split: bind_splits)
  let ?h = "(nodes s)(p \<mapsto> n\<lparr>nd_next := None\<rparr>)"
  from a n obtain qu h where push: "tq_push_list k (pl_queues s i) p p ?h = Some (qu, h)"
    and s': "s' = set_queue i qu (s\<lparr>nodes := h\<rparr>)"
    by (auto simp: queue_attach_def tq_attach_def tq_push_def split: bind_splits if_splits)
  have inv1: "pool_inv (s\<lparr>nodes := ?h\<rparr>) P L B Q"
    by (rule pool_inv_environment[OF inv]) (use f in auto)
  have e: "entry ?h p = entry (nodes s) p" using n by (simp add: entry_def)
  have "pool_inv (set_queue i qu (s\<lparr>nodes := ?h\<rparr>\<lparr>nodes := h\<rparr>))
     (P(i := P i @ map (entry (nodes (s\<lparr>nodes := ?h\<rparr>))) [p])) L B (Q(i := Q i @ [p]))"
    by (rule pool_inv_push_list[OF inv1, where f = p and l = p and k = k])
      (use i f push in \<open>auto simp: finishing_def\<close>)
  then show ?thesis by (simp add: s' e)
qed

lemma pool_inv_wake:
  assumes inv: "pool_inv s P L B Q" and t: "t \<in> set (tq_waiting (pl_queues s i))"
  shows "pool_inv (set_queue i (cv_wake t (pl_queues s i)) s) P L B Q"
proof -
  let ?s = "set_queue i (cv_wake t (pl_queues s i)) s"
  have l: "lanes s P L B Q" and st: "stop_ok s B Q" using inv by (simp_all add: pool_inv_def)
  have c: "cur_list ?s j = cur_list s j" for j by (rule cur_list_cong) simp_all
  have "lanes ?s P L B Q"
    unfolding lanes_def using lane_wake[OF lanesD(1)[OF l] t] l by (auto simp: lanes_def c)
  moreover have "stop_ok ?s B Q"
    using st by (cases "pl_stop s") (simp_all add: stop_ok_def joined_below_def)
  ultimately show ?thesis by (simp add: pool_inv_def)
qed

lemma pool_inv_dtor:
  assumes inv: "pool_inv s P L B Q" and c: "pl_stop s = SIdle \<or> pl_stop s = SDone"
    and f: "\<And>j. pl \<notin> set (B j @ Q j)"
  shows "pool_inv (pool_dtor_begin pl s) P L B Q"
proof -
  let ?s = "pool_dtor_begin pl s"
  have l: "lanes s P L B Q" and st: "stop_ok s B Q" using inv by (simp_all add: pool_inv_def)
  have cur: "cur_list ?s j = cur_list s j" for j
    using c by (auto simp: cur_list_def pool_dtor_begin_def stop_list_def split: worker_pc.splits)
  have "lane (nodes ?s) i (cur_list s i) (pl_pcs s i) (pl_queues s i) (P i) (L i) (B i) (Q i)" for i
    by (rule lane_cong[OF lanesD(1)[OF l]]) (use f in \<open>auto simp: pool_dtor_begin_def\<close>)
  then have "lanes ?s P L B Q" using l by (simp add: lanes_def cur) (simp add: pool_dtor_begin_def)
  moreover have "stop_ok ?s B Q"
    using st f by (auto simp: stop_ok_def joined_below_def pool_dtor_begin_def pill_ok_def deadpill_def)
  ultimately show ?thesis by (simp add: pool_inv_def)
qed

lemma pool_inv_wait_stop:
  assumes inv: "pool_inv s P L B Q" and c: "pl_stop s = SIdle" and w: "wait_stop_begin tid s = Some s'"
  shows "pool_inv s' P L B Q"
proof -
  have s': "s' = s\<lparr>pl_stop := SWait 0\<rparr>" using w by (simp add: wait_stop_begin_def split: if_splits)
  have cur: "cur_list s' j = cur_list s j" for j
    using c by (auto simp: cur_list_def s' stop_list_def split: worker_pc.splits)
  have "lanes s' P L B Q" using inv unfolding pool_inv_def lanes_def cur by (simp add: s')
  moreover have "stop_ok s' B Q" using inv by (simp add: pool_inv_def stop_ok_def joined_below_def s')
  ultimately show ?thesis by (simp add: pool_inv_def)
qed

text \<open>A worker's step keeps the knowledge of the stopping thread if it only gives nodes away.\<close>

lemma stop_ok_work:
  assumes st: "stop_ok s B Q" and i: "i < pl_size s" "pl_pcs s i \<noteq> WExit"
    and s': "pl_size s' = pl_size s" "pl_joinable s' = pl_joinable s" "pl_stop s' = pl_stop s"
    and o: "\<And>j. j \<noteq> i \<Longrightarrow> pl_pcs s' j = pl_pcs s j"
    and b: "set (bs @ qs) \<subseteq> set (B i @ Q i)" "set qs \<subseteq> set (Q i)"
    and pill: "\<And>pl. pill_ok pl (nodes s) \<Longrightarrow> pill_ok pl (nodes s')"
    and j: "\<And>pl. pill_ok pl (nodes s) \<Longrightarrow> stopping (pl_pcs s i) \<or> pl \<in> set (B i @ Q i) \<Longrightarrow>
              stopping (pl_pcs s' i) \<or> pl \<in> set (bs @ qs)"
  shows "stop_ok s' (B(i := bs)) (Q(i := qs))"
proof -
  have jn: "pl_joinable s i" using st i by (auto simp: stop_ok_def)
  then have nf: "\<not> joined_below (pl_size s) s" using i by (auto simp: joined_below_def)
  have jb: "joined_below n s' = joined_below n s" for n using s' by (simp add: joined_below_def)
  have e: "\<forall>k<pl_size s'. \<not> pl_joinable s' k \<longrightarrow> pl_pcs s' k = WExit"
  proof (intro allI impI)
    fix k
    assume "k < pl_size s'" "\<not> pl_joinable s' k"
    then show "pl_pcs s' k = WExit" using jn st s' o[of k] by (cases "k = i") (auto simp: stop_ok_def)
  qed
  have sz: "0 < pl_size s'" using i s' by simp
  show ?thesis
  proof (cases "pl_stop s")
    case (SPush pl k)
    with st b pill e sz s' jb show ?thesis by (auto simp: stop_ok_def)
  next
    case (SJoin pl k)
    have "\<forall>m. m \<noteq> k \<longrightarrow> pl \<notin> set ((B(i := bs)) m @ (Q(i := qs)) m)"
      using st b SJoin by (auto simp: stop_ok_def)
    moreover have "stopping (pl_pcs s' k) \<or> pl \<in> set ((B(i := bs)) k @ (Q(i := qs)) k)"
      using st SJoin j[of pl] o[of k] by (cases "k = i") (auto simp: stop_ok_def)
    ultimately show ?thesis using st SJoin pill e sz s' jb by (simp add: stop_ok_def)
  next
    case (SCancel pl k t)
    have "k \<noteq> i" using st SCancel jn i by (auto simp: stop_ok_def joined_below_def)
    moreover have "pl \<notin> set (B i @ Q i)" using st SCancel \<open>k \<noteq> i\<close> by (simp add: stop_ok_def)
    then have "pl \<notin> set bs" "pl \<notin> set qs" using b by auto
    ultimately show ?thesis using st SCancel pill e sz s' jb by (simp add: stop_ok_def)
  qed (use st nf e sz s' jb in \<open>simp_all add: stop_ok_def\<close>)
qed

lemma cancel_task_frame: "cancel_task p h = Some (e, nxt, h') \<Longrightarrow> a \<noteq> p \<Longrightarrow> h' a = h a"
  by (auto elim: cancel_taskE)

lemma cancel_task_pill: "cancel_task p h = Some (e, nxt, h') \<Longrightarrow> pill_ok pl h \<Longrightarrow> pill_ok pl h'"
  by (cases "pl = p") (auto simp: pill_ok_def elim!: cancel_taskE)

lemma cur_list_worker: "pl_pcs s i \<noteq> WExit \<Longrightarrow> cur_list s i = worker_list (pl_pcs s i)"
  by (cases "pl_pcs s i") (simp_all add: cur_list_def worker_list_def)

lemma cur_list_other:
  "j \<noteq> i \<Longrightarrow> cur_list (set_worker i c s) j = cur_list s j"
  "cur_list (set_queue k q s) j = cur_list s j" "cur_list (s\<lparr>nodes := h\<rparr>) j = cur_list s j"
  by (auto intro!: cur_list_cong)

lemma log_served_upd: "log_served i e L = L(i := case e of None \<Rightarrow> L i | Some x \<Rightarrow> L i @ [x])"
  by (simp add: log_served_def split: option.splits)

lemma pool_inv_workI:
  assumes inv: "pool_inv s P L B Q" and i: "worker_enabled i s"
    and s': "pl_size s' = pl_size s" "pl_joinable s' = pl_joinable s" "pl_stop s' = pl_stop s"
    and o: "\<And>j. j \<noteq> i \<Longrightarrow> pl_pcs s' j = pl_pcs s j \<and> pl_queues s' j = pl_queues s j"
    and b: "set (bs @ qs) \<subseteq> set (B i @ Q i)" "set qs \<subseteq> set (Q i)"
    and h: "\<And>a. a \<notin> set (B i) \<Longrightarrow> nodes s' a = nodes s a"
    and pill: "\<And>pl. pill_ok pl (nodes s) \<Longrightarrow> pill_ok pl (nodes s')"
    and j: "\<And>pl. pill_ok pl (nodes s) \<Longrightarrow> stopping (pl_pcs s i) \<or> pl \<in> set (B i @ Q i) \<Longrightarrow>
              stopping (pl_pcs s' i) \<or> pl \<in> set (bs @ qs)"
    and n: "lane (nodes s') i (cur_list s' i) (pl_pcs s' i) (pl_queues s' i) (P i) L' bs qs"
  shows "pool_inv s' P (L(i := L')) (B(i := bs)) (Q(i := qs))"
proof -
  have l: "lanes s P L B Q" and st: "stop_ok s B Q" using inv by (simp_all add: pool_inv_def)
  have "lanes s' (P(i := P i)) (L(i := L')) (B(i := bs)) (Q(i := qs))"
  proof (rule lanes_update[OF l _ _ n])
    show "cur_list s' k = cur_list s k \<and> pl_pcs s' k = pl_pcs s k \<and> pl_queues s' k = pl_queues s k"
      if "k \<noteq> i" for k
      using o[OF that] s'(3) cur_list_cong by blast
    show "nodes s' a = nodes s a" if "k \<noteq> i" "a \<in> set (B k @ Q k)" for a k
      by (rule h) (use lanesD(2)[OF l that(1)] that(2) in auto)
    show "set (bs @ qs) \<inter> set (B k @ Q k) = {}" if "k \<noteq> i" for k
      using lanesD(2)[OF l that] b(1) by blast
  qed
  moreover have "stop_ok s' (B(i := bs)) (Q(i := qs))"
    by (rule stop_ok_work[OF st _ _ s' _ b pill j]) (use i o in \<open>auto simp: worker_enabled_def\<close>)
  ultimately show ?thesis by (simp add: pool_inv_def)
qed

text \<open>What a step of worker \<open>i\<close> does to the list it works off and to its queue.\<close>

definition work_effect ::
  "worker_pc \<Rightarrow> addr list \<Rightarrow> addr list \<Rightarrow> worker_pc \<Rightarrow> addr list \<Rightarrow> addr list \<Rightarrow> bool" where
  "work_effect c bs qs c' bs' qs' \<longleftrightarrow> (case c of
      WPop \<Rightarrow> bs' = qs \<and> qs' = [] \<and> (qs \<noteq> [] \<longrightarrow> c' = WBatch (hd qs))
    | WBatch p \<Rightarrow> bs = p # bs' \<and> qs' = qs \<and> c' \<noteq> WExit
    | WCancel None \<Rightarrow> bs' = [] \<and> qs' = qs \<and> c' = WExit
    | WCancel (Some p) \<Rightarrow> bs = p # bs' \<and> qs' = qs \<and> (\<exists>t. c' = WCancel t)
    | WExit \<Rightarrow> True)"

lemma pool_inv_work:
  assumes inv: "pool_inv s P L B Q" and i: "worker_enabled i s" and w: "worker_step i s = Some (e, s')"
  shows "\<exists>B' Q'. pool_inv s' P (log_served i e L) B' Q' \<and> pl_stop s' = pl_stop s
     \<and> work_effect (pl_pcs s i) (B i) (Q i) (pl_pcs s' i) (B' i) (Q' i)"
proof -
  have l: "lanes s P L B Q" using inv by (simp add: pool_inv_def)
  have ne: "pl_pcs s i \<noteq> WExit" and nw: "i \<notin> set (tq_waiting (pl_queues s i))"
    using i by (auto simp: worker_enabled_def)
  note lane = lanesD(1)[OF l, of i, unfolded cur_list_worker[OF ne]]
  show ?thesis
  proof (cases "pl_pcs s i")
    case WPop
    obtain p q where pop: "tq_pop_attempt i (pl_queues s i) = (p, q)" by fastforce
    from lane WPop have l1: "lane (nodes s) i None WPop (pl_queues s i) (P i) (L i) (B i) (Q i)"
      by (simp add: worker_list_def)
    note r = lane_pop[OF l1 pop nw]
    let ?c = "case p of None \<Rightarrow> WPop | Some a \<Rightarrow> WBatch a"
    have e: "e = None" and s': "pl_size s' = pl_size s" "pl_joinable s' = pl_joinable s" "pl_stop s' = pl_stop s"
      "nodes s' = nodes s" "pl_pcs s' i = ?c" "pl_queues s' i = q"
      "\<And>j. j \<noteq> i \<Longrightarrow> pl_pcs s' j = pl_pcs s j \<and> pl_queues s' j = pl_queues s j"
      using w WPop pop by (auto simp: worker_step_def split: option.splits)
    have "cur_list s' i = p" using s'(5) by (cases p) (simp_all add: cur_list_def)
    then have "pool_inv s' P (L(i := L i)) (B(i := Q i)) (Q(i := []))"
      by (intro pool_inv_workI[OF inv i s'(1-3) s'(7)]) (use r s' WPop in \<open>simp_all add: stopping_def\<close>)
    moreover have "work_effect WPop (B i) (Q i) (pl_pcs s' i) (Q i) []"
      using r(2) s'(5) lseg_hd[of "next_of (nodes s)" p "Q i"]
      by (auto simp: work_effect_def lane_def split: list.splits)
    ultimately show ?thesis using e s'(3) WPop
      by (intro exI[of _ "B(i := Q i)"] exI[of _ "Q(i := [])"]) (simp add: log_served_def)
  next
    case (WBatch p)
    from w WBatch obtain x c where run: "run_task p (nodes s) = Some (x, c)" and e: "e = Some x"
      and s': "s' = set_worker i c s" by (auto simp: worker_step_def split: bind_splits)
    from lane WBatch lane_run[of "nodes s" i p "pl_queues s i" "P i" "L i" "B i" "Q i", OF _ run] obtain bs where
      bs: "B i = p # bs" "lane (nodes s) i (worker_list c) c (pl_queues s i) (P i) (L i @ [x]) bs (Q i)" "c \<noteq> WExit"
      by (auto simp: worker_list_def)
    have "cur_list s' i = worker_list c" using bs(3) s' by (simp add: cur_list_worker)
    moreover have "stopping c \<or> pl \<in> set (bs @ Q i)"
      if "pill_ok pl (nodes s)" "stopping (pl_pcs s i) \<or> pl \<in> set (B i @ Q i)" for pl
      using that run WBatch bs(1)
      by (auto simp: stopping_def pill_ok_def run_task_def split: bind_splits option.splits)
    ultimately have "pool_inv s' P (L(i := L i @ [x])) (B(i := bs)) (Q(i := Q i))"
      by (intro pool_inv_workI[OF inv i]) (use bs s' in auto)
    then show ?thesis using e s' WBatch bs
      by (intro exI[of _ "B(i := bs)"] exI[of _ "Q(i := Q i)"]) (simp add: log_served_def work_effect_def)
  next
    case (WCancel t)
    show ?thesis
    proof (cases t)
      case None
      with w WCancel have e: "e = None" and s': "s' = set_worker i WExit s" by (auto simp: worker_step_def)
      from lane WCancel None have l1: "lane (nodes s) i None (WCancel None) (pl_queues s i) (P i) (L i) (B i) (Q i)"
        by (simp add: worker_list_def)
      note r = lane_exit[OF l1]
      have "stop_list (pl_stop s) i = None"
      proof -
        have "pl_joinable s i" using inv i ne by (auto simp: pool_inv_def stop_ok_def worker_enabled_def)
        then show ?thesis
          using inv i by (cases "pl_stop s") (auto simp: pool_inv_def stop_ok_def worker_enabled_def
              joined_below_def stop_list_def)
      qed
      then have "cur_list s' i = None" using s' by (simp add: cur_list_def)
      then have "pool_inv s' P (L(i := L i)) (B(i := [])) (Q(i := Q i))"
        by (intro pool_inv_workI[OF inv i]) (use r s' in \<open>auto simp: stopping_def\<close>)
      then show ?thesis using e s' WCancel None
        by (intro exI[of _ "B(i := [])"] exI[of _ "Q(i := Q i)"]) (simp add: log_served_def work_effect_def)
    next
      case (Some p)
      from w WCancel Some obtain x nxt h where ct: "cancel_task p (nodes s) = Some (x, nxt, h)"
        and e: "e = Some x" and s': "s' = set_worker i (WCancel nxt) (s\<lparr>nodes := h\<rparr>)"
        by (auto simp: worker_step_def split: bind_splits)
      from lane WCancel Some have "lane (nodes s) i (Some p) (WCancel (Some p)) (pl_queues s i) (P i) (L i) (B i) (Q i)"
        by (simp add: worker_list_def)
      from lane_cancel[OF this _ _ ct, of "WCancel nxt"] obtain bs where
        bs: "B i = p # bs" "lane h i nxt (WCancel nxt) (pl_queues s i) (P i) (L i @ [x]) bs (Q i)" by auto
      note h = cancel_task_frame[OF ct] and pl = cancel_task_pill[OF ct]
      have "cur_list s' i = nxt" using s' by (simp add: cur_list_def)
      then have "pool_inv s' P (L(i := L i @ [x])) (B(i := bs)) (Q(i := Q i))"
        by (intro pool_inv_workI[OF inv i]) (use bs s' h pl in \<open>auto simp: stopping_def\<close>)
      then show ?thesis using e s' WCancel Some bs
        by (intro exI[of _ "B(i := bs)"] exI[of _ "Q(i := Q i)"]) (simp add: log_served_def work_effect_def)
    qed
  qed (use ne in simp)
qed

text \<open>The steps of the stopping thread.\<close>

lemma lanes_stop:
  assumes l: "lanes s P L B Q" and s': "nodes s' = nodes s" "pl_queues s' = pl_queues s" "pl_pcs s' = pl_pcs s"
    and c: "\<And>j. stop_list (pl_stop s') j = stop_list (pl_stop s) j"
  shows "lanes s' P L B Q"
proof -
  have "cur_list s' j = cur_list s j" for j using s' c by (cases "pl_pcs s j") (simp_all add: cur_list_def)
  with l s' show ?thesis by (simp add: lanes_def)
qed

lemma joined_belowD: "joined_below n s \<Longrightarrow> stop_ok s B Q \<Longrightarrow> j < n \<Longrightarrow> j < pl_size s \<Longrightarrow> pl_pcs s j = WExit"
  by (auto simp: joined_below_def stop_ok_def)

lemma joined_below_Suc:
  "joined_below n s \<Longrightarrow> (n < pl_size s \<Longrightarrow> \<not> pl_joinable s n) \<Longrightarrow> joined_below (Suc n) s"
  by (auto simp: joined_below_def less_Suc_eq)

lemma joined_below_all: "joined_below n s \<Longrightarrow> pl_size s \<le> n \<Longrightarrow> joined_below (pl_size s) s"
  by (auto simp: joined_below_def)

text \<open>Popping a queue whose worker has returned, and cancelling one of its nodes.\<close>

lemma lanes_stop_pop:
  assumes l: "lanes s P L B Q" and c: "pl_pcs s i = WExit" "\<And>j. stop_list (pl_stop s) j = None"
    and p: "tq_pop_all (pl_queues s i) = (t, q)"
    and s': "nodes s' = nodes s" "pl_queues s' = (pl_queues s)(i := q)" "pl_pcs s' = pl_pcs s"
    and c': "\<And>j. stop_list (pl_stop s') j = (if j = i then t else None)"
  shows "lanes s' P L (B(i := Q i)) (Q(i := []))"
proof -
  have "cur_list s i = None" using c by (simp add: cur_list_def)
  with lanesD(1)[OF l, of i] c(1)
  have "lane (nodes s) i None WExit (pl_queues s i) (P i) (L i) (B i) (Q i)" by simp
  note r = lane_pop_all[OF this p]
  have o: "cur_list s' j = cur_list s j" if "j \<noteq> i" for j
    using that c(2) c' s' by (cases "pl_pcs s j") (simp_all add: cur_list_def)
  have "cur_list s' i = t" using c c' s' by (simp add: cur_list_def)
  then have "lanes s' (P(i := P i)) (L(i := L i)) (B(i := Q i)) (Q(i := []))"
    by (intro lanes_update[OF l]) (use r o c s' lanesD(2)[OF l, of i] in auto)
  then show ?thesis by simp
qed

lemma lanes_stop_cancel:
  assumes l: "lanes s P L B Q" and c: "pl_pcs s i = WExit"
    and sl: "\<And>j. stop_list (pl_stop s) j = (if j = i then Some p else None)"
    and ct: "cancel_task p (nodes s) = Some (x, nxt, h)"
    and s': "nodes s' = h" "pl_queues s' = pl_queues s" "pl_pcs s' = pl_pcs s"
    and c': "\<And>j. stop_list (pl_stop s') j = (if j = i then nxt else None)"
  shows "\<exists>bs. B i = p # bs \<and> lanes s' P (L(i := L i @ [x])) (B(i := bs)) Q"
proof -
  have "cur_list s i = Some p" using c sl by (simp add: cur_list_def)
  with lanesD(1)[OF l, of i] c
  have "lane (nodes s) i (Some p) WExit (pl_queues s i) (P i) (L i) (B i) (Q i)" by simp
  from lane_cancel[OF this _ _ ct, of WExit] obtain bs where
    bs: "B i = p # bs" "lane h i nxt WExit (pl_queues s i) (P i) (L i @ [x]) bs (Q i)" by auto
  have o: "cur_list s' j = cur_list s j" if "j \<noteq> i" for j
    using that sl c' s' by (cases "pl_pcs s j") (simp_all add: cur_list_def)
  have cur: "cur_list s' i = nxt" using c c' s' by (simp add: cur_list_def)
  have "lanes s' (P(i := P i)) (L(i := L i @ [x])) (B(i := bs)) (Q(i := Q i))"
  proof (rule lanes_update[OF l])
    show "nodes s' a = nodes s a" if "j \<noteq> i" "a \<in> set (B j @ Q j)" for a j
    proof -
      have "a \<noteq> p" using lanesD(2)[OF l that(1)] that(2) bs(1) by auto
      with cancel_task_frame[OF ct] s' show ?thesis by simp
    qed
    show "set (bs @ Q i) \<inter> set (B j @ Q j) = {}" if "j \<noteq> i" for j
      using lanesD(2)[OF l that] bs(1) by auto
  qed (use bs o cur c s' in auto)
  with bs show ?thesis by auto
qed

lemma pool_inv_stop_push:
  assumes inv: "pool_inv s P L B Q" and c: "pl_stop s = SPush pl i" and i: "i < pl_size s" "pl_joinable s i"
    and w: "stop_step k s = Some (e, s')"
  shows "pool_inv s' (P(i := P i @ [entry (nodes s) pl])) L B (Q(i := Q i @ [pl]))"
proof -
  have l: "lanes s P L B Q" and st: "stop_ok s B Q" using inv by (simp_all add: pool_inv_def)
  have pill: "pill_ok pl (nodes s)" "\<And>j. pl \<notin> set (B j @ Q j)" using st c by (auto simp: stop_ok_def)
  then obtain n where n: "nodes s pl = Some n" by (auto simp: pill_ok_def)
  let ?h = "(nodes s)(pl \<mapsto> n\<lparr>nd_next := None\<rparr>)"
  from w c i n obtain q h where push: "tq_push_list k (pl_queues s i) pl pl ?h = Some (q, h)"
    and s': "s' = set_stop (SJoin pl i) (set_queue i q (s\<lparr>nodes := h\<rparr>))"
    by (auto simp: stop_step_def tq_push_def split: bind_splits)
  have as: "node_list ?h (Some pl) [pl]" by simp
  have d: "set [pl] \<inter> set (B j @ Q j) = {}" for j using pill(2)[of j] by simp
  have l1: "lane ?h j (cur_list s j) (pl_pcs s j) (pl_queues s j) (P j) (L j) (B j) (Q j)" for j
    by (rule lane_cong[OF lanesD(1)[OF l]]) (use pill(2) in auto)
  note lp = lane_push_list[OF l1 as _ d push, simplified]
  have e: "entry ?h pl = entry (nodes s) pl" using n by (simp add: entry_def)
  have cur: "cur_list s' j = cur_list s j" for j
    using c by (cases "pl_pcs s j") (simp_all add: s' cur_list_def stop_list_def)
  have "lanes s' (P(i := P i @ [entry (nodes s) pl])) (L(i := L i)) (B(i := B i)) (Q(i := Q i @ [pl]))"
  proof (rule lanes_update[OF l])
    show "nodes s' a = nodes s a" if "j \<noteq> i" "a \<in> set (B j @ Q j)" for a j
    proof -
      have "a \<noteq> pl" using that(2) pill(2) by auto
      moreover have "a \<notin> set (Q i)" using lanesD(2)[OF l that(1)] that(2) by auto
      ultimately show ?thesis using lp(2)[of a] by (simp add: s')
    qed
    show "lane (nodes s') i (cur_list s' i) (pl_pcs s' i) (pl_queues s' i)
        (P i @ [entry (nodes s) pl]) (L i) (B i) (Q i @ [pl])"
      unfolding cur using lp(1) by (simp add: e s')
    show "set (B i @ Q i @ [pl]) \<inter> set (B j @ Q j) = {}" if "j \<noteq> i" for j
      using lanesD(2)[OF l that] pill(2)[of j] by auto
    show "cur_list s' j = cur_list s j \<and> pl_pcs s' j = pl_pcs s j \<and> pl_queues s' j = pl_queues s j"
      if "j \<noteq> i" for j using cur[of j] that by (simp add: s')
  qed
  moreover have "stop_ok s' B (Q(i := Q i @ [pl]))"
  proof -
    have "pill_ok pl ?h" using pill(1) n by (auto simp: pill_ok_def)
    then have "pill_ok pl h" using pill_ok_same_payload[OF lp(3)] by simp
    then show ?thesis using st c i pill(2) by (auto simp: stop_ok_def s' joined_below_def)
  qed
  ultimately show ?thesis by (simp add: pool_inv_def)
qed

lemma pool_inv_stop:
  assumes inv: "pool_inv s P L B Q" and en: "stop_enabled s"
    and np: "\<And>pl i. pl_stop s = SPush pl i \<Longrightarrow> \<not> (i < pl_size s \<and> pl_joinable s i)"
    and w: "stop_step k s = Some (e, s')"
  shows "\<exists>B' Q'. pool_inv s' P (case e of None \<Rightarrow> L | Some (i, x) \<Rightarrow> log_served i (Some x) L) B' Q'"
proof -
  have l: "lanes s P L B Q" and st: "stop_ok s B Q" using inv by (simp_all add: pool_inv_def)
  have sz: "0 < pl_size s" and je: "\<And>j. j < pl_size s \<Longrightarrow> \<not> pl_joinable s j \<Longrightarrow> pl_pcs s j = WExit"
    using st by (auto simp: stop_ok_def)
  show ?thesis
  proof (cases "pl_stop s")
    case (SPush pl i)
    have jb: "joined_below i s" and pill: "pill_ok pl (nodes s)" "\<forall>j. pl \<notin> set (B j @ Q j)"
      using st SPush by (auto simp: stop_ok_def)
    show ?thesis
    proof (cases "i < pl_size s")
      case True
      then have nj: "\<not> pl_joinable s i" using np[OF SPush] by simp
      then have s': "s' = set_stop (SPush pl (Suc i)) s" "e = None"
        using w SPush True by (auto simp: stop_step_def)
      have "lanes s' P L B Q" by (rule lanes_stop[OF l]) (use SPush in \<open>simp_all add: s' stop_list_def\<close>)
      moreover have "joined_below (Suc i) s" by (rule joined_below_Suc[OF jb]) (use nj in simp)
      then have "stop_ok s' B Q" using pill sz je by (simp add: stop_ok_def s' joined_below_def)
      ultimately show ?thesis using s' by (auto simp: pool_inv_def)
    next
      case False
      then have s': "s' = set_stop (SPop 0) s" "e = None" using w SPush by (auto simp: stop_step_def)
      have "lanes s' P L B Q" by (rule lanes_stop[OF l]) (use SPush in \<open>simp_all add: s' stop_list_def\<close>)
      moreover have "stop_ok s' B Q"
        using joined_below_all[OF jb] False sz je by (simp add: stop_ok_def s' joined_below_def)
      ultimately show ?thesis using s' by (auto simp: pool_inv_def)
    qed
  next
    case (SJoin pl i)
    have i: "i < pl_size s" and jb: "joined_below i s" and pill: "pill_ok pl (nodes s)"
      "\<forall>j. j \<noteq> i \<longrightarrow> pl \<notin> set (B j @ Q j)" using st SJoin by (auto simp: stop_ok_def)
    have ex: "pl_pcs s i = WExit" using en SJoin by (simp add: stop_enabled_def)
    obtain t q where pop: "tq_pop_all (pl_queues s i) = (t, q)" by fastforce
    have s': "s' = set_stop (SCancel pl i t) (set_queue i q (join_thread i s))" "e = None"
      using w SJoin pop by (auto simp: stop_step_def)
    have "lanes s' P L (B(i := Q i)) (Q(i := []))"
      by (rule lanes_stop_pop[OF l ex _ pop]) (use SJoin in \<open>simp_all add: s' stop_list_def\<close>)
    moreover have "joined_below (Suc i) s'"
      by (rule joined_below_Suc) (use jb in \<open>auto simp: s' joined_below_def\<close>)
    then have "stop_ok s' (B(i := Q i)) (Q(i := []))"
      using pill i ex je by (auto simp: stop_ok_def s')
    ultimately show ?thesis using s' by (auto simp: pool_inv_def)
  next
    case (SCancel pl i t)
    have i: "i < pl_size s" and jb: "joined_below (Suc i) s" and pill: "pill_ok pl (nodes s)"
      "\<forall>j. pl \<notin> set (Q j)" "\<forall>j. j \<noteq> i \<longrightarrow> pl \<notin> set (B j)"
      using st SCancel by (auto simp: stop_ok_def)
    have ex: "pl_pcs s i = WExit" using joined_belowD[OF jb st] i by simp
    show ?thesis
    proof (cases t)
      case None
      then have s': "s' = set_stop (SPush pl (Suc i)) s" "e = None"
        using w SCancel by (auto simp: stop_step_def)
      have "lanes s' P L B Q"
        by (rule lanes_stop[OF l]) (use SCancel None in \<open>simp_all add: s' stop_list_def\<close>)
      moreover have "B i = []"
        using lanesD(1)[OF l, of i] ex SCancel None by (simp add: lane_def cur_list_def stop_list_def)
      then have "pl \<notin> set (B j)" for j using pill(3) by (cases "j = i") auto
      then have "stop_ok s' B Q" using pill jb sz je by (auto simp: stop_ok_def s' joined_below_def)
      ultimately show ?thesis using s' by (auto simp: pool_inv_def)
    next
      case (Some p)
      with w SCancel obtain x nxt h where ct: "cancel_task p (nodes s) = Some (x, nxt, h)"
        and s': "s' = set_stop (SCancel pl i nxt) (s\<lparr>nodes := h\<rparr>)" "e = Some (i, x)"
        by (auto simp: stop_step_def split: bind_splits)
      have "\<exists>bs. B i = p # bs \<and> lanes s' P (L(i := L i @ [x])) (B(i := bs)) Q"
        by (rule lanes_stop_cancel[OF l ex _ ct]) (use SCancel Some in \<open>auto simp: s' stop_list_def\<close>)
      then obtain bs where bs: "B i = p # bs" "lanes s' P (L(i := L i @ [x])) (B(i := bs)) Q" by blast
      have "stop_ok s' (B(i := bs)) Q"
        using pill jb i sz je cancel_task_pill[OF ct] by (auto simp: stop_ok_def s' joined_below_def)
      with bs(2) s' show ?thesis by (auto simp: pool_inv_def log_served_def)
    qed
  next
    case (SWait i)
    have jb: "joined_below i s" using st SWait by (simp add: stop_ok_def)
    show ?thesis
    proof (cases "i < pl_size s")
      case True
      then have s': "s' = set_stop (SWait (Suc i)) (if pl_joinable s i then join_thread i s else s)" "e = None"
        using w SWait by (auto simp: stop_step_def)
      have "lanes s' P L B Q" by (rule lanes_stop[OF l]) (use SWait in \<open>simp_all add: s' stop_list_def\<close>)
      moreover have "joined_below (Suc i) s'"
        by (rule joined_below_Suc) (use jb in \<open>auto simp: s' joined_below_def\<close>)
      moreover have "pl_joinable s i \<longrightarrow> pl_pcs s i = WExit"
        using en SWait True by (simp add: stop_enabled_def)
      ultimately have "lanes s' P L B Q" "stop_ok s' B Q" using s' sz je by (auto simp: stop_ok_def)
      then show ?thesis using s'(2) by (auto simp: pool_inv_def)
    next
      case False
      then have s': "s' = set_stop (SPop 0) s" "e = None" using w SWait by (auto simp: stop_step_def)
      have "lanes s' P L B Q" by (rule lanes_stop[OF l]) (use SWait in \<open>simp_all add: s' stop_list_def\<close>)
      moreover have "stop_ok s' B Q"
        using joined_below_all[OF jb] False sz je by (simp add: stop_ok_def s' joined_below_def)
      ultimately show ?thesis using s' by (auto simp: pool_inv_def)
    qed
  next
    case (SPop i)
    have jb: "joined_below (pl_size s) s" and em: "\<forall>j<i. j < pl_size s \<longrightarrow> Q j = []"
      using st SPop by (auto simp: stop_ok_def)
    show ?thesis
    proof (cases "i < pl_size s")
      case True
      have ex: "pl_pcs s i = WExit" using joined_belowD[OF jb st] True by simp
      obtain t q where pop: "tq_pop_all (pl_queues s i) = (t, q)" by fastforce
      have s': "s' = set_stop (SFinal i t) (set_queue i q s)" "e = None"
        using w SPop pop True by (auto simp: stop_step_def)
      have "lanes s' P L (B(i := Q i)) (Q(i := []))"
        by (rule lanes_stop_pop[OF l ex _ pop]) (use SPop in \<open>simp_all add: s' stop_list_def\<close>)
      moreover have "stop_ok s' (B(i := Q i)) (Q(i := []))"
        using jb em True je by (auto simp: stop_ok_def s' joined_below_def)
      ultimately show ?thesis using s' by (auto simp: pool_inv_def)
    next
      case False
      then have s': "s' = set_stop SDone s" "e = None" using w SPop by (auto simp: stop_step_def)
      have "lanes s' P L B Q" by (rule lanes_stop[OF l]) (use SPop in \<open>simp_all add: s' stop_list_def\<close>)
      moreover have "stop_ok s' B Q" using jb em False sz je by (auto simp: stop_ok_def s' joined_below_def)
      ultimately show ?thesis using s' by (auto simp: pool_inv_def)
    qed
  next
    case (SFinal i t)
    have jb: "joined_below (pl_size s) s" and i: "i < pl_size s" and em: "\<forall>j\<le>i. j < pl_size s \<longrightarrow> Q j = []"
      using st SFinal by (auto simp: stop_ok_def)
    have ex: "pl_pcs s i = WExit" using joined_belowD[OF jb st] i by simp
    show ?thesis
    proof (cases t)
      case None
      then have s': "s' = set_stop (SPop (Suc i)) s" "e = None" using w SFinal by (auto simp: stop_step_def)
      have "lanes s' P L B Q"
        by (rule lanes_stop[OF l]) (use SFinal None in \<open>simp_all add: s' stop_list_def\<close>)
      moreover have "stop_ok s' B Q" using jb em sz je by (auto simp: stop_ok_def s' joined_below_def)
      ultimately show ?thesis using s' by (auto simp: pool_inv_def)
    next
      case (Some p)
      with w SFinal obtain x nxt h where ct: "cancel_task p (nodes s) = Some (x, nxt, h)"
        and s': "s' = set_stop (SFinal i nxt) (s\<lparr>nodes := h\<rparr>)" "e = Some (i, x)"
        by (auto simp: stop_step_def split: bind_splits)
      have "\<exists>bs. B i = p # bs \<and> lanes s' P (L(i := L i @ [x])) (B(i := bs)) Q"
        by (rule lanes_stop_cancel[OF l ex _ ct]) (use SFinal Some in \<open>auto simp: s' stop_list_def\<close>)
      then obtain bs where bs: "lanes s' P (L(i := L i @ [x])) (B(i := bs)) Q" by blast
      moreover have "stop_ok s' (B(i := bs)) Q" using jb em i je by (auto simp: stop_ok_def s' joined_below_def)
      ultimately show ?thesis using s' by (auto simp: pool_inv_def log_served_def)
    qed
  qed (use en in \<open>simp_all add: stop_enabled_def\<close>)
qed

theorem pool_reach_inv: "pool_reach s P L \<Longrightarrow> \<exists>B Q. pool_inv s P L B Q"
proof (induction rule: pool_reach.induct)
  case (init n h)
  show ?case using pool_ctor_inv by blast
next
  case (environment s P L B Q h)
  then obtain B' Q' where inv: "pool_inv s P L B' Q'" by blast
  then have "B' = B" "Q' = Q"
    using pool_lists_unique[OF environment.hyps(2) lanes_lists] by (auto simp: pool_inv_def)
  with inv pool_inv_environment environment.hyps(3) show ?case by blast
next
  case (push_list s P L B Q i f as l k q h)
  then obtain B' Q' where inv: "pool_inv s P L B' Q'" by blast
  then have "B' = B" "Q' = Q"
    using pool_lists_unique[OF push_list.hyps(2) lanes_lists] by (auto simp: pool_inv_def)
  with pool_inv_push_list[OF inv push_list.hyps(4,5,6) _ push_list.hyps(8)] push_list.hyps(7)
  show ?case by blast
next
  case (attach s P L B Q p k s' i)
  then obtain B' Q' where inv: "pool_inv s P L B' Q'" by blast
  then have "B' = B" "Q' = Q"
    using pool_lists_unique[OF attach.hyps(2) lanes_lists] by (auto simp: pool_inv_def)
  with pool_inv_attach[OF inv attach.hyps(3,4) _ attach.hyps(6,7)] attach.hyps(5) show ?case by blast
next
  case (work s P L i e s')
  then show ?case using pool_inv_work by blast
next
  case (spurious_wakeup s P L t i)
  then show ?case using pool_inv_wake by blast
next
  case (dtor s P L B Q pl)
  then obtain B' Q' where inv: "pool_inv s P L B' Q'" by blast
  then have "B' = B" "Q' = Q"
    using pool_lists_unique[OF dtor.hyps(2) lanes_lists] by (auto simp: pool_inv_def)
  with pool_inv_dtor[OF inv dtor.hyps(3)] dtor.hyps(4) show ?case by blast
next
  case (wait_stop s P L tid s')
  then show ?case using pool_inv_wait_stop by blast
next
  case (stop_push s P L pl i k e s')
  then show ?case using pool_inv_stop_push by blast
next
  case (stop s P L k e s')
  then show ?case using pool_inv_stop by blast
qed

section \<open>No undefined behaviour, no deadlock\<close>

lemma worker_awake:
  assumes inv: "pool_inv s P L B Q" and i: "i < pl_size s" "pl_pcs s i \<noteq> WExit"
    and q: "pl_pcs s i = WPop \<Longrightarrow> Q i \<noteq> []"
  shows "worker_enabled i s"
proof -
  have l: "lane (nodes s) i (cur_list s i) (pl_pcs s i) (pl_queues s i) (P i) (L i) (B i) (Q i)"
    using inv lanesD(1) by (simp add: pool_inv_def)
  have "i \<notin> set (tq_waiting (pl_queues s i))"
  proof
    assume w: "i \<in> set (tq_waiting (pl_queues s i))"
    then have "pl_pcs s i = WPop" using l by (auto simp: lane_def cv_ok_def)
    with q have "tq_first (pl_queues s i) \<noteq> None" using l by (auto simp: lane_def tq_holds_def)
    with w l have "tq_woken (pl_queues s i) \<noteq> []" "tq_awake (pl_queues s i)"
      by (auto simp: lane_def cv_ok_def tq_awake_def)
    moreover have "set (tq_woken (pl_queues s i)) \<subseteq> {i}" using l by (simp add: lane_def cv_ok_def)
    ultimately have "i \<in> set (tq_woken (pl_queues s i))" by (cases "tq_woken (pl_queues s i)") auto
    with w \<open>tq_awake (pl_queues s i)\<close> show False by (auto simp: tq_awake_def)
  qed
  with i show ?thesis by (simp add: worker_enabled_def)
qed

lemma cur_list_live:
  assumes "pool_inv s P L B Q" "cur_list s i = Some p"
  shows "\<exists>n. nodes s p = Some n"
proof -
  have "node_list (nodes s) (Some p) (B i)"
    using assms lanesD(1)[of s P L B Q i] by (simp add: pool_inv_def lane_def)
  then show ?thesis by (auto simp: lseg_Some_iff next_of_Some)
qed

lemma worker_step_defined:
  assumes inv: "pool_inv s P L B Q"
  shows "\<exists>e s'. worker_step i s = Some (e, s')"
proof (cases "pl_pcs s i")
  case WPop
  then show ?thesis by (auto simp: worker_step_def split: prod.splits option.splits)
next
  case (WBatch p)
  with cur_list_live[OF inv, of i p] obtain n where "nodes s p = Some n" by (auto simp: cur_list_def)
  with WBatch show ?thesis by (simp add: worker_step_def run_task_def)
next
  case (WCancel t)
  then show ?thesis
    using cur_list_live[OF inv, of i] by (cases t) (auto simp: worker_step_def cancel_task_def cur_list_def)
qed (simp add: worker_step_def)

lemma stop_list_cur:
  "pool_inv s P L B Q \<Longrightarrow> stop_list (pl_stop s) i = Some p \<Longrightarrow> cur_list s i = Some p"
  by (cases "pl_stop s") (auto simp: pool_inv_def stop_ok_def joined_below_def stop_list_def cur_list_def
      split: if_splits)

lemma stop_step_defined:
  assumes inv: "pool_inv s P L B Q"
  shows "\<exists>e s'. stop_step k s = Some (e, s')"
proof -
  have live: "\<exists>n. nodes s p = Some n" if "stop_list (pl_stop s) i = Some p" for i p
    using cur_list_live[OF inv stop_list_cur[OF inv that]] .
  show ?thesis
  proof (cases "pl_stop s")
    case (SPush pl i)
    have st: "pill_ok pl (nodes s)" "pl \<notin> set (B i @ Q i)"
      using inv SPush by (auto simp: pool_inv_def stop_ok_def)
    then obtain n where n: "nodes s pl = Some n" by (auto simp: pill_ok_def)
    have "tq_holds (pl_queues s i) (nodes s) (Q i)"
      using inv lanesD(1)[of s P L B Q i] by (simp add: pool_inv_def lane_def)
    from task_queue.push_holds[OF this n, of k] st SPush show ?thesis by (auto simp: stop_step_def)
  next
    case (SCancel pl i t)
    then show ?thesis using live[of i]
      by (cases t) (auto simp: stop_step_def cancel_task_def stop_list_def)
  next
    case (SFinal i t)
    then show ?thesis using live[of i]
      by (cases t) (auto simp: stop_step_def cancel_task_def stop_list_def)
  qed (auto simp: stop_step_def split: prod.splits)
qed

text \<open>
  The rank of a worker that the stopping thread waits for: how far it is from the pill \<open>pl\<close>, which is
  in its queue (2), in the list it works off (1), or behind it (0).
\<close>

definition worker_rank :: "worker_pc \<Rightarrow> addr list \<Rightarrow> addr \<Rightarrow> nat \<times> nat" where
  "worker_rank c bs pl = (if c = WExit then (0, 0) else if stopping c then (0, Suc (length bs))
     else if pl \<in> set bs then (1, length bs) else (2, length bs))"

definition worker_moves :: "nat \<Rightarrow> pool \<Rightarrow> pool \<Rightarrow> bool" where
  "worker_moves i s s' \<longleftrightarrow> worker_enabled i s \<and> (\<exists>e. worker_step i s = Some (e, s'))"

lemma worker_rank_less:
  assumes inv: "pool_inv s P L B Q" and j: "pl_stop s = SJoin pl i" and ne: "pl_pcs s i \<noteq> WExit"
  shows "\<exists>s' L' B' Q'. worker_moves i s s' \<and> pool_inv s' P L' B' Q' \<and> pl_stop s' = SJoin pl i
     \<and> (worker_rank (pl_pcs s' i) (B' i) pl, worker_rank (pl_pcs s i) (B i) pl) \<in> less_than <*lex*> less_than"
proof -
  have i: "i < pl_size s" and w: "stopping (pl_pcs s i) \<or> pl \<in> set (B i @ Q i)"
    using inv j by (auto simp: pool_inv_def stop_ok_def)
  have ln: "node_list (nodes s) (cur_list s i) (B i)" and d: "distinct (B i @ Q i)"
    using inv lanesD(1)[of s P L B Q i] by (auto simp: pool_inv_def lane_def)
  have "worker_enabled i s"
  proof (rule worker_awake[OF inv i ne])
    assume "pl_pcs s i = WPop"
    with w ln show "Q i \<noteq> []" by (auto simp: stopping_def cur_list_def)
  qed
  moreover obtain e s' where e: "worker_step i s = Some (e, s')" using worker_step_defined[OF inv] by blast
  ultimately obtain B' Q' where inv': "pool_inv s' P (log_served i e L) B' Q'" and st: "pl_stop s' = pl_stop s"
    and eff: "work_effect (pl_pcs s i) (B i) (Q i) (pl_pcs s' i) (B' i) (Q' i)"
    using pool_inv_work[OF inv] by blast
  have w': "stopping (pl_pcs s' i) \<or> pl \<in> set (B' i @ Q' i)"
    using inv' st j by (auto simp: pool_inv_def stop_ok_def)
  have "(worker_rank (pl_pcs s' i) (B' i) pl, worker_rank (pl_pcs s i) (B i) pl) \<in> less_than <*lex*> less_than"
  proof (cases "pl_pcs s i")
    case WPop
    then have "B i = []" using ln by (simp add: cur_list_def)
    with WPop eff w show ?thesis by (cases "Q i") (auto simp: work_effect_def worker_rank_def stopping_def)
  next
    case (WBatch p)
    with eff w w' d show ?thesis by (auto simp: work_effect_def worker_rank_def stopping_def)
  next
    case (WCancel t)
    with eff show ?thesis by (cases t) (auto simp: work_effect_def worker_rank_def stopping_def)
  qed (use ne in simp)
  with inv' st j e \<open>worker_enabled i s\<close> show ?thesis unfolding worker_moves_def by metis
qed

lemma worker_reaches_exit:
  assumes "pool_inv s P L B Q" and "pl_stop s = SJoin pl i"
  shows "\<exists>s'. (worker_moves i)\<^sup>*\<^sup>* s s' \<and> pl_pcs s' i = WExit"
  using assms
proof (induction "worker_rank (pl_pcs s i) (B i) pl" arbitrary: s L B Q
    rule: wf_induct_rule[OF wf_lex_prod[OF wf_less_than wf_less_than]])
  case (1 s B L Q)
  show ?case
  proof (cases "pl_pcs s i = WExit")
    case True
    then show ?thesis by blast
  next
    case False
    from worker_rank_less[OF "1.prems"(1,2) this] obtain s1 L1 B1 Q1 where
      "worker_moves i s s1" "pool_inv s1 P L1 B1 Q1" "pl_stop s1 = SJoin pl i"
      "(worker_rank (pl_pcs s1 i) (B1 i) pl, worker_rank (pl_pcs s i) (B i) pl) \<in> less_than <*lex*> less_than"
      by blast
    with "1.hyps"[OF this(4) this(2,3)] show ?thesis by (meson converse_rtranclp_into_rtranclp)
  qed
qed

section \<open>Properties\<close>

text \<open>
  C13. In every reachable state of a thread pool every queue is first in first out and nothing is lost
  or served twice: what has been pushed to queue \<open>i\<close> is what has been served from it, followed by the
  nodes of the list being worked off and by the nodes in the queue, in this order; what was served
  was served with its own task, and the nodes still held are all different.
\<close>

theorem thread_pool_fifo_exactly_once:
  assumes "pool_reach s P L"
  shows "\<exists>B Q done. pool_lists s B Q \<and> P i = done @ map (entry (nodes s)) (B i @ Q i)
     \<and> list_all2 served_as done (L i) \<and> distinct (B i @ Q i)"
proof -
  from pool_reach_inv[OF assms] obtain B Q where l: "lanes s P L B Q" by (auto simp: pool_inv_def)
  from lanesD(1)[OF l, of i] lanes_lists[OF l] show ?thesis
    unfolding lane_def history_def by blast
qed

text \<open>
  Everything that was pushed to a queue behind a dead pill is cancelled, never run: in particular
  the coroutine of \<open>request_stop\<close>, whose node is pushed right behind its pill, is resumed with the
  status \<open>cancelled\<close>, as \<open>deadpill_pusher::await_resume\<close> asserts.
\<close>

theorem thread_pool_cancels_behind_pill:
  assumes "pool_reach s P L" and "k < m" and "m < length (L i)" and "fst (snd (P i ! k)) = None"
  shows "L i ! m = Cancel (fst (P i ! m)) (fst (snd (P i ! m))) cancelled"
proof -
  from pool_reach_inv[OF assms(1)] obtain B Q where l: "lanes s P L B Q" by (auto simp: pool_inv_def)
  from lanesD(1)[OF l, of i] obtain pre where P: "P i = pre @ map (entry (nodes s)) (B i @ Q i)"
    and pre: "list_all2 served_as pre (L i)" and sh: "log_shape (pl_pcs s i) (L i)"
    unfolding lane_def history_def by blast
  have len: "length pre = length (L i)" using pre by (rule list_all2_lengthD)
  have at: "served_as (P i ! j) (L i ! j)" if "j < length (L i)" for j
    using list_all2_nthD2[OF pre that] that len by (simp add: P nth_append)
  have nrun: "\<not> runs_task (L i ! k)"
    using at[of k] assms by (cases "P i ! k"; cases "L i ! k") auto
  have "\<not> (\<forall>e\<in>set (L i). runs_task e)" using nrun assms(2,3) by auto
  then have "stopped_log (L i)" using sh by (auto simp: log_shape_def split: worker_pc.splits)
  then obtain rs p st cs where L: "L i = rs @ Run p None st # cs" "\<forall>e\<in>set rs. runs_task e"
    "\<forall>e\<in>set cs. cancels e" by (auto simp: stopped_log_def)
  have "length rs \<le> k"
  proof (rule ccontr)
    assume "\<not> length rs \<le> k"
    then have "L i ! k \<in> set rs" by (simp add: L(1) nth_append)
    with L(2) nrun show False by blast
  qed
  with assms(2,3) have "L i ! m \<in> set cs"
    using nth_mem[of "m - Suc (length rs)" cs] by (simp add: L(1) nth_append nth_Cons')
  with L(3) at[OF assms(3)] show ?thesis by (cases "P i ! m"; cases "L i ! m") auto
qed

lemma pool_stopped_served:
  assumes "pool_reach s P L" and "pl_stop s = SDone" and "i < pl_size s"
  shows "list_all2 served_as (P i) (L i) \<and> pl_pcs s i = WExit"
proof -
  from pool_reach_inv[OF assms(1)] obtain B Q where l: "lanes s P L B Q" and st: "stop_ok s B Q"
    by (auto simp: pool_inv_def)
  have ex: "pl_pcs s i = WExit" and q: "Q i = []"
    using st assms(2,3) by (auto simp: stop_ok_def joined_below_def)
  moreover have "B i = []"
    using lanesD(1)[OF l, of i] ex assms(2) by (simp add: lane_def cur_list_def stop_list_def)
  ultimately show ?thesis using lanesD(1)[OF l, of i] by (auto simp: lane_def history_def)
qed

text \<open>
  C2. When \<open>~thread_pool\<close> (or \<open>wait_stop\<close>) has finished, every node that was ever pushed to a queue of
  the pool has been served exactly once, in the order of the pushes: nothing is forgotten, every
  coroutine that was scheduled has been resumed.
\<close>

theorem thread_pool_stop_serves_all:
  assumes "pool_reach s P L" and "pl_stop s = SDone" and "i < pl_size s"
  shows "list_all2 served_as (P i) (L i) \<and> pl_pcs s i = WExit"
  by (rule pool_stopped_served[OF assms])

text \<open>
  No thread of a pool ever touches a node that is gone or fails an assertion: in every reachable
  state the next step of every worker and of the stopping thread is defined, although all other
  nodes may be freed at any time and the destructor reuses one pill for all queues.
\<close>

theorem thread_pool_no_undefined_behaviour:
  assumes "pool_reach s P L"
  shows "worker_step i s \<noteq> None \<and> stop_step k s \<noteq> None"
proof -
  from pool_reach_inv[OF assms] obtain B Q where inv: "pool_inv s P L B Q" by blast
  show ?thesis using worker_step_defined[OF inv, of i] stop_step_defined[OF inv, of k] by auto
qed

text \<open>
  C21. No wakeup is lost: a worker is never asleep while there is something in its queue. And a join in
  \<open>~thread_pool\<close> returns: from any state in which the destructor waits for worker \<open>i\<close>, a finite number
  of steps of this worker, each of which it can make, ends its thread function.
\<close>

theorem thread_pool_join_returns:
  assumes "pool_reach s P L"
  shows "(pl_pcs s i \<noteq> WExit \<and> i < pl_size s \<and> tq_first (pl_queues s i) \<noteq> None \<longrightarrow> worker_enabled i s)
     \<and> (pl_stop s = SJoin pl i \<longrightarrow> (\<exists>s'. (worker_moves i)\<^sup>*\<^sup>* s s' \<and> pl_pcs s' i = WExit))"
proof -
  from pool_reach_inv[OF assms] obtain B Q where inv: "pool_inv s P L B Q" by blast
  have "tq_holds (pl_queues s i) (nodes s) (Q i)"
    using inv lanesD(1)[of s P L B Q i] by (simp add: pool_inv_def lane_def)
  then have "tq_first (pl_queues s i) \<noteq> None \<Longrightarrow> Q i \<noteq> []" by (auto simp: tq_holds_def)
  then show ?thesis using worker_awake[OF inv, of i] worker_reaches_exit[OF inv] by blast
qed

section \<open>A run\<close>

text \<open>
  One worker; a coroutine with handle 9 attaches its node 5, and then the pool is destroyed, with
  the destructor's pill at address 6.
\<close>

definition one_worker :: "task_queue \<Rightarrow> worker_pc \<Rightarrow> bool \<Rightarrow> stop_pc \<Rightarrow> pool" where
  "one_worker q c j z = \<lparr>nodes = [5 \<mapsto> \<lparr>nd_next = Some 6, nd_task = Some 9, nd_status = ok\<rparr>, 6 \<mapsto> deadpill],
     pl_size = 1, pl_queues = (\<lambda>_. task_queue_init)(0 := q), pl_pcs = (\<lambda>_. WPop)(0 := c),
     pl_joinable = (\<lambda>_. False)(0 := j), pl_stop = z\<rparr>"

definition a_queue :: "addr option \<Rightarrow> addr \<Rightarrow> task_queue" where
  "a_queue f l = \<lparr>tq_first = f, tq_last = Some l, tq_waiting = [], tq_woken = []\<rparr>"

definition pushed_run :: "nat \<Rightarrow> (addr \<times> handle option \<times> schedule_errc) list" where
  "pushed_run = (\<lambda>_. [])(0 := [(5, Some 9, ok), (6, None, ok)])"

lemma one_worker_attached:
  "pool_reach \<lparr>nodes = [5 \<mapsto> \<lparr>nd_next = None, nd_task = Some 9, nd_status = ok\<rparr>],
     pl_size = 1, pl_queues = (\<lambda>_. task_queue_init)(0 := a_queue (Some 5) 5), pl_pcs = (\<lambda>_. WPop),
     pl_joinable = (\<lambda>_. False)(0 := True), pl_stop = SIdle\<rparr> ((\<lambda>_. [])(0 := [(5, Some 9, ok)])) (\<lambda>_. [])"
proof -
  let ?h = "[5 \<mapsto> \<lparr>nd_next = None, nd_task = Some 9, nd_status = ok\<rparr>] :: node_heap"
  have i: "pool_reach (pool_ctor 1 ?h) (\<lambda>_. []) (\<lambda>_. [])" by (rule pool_reach.init)
  have "pool_lists (pool_ctor 1 ?h) (\<lambda>_. []) (\<lambda>_. [])"
    by (simp add: pool_lists_def pool_ctor_def cur_list_def)
  from pool_reach.attach[OF i this]
  have r: "pool_attach 0 5 (pool_ctor 1 ?h) = Some s' \<Longrightarrow>
      0 = select_queue (operation_hash_handle (the (task_of ?h 5))) (pool_ctor 1 ?h) \<Longrightarrow>
      pool_reach s' ((\<lambda>_. [])(0 := [(5, Some 9, ok)])) (\<lambda>_. [])" for s'
    by (fastforce simp: pool_ctor_def finishing_def stop_pill_def entry_def)
  show ?thesis
    by (rule r) (simp_all add: pool_ctor_def pool_attach_def queue_attach_def select_queue_def tq_attach_def
        tq_push_def tq_push_list_def task_queue_init_def notify_one_def set_queue_def a_queue_def fun_eq_iff)
qed

lemma one_worker_joining:
  "pool_reach (one_worker (a_queue (Some 5) 6) WPop True (SJoin 6 0)) pushed_run (\<lambda>_. [])"
proof -
  note a = one_worker_attached
  let ?s = "\<lparr>nodes = [5 \<mapsto> \<lparr>nd_next = None, nd_task = Some 9, nd_status = ok\<rparr>],
     pl_size = 1, pl_queues = (\<lambda>_. task_queue_init)(0 := a_queue (Some 5) 5), pl_pcs = (\<lambda>_. WPop),
     pl_joinable = (\<lambda>_. False)(0 := True), pl_stop = SIdle\<rparr>"
  have "pool_lists ?s (\<lambda>_. []) ((\<lambda>_. [])(0 := [5]))"
    by (simp add: pool_lists_def cur_list_def tq_holds_def a_queue_def task_queue_init_def)
  from pool_reach.dtor[OF a this, of 6]
  have d: "pool_reach (pool_dtor_begin 6 ?s) ((\<lambda>_. [])(0 := [(5, Some 9, ok)])) (\<lambda>_. [])" by simp
  have s: "stop_step 0 (pool_dtor_begin 6 ?s) = Some (None, one_worker (a_queue (Some 5) 6) WPop True (SJoin 6 0))"
    by (simp add: stop_step_def pool_dtor_begin_def tq_push_def tq_push_list_def a_queue_def one_worker_def
        set_stop_def set_queue_def deadpill_def task_node_init_def fun_eq_iff)
  from pool_reach.stop_push[OF d, where pl = 6 and i = 0 and k = 0 and e = None, OF _ _ _ s]
  show ?thesis
    by (simp add: pushed_run_def entry_def pool_dtor_begin_def deadpill_def task_node_init_def)
qed

lemma one_worker_work:
  assumes "pool_reach (one_worker q c j z) pushed_run L" "c \<noteq> WExit" "tq_waiting q = []"
    "worker_step 0 (one_worker q c j z) = Some (e, s')"
  shows "pool_reach s' pushed_run (log_served 0 e L)"
  by (rule pool_reach.work[OF assms(1) _ assms(4)])
    (use assms(2,3) in \<open>simp add: worker_enabled_def one_worker_def\<close>)

lemma one_worker_stop:
  assumes "pool_reach (one_worker q c j z) pushed_run L" "stop_enabled (one_worker q c j z)"
    "\<And>pl i. z = SPush pl i \<Longrightarrow> i \<noteq> 0" "stop_step 0 (one_worker q c j z) = Some (None, s')"
  shows "pool_reach s' pushed_run L"
  using pool_reach.stop[OF assms(1,2) _ assms(4)] assms(3) by (simp add: one_worker_def)

definition served_run :: "nat \<Rightarrow> served list" where
  "served_run = (\<lambda>_. [])(0 := [Run 5 (Some 9) ok, Run 6 None ok])"

lemmas one_worker_simps = one_worker_def a_queue_def worker_step_def stop_step_def tq_pop_attempt_def
  tq_pop_all_def set_queue_def set_worker_def set_stop_def join_thread_def run_task_def
  deadpill_def task_node_init_def log_served_def served_run_def stop_enabled_def Let_def

lemma one_worker_stopped:
  "pool_reach (one_worker (a_queue None 6) WExit False SDone) pushed_run served_run"
proof -
  have "pool_reach (one_worker (a_queue None 6) (WBatch 5) True (SJoin 6 0)) pushed_run (log_served 0 None (\<lambda>_. []))"
    by (rule one_worker_work[OF one_worker_joining]) (simp_all add: one_worker_simps fun_eq_iff)
  then have 1: "pool_reach (one_worker (a_queue None 6) (WBatch 5) True (SJoin 6 0)) pushed_run (\<lambda>_. [])"
    by (simp add: log_served_def)
  let ?L = "log_served 0 (Some (Run 5 (Some 9) ok)) (\<lambda>_. [])"
  have 2: "pool_reach (one_worker (a_queue None 6) (WBatch 6) True (SJoin 6 0)) pushed_run ?L"
    by (rule one_worker_work[OF 1]) (simp_all add: one_worker_simps fun_eq_iff)
  have "pool_reach (one_worker (a_queue None 6) (WCancel None) True (SJoin 6 0)) pushed_run
      (log_served 0 (Some (Run 6 None ok)) ?L)"
    by (rule one_worker_work[OF 2]) (simp_all add: one_worker_simps fun_eq_iff)
  moreover have "log_served 0 (Some (Run 6 None ok)) ?L = served_run"
    by (simp add: log_served_def served_run_def)
  ultimately have 3: "pool_reach (one_worker (a_queue None 6) (WCancel None) True (SJoin 6 0)) pushed_run served_run"
    by simp
  have "pool_reach (one_worker (a_queue None 6) WExit True (SJoin 6 0)) pushed_run (log_served 0 None served_run)"
    by (rule one_worker_work[OF 3]) (simp_all add: one_worker_simps fun_eq_iff)
  then have 4: "pool_reach (one_worker (a_queue None 6) WExit True (SJoin 6 0)) pushed_run served_run"
    by (simp add: log_served_def)
  have 5: "pool_reach (one_worker (a_queue None 6) WExit False (SCancel 6 0 None)) pushed_run served_run"
    by (rule one_worker_stop[OF 4]) (simp_all add: one_worker_simps fun_eq_iff)
  have 6: "pool_reach (one_worker (a_queue None 6) WExit False (SPush 6 1)) pushed_run served_run"
    by (rule one_worker_stop[OF 5]) (simp_all add: one_worker_simps fun_eq_iff)
  have 7: "pool_reach (one_worker (a_queue None 6) WExit False (SPop 0)) pushed_run served_run"
    by (rule one_worker_stop[OF 6]) (simp_all add: one_worker_simps fun_eq_iff)
  have 8: "pool_reach (one_worker (a_queue None 6) WExit False (SFinal 0 None)) pushed_run served_run"
    by (rule one_worker_stop[OF 7]) (simp_all add: one_worker_simps fun_eq_iff)
  have 9: "pool_reach (one_worker (a_queue None 6) WExit False (SPop 1)) pushed_run served_run"
    by (rule one_worker_stop[OF 8]) (simp_all add: one_worker_simps fun_eq_iff)
  show ?thesis by (rule one_worker_stop[OF 9]) (simp_all add: one_worker_simps fun_eq_iff)
qed

text \<open>Another run: \<open>request_stop\<close> pushes its pill 6 and, behind it, its own node 5.\<close>

definition request_heap :: node_heap where
  "request_heap = [6 \<mapsto> deadpill\<lparr>nd_next := Some 5\<rparr>, 5 \<mapsto> \<lparr>nd_next = None, nd_task = Some 9, nd_status = ok\<rparr>]"

definition requested :: "node_heap \<Rightarrow> task_queue \<Rightarrow> worker_pc \<Rightarrow> pool" where
  "requested h q c = \<lparr>nodes = h, pl_size = 1, pl_queues = (\<lambda>_. task_queue_init)(0 := q),
     pl_pcs = (\<lambda>_. WPop)(0 := c), pl_joinable = (\<lambda>i. i < 1), pl_stop = SIdle\<rparr>"

definition requested_run :: "nat \<Rightarrow> (addr \<times> handle option \<times> schedule_errc) list" where
  "requested_run = (\<lambda>_. [])(0 := [(6, None, ok), (5, Some 9, ok)])"

lemma requested_cancelled:
  "\<exists>s. pool_reach s requested_run ((\<lambda>_. [])(0 := [Run 6 None ok, Cancel 5 (Some 9) cancelled]))"
proof -
  let ?s = "requested request_heap (a_queue (Some 6) 5) WPop"
  have i: "pool_reach (pool_ctor 1 request_heap) (\<lambda>_. []) (\<lambda>_. [])" by (rule pool_reach.init)
  have l: "pool_lists (pool_ctor 1 request_heap) (\<lambda>_. []) (\<lambda>_. [])"
    by (simp add: pool_lists_def pool_ctor_def cur_list_def)
  have q: "tq_push_list 0 (pl_queues (pool_ctor 1 request_heap) 0) 6 5 request_heap
      = Some (a_queue (Some 6) 5, request_heap)"
    by (simp add: pool_ctor_def tq_push_list_def task_queue_init_def notify_one_def a_queue_def)
  have n: "node_list request_heap (Some 6) [6, 5]" by (simp add: request_heap_def next_of_def)
  have "pool_reach (set_queue 0 (a_queue (Some 6) 5) ((pool_ctor 1 request_heap)\<lparr>nodes := request_heap\<rparr>))
      ((\<lambda>_. [])(0 := (\<lambda>_. []) 0 @ map (entry (nodes (pool_ctor 1 request_heap))) [6, 5])) (\<lambda>_. [])"
    by (rule pool_reach.push_list[OF i l, where f = 6 and l = 5 and k = 0])
      (use n q in \<open>simp_all add: pool_ctor_def finishing_def stop_pill_def\<close>)
  moreover have "set_queue 0 (a_queue (Some 6) 5) ((pool_ctor 1 request_heap)\<lparr>nodes := request_heap\<rparr>) = ?s"
    by (simp add: set_queue_def pool_ctor_def requested_def fun_eq_iff)
  moreover have "map (entry (nodes (pool_ctor 1 request_heap))) [6, 5] = [(6, None, ok), (5, Some 9, ok)]"
    by (simp add: entry_def pool_ctor_def request_heap_def deadpill_def task_node_init_def)
  ultimately have 0: "pool_reach ?s requested_run (\<lambda>_. [])" by (simp add: requested_run_def)
  have "pool_reach (requested request_heap (a_queue None 5) (WBatch 6)) requested_run (log_served 0 None (\<lambda>_. []))"
    by (rule pool_reach.work[OF 0, where i = 0])
      (simp_all add: one_worker_simps worker_enabled_def requested_def fun_eq_iff)
  then have 1: "pool_reach (requested request_heap (a_queue None 5) (WBatch 6)) requested_run (\<lambda>_. [])"
    by (simp add: log_served_def)
  let ?L = "log_served 0 (Some (Run 6 None ok)) (\<lambda>_. [])"
  have 2: "pool_reach (requested request_heap (a_queue None 5) (WCancel (Some 5))) requested_run ?L"
    by (rule pool_reach.work[OF 1, where i = 0])
      (simp_all add: one_worker_simps worker_enabled_def requested_def request_heap_def fun_eq_iff)
  have "pool_reach (requested (request_heap(5 \<mapsto> \<lparr>nd_next = None, nd_task = Some 9, nd_status = cancelled\<rparr>))
      (a_queue None 5) (WCancel None)) requested_run (log_served 0 (Some (Cancel 5 (Some 9) cancelled)) ?L)"
    by (rule pool_reach.work[OF 2, where i = 0])
      (simp_all add: one_worker_simps worker_enabled_def requested_def request_heap_def cancel_task_def fun_eq_iff)
  moreover have "log_served 0 (Some (Cancel 5 (Some 9) cancelled)) ?L
      = (\<lambda>_. [])(0 := [Run 6 None ok, Cancel 5 (Some 9) cancelled])"
    by (simp add: log_served_def)
  ultimately show ?thesis by metis
qed

theorem thread_pool_fifo_exactly_once_witness:
  "\<exists>B Q done. pool_lists (one_worker (a_queue (Some 5) 6) WPop True (SJoin 6 0)) B Q
     \<and> pushed_run 0 = done @ map (entry (nodes (one_worker (a_queue (Some 5) 6) WPop True (SJoin 6 0)))) (B 0 @ Q 0)
     \<and> list_all2 served_as done [] \<and> distinct (B 0 @ Q 0)"
  using thread_pool_fifo_exactly_once[OF one_worker_joining, of 0] by simp

theorem thread_pool_cancels_behind_pill_witness:
  "\<exists>s. pool_reach s requested_run ((\<lambda>_. [])(0 := [Run 6 None ok, Cancel 5 (Some 9) cancelled]))
     \<and> ((\<lambda>_. [])(0 := [Run 6 None ok, Cancel 5 (Some 9) cancelled])) (0::nat) ! 1
       = Cancel (fst (requested_run 0 ! 1)) (fst (snd (requested_run 0 ! 1))) cancelled"
proof -
  obtain s where s: "pool_reach s requested_run ((\<lambda>_. [])(0 := [Run 6 None ok, Cancel 5 (Some 9) cancelled]))"
    using requested_cancelled by blast
  from thread_pool_cancels_behind_pill[OF this, where k = 0 and m = 1 and i = 0] s show ?thesis
    by (auto simp: requested_run_def)
qed

theorem thread_pool_stop_serves_all_witness:
  "list_all2 served_as (pushed_run 0) (served_run 0)
   \<and> pl_pcs (one_worker (a_queue None 6) WExit False SDone) 0 = WExit"
  by (rule thread_pool_stop_serves_all[OF one_worker_stopped]) (simp_all add: one_worker_def)

theorem thread_pool_no_undefined_behaviour_witness:
  "worker_step 0 (one_worker (a_queue (Some 5) 6) WPop True (SJoin 6 0)) \<noteq> None
   \<and> stop_step 0 (one_worker (a_queue (Some 5) 6) WPop True (SJoin 6 0)) \<noteq> None"
  by (rule thread_pool_no_undefined_behaviour[OF one_worker_joining])

theorem thread_pool_join_returns_witness:
  "worker_enabled 0 (one_worker (a_queue (Some 5) 6) WPop True (SJoin 6 0))
   \<and> (\<exists>s'. (worker_moves 0)\<^sup>*\<^sup>* (one_worker (a_queue (Some 5) 6) WPop True (SJoin 6 0)) s' \<and> pl_pcs s' 0 = WExit)"
  using thread_pool_join_returns[OF one_worker_joining, of 0 6]
  by (simp add: one_worker_def a_queue_def)

end
