(* ===== verification/Memory_Support.thy ===== *)
theory Memory_Support
  imports Prelude "HOL-Library.Word"
begin

text \<open>
  \<open>memory_support.hpp\<close>: the alignment arithmetic, the resource adaptors, and the
  \<open>operator new\<close>/\<open>operator delete\<close> that put a memory resource behind the coroutine frame it
  allocated. The resource type is a parameter: its two operations, its size and alignment, and
  whether it is empty or trivially destructible. Sizes are natural numbers where the code adds sizes
  of objects that exist; the mask arithmetic of \<open>aligned\<close> is on 64-bit words.
\<close>

unbundle bit_operations_syntax

section \<open>Alignment\<close>

text \<open>\<open>__STDCPP_DEFAULT_NEW_ALIGNMENT__\<close> of the 64-bit targets.\<close>

definition coroframe_align :: nat where
  "coroframe_align = 16"

definition padding_len :: "nat \<Rightarrow> nat \<Rightarrow> nat" where
  "padding_len P sz = (P - sz mod P) mod P"

text \<open>\<open>std::has_single_bit\<close>: the number of one bits is one.\<close>

definition has_single_bit :: "64 word \<Rightarrow> bool" where
  "has_single_bit x \<longleftrightarrow> length (filter (bit x) [0..<64]) = 1"

definition aligned :: "64 word \<Rightarrow> 64 word \<Rightarrow> 64 word" where
  "aligned ALIGN sz =
     (if ALIGN < 2 then sz
      else if has_single_bit ALIGN then (let m = ALIGN - 1 in (sz + m) AND NOT m)
      else sz + (ALIGN - sz mod ALIGN) mod ALIGN)"

lemma padding_len_mod [simp]: "0 < P \<Longrightarrow> (sz + padding_len P sz) mod P = 0"
proof -
  assume P: "0 < P"
  have "(sz + (P - sz mod P)) mod P = (sz mod P + (P - sz mod P)) mod P" by (simp add: mod_add_left_eq)
  also have "\<dots> = 0" using P by simp
  finally show ?thesis by (simp add: padding_len_def mod_add_right_eq)
qed

lemma padding_len_less: "0 < P \<Longrightarrow> padding_len P sz < P"
  by (simp add: padding_len_def)

lemma padding_len_dvd: "P dvd sz \<Longrightarrow> padding_len P sz = 0"
  by (simp add: padding_len_def)

lemma has_single_bitD:
  assumes "has_single_bit x"
  shows "\<exists>k<64. x = 2 ^ k"
proof -
  from assms obtain k where f: "filter (bit x) [0..<64] = [k]"
    by (auto simp: has_single_bit_def length_Suc_conv)
  have b: "bit x n \<longleftrightarrow> n = k" if "n < 64" for n
  proof -
    have "n \<in> set (filter (bit x) [0..<64]) \<longleftrightarrow> n = k" by (simp add: f)
    with that show ?thesis by simp
  qed
  have k: "k < 64"
  proof -
    have "k \<in> set (filter (bit x) [0..<64])" by (simp add: f)
    then show ?thesis by simp
  qed
  have "x = 2 ^ k" by (rule bit_word_eqI) (use b k in \<open>auto simp: bit_exp_iff possible_bit_word\<close>)
  with k show ?thesis by blast
qed

lemma and_not_mask_word: "a AND NOT (mask k) = a - take_bit k (a :: 64 word)"
proof -
  have "a - take_bit k a = a AND NOT (take_bit k a)"
    by (rule disjunctive_diff_eq_and_not) (rule bit_word_eqI, auto simp: bit_simps)
  also have "\<dots> = a AND NOT (mask k)" by (rule bit_word_eqI) (auto simp: bit_simps)
  finally show ?thesis by simp
qed

lemma unat_and_not_mask:
  assumes "k < 64"
  shows "unat ((a :: 64 word) AND NOT (2 ^ k - 1)) = unat a - unat a mod 2 ^ k"
proof -
  have "unat (take_bit k a) = unat a mod 2 ^ k"
    by (simp only: unsigned_take_bit_eq) (simp add: take_bit_eq_mod)
  moreover have "take_bit k a \<le> a" by (simp only: word_le_nat_alt unsigned_take_bit_eq) (simp add: take_bit_eq_mod)
  ultimately show ?thesis
    using unat_sub[of "take_bit k a" a] and_not_mask_word[of a k] by (simp add: mask_eq_decr_exp)
qed

text \<open>The two formulas of \<open>aligned\<close> compute the same: the next multiple of \<open>ALIGN\<close>.\<close>

lemma round_up_eq:
  fixes s P :: nat
  assumes "0 < P"
  shows "(s + (P - 1)) - (s + (P - 1)) mod P = s + padding_len P s"
proof (cases "s mod P = 0")
  case True
  then have "(s + (P - 1)) mod P = P - 1" using assms by (metis add_0 mod_add_left_eq mod_less diff_less zero_less_one)
  with True assms show ?thesis by (simp add: padding_len_def)
next
  case False
  let ?r = "s mod P"
  have "(s + (P - 1)) mod P = (?r + (P - 1)) mod P" by (simp add: mod_add_left_eq)
  also have "?r + (P - 1) = (?r - 1) + P" using False assms by simp
  also have "((?r - 1) + P) mod P = ?r - 1" using assms by (simp add: less_imp_diff_less)
  finally have "(s + (P - 1)) mod P = ?r - 1" .
  moreover have "?r < P" using assms by simp
  ultimately show ?thesis using False by (simp add: padding_len_def)
qed

lemma unat_exp_word: "k < 64 \<Longrightarrow> unat (2 ^ k :: 64 word) = 2 ^ k"
proof -
  assume "k < 64"
  then have "(0 :: 64 word) < 2 ^ k" by (simp add: word_gt_0)
  then have "uint (2 ^ k :: 64 word) = 2 ^ k" by (rule uint_2p)
  then have "nat (uint (2 ^ k :: 64 word)) = 2 ^ k" by (simp only: nat_power_eq) simp
  then show ?thesis by (simp only: nat_uint_eq)
qed

lemma unat_add_small: "unat a + unat b < 2 ^ 64 \<Longrightarrow> unat (a + b) = unat a + unat (b :: 64 word)"
  by (simp add: unat_word_ariths)

section \<open>Resources\<close>

text \<open>
  \<open>memory_resource\<close>: a value of type \<open>'r\<close> with \<open>allocate\<close> and \<open>deallocate\<close>, which may change both the
  value and the rest of the world \<open>'s\<close>; \<open>allocate\<close> may throw (\<open>None\<close>).
\<close>

record ('r, 's) memory_resource =
  mr_allocate :: "nat \<Rightarrow> 'r \<Rightarrow> 's \<Rightarrow> (addr \<times> 'r \<times> 's) option"
  mr_deallocate :: "addr \<Rightarrow> nat \<Rightarrow> 'r \<Rightarrow> 's \<Rightarrow> 'r \<times> 's"
  mr_sizeof :: nat
  mr_alignof :: "64 word"
  mr_is_empty :: bool
  mr_trivially_destructible :: bool
  mr_default :: 'r

text \<open>
  \<open>chunk_from<R>\<close> for a resource that is not empty: a pointer to it. The resources it may point to are
  \<open>res\<close>.
\<close>

definition chunk_from_allocate ::
  "(nat \<Rightarrow> 'r \<Rightarrow> 's \<Rightarrow> (addr \<times> 'r \<times> 's) option) \<Rightarrow> nat \<Rightarrow> addr \<Rightarrow> (addr \<Rightarrow> 'r option) \<times> 's
     \<Rightarrow> (addr \<times> addr \<times> (addr \<Rightarrow> 'r option) \<times> 's) option" where
  "chunk_from_allocate alloc sz ptr = (\<lambda>(res, s). do {
     r \<leftarrow> res ptr;
     (p, r', s') \<leftarrow> alloc sz r s;
     if p mod coroframe_align = 0 then Some (p, ptr, res(ptr \<mapsto> r'), s') else None })"

definition chunk_from_deallocate ::
  "(addr \<Rightarrow> nat \<Rightarrow> 'r \<Rightarrow> 's \<Rightarrow> 'r \<times> 's) \<Rightarrow> addr \<Rightarrow> nat \<Rightarrow> addr \<Rightarrow> (addr \<Rightarrow> 'r option) \<times> 's
     \<Rightarrow> (addr \<times> (addr \<Rightarrow> 'r option) \<times> 's) option" where
  "chunk_from_deallocate dealloc p sz ptr = (\<lambda>(res, s). do {
     r \<leftarrow> res ptr;
     let (r', s') = dealloc p sz r s in Some (ptr, res(ptr \<mapsto> r'), s') })"

text \<open>
  The resource objects that live behind coroutine frames: \<open>onframe\<close>. A frame size is rounded up so
  that the object behind it is aligned.
\<close>

definition frame_size :: "('r, 's) memory_resource \<Rightarrow> nat \<Rightarrow> nat" where
  "frame_size R frame_sz = unat (aligned (mr_alignof R) (of_nat frame_sz))"

definition do_allocate ::
  "('r, 's) memory_resource \<Rightarrow> nat \<Rightarrow> 'r \<Rightarrow> (addr \<Rightarrow> 'r option) \<times> 's
     \<Rightarrow> (addr \<times> (addr \<Rightarrow> 'r option) \<times> 's) option" where
  "do_allocate R frame_sz r = (\<lambda>(onframe, s).
     if mr_is_empty R then do {
       (p, r', s') \<leftarrow> mr_allocate R frame_sz r s;
       Some (p, onframe, s') }
     else do {
       let frame_sz = frame_size R frame_sz;
       (p, r', s') \<leftarrow> mr_allocate R (frame_sz + mr_sizeof R) r s;
       Some (p, onframe(p + frame_sz \<mapsto> r'), s') })"

definition operator_new_default ::
  "('r, 's) memory_resource \<Rightarrow> nat \<Rightarrow> (addr \<Rightarrow> 'r option) \<times> 's
     \<Rightarrow> (addr \<times> (addr \<Rightarrow> 'r option) \<times> 's) option" where
  "operator_new_default R frame_sz = do_allocate R frame_sz (mr_default R)"

text \<open>
  \<open>operator new(frame_sz, args...)\<close>: the resource is the one in the last argument. \<open>'r + 'a\<close> is an
  argument: a \<open>with_resource\<close> or anything else; the overload takes part only if the last one is a
  \<open>with_resource\<close>.
\<close>

definition operator_new_args ::
  "('r, 's) memory_resource \<Rightarrow> nat \<Rightarrow> ('r + 'a) list \<Rightarrow> (addr \<Rightarrow> 'r option) \<times> 's
     \<Rightarrow> (addr \<times> (addr \<Rightarrow> 'r option) \<times> 's) option" where
  "operator_new_args R frame_sz args m = (case rev args of
      Inl r # _ \<Rightarrow> do_allocate R frame_sz r m
    | _ \<Rightarrow> None)"

definition operator_delete ::
  "('r, 's) memory_resource \<Rightarrow> addr \<Rightarrow> nat \<Rightarrow> (addr \<Rightarrow> 'r option) \<times> 's
     \<Rightarrow> ((addr \<Rightarrow> 'r option) \<times> 's) option" where
  "operator_delete R ptr frame_sz = (\<lambda>(onframe, s).
     if mr_is_empty R then (let (r', s') = mr_deallocate R ptr frame_sz (mr_default R) s in Some (onframe, s'))
     else do {
       let frame_sz = frame_size R frame_sz;
       let pos = ptr + frame_sz;
       r \<leftarrow> onframe pos;
       if pos mod unat (mr_alignof R) \<noteq> 0 then None
       else if mr_trivially_destructible R
       then (let (r', s') = mr_deallocate R ptr (frame_sz + mr_sizeof R) r s in Some (onframe(pos := None), s'))
       else (let onframe1 = onframe(pos := None);
                 (r', s') = mr_deallocate R ptr (frame_sz + mr_sizeof R) r s in Some (onframe1, s')) })"

section \<open>Properties\<close>

text \<open>
  \<open>aligned<ALIGN>\<close> is the next multiple of \<open>ALIGN\<close> as long as that fits in 64 bits, in both of its
  formulas: the mask for powers of two and the division otherwise. \<open>padding_len\<close> is the difference.
\<close>

theorem aligned_next_multiple:
  assumes "1 \<le> ALIGN" and "unat sz + unat ALIGN \<le> 2 ^ 64"
  shows "unat (aligned ALIGN sz) = unat sz + padding_len (unat ALIGN) (unat sz)
     \<and> unat (aligned ALIGN sz) mod unat ALIGN = 0
     \<and> unat (aligned ALIGN sz) < unat sz + unat ALIGN"
proof -
  have P: "0 < unat ALIGN" using assms(1) by (simp add: word_le_nat_alt)
  have "unat (aligned ALIGN sz) = unat sz + padding_len (unat ALIGN) (unat sz)"
  proof (cases "ALIGN < 2")
    case True
    with P have "unat ALIGN = 1" by (simp add: word_less_nat_alt)
    with True show ?thesis by (simp add: aligned_def padding_len_def)
  next
    case ge: False
    show ?thesis
    proof (cases "has_single_bit ALIGN")
      case True
      then obtain k where k: "k < 64" "ALIGN = 2 ^ k" using has_single_bitD by blast
      have u: "unat ALIGN = 2 ^ k" using k by (simp add: unat_exp_word)
      have m: "unat (ALIGN - 1) = 2 ^ k - 1" using u P by (simp add: unat_sub word_le_nat_alt)
      have "unat (sz + (ALIGN - 1)) = unat sz + (2 ^ k - 1)"
        using assms(2) u m P by (subst unat_add_small) auto
      with ge True k unat_and_not_mask[OF k(1), of "sz + (ALIGN - 1)"] round_up_eq[of "2 ^ k" "unat sz"] u
      show ?thesis by (simp add: aligned_def Let_def)
    next
      case False
      have "sz mod ALIGN \<le> ALIGN" using P by (simp add: word_le_nat_alt unat_mod less_imp_le)
      then have "unat (ALIGN - sz mod ALIGN) = unat ALIGN - unat sz mod unat ALIGN"
        by (simp add: unat_sub unat_mod)
      then have "unat ((ALIGN - sz mod ALIGN) mod ALIGN) = padding_len (unat ALIGN) (unat sz)"
        by (simp add: unat_mod padding_len_def)
      moreover have "padding_len (unat ALIGN) (unat sz) < unat ALIGN" using P by (rule padding_len_less)
      ultimately show ?thesis
        using ge False assms(2) by (simp add: aligned_def unat_add_small)
    qed
  qed
  then show ?thesis using P padding_len_less[OF P] by simp
qed

theorem aligned_next_multiple_witness:
  "unat (aligned 12 29) = unat (29 :: 64 word) + padding_len (unat (12 :: 64 word)) (unat (29 :: 64 word))
     \<and> unat (aligned 12 29) mod unat (12 :: 64 word) = 0
     \<and> unat (aligned 12 29) < unat (29 :: 64 word) + unat (12 :: 64 word)"
  by (rule aligned_next_multiple) simp_all

text \<open>
  \<open>operator delete\<close> gives back exactly what \<open>operator new\<close> took: the same address with the same
  size, to the resource object that the allocation left behind, wherever the world has gone in
  between; its alignment assertion holds. The hypothesis on \<open>p\<close> is that the allocator's result is
  aligned for the resource object, as the concept demands of every resource.
\<close>

theorem operator_delete_undoes_new:
  assumes "do_allocate R frame_sz r (onframe, s) = Some (p, onframe', s')"
    and "p mod unat (mr_alignof R) = 0" and "1 \<le> mr_alignof R"
    and "frame_sz + unat (mr_alignof R) < 2 ^ 64"
  shows "\<exists>r' sz. mr_allocate R sz r s = Some (p, r', s') \<and> frame_sz \<le> sz
     \<and> (\<forall>t. map_option snd (operator_delete R p frame_sz (onframe', t))
            = Some (snd (mr_deallocate R p sz (if mr_is_empty R then mr_default R else r') t)))"
proof (cases "mr_is_empty R")
  case True
  with assms(1) obtain r' where a: "mr_allocate R frame_sz r s = Some (p, r', s')"
    by (auto simp: do_allocate_def split: bind_splits)
  have "map_option snd (operator_delete R p frame_sz (onframe', t))
      = Some (snd (mr_deallocate R p frame_sz (mr_default R) t))" for t
    using True by (simp add: operator_delete_def case_prod_unfold)
  with a True show ?thesis by (intro exI[of _ r'] exI[of _ frame_sz]) simp
next
  case False
  let ?n = "frame_size R frame_sz"
  from False assms(1) obtain r' where a: "mr_allocate R (?n + mr_sizeof R) r s = Some (p, r', s')"
    and o: "onframe' = onframe(p + ?n \<mapsto> r')"
    by (auto simp: do_allocate_def Let_def split: bind_splits)
  have u: "unat (of_nat frame_sz :: 64 word) = frame_sz"
    using assms(4) by (simp add: unat_of_nat)
  have al: "?n mod unat (mr_alignof R) = 0" "?n = frame_sz + padding_len (unat (mr_alignof R)) frame_sz"
    using aligned_next_multiple[OF assms(3), of "of_nat frame_sz"] assms(4) by (simp_all add: frame_size_def u)
  then have "(p + ?n) mod unat (mr_alignof R) = 0" using assms(2) by (metis mod_add_eq add_0 mod_0)
  then have "map_option snd (operator_delete R p frame_sz (onframe', t))
      = Some (snd (mr_deallocate R p (?n + mr_sizeof R) r' t))" for t
    using False by (simp add: operator_delete_def o Let_def case_prod_unfold)
  with a al(2) False show ?thesis by (intro exI[of _ r'] exI[of _ "?n + mr_sizeof R"]) simp
qed

text \<open>A resource that counts the bytes it has given out, from a bump allocator.\<close>

definition counting_resource :: "(nat, addr) memory_resource" where
  "counting_resource = \<lparr>mr_allocate = (\<lambda>sz used s. Some (s, used + sz, s + sz)),
     mr_deallocate = (\<lambda>p sz used s. (used - sz, s)), mr_sizeof = 8, mr_alignof = 8,
     mr_is_empty = False, mr_trivially_destructible = True, mr_default = 0\<rparr>"

theorem operator_delete_undoes_new_witness:
  "\<exists>r' sz. mr_allocate counting_resource sz 0 64 = Some (64, r', 96) \<and> 21 \<le> sz
     \<and> (\<forall>t. map_option snd (operator_delete counting_resource 64 21 ([88 \<mapsto> 32], t))
            = Some (snd (mr_deallocate counting_resource 64 sz
                (if mr_is_empty counting_resource then mr_default counting_resource else r') t)))"
proof -
  have a: "aligned 8 21 = 24"
    by (simp add: aligned_def has_single_bit_def upt_rec bit_numeral_rec)
  have "do_allocate counting_resource 21 0 (Map.empty, 64) = Some (64, [88 \<mapsto> 32], 96)"
    by (simp add: do_allocate_def counting_resource_def frame_size_def a)
  then show ?thesis
    by (rule operator_delete_undoes_new) (simp_all add: counting_resource_def)
qed

end
