(* ===== verification/Stack_Resource.thy ===== *)
theory Stack_Resource
  imports Memory_Support "HOL-Library.Multiset"
begin

text \<open>
  \<open>stack_memory_resource.hpp\<close>: a memory resource in which only the last allocation may be given
  back. Memory is taken from an initial buffer and then from chunks, each with a header in front of
  its bytes. While a chunk is in use its header holds the three pointers of the chunk before it; in
  the free list it holds the chunk's own. Addresses are natural numbers; the headers are a store
  \<open>sr_hdrs\<close> from addresses. The address that \<open>operator new\<close> returns is an argument of \<open>allocate\<close>.
  Lengths are \<open>size_t\<close>, that is, numbers below \<open>2 ^ 64\<close>, and their sums wrap around. \<open>size_fits\<close> says that
  those of one \<open>allocate\<close> do not; the runs of the theorems below ask it of every allocation.
  \<open>stack_resource_size_wraps\<close> shows what happens without it.
\<close>

section \<open>State and operations\<close>

record chunk_header =
  ch_b :: addr
  ch_m :: addr
  ch_e :: addr
  ch_next :: "addr option"

record stack_resource =
  sr_data :: addr
  sr_size :: nat
  sr_b :: addr
  sr_m :: addr
  sr_e :: addr
  sr_top :: "addr option"
  sr_hdrs :: "addr \<Rightarrow> chunk_header option"

text \<open>\<open>sizeof(chunk_header)\<close>: four pointers.\<close>

definition header_size :: nat where
  "header_size = 32"

definition avail :: "chunk_header \<Rightarrow> nat" where
  "avail c = ch_e c - ch_m c"

definition capacity :: "chunk_header \<Rightarrow> nat" where
  "capacity c = ch_e c - ch_b c"

definition freelist_push :: "addr \<Rightarrow> stack_resource \<Rightarrow> stack_resource option" where
  "freelist_push chunk s = do {
     c \<leftarrow> sr_hdrs s chunk;
     Some (s\<lparr>sr_hdrs := (sr_hdrs s)(chunk \<mapsto> c\<lparr>ch_next := sr_top s\<rparr>), sr_top := Some chunk\<rparr>) }"

partial_function (option) take_loop ::
  "nat \<Rightarrow> addr option \<Rightarrow> addr option \<Rightarrow> stack_resource \<Rightarrow> (addr option \<times> stack_resource) option" where
  "take_loop bytes prev c s = (case c of
      None \<Rightarrow> Some (None, s)
    | Some a \<Rightarrow> do {
        h \<leftarrow> sr_hdrs s a;
        if ch_b h \<noteq> ch_m h then None
        else if bytes \<le> capacity h then
          (case prev of
             Some p \<Rightarrow> do {
               ph \<leftarrow> sr_hdrs s p;
               Some (Some a, s\<lparr>sr_hdrs := (sr_hdrs s)(p \<mapsto> ph\<lparr>ch_next := ch_next h\<rparr>)\<rparr>) }
           | None \<Rightarrow> Some (Some a, s\<lparr>sr_top := ch_next h\<rparr>))
        else take_loop bytes (Some a) (ch_next h) s })"

definition take_atleast :: "nat \<Rightarrow> stack_resource \<Rightarrow> (addr option \<times> stack_resource) option" where
  "take_atleast bytes s = take_loop bytes None (sr_top s) s"

text \<open>\<open>drop_all\<close>, with the list of the addresses it passes to \<open>delete[]\<close>.\<close>

partial_function (option) drop_all :: "stack_resource \<Rightarrow> (addr list \<times> stack_resource) option" where
  "drop_all s = (case sr_top s of
      None \<Rightarrow> Some ([], s)
    | Some a \<Rightarrow> do {
        h \<leftarrow> sr_hdrs s a;
        (ds, s') \<leftarrow> drop_all (s\<lparr>sr_hdrs := (sr_hdrs s)(a := None), sr_top := ch_next h\<rparr>);
        Some (a # ds, s') })"

partial_function (option) count_loop :: "addr option \<Rightarrow> nat \<Rightarrow> stack_resource \<Rightarrow> nat option" where
  "count_loop c sz s = (case c of
      None \<Rightarrow> Some sz
    | Some a \<Rightarrow> do { h \<leftarrow> sr_hdrs s a; count_loop (ch_next h) (Suc sz) s })"

definition freelist_count :: "stack_resource \<Rightarrow> nat option" where
  "freelist_count s = count_loop (sr_top s) 0 s"

definition prev_chunk :: "stack_resource \<Rightarrow> addr option" where
  "prev_chunk s = (if sr_b s = sr_data s then None else Some (sr_b s - header_size))"

definition drop_cur_chunk :: "stack_resource \<Rightarrow> stack_resource option" where
  "drop_cur_chunk s = (if sr_b s \<noteq> sr_m s then None else do {
     chunk \<leftarrow> prev_chunk s;
     c \<leftarrow> sr_hdrs s chunk;
     freelist_push chunk (s\<lparr>sr_b := ch_b c, sr_m := ch_m c, sr_e := ch_e c,
       sr_hdrs := (sr_hdrs s)(chunk \<mapsto> c\<lparr>ch_b := sr_b s, ch_m := sr_m s, ch_e := sr_e s\<rparr>)\<rparr>) })"

definition sr_aligned :: "nat \<Rightarrow> nat" where
  "sr_aligned bytes = (bytes + padding_len coroframe_align bytes) mod 2 ^ 64"

text \<open>\<open>std::align\<close> moves the pointer up and shrinks the space, or fails.\<close>

definition align_span :: "addr \<Rightarrow> nat \<Rightarrow> addr \<times> nat" where
  "align_span ptr sz = (let d = padding_len coroframe_align ptr in
     if d \<le> sz then (ptr + d, sz - d) else (0, 0))"

definition stack_resource_ctor :: "addr \<Rightarrow> nat \<Rightarrow> stack_resource" where
  "stack_resource_ctor ptr sz = (let (data, size) = align_span ptr sz in
     \<lparr>sr_data = data, sr_size = size, sr_b = data, sr_m = data, sr_e = data + size,
      sr_top = None, sr_hdrs = Map.empty\<rparr>)"

text \<open>Move construction: the new object and the moved-from one. The headers stay where they are.\<close>

definition stack_resource_move :: "stack_resource \<Rightarrow> stack_resource \<times> stack_resource" where
  "stack_resource_move other =
     (other, other\<lparr>sr_data := 0, sr_size := 0, sr_b := 0, sr_m := 0, sr_e := 0, sr_top := None\<rparr>)"

definition new_chunk_bytes :: "nat \<Rightarrow> stack_resource \<Rightarrow> nat" where
  "new_chunk_bytes len s = ((len + (sr_e s - sr_b s) + sr_size s) * 2) mod 2 ^ 64"

text \<open>What is asked of \<open>operator new\<close>.\<close>

definition new_chunk_request :: "nat \<Rightarrow> stack_resource \<Rightarrow> nat" where
  "new_chunk_request len s = (header_size + new_chunk_bytes len s) mod 2 ^ 64"

definition sr_allocate :: "addr \<Rightarrow> nat \<Rightarrow> stack_resource \<Rightarrow> (addr \<times> stack_resource) option" where
  "sr_allocate new_chunk len s = (let len = sr_aligned len in
     if len \<le> sr_e s - sr_m s then Some (sr_m s, s\<lparr>sr_m := sr_m s + len\<rparr>)
     else do {
       (chunk, s1) \<leftarrow> take_atleast len s;
       (case chunk of
          Some a \<Rightarrow> do {
            c \<leftarrow> sr_hdrs s1 a;
            if ch_b c \<noteq> ch_m c then None
            else Some (ch_b c, s1\<lparr>sr_b := ch_b c, sr_m := ch_m c + len, sr_e := ch_e c,
              sr_hdrs := (sr_hdrs s1)(a \<mapsto> c\<lparr>ch_b := sr_b s1, ch_m := sr_m s1, ch_e := sr_e s1\<rparr>)\<rparr>) }
        | None \<Rightarrow> (let b = new_chunk + header_size in
            Some (b, s1\<lparr>sr_b := b, sr_m := b + len, sr_e := b + new_chunk_bytes len s1,
              sr_hdrs := (sr_hdrs s1)(new_chunk \<mapsto>
                \<lparr>ch_b = sr_b s1, ch_m = sr_m s1, ch_e = sr_e s1, ch_next = None\<rparr>)\<rparr>))) })"

text \<open>
  The test \<open>ptr != m - len\<close> is written \<open>ptr + len \<noteq> m\<close>, as pointers do not wrap around.
\<close>

partial_function (option) dealloc_loop :: "addr \<Rightarrow> nat \<Rightarrow> stack_resource \<Rightarrow> stack_resource option" where
  "dealloc_loop ptr len s =
     (if ptr + len = sr_m s then Some (s\<lparr>sr_m := sr_m s - len\<rparr>)
      else if \<not> (ptr \<le> sr_b s \<or> sr_e s \<le> ptr) then None
      else do { s' \<leftarrow> drop_cur_chunk s; dealloc_loop ptr len s' })"

definition sr_deallocate :: "addr \<Rightarrow> nat \<Rightarrow> stack_resource \<Rightarrow> stack_resource option" where
  "sr_deallocate ptr len s =
     (if ptr mod 16 \<noteq> 0 then None else dealloc_loop ptr (sr_aligned len) s)"

partial_function (option) reuse_memory :: "stack_resource \<Rightarrow> stack_resource option" where
  "reuse_memory s =
     (if sr_b s = sr_data s then Some s
      else do { s' \<leftarrow> drop_cur_chunk (s\<lparr>sr_m := sr_b s\<rparr>); reuse_memory s' })"

definition stack_resource_dtor :: "stack_resource \<Rightarrow> (addr list \<times> stack_resource) option" where
  "stack_resource_dtor s = do { s1 \<leftarrow> reuse_memory s; drop_all s1 }"

text \<open>
  Move assignment: the old content of \<open>this\<close> is destroyed first (result: the new \<open>this\<close>, the moved-from
  object and the deleted chunks); assigning an object to itself does nothing.
\<close>

definition stack_resource_move_assign ::
  "bool \<Rightarrow> stack_resource \<Rightarrow> stack_resource \<Rightarrow> (stack_resource \<times> stack_resource \<times> addr list) option" where
  "stack_resource_move_assign same_object this other =
     (if same_object then Some (this, other, [])
      else do {
        (ds, dead) \<leftarrow> stack_resource_dtor this;
        let (this', other') = stack_resource_move other in Some (this', other', ds) })"

section \<open>Invariant\<close>

text \<open>
  \<open>chain H ib b fs\<close>: the current chunk starts at \<open>b\<close>; \<open>fs\<close> are the frames \<open>(b, m, e)\<close> of the chunks
  before it, down to the initial buffer at \<open>ib\<close>, as the headers say. \<open>chain_chunks\<close> are the chunks of
  the chain, that is, all of its frames but the initial buffer.
\<close>

type_synonym frame = "addr \<times> addr \<times> addr"

fun chain :: "(addr \<Rightarrow> chunk_header option) \<Rightarrow> addr \<Rightarrow> addr \<Rightarrow> frame list \<Rightarrow> bool" where
  "chain H ib b [] \<longleftrightarrow> b = ib"
| "chain H ib b ((b', m', e') # fs) \<longleftrightarrow> b \<noteq> ib \<and> header_size \<le> b
     \<and> (\<exists>nx. H (b - header_size) = Some \<lparr>ch_b = b', ch_m = m', ch_e = e', ch_next = nx\<rparr>)
     \<and> chain H ib b' fs"

fun chain_chunks :: "addr \<Rightarrow> frame list \<Rightarrow> addr list" where
  "chain_chunks b [] = []"
| "chain_chunks b ((b', m', e') # fs) = (b - header_size) # chain_chunks b' fs"

text \<open>The allocations, the latest first, fill each frame from its start to its \<open>m\<close>.\<close>

fun tiles :: "addr \<Rightarrow> addr \<Rightarrow> (addr \<times> nat) list \<Rightarrow> bool" where
  "tiles b m [] \<longleftrightarrow> m = b"
| "tiles b m ((p, l) # as) \<longleftrightarrow> p + l = m \<and> l mod 16 = 0 \<and> tiles b p as"

fun tiled :: "frame list \<Rightarrow> (addr \<times> nat) list \<Rightarrow> bool" where
  "tiled [] as \<longleftrightarrow> as = []"
| "tiled ((b, m, e) # fs) as \<longleftrightarrow> m \<le> e \<and> (\<exists>as1 as2. as = as1 @ as2 \<and> tiles b m as1 \<and> tiled fs as2)"

definition next_chunk :: "(addr \<Rightarrow> chunk_header option) \<Rightarrow> addr \<Rightarrow> addr option option" where
  "next_chunk H a = map_option ch_next (H a)"

text \<open>
  \<open>E\<close> gives the end of every chunk. The chunks are disjoint from each other and from the initial
  buffer, which does not start inside of one; every chunk has room behind its header.
\<close>

definition apart :: "(addr \<Rightarrow> addr) \<Rightarrow> addr \<Rightarrow> nat \<Rightarrow> addr list \<Rightarrow> bool" where
  "apart E ib sz cs \<longleftrightarrow> distinct cs \<and> (\<forall>c\<in>set cs. 0 < c \<and> c mod 16 = 0 \<and> c + header_size < E c
       \<and> ib \<notin> {c<..<E c} \<and> {c..<E c} \<inter> {ib..<ib + sz} = {})
     \<and> (\<forall>c\<in>set cs. \<forall>d\<in>set cs. c \<noteq> d \<longrightarrow> {c..<E c} \<inter> {d..<E d} = {})"

definition cur_frame :: "stack_resource \<Rightarrow> frame" where
  "cur_frame s = (sr_b s, sr_m s, sr_e s)"

fun frame_ends :: "(addr \<Rightarrow> addr) \<Rightarrow> addr \<Rightarrow> frame list \<Rightarrow> bool" where
  "frame_ends E z [] \<longleftrightarrow> False"
| "frame_ends E z [(b, m, e)] \<longleftrightarrow> e = z"
| "frame_ends E z ((b, m, e) # f # fs) \<longleftrightarrow> e = E (b - header_size) \<and> frame_ends E z (f # fs)"

text \<open>A free chunk holds its own pointers, and is empty.\<close>

definition free_chunk :: "(addr \<Rightarrow> addr) \<Rightarrow> (addr \<Rightarrow> chunk_header option) \<Rightarrow> addr \<Rightarrow> bool" where
  "free_chunk E H c \<longleftrightarrow> (\<exists>nx. H c =
     Some \<lparr>ch_b = c + header_size, ch_m = c + header_size, ch_e = E c, ch_next = nx\<rparr>)"

definition sr_inv :: "stack_resource \<Rightarrow> (addr \<Rightarrow> addr) \<Rightarrow> frame list \<Rightarrow> addr list \<Rightarrow> (addr \<times> nat) list \<Rightarrow> bool" where
  "sr_inv s E fs free as \<longleftrightarrow> chain (sr_hdrs s) (sr_data s) (sr_b s) fs
     \<and> tiled (cur_frame s # fs) as \<and> frame_ends E (sr_data s + sr_size s) (cur_frame s # fs)
     \<and> sr_data s mod 16 = 0
     \<and> lseg (next_chunk (sr_hdrs s)) (sr_top s) free None
     \<and> (\<forall>c\<in>set free. free_chunk E (sr_hdrs s) c)
     \<and> apart E (sr_data s) (sr_size s) (chain_chunks (sr_b s) fs @ free)
     \<and> dom (sr_hdrs s) = set (chain_chunks (sr_b s) fs @ free)"

lemma chain_cong:
  "(\<And>c. c \<in> set (chain_chunks b fs) \<Longrightarrow> H' c = H c) \<Longrightarrow> chain H ib b fs \<Longrightarrow> chain H' ib b fs"
  by (induction H ib b fs rule: chain.induct) auto

lemma free_list_cong:
  "(\<And>c. c \<in> set cs \<Longrightarrow> H' c = H c) \<Longrightarrow> lseg (next_chunk H) p cs q \<Longrightarrow> lseg (next_chunk H') p cs q"
  using lseg_cong[of cs "next_chunk H'" "next_chunk H" p q] by (simp add: next_chunk_def)

lemma next_chunk_live [simp]: "H a = Some h \<Longrightarrow> next_chunk H a = Some (ch_next h)"
  by (simp add: next_chunk_def)

lemma next_chunk_upd [simp]: "next_chunk (H(c \<mapsto> h)) = (next_chunk H)(c := Some (ch_next h))"
  by (auto simp: next_chunk_def)

lemma tiled_le: "tiled ((b, m, e) # fs) as \<Longrightarrow> b \<le> m \<and> m \<le> e"
proof -
  have "tiles b m as \<Longrightarrow> b \<le> m" for b m as by (induction b m as rule: tiles.induct) auto
  then show "tiled ((b, m, e) # fs) as \<Longrightarrow> b \<le> m \<and> m \<le> e" by auto
qed

lemma apart_perm: "apart E ib sz cs \<Longrightarrow> mset ds = mset cs \<Longrightarrow> apart E ib sz ds"
proof -
  assume a: "apart E ib sz cs" and m: "mset ds = mset cs"
  have "set ds = set cs" using m by (metis set_mset_mset)
  moreover have "distinct ds = distinct cs" using m by (simp add: distinct_count_atmost_1 calculation)
  ultimately show ?thesis using a by (simp add: apart_def)
qed

text \<open>Dropping an empty chunk that is not the initial buffer.\<close>

lemma drop_cur_chunk_spec:
  assumes inv: "sr_inv s E ((b', m', e') # fs) free as" and m: "sr_m s = sr_b s"
    and as: "tiled ((b', m', e') # fs) as'"
  shows "\<exists>s'. drop_cur_chunk s = Some s' \<and> sr_inv s' E fs ((sr_b s - header_size) # free) as'
     \<and> cur_frame s' = (b', m', e') \<and> sr_data s' = sr_data s \<and> sr_size s' = sr_size s"
proof -
  let ?c = "sr_b s - header_size"
  from inv have ch: "chain (sr_hdrs s) (sr_data s) (sr_b s) ((b', m', e') # fs)"
    and fe: "frame_ends E (sr_data s + sr_size s) (cur_frame s # (b', m', e') # fs)"
    and fr: "lseg (next_chunk (sr_hdrs s)) (sr_top s) free None"
    and ap: "apart E (sr_data s) (sr_size s) (?c # chain_chunks b' fs @ free)"
    by (auto simp: sr_inv_def)
  from ch obtain nx where c: "sr_b s \<noteq> sr_data s" "header_size \<le> sr_b s"
    "sr_hdrs s ?c = Some \<lparr>ch_b = b', ch_m = m', ch_e = e', ch_next = nx\<rparr>"
    "chain (sr_hdrs s) (sr_data s) b' fs" by auto
  let ?h = "\<lparr>ch_b = sr_b s, ch_m = sr_b s, ch_e = sr_e s, ch_next = sr_top s\<rparr>"
  let ?H = "(sr_hdrs s)(?c \<mapsto> ?h)"
  let ?s = "s\<lparr>sr_b := b', sr_m := m', sr_e := e', sr_hdrs := ?H, sr_top := Some ?c\<rparr>"
  have d: "?c \<notin> set (chain_chunks b' fs)" "?c \<notin> set free" using ap by (auto simp: apart_def)
  have "drop_cur_chunk s = Some ?s"
    using c m by (simp add: drop_cur_chunk_def prev_chunk_def freelist_push_def)
  moreover have "chain ?H (sr_data s) b' fs" by (rule chain_cong[OF _ c(4)]) (use d in auto)
  moreover have "lseg (next_chunk ?H) (sr_top s) free None" by (rule free_list_cong[OF _ fr]) (use d in auto)
  then have "lseg (next_chunk ?H) (Some ?c) (?c # free) None" by simp
  moreover have "sr_e s = E ?c" using fe by (simp add: cur_frame_def)
  then have "\<forall>x\<in>set (?c # free). free_chunk E ?H x"
    using inv c(2) d by (auto simp: sr_inv_def free_chunk_def)
  moreover have "dom ?H = set (chain_chunks b' fs @ ?c # free)" using inv by (auto simp: sr_inv_def)
  moreover have "apart E (sr_data s) (sr_size s) (chain_chunks b' fs @ ?c # free)"
    by (rule apart_perm[OF ap]) simp
  ultimately show ?thesis
    using inv as fe by (intro exI[of _ ?s]) (simp add: sr_inv_def cur_frame_def)
qed

section \<open>Allocation\<close>

lemma take_loop_None: "take_loop n prev None s = Some (None, s)"
  by (simp add: take_loop.simps)

lemma take_loop_Some:
  "sr_hdrs s a = Some h \<Longrightarrow> ch_b h = ch_m h \<Longrightarrow> take_loop n prev (Some a) s =
     (if n \<le> capacity h then
        (case prev of
           Some p \<Rightarrow> do {
             ph \<leftarrow> sr_hdrs s p;
             Some (Some a, s\<lparr>sr_hdrs := (sr_hdrs s)(p \<mapsto> ph\<lparr>ch_next := ch_next h\<rparr>)\<rparr>) }
         | None \<Rightarrow> Some (Some a, s\<lparr>sr_top := ch_next h\<rparr>))
      else take_loop n (Some a) (ch_next h) s)"
  by (subst take_loop.simps) simp

text \<open>
  \<open>take_atleast\<close> finds the first chunk that is large enough and unlinks it; nothing but one \<open>next\<close>
  link changes.
\<close>

definition same_chunks :: "(addr \<Rightarrow> chunk_header option) \<Rightarrow> (addr \<Rightarrow> chunk_header option) \<Rightarrow> bool" where
  "same_chunks H H' \<longleftrightarrow>
     (\<forall>x. map_option (ch_next_update (\<lambda>_. None)) (H' x) = map_option (ch_next_update (\<lambda>_. None)) (H x))"

lemma take_loop_spec:
  assumes "lseg (next_chunk (sr_hdrs s)) (sr_top s) (pre @ free) None"
    "lseg (next_chunk (sr_hdrs s)) c free None" "\<forall>x\<in>set free. free_chunk E (sr_hdrs s) x"
    "prev = (if pre = [] then None else Some (last pre))"
  shows "take_loop n prev c s = Some (None, s)
     \<or> (\<exists>xs a ys H t. free = xs @ a # ys \<and> n \<le> E a - (a + header_size)
          \<and> take_loop n prev c s = Some (Some a, s\<lparr>sr_hdrs := H, sr_top := t\<rparr>)
          \<and> lseg (next_chunk H) t (pre @ xs @ ys) None
          \<and> same_chunks (sr_hdrs s) H \<and> (\<forall>x. x \<notin> set (pre @ xs) \<longrightarrow> H x = sr_hdrs s x))"
  using assms
proof (induction free arbitrary: pre prev c)
  case Nil
  then show ?case by (simp add: take_loop_None)
next
  case (Cons a free)
  from Cons.prems(2,3) obtain nx where c: "c = Some a" and h: "sr_hdrs s a =
      Some \<lparr>ch_b = a + header_size, ch_m = a + header_size, ch_e = E a, ch_next = nx\<rparr>"
    and rest: "lseg (next_chunk (sr_hdrs s)) nx free None"
    by (auto simp: free_chunk_def)
  have dist: "distinct (pre @ a # free)" by (rule lseg_distinct[OF Cons.prems(1)])
  show ?case
  proof (cases "n \<le> E a - (a + header_size)")
    case True
    then have fits: "n \<le> capacity \<lparr>ch_b = a + header_size, ch_m = a + header_size, ch_e = E a, ch_next = nx\<rparr>"
      by (simp add: capacity_def)
    show ?thesis
    proof (cases "pre = []")
      case True
      show ?thesis
        apply (rule disjI2, rule exI[of _ "[]"], rule exI[of _ a], rule exI[of _ free], rule exI[of _ "sr_hdrs s"], rule exI[of _ nx])
        using True fits h c Cons.prems(4) rest \<open>n \<le> E a - (a + header_size)\<close> by (simp add: take_loop_Some same_chunks_def)
    next
      case False
      then obtain pre' p where pre: "pre = pre' @ [p]" by (cases pre rule: rev_cases) auto
      with Cons.prems(1) have lp: "lseg (next_chunk (sr_hdrs s)) (sr_top s) pre' (Some p)"
        and np: "next_chunk (sr_hdrs s) p = Some (Some a)"
        by (auto simp: lseg_append split: option.splits)
      then obtain ph where ph: "sr_hdrs s p = Some ph" by (auto simp: next_chunk_def)
      let ?H = "(sr_hdrs s)(p \<mapsto> ph\<lparr>ch_next := nx\<rparr>)"
      have "lseg (next_chunk ?H) (sr_top s) pre' (Some p)" "lseg (next_chunk ?H) nx free None"
        using lp rest dist pre by auto
      then have lg: "lseg (next_chunk ?H) (sr_top s) (pre @ free) None" by (simp add: pre lseg_append)
      have sc: "same_chunks (sr_hdrs s) ?H" using ph by (auto simp: same_chunks_def)
      have "take_loop n prev c s = Some (Some a, s\<lparr>sr_hdrs := ?H, sr_top := sr_top s\<rparr>)"
        using fits h c Cons.prems(4) ph pre by (simp add: take_loop_Some)
      moreover have "?H x = sr_hdrs s x" if "x \<notin> set pre" for x using that pre by simp
      ultimately obtain H where "take_loop n prev c s = Some (Some a, s\<lparr>sr_hdrs := H, sr_top := sr_top s\<rparr>)"
        "lseg (next_chunk H) (sr_top s) (pre @ free) None" "same_chunks (sr_hdrs s) H"
        "\<And>x. x \<notin> set pre \<Longrightarrow> H x = sr_hdrs s x" using lg sc by blast
      note * = this
      show ?thesis
        apply (rule disjI2, rule exI[of _ "[]"], rule exI[of _ a], rule exI[of _ free], rule exI[of _ H], rule exI[of _ "sr_top s"])
        using * \<open>n \<le> E a - (a + header_size)\<close> by simp
    qed
  next
    case False
    then have t: "take_loop n prev c s = take_loop n (Some a) nx s"
      using h c by (simp add: take_loop_Some capacity_def)
    have "lseg (next_chunk (sr_hdrs s)) (sr_top s) ((pre @ [a]) @ free) None" using Cons.prems(1) by simp
    from Cons.IH[OF this rest] Cons.prems(3) consider "take_loop n (Some a) nx s = Some (None, s)"
      | xs b ys H u where "free = xs @ b # ys" "n \<le> E b - (b + header_size)"
        "take_loop n (Some a) nx s = Some (Some b, s\<lparr>sr_hdrs := H, sr_top := u\<rparr>)"
        "lseg (next_chunk H) u ((pre @ [a]) @ xs @ ys) None" "same_chunks (sr_hdrs s) H"
        "\<forall>x. x \<notin> set ((pre @ [a]) @ xs) \<longrightarrow> H x = sr_hdrs s x"
      by (auto simp: free_chunk_def)
    then show ?thesis
    proof cases
      case 1
      with t show ?thesis by simp
    next
      case 2
      show ?thesis
        apply (rule disjI2, rule exI[of _ "a # xs"], rule exI[of _ b], rule exI[of _ ys], rule exI[of _ H], rule exI[of _ u])
        using 2 t by simp
    qed
  qed
qed

definition fresh_block :: "addr \<Rightarrow> nat \<Rightarrow> stack_resource \<Rightarrow> (addr \<Rightarrow> addr) \<Rightarrow> bool" where
  "fresh_block a n s E \<longleftrightarrow> 0 < a \<and> a mod 16 = 0 \<and> sr_data s \<notin> {a<..<a + n}
     \<and> {a..<a + n} \<inter> {sr_data s..<sr_data s + sr_size s} = {}
     \<and> (\<forall>c\<in>dom (sr_hdrs s). c \<noteq> a \<and> {a..<a + n} \<inter> {c..<E c} = {})"

text \<open>The sums of \<open>allocate len\<close> do not wrap around.\<close>

definition size_fits :: "nat \<Rightarrow> stack_resource \<Rightarrow> bool" where
  "size_fits len s \<longleftrightarrow> (let n = len + padding_len coroframe_align len in n < 2 ^ 64
     \<and> (sr_e s - sr_m s < n \<longrightarrow> header_size + (n + (sr_e s - sr_b s) + sr_size s) * 2 < 2 ^ 64))"

lemma sr_aligned_mod [simp]: "sr_aligned n mod 16 = 0"
proof -
  have "sr_aligned n mod 16 = (n + padding_len 16 n) mod 16"
    unfolding sr_aligned_def coroframe_align_def by (rule mod_mod_cancel) simp
  then show ?thesis by simp
qed

lemma size_fits_aligned: "size_fits len s \<Longrightarrow> sr_aligned len = len + padding_len coroframe_align len"
  by (simp add: size_fits_def sr_aligned_def Let_def)

lemma sr_aligned_ge: "size_fits len s \<Longrightarrow> len \<le> sr_aligned len"
  by (simp add: size_fits_aligned)

lemma size_fits_new:
  assumes "size_fits len s" and "\<not> sr_aligned len \<le> sr_e s - sr_m s"
  shows "new_chunk_bytes (sr_aligned len) s = (sr_aligned len + (sr_e s - sr_b s) + sr_size s) * 2"
    and "new_chunk_request (sr_aligned len) s = header_size + new_chunk_bytes (sr_aligned len) s"
proof -
  have "header_size + (sr_aligned len + (sr_e s - sr_b s) + sr_size s) * 2 < 2 ^ 64"
    using assms by (simp add: size_fits_aligned[OF assms(1)]) (simp add: size_fits_def Let_def)
  then show new: "new_chunk_bytes (sr_aligned len) s = (sr_aligned len + (sr_e s - sr_b s) + sr_size s) * 2"
    and "new_chunk_request (sr_aligned len) s = header_size + new_chunk_bytes (sr_aligned len) s"
    unfolding new_chunk_request_def new_chunk_bytes_def by simp_all
qed

lemma frame_ends_m: "frame_ends E z ((b, m', e) # fs) = frame_ends E z ((b, m, e) # fs)"
  by (cases fs) auto

lemma frame_ends_cong: "(\<And>c. c \<in> set (chain_chunks b fs) \<Longrightarrow> E' c = E c) \<Longrightarrow>
    frame_ends E z ((b, m, e) # fs) \<Longrightarrow> frame_ends E' z ((b, m, e) # fs)"
proof (induction fs arbitrary: b m e)
  case (Cons f fs)
  then show ?case by (cases f) auto
qed simp

lemma same_chunks_free: "same_chunks H H' \<Longrightarrow> free_chunk E H c \<Longrightarrow> free_chunk E H' c"
proof -
  assume s: "same_chunks H H'" and "free_chunk E H c"
  then obtain nx where h: "H c = Some \<lparr>ch_b = c + header_size, ch_m = c + header_size, ch_e = E c, ch_next = nx\<rparr>"
    by (auto simp: free_chunk_def)
  with s obtain h' where h': "H' c = Some h'"
    "h'\<lparr>ch_next := None\<rparr> = \<lparr>ch_b = c + header_size, ch_m = c + header_size, ch_e = E c, ch_next = None\<rparr>"
    unfolding same_chunks_def by (metis (no_types, lifting) chunk_header.update_convs(4) map_option_eq_Some option.simps(9))
  then show ?thesis by (cases h') (simp add: free_chunk_def)
qed

lemma same_chunks_dom: "same_chunks H H' \<Longrightarrow> dom H' = dom H"
  unfolding same_chunks_def by (metis (no_types, lifting) dom_map_option_comp map_option_is_None domIff subsetI subset_antisym)

lemma free_chunk_live: "free_chunk E H c \<Longrightarrow> capacity (the (H c)) = E c - (c + header_size) \<and> H c \<noteq> None"
  by (auto simp: free_chunk_def capacity_def)

text \<open>The three branches of \<open>allocate\<close>.\<close>

lemma allocate_room:
  assumes inv: "sr_inv s E fs free as" and r: "sr_aligned len \<le> sr_e s - sr_m s"
  shows "sr_allocate nc len s = Some (sr_m s, s\<lparr>sr_m := sr_m s + sr_aligned len\<rparr>)"
    "sr_inv (s\<lparr>sr_m := sr_m s + sr_aligned len\<rparr>) E fs free ((sr_m s, sr_aligned len) # as)"
proof -
  show "sr_allocate nc len s = Some (sr_m s, s\<lparr>sr_m := sr_m s + sr_aligned len\<rparr>)"
    using r by (simp add: sr_allocate_def Let_def)
  from inv obtain as1 as2 where as: "as = as1 @ as2" "tiles (sr_b s) (sr_m s) as1" "tiled fs as2"
    and e: "sr_m s \<le> sr_e s" by (auto simp: sr_inv_def cur_frame_def)
  have "tiled ((sr_b s, sr_m s + sr_aligned len, sr_e s) # fs) ((sr_m s, sr_aligned len) # as)"
    unfolding tiled.simps using as e r
    by (intro conjI exI[of _ "(sr_m s, sr_aligned len) # as1"] exI[of _ as2]) auto
  moreover have "frame_ends E (sr_data s + sr_size s) ((sr_b s, sr_m s + sr_aligned len, sr_e s) # fs)"
    by (rule frame_ends_m[THEN iffD2, of _ _ _ "sr_m s"]) (use inv in \<open>simp add: sr_inv_def cur_frame_def\<close>)
  ultimately show "sr_inv (s\<lparr>sr_m := sr_m s + sr_aligned len\<rparr>) E fs free ((sr_m s, sr_aligned len) # as)"
    using inv by (simp add: sr_inv_def cur_frame_def)
qed

lemma apart_data: "apart E ib sz cs \<Longrightarrow> c \<in> set cs \<Longrightarrow> c + header_size \<noteq> ib \<and> c + header_size < E c"
  by (fastforce simp: apart_def header_size_def)

lemma allocate_reuse:
  assumes inv: "sr_inv s E fs free as" and r: "\<not> sr_aligned len \<le> sr_e s - sr_m s"
    and t: "take_atleast (sr_aligned len) s = Some (Some a, s\<lparr>sr_hdrs := H, sr_top := u\<rparr>)"
    and f: "free = xs @ a # ys" "sr_aligned len \<le> E a - (a + header_size)"
    and l: "lseg (next_chunk H) u (xs @ ys) None" "same_chunks (sr_hdrs s) H"
      "\<forall>x. x \<notin> set xs \<longrightarrow> H x = sr_hdrs s x"
  shows "\<exists>s'. sr_allocate nc len s = Some (a + header_size, s')
     \<and> sr_inv s' E (cur_frame s # fs) (xs @ ys) ((a + header_size, sr_aligned len) # as)
     \<and> sr_data s' = sr_data s \<and> sr_size s' = sr_size s \<and> dom (sr_hdrs s') = dom (sr_hdrs s)"
proof -
  let ?n = "sr_aligned len"
  have ap: "apart E (sr_data s) (sr_size s) (chain_chunks (sr_b s) fs @ xs @ a # ys)"
    using inv f by (simp add: sr_inv_def)
  have a: "a \<notin> set xs" "a \<notin> set ys" "a \<notin> set (chain_chunks (sr_b s) fs)"
    "set xs \<inter> set (chain_chunks (sr_b s) fs) = {}" using ap by (auto simp: apart_def)
  have "free_chunk E (sr_hdrs s) a" using inv f by (simp add: sr_inv_def)
  then obtain nx where ha: "H a = Some \<lparr>ch_b = a + header_size, ch_m = a + header_size, ch_e = E a, ch_next = nx\<rparr>"
    using l(3) a by (auto simp: free_chunk_def)
  let ?H = "H(a \<mapsto> \<lparr>ch_b = sr_b s, ch_m = sr_m s, ch_e = sr_e s, ch_next = nx\<rparr>)"
  let ?s = "s\<lparr>sr_b := a + header_size, sr_m := a + header_size + ?n, sr_e := E a, sr_hdrs := ?H, sr_top := u\<rparr>"
  have "sr_allocate nc len s = Some (a + header_size, ?s)"
    using r t ha by (simp add: sr_allocate_def)
  moreover have "chain ?H (sr_data s) (sr_b s) fs"
    by (rule chain_cong[of "sr_b s" fs ?H "sr_hdrs s"]) (use inv l(3) a in \<open>auto simp: sr_inv_def\<close>)
  moreover have "lseg (next_chunk ?H) u (xs @ ys) None"
    by (rule free_list_cong[OF _ l(1)]) (use a in auto)
  moreover have "free_chunk E ?H x" if "x \<in> set (xs @ ys)" for x
  proof -
    have "free_chunk E H x" by (rule same_chunks_free[OF l(2)]) (use inv f that in \<open>auto simp: sr_inv_def\<close>)
    moreover have "x \<noteq> a" using that a by auto
    ultimately show ?thesis by (simp add: free_chunk_def)
  qed
  moreover have "apart E (sr_data s) (sr_size s) (a # chain_chunks (sr_b s) fs @ xs @ ys)"
    by (rule apart_perm[OF ap]) simp
  moreover have d: "dom ?H = dom (sr_hdrs s)" using same_chunks_dom[OF l(2)] ha by auto
  moreover have "dom ?H = set (a # chain_chunks (sr_b s) fs @ xs @ ys)"
    unfolding d using inv f by (auto simp: sr_inv_def)
  moreover have "tiled ((a + header_size, a + header_size + ?n, E a) # cur_frame s # fs) ((a + header_size, ?n) # as)"
    unfolding tiled.simps(2)[of "a + header_size"]
    using inv f(2) apart_data[OF ap, of a]
    by (intro conjI exI[of _ "[(a + header_size, ?n)]"] exI[of _ as]) (auto simp: sr_inv_def)
  moreover have "a + header_size \<noteq> sr_data s" using apart_data[OF ap, of a] by simp
  ultimately show ?thesis
    using inv f by (intro exI[of _ ?s]) (simp add: sr_inv_def cur_frame_def)
qed

lemma apart_insert:
  assumes "apart E ib sz cs" "nc \<notin> set cs" "0 < nc" "nc mod 16 = 0" "nc + header_size < z"
    "ib \<notin> {nc<..<z}" "{nc..<z} \<inter> {ib..<ib + sz} = {}"
    "\<And>c. c \<in> set cs \<Longrightarrow> {nc..<z} \<inter> {c..<E c} = {}"
  shows "apart (E(nc := z)) ib sz (nc # cs)"
proof -
  have o: "(E(nc := z)) c = E c" if "c \<in> set cs" for c using that assms(2) by auto
  have "{c..<(E(nc := z)) c} \<inter> {d..<(E(nc := z)) d} = {}"
    if "c \<in> set (nc # cs)" "d \<in> set (nc # cs)" "c \<noteq> d" for c d
  proof (cases "c = nc")
    case True
    then have d: "d \<in> set cs" using that by auto
    from assms(8)[OF d] True o[OF d] show ?thesis by (simp only: fun_upd_same)
  next
    case c: False
    then have cs: "c \<in> set cs" using that by auto
    show ?thesis
    proof (cases "d = nc")
      case True
      from assms(8)[OF cs] True o[OF cs] show ?thesis by (simp only: fun_upd_same Int_commute)
    next
      case False
      then have d: "d \<in> set cs" using that by auto
      have "{c..<E c} \<inter> {d..<E d} = {}" using assms(1) cs d that(3) unfolding apart_def by blast
      then show ?thesis by (simp only: o[OF cs] o[OF d])
    qed
  qed
  moreover have "\<forall>c\<in>set (nc # cs). 0 < c \<and> c mod 16 = 0 \<and> c + header_size < (E(nc := z)) c
       \<and> ib \<notin> {c<..<(E(nc := z)) c} \<and> {c..<(E(nc := z)) c} \<inter> {ib..<ib + sz} = {}"
  proof
    fix c
    assume "c \<in> set (nc # cs)"
    then consider "c = nc" | "c \<in> set cs" by auto
    then show "0 < c \<and> c mod 16 = 0 \<and> c + header_size < (E(nc := z)) c
       \<and> ib \<notin> {c<..<(E(nc := z)) c} \<and> {c..<(E(nc := z)) c} \<inter> {ib..<ib + sz} = {}"
    proof cases
      case 1
      show ?thesis unfolding 1 fun_upd_same using assms(3-7) by blast
    next
      case 2
      show ?thesis unfolding o[OF 2] using assms(1) 2 unfolding apart_def by blast
    qed
  qed
  moreover have "distinct (nc # cs)" using assms(1,2) by (simp add: apart_def)
  ultimately show ?thesis unfolding apart_def by blast
qed

lemma allocate_new:
  assumes inv: "sr_inv s E fs free as" and r: "\<not> sr_aligned len \<le> sr_e s - sr_m s"
    and t: "take_atleast (sr_aligned len) s = Some (None, s)"
    and fits: "size_fits len s" and fresh': "fresh_block nc (new_chunk_request (sr_aligned len) s) s E"
  shows "\<exists>s'. sr_allocate nc len s = Some (nc + header_size, s')
     \<and> sr_inv s' (E(nc := nc + new_chunk_request (sr_aligned len) s)) (cur_frame s # fs) free
         ((nc + header_size, sr_aligned len) # as)
     \<and> sr_data s' = sr_data s \<and> sr_size s' = sr_size s \<and> dom (sr_hdrs s') = insert nc (dom (sr_hdrs s))"
proof -
  let ?n = "sr_aligned len" and ?k = "new_chunk_bytes (sr_aligned len) s"
  note new = size_fits_new[OF fits r]
  have fresh: "fresh_block nc (header_size + ?k) s E" using fresh' by (simp add: new(2))
  let ?E = "E(nc := nc + header_size + ?k)"
  let ?H = "(sr_hdrs s)(nc \<mapsto> \<lparr>ch_b = sr_b s, ch_m = sr_m s, ch_e = sr_e s, ch_next = None\<rparr>)"
  let ?s = "s\<lparr>sr_b := nc + header_size, sr_m := nc + header_size + ?n, sr_e := nc + header_size + ?k, sr_hdrs := ?H\<rparr>"
  have k: "?n \<le> ?k" "0 < ?k" using r by (simp_all add: new(1))
  have nc: "nc \<notin> set (chain_chunks (sr_b s) fs)" "nc \<notin> set free" "nc \<notin> dom (sr_hdrs s)"
    using fresh inv by (auto simp: fresh_block_def sr_inv_def)
  have "sr_allocate nc len s = Some (nc + header_size, ?s)" using r t by (simp add: sr_allocate_def Let_def)
  moreover have "chain ?H (sr_data s) (sr_b s) fs"
    by (rule chain_cong[of "sr_b s" fs ?H "sr_hdrs s"]) (use inv nc in \<open>auto simp: sr_inv_def\<close>)
  moreover have "lseg (next_chunk ?H) (sr_top s) free None"
    by (rule free_list_cong[of free ?H "sr_hdrs s"]) (use inv nc in \<open>auto simp: sr_inv_def\<close>)
  moreover have "free_chunk ?E ?H x" if "x \<in> set free" for x
    using inv that nc by (auto simp: sr_inv_def free_chunk_def)
  moreover have "apart ?E (sr_data s) (sr_size s) (nc # chain_chunks (sr_b s) fs @ free)"
  proof -
    have d: "dom (sr_hdrs s) = set (chain_chunks (sr_b s) fs @ free)" using inv by (simp add: sr_inv_def)
    show ?thesis
    proof (rule apart_insert)
      show "apart E (sr_data s) (sr_size s) (chain_chunks (sr_b s) fs @ free)" using inv by (simp add: sr_inv_def)
      show "{nc..<nc + header_size + ?k} \<inter> {c..<E c} = {}" if "c \<in> set (chain_chunks (sr_b s) fs @ free)" for c
        using that fresh d by (auto simp: fresh_block_def add.assoc)
    qed (use fresh k nc in \<open>auto simp: fresh_block_def add.assoc\<close>)
  qed
  moreover have "dom ?H = set (chain_chunks (nc + header_size) (cur_frame s # fs) @ free)"
    using inv by (auto simp: sr_inv_def cur_frame_def)
  moreover have "tiled ((nc + header_size, nc + header_size + ?n, nc + header_size + ?k) # cur_frame s # fs)
      ((nc + header_size, ?n) # as)"
    unfolding tiled.simps(2)[of "nc + header_size"]
    using inv k by (intro conjI exI[of _ "[(nc + header_size, ?n)]"] exI[of _ as]) (auto simp: sr_inv_def)
  moreover have "frame_ends ?E (sr_data s + sr_size s) (cur_frame s # fs)"
    unfolding cur_frame_def
    by (rule frame_ends_cong[of "sr_b s" fs ?E E]) (use inv nc in \<open>auto simp: sr_inv_def cur_frame_def\<close>)
  moreover have "nc + header_size \<noteq> sr_data s" using fresh k by (auto simp: fresh_block_def header_size_def)
  ultimately show ?thesis
    using inv by (intro exI[of _ ?s]) (simp add: sr_inv_def cur_frame_def new(2) add.assoc[symmetric])
qed

section \<open>Where the allocations lie\<close>

lemma tiles_le: "tiles b m as \<Longrightarrow> b \<le> m"
  by (induction b m as rule: tiles.induct) auto

lemma tiles_bounds: "tiles b m as \<Longrightarrow> (p, l) \<in> set as \<Longrightarrow> b \<le> p \<and> p + l \<le> m"
proof (induction b m as rule: tiles.induct)
  case (2 b m p' l' as)
  then have "b \<le> p'" using tiles_le by auto
  then show ?case using 2 by fastforce
qed simp

lemma tiles_aligned: "tiles b m as \<Longrightarrow> b mod 16 = 0 \<Longrightarrow> m mod 16 = 0 \<and> (\<forall>(p, l)\<in>set as. p mod 16 = 0)"
proof (induction b m as rule: tiles.induct)
  case (2 b m p l as)
  then have "p mod 16 = 0" "l mod 16 = 0" "\<forall>(p, l)\<in>set as. p mod 16 = 0" by auto
  moreover have "m = p + l" using 2 by simp
  ultimately show ?case by (simp add: mod_add_eq[of p 16 l, symmetric])
qed simp

lemma alloc_zone:
  assumes "chain H ib b fs" "tiled ((b, m, e) # fs) as" "frame_ends E (ib + sz) ((b, m, e) # fs)"
    "(p, l) \<in> set as"
  shows "(ib \<le> p \<and> p + l \<le> ib + sz) \<or> (\<exists>c\<in>set (chain_chunks b fs). c + header_size \<le> p \<and> p + l \<le> E c)"
  using assms
proof (induction fs arbitrary: b m e as)
  case Nil
  then show ?case using tiles_bounds[of b m as p l] by auto
next
  case (Cons f fs)
  obtain b' m' e' where f: "f = (b', m', e')" by (cases f)
  from Cons.prems(2) obtain as1 as2 where as: "as = as1 @ as2" "tiles b m as1" "tiled (f # fs) as2" "m \<le> e"
    by auto
  have c: "header_size \<le> b" "chain H ib b' fs" "frame_ends E (ib + sz) (f # fs)" "e = E (b - header_size)"
    using Cons.prems(1,3) by (auto simp: f)
  show ?case
  proof (cases "(p, l) \<in> set as1")
    case True
    with tiles_bounds[OF as(2) True] as(4) c show ?thesis by (auto simp: f)
  next
    case False
    then have "(p, l) \<in> set as2" using Cons.prems(4) as(1) by auto
    from Cons.IH[OF c(2) as(3)[unfolded f] c(3)[unfolded f] this] show ?thesis by (auto simp: f)
  qed
qed

lemma alloc_aligned:
  assumes "chain H ib b fs" "tiled ((b, m, e) # fs) as" "ib mod 16 = 0"
    "\<forall>c\<in>set (chain_chunks b fs). c mod 16 = 0" "(p, l) \<in> set as"
  shows "p mod 16 = 0"
  using assms
proof (induction fs arbitrary: b m e as)
  case Nil
  then show ?case using tiles_aligned[of b m as] by auto
next
  case (Cons f fs)
  obtain b' m' e' where f: "f = (b', m', e')" by (cases f)
  from Cons.prems(2) obtain as1 as2 where as: "as = as1 @ as2" "tiles b m as1" "tiled (f # fs) as2"
    by auto
  have c: "header_size \<le> b" "chain H ib b' fs" "\<forall>c\<in>set (chain_chunks b' fs). c mod 16 = 0"
    "(b - header_size) mod 16 = 0"
    using Cons.prems(1,4) by (auto simp: f)
  have "b mod 16 = 0"
  proof -
    have "b = (b - header_size) + 2 * 16" using c(1) by (simp add: header_size_def)
    with c(4) show ?thesis by (metis mod_mult_self1)
  qed
  then show ?case
    using tiles_aligned[OF as(2)] Cons.IH[OF c(2) as(3)[unfolded f] Cons.prems(3) c(3)] Cons.prems(5) as(1) by auto
qed

lemma ivl_apart:
  fixes a b c d :: nat
  assumes "a < b" "c < d" "{a..<b} \<inter> {c..<d} = {}"
  shows "b \<le> c \<or> d \<le> a"
proof (rule ccontr)
  assume "\<not> (b \<le> c \<or> d \<le> a)"
  then have "max a c \<in> {a..<b} \<inter> {c..<d}" using assms by auto
  with assms(3) show False by blast
qed

text \<open>An allocation of an older frame touches the current chunk neither inside nor at its start.\<close>

lemma older_alloc_outside:
  assumes inv: "sr_inv s E (f # fs) free as" and t: "tiled (f # fs) as'" and p: "(p, l) \<in> set as'"
  shows "p + l \<noteq> sr_b s \<and> (p + l \<le> sr_b s \<or> sr_e s \<le> p)"
proof -
  obtain b' m' e' where f: "f = (b', m', e')" by (cases f)
  let ?c = "sr_b s - header_size"
  have c: "header_size \<le> sr_b s" "chain (sr_hdrs s) (sr_data s) b' fs"
    "frame_ends E (sr_data s + sr_size s) (f # fs)" "sr_e s = E ?c"
    and ap: "apart E (sr_data s) (sr_size s) (?c # chain_chunks b' fs @ free)"
    using inv by (auto simp: sr_inv_def cur_frame_def f)
  have k: "?c + header_size = sr_b s" "?c + header_size < E ?c" "sr_data s \<notin> {?c<..<E ?c}"
    "{?c..<E ?c} \<inter> {sr_data s..<sr_data s + sr_size s} = {}"
    using ap c(1) by (auto simp: apart_def)
  from alloc_zone[OF c(2) t[unfolded f] c(3)[unfolded f] p] show ?thesis
  proof
    assume z: "sr_data s \<le> p \<and> p + l \<le> sr_data s + sr_size s"
    show ?thesis
    proof (cases "sr_size s = 0")
      case True
      with z k c(4) show ?thesis by (auto simp: header_size_def)
    next
      case False
      then have "E ?c \<le> sr_data s \<or> sr_data s + sr_size s \<le> ?c"
        using ivl_apart[of ?c "E ?c" "sr_data s" "sr_data s + sr_size s"] k by auto
      with z k c(4) show ?thesis by (auto simp: header_size_def)
    qed
  next
    assume "\<exists>c\<in>set (chain_chunks b' fs). c + header_size \<le> p \<and> p + l \<le> E c"
    then obtain d where d: "d \<in> set (chain_chunks b' fs)" "d + header_size \<le> p" "p + l \<le> E d" by blast
    have "?c \<notin> set (chain_chunks b' fs)" using ap unfolding apart_def by simp
    with d(1) have "d \<noteq> ?c" by metis
    moreover have "d + header_size < E d" using ap d(1) unfolding apart_def by simp
    moreover have "d \<in> set (?c # chain_chunks b' fs @ free)" "?c \<in> set (?c # chain_chunks b' fs @ free)"
      using d(1) by simp_all
    ultimately have "d + header_size < E d" "{?c..<E ?c} \<inter> {d..<E d} = {}"
      using ap unfolding apart_def by metis+
    then have "E ?c \<le> d \<or> E d \<le> ?c" using ivl_apart[of ?c "E ?c" d "E d"] k by auto
    with d k c(4) show ?thesis by (auto simp: header_size_def)
  qed
qed

section \<open>Deallocation\<close>

lemma dealloc_here: "p + l = sr_m s \<Longrightarrow> dealloc_loop p l s = Some (s\<lparr>sr_m := sr_m s - l\<rparr>)"
  by (simp add: dealloc_loop.simps)

lemma dealloc_drop:
  "p + l \<noteq> sr_m s \<Longrightarrow> p \<le> sr_b s \<or> sr_e s \<le> p \<Longrightarrow> drop_cur_chunk s = Some s' \<Longrightarrow>
     dealloc_loop p l s = dealloc_loop p l s'"
  by (subst dealloc_loop.simps) simp

lemma dealloc_loop_spec:
  assumes "sr_inv s E fs free ((p, l) # as)"
  shows "\<exists>s' fs' free'. dealloc_loop p l s = Some s' \<and> sr_inv s' E fs' free' as
     \<and> sr_data s' = sr_data s \<and> sr_size s' = sr_size s \<and> dom (sr_hdrs s') = dom (sr_hdrs s)"
  using assms
proof (induction fs arbitrary: s free)
  case (Nil s free)
  then have m: "p + l = sr_m s" "tiled [(sr_b s, p, sr_e s)] as" by (auto simp: sr_inv_def cur_frame_def)
  then have "sr_inv (s\<lparr>sr_m := p\<rparr>) E [] free as"
    using Nil by (auto simp: sr_inv_def cur_frame_def)
  with dealloc_here[OF m(1)] m(1) show ?case
    by (intro exI[of _ "s\<lparr>sr_m := p\<rparr>"] exI[of _ "[]"] exI[of _ free]) auto
next
  case (Cons f fs s free)
  from Cons.prems obtain as1 as2 where as: "(p, l) # as = as1 @ as2" "tiles (sr_b s) (sr_m s) as1"
    "tiled (f # fs) as2" "sr_m s \<le> sr_e s" by (auto simp: sr_inv_def cur_frame_def)
  show ?case
  proof (cases as1)
    case Nil
    with as have m: "sr_m s = sr_b s" and t: "tiled (f # fs) ((p, l) # as)" by auto
    obtain b' m' e' where f: "f = (b', m', e')" by (cases f)
    from drop_cur_chunk_spec[OF Cons.prems[unfolded f] m t[unfolded f]] obtain s1 where
      s1: "drop_cur_chunk s = Some s1" "sr_inv s1 E fs ((sr_b s - header_size) # free) ((p, l) # as)"
        "sr_data s1 = sr_data s" "sr_size s1 = sr_size s" "cur_frame s1 = (b', m', e')" by blast
    have "dom (sr_hdrs s1) = dom (sr_hdrs s)"
      using s1(2,5) Cons.prems by (auto simp: sr_inv_def f cur_frame_def)
    moreover have "p + l \<noteq> sr_m s" "p \<le> sr_b s \<or> sr_e s \<le> p"
      using older_alloc_outside[OF Cons.prems t, of p l] m by auto
    ultimately show ?thesis using Cons.IH[OF s1(2)] s1 by (simp add: dealloc_drop)
  next
    case (Cons x as1')
    with as have x: "x = (p, l)" "as = as1' @ as2" and m: "p + l = sr_m s" by auto
    have "tiled ((sr_b s, p, sr_e s) # f # fs) as"
      unfolding tiled.simps(2)[of "sr_b s"] using as Cons x m by (intro conjI exI[of _ as1'] exI[of _ as2]) auto
    moreover have "frame_ends E (sr_data s + sr_size s) ((sr_b s, p, sr_e s) # f # fs)"
      by (rule frame_ends_m[THEN iffD2, of _ _ _ "sr_m s"]) (use Cons.prems in \<open>simp add: sr_inv_def cur_frame_def\<close>)
    ultimately have "sr_inv (s\<lparr>sr_m := p\<rparr>) E (f # fs) free as"
      using \<open>sr_inv s E (f # fs) free ((p, l) # as)\<close> by (simp add: sr_inv_def cur_frame_def)
    with dealloc_here[OF m] m show ?thesis
      by (intro exI[of _ "s\<lparr>sr_m := p\<rparr>"] exI[of _ "f # fs"] exI[of _ free]) auto
  qed
qed

section \<open>\<open>reuse_memory\<close> and the destructor\<close>

lemma reuse_memory_done: "sr_b s = sr_data s \<Longrightarrow> reuse_memory s = Some s"
  by (simp add: reuse_memory.simps)

lemma reuse_memory_drop:
  "sr_b s \<noteq> sr_data s \<Longrightarrow> drop_cur_chunk (s\<lparr>sr_m := sr_b s\<rparr>) = Some s' \<Longrightarrow> reuse_memory s = reuse_memory s'"
  by (subst reuse_memory.simps) simp

text \<open>
  It returns with the initial buffer as the current one and every chunk free; what was allocated in
  chunks (\<open>as1\<close>) is given back, what was allocated in the initial buffer (\<open>as0\<close>) is not.
\<close>

lemma reuse_memory_spec:
  assumes "sr_inv s E fs free as"
  shows "\<exists>s' free' as1 as0. as = as1 @ as0 \<and> reuse_memory s = Some s' \<and> sr_inv s' E [] free' as0
     \<and> sr_data s' = sr_data s \<and> sr_size s' = sr_size s \<and> dom (sr_hdrs s') = dom (sr_hdrs s)
     \<and> (\<forall>(p, l)\<in>set as1. \<exists>c\<in>dom (sr_hdrs s). c + header_size \<le> p \<and> p + l \<le> E c)"
  using assms
proof (induction fs arbitrary: s free as)
  case (Nil s free as)
  then have "sr_b s = sr_data s" by (simp add: sr_inv_def)
  with Nil reuse_memory_done[OF this] show ?case
    by (intro exI[of _ s] exI[of _ free] exI[of _ "[]"] exI[of _ as]) auto
next
  case (Cons f fs s free as)
  obtain b' m' e' where f: "f = (b', m', e')" by (cases f)
  from Cons.prems obtain as1 as2 where as: "as = as1 @ as2" "tiles (sr_b s) (sr_m s) as1"
    "tiled (f # fs) as2" "sr_m s \<le> sr_e s" by (auto simp: sr_inv_def cur_frame_def)
  let ?s = "s\<lparr>sr_m := sr_b s\<rparr>"
  let ?c = "sr_b s - header_size"
  have b: "sr_b s \<noteq> sr_data s" "header_size \<le> sr_b s" "sr_e s = E ?c" "?c \<in> dom (sr_hdrs s)"
    using Cons.prems by (auto simp: sr_inv_def cur_frame_def f)
  have "tiled ((sr_b s, sr_b s, sr_e s) # f # fs) as2"
    unfolding tiled.simps(2)[of "sr_b s"] using as tiles_le[OF as(2)]
    by (intro conjI exI[of _ "[]"] exI[of _ as2]) auto
  moreover have "frame_ends E (sr_data s + sr_size s) ((sr_b s, sr_b s, sr_e s) # f # fs)"
    by (rule frame_ends_m[THEN iffD2, of _ _ _ "sr_m s"]) (use Cons.prems in \<open>simp add: sr_inv_def cur_frame_def\<close>)
  ultimately have inv: "sr_inv ?s E (f # fs) free as2"
    using Cons.prems by (simp add: sr_inv_def cur_frame_def)
  from drop_cur_chunk_spec[OF inv[unfolded f] _ as(3)[unfolded f]] obtain s1 where
    s1: "drop_cur_chunk ?s = Some s1" "sr_inv s1 E fs (?c # free) as2" "cur_frame s1 = (b', m', e')"
      "sr_data s1 = sr_data s" "sr_size s1 = sr_size s" by auto
  have d: "dom (sr_hdrs s1) = dom (sr_hdrs s)"
    using s1(2,3) Cons.prems by (auto simp: sr_inv_def f cur_frame_def)
  have z: "\<exists>c\<in>dom (sr_hdrs s). c + header_size \<le> p \<and> p + l \<le> E c" if "(p, l) \<in> set as1" for p l
    using tiles_bounds[OF as(2) that] as(4) b by (intro bexI[of _ ?c]) auto
  from Cons.IH[OF s1(2)] obtain s' free' as3 as0 where
    r: "as2 = as3 @ as0" "reuse_memory s1 = Some s'" "sr_inv s' E [] free' as0"
      "sr_data s' = sr_data s1" "sr_size s' = sr_size s1" "dom (sr_hdrs s') = dom (sr_hdrs s1)"
      "\<forall>(p, l)\<in>set as3. \<exists>c\<in>dom (sr_hdrs s1). c + header_size \<le> p \<and> p + l \<le> E c" by blast
  with s1 d z as(1) reuse_memory_drop[OF b(1) s1(1)] show ?case
    by (intro exI[of _ s'] exI[of _ free'] exI[of _ "as1 @ as3"] exI[of _ as0]) auto
qed

lemma drop_all_None: "sr_top s = None \<Longrightarrow> drop_all s = Some ([], s)"
  by (simp add: drop_all.simps)

lemma drop_all_Some:
  "sr_top s = Some a \<Longrightarrow> sr_hdrs s a = Some h \<Longrightarrow> drop_all s = do {
     (ds, s') \<leftarrow> drop_all (s\<lparr>sr_hdrs := (sr_hdrs s)(a := None), sr_top := ch_next h\<rparr>);
     Some (a # ds, s') }"
  by (subst drop_all.simps) simp

lemma drop_all_spec:
  assumes "lseg (next_chunk (sr_hdrs s)) (sr_top s) free None"
  shows "\<exists>s'. drop_all s = Some (free, s') \<and> dom (sr_hdrs s') = dom (sr_hdrs s) - set free"
  using assms
proof (induction free arbitrary: s)
  case Nil
  then show ?case by (simp add: drop_all_None)
next
  case (Cons a free)
  then obtain h where h: "sr_top s = Some a" "sr_hdrs s a = Some h"
    and l: "lseg (next_chunk (sr_hdrs s)) (ch_next h) free None"
    by (cases "sr_hdrs s a") (auto simp: next_chunk_def[of _ a])
  have "a \<notin> set free" using lseg_distinct[OF Cons.prems] by simp
  let ?s = "s\<lparr>sr_hdrs := (sr_hdrs s)(a := None), sr_top := ch_next h\<rparr>"
  have "lseg (next_chunk ((sr_hdrs s)(a := None))) (ch_next h) free None"
    by (rule free_list_cong[OF _ l]) (use \<open>a \<notin> set free\<close> in auto)
  then have "lseg (next_chunk (sr_hdrs ?s)) (sr_top ?s) free None" by simp
  from Cons.IH[OF this] obtain s' where "drop_all ?s = Some (free, s')"
    "dom (sr_hdrs s') = dom (sr_hdrs ?s) - set free" by blast
  with drop_all_Some[OF h] show ?case by auto
qed

lemma stack_resource_dtor_spec:
  assumes "sr_inv s E fs free as"
  shows "\<exists>ds s'. stack_resource_dtor s = Some (ds, s') \<and> distinct ds \<and> set ds = dom (sr_hdrs s)
     \<and> sr_hdrs s' = Map.empty"
proof -
  from reuse_memory_spec[OF assms] obtain s1 free1 as0 where r: "reuse_memory s = Some s1"
    "sr_inv s1 E [] free1 as0" "dom (sr_hdrs s1) = dom (sr_hdrs s)" by blast
  then have l: "lseg (next_chunk (sr_hdrs s1)) (sr_top s1) free1 None" and d: "dom (sr_hdrs s1) = set free1"
    by (simp_all add: sr_inv_def)
  from drop_all_spec[OF l] d lseg_distinct[OF l] r show ?thesis
    by (auto simp: stack_resource_dtor_def)
qed

section \<open>Runs\<close>

text \<open>
  \<open>sr_run s E as\<close>: \<open>s\<close> is reachable by allocations, deallocations of the last allocation, and moves;
  \<open>as\<close> are the live allocations, the latest first, with the lengths asked for; \<open>E\<close> are the ends of
  the blocks got from \<open>operator new\<close>, which returns fresh, aligned memory (\<open>fresh_block\<close>). The lengths asked
  for are such that no sum of \<open>allocate\<close> wraps around (\<open>size_fits\<close>).
\<close>

inductive sr_run :: "stack_resource \<Rightarrow> (addr \<Rightarrow> addr) \<Rightarrow> (addr \<times> nat) list \<Rightarrow> bool" where
  init: "sr_run (stack_resource_ctor ptr sz) (\<lambda>_. 0) []"
| allocate: "sr_run s E as \<Longrightarrow> size_fits len s \<Longrightarrow>
    fresh_block nc (new_chunk_request (sr_aligned len) s) s E \<Longrightarrow>
    sr_allocate nc len s = Some (p, s') \<Longrightarrow>
    E' = (if nc \<in> dom (sr_hdrs s') then E(nc := nc + new_chunk_request (sr_aligned len) s) else E) \<Longrightarrow>
    sr_run s' E' ((p, len) # as)"
| deallocate: "sr_run s E ((p, len) # as) \<Longrightarrow> sr_deallocate p len s = Some s' \<Longrightarrow> sr_run s' E as"
| move: "sr_run s E as \<Longrightarrow> stack_resource_move s = (s', old) \<Longrightarrow> sr_run s' E as"

abbreviation rounded :: "(addr \<times> nat) list \<Rightarrow> (addr \<times> nat) list" where
  "rounded as \<equiv> map (\<lambda>(p, len). (p, sr_aligned len)) as"

lemma allocate_spec:
  assumes inv: "sr_inv s E fs free as" and fits: "size_fits len s"
    and fresh: "fresh_block nc (new_chunk_request (sr_aligned len) s) s E"
  shows "\<exists>p s' fs' free'. sr_allocate nc len s = Some (p, s')
     \<and> sr_inv s' (if nc \<in> dom (sr_hdrs s') then E(nc := nc + new_chunk_request (sr_aligned len) s) else E)
         fs' free' ((p, sr_aligned len) # as)"
proof (cases "sr_aligned len \<le> sr_e s - sr_m s")
  case True
  from allocate_room[OF inv True] fresh show ?thesis by (auto simp: fresh_block_def)
next
  case False
  from inv have l: "lseg (next_chunk (sr_hdrs s)) (sr_top s) ([] @ free) None"
    and f: "\<forall>x\<in>set free. free_chunk E (sr_hdrs s) x" by (simp_all add: sr_inv_def)
  from take_loop_spec[OF l _ f, of "sr_top s" None "sr_aligned len"] l
  consider "take_atleast (sr_aligned len) s = Some (None, s)"
    | xs a ys H u where "free = xs @ a # ys" "sr_aligned len \<le> E a - (a + header_size)"
      "take_atleast (sr_aligned len) s = Some (Some a, s\<lparr>sr_hdrs := H, sr_top := u\<rparr>)"
      "lseg (next_chunk H) u (xs @ ys) None" "same_chunks (sr_hdrs s) H"
      "\<forall>x. x \<notin> set xs \<longrightarrow> H x = sr_hdrs s x"
    unfolding take_atleast_def by auto
  then show ?thesis
  proof cases
    case 1
    from allocate_new[OF inv False 1 fits fresh] show ?thesis by fastforce
  next
    case 2
    from allocate_reuse[OF inv False 2(3,1,2,4-6), of nc] fresh show ?thesis by (fastforce simp: fresh_block_def)
  qed
qed

lemma deallocate_spec:
  assumes "sr_inv s E fs free ((p, sr_aligned len) # as)"
  shows "\<exists>s' fs' free'. sr_deallocate p len s = Some s' \<and> sr_inv s' E fs' free' as"
proof -
  have "p mod 16 = 0"
    by (rule alloc_aligned[of "sr_hdrs s" "sr_data s" "sr_b s" fs "sr_m s" "sr_e s" "(p, sr_aligned len) # as" p "sr_aligned len"])
      (use assms in \<open>simp_all add: sr_inv_def cur_frame_def apart_def\<close>)
  with dealloc_loop_spec[OF assms] show ?thesis by (auto simp: sr_deallocate_def)
qed

lemma sr_run_inv: "sr_run s E as \<Longrightarrow> \<exists>fs free. sr_inv s E fs free (rounded as)"
proof (induction rule: sr_run.induct)
  case (init ptr sz)
  have "fst (align_span ptr sz) mod 16 = 0"
    using padding_len_mod[of 16 ptr] by (simp add: align_span_def coroframe_align_def Let_def)
  then show ?case
    by (intro exI[of _ "[]"]) (auto simp: sr_inv_def stack_resource_ctor_def cur_frame_def apart_def Let_def
        split: prod.splits)
next
  case (allocate s E as nc len p s' E')
  then obtain fs free where "sr_inv s E fs free (rounded as)" by blast
  from allocate_spec[OF this allocate.hyps(2,3)] allocate.hyps(4) show ?case
    unfolding allocate.hyps(5) by (simp del: fun_upd_apply)
next
  case (deallocate s E p len as s')
  then show ?case using deallocate_spec[of s E _ _ p len "rounded as"] by fastforce
next
  case (move s E as s' old)
  then show ?case by (simp add: stack_resource_move_def)
qed

lemma sr_run_fits: "sr_run s E as \<Longrightarrow> (p, len) \<in> set as \<Longrightarrow> len \<le> sr_aligned len"
  by (induction rule: sr_run.induct) (auto dest: sr_aligned_ge)

text \<open>Allocations are pairwise disjoint.\<close>

lemma tiles_disjoint: "tiles b m as \<Longrightarrow> sorted_wrt (\<lambda>(p, l) (q, k). q + k \<le> p) as"
proof (induction b m as rule: tiles.induct)
  case (2 b m p l as)
  then show ?case using tiles_bounds[of b p as] by auto
qed simp

lemma alloc_disjoint:
  assumes "sr_inv s E fs free as"
  shows "sorted_wrt (\<lambda>(p, l) (q, k). p + l \<le> q \<or> q + k \<le> p) as"
  using assms
proof (induction fs arbitrary: s free as)
  case (Nil s free as)
  then have "tiles (sr_b s) (sr_m s) as" by (auto simp: sr_inv_def cur_frame_def)
  from tiles_disjoint[OF this] show ?case by (rule sorted_wrt_mono_rel[rotated]) auto
next
  case (Cons f fs s free as)
  from Cons.prems obtain as1 as2 where as: "as = as1 @ as2" "tiles (sr_b s) (sr_m s) as1"
    "tiled (f # fs) as2" "sr_m s \<le> sr_e s" by (auto simp: sr_inv_def cur_frame_def)
  obtain b' m' e' where f: "f = (b', m', e')" by (cases f)
  let ?s = "s\<lparr>sr_m := sr_b s\<rparr>"
  have "tiled ((sr_b s, sr_b s, sr_e s) # f # fs) as2"
    unfolding tiled.simps(2)[of "sr_b s"] using as tiles_le[OF as(2)]
    by (intro conjI exI[of _ "[]"] exI[of _ as2]) auto
  moreover have "frame_ends E (sr_data s + sr_size s) ((sr_b s, sr_b s, sr_e s) # f # fs)"
    by (rule frame_ends_m[THEN iffD2, of _ _ _ "sr_m s"]) (use Cons.prems in \<open>simp add: sr_inv_def cur_frame_def\<close>)
  ultimately have inv: "sr_inv ?s E (f # fs) free as2" using Cons.prems by (simp add: sr_inv_def cur_frame_def)
  from drop_cur_chunk_spec[OF inv[unfolded f] _ as(3)[unfolded f]] Cons.IH
  have 2: "sorted_wrt (\<lambda>(p, l) (q, k). p + l \<le> q \<or> q + k \<le> p) as2" by auto
  have 1: "sorted_wrt (\<lambda>(p, l) (q, k). p + l \<le> q \<or> q + k \<le> p) as1"
    using tiles_disjoint[OF as(2)] by (rule sorted_wrt_mono_rel[rotated]) auto
  have "q + k \<le> sr_b s \<or> sr_e s \<le> q" if "(q, k) \<in> set as2" for q k
    using older_alloc_outside[OF inv as(3) that] by simp
  with 1 2 as tiles_bounds[OF as(2)] show ?case by (fastforce simp: sorted_wrt_append)
qed

section \<open>Properties\<close>

text \<open>
  C24. In every run of a stack resource in which no length asked for is so large that the \<open>size_t\<close> sums of
  \<open>allocate\<close> wrap around (\<open>size_fits\<close>, a premise of each allocation of \<open>sr_run\<close>), the live allocations are
  aligned, lie in the initial buffer or behind the header of a chunk, and are pairwise disjoint (also from
  every chunk header), whatever the order of allocations, chunk changes and reuse of free chunks.
\<close>

theorem stack_resource_layout:
  assumes "sr_run s E as"
  shows "(\<forall>(p, len)\<in>set as. p mod 16 = 0
       \<and> ((sr_data s \<le> p \<and> p + len \<le> sr_data s + sr_size s)
          \<or> (\<exists>c\<in>dom (sr_hdrs s). c + header_size \<le> p \<and> p + len \<le> E c)))
     \<and> sorted_wrt (\<lambda>(p, l) (q, k). p + l \<le> q \<or> q + k \<le> p) as"
proof -
  from sr_run_inv[OF assms] obtain fs free where inv: "sr_inv s E fs free (rounded as)" by blast
  have "p mod 16 = 0 \<and> ((sr_data s \<le> p \<and> p + len \<le> sr_data s + sr_size s)
          \<or> (\<exists>c\<in>dom (sr_hdrs s). c + header_size \<le> p \<and> p + len \<le> E c))" if "(p, len) \<in> set as" for p len
  proof -
    have m: "(p, sr_aligned len) \<in> set (rounded as)" using that by force
    have "p mod 16 = 0"
      by (rule alloc_aligned[of "sr_hdrs s" "sr_data s" "sr_b s" fs "sr_m s" "sr_e s" "rounded as" p "sr_aligned len"])
        (use inv m in \<open>simp_all add: sr_inv_def cur_frame_def apart_def\<close>)
    moreover have "(sr_data s \<le> p \<and> p + sr_aligned len \<le> sr_data s + sr_size s)
        \<or> (\<exists>c\<in>set (chain_chunks (sr_b s) fs). c + header_size \<le> p \<and> p + sr_aligned len \<le> E c)"
      by (rule alloc_zone[of "sr_hdrs s" _ _ _ "sr_m s" "sr_e s" "rounded as"])
        (use inv m in \<open>simp_all add: sr_inv_def cur_frame_def\<close>)
    moreover have "set (chain_chunks (sr_b s) fs) \<subseteq> dom (sr_hdrs s)" using inv by (auto simp: sr_inv_def)
    ultimately show ?thesis using sr_run_fits[OF assms that] by (meson add_left_mono le_trans subsetD)
  qed
  moreover have "sorted_wrt (\<lambda>(p, l) (q, k). p + l \<le> q \<or> q + k \<le> p) as"
  proof -
    have "sorted_wrt (\<lambda>x y. (\<lambda>(p, l) (q, k). p + l \<le> q \<or> q + k \<le> p) ((\<lambda>(p, len). (p, sr_aligned len)) x)
        ((\<lambda>(p, len). (p, sr_aligned len)) y)) as"
      using alloc_disjoint[OF inv] by (simp add: sorted_wrt_map)
    then show ?thesis
    proof (rule sorted_wrt_mono_rel[rotated], clarsimp)
      fix p l q k
      assume "(p, l) \<in> set as" "(q, k) \<in> set as" "p + sr_aligned l \<le> q \<or> q + sr_aligned k \<le> p" "\<not> q + k \<le> p"
      then show "p + l \<le> q" using sr_run_fits[OF assms, of p l] sr_run_fits[OF assms, of q k] by linarith
    qed
  qed
  ultimately show ?thesis by blast
qed

text \<open>
  No operation of a run fails: given fresh memory, \<open>allocate\<close> returns (its assertions hold and its
  search of the free list ends), and \<open>deallocate\<close> of the last allocation returns, through however
  many empty chunks it has to go back, with all of its assertions met.
\<close>

theorem stack_resource_total:
  assumes "sr_run s E as"
  shows "(size_fits len s \<and> fresh_block nc (new_chunk_request (sr_aligned len) s) s E \<longrightarrow> sr_allocate nc len s \<noteq> None)
     \<and> (as \<noteq> [] \<longrightarrow> sr_deallocate (fst (hd as)) (snd (hd as)) s \<noteq> None)"
proof -
  from sr_run_inv[OF assms] obtain fs free where inv: "sr_inv s E fs free (rounded as)" by blast
  have "sr_deallocate (fst (hd as)) (snd (hd as)) s \<noteq> None" if "as \<noteq> []"
  proof -
    from that obtain p l as' where "as = (p, l) # as'" by (cases as) auto
    with deallocate_spec[of s E fs free p l "rounded as'"] inv show ?thesis by auto
  qed
  with allocate_spec[OF inv, of len nc] show ?thesis by auto
qed

text \<open>
  Giving back the last allocation and asking for the same length again yields the same address and
  the same state, without new memory: the loop of awaited coroutines runs in constant space.
\<close>

theorem stack_resource_reuses_last:
  assumes "sr_run s E as" and "fresh_block nc (new_chunk_request (sr_aligned len) s) s E" and "size_fits len s"
    and "sr_allocate nc len s = Some (p, s1)"
  shows "\<exists>s2. sr_deallocate p len s1 = Some s2 \<and> (\<forall>nc'. sr_allocate nc' len s2 = Some (p, s1))"
proof -
  from sr_run_inv[OF assms(1)] obtain fs free where "sr_inv s E fs free (rounded as)" by blast
  from allocate_spec[OF this assms(3,2)] assms(4) obtain E' fs' free' where
    inv: "sr_inv s1 E' fs' free' ((p, sr_aligned len) # rounded as)" by auto
  have m: "p + sr_aligned len = sr_m s1"
    using assms(4) by (auto simp: sr_allocate_def Let_def split: if_splits bind_splits option.splits)
  have e: "sr_m s1 \<le> sr_e s1" using inv by (simp add: sr_inv_def cur_frame_def)
  from deallocate_spec[OF inv] have "p mod 16 = 0" by (auto simp: sr_deallocate_def split: if_splits)
  then have "sr_deallocate p len s1 = Some (s1\<lparr>sr_m := p\<rparr>)"
    using dealloc_here[OF m] m by (auto simp: sr_deallocate_def)
  moreover have "sr_allocate nc' len (s1\<lparr>sr_m := p\<rparr>) = Some (p, s1)" for nc'
  proof -
    have "sr_aligned len \<le> sr_e s1 - p" using m e by linarith
    then show ?thesis using m by (simp add: sr_allocate_def)
  qed
  ultimately show ?thesis by blast
qed

text \<open>
  The destructor returns and passes every chunk that was ever got from \<open>operator new\<close> to
  \<open>delete[]\<close> exactly once, even if allocations are still live.
\<close>

theorem stack_resource_dtor_frees_all:
  assumes "sr_run s E as"
  shows "\<exists>ds s'. stack_resource_dtor s = Some (ds, s') \<and> distinct ds \<and> set ds = dom (sr_hdrs s)
     \<and> sr_hdrs s' = Map.empty"
  using sr_run_inv[OF assms] stack_resource_dtor_spec by blast

lemma tiles_sum: "tiles b m as \<Longrightarrow> m = b + sum_list (map snd as)"
  by (induction b m as rule: tiles.induct) auto

text \<open>
  C40. What \<open>reuse_memory\<close> gives back: everything that was allocated in chunks (\<open>as1\<close>), but nothing of
  what was allocated in the initial buffer (\<open>as0\<close>), whose pointer \<open>m\<close> stays behind all of it. Its
  comment promises that it works as \<open>deallocate\<close> for all allocations.
\<close>

theorem reuse_memory_keeps_initial_buffer:
  assumes "sr_run s E as"
  shows "\<exists>s' as1 as0. as = as1 @ as0 \<and> reuse_memory s = Some s' \<and> sr_b s' = sr_data s
     \<and> sr_m s' = sr_data s + sum_list (map (\<lambda>(p, len). sr_aligned len) as0)
     \<and> (\<forall>(p, len)\<in>set as1. \<exists>c\<in>dom (sr_hdrs s). c + header_size \<le> p \<and> p + len \<le> E c)
     \<and> (\<forall>(p, len)\<in>set as0. sr_data s \<le> p \<and> p + len \<le> sr_data s + sr_size s)"
proof -
  from sr_run_inv[OF assms] obtain fs free where inv: "sr_inv s E fs free (rounded as)" by blast
  from reuse_memory_spec[OF inv] obtain s' free' bs1 bs0 where
    r: "rounded as = bs1 @ bs0" "reuse_memory s = Some s'" "sr_inv s' E [] free' bs0"
      "sr_data s' = sr_data s" "sr_size s' = sr_size s"
      "\<forall>(p, l)\<in>set bs1. \<exists>c\<in>dom (sr_hdrs s). c + header_size \<le> p \<and> p + l \<le> E c" by blast
  from r(1) obtain as1 as0 where as: "as = as1 @ as0" "bs1 = rounded as1" "bs0 = rounded as0"
    by (auto simp: map_eq_append_conv)
  from r(3) have t: "tiles (sr_data s) (sr_m s') (rounded as0)" "sr_b s' = sr_data s" "sr_m s' \<le> sr_data s + sr_size s"
    using r(4,5) as(3) by (auto simp: sr_inv_def cur_frame_def)
  have "sr_m s' = sr_data s + sum_list (map (\<lambda>(p, len). sr_aligned len) as0)"
    using tiles_sum[OF t(1)] by (simp add: comp_def case_prod_unfold)
  moreover have "\<exists>c\<in>dom (sr_hdrs s). c + header_size \<le> p \<and> p + len \<le> E c" if "(p, len) \<in> set as1" for p len
  proof -
    have "(p, sr_aligned len) \<in> set bs1" using that as(2) by force
    with r(6) obtain c where "c \<in> dom (sr_hdrs s)" "c + header_size \<le> p" "p + sr_aligned len \<le> E c" by blast
    moreover have "len \<le> sr_aligned len" by (rule sr_run_fits[OF assms, of p]) (use that as(1) in simp)
    ultimately show ?thesis by (intro bexI[of _ c]) linarith+
  qed
  moreover have "sr_data s \<le> p \<and> p + len \<le> sr_data s + sr_size s" if "(p, len) \<in> set as0" for p len
  proof -
    have "(p, sr_aligned len) \<in> set (rounded as0)" using that by force
    from tiles_bounds[OF t(1) this] t(3) sr_run_fits[OF assms, of p len] that as(1) show ?thesis by simp
  qed
  ultimately show ?thesis using as(1) r(2) t(2) by blast
qed

text \<open>
  Without \<open>size_fits\<close>: \<open>allocate(SIZE_MAX)\<close> rounds the length to 0 and returns the free memory as if it were
  enough, and \<open>allocate(2 ^ 63)\<close> gets a chunk of 256 bytes and returns its start, with \<open>m\<close> far behind \<open>e\<close>;
  no exception tells the caller.
\<close>

lemma stack_resource_size_wraps:
  "sr_allocate nc (2 ^ 64 - 1) (stack_resource_ctor 16 64) = Some (16, stack_resource_ctor 16 64)
   \<and> new_chunk_request (sr_aligned (2 ^ 63)) (stack_resource_ctor 16 64) = 288
   \<and> (\<exists>s. sr_allocate 1024 (2 ^ 63) (stack_resource_ctor 16 64) = Some (1056, s)
        \<and> sr_e s = 1056 + 256 \<and> sr_m s = 1056 + 2 ^ 63)"
  by (simp add: sr_allocate_def sr_aligned_def new_chunk_request_def new_chunk_bytes_def stack_resource_ctor_def
      align_span_def padding_len_def coroframe_align_def header_size_def take_atleast_def take_loop_None Let_def)

section \<open>A run\<close>

text \<open>
  A buffer of 64 bytes at address 16. The first allocation of 40 bytes (rounded to 48) fits, the second
  one needs a chunk, for which \<open>operator new\<close> returns the address 1024.
\<close>

definition sr_example1 :: stack_resource where
  "sr_example1 = \<lparr>sr_data = 16, sr_size = 64, sr_b = 16, sr_m = 64, sr_e = 80, sr_top = None, sr_hdrs = Map.empty\<rparr>"

definition sr_example2 :: stack_resource where
  "sr_example2 = \<lparr>sr_data = 16, sr_size = 64, sr_b = 1056, sr_m = 1104, sr_e = 1408, sr_top = None,
     sr_hdrs = [1024 \<mapsto> \<lparr>ch_b = 16, ch_m = 64, ch_e = 80, ch_next = None\<rparr>]\<rparr>"

lemmas sr_simps = sr_aligned_def padding_len_def coroframe_align_def header_size_def new_chunk_bytes_def
  new_chunk_request_def sr_example1_def sr_example2_def

lemma sr_example_fits: "size_fits 40 (stack_resource_ctor 16 64)" "size_fits 40 sr_example1"
  by (simp_all add: size_fits_def sr_simps stack_resource_ctor_def align_span_def)

lemma sr_example1_fresh:
  "fresh_block 1024 (new_chunk_request (sr_aligned 40) sr_example1) sr_example1 (\<lambda>_. 0)"
  by (simp add: fresh_block_def sr_simps)

lemma sr_example2_allocate: "sr_allocate 1024 40 sr_example1 = Some (1056, sr_example2)"
  by (simp add: sr_allocate_def take_atleast_def take_loop_None sr_simps Let_def)

lemma sr_example1_run: "sr_run sr_example1 (\<lambda>_. 0) [(16, 40)]"
proof (rule sr_run.allocate[OF sr_run.init[of 16 64] sr_example_fits(1), where nc = 1024])
  show "fresh_block 1024 (new_chunk_request (sr_aligned 40) (stack_resource_ctor 16 64))
      (stack_resource_ctor 16 64) (\<lambda>_. 0)"
    by (simp add: fresh_block_def stack_resource_ctor_def align_span_def sr_simps)
  show "sr_allocate 1024 40 (stack_resource_ctor 16 64) = Some (16, sr_example1)"
    by (simp add: sr_allocate_def stack_resource_ctor_def align_span_def sr_simps)
qed (simp add: sr_example1_def)

definition sr_ends2 :: "addr \<Rightarrow> addr" where
  "sr_ends2 = (\<lambda>_. 0)(1024 := 1408)"

lemma sr_example2_run: "sr_run sr_example2 sr_ends2 [(1056, 40), (16, 40)]"
  by (rule sr_run.allocate[OF sr_example1_run sr_example_fits(2) sr_example1_fresh sr_example2_allocate])
    (simp add: sr_ends2_def sr_simps)

theorem stack_resource_layout_witness:
  "sr_run sr_example2 sr_ends2 [(1056, 40), (16, 40)] \<and> (1056 :: addr) mod 16 = 0 \<and> (16 :: addr) mod 16 = 0"
  using sr_example2_run stack_resource_layout[OF sr_example2_run] by simp

theorem stack_resource_total_witness:
  "sr_allocate 1024 40 sr_example1 \<noteq> None \<and> sr_deallocate 16 40 sr_example1 \<noteq> None"
  using stack_resource_total[OF sr_example1_run, of 40 1024] sr_example1_fresh sr_example_fits by simp

theorem stack_resource_reuses_last_witness:
  "\<exists>s2. sr_deallocate 1056 40 sr_example2 = Some s2 \<and> (\<forall>nc'. sr_allocate nc' 40 s2 = Some (1056, sr_example2))"
  by (rule stack_resource_reuses_last[OF sr_example1_run sr_example1_fresh sr_example_fits(2) sr_example2_allocate])

theorem stack_resource_dtor_frees_all_witness:
  "\<exists>ds s'. stack_resource_dtor sr_example2 = Some (ds, s') \<and> distinct ds \<and> set ds = dom (sr_hdrs sr_example2)
     \<and> sr_hdrs s' = Map.empty"
  by (rule stack_resource_dtor_frees_all[OF sr_example2_run])

theorem reuse_memory_keeps_initial_buffer_witness:
  "\<exists>s' as1 as0. [(1056, 40), (16, 40)] = as1 @ as0 \<and> reuse_memory sr_example2 = Some s' \<and> sr_b s' = sr_data sr_example2
     \<and> sr_m s' = sr_data sr_example2 + sum_list (map (\<lambda>(p, len). sr_aligned len) as0)
     \<and> (\<forall>(p, len)\<in>set as1. \<exists>c\<in>dom (sr_hdrs sr_example2). c + header_size \<le> p \<and> p + len \<le> sr_ends2 c)
     \<and> (\<forall>(p, len)\<in>set as0. sr_data sr_example2 \<le> p \<and> p + len \<le> sr_data sr_example2 + sr_size sr_example2)"
  by (rule reuse_memory_keeps_initial_buffer[OF sr_example2_run])

end
