(* ===== verification/Return_Block.thy ===== *)
theory Return_Block
  imports Prelude
begin

text \<open>
  \<open>return_block\<close> of \<open>common.hpp\<close>: the part of a promise that stores what a coroutine returns. The
  primary template keeps a value or an exception in one piece of raw storage and constructs and
  destroys them by hand; the storage is modelled with its life cycle, so that constructing over a
  live object, destroying a wrong one, and every failed assertion are \<open>None\<close>. The specialisations for
  references and \<open>void\<close> follow. A constructor of the value that throws leaves the block as it was.
\<close>

section \<open>The storage\<close>

datatype retkind = RetEmpty | RetVal | RetEx

datatype ('v, 'e) retblock_storage = Raw | HoldsValue 'v | HoldsEx "'e option"

definition construct_value :: "'v \<Rightarrow> ('v, 'e) retblock_storage \<Rightarrow> ('v, 'e) retblock_storage option" where
  "construct_value v d = (case d of Raw \<Rightarrow> Some (HoldsValue v) | _ \<Rightarrow> None)"

definition construct_ex :: "'e option \<Rightarrow> ('v, 'e) retblock_storage \<Rightarrow> ('v, 'e) retblock_storage option" where
  "construct_ex e d = (case d of Raw \<Rightarrow> Some (HoldsEx e) | _ \<Rightarrow> None)"

definition destroy_value :: "('v, 'e) retblock_storage \<Rightarrow> ('v, 'e) retblock_storage option" where
  "destroy_value d = (case d of HoldsValue v \<Rightarrow> Some Raw | _ \<Rightarrow> None)"

definition destroy_ex :: "('v, 'e) retblock_storage \<Rightarrow> ('v, 'e) retblock_storage option" where
  "destroy_ex d = (case d of HoldsEx e \<Rightarrow> Some Raw | _ \<Rightarrow> None)"

definition as_value :: "('v, 'e) retblock_storage \<Rightarrow> 'v option" where
  "as_value d = (case d of HoldsValue v \<Rightarrow> Some v | _ \<Rightarrow> None)"

definition as_ex :: "('v, 'e) retblock_storage \<Rightarrow> 'e option option" where
  "as_ex d = (case d of HoldsEx e \<Rightarrow> Some e | _ \<Rightarrow> None)"

section \<open>The block\<close>

record ('v, 'e) return_block =
  rb_data :: "('v, 'e) retblock_storage"
  rb_kind :: retkind

definition return_block_init :: "('v, 'e) return_block" where
  "return_block_init = \<lparr>rb_data = Raw, rb_kind = RetEmpty\<rparr>"

text \<open>The destructor; the result is the storage that is left.\<close>

definition rb_dtor :: "('v, 'e) return_block \<Rightarrow> ('v, 'e) retblock_storage option" where
  "rb_dtor b = (case rb_kind b of
      RetVal \<Rightarrow> destroy_value (rb_data b) | RetEx \<Rightarrow> destroy_ex (rb_data b) | RetEmpty \<Rightarrow> Some (rb_data b))"

definition rb_has_exception :: "('v, 'e) return_block \<Rightarrow> bool" where
  "rb_has_exception b \<longleftrightarrow> rb_kind b = RetEx"

text \<open>An exception pointer may be null (\<open>None\<close>).\<close>

definition rb_set_exception :: "'e option \<Rightarrow> ('v, 'e) return_block \<Rightarrow> ('v, 'e) return_block option" where
  "rb_set_exception e b =
     (if rb_kind b = RetEx \<or> e = None then None
      else do {
        d \<leftarrow> (if rb_kind b = RetVal then destroy_value (rb_data b) else Some (rb_data b));
        d' \<leftarrow> construct_ex e d;
        Some (b\<lparr>rb_data := d', rb_kind := RetEx\<rparr>) })"

definition rb_take_exception ::
  "('v, 'e) return_block \<Rightarrow> ('e option \<times> ('v, 'e) return_block) option" where
  "rb_take_exception b =
     (if \<not> rb_has_exception b then None
      else do {
        p \<leftarrow> as_ex (rb_data b);
        d \<leftarrow> destroy_ex (rb_data b);
        Some (p, b\<lparr>rb_data := d, rb_kind := RetEmpty\<rparr>) })"

text \<open>\<open>construct\<close> is the value that the constructor of \<open>T\<close> makes of the argument, or \<open>None\<close> if it throws.\<close>

definition rb_return_value ::
  "'v option \<Rightarrow> ('v, 'e) return_block \<Rightarrow> (bool \<times> ('v, 'e) return_block) option" where
  "rb_return_value construct b =
     (if rb_kind b \<noteq> RetEmpty then None
      else (case construct of
          None \<Rightarrow> Some (False, b)
        | Some v \<Rightarrow> do { d \<leftarrow> construct_value v (rb_data b); Some (True, b\<lparr>rb_data := d, rb_kind := RetVal\<rparr>) }))"

definition rb_return_rvo :: "('v, 'e) return_block \<Rightarrow> ('v, 'e) return_block option" where
  "rb_return_rvo b = (if rb_kind b = RetEmpty then None else Some b)"

definition rb_return_exception :: "'e option \<Rightarrow> ('v, 'e) return_block \<Rightarrow> ('v, 'e) return_block option" where
  "rb_return_exception e b = rb_set_exception e b"

definition rb_result :: "('v, 'e) return_block \<Rightarrow> 'v option" where
  "rb_result b = (if rb_kind b \<noteq> RetVal then None else as_value (rb_data b))"

definition rb_return_place ::
  "'v option \<Rightarrow> ('v, 'e) return_block \<Rightarrow> (bool \<times> ('v, 'e) return_block) option" where
  "rb_return_place construct b =
     (if rb_kind b \<noteq> RetEmpty then None
      else (case construct of
          None \<Rightarrow> Some (False, b)
        | Some v \<Rightarrow> do { d \<leftarrow> construct_value v (rb_data b); Some (True, b\<lparr>rb_data := d, rb_kind := RetVal\<rparr>) }))"

section \<open>References and \<open>void\<close>\<close>

record 'e return_block_ref =
  rr_storage :: "addr option"
  rr_ex :: "'e option"

definition rr_has_exception :: "'e return_block_ref \<Rightarrow> bool" where
  "rr_has_exception b \<longleftrightarrow> rr_ex b \<noteq> None"

definition rr_set_exception :: "'e option \<Rightarrow> 'e return_block_ref \<Rightarrow> 'e return_block_ref" where
  "rr_set_exception e b = b\<lparr>rr_ex := e\<rparr>"

definition rr_take_exception :: "'e return_block_ref \<Rightarrow> ('e option \<times> 'e return_block_ref) option" where
  "rr_take_exception b = (if \<not> rr_has_exception b then None else Some (rr_ex b, b\<lparr>rr_ex := None\<rparr>))"

definition rr_return_value :: "addr \<Rightarrow> 'e return_block_ref \<Rightarrow> 'e return_block_ref option" where
  "rr_return_value v b = (if rr_storage b \<noteq> None then None else Some (b\<lparr>rr_storage := Some v\<rparr>))"

definition rr_return_rvo :: "'e return_block_ref \<Rightarrow> 'e return_block_ref option" where
  "rr_return_rvo b = (if rr_storage b = None then None else Some b)"

definition rr_return_exception :: "'e option \<Rightarrow> 'e return_block_ref \<Rightarrow> 'e return_block_ref" where
  "rr_return_exception e b = rr_set_exception e b"

definition rr_result :: "'e return_block_ref \<Rightarrow> addr option" where
  "rr_result b = rr_storage b"

definition rr_return_place :: "addr option \<Rightarrow> 'e return_block_ref \<Rightarrow> 'e return_block_ref" where
  "rr_return_place p b = b\<lparr>rr_storage := p\<rparr>"

record 'e return_block_void =
  rv_ex :: "'e option"

definition rv_has_exception :: "'e return_block_void \<Rightarrow> bool" where
  "rv_has_exception b \<longleftrightarrow> rv_ex b \<noteq> None"

definition rv_set_exception :: "'e option \<Rightarrow> 'e return_block_void \<Rightarrow> 'e return_block_void" where
  "rv_set_exception e b = b\<lparr>rv_ex := e\<rparr>"

definition rv_take_exception :: "'e return_block_void \<Rightarrow> ('e option \<times> 'e return_block_void) option" where
  "rv_take_exception b = (if \<not> rv_has_exception b then None else Some (rv_ex b, b\<lparr>rv_ex := None\<rparr>))"

definition rv_return_void :: "'e return_block_void \<Rightarrow> 'e return_block_void" where
  "rv_return_void b = b"

section \<open>The contract of a block\<close>

text \<open>
  What the promise of a coroutine and its owner may rely on, for every kind of result: an abstract
  outcome, set once by the coroutine and taken by the owner.
\<close>

datatype ('v, 'e) outcome = Nothing | Returned 'v | Failed 'e

locale return_slot =
  fixes holds :: "'b \<Rightarrow> ('v, 'e) outcome \<Rightarrow> bool"
    and empty :: 'b
    and put :: "'v \<Rightarrow> 'b \<Rightarrow> 'b option"
    and fail :: "'e \<Rightarrow> 'b \<Rightarrow> 'b option"
    and has_exception :: "'b \<Rightarrow> bool"
    and take_exception :: "'b \<Rightarrow> ('e option \<times> 'b) option"
    and result :: "'b \<Rightarrow> 'v option"
  assumes empty_holds: "holds empty Nothing"
    and put_holds: "holds b Nothing \<Longrightarrow> \<exists>b'. put v b = Some b' \<and> holds b' (Returned v)"
    and fail_holds: "holds b x \<Longrightarrow> x = Nothing \<or> (\<exists>v. x = Returned v) \<Longrightarrow>
           \<exists>b'. fail e b = Some b' \<and> holds b' (Failed e)"
    and has_exception_holds: "holds b x \<Longrightarrow> has_exception b \<longleftrightarrow> (\<exists>e. x = Failed e)"
    and take_holds: "holds b (Failed e) \<Longrightarrow> \<exists>b'. take_exception b = Some (Some e, b')"
    and result_holds: "holds b (Returned v) \<Longrightarrow> result b = Some v"
begin

text \<open>What the owner reads is what the coroutine ended with.\<close>

lemma read_after_end:
  assumes "(\<exists>v. out = Returned v \<and> put v empty = Some b) \<or> (\<exists>e. out = Failed e \<and> fail e empty = Some b)"
  shows "case out of
      Nothing \<Rightarrow> False
    | Returned v \<Rightarrow> \<not> has_exception b \<and> result b = Some v
    | Failed e \<Rightarrow> has_exception b \<and> map_option fst (take_exception b) = Some (Some e)"
  using assms
proof
  assume "\<exists>v. out = Returned v \<and> put v empty = Some b"
  then obtain v where v: "out = Returned v" "put v empty = Some b" by blast
  with put_holds[OF empty_holds, of v] have "holds b (Returned v)" by auto
  with has_exception_holds[OF this] result_holds[OF this] v show ?thesis by simp
next
  assume "\<exists>e. out = Failed e \<and> fail e empty = Some b"
  then obtain e where e: "out = Failed e" "fail e empty = Some b" by blast
  with fail_holds[OF empty_holds, of e] have h: "holds b (Failed e)" by auto
  with has_exception_holds[OF h] take_holds[OF h] e show ?thesis by auto
qed

text \<open>An exception that follows a value replaces it.\<close>

lemma failure_wins:
  assumes "put v empty = Some b1" "fail e b1 = Some b"
  shows "has_exception b \<and> map_option fst (take_exception b) = Some (Some e)"
proof -
  have "holds b1 (Returned v)" using put_holds[OF empty_holds, of v] assms(1) by auto
  with fail_holds[OF this, of e] assms(2) have h: "holds b (Failed e)" by auto
  with has_exception_holds[OF h] take_holds[OF h] show ?thesis by auto
qed

end

definition rb_holds :: "('v, 'e) return_block \<Rightarrow> ('v, 'e) outcome \<Rightarrow> bool" where
  "rb_holds b x \<longleftrightarrow> (case x of
      Nothing \<Rightarrow> rb_kind b = RetEmpty \<and> rb_data b = Raw
    | Returned v \<Rightarrow> rb_kind b = RetVal \<and> rb_data b = HoldsValue v
    | Failed e \<Rightarrow> rb_kind b = RetEx \<and> rb_data b = HoldsEx (Some e))"

definition rb_put :: "'v \<Rightarrow> ('v, 'e) return_block \<Rightarrow> ('v, 'e) return_block option" where
  "rb_put v b = map_option snd (rb_return_value (Some v) b)"

definition rr_holds :: "'e return_block_ref \<Rightarrow> (addr, 'e) outcome \<Rightarrow> bool" where
  "rr_holds b x \<longleftrightarrow> (case x of
      Nothing \<Rightarrow> rr_storage b = None \<and> rr_ex b = None
    | Returned v \<Rightarrow> rr_storage b = Some v \<and> rr_ex b = None
    | Failed e \<Rightarrow> rr_ex b = Some e)"

definition rv_holds :: "'e return_block_void \<Rightarrow> (unit, 'e) outcome \<Rightarrow> bool" where
  "rv_holds b x \<longleftrightarrow> (case x of
      Nothing \<Rightarrow> rv_ex b = None
    | Returned v \<Rightarrow> rv_ex b = None
    | Failed e \<Rightarrow> rv_ex b = Some e)"

lemmas rb_defs = rb_put_def rb_return_value_def rb_set_exception_def rb_take_exception_def
  rb_has_exception_def rb_result_def construct_value_def construct_ex_def destroy_value_def
  destroy_ex_def as_value_def as_ex_def return_block_init_def rb_dtor_def rb_return_rvo_def
  rb_return_place_def rb_return_exception_def

interpretation rb: return_slot rb_holds return_block_init rb_put "\<lambda>e. rb_set_exception (Some e)"
  rb_has_exception rb_take_exception rb_result
  by unfold_locales (auto simp: rb_holds_def rb_defs split: outcome.splits)

interpretation rr: return_slot rr_holds "\<lparr>rr_storage = None, rr_ex = None\<rparr>" rr_return_value
  "\<lambda>e b. Some (rr_set_exception (Some e) b)" rr_has_exception rr_take_exception rr_result
  by unfold_locales
    (auto simp: rr_holds_def rr_return_value_def rr_set_exception_def rr_has_exception_def
      rr_take_exception_def rr_result_def split: outcome.splits)

interpretation rv: return_slot rv_holds "\<lparr>rv_ex = None\<rparr>" "\<lambda>_ b. Some (rv_return_void b)"
  "\<lambda>e b. Some (rv_set_exception (Some e) b)" rv_has_exception rv_take_exception "\<lambda>_. Some ()"
  by unfold_locales
    (auto simp: rv_holds_def rv_return_void_def rv_set_exception_def rv_has_exception_def
      rv_take_exception_def split: outcome.splits)

section \<open>No leak, no double destruction\<close>

text \<open>
  The calls that a promise may receive, with a log of what was read: the values that \<open>result\<close> showed
  and the exceptions that \<open>take_exception\<close> handed out.
\<close>

datatype ('v, 'e) rb_call = CallReturn "'v option" | CallRvo | CallReturnException 'e | CallPlace "'v option"
  | CallSetException 'e | CallTake | CallResult

type_synonym ('v, 'e) readings = "('v + 'e option) list"

definition rb_call :: "('v, 'e) rb_call \<Rightarrow> ('v, 'e) readings \<times> ('v, 'e) return_block
    \<Rightarrow> (('v, 'e) readings \<times> ('v, 'e) return_block) option" where
  "rb_call c s = (case s of (rs, b) \<Rightarrow> (case c of
      CallReturn v \<Rightarrow> do { (_, b') \<leftarrow> rb_return_value v b; Some (rs, b') }
    | CallRvo \<Rightarrow> do { b' \<leftarrow> rb_return_rvo b; Some (rs, b') }
    | CallReturnException e \<Rightarrow> do { b' \<leftarrow> rb_return_exception (Some e) b; Some (rs, b') }
    | CallPlace v \<Rightarrow> do { (_, b') \<leftarrow> rb_return_place v b; Some (rs, b') }
    | CallSetException e \<Rightarrow> do { b' \<leftarrow> rb_set_exception (Some e) b; Some (rs, b') }
    | CallTake \<Rightarrow> do { (e, b') \<leftarrow> rb_take_exception b; Some (rs @ [Inr e], b') }
    | CallResult \<Rightarrow> do { v \<leftarrow> rb_result b; Some (rs @ [Inl v], b) }))"

text \<open>The same calls on the outcome, with the assertions of the source as preconditions.\<close>

definition out_fail :: "'e \<Rightarrow> ('v, 'e) outcome \<Rightarrow> ('v, 'e) outcome option" where
  "out_fail e x = (case x of Failed _ \<Rightarrow> None | _ \<Rightarrow> Some (Failed e))"

definition out_put :: "'v option \<Rightarrow> ('v, 'e) outcome \<Rightarrow> ('v, 'e) outcome option" where
  "out_put v x = (case x of Nothing \<Rightarrow> Some (case v of None \<Rightarrow> Nothing | Some v \<Rightarrow> Returned v) | _ \<Rightarrow> None)"

definition out_call :: "('v, 'e) rb_call \<Rightarrow> ('v, 'e) readings \<times> ('v, 'e) outcome
    \<Rightarrow> (('v, 'e) readings \<times> ('v, 'e) outcome) option" where
  "out_call c s = (case s of (rs, x) \<Rightarrow> (case c of
      CallReturn v \<Rightarrow> map_option (Pair rs) (out_put v x)
    | CallRvo \<Rightarrow> (case x of Nothing \<Rightarrow> None | _ \<Rightarrow> Some (rs, x))
    | CallReturnException e \<Rightarrow> map_option (Pair rs) (out_fail e x)
    | CallPlace v \<Rightarrow> map_option (Pair rs) (out_put v x)
    | CallSetException e \<Rightarrow> map_option (Pair rs) (out_fail e x)
    | CallTake \<Rightarrow> (case x of Failed e \<Rightarrow> Some (rs @ [Inr (Some e)], Nothing) | _ \<Rightarrow> None)
    | CallResult \<Rightarrow> (case x of Returned v \<Rightarrow> Some (rs @ [Inl v], x) | _ \<Rightarrow> None)))"

text \<open>The block that stands for an outcome is determined by it.\<close>

definition rb_of :: "('v, 'e) outcome \<Rightarrow> ('v, 'e) return_block" where
  "rb_of x = (case x of
      Nothing \<Rightarrow> \<lparr>rb_data = Raw, rb_kind = RetEmpty\<rparr>
    | Returned v \<Rightarrow> \<lparr>rb_data = HoldsValue v, rb_kind = RetVal\<rparr>
    | Failed e \<Rightarrow> \<lparr>rb_data = HoldsEx (Some e), rb_kind = RetEx\<rparr>)"

lemma rb_call_refines: "rb_call c (rs, rb_of x) = map_option (map_prod (\<lambda>r. r) rb_of) (out_call c (rs, x))"
  by (cases c; cases x)
    (simp_all add: rb_call_def out_call_def rb_of_def out_put_def out_fail_def rb_defs split: option.split)

lemma rb_calls_refine:
  "foldM_opt rb_call cs (rs, rb_of x) = map_option (map_prod (\<lambda>r. r) rb_of) (foldM_opt out_call cs (rs, x))"
proof (induction cs arbitrary: rs x)
  case Nil
  then show ?case by simp
next
  case (Cons c cs)
  then show ?case by (auto simp: rb_call_refines split: option.splits bind_splits)
qed

lemma rb_of_dtor: "rb_dtor (rb_of x) = Some Raw"
  by (cases x) (simp_all add: rb_of_def rb_defs)

lemma rb_of_holds: "rb_holds b x \<longleftrightarrow> b = rb_of x"
  by (cases x; cases b) (simp_all add: rb_holds_def rb_of_def conj_commute)

text \<open>
  C32. The block implements the abstract outcome, and its storage is managed correctly. For every
  sequence of calls on a fresh block: if the sequence breaks a documented precondition (a second
  \<open>co_return\<close>, \<open>result\<close> without a value, ...) the failing assertion is reached, and otherwise no call
  constructs over a live object or destroys the wrong one, the readings are those of the abstract
  outcome (a value that was replaced by an exception is never seen again), and the destructor
  finally leaves raw storage: nothing leaks and nothing is destroyed twice.
\<close>

theorem return_block_refines_outcome:
  "case foldM_opt out_call cs ([], Nothing) of
      None \<Rightarrow> foldM_opt rb_call cs ([], return_block_init) = None
    | Some (rs, x) \<Rightarrow> (\<exists>b. foldM_opt rb_call cs ([], return_block_init) = Some (rs, b)
        \<and> rb_holds b x \<and> rb_dtor b = Some Raw)"
proof -
  have i: "return_block_init = rb_of Nothing" by (simp add: return_block_init_def rb_of_def)
  show ?thesis
    unfolding i using rb_calls_refine[of cs "[]" Nothing]
    by (auto simp: rb_of_dtor rb_of_holds split: option.split)
qed

end
