(* ===== verification/Async_Task.thy ===== *)
theory Async_Task
  imports Return_Block "HOL-Library.Word" "HOL-Library.Multiset"
begin

text \<open>
  \<open>async_task.hpp\<close>: a coroutine that starts at once (the producer) and an \<open>async_task\<close> object through
  which one consumer, usually on another thread, waits for the result. Both own the coroutine
  frame; a counter of type \<open>atomic_int8_t\<close> decides who destroys it. The two threads are modelled as
  interleaved atomic steps: one access to an atomic each. A frame that is gone is \<open>None\<close>, and every
  access to it then is undefined behaviour, \<open>None\<close> for the step.
\<close>

section \<open>The promise\<close>

record ('v, 'e) async_task_promise =
  ap_block :: "('v, 'e) return_block"
  ap_ready :: bool
  ap_ref :: "8 word"

definition async_task_promise_init :: "('v, 'e) async_task_promise" where
  "async_task_promise_init = \<lparr>ap_block = return_block_init, ap_ready = False, ap_ref = 1\<rparr>"

text \<open>The constructor of \<open>async_task\<close> from a handle, and \<open>get_return_object\<close>, which calls it.\<close>

definition async_task_ctor :: "('v, 'e) async_task_promise \<Rightarrow> ('v, 'e) async_task_promise" where
  "async_task_ctor p = p\<lparr>ap_ref := ap_ref p + 1\<rparr>"

definition async_get_return_object :: "('v, 'e) async_task_promise \<Rightarrow> ('v, 'e) async_task_promise" where
  "async_get_return_object p = async_task_ctor p"

definition async_unhandled_exception ::
  "'e \<Rightarrow> ('v, 'e) async_task_promise \<Rightarrow> ('v, 'e) async_task_promise option" where
  "async_unhandled_exception e p =
     do { b \<leftarrow> rb_set_exception (Some e) (ap_block p); Some (p\<lparr>ap_block := b\<rparr>) }"

text \<open>
  How the body of the coroutine may end: by \<open>co_return v\<close>, by filling the return place and
  \<open>co_return dd::rvo\<close>, by an exception, or by an exception after the value was stored (from the
  destructor of a local, or after the return place was filled).
\<close>

datatype ('v, 'e) body_end = EndValue 'v | EndPlace 'v | EndThrow 'e | EndValueThrow 'v 'e

definition finish_body ::
  "('v, 'e) body_end \<Rightarrow> ('v, 'e) async_task_promise \<Rightarrow> ('v, 'e) async_task_promise option" where
  "finish_body x p = (case x of
      EndValue v \<Rightarrow> do { (_, b) \<leftarrow> rb_return_value (Some v) (ap_block p); Some (p\<lparr>ap_block := b\<rparr>) }
    | EndPlace v \<Rightarrow> do {
        (_, b) \<leftarrow> rb_return_place (Some v) (ap_block p);
        b' \<leftarrow> rb_return_rvo b;
        Some (p\<lparr>ap_block := b'\<rparr>) }
    | EndThrow e \<Rightarrow> async_unhandled_exception e p
    | EndValueThrow v e \<Rightarrow> do {
        (_, b) \<leftarrow> rb_return_value (Some v) (ap_block p);
        async_unhandled_exception e (p\<lparr>ap_block := b\<rparr>) })"

definition end_outcome :: "('v, 'e) body_end \<Rightarrow> ('v, 'e) outcome" where
  "end_outcome x = (case x of EndValue v \<Rightarrow> Returned v | EndPlace v \<Rightarrow> Returned v
      | EndThrow e \<Rightarrow> Failed e | EndValueThrow v e \<Rightarrow> Failed e)"

section \<open>The system\<close>

text \<open>
  The producer: in the body, result stored, \<open>ready\<close> set, consumer notified, ownership dropped. The
  consumer: idle, about to load \<open>ready\<close> inside \<open>wait\<close>, or blocked; \<open>wait\<close> and \<open>get\<close> both wait.
\<close>

datatype prod_pc = PBody | PStored | PReadied | PNotified | PDone
datatype wait_for = ForWait | ForGet
datatype cons_pc = CIdle | CLoad wait_for | CAsleep wait_for

text \<open>
  \<open>at_objs\<close> are the \<open>async_task\<close> objects of the consumer, \<open>True\<close> for the ones whose handle is not null.
  \<open>at_destroyed\<close> counts destructions of the frame, \<open>at_got\<close> is what \<open>get\<close> returned or threw,
  \<open>at_told\<close> whether \<open>ready\<close> ever answered \<open>true\<close>.
\<close>

record ('v, 'e) at_sys =
  at_frame :: "('v, 'e) async_task_promise option"
  at_prod :: prod_pc
  at_cons :: cons_pc
  at_objs :: "bool list"
  at_destroyed :: nat
  at_got :: "('v, 'e) readings"
  at_told :: bool

definition at_init :: "('v, 'e) at_sys" where
  "at_init = \<lparr>at_frame = Some (async_get_return_object async_task_promise_init), at_prod = PBody,
     at_cons = CIdle, at_objs = [True], at_destroyed = 0, at_got = [], at_told = False\<rparr>"

text \<open>Runs a computation on the promise; the frame must be alive.\<close>

definition with_promise ::
  "(('v, 'e) async_task_promise \<Rightarrow> ('v, 'e) async_task_promise option) \<Rightarrow> ('v, 'e) at_sys \<Rightarrow> ('v, 'e) at_sys option" where
  "with_promise f s = do { p \<leftarrow> at_frame s; p' \<leftarrow> f p; Some (s\<lparr>at_frame := Some p'\<rparr>) }"

text \<open>\<open>handle.destroy()\<close>: the promise and its return block are destroyed, then the frame is gone.\<close>

definition at_destroy :: "('v, 'e) at_sys \<Rightarrow> ('v, 'e) at_sys option" where
  "at_destroy s = do {
     p \<leftarrow> at_frame s;
     _ \<leftarrow> rb_dtor (ap_block p);
     Some (s\<lparr>at_frame := None, at_destroyed := Suc (at_destroyed s)\<rparr>) }"

text \<open>\<open>ref_count.fetch_sub(1) == 1\<close>\<close>

definition drop_ref :: "('v, 'e) at_sys \<Rightarrow> (bool \<times> ('v, 'e) at_sys) option" where
  "drop_ref s = do {
     p \<leftarrow> at_frame s;
     Some (ap_ref p = 1, s\<lparr>at_frame := Some (p\<lparr>ap_ref := ap_ref p - 1\<rparr>)\<rparr>) }"

text \<open>The steps of the producer: end of the body, then the final awaiter \<open>destroy_if_consumer_dead_t\<close>.\<close>

definition wake_waiter :: "cons_pc \<Rightarrow> cons_pc" where
  "wake_waiter c = (case c of CAsleep k \<Rightarrow> CLoad k | _ \<Rightarrow> c)"

definition prod_step :: "('v, 'e) body_end \<Rightarrow> ('v, 'e) at_sys \<Rightarrow> ('v, 'e) at_sys option" where
  "prod_step x s = (case at_prod s of
      PBody \<Rightarrow> do { s' \<leftarrow> with_promise (finish_body x) s; Some (s'\<lparr>at_prod := PStored\<rparr>) }
    | PStored \<Rightarrow> do { s' \<leftarrow> with_promise (\<lambda>p. Some (p\<lparr>ap_ready := True\<rparr>)) s; Some (s'\<lparr>at_prod := PReadied\<rparr>) }
    | PReadied \<Rightarrow> do { _ \<leftarrow> at_frame s; Some (s\<lparr>at_cons := wake_waiter (at_cons s), at_prod := PNotified\<rparr>) }
    | PNotified \<Rightarrow> do {
        (im_last_owner, s') \<leftarrow> drop_ref s;
        s'' \<leftarrow> (if im_last_owner then at_destroy s' else Some s');
        Some (s''\<lparr>at_prod := PDone\<rparr>) }
    | PDone \<Rightarrow> None)"

text \<open>The calls of the consumer on its object number \<open>i\<close>.\<close>

datatype cons_call = CallWait nat | CallReady nat | CallGet nat | CallDetach nat
  | CallMove nat | CallSwap nat nat

definition async_empty :: "nat \<Rightarrow> ('v, 'e) at_sys \<Rightarrow> bool" where
  "async_empty i s \<longleftrightarrow> \<not> at_objs s ! i"

definition async_detach :: "nat \<Rightarrow> ('v, 'e) at_sys \<Rightarrow> ('v, 'e) at_sys option" where
  "async_detach i s =
     (if async_empty i s then Some s
      else do {
        (last_owner, s') \<leftarrow> drop_ref s;
        s'' \<leftarrow> (if last_owner then at_destroy s' else Some s');
        Some (s''\<lparr>at_objs := (at_objs s'')[i := False]\<rparr>) })"

definition async_ready :: "nat \<Rightarrow> ('v, 'e) at_sys \<Rightarrow> bool option" where
  "async_ready i s = (if async_empty i s then Some False else do { p \<leftarrow> at_frame s; Some (ap_ready p) })"

definition async_swap :: "nat \<Rightarrow> nat \<Rightarrow> ('v, 'e) at_sys \<Rightarrow> ('v, 'e) at_sys" where
  "async_swap i j s = s\<lparr>at_objs := (at_objs s)[i := at_objs s ! j, j := at_objs s ! i]\<rparr>"

text \<open>The move constructor: a new object, empty at first, that swaps with the other.\<close>

definition async_move :: "nat \<Rightarrow> ('v, 'e) at_sys \<Rightarrow> ('v, 'e) at_sys" where
  "async_move i s = async_swap (length (at_objs s)) i (s\<lparr>at_objs := at_objs s @ [False]\<rparr>)"

definition cons_begin :: "cons_call \<Rightarrow> ('v, 'e) at_sys \<Rightarrow> ('v, 'e) at_sys option" where
  "cons_begin c s = (case c of
      CallWait i \<Rightarrow> Some (if async_empty i s then s else s\<lparr>at_cons := CLoad ForWait\<rparr>)
    | CallReady i \<Rightarrow> do { r \<leftarrow> async_ready i s; Some (s\<lparr>at_told := at_told s \<or> r\<rparr>) }
    | CallGet i \<Rightarrow> if async_empty i s then None else Some (s\<lparr>at_cons := CLoad ForGet\<rparr>)
    | CallDetach i \<Rightarrow> async_detach i s
    | CallMove i \<Rightarrow> Some (async_move i s)
    | CallSwap i j \<Rightarrow> Some (async_swap i j s))"

text \<open>The rest of \<open>get\<close>, after the wait.\<close>

definition async_get_finish :: "('v, 'e) at_sys \<Rightarrow> ('v, 'e) at_sys option" where
  "async_get_finish s = do {
     p \<leftarrow> at_frame s;
     if rb_has_exception (ap_block p)
     then do {
       (e, b) \<leftarrow> rb_take_exception (ap_block p);
       Some (s\<lparr>at_frame := Some (p\<lparr>ap_block := b\<rparr>), at_got := at_got s @ [Inr e]\<rparr>) }
     else do { v \<leftarrow> rb_result (ap_block p); Some (s\<lparr>at_got := at_got s @ [Inl v]\<rparr>) } }"

text \<open>
  One load inside \<open>ready.wait(false)\<close>: the value is \<open>true\<close> and the wait returns, or the thread blocks.
  A blocked thread may also be unblocked spuriously and loads again.
\<close>

definition cons_load :: "('v, 'e) at_sys \<Rightarrow> ('v, 'e) at_sys option" where
  "cons_load s = (case at_cons s of
      CLoad k \<Rightarrow> do {
        p \<leftarrow> at_frame s;
        if ap_ready p
        then (let s' = s\<lparr>at_cons := CIdle\<rparr> in case k of ForWait \<Rightarrow> Some s' | ForGet \<Rightarrow> async_get_finish s')
        else Some (s\<lparr>at_cons := CAsleep k\<rparr>) }
    | _ \<Rightarrow> None)"

definition spurious :: "('v, 'e) at_sys \<Rightarrow> ('v, 'e) at_sys" where
  "spurious s = s\<lparr>at_cons := wake_waiter (at_cons s)\<rparr>"

text \<open>
  What the consumer may call when idle: an existing object, and \<open>get\<close> only on an object that is not
  empty (the documented precondition) and whose result was not taken yet.
\<close>

definition cons_may :: "cons_call \<Rightarrow> ('v, 'e) at_sys \<Rightarrow> bool" where
  "cons_may c s \<longleftrightarrow> at_cons s = CIdle \<and> (case c of
      CallWait i \<Rightarrow> i < length (at_objs s)
    | CallReady i \<Rightarrow> i < length (at_objs s)
    | CallGet i \<Rightarrow> i < length (at_objs s) \<and> \<not> async_empty i s \<and> at_got s = []
    | CallDetach i \<Rightarrow> i < length (at_objs s)
    | CallMove i \<Rightarrow> i < length (at_objs s)
    | CallSwap i j \<Rightarrow> i < length (at_objs s) \<and> j < length (at_objs s))"

inductive at_reach :: "('v, 'e) body_end \<Rightarrow> ('v, 'e) at_sys \<Rightarrow> bool" for x where
  at_start: "at_reach x at_init"
| at_producer: "at_reach x s \<Longrightarrow> prod_step x s = Some s' \<Longrightarrow> at_reach x s'"
| at_call: "at_reach x s \<Longrightarrow> cons_may c s \<Longrightarrow> cons_begin c s = Some s' \<Longrightarrow> at_reach x s'"
| at_load: "at_reach x s \<Longrightarrow> cons_load s = Some s' \<Longrightarrow> at_reach x s'"
| at_spurious: "at_reach x s \<Longrightarrow> at_reach x (spurious s)"

section \<open>The invariant\<close>

text \<open>The number of objects with a handle, and the value of the counter that it implies.\<close>

definition held :: "bool list \<Rightarrow> nat" where
  "held bs = length (filter (\<lambda>b. b) bs)"

definition owners :: "('v, 'e) at_sys \<Rightarrow> nat" where
  "owners s = held (at_objs s) + (if at_prod s = PDone then 0 else 1)"

definition after_read :: "('v, 'e) body_end \<Rightarrow> ('v, 'e) readings \<Rightarrow> ('v, 'e) outcome" where
  "after_read x rs = (case end_outcome x of Failed e \<Rightarrow> if rs = [] then Failed e else Nothing | y \<Rightarrow> y)"

definition block_now :: "('v, 'e) body_end \<Rightarrow> ('v, 'e) at_sys \<Rightarrow> ('v, 'e) outcome" where
  "block_now x s = (if at_prod s = PBody then Nothing else after_read x (at_got s))"

definition read_ok :: "('v, 'e) body_end \<Rightarrow> ('v, 'e) readings \<Rightarrow> bool" where
  "read_ok x rs \<longleftrightarrow> rs = [] \<or> (case end_outcome x of
      Returned v \<Rightarrow> rs = [Inl v] | Failed e \<Rightarrow> rs = [Inr (Some e)] | Nothing \<Rightarrow> False)"

definition frame_ok ::
  "('v, 'e) async_task_promise option \<Rightarrow> nat \<Rightarrow> ('v, 'e) outcome \<Rightarrow> bool \<Rightarrow> bool" where
  "frame_ok fr n y r \<longleftrightarrow> (case fr of None \<Rightarrow> n = 0
     | Some p \<Rightarrow> n > 0 \<and> ap_ref p = of_nat n \<and> ap_block p = rb_of y \<and> ap_ready p = r)"

definition at_inv :: "('v, 'e) body_end \<Rightarrow> ('v, 'e) at_sys \<Rightarrow> bool" where
  "at_inv x s \<longleftrightarrow>
     held (at_objs s) \<le> 1
   \<and> at_destroyed s = (if owners s = 0 then 1 else 0)
   \<and> frame_ok (at_frame s) (owners s) (block_now x s) (at_prod s \<notin> {PBody, PStored})
   \<and> (at_cons s \<noteq> CIdle \<longrightarrow> held (at_objs s) > 0)
   \<and> (at_cons s \<in> {CLoad ForGet, CAsleep ForGet} \<longrightarrow> at_got s = [])
   \<and> ((\<exists>k. at_cons s = CAsleep k) \<longrightarrow> at_prod s \<in> {PBody, PStored, PReadied})
   \<and> read_ok x (at_got s)
   \<and> (at_got s \<noteq> [] \<or> at_told s \<longrightarrow> at_prod s \<notin> {PBody, PStored})"

lemma after_read_Nil [simp]: "after_read x [] = end_outcome x"
  by (simp add: after_read_def split: outcome.split)

lemma frame_ok_simps [simp]:
  "frame_ok None n y r \<longleftrightarrow> n = 0"
  "frame_ok (Some p) n y r \<longleftrightarrow> n > 0 \<and> ap_ref p = of_nat n \<and> ap_block p = rb_of y \<and> ap_ready p = r"
  by (simp_all add: frame_ok_def)

lemma finish_body_ok:
  "ap_block p = rb_of Nothing \<Longrightarrow> finish_body x p = Some (p\<lparr>ap_block := rb_of (end_outcome x)\<rparr>)"
  by (cases x) (simp_all add: finish_body_def async_unhandled_exception_def end_outcome_def rb_of_def rb_defs)

lemma held_mset: "held bs = size (filter_mset (\<lambda>b. b) (mset bs))"
  by (simp add: held_def flip: mset_filter)

lemma held_swap: "i < length bs \<Longrightarrow> j < length bs \<Longrightarrow> held (bs[i := bs ! j, j := bs ! i]) = held bs"
  unfolding held_mset by (simp add: mset_swap)

lemma held_drop: "i < length bs \<Longrightarrow> bs ! i \<Longrightarrow> Suc (held (bs[i := False])) = held bs"
  unfolding held_def by (induction bs arbitrary: i) (auto split: nat.splits simp: nth_Cons)

lemma held_pos: "i < length bs \<Longrightarrow> bs ! i \<Longrightarrow> held bs > 0"
  using held_drop[of i bs] by simp

lemma held_move:
  "i < length bs \<Longrightarrow> held (at_objs (async_move i s)) = held (at_objs s)" if "bs = at_objs s" for bs
  using held_swap[of "length bs" "bs @ [False]" i] that by (simp add: async_move_def async_swap_def held_def)

text \<open>Dropping one of the owners destroys the frame exactly if it was the last one.\<close>

lemma drop_owner:
  assumes "at_frame s = Some p" "ap_ref p = of_nat n" "0 < n" "n \<le> 2" "ap_block p = rb_of y"
  shows "do { (l, s') \<leftarrow> drop_ref s; if l then at_destroy s' else Some s' } =
    Some (if n = 1 then s\<lparr>at_frame := None, at_destroyed := Suc (at_destroyed s)\<rparr>
          else s\<lparr>at_frame := Some (p\<lparr>ap_ref := 1\<rparr>)\<rparr>)"
proof -
  have n: "n = 1 \<or> n = 2" using assms by auto
  then show ?thesis
    using assms rb_of_dtor[of y] by (auto simp: drop_ref_def at_destroy_def)
qed

lemma at_inv_init: "at_inv x at_init"
  by (simp add: at_inv_def at_init_def owners_def async_get_return_object_def async_task_ctor_def
      async_task_promise_init_def block_now_def rb_of_def return_block_init_def read_ok_def held_def)

lemma at_inv_frame:
  assumes "at_inv x s" "owners s > 0"
  obtains p where "at_frame s = Some p" "ap_ref p = of_nat (owners s)" "ap_block p = rb_of (block_now x s)"
    "ap_ready p = (at_prod s \<notin> {PBody, PStored})"
  using assms unfolding at_inv_def by (cases "at_frame s") auto

lemma at_inv_prod:
  assumes inv: "at_inv x s" and pc: "at_prod s \<noteq> PDone"
  shows "\<exists>s'. prod_step x s = Some s' \<and> at_inv x s'"
proof -
  have ow: "owners s > 0" "owners s = Suc (held (at_objs s))" using pc by (simp_all add: owners_def)
  have le: "owners s \<le> 2" using inv ow by (simp add: at_inv_def)
  obtain p where p: "at_frame s = Some p" "ap_ref p = of_nat (owners s)" "ap_block p = rb_of (block_now x s)"
    "ap_ready p = (at_prod s \<notin> {PBody, PStored})"
    using at_inv_frame[OF inv ow(1)] .
  show ?thesis
  proof (cases "at_prod s")
    case PBody
    with p(3) have "ap_block p = rb_of Nothing" by (simp add: block_now_def)
    from finish_body_ok[OF this, of x] PBody p inv show ?thesis
      by (auto simp: prod_step_def with_promise_def at_inv_def owners_def block_now_def)
  next
    case PStored
    with p inv show ?thesis
      by (auto simp: prod_step_def with_promise_def at_inv_def owners_def block_now_def)
  next
    case PReadied
    with p inv show ?thesis
      by (cases "at_cons s")
        (auto simp: prod_step_def at_inv_def owners_def block_now_def wake_waiter_def)
  next
    case PNotified
    note d = drop_owner[OF p(1,2) ow(1) le p(3)]
    have "prod_step x s = do { s'' \<leftarrow> do { (l, s') \<leftarrow> drop_ref s; if l then at_destroy s' else Some s' };
        Some (s''\<lparr>at_prod := PDone\<rparr>) }"
      using PNotified by (simp add: prod_step_def split: bind_splits)
    moreover have "held (at_objs s) = 0 \<or> held (at_objs s) = 1" using ow le by auto
    ultimately show ?thesis
      using d PNotified p inv by (auto simp: at_inv_def owners_def block_now_def)
  next
    case PDone
    with pc show ?thesis by simp
  qed
qed

lemma at_inv_detach:
  assumes inv: "at_inv x s" and idle: "at_cons s = CIdle" and i: "i < length (at_objs s)"
  shows "\<exists>s'. async_detach i s = Some s' \<and> at_inv x s'"
proof (cases "at_objs s ! i")
  case False
  with inv show ?thesis by (simp add: async_detach_def async_empty_def)
next
  case True
  from inv held_pos[OF i True] have h: "held (at_objs s) = 1" by (simp add: at_inv_def)
  with held_drop[OF i True] have h': "held ((at_objs s)[i := False]) = 0" by simp
  have ow: "owners s > 0" "owners s \<le> 2" using h by (simp_all add: owners_def)
  obtain p where p: "at_frame s = Some p" "ap_ref p = of_nat (owners s)" "ap_block p = rb_of (block_now x s)"
    "ap_ready p = (at_prod s \<notin> {PBody, PStored})"
    using at_inv_frame[OF inv ow(1)] .
  have "async_detach i s = do { s'' \<leftarrow> do { (l, s') \<leftarrow> drop_ref s; if l then at_destroy s' else Some s' };
        Some (s''\<lparr>at_objs := (at_objs s'')[i := False]\<rparr>) }"
    using True by (simp add: async_detach_def async_empty_def split: bind_splits)
  with drop_owner[OF p(1,2) ow p(3)] p inv h h' idle show ?thesis
    by (auto simp: at_inv_def owners_def block_now_def)
qed

lemma at_inv_begin:
  assumes inv: "at_inv x s" and may: "cons_may c s"
  shows "\<exists>s'. cons_begin c s = Some s' \<and> at_inv x s'"
proof (cases c)
  case (CallWait i)
  with inv may held_pos[of i "at_objs s"] show ?thesis
    by (auto simp: cons_begin_def cons_may_def async_empty_def at_inv_def owners_def block_now_def)
next
  case (CallReady i)
  show ?thesis
  proof (cases "at_objs s ! i")
    case False
    with CallReady inv show ?thesis by (simp add: cons_begin_def async_ready_def async_empty_def)
  next
    case True
    with may CallReady held_pos[of i "at_objs s"] have "owners s > 0" by (simp add: owners_def cons_may_def)
    from at_inv_frame[OF inv this] obtain p where p: "at_frame s = Some p"
      "ap_ready p = (at_prod s \<notin> {PBody, PStored})" by metis
    with CallReady True inv show ?thesis
      by (auto simp: cons_begin_def async_ready_def async_empty_def at_inv_def owners_def block_now_def)
  qed
next
  case (CallGet i)
  with inv may held_pos[of i "at_objs s"] show ?thesis
    by (auto simp: cons_begin_def cons_may_def async_empty_def at_inv_def owners_def block_now_def)
next
  case (CallDetach i)
  with at_inv_detach[OF inv] may show ?thesis by (simp add: cons_begin_def cons_may_def)
next
  case (CallMove i)
  have "held (at_objs (async_move i s)) = held (at_objs s)"
    using held_move[OF refl, of i s] may CallMove by (simp add: cons_may_def)
  with CallMove inv show ?thesis
    by (auto simp: cons_begin_def at_inv_def owners_def block_now_def async_move_def async_swap_def)
next
  case (CallSwap i j)
  have "held (at_objs (async_swap i j s)) = held (at_objs s)"
    using held_swap may CallSwap by (simp add: cons_may_def async_swap_def)
  with CallSwap inv show ?thesis
    by (auto simp: cons_begin_def at_inv_def owners_def block_now_def async_swap_def)
qed

text \<open>The end of \<open>get\<close> reads what the body ended with.\<close>

lemma get_finish_ok:
  assumes "at_frame s = Some p" "ap_block p = rb_of (end_outcome x)" "at_got s = []"
  shows "async_get_finish s = Some (case end_outcome x of
      Failed e \<Rightarrow> s\<lparr>at_frame := Some (p\<lparr>ap_block := rb_of Nothing\<rparr>), at_got := [Inr (Some e)]\<rparr>
    | Returned v \<Rightarrow> s\<lparr>at_got := [Inl v]\<rparr>)"
  using assms
  by (cases x) (simp_all add: async_get_finish_def end_outcome_def rb_of_def rb_defs)

lemma at_inv_load:
  assumes inv: "at_inv x s" and pc: "at_cons s = CLoad k"
  shows "\<exists>s'. cons_load s = Some s' \<and> at_inv x s'"
proof -
  have ow: "owners s > 0" using inv pc by (simp add: at_inv_def owners_def)
  obtain p where p: "at_frame s = Some p" "ap_ref p = of_nat (owners s)" "ap_block p = rb_of (block_now x s)"
    "ap_ready p = (at_prod s \<notin> {PBody, PStored})"
    using at_inv_frame[OF inv ow(1)] .
  show ?thesis
  proof (cases "ap_ready p")
    case False
    with p pc inv show ?thesis by (cases k) (auto simp: cons_load_def at_inv_def owners_def block_now_def)
  next
    case ready: True
    show ?thesis
    proof (cases k)
      case ForWait
      with ready p pc inv show ?thesis by (auto simp: cons_load_def at_inv_def owners_def block_now_def)
    next
      case ForGet
      with inv pc have got: "at_got s = []" by (simp add: at_inv_def)
      from ready p got have b: "ap_block p = rb_of (end_outcome x)" by (auto simp: block_now_def)
      have "cons_load s = async_get_finish (s\<lparr>at_cons := CIdle\<rparr>)"
        using ForGet ready p pc by (simp add: cons_load_def Let_def)
      also have "\<dots> = Some (case end_outcome x of
          Failed e \<Rightarrow> s\<lparr>at_cons := CIdle, at_frame := Some (p\<lparr>ap_block := rb_of Nothing\<rparr>), at_got := [Inr (Some e)]\<rparr>
        | Returned v \<Rightarrow> s\<lparr>at_cons := CIdle, at_got := [Inl v]\<rparr>)"
        using get_finish_ok[of "s\<lparr>at_cons := CIdle\<rparr>" p x] p b got by simp
      finally show ?thesis
        using ready p pc inv got b
        by (cases x) (auto simp: at_inv_def owners_def block_now_def read_ok_def after_read_def end_outcome_def)
    qed
  qed
qed

lemma at_inv_spurious: "at_inv x s \<Longrightarrow> at_inv x (spurious s)"
  by (cases "at_cons s") (auto simp: at_inv_def spurious_def wake_waiter_def owners_def block_now_def)

lemma at_reach_inv: "at_reach x s \<Longrightarrow> at_inv x s"
proof (induction rule: at_reach.induct)
  case at_start
  show ?case by (rule at_inv_init)
next
  case (at_producer s s')
  have "at_prod s \<noteq> PDone" using at_producer(2) by (auto simp: prod_step_def)
  with at_inv_prod[OF at_producer(3)] at_producer(2) show ?case by auto
next
  case (at_call s c s')
  with at_inv_begin show ?case by (metis option.inject)
next
  case (at_load s s')
  then obtain k where "at_cons s = CLoad k" by (auto simp: cons_load_def split: cons_pc.splits)
  with at_inv_load[OF at_load(3)] at_load(2) show ?case by auto
next
  case (at_spurious s)
  then show ?case by (blast intro: at_inv_spurious)
qed

section \<open>Properties\<close>

text \<open>
  C15. The frame of an \<open>async_task\<close> is managed correctly under every interleaving of producer and
  consumer, whatever the consumer does with its objects (moves, swaps, detaches, waits) and however
  the body ends. In every reachable state: the next step of each side is defined, so no access
  reaches a destroyed frame and no assertion of the return block fails; the frame is destroyed at
  most once, and it is gone exactly when the producer is past its final awaiter and no object
  holds the handle, so it never leaks.
\<close>

theorem async_task_frame_safe:
  assumes "at_reach x s"
  shows "(at_prod s \<noteq> PDone \<longrightarrow> prod_step x s \<noteq> None)
    \<and> (\<forall>c. cons_may c s \<longrightarrow> cons_begin c s \<noteq> None)
    \<and> (\<forall>k. at_cons s = CLoad k \<longrightarrow> cons_load s \<noteq> None)
    \<and> at_destroyed s \<le> 1
    \<and> (at_frame s = None \<longleftrightarrow> at_prod s = PDone \<and> True \<notin> set (at_objs s))
    \<and> (at_frame s = None \<longleftrightarrow> at_destroyed s = 1)"
proof -
  from at_reach_inv[OF assms] have inv: "at_inv x s" .
  have held0: "held bs = 0 \<longleftrightarrow> True \<notin> set bs" for bs by (induction bs) (auto simp: held_def)
  from inv have "at_frame s = None \<longleftrightarrow> owners s = 0" "at_destroyed s = (if owners s = 0 then 1 else 0)"
    unfolding at_inv_def by (cases "at_frame s"; simp)+
  with at_inv_prod[OF inv] at_inv_begin[OF inv] at_inv_load[OF inv] show ?thesis
    by (auto simp: owners_def held0)
qed

text \<open>
  What \<open>get\<close> delivers is what the body ended with: the value of \<open>co_return\<close> or of the return
  place, or the exception, also when the exception came after the value. And once \<open>ready\<close> has
  answered \<open>true\<close> it keeps doing so, and a following \<open>get\<close> or \<open>wait\<close> does not block.
\<close>

theorem async_task_get_result:
  assumes "at_reach x s"
  shows "(at_got s = [] \<or> at_got s = [case end_outcome x of Returned v \<Rightarrow> Inl v | Failed e \<Rightarrow> Inr (Some e)])
    \<and> (at_told s \<longrightarrow> (\<forall>i < length (at_objs s). at_objs s ! i \<longrightarrow> async_ready i s = Some True))
    \<and> (at_told s \<longrightarrow> (\<forall>k s'. at_cons s = CLoad k \<longrightarrow> cons_load s = Some s' \<longrightarrow> at_cons s' = CIdle))"
proof -
  from at_reach_inv[OF assms] have inv: "at_inv x s" .
  have got: "at_got s = [] \<or> at_got s = [case end_outcome x of Returned v \<Rightarrow> Inl v | Failed e \<Rightarrow> Inr (Some e)]"
    using inv by (cases x) (auto simp: at_inv_def read_ok_def end_outcome_def)
  have rdy: "ap_ready p" if "at_told s" "at_frame s = Some p" for p
    using inv that by (auto simp: at_inv_def)
  have "async_ready i s = Some True" if t: "at_told s" and i: "i < length (at_objs s)" "at_objs s ! i" for i
  proof -
    have "owners s > 0" using held_pos[OF i] by (simp add: owners_def)
    from at_inv_frame[OF inv this] obtain p where p: "at_frame s = Some p" by metis
    with rdy[OF t p] i show ?thesis by (simp add: async_ready_def async_empty_def)
  qed
  moreover have "at_cons s' = CIdle" if t: "at_told s" and k: "at_cons s = CLoad k" "cons_load s = Some s'" for k s'
  proof -
    have "owners s > 0" using inv k by (simp add: at_inv_def owners_def)
    from at_inv_frame[OF inv this] obtain p where p: "at_frame s = Some p" by metis
    with rdy[OF t p] k show ?thesis
      by (auto simp: cons_load_def async_get_finish_def Let_def split: wait_for.splits bind_splits if_splits)
  qed
  ultimately show ?thesis using got by blast
qed

text \<open>Running the producer alone, until it is done.\<close>

primrec prod_run :: "('v, 'e) body_end \<Rightarrow> nat \<Rightarrow> ('v, 'e) at_sys \<Rightarrow> ('v, 'e) at_sys option" where
  "prod_run x 0 s = Some s"
| "prod_run x (Suc n) s = (if at_prod s = PDone then Some s else do { s' \<leftarrow> prod_step x s; prod_run x n s' })"

definition prod_left :: "prod_pc \<Rightarrow> nat" where
  "prod_left pc = (case pc of PBody \<Rightarrow> 4 | PStored \<Rightarrow> 3 | PReadied \<Rightarrow> 2 | PNotified \<Rightarrow> 1 | PDone \<Rightarrow> 0)"

lemma prod_step_pc:
  "prod_step x s = Some s' \<Longrightarrow> prod_left (at_prod s) = Suc (prod_left (at_prod s'))
     \<and> (at_cons s' = at_cons s \<or> at_cons s' = wake_waiter (at_cons s))"
  by (cases "at_prod s"; cases "at_frame s")
    (auto simp: prod_step_def prod_left_def with_promise_def drop_ref_def at_destroy_def
      split: bind_splits if_splits)

lemma prod_run_done:
  assumes "at_reach x s" "prod_left (at_prod s) \<le> n"
  shows "\<exists>s'. prod_run x n s = Some s' \<and> at_reach x s' \<and> at_prod s' = PDone
    \<and> (at_cons s' = at_cons s \<or> at_cons s' = wake_waiter (at_cons s))"
  using assms
proof (induction n arbitrary: s)
  case 0
  then show ?case by (cases "at_prod s") (auto simp: prod_left_def)
next
  case (Suc n)
  show ?case
  proof (cases "at_prod s = PDone")
    case True
    with Suc.prems show ?thesis by auto
  next
    case False
    with at_inv_prod[OF at_reach_inv[OF Suc.prems(1)]] obtain s1 where s1: "prod_step x s = Some s1" by blast
    from prod_step_pc[OF s1] Suc.prems have "prod_left (at_prod s1) \<le> n" by simp
    from Suc.IH[OF at_producer[OF Suc.prems(1) s1] this] obtain s' where
      "prod_run x n s1 = Some s'" "at_reach x s'" "at_prod s' = PDone"
      "at_cons s' = at_cons s1 \<or> at_cons s' = wake_waiter (at_cons s1)" by blast
    moreover have "wake_waiter (wake_waiter c) = wake_waiter c" for c
      by (simp add: wake_waiter_def split: cons_pc.split)
    ultimately show ?thesis using False s1 prod_step_pc[OF s1] by auto
  qed
qed

text \<open>
  No wakeup is lost. From every reachable state in which the consumer waits inside \<open>wait\<close> or
  \<open>get\<close> (also blocked), the at most four remaining steps of the producer are defined, leave the
  consumer unblocked, and its next load then makes the wait return: a waiting consumer always
  returns once the body has ended.
\<close>

theorem async_task_wait_returns:
  assumes "at_reach x s" and "at_cons s \<noteq> CIdle"
  shows "\<exists>s' s''. prod_run x 4 s = Some s' \<and> at_prod s' = PDone
    \<and> cons_load s' = Some s'' \<and> at_cons s'' = CIdle"
proof -
  have "prod_left (at_prod s) \<le> 4" by (simp add: prod_left_def split: prod_pc.split)
  from prod_run_done[OF assms(1) this] obtain s' where s': "prod_run x 4 s = Some s'" "at_reach x s'"
    "at_prod s' = PDone" "at_cons s' = at_cons s \<or> at_cons s' = wake_waiter (at_cons s)" by blast
  from at_reach_inv[OF s'(2)] have inv: "at_inv x s'" .
  from s'(3) inv have "\<not> (\<exists>k. at_cons s' = CAsleep k)" by (auto simp: at_inv_def)
  with s'(4) assms(2) obtain k where k: "at_cons s' = CLoad k"
    by (cases "at_cons s'") (auto simp: wake_waiter_def split: cons_pc.splits)
  from at_inv_load[OF inv k] obtain s'' where s'': "cons_load s' = Some s''" by blast
  have "owners s' > 0" using inv k by (simp add: at_inv_def owners_def)
  from at_inv_frame[OF inv this] obtain p where
    p: "at_frame s' = Some p" "ap_ready p = (at_prod s' \<notin> {PBody, PStored})" by metis
  with s'(3) have "ap_ready p" by simp
  with p k s'' have "at_cons s'' = CIdle"
    by (auto simp: cons_load_def async_get_finish_def Let_def split: wait_for.splits bind_splits if_splits)
  with s' s'' show ?thesis by blast
qed

section \<open>Concrete runs\<close>

datatype at_action = ActProd | ActCall cons_call | ActLoad

definition at_exec1 :: "('v, 'e) body_end \<Rightarrow> at_action \<Rightarrow> ('v, 'e) at_sys \<Rightarrow> ('v, 'e) at_sys option" where
  "at_exec1 x a s = (case a of
      ActProd \<Rightarrow> prod_step x s
    | ActCall c \<Rightarrow> if cons_may c s then cons_begin c s else None
    | ActLoad \<Rightarrow> cons_load s)"

lemma at_exec_reach:
  "at_reach x s \<Longrightarrow> foldM_opt (at_exec1 x) as s = Some s' \<Longrightarrow> at_reach x s'"
proof (induction as arbitrary: s)
  case Nil
  then show ?case by simp
next
  case (Cons a as)
  from Cons.prems(2) obtain s1 where s1: "at_exec1 x a s = Some s1" "foldM_opt (at_exec1 x) as s1 = Some s'"
    by (auto split: bind_splits)
  from s1(1) Cons.prems(1) have "at_reach x s1"
    by (cases a) (auto simp: at_exec1_def intro: at_producer at_call at_load split: if_splits)
  from Cons.IH[OF this s1(2)] show ?case .
qed

lemmas at_exec_defs = at_exec1_def prod_step_def cons_begin_def cons_may_def cons_load_def with_promise_def
  at_init_def async_get_return_object_def async_task_ctor_def async_task_promise_init_def finish_body_def
  async_unhandled_exception_def wake_waiter_def drop_ref_def at_destroy_def async_empty_def async_detach_def
  async_get_finish_def async_ready_def async_move_def async_swap_def rb_defs

text \<open>
  A consumer that moves its object, blocks in \<open>get\<close>, and receives the exception of a body that had
  already stored a value; then the same up to the moment it is blocked, and a consumer that
  detaches first.
\<close>

lemma run_get:
  "foldM_opt (at_exec1 (EndValueThrow (7 :: nat) (5 :: nat)))
     [ActCall (CallMove 0), ActCall (CallGet 1), ActLoad, ActProd, ActProd, ActProd, ActProd, ActLoad,
      ActCall (CallReady 1)] at_init =
   Some \<lparr>at_frame = Some \<lparr>ap_block = return_block_init, ap_ready = True, ap_ref = 1\<rparr>, at_prod = PDone,
     at_cons = CIdle, at_objs = [False, True], at_destroyed = 0, at_got = [Inr (Some 5)], at_told = True\<rparr>"
  by (simp add: at_exec_defs)

lemma run_blocked:
  "foldM_opt (at_exec1 (EndValue (7 :: nat) :: (nat, nat) body_end)) [ActCall (CallGet 0), ActLoad] at_init =
   Some \<lparr>at_frame = Some \<lparr>ap_block = return_block_init, ap_ready = False, ap_ref = 2\<rparr>, at_prod = PBody,
     at_cons = CAsleep ForGet, at_objs = [True], at_destroyed = 0, at_got = [], at_told = False\<rparr>"
  by (simp add: at_exec_defs)

lemma run_detach:
  "foldM_opt (at_exec1 (EndValue (7 :: nat) :: (nat, nat) body_end))
     [ActCall (CallDetach 0), ActProd, ActProd, ActProd, ActProd] at_init =
   Some \<lparr>at_frame = None, at_prod = PDone,
     at_cons = CIdle, at_objs = [False], at_destroyed = 1, at_got = [], at_told = False\<rparr>"
  by (simp add: at_exec_defs)

lemma async_task_frame_safe_witness:
  "at_destroyed (the (foldM_opt (at_exec1 (EndValue (7 :: nat) :: (nat, nat) body_end))
     [ActCall (CallDetach 0), ActProd, ActProd, ActProd, ActProd] at_init)) = 1"
  using async_task_frame_safe[OF at_exec_reach[OF at_start run_detach]] unfolding run_detach option.sel
  by simp

lemma async_task_get_result_witness:
  "at_got (the (foldM_opt (at_exec1 (EndValueThrow (7 :: nat) (5 :: nat)))
     [ActCall (CallMove 0), ActCall (CallGet 1), ActLoad, ActProd, ActProd, ActProd, ActProd, ActLoad,
      ActCall (CallReady 1)] at_init)) = [Inr (Some 5)]"
  using async_task_get_result[OF at_exec_reach[OF at_start run_get]] unfolding run_get option.sel
  by (simp add: end_outcome_def)

lemma async_task_wait_returns_witness:
  "\<exists>s' s''. prod_run (EndValue (7 :: nat) :: (nat, nat) body_end) 4
     \<lparr>at_frame = Some \<lparr>ap_block = return_block_init, ap_ready = False, ap_ref = 2\<rparr>, at_prod = PBody,
       at_cons = CAsleep ForGet, at_objs = [True], at_destroyed = 0, at_got = [], at_told = False\<rparr> = Some s'
     \<and> at_prod s' = PDone \<and> cons_load s' = Some s'' \<and> at_cons s'' = CIdle"
  using async_task_wait_returns[OF at_exec_reach[OF at_start run_blocked]] by simp

text \<open>
  The documented precondition of \<open>get\<close> is only that the object is not empty. A second \<open>get\<close> on the
  object whose first \<open>get\<close> threw meets it, but the return block is empty by then and the assertion
  of \<open>result\<close> fails.
\<close>

lemma second_get_fails:
  "do { s \<leftarrow> foldM_opt (at_exec1 (EndThrow 5 :: (nat, nat) body_end))
          [ActProd, ActProd, ActProd, ActProd, ActCall (CallGet 0), ActLoad] at_init;
        s' \<leftarrow> cons_begin (CallGet 0) s;
        Some (at_got s', async_empty 0 s', cons_load s') } = Some ([Inr (Some 5)], False, None)"
  by (simp add: at_exec_defs)

end
