(* ===== verification/Expected_Result.thy ===== *)
theory Expected_Result
  imports Prelude
begin

text \<open>
  \<open>noexport/expected.hpp\<close>: the result of a task as a value, \<open>expected<T, E>\<close> over a \<open>std::variant\<close>. A
  variant whose \<open>emplace\<close> was left by an exception holds nothing (\<open>Valueless\<close>); reading an
  alternative that is not there is undefined, \<open>None\<close>. Also \<open>avalue\<close> of \<open>algorithm.hpp\<close>.
\<close>

datatype 'e unexpected = Unexpected (unexpected_value: 'e)

datatype ('v, 'e) expected_data = Alt0 'v | Alt1 'e | Valueless

record ('v, 'e) expected =
  ex_data :: "('v, 'e) expected_data"

text \<open>The default constructor makes a default constructed value (an empty object for \<open>void\<close>).\<close>

definition expected_default :: "'v \<Rightarrow> ('v, 'e) expected" where
  "expected_default d = \<lparr>ex_data = Alt0 d\<rparr>"

definition expected_of :: "'v \<Rightarrow> ('v, 'e) expected" where
  "expected_of v = \<lparr>ex_data = Alt0 v\<rparr>"

definition expected_of_unexpected :: "'e unexpected \<Rightarrow> ('v, 'e) expected" where
  "expected_of_unexpected u = \<lparr>ex_data = Alt1 (unexpected_value u)\<rparr>"

definition ex_has_value :: "('v, 'e) expected \<Rightarrow> bool" where
  "ex_has_value x \<longleftrightarrow> (case ex_data x of Alt0 _ \<Rightarrow> True | _ \<Rightarrow> False)"

definition ex_bool :: "('v, 'e) expected \<Rightarrow> bool" where
  "ex_bool x \<longleftrightarrow> ex_has_value x"

definition ex_value :: "('v, 'e) expected \<Rightarrow> 'v option" where
  "ex_value x = (if \<not> ex_has_value x then None else case ex_data x of Alt0 v \<Rightarrow> Some v | _ \<Rightarrow> None)"

definition ex_error :: "('v, 'e) expected \<Rightarrow> 'e option" where
  "ex_error x = (if ex_has_value x then None else case ex_data x of Alt1 e \<Rightarrow> Some e | _ \<Rightarrow> None)"

text \<open>\<open>data.emplace<0>\<close> and \<open>data.emplace<1>\<close>\<close>

definition emplace0 :: "'v \<Rightarrow> ('v, 'e) expected \<Rightarrow> ('v, 'e) expected" where
  "emplace0 v x = x\<lparr>ex_data := Alt0 v\<rparr>"

definition emplace1 :: "'e \<Rightarrow> ('v, 'e) expected \<Rightarrow> ('v, 'e) expected" where
  "emplace1 e x = x\<lparr>ex_data := Alt1 e\<rparr>"

lemma ex_readings [simp]:
  "ex_value (expected_of v) = Some v" "ex_error (expected_of v) = None"
  "ex_value (expected_of_unexpected (Unexpected e)) = None"
  "ex_error (expected_of_unexpected (Unexpected e)) = Some e"
  by (simp_all add: ex_value_def ex_error_def ex_has_value_def expected_of_def expected_of_unexpected_def)

lemma ex_exclusive: "ex_value x = None \<or> ex_error x = None"
  by (simp add: ex_value_def ex_error_def)

lemma emplace_readings [simp]:
  "emplace0 v x = expected_of v" "emplace1 e x = expected_of_unexpected (Unexpected e)"
  by (simp_all add: emplace0_def emplace1_def expected_of_def expected_of_unexpected_def)

text \<open>\<open>avalue\<close>: an awaitable that is always ready and returns its value.\<close>

record 'v avalue =
  av_value :: 'v

definition avalue_await_ready :: "'v avalue \<Rightarrow> bool" where
  "avalue_await_ready a = True"

definition avalue_await_resume :: "'v avalue \<Rightarrow> 'v" where
  "avalue_await_resume a = av_value a"

end
