(* ===== verification/When_All.thy ===== *)
theory When_All
  imports Expected_Result Return_Block "HOL-Library.Word"
begin

text \<open>
  \<open>when_all\<close> of \<open>algorithm.hpp\<close>. The owner starts one job per task from inside its own \<open>await_suspend\<close>
  and stays suspended; every job waits for its task, moves the outcome into its slot of \<open>results\<close>,
  and counts down; the last one destroys itself and resumes the owner, which returns \<open>results\<close>.
  The counter and the slots live in the frame of the owner. The jobs run on any threads: their
  steps interleave freely.
\<close>

section \<open>The jobs\<close>

datatype wl_pc = NotStarted | WaitChild | HasResult | Transfer | JobEnd
datatype owner_pc = OwnerSuspended | OwnerRunning | OwnerReturned

text \<open>
  The frame of the owner: the counter, the results (default constructed at first), and the index
  of the loop that starts the jobs.
\<close>

record ('v, 'e) wl_frame =
  wl_count :: "64 word"
  wl_results :: "('v, 'e) expected list"
  wl_next :: nat

record ('v, 'e) wl_sys =
  wl_frame_of :: "('v, 'e) wl_frame option"
  wl_owner :: owner_pc
  wl_jobs :: "nat \<Rightarrow> wl_pc"
  wl_resumed :: nat
  wl_returned :: "('v, 'e) expected list option"

definition when_all_init :: "'v \<Rightarrow> nat \<Rightarrow> ('v, 'e) wl_sys" where
  "when_all_init d n = (if n = 0
     then \<lparr>wl_frame_of = None, wl_owner = OwnerReturned, wl_jobs = \<lambda>_. NotStarted, wl_resumed = 0,
           wl_returned = Some []\<rparr>
     else \<lparr>wl_frame_of = Some \<lparr>wl_count = of_nat n, wl_results = replicate n (expected_default d), wl_next = 0\<rparr>,
           wl_owner = OwnerSuspended, wl_jobs = \<lambda>_. NotStarted, wl_resumed = 0, wl_returned = None\<rparr>)"

text \<open>The loop in \<open>suspend_and\<close>: starts the next job, which runs until it waits for its task.\<close>

definition start_job :: "nat \<Rightarrow> ('v, 'e) wl_sys \<Rightarrow> ('v, 'e) wl_sys option" where
  "start_job n s = do {
     f \<leftarrow> wl_frame_of s;
     if wl_next f < n
     then Some (s\<lparr>wl_frame_of := Some (f\<lparr>wl_next := Suc (wl_next f)\<rparr>), wl_jobs := (wl_jobs s)(wl_next f := WaitChild)\<rparr>)
     else None }"

text \<open>What a task ended with: the exception or the value of its promise, which the job takes.\<close>

definition take_outcome :: "('v, 'e) outcome \<Rightarrow> ('v, 'e) expected \<Rightarrow> ('v, 'e) expected option" where
  "take_outcome c r = (case c of
      Failed e \<Rightarrow> Some (emplace1 e r) | Returned v \<Rightarrow> Some (emplace0 v r) | Nothing \<Rightarrow> None)"

text \<open>
  \<open>job_for_when_all\<close>: the task is done and the result is stored; the count goes down; the last job
  transfers control to the owner.
\<close>

definition job_for_when_all :: "(nat \<Rightarrow> ('v, 'e) outcome) \<Rightarrow> nat \<Rightarrow> ('v, 'e) wl_sys \<Rightarrow> ('v, 'e) wl_sys option" where
  "job_for_when_all outs i s = (case wl_jobs s i of
      WaitChild \<Rightarrow> do {
        f \<leftarrow> wl_frame_of s;
        if i < length (wl_results f) then do {
          r \<leftarrow> take_outcome (outs i) (wl_results f ! i);
          Some (s\<lparr>wl_frame_of := Some (f\<lparr>wl_results := (wl_results f)[i := r]\<rparr>), wl_jobs := (wl_jobs s)(i := HasResult)\<rparr>) }
        else None }
    | HasResult \<Rightarrow> do {
        f \<leftarrow> wl_frame_of s;
        Some (s\<lparr>wl_frame_of := Some (f\<lparr>wl_count := wl_count f - 1\<rparr>),
               wl_jobs := (wl_jobs s)(i := if wl_count f = 1 then Transfer else JobEnd)\<rparr>) }
    | Transfer \<Rightarrow>
        if wl_owner s = OwnerSuspended
        then Some (s\<lparr>wl_owner := OwnerRunning, wl_resumed := Suc (wl_resumed s), wl_jobs := (wl_jobs s)(i := JobEnd)\<rparr>)
        else None
    | _ \<Rightarrow> None)"

text \<open>The owner after it was resumed: \<open>co_return results\<close>, and its frame may be destroyed.\<close>

definition owner_finish :: "('v, 'e) wl_sys \<Rightarrow> ('v, 'e) wl_sys option" where
  "owner_finish s = (if wl_owner s = OwnerRunning
     then do {
       f \<leftarrow> wl_frame_of s;
       Some (s\<lparr>wl_frame_of := None, wl_owner := OwnerReturned, wl_returned := Some (wl_results f)\<rparr>) }
     else None)"

inductive wl_reach :: "'v \<Rightarrow> (nat \<Rightarrow> ('v, 'e) outcome) \<Rightarrow> nat \<Rightarrow> ('v, 'e) wl_sys \<Rightarrow> bool" for d outs n where
  wl_start: "wl_reach d outs n (when_all_init d n)"
| wl_start_job: "wl_reach d outs n s \<Longrightarrow> start_job n s = Some s' \<Longrightarrow> wl_reach d outs n s'"
| wl_job: "wl_reach d outs n s \<Longrightarrow> job_for_when_all outs i s = Some s' \<Longrightarrow> wl_reach d outs n s'"
| wl_owner_step: "wl_reach d outs n s \<Longrightarrow> owner_finish s = Some s' \<Longrightarrow> wl_reach d outs n s'"

section \<open>The invariant\<close>

definition outcome_result :: "('v, 'e) outcome \<Rightarrow> ('v, 'e) expected" where
  "outcome_result c = (case c of Failed e \<Rightarrow> expected_of_unexpected (Unexpected e) | Returned v \<Rightarrow> expected_of v
      | Nothing \<Rightarrow> undefined)"

text \<open>The jobs that did not count down yet.\<close>

definition pending :: "nat \<Rightarrow> (nat \<Rightarrow> wl_pc) \<Rightarrow> nat set" where
  "pending n js = {i. i < n \<and> js i \<in> {NotStarted, WaitChild, HasResult}}"

definition transferring :: "nat \<Rightarrow> (nat \<Rightarrow> wl_pc) \<Rightarrow> nat set" where
  "transferring n js = {i. i < n \<and> js i = Transfer}"

definition stored :: "(nat \<Rightarrow> ('v, 'e) outcome) \<Rightarrow> nat \<Rightarrow> (nat \<Rightarrow> wl_pc) \<Rightarrow> ('v, 'e) expected list \<Rightarrow> bool" where
  "stored outs n js rs \<longleftrightarrow> length rs = n
     \<and> (\<forall>i<n. js i \<in> {HasResult, Transfer, JobEnd} \<longrightarrow> rs ! i = outcome_result (outs i))"

definition started :: "nat \<Rightarrow> (nat \<Rightarrow> wl_pc) \<Rightarrow> nat \<Rightarrow> bool" where
  "started n js k \<longleftrightarrow> k \<le> n \<and> (\<forall>i<k. js i \<noteq> NotStarted) \<and> (\<forall>i\<ge>k. js i = NotStarted)"

definition wl_inv :: "(nat \<Rightarrow> ('v, 'e) outcome) \<Rightarrow> nat \<Rightarrow> ('v, 'e) wl_sys \<Rightarrow> bool" where
  "wl_inv outs n s \<longleftrightarrow> (case wl_owner s of
      OwnerSuspended \<Rightarrow> wl_resumed s = 0 \<and> wl_returned s = None \<and> n > 0
        \<and> (\<exists>f. wl_frame_of s = Some f \<and> wl_count f = of_nat (card (pending n (wl_jobs s)))
            \<and> stored outs n (wl_jobs s) (wl_results f) \<and> started n (wl_jobs s) (wl_next f)
            \<and> card (transferring n (wl_jobs s)) = (if pending n (wl_jobs s) = {} then 1 else 0))
    | OwnerRunning \<Rightarrow> n > 0 \<and> wl_resumed s = 1 \<and> wl_returned s = None \<and> (\<forall>i<n. wl_jobs s i = JobEnd)
        \<and> (\<forall>i\<ge>n. wl_jobs s i = NotStarted)
        \<and> (\<exists>f. wl_frame_of s = Some f \<and> wl_next f = n \<and> wl_results f = map (\<lambda>i. outcome_result (outs i)) [0..<n])
    | OwnerReturned \<Rightarrow> wl_resumed s = (if n = 0 then 0 else 1) \<and> wl_frame_of s = None
        \<and> (\<forall>i<n. wl_jobs s i = JobEnd) \<and> (\<forall>i\<ge>n. wl_jobs s i = NotStarted)
        \<and> wl_returned s = Some (map (\<lambda>i. outcome_result (outs i)) [0..<n]))"

lemma take_outcome_ok: "c \<noteq> Nothing \<Longrightarrow> take_outcome c r = Some (outcome_result c)"
  by (cases c) (simp_all add: take_outcome_def outcome_result_def)

lemma finite_pending [simp, intro]: "finite (pending n js)" "finite (transferring n js)"
  by (simp_all add: pending_def transferring_def)

lemma pending_le: "card (pending n js) \<le> n"
proof -
  have "pending n js \<subseteq> {..<n}" by (auto simp: pending_def)
  from card_mono[OF _ this] show ?thesis by simp
qed

lemma word_count_1:
  fixes c :: nat
  assumes "c \<le> n" "n < 2 ^ 64"
  shows "(of_nat c :: 64 word) = 1 \<longleftrightarrow> c = 1"
proof
  assume "(of_nat c :: 64 word) = 1"
  then have "unat (of_nat c :: 64 word) = unat (1 :: 64 word)" by simp
  with assms show "c = 1" by (simp add: unat_of_nat take_bit_nat_eq_self)
qed simp

text \<open>Counting down removes a job from the pending ones.\<close>

lemma pending_count_down:
  assumes "i < n" "js i = HasResult" "pc \<in> {Transfer, JobEnd}"
  shows "i \<in> pending n js" "pending n (js(i := pc)) = pending n js - {i}"
    "card (pending n js) = Suc (card (pending n (js(i := pc))))"
proof -
  show i: "i \<in> pending n js" using assms by (simp add: pending_def)
  show e: "pending n (js(i := pc)) = pending n js - {i}" using assms by (auto simp: pending_def)
  show "card (pending n js) = Suc (card (pending n (js(i := pc))))"
    unfolding e using i by (metis card.remove finite_pending(1))
qed

lemma started_upd:
  "started n js k \<Longrightarrow> js i \<noteq> NotStarted \<Longrightarrow> pc \<noteq> NotStarted \<Longrightarrow> started n (js(i := pc)) k"
  by (auto simp: started_def)

lemma wl_inv_start:
  assumes "wl_inv outs n s" "start_job n s = Some s'"
  shows "wl_inv outs n s'"
proof -
  from assms(2) obtain f where f: "wl_frame_of s = Some f" "wl_next f < n"
    "s' = s\<lparr>wl_frame_of := Some (f\<lparr>wl_next := Suc (wl_next f)\<rparr>), wl_jobs := (wl_jobs s)(wl_next f := WaitChild)\<rparr>"
    by (auto simp: start_job_def split: bind_splits if_splits)
  with assms(1) have ow: "wl_owner s = OwnerSuspended" by (cases "wl_owner s") (auto simp: wl_inv_def)
  let ?k = "wl_next f" and ?js = "wl_jobs s"
  from assms(1) ow f have st: "started n ?js ?k" and so: "stored outs n ?js (wl_results f)"
    and rest: "wl_resumed s = 0" "wl_returned s = None" "n > 0" "wl_count f = of_nat (card (pending n ?js))"
      "card (transferring n ?js) = (if pending n ?js = {} then 1 else 0)"
    by (simp_all add: wl_inv_def)
  from st f(2) have k: "?js ?k = NotStarted" by (simp add: started_def)
  have "pending n (?js(?k := WaitChild)) = pending n ?js" "transferring n (?js(?k := WaitChild)) = transferring n ?js"
    using k by (auto simp: pending_def transferring_def)
  moreover have "started n (?js(?k := WaitChild)) (Suc ?k)"
    using st f(2) by (auto simp: started_def)
  moreover have "stored outs n (?js(?k := WaitChild)) (wl_results f)"
    using so by (auto simp: stored_def)
  ultimately show ?thesis using f ow rest by (simp add: wl_inv_def)
qed

lemma wl_started_lt:
  assumes "wl_inv outs n s" "wl_jobs s i \<noteq> NotStarted"
  shows "i < n"
proof (cases "wl_owner s")
  case OwnerSuspended
  with assms(1) obtain f where "wl_frame_of s = Some f" "started n (wl_jobs s) (wl_next f)"
    by (auto simp: wl_inv_def)
  with assms(2) have "i < wl_next f" "wl_next f \<le> n" unfolding started_def by (auto intro: leI simp: not_less[symmetric])
  then show ?thesis by simp
next
  case OwnerRunning
  with assms show ?thesis by (auto simp: wl_inv_def intro: leI)
next
  case OwnerReturned
  with assms show ?thesis by (auto simp: wl_inv_def intro: leI)
qed

lemma wl_inv_job:
  assumes inv: "wl_inv outs n s" and n: "n < 2 ^ 64" and outs: "\<And>j. j < n \<Longrightarrow> outs j \<noteq> Nothing"
    and pc: "wl_jobs s i \<in> {WaitChild, HasResult, Transfer}"
  shows "\<exists>s'. job_for_when_all outs i s = Some s' \<and> wl_inv outs n s'"
proof -
  let ?js = "wl_jobs s"
  from pc have "?js i \<noteq> NotStarted" by auto
  from wl_started_lt[OF inv this] have i: "i < n" .
  with inv pc have ow: "wl_owner s = OwnerSuspended" by (cases "wl_owner s") (auto simp: wl_inv_def)
  from inv ow obtain f where f: "wl_frame_of s = Some f" "wl_count f = of_nat (card (pending n ?js))"
    and so: "stored outs n ?js (wl_results f)" and st: "started n ?js (wl_next f)"
    and tr: "card (transferring n ?js) = (if pending n ?js = {} then 1 else 0)"
    and rest: "wl_resumed s = 0" "wl_returned s = None" "n > 0"
    by (auto simp: wl_inv_def)
  from pc consider (wait) "?js i = WaitChild" | (has) "?js i = HasResult" | (trans) "?js i = Transfer" by auto
  then show ?thesis
  proof cases
    case wait
    have len: "length (wl_results f) = n" using so by (simp add: stored_def)
    let ?s = "s\<lparr>wl_frame_of := Some (f\<lparr>wl_results := (wl_results f)[i := outcome_result (outs i)]\<rparr>),
      wl_jobs := ?js(i := HasResult)\<rparr>"
    have "job_for_when_all outs i s = Some ?s"
      using wait f i len take_outcome_ok[OF outs[OF i]] by (simp add: job_for_when_all_def)
    moreover have "pending n (?js(i := HasResult)) = pending n ?js" "transferring n (?js(i := HasResult)) = transferring n ?js"
      using wait by (auto simp: pending_def transferring_def)
    moreover have "stored outs n (?js(i := HasResult)) ((wl_results f)[i := outcome_result (outs i)])"
      using so i by (auto simp: stored_def nth_list_update)
    moreover have "started n (?js(i := HasResult)) (wl_next f)" by (rule started_upd[OF st]) (simp_all add: wait)
    ultimately show ?thesis using f ow rest tr by (simp add: wl_inv_def)
  next
    case has
    obtain pc where pc': "pc = (if wl_count f = 1 then Transfer else JobEnd)" by blast
    let ?s = "s\<lparr>wl_frame_of := Some (f\<lparr>wl_count := wl_count f - 1\<rparr>), wl_jobs := ?js(i := pc)\<rparr>"
    have step: "job_for_when_all outs i s = Some ?s" using has f by (simp add: job_for_when_all_def pc')
    have pcs: "pc \<in> {Transfer, JobEnd}" by (simp add: pc')
    note cd = pending_count_down(1)[of i n ?js, OF i has pcs] pending_count_down(2)[of i n ?js, OF i has pcs]
      pending_count_down(3)[of i n ?js, OF i has pcs]
    have c1: "wl_count f = 1 \<longleftrightarrow> card (pending n ?js) = 1" unfolding f(2) by (rule word_count_1[OF pending_le n])
    have e: "pending n (?js(i := pc)) = {} \<longleftrightarrow> wl_count f = 1"
      using c1 cd(3) card_0_eq[OF finite_pending(1), of n "?js(i := pc)"] by linarith
    from cd(1) have "pending n ?js \<noteq> {}" by blast
    with tr have "transferring n ?js = {}" by (simp add: card_0_eq[OF finite_pending(2)])
    then have "transferring n (?js(i := pc)) = (if wl_count f = 1 then {i} else {})"
      using i by (auto simp: transferring_def pc')
    with e have "card (transferring n (?js(i := pc))) = (if pending n (?js(i := pc)) = {} then 1 else 0)" by simp
    moreover have "stored outs n (?js(i := pc)) (wl_results f)" using so has by (auto simp: stored_def)
    moreover have "started n (?js(i := pc)) (wl_next f)" by (rule started_upd[OF st]) (use has pcs in auto)
    moreover have "wl_count f - 1 = of_nat (card (pending n (?js(i := pc))))" unfolding f(2) cd(3) by simp
    ultimately have "wl_inv outs n ?s" using f ow rest by (simp add: wl_inv_def)
    with step show ?thesis by blast
  next
    case trans
    then have ti: "i \<in> transferring n ?js" using i by (simp add: transferring_def)
    with tr have p0: "pending n ?js = {}" and "card (transferring n ?js) = 1"
      by (auto split: if_splits)
    with ti have t1: "transferring n ?js = {i}" by (auto simp: card_1_singleton_iff)
    let ?s = "s\<lparr>wl_owner := OwnerRunning, wl_resumed := Suc (wl_resumed s), wl_jobs := ?js(i := JobEnd)\<rparr>"
    have step: "job_for_when_all outs i s = Some ?s" using trans ow by (simp add: job_for_when_all_def)
    have others: "?js j = JobEnd" if "j < n" "j \<noteq> i" for j
    proof -
      from that p0 t1 have "j \<notin> pending n ?js" "j \<notin> transferring n ?js" by auto
      with that show ?thesis by (cases "?js j") (auto simp: pending_def transferring_def)
    qed
    have "wl_results f = map (\<lambda>i. outcome_result (outs i)) [0..<n]"
      (is "_ = ?rs")
    proof (rule nth_equalityI)
      show "length (wl_results f) = length ?rs" using so by (simp add: stored_def)
      fix j assume "j < length (wl_results f)"
      with so have j: "j < n" by (simp add: stored_def)
      with others trans have "?js j \<in> {HasResult, Transfer, JobEnd}" by (cases "j = i") auto
      with so j have "wl_results f ! j = outcome_result (outs j)" unfolding stored_def by blast
      with j show "wl_results f ! j = ?rs ! j" by simp
    qed
    moreover have "wl_next f = n"
    proof (rule ccontr)
      assume "wl_next f \<noteq> n"
      with st have "wl_next f < n" "?js (wl_next f) = NotStarted" by (auto simp: started_def)
      with others[of "wl_next f"] trans show False by (cases "wl_next f = i") auto
    qed
    moreover have "?js j = NotStarted" if "j \<ge> n" for j using st that by (auto simp: started_def)
    ultimately have "wl_inv outs n ?s" using f others rest i by (simp add: wl_inv_def)
    with step show ?thesis by blast
  qed
qed

lemma wl_inv_finish:
  assumes "wl_inv outs n s" "wl_owner s = OwnerRunning"
  shows "\<exists>s'. owner_finish s = Some s' \<and> wl_inv outs n s'"
  using assms by (auto simp: owner_finish_def wl_inv_def)

lemma wl_inv_init:
  assumes "\<And>j. j < n \<Longrightarrow> outs j \<noteq> Nothing"
  shows "wl_inv outs n (when_all_init d n)"
proof (cases "n = 0")
  case False
  have "pending n (\<lambda>_. NotStarted) = {..<n}" "transferring n (\<lambda>_. NotStarted) = {}"
    by (auto simp: pending_def transferring_def)
  with False show ?thesis
    by (auto simp: when_all_init_def wl_inv_def stored_def started_def lessThan_empty_iff)
qed (simp add: when_all_init_def wl_inv_def)

lemma wl_reach_inv:
  assumes "wl_reach d outs n s" and n: "n < 2 ^ 64" and outs: "\<And>j. j < n \<Longrightarrow> outs j \<noteq> Nothing"
  shows "wl_inv outs n s"
  using assms(1)
proof (induction rule: wl_reach.induct)
  case wl_start
  show ?case by (rule wl_inv_init[OF outs])
next
  case (wl_start_job s s')
  then show ?case by (blast intro: wl_inv_start)
next
  case (wl_job s i s')
  have "wl_jobs s i \<in> {WaitChild, HasResult, Transfer}"
    using wl_job(2) by (auto simp: job_for_when_all_def split: wl_pc.splits)
  with wl_inv_job[OF wl_job(3) n outs this] wl_job(2) show ?case by auto
next
  case (wl_owner_step s s')
  have "wl_owner s = OwnerRunning" using wl_owner_step(2) by (auto simp: owner_finish_def split: if_splits)
  with wl_inv_finish[OF wl_owner_step(3) this] wl_owner_step(2) show ?case by auto
qed

lemma wl_can_start:
  assumes "wl_inv outs n s" "wl_owner s = OwnerSuspended" "i < n" "wl_jobs s i = NotStarted"
  shows "start_job n s \<noteq> None"
proof -
  from assms(1,2) obtain f where f: "wl_frame_of s = Some f" "started n (wl_jobs s) (wl_next f)"
    by (auto simp: wl_inv_def)
  with assms(3,4) have "wl_next f < n" by (metis le_less_trans not_le started_def)
  with f show ?thesis by (simp add: start_job_def)
qed

lemma wl_suspended_pending:
  assumes "wl_inv outs n s" "wl_owner s = OwnerSuspended"
  shows "\<exists>i<n. wl_jobs s i \<noteq> JobEnd"
proof (rule ccontr)
  assume "\<not> ?thesis"
  then have "pending n (wl_jobs s) = {}" "transferring n (wl_jobs s) = {}"
    by (auto simp: pending_def transferring_def)
  with assms show False by (auto simp: wl_inv_def)
qed

section \<open>Properties\<close>

text \<open>
  C19. \<open>when_all\<close> is safe and resumes its owner exactly once. In every interleaving of the starting
  loop, the jobs and the owner: each next step is defined, so no job stores into \<open>results\<close> or counts
  down after the frame of the owner is gone, and the owner is resumed only while it is suspended; it
  is resumed at most once, only when every job has ended, and it has been resumed when all of them
  have; and what it returns is the outcome of every task, value or exception, in the order of the
  tasks.
\<close>

theorem when_all_resumes_once:
  assumes "wl_reach d outs n s" and "n < 2 ^ 64" and "\<And>j. j < n \<Longrightarrow> outs j \<noteq> Nothing"
  shows "(\<forall>i. wl_jobs s i \<in> {WaitChild, HasResult, Transfer} \<longrightarrow> job_for_when_all outs i s \<noteq> None)
    \<and> ((\<exists>i<n. wl_jobs s i = NotStarted) \<and> wl_owner s = OwnerSuspended \<longrightarrow> start_job n s \<noteq> None)
    \<and> (wl_owner s = OwnerRunning \<longrightarrow> owner_finish s \<noteq> None)
    \<and> wl_resumed s \<le> 1
    \<and> (n > 0 \<longrightarrow> (wl_resumed s = 1 \<longleftrightarrow> (\<forall>i<n. wl_jobs s i = JobEnd)))
    \<and> (wl_owner s = OwnerReturned \<longrightarrow> wl_returned s = Some (map (\<lambda>i. outcome_result (outs i)) [0..<n]))"
proof -
  have inv: "wl_inv outs n s" by (rule wl_reach_inv[OF assms])
  note wl_can_start[OF inv] wl_suspended_pending[OF inv]
  moreover have "wl_resumed s \<le> 1 \<and> (n > 0 \<longrightarrow> (wl_resumed s = 1 \<longleftrightarrow> wl_owner s \<noteq> OwnerSuspended))
      \<and> (wl_owner s \<noteq> OwnerSuspended \<longrightarrow> (\<forall>i<n. wl_jobs s i = JobEnd))
      \<and> (wl_owner s = OwnerReturned \<longrightarrow> wl_returned s = Some (map (\<lambda>i. outcome_result (outs i)) [0..<n]))"
    using inv by (cases "wl_owner s") (simp_all add: wl_inv_def)
  moreover have "wl_owner s = OwnerRunning \<longrightarrow> owner_finish s \<noteq> None"
    using wl_inv_finish[OF inv] by auto
  moreover have "wl_jobs s i \<in> {WaitChild, HasResult, Transfer} \<longrightarrow> job_for_when_all outs i s \<noteq> None" for i
    using wl_inv_job[OF inv assms(2,3)] by blast
  ultimately show ?thesis by blast
qed

text \<open>A rank that every step decreases.\<close>

definition wl_weight :: "wl_pc \<Rightarrow> nat" where
  "wl_weight p = (case p of NotStarted \<Rightarrow> 4 | WaitChild \<Rightarrow> 3 | HasResult \<Rightarrow> 2 | Transfer \<Rightarrow> 1 | JobEnd \<Rightarrow> 0)"

definition wl_rank :: "nat \<Rightarrow> ('v, 'e) wl_sys \<Rightarrow> nat" where
  "wl_rank n s = (\<Sum>i<n. wl_weight (wl_jobs s i))
     + (case wl_owner s of OwnerSuspended \<Rightarrow> 2 | OwnerRunning \<Rightarrow> 1 | OwnerReturned \<Rightarrow> 0)"

lemma weight_sum_less:
  fixes n :: nat
  assumes "i < n" "wl_weight pc < wl_weight (js i)"
  shows "(\<Sum>k<n. wl_weight ((js(i := pc)) k)) < (\<Sum>k<n. wl_weight (js k))"
proof (rule sum_strict_mono_ex1)
  show "finite {..<n}" by simp
qed (use assms in auto)

definition wl_step :: "(nat \<Rightarrow> ('v, 'e) outcome) \<Rightarrow> nat \<Rightarrow> ('v, 'e) wl_sys \<Rightarrow> ('v, 'e) wl_sys \<Rightarrow> bool" where
  "wl_step outs n s s' \<longleftrightarrow> start_job n s = Some s' \<or> (\<exists>i. job_for_when_all outs i s = Some s') \<or> owner_finish s = Some s'"

lemma wl_step_rank:
  assumes inv: "wl_inv outs n s" and step: "wl_step outs n s s'"
  shows "wl_rank n s' < wl_rank n s"
proof -
  from step consider (start) "start_job n s = Some s'" | (job) i where "job_for_when_all outs i s = Some s'"
    | (fin) "owner_finish s = Some s'" by (auto simp: wl_step_def)
  then show ?thesis
  proof cases
    case start
    then obtain f where f: "wl_frame_of s = Some f" "wl_next f < n" "wl_owner s' = wl_owner s"
      "wl_jobs s' = (wl_jobs s)(wl_next f := WaitChild)"
      by (auto simp: start_job_def split: bind_splits if_splits)
    with inv have "wl_owner s = OwnerSuspended" by (cases "wl_owner s") (auto simp: wl_inv_def)
    with inv f have "wl_jobs s (wl_next f) = NotStarted" by (auto simp: wl_inv_def started_def)
    with weight_sum_less[of "wl_next f" n WaitChild "wl_jobs s"] f show ?thesis
      by (simp add: wl_rank_def wl_weight_def)
  next
    case (job i)
    then have "wl_jobs s i \<noteq> NotStarted" by (auto simp: job_for_when_all_def)
    from wl_started_lt[OF inv this] have i: "i < n" .
    have w: "\<exists>pc. wl_jobs s' = (wl_jobs s)(i := pc) \<and> wl_weight pc < wl_weight (wl_jobs s i)
        \<and> (wl_owner s' = wl_owner s \<or> wl_owner s = OwnerSuspended)"
      using job by (cases "wl_jobs s i")
        (auto simp: job_for_when_all_def wl_weight_def split: bind_splits if_splits)
    then obtain pc where pc: "wl_jobs s' = (wl_jobs s)(i := pc)" "wl_weight pc < wl_weight (wl_jobs s i)"
        "wl_owner s' = wl_owner s \<or> wl_owner s = OwnerSuspended" by blast
    from weight_sum_less[of i n pc "wl_jobs s"] i pc show ?thesis
      by (cases "wl_owner s'") (auto simp: wl_rank_def)
  next
    case fin
    then show ?thesis by (auto simp: owner_finish_def wl_rank_def split: if_splits bind_splits)
  qed
qed

text \<open>
  \<open>when_all\<close> returns. Every step of the loop, of a job or of the owner decreases a rank that
  starts below \<open>4 n + 3\<close>, and a reachable state in which no step is possible is one in which the
  owner has returned: when every task ends, no order of completion can leave the owner suspended.
\<close>

theorem when_all_returns:
  fixes outs :: "nat \<Rightarrow> ('v, 'e) outcome"
  assumes "wl_reach d outs n s" and "n < 2 ^ 64" and "\<And>j. j < n \<Longrightarrow> outs j \<noteq> Nothing"
  shows "(\<forall>s'. wl_step outs n s s' \<longrightarrow> wl_rank n s' < wl_rank n s)
    \<and> ((\<nexists>s'. wl_step outs n s s') \<longrightarrow> wl_owner s = OwnerReturned)
    \<and> wl_rank n (when_all_init d n :: ('v, 'e) wl_sys) < 4 * n + 3"
proof -
  have inv: "wl_inv outs n s" by (rule wl_reach_inv[OF assms])
  have init: "wl_rank n (when_all_init d n :: ('v, 'e) wl_sys) < 4 * n + 3"
    by (simp add: wl_rank_def when_all_init_def wl_weight_def)
  have "\<exists>s'. wl_step outs n s s'" if "wl_owner s \<noteq> OwnerReturned"
  proof (cases "wl_owner s")
    case OwnerSuspended
    with wl_suspended_pending[OF inv] obtain i where i: "i < n" "wl_jobs s i \<noteq> JobEnd" by blast
    show ?thesis
    proof (cases "wl_jobs s i = NotStarted")
      case True
      with wl_can_start[OF inv OwnerSuspended i(1)] show ?thesis by (auto simp: wl_step_def)
    next
      case False
      with i have "wl_jobs s i \<in> {WaitChild, HasResult, Transfer}" by (cases "wl_jobs s i") auto
      from wl_inv_job[OF inv assms(2,3) this] show ?thesis by (auto simp: wl_step_def)
    qed
  qed (use that wl_inv_finish[OF inv] in \<open>auto simp: wl_step_def\<close>)
  with wl_step_rank[OF inv] init show ?thesis by blast
qed

section \<open>A concrete run\<close>

datatype wl_action = WlStart | WlJob nat | WlOwner

definition wl_exec1 :: "(nat \<Rightarrow> ('v, 'e) outcome) \<Rightarrow> nat \<Rightarrow> wl_action \<Rightarrow> ('v, 'e) wl_sys \<Rightarrow> ('v, 'e) wl_sys option" where
  "wl_exec1 outs n a s = (case a of WlStart \<Rightarrow> start_job n s | WlJob i \<Rightarrow> job_for_when_all outs i s | WlOwner \<Rightarrow> owner_finish s)"

lemma wl_exec_reach:
  "wl_reach d outs n s \<Longrightarrow> foldM_opt (wl_exec1 outs n) as s = Some s' \<Longrightarrow> wl_reach d outs n s'"
proof (induction as arbitrary: s)
  case Nil
  then show ?case by simp
next
  case (Cons a as)
  from Cons.prems(2) obtain s1 where s1: "wl_exec1 outs n a s = Some s1" "foldM_opt (wl_exec1 outs n) as s1 = Some s'"
    by (auto split: bind_splits)
  from s1(1) Cons.prems(1) have "wl_reach d outs n s1"
    by (cases a) (auto simp: wl_exec1_def intro: wl_start_job wl_job wl_owner_step)
  from Cons.IH[OF this s1(2)] show ?case .
qed

text \<open>Two tasks; the second one fails, and ends before the first one was started to the end.\<close>

definition two_outs :: "nat \<Rightarrow> (nat, nat) outcome" where
  "two_outs i = (if i = 0 then Returned 7 else Failed 5)"

definition two_run :: "wl_action list" where
  "two_run = [WlStart, WlStart, WlJob 1, WlJob 1, WlJob 0, WlJob 0, WlJob 0, WlOwner]"

lemmas wl_exec_defs = wl_exec1_def start_job_def job_for_when_all_def owner_finish_def when_all_init_def
  take_outcome_def two_outs_def two_run_def

lemma two_run_ok:
  "map_option (\<lambda>s. (wl_owner s, wl_resumed s)) (foldM_opt (wl_exec1 two_outs 2) two_run (when_all_init 0 2)) =
     Some (OwnerReturned, 1)"
  by (simp add: wl_exec_defs)

lemma when_all_resumes_once_witness:
  "\<exists>s. wl_reach 0 two_outs 2 s \<and> wl_resumed s = 1
     \<and> wl_returned s = Some [expected_of 7, expected_of_unexpected (Unexpected 5)]"
proof -
  from two_run_ok obtain s where s: "foldM_opt (wl_exec1 two_outs 2) two_run (when_all_init 0 2) = Some s"
    "wl_owner s = OwnerReturned" "wl_resumed s = 1" by auto
  from wl_exec_reach[OF wl_start s(1)] have r: "wl_reach 0 two_outs 2 s" .
  from when_all_resumes_once[OF this] s have "wl_returned s = Some (map (\<lambda>i. outcome_result (two_outs i)) [0..<2])"
    by (simp add: two_outs_def)
  with r s show ?thesis by (auto simp: two_outs_def outcome_result_def upt_rec)
qed

lemma when_all_returns_witness:
  "\<exists>s. wl_reach 0 two_outs 2 s \<and> wl_rank 2 s < 11 \<and> (\<exists>s'. wl_step two_outs 2 s s' \<and> wl_rank 2 s' < wl_rank 2 s)"
proof -
  let ?s = "when_all_init 0 2 :: (nat, nat) wl_sys"
  have r: "wl_reach 0 two_outs 2 ?s" by (rule wl_start)
  have o: "two_outs j \<noteq> Nothing" for j by (simp add: two_outs_def)
  from when_all_returns[OF r _ o] have p: "(\<forall>s'. wl_step two_outs 2 ?s s' \<longrightarrow> wl_rank 2 s' < wl_rank 2 ?s) \<and> wl_rank 2 ?s < 11"
    by simp
  have "\<exists>s'. start_job 2 ?s = Some s'" by (simp add: wl_exec_defs)
  with r p show ?thesis unfolding wl_step_def by blast
qed

end
