(* ===== verification/When_Any.thy ===== *)
theory When_Any
  imports Expected_Result Return_Block "HOL-Library.Word"
begin

text \<open>
  \<open>when_any\<close> of \<open>algorithm.hpp\<close>. The owner is resumed by the first task that succeeds, or by the last
  one if all of them fail. The jobs report to a state that is shared by \<open>shared_ptr\<close>; a job holds only
  a \<open>weak_ptr\<close> while its task runs. The first part models the state, for a fixed list of types and for
  a vector of tasks; the second one the interleavings of the jobs with the owner. Every critical
  section of the mutex is one function.
\<close>

section \<open>The state of \<open>when_any\<close>\<close>

record ('v, 'e) when_any_state =
  wa_result :: "(nat \<times> ('v, 'e) expected) option"
  wa_count :: "64 word"
  wa_owner :: "handle option"

definition when_any_state_init :: "64 word \<Rightarrow> handle \<Rightarrow> ('v, 'e) when_any_state" where
  "when_any_state_init n own = \<lparr>wa_result = None, wa_count = n, wa_owner = Some own\<rparr>"

definition wa_set_exception ::
  "nat \<Rightarrow> 'e \<Rightarrow> ('v, 'e) when_any_state \<Rightarrow> handle option \<times> ('v, 'e) when_any_state" where
  "wa_set_exception i p s = (if wa_owner s = None then (None, s)
     else (let s' = s\<lparr>wa_result := Some (i, expected_of_unexpected (Unexpected p)), wa_count := wa_count s - 1\<rparr>
           in (if wa_count s' = 0 then wa_owner s' else None, s')))"

text \<open>
  The argument is the value that the constructor makes or the exception that it throws. In the latter
  case the \<open>optional\<close> is left empty, the mutex is released, and the exception has to be reported with
  \<open>set_exception\<close>, another critical section (\<open>Inr\<close>).
\<close>

definition wa_set_result ::
  "nat \<Rightarrow> 'v + 'e \<Rightarrow> ('v, 'e) when_any_state \<Rightarrow> (handle option + 'e) \<times> ('v, 'e) when_any_state" where
  "wa_set_result i arg s = (if wa_owner s = None then (Inl None, s)
     else (case arg of
         Inl v \<Rightarrow> (Inl (wa_owner s), s\<lparr>wa_result := Some (i, expected_of v), wa_owner := None\<rparr>)
       | Inr e \<Rightarrow> (Inr e, s\<lparr>wa_result := None\<rparr>)))"

text \<open>The version for a vector: the result is a variant that starts with \<open>monostate\<close>, the index is apart.\<close>

datatype ('v, 'e) dyn_result = Mono | Has "('v, 'e) expected" | ValuelessResult

record ('v, 'e) when_any_state_dyn =
  wd_result :: "('v, 'e) dyn_result"
  wd_index :: "64 word"
  wd_count :: "64 word"
  wd_owner :: "handle option"

definition when_any_state_dyn_init :: "64 word \<Rightarrow> handle \<Rightarrow> ('v, 'e) when_any_state_dyn" where
  "when_any_state_dyn_init n own = \<lparr>wd_result = Mono, wd_index = - 1, wd_count = n, wd_owner = Some own\<rparr>"

definition wd_set_exception ::
  "64 word \<Rightarrow> 'e \<Rightarrow> ('v, 'e) when_any_state_dyn \<Rightarrow> handle option \<times> ('v, 'e) when_any_state_dyn" where
  "wd_set_exception i p s = (if wd_owner s = None then (None, s)
     else (let s' = s\<lparr>wd_result := Has (expected_of_unexpected (Unexpected p)), wd_index := i, wd_count := wd_count s - 1\<rparr>
           in (if wd_count s' = 0 then wd_owner s' else None, s')))"

definition wd_set_result ::
  "64 word \<Rightarrow> 'v + 'e \<Rightarrow> ('v, 'e) when_any_state_dyn \<Rightarrow> (handle option + 'e) \<times> ('v, 'e) when_any_state_dyn" where
  "wd_set_result i arg s = (if wd_owner s = None then (Inl None, s)
     else (case arg of
         Inl v \<Rightarrow> (Inl (wd_owner s), s\<lparr>wd_result := Has (expected_of v), wd_index := i, wd_owner := None\<rparr>)
       | Inr e \<Rightarrow> (Inr e, s\<lparr>wd_result := ValuelessResult\<rparr>)))"

text \<open>The index and the variant together are the optional result of the other version.\<close>

definition wd_abs :: "('v, 'e) when_any_state_dyn \<Rightarrow> ('v, 'e) when_any_state" where
  "wd_abs s = \<lparr>wa_result = (case wd_result s of Has x \<Rightarrow> Some (unat (wd_index s), x) | _ \<Rightarrow> None),
     wa_count = wd_count s, wa_owner = wd_owner s\<rparr>"

text \<open>
  The state for a vector of tasks implements the state for a fixed list: each operation returns
  the same handle to resume and commutes with the abstraction, on every branch, also when the
  constructor of the result throws.
\<close>

theorem when_any_dyn_refines:
  "wd_abs (when_any_state_dyn_init n own) = when_any_state_init n own
   \<and> map_prod (\<lambda>r. r) wd_abs (wd_set_exception i e s) = wa_set_exception (unat i) e (wd_abs s)
   \<and> map_prod (\<lambda>r. r) wd_abs (wd_set_result i arg s) = wa_set_result (unat i) arg (wd_abs s)"
  by (auto simp: wd_abs_def when_any_state_dyn_init_def when_any_state_init_def wd_set_exception_def
      wa_set_exception_def wd_set_result_def wa_set_result_def Let_def split: sum.split)

section \<open>Jobs and owner\<close>

text \<open>
  A job is suspended at its entry, waits for its task, has locked the state and reports, has to
  report an exception of the constructor, has an answer (the handle to resume or none), or ended.
\<close>

datatype 'e wy_pc = YStart | YWait | YCall | YRetry 'e | YRet "handle option" | YEnd
datatype wy_owner_pc = AnySuspended | AnyRunning | AnyReturned

text \<open>
  The state object is \<open>None\<close> after its last \<open>shared_ptr\<close> is gone. The owner keeps one until it
  returns, a job keeps one from \<open>lock\<close> to its end.
\<close>

record ('v, 'e) wy_sys =
  wy_state :: "('v, 'e) when_any_state option"
  wy_owner :: wy_owner_pc
  wy_jobs :: "nat \<Rightarrow> 'e wy_pc"
  wy_resumed :: nat
  wy_returned :: "(nat \<times> ('v, 'e) expected) option"

definition when_any_init :: "nat \<Rightarrow> handle \<Rightarrow> ('v, 'e) wy_sys" where
  "when_any_init n own = \<lparr>wy_state = Some (when_any_state_init (of_nat n) own), wy_owner = AnySuspended,
     wy_jobs = \<lambda>_. YStart, wy_resumed = 0, wy_returned = None\<rparr>"

definition holds_state :: "'e wy_pc \<Rightarrow> bool" where
  "holds_state pc \<longleftrightarrow> (case pc of YCall \<Rightarrow> True | YRetry _ \<Rightarrow> True | YRet _ \<Rightarrow> True | _ \<Rightarrow> False)"

definition drop_state :: "nat \<Rightarrow> ('v, 'e) wy_sys \<Rightarrow> ('v, 'e) wy_sys" where
  "drop_state n s = (if wy_owner s = AnyReturned \<and> (\<forall>i<n. \<not> holds_state (wy_jobs s i))
     then s\<lparr>wy_state := None\<rparr> else s)"

definition expired :: "('v, 'e) wy_sys \<Rightarrow> bool" where
  "expired s \<longleftrightarrow> wy_state s = None"

text \<open>
  What the task number \<open>i\<close> ends with, and whether the constructor of the result throws: given as the
  argument of \<open>set_exception\<close> (\<open>Inl\<close>) or of \<open>set_result\<close> (\<open>Inr\<close>).
\<close>

type_synonym ('v, 'e) task_end = "'e + ('v + 'e)"

definition job_for_when_any ::
  "(nat \<Rightarrow> ('v, 'e) task_end) \<Rightarrow> nat \<Rightarrow> nat \<Rightarrow> ('v, 'e) wy_sys \<Rightarrow> ('v, 'e) wy_sys option" where
  "job_for_when_any outs n i s =
     (if n \<le> i then None
      else (case wy_jobs s i of
        YStart \<Rightarrow> Some (s\<lparr>wy_jobs := (wy_jobs s)(i := if expired s then YEnd else YWait)\<rparr>)
      | YWait \<Rightarrow> Some (s\<lparr>wy_jobs := (wy_jobs s)(i := if expired s then YEnd else YCall)\<rparr>)
      | YCall \<Rightarrow> do {
          st \<leftarrow> wy_state s;
          case outs i of
            Inl e \<Rightarrow> (let (r, st') = wa_set_exception i e st
               in Some (s\<lparr>wy_state := Some st', wy_jobs := (wy_jobs s)(i := YRet r)\<rparr>))
          | Inr arg \<Rightarrow> (let (r, st') = wa_set_result i arg st
               in Some (s\<lparr>wy_state := Some st', wy_jobs := (wy_jobs s)(i := (case r of Inl h \<Rightarrow> YRet h | Inr e \<Rightarrow> YRetry e))\<rparr>)) }
      | YRetry e \<Rightarrow> do {
          st \<leftarrow> wy_state s;
          let (r, st') = wa_set_exception i e st
          in Some (s\<lparr>wy_state := Some st', wy_jobs := (wy_jobs s)(i := YRet r)\<rparr>) }
      | YRet r \<Rightarrow> (let s' = drop_state n (s\<lparr>wy_jobs := (wy_jobs s)(i := YEnd)\<rparr>)
          in case r of
            None \<Rightarrow> Some s'
          | Some own \<Rightarrow> if wy_owner s' = AnySuspended
              then Some (s'\<lparr>wy_owner := AnyRunning, wy_resumed := Suc (wy_resumed s')\<rparr>) else None)
      | YEnd \<Rightarrow> None))"

text \<open>The owner reads \<open>*state->result\<close>, returns it, and drops its \<open>shared_ptr\<close>.\<close>

definition any_owner_finish :: "nat \<Rightarrow> ('v, 'e) wy_sys \<Rightarrow> ('v, 'e) wy_sys option" where
  "any_owner_finish n s = (if wy_owner s = AnyRunning
     then do {
       st \<leftarrow> wy_state s;
       r \<leftarrow> wa_result st;
       Some (drop_state n (s\<lparr>wy_owner := AnyReturned, wy_returned := Some r\<rparr>)) }
     else None)"

inductive wy_reach :: "(nat \<Rightarrow> ('v, 'e) task_end) \<Rightarrow> nat \<Rightarrow> handle \<Rightarrow> ('v, 'e) wy_sys \<Rightarrow> bool" for outs n own where
  wy_start: "wy_reach outs n own (when_any_init n own)"
| wy_job: "wy_reach outs n own s \<Longrightarrow> job_for_when_any outs n i s = Some s' \<Longrightarrow> wy_reach outs n own s'"
| wy_owner_step: "wy_reach outs n own s \<Longrightarrow> any_owner_finish n s = Some s' \<Longrightarrow> wy_reach outs n own s'"

section \<open>The invariant\<close>

definition fails :: "('v, 'e) task_end \<Rightarrow> 'e option" where
  "fails x = (case x of Inl e \<Rightarrow> Some e | Inr (Inr e) \<Rightarrow> Some e | Inr (Inl _) \<Rightarrow> None)"

text \<open>The result that the owner may get: a success, or a failure if nothing succeeds.\<close>

definition any_result_ok :: "(nat \<Rightarrow> ('v, 'e) task_end) \<Rightarrow> nat \<Rightarrow> (nat \<times> ('v, 'e) expected) option \<Rightarrow> bool" where
  "any_result_ok outs n r \<longleftrightarrow> (\<exists>i<n.
      (\<exists>v. outs i = Inr (Inl v) \<and> r = Some (i, expected_of v))
    \<or> (\<exists>e. fails (outs i) = Some e \<and> r = Some (i, expected_of_unexpected (Unexpected e))
         \<and> (\<forall>j<n. fails (outs j) \<noteq> None)))"

text \<open>Before an answer was given: \<open>F\<close> are the jobs that reported a failure.\<close>

definition open_state ::
  "(nat \<Rightarrow> ('v, 'e) task_end) \<Rightarrow> nat \<Rightarrow> handle \<Rightarrow> nat set \<Rightarrow> (nat \<Rightarrow> 'e wy_pc) \<Rightarrow> ('v, 'e) when_any_state \<Rightarrow> bool" where
  "open_state outs n own F js st \<longleftrightarrow>
     F \<subseteq> {..<n} \<and> card F < n \<and> wa_owner st = Some own \<and> wa_count st = of_nat (n - card F)
   \<and> (\<forall>i\<in>F. js i \<in> {YRet None, YEnd} \<and> fails (outs i) \<noteq> None)
   \<and> (\<forall>i<n. i \<notin> F \<longrightarrow> js i \<in> {YStart, YWait, YCall}
        \<or> (\<exists>e. js i = YRetry e \<and> fails (outs i) = Some e))"

text \<open>After it: nobody changes the state any more.\<close>

definition settled ::
  "nat \<Rightarrow> (nat \<Rightarrow> 'e wy_pc) \<Rightarrow> ('v, 'e) when_any_state \<Rightarrow> bool" where
  "settled n js st \<longleftrightarrow> wa_owner st = None \<or> (\<forall>i<n. js i = YEnd \<or> (\<exists>r. js i = YRet r))"

definition answers :: "nat \<Rightarrow> (nat \<Rightarrow> 'e wy_pc) \<Rightarrow> nat set" where
  "answers n js = {i. i < n \<and> (\<exists>h. js i = YRet (Some h))}"

definition wy_inv :: "(nat \<Rightarrow> ('v, 'e) task_end) \<Rightarrow> nat \<Rightarrow> handle \<Rightarrow> ('v, 'e) wy_sys \<Rightarrow> bool" where
  "wy_inv outs n own s \<longleftrightarrow> (case wy_owner s of
      AnySuspended \<Rightarrow> wy_resumed s = 0 \<and> wy_returned s = None \<and> (\<exists>st. wy_state s = Some st
        \<and> ((\<exists>F. open_state outs n own F (wy_jobs s) st)
           \<or> (\<exists>w. answers n (wy_jobs s) = {w}) \<and> settled n (wy_jobs s) st \<and> any_result_ok outs n (wa_result st)))
    | AnyRunning \<Rightarrow> wy_resumed s = 1 \<and> wy_returned s = None \<and> answers n (wy_jobs s) = {}
        \<and> (\<exists>st. wy_state s = Some st \<and> settled n (wy_jobs s) st \<and> any_result_ok outs n (wa_result st))
    | AnyReturned \<Rightarrow> wy_resumed s = 1 \<and> answers n (wy_jobs s) = {} \<and> any_result_ok outs n (wy_returned s)
        \<and> (case wy_state s of
             None \<Rightarrow> \<forall>i<n. \<not> holds_state (wy_jobs s i)
           | Some st \<Rightarrow> settled n (wy_jobs s) st \<and> any_result_ok outs n (wa_result st)))"

lemma same_state: "wy_state s = Some st \<Longrightarrow> s\<lparr>wy_state := Some st, wy_jobs := js\<rparr> = s\<lparr>wy_jobs := js\<rparr>"
  by (cases s) simp

text \<open>A job that does not carry the answer moves on without changing a settled state.\<close>

lemma quiet_step:
  assumes i: "i < n" "wy_jobs s i \<noteq> YEnd" "\<And>h. wy_jobs s i \<noteq> YRet (Some h)"
    and st: "wy_state s = Some st" "settled n (wy_jobs s) st"
  shows "\<exists>pc. job_for_when_any outs n i s =
        Some (if pc = YEnd then drop_state n (s\<lparr>wy_jobs := (wy_jobs s)(i := pc)\<rparr>) else s\<lparr>wy_jobs := (wy_jobs s)(i := pc)\<rparr>)
      \<and> (\<forall>h. pc \<noteq> YRet (Some h)) \<and> settled n ((wy_jobs s)(i := pc)) st"
proof (cases "wy_jobs s i")
  case YStart
  with i st show ?thesis
    by (intro exI[of _ YWait]) (auto simp: job_for_when_any_def expired_def settled_def)
next
  case YWait
  with i st show ?thesis
    by (intro exI[of _ YCall]) (auto simp: job_for_when_any_def expired_def settled_def)
next
  case YCall
  with i st have "wa_owner st = None" by (auto simp: settled_def)
  with YCall i st show ?thesis
    by (intro exI[of _ "YRet None"])
      (auto simp: job_for_when_any_def wa_set_exception_def wa_set_result_def settled_def same_state split: sum.split)
next
  case (YRetry e)
  with i st have "wa_owner st = None" by (auto simp: settled_def)
  with YRetry i st show ?thesis
    by (intro exI[of _ "YRet None"]) (auto simp: job_for_when_any_def wa_set_exception_def settled_def same_state)
next
  case (YRet r)
  with i(3) have "r = None" by (cases r) auto
  with YRet i st show ?thesis
    by (intro exI[of _ YEnd]) (auto simp: job_for_when_any_def settled_def)
next
  case YEnd
  with i show ?thesis by simp
qed

lemma answers_upd_quiet:
  "(\<And>h. js i \<noteq> YRet (Some h)) \<Longrightarrow> (\<And>h. pc \<noteq> YRet (Some h)) \<Longrightarrow> answers n (js(i := pc)) = answers n js"
  by (auto simp: answers_def)

lemma answers_single:
  assumes "i < n" "\<And>j h. j < n \<Longrightarrow> j \<noteq> i \<Longrightarrow> js j \<noteq> YRet (Some h)"
  shows "answers n (js(i := YRet (Some h))) = {i}"
  using assms by (auto simp: answers_def split: if_splits)

lemma open_no_answer: "open_state outs n own F js st \<Longrightarrow> j < n \<Longrightarrow> js j \<noteq> YRet (Some h)"
  by (cases "j \<in> F") (auto simp: open_state_def)

text \<open>Reporting a failure, from \<open>set_exception\<close> or after the constructor threw.\<close>

lemma card_full: "F \<subseteq> {..<n} \<Longrightarrow> card F = n \<Longrightarrow> F = {..<n}" for n :: nat
  by (metis card_lessThan card_subset_eq finite_lessThan)

lemma word_sub_1_zero:
  assumes "0 < c" "c \<le> n" "n < 2 ^ 64"
  shows "(of_nat c - 1 :: 64 word) = of_nat (c - 1)" "(of_nat (c - 1) :: 64 word) = 0 \<longleftrightarrow> c = 1"
proof -
  show "(of_nat c - 1 :: 64 word) = of_nat (c - 1)" using assms by (simp add: of_nat_diff)
  have "c - 1 < 2 ^ LENGTH(64)" using assms by simp
  then have "unat (of_nat (c - 1) :: 64 word) = c - 1" by (simp only: unat_of_nat mod_less)
  then have "(of_nat (c - 1) :: 64 word) = 0 \<longleftrightarrow> c - 1 = 0" by (simp only: unat_eq_zero[symmetric])
  with assms show "(of_nat (c - 1) :: 64 word) = 0 \<longleftrightarrow> c = 1" by linarith
qed

lemma report_failure:
  assumes op: "open_state outs n own F js st" and i: "i < n" "i \<notin> F" "fails (outs i) = Some e" and n: "n < 2 ^ 64"
  obtains r st' where "wa_set_exception i e st = (r, st')"
    "(r = None \<and> open_state outs n own (insert i F) (js(i := YRet r)) st')
     \<or> (answers n (js(i := YRet r)) = {i} \<and> settled n (js(i := YRet r)) st' \<and> any_result_ok outs n (wa_result st'))"
proof -
  let ?st = "st\<lparr>wa_result := Some (i, expected_of_unexpected (Unexpected e)), wa_count := wa_count st - 1\<rparr>"
  from op have F: "F \<subseteq> {..<n}" "card F < n" "wa_owner st = Some own" "wa_count st = of_nat (n - card F)"
    "\<And>j. j \<in> F \<Longrightarrow> js j \<in> {YRet None, YEnd} \<and> fails (outs j) \<noteq> None"
    by (auto simp: open_state_def)
  have c: "card (insert i F) = Suc (card F)" using F(1) i(2) by (simp add: finite_subset)
  have w: "wa_count ?st = of_nat (n - card (insert i F))" "wa_count ?st = 0 \<longleftrightarrow> card (insert i F) = n"
  proof -
    have p: "0 < n - card F" "n - card F \<le> n" and e: "n - card (insert i F) = n - card F - 1" using F(2) c by auto
    have x: "wa_count ?st = of_nat (n - card F - 1)" using word_sub_1_zero(1)[OF p n] F(4) by simp
    show "wa_count ?st = of_nat (n - card (insert i F))" unfolding e by (rule x)
    have "wa_count ?st = 0 \<longleftrightarrow> n - card F = 1" unfolding x by (rule word_sub_1_zero(2)[OF p n])
    with F(2) c show "wa_count ?st = 0 \<longleftrightarrow> card (insert i F) = n" by linarith
  qed
  show thesis
  proof (cases "card (insert i F) = n")
    case False
    then have se: "wa_set_exception i e st = (None, ?st)" using F(3) w by (simp add: wa_set_exception_def)
    have "card (insert i F) < n" using False F(2) c by simp
    with op F w i have "open_state outs n own (insert i F) (js(i := YRet None)) ?st"
      by (auto simp: open_state_def)
    with that[OF se] show thesis by blast
  next
    case True
    then have se: "wa_set_exception i e st = (Some own, ?st)" using F(3) w by (simp add: wa_set_exception_def)
    have full: "insert i F = {..<n}" using card_full[OF _ True] F(1) i(1) by blast
    then have js: "j = i \<or> (js j \<in> {YRet None, YEnd} \<and> fails (outs j) \<noteq> None)" if "j < n" for j
      using F(5)[of j] that by blast
    have "answers n (js(i := YRet (Some own))) = {i}"
      by (rule answers_single[OF i(1)]) (use open_no_answer[OF op] in blast)
    moreover have "settled n (js(i := YRet (Some own))) ?st" using js by (auto simp: settled_def)
    moreover have "\<forall>j<n. fails (outs j) \<noteq> None" using js i(3) by (metis option.discI)
    then have "any_result_ok outs n (wa_result ?st)" using i by (auto simp: any_result_ok_def)
    ultimately show thesis using that[OF se] by blast
  qed
qed

lemma open_move:
  assumes "open_state outs n own F js st" "i \<notin> F" "pc \<in> {YStart, YWait, YCall} \<or> (\<exists>e. pc = YRetry e \<and> fails (outs i) = Some e)"
    "wa_owner st' = wa_owner st" "wa_count st' = wa_count st"
  shows "open_state outs n own F (js(i := pc)) st'"
  using assms by (auto simp: open_state_def)

text \<open>While no answer was given, a job keeps the state open or gives the answer.\<close>

definition pending_answer where
  "pending_answer outs n own js st \<longleftrightarrow> (\<exists>F. open_state outs n own F js st)
     \<or> (\<exists>w. answers n js = {w}) \<and> settled n js st \<and> any_result_ok outs n (wa_result st)"

lemma open_step:
  assumes op: "open_state outs n own F (wy_jobs s) st" and st: "wy_state s = Some st" "wy_owner s = AnySuspended"
    and i: "i < n" "wy_jobs s i \<noteq> YEnd" and n: "n < 2 ^ 64"
  shows "\<exists>pc st'. job_for_when_any outs n i s = Some (s\<lparr>wy_state := Some st', wy_jobs := (wy_jobs s)(i := pc)\<rparr>)
      \<and> pending_answer outs n own ((wy_jobs s)(i := pc)) st'"
proof -
  let ?js = "wy_jobs s"
  have inF: "i \<in> F \<longleftrightarrow> ?js i = YRet None"
    using op i by (auto simp: open_state_def)
  have owner: "wa_owner st = Some own" using op by (simp add: open_state_def)
  note same = same_state[OF st(1)]
  have report: "\<exists>r st'. wa_set_exception i e st = (r, st') \<and> pending_answer outs n own (?js(i := YRet r)) st'"
    if "i \<notin> F" "fails (outs i) = Some e" for e
    using report_failure[OF op i(1) that n] unfolding pending_answer_def by metis
  show ?thesis
  proof (cases "?js i")
    case YStart
    with st i show ?thesis
      by (intro exI[of _ YWait] exI[of _ st])
        (auto simp: job_for_when_any_def expired_def same pending_answer_def inF intro!: exI[of _ F] open_move[OF op])
  next
    case YWait
    with st i show ?thesis
      by (intro exI[of _ YCall] exI[of _ st])
        (auto simp: job_for_when_any_def expired_def same pending_answer_def inF intro!: exI[of _ F] open_move[OF op])
  next
    case YCall
    with inF have F: "i \<notin> F" by simp
    consider (exc) e where "outs i = Inl e" | (val) v where "outs i = Inr (Inl v)" | (ctor) e where "outs i = Inr (Inr e)"
      by (metis sum.exhaust)
    then show ?thesis
    proof cases
      case (exc e)
      then have "fails (outs i) = Some e" by (simp add: fails_def)
      from report[OF F this] obtain r st' where "wa_set_exception i e st = (r, st')"
        "pending_answer outs n own (?js(i := YRet r)) st'" by blast
      with exc YCall st i show ?thesis by (auto simp: job_for_when_any_def)
    next
      case (val v)
      let ?st = "st\<lparr>wa_result := Some (i, expected_of v), wa_owner := None\<rparr>"
      have "wa_set_result i (Inl v) st = (Inl (Some own), ?st)" using owner by (simp add: wa_set_result_def)
      moreover have "answers n (?js(i := YRet (Some own))) = {i}"
        by (rule answers_single[OF i(1)]) (use open_no_answer[OF op] in blast)
      moreover have "any_result_ok outs n (wa_result ?st)" using val i(1) by (auto simp: any_result_ok_def)
      ultimately show ?thesis using val YCall st i
        by (intro exI[of _ "YRet (Some own)"] exI[of _ ?st])
          (auto simp: job_for_when_any_def pending_answer_def settled_def)
    next
      case (ctor e)
      let ?st = "st\<lparr>wa_result := None\<rparr>"
      have "wa_set_result i (Inr e) st = (Inr e, ?st)" using owner by (simp add: wa_set_result_def)
      moreover have "open_state outs n own F (?js(i := YRetry e)) ?st"
        by (rule open_move[OF op F]) (simp_all add: fails_def ctor)
      ultimately show ?thesis using ctor YCall st i
        by (auto simp: job_for_when_any_def pending_answer_def)
    qed
  next
    case (YRetry e)
    with inF have F: "i \<notin> F" by simp
    from op i(1) F YRetry have "fails (outs i) = Some e" by (auto simp: open_state_def)
    from report[OF F this] obtain r st' where "wa_set_exception i e st = (r, st')"
      "pending_answer outs n own (?js(i := YRet r)) st'" by blast
    with YRetry st i show ?thesis by (auto simp: job_for_when_any_def)
  next
    case (YRet r)
    have r: "r = None" using op i YRet by (cases "i \<in> F") (auto simp: open_state_def)
    with inF YRet have "i \<in> F" by simp
    then have "open_state outs n own F (?js(i := YEnd)) st" using op by (auto simp: open_state_def)
    with YRet r st i show ?thesis
      by (intro exI[of _ YEnd] exI[of _ st]) (auto simp: job_for_when_any_def drop_state_def same pending_answer_def)
  next
    case YEnd
    with i show ?thesis by simp
  qed
qed

lemma drop_state_inv:
  assumes "wy_owner s \<noteq> AnyReturned"
  shows "drop_state n s = s"
  using assms by (simp add: drop_state_def)

lemma wy_inv_suspended:
  "wy_owner s = AnySuspended \<Longrightarrow> wy_inv outs n own s \<longleftrightarrow> wy_resumed s = 0 \<and> wy_returned s = None
     \<and> (\<exists>st. wy_state s = Some st \<and> pending_answer outs n own (wy_jobs s) st)"
  by (simp add: wy_inv_def pending_answer_def)

lemma wy_inv_job:
  assumes inv: "wy_inv outs n own s" and i: "i < n" "wy_jobs s i \<noteq> YEnd" and n: "n < 2 ^ 64"
  shows "\<exists>s'. job_for_when_any outs n i s = Some s' \<and> wy_inv outs n own s'"
proof (cases "wy_owner s")
  case AnySuspended
  with inv obtain st where st: "wy_state s = Some st" "pending_answer outs n own (wy_jobs s) st"
    "wy_resumed s = 0" "wy_returned s = None" by (auto simp: wy_inv_suspended)
  show ?thesis
  proof (cases "\<exists>F. open_state outs n own F (wy_jobs s) st")
    case True
    with open_step[OF _ st(1) AnySuspended i n] obtain pc st' where
      "job_for_when_any outs n i s = Some (s\<lparr>wy_state := Some st', wy_jobs := (wy_jobs s)(i := pc)\<rparr>)"
      "pending_answer outs n own ((wy_jobs s)(i := pc)) st'" by blast
    with st AnySuspended show ?thesis by (auto simp: wy_inv_suspended)
  next
    case False
    with st(2) obtain w where w: "answers n (wy_jobs s) = {w}" "settled n (wy_jobs s) st"
      "any_result_ok outs n (wa_result st)" by (auto simp: pending_answer_def)
    show ?thesis
    proof (cases "\<exists>h. wy_jobs s i = YRet (Some h)")
      case True
      then obtain h where h: "wy_jobs s i = YRet (Some h)" by blast
      then have "i \<in> answers n (wy_jobs s)" using i by (auto simp: answers_def)
      with w(1) have "answers n ((wy_jobs s)(i := YEnd)) = {}" by (auto simp: answers_def split: if_splits)
      moreover have "settled n ((wy_jobs s)(i := YEnd)) st" using w(2) by (auto simp: settled_def)
      ultimately show ?thesis
        using h i st w AnySuspended
        by (auto simp: job_for_when_any_def drop_state_inv wy_inv_def)
    next
      case False
      from quiet_step[OF i _ st(1) w(2), of outs] False obtain pc where pc: "job_for_when_any outs n i s =
          Some (if pc = YEnd then drop_state n (s\<lparr>wy_jobs := (wy_jobs s)(i := pc)\<rparr>) else s\<lparr>wy_jobs := (wy_jobs s)(i := pc)\<rparr>)"
        "\<forall>h. pc \<noteq> YRet (Some h)" "settled n ((wy_jobs s)(i := pc)) st" by blast
      have "answers n ((wy_jobs s)(i := pc)) = {w}" using answers_upd_quiet[of "wy_jobs s" i pc n] False pc(2) w(1) by blast
      with pc st w AnySuspended show ?thesis
        by (auto simp: drop_state_inv wy_inv_suspended pending_answer_def)
    qed
  qed
next
  case AnyRunning
  with inv obtain st where st: "wy_state s = Some st" "settled n (wy_jobs s) st" "answers n (wy_jobs s) = {}"
    by (auto simp: wy_inv_def)
  then have q: "wy_jobs s i \<noteq> YRet (Some h)" for h using i by (auto simp: answers_def)
  from quiet_step[OF i q st(1,2), of outs] obtain pc where pc: "job_for_when_any outs n i s =
      Some (if pc = YEnd then drop_state n (s\<lparr>wy_jobs := (wy_jobs s)(i := pc)\<rparr>) else s\<lparr>wy_jobs := (wy_jobs s)(i := pc)\<rparr>)"
    "\<forall>h. pc \<noteq> YRet (Some h)" "settled n ((wy_jobs s)(i := pc)) st" by blast
  have "answers n ((wy_jobs s)(i := pc)) = {}" using answers_upd_quiet[of "wy_jobs s" i pc n] q pc(2) st(3) by blast
  with pc inv st AnyRunning show ?thesis by (auto simp: drop_state_inv wy_inv_def)
next
  case AnyReturned
  with inv have a: "answers n (wy_jobs s) = {}" by (simp add: wy_inv_def)
  then have q: "wy_jobs s i \<noteq> YRet (Some h)" for h using i by (auto simp: answers_def)
  show ?thesis
  proof (cases "wy_state s")
    case None
    with inv AnyReturned have nh: "\<forall>j<n. \<not> holds_state (wy_jobs s j)" by (simp add: wy_inv_def)
    with i have "wy_jobs s i \<in> {YStart, YWait}" by (cases "wy_jobs s i") (auto simp: holds_state_def)
    then have "job_for_when_any outs n i s = Some (s\<lparr>wy_jobs := (wy_jobs s)(i := YEnd)\<rparr>)"
      using None i by (auto simp: job_for_when_any_def expired_def)
    moreover have "answers n ((wy_jobs s)(i := YEnd)) = {}" using answers_upd_quiet[of "wy_jobs s" i YEnd n] q a by simp
    ultimately show ?thesis using inv AnyReturned None nh by (auto simp: wy_inv_def holds_state_def)
  next
    case (Some st)
    with inv AnyReturned have st: "settled n (wy_jobs s) st" by (simp add: wy_inv_def)
    from quiet_step[OF i q Some st, of outs] obtain pc where pc: "job_for_when_any outs n i s =
        Some (if pc = YEnd then drop_state n (s\<lparr>wy_jobs := (wy_jobs s)(i := pc)\<rparr>) else s\<lparr>wy_jobs := (wy_jobs s)(i := pc)\<rparr>)"
      "\<forall>h. pc \<noteq> YRet (Some h)" "settled n ((wy_jobs s)(i := pc)) st" by blast
    have "answers n ((wy_jobs s)(i := pc)) = {}" using answers_upd_quiet[of "wy_jobs s" i pc n] q pc(2) a by blast
    with pc inv Some AnyReturned show ?thesis by (auto simp: drop_state_def wy_inv_def)
  qed
qed

lemma any_result_some: "any_result_ok outs n r \<Longrightarrow> r \<noteq> None"
  by (auto simp: any_result_ok_def)

lemma wy_inv_finish:
  assumes "wy_inv outs n own s" "wy_owner s = AnyRunning"
  shows "\<exists>s'. any_owner_finish n s = Some s' \<and> wy_inv outs n own s'"
proof -
  from assms obtain st where st: "wy_state s = Some st" "settled n (wy_jobs s) st"
    "any_result_ok outs n (wa_result st)" by (auto simp: wy_inv_def)
  from any_result_some[OF st(3)] obtain r where "wa_result st = Some r" by blast
  with assms st show ?thesis by (auto simp: any_owner_finish_def drop_state_def wy_inv_def)
qed

lemma wy_inv_init: "0 < n \<Longrightarrow> wy_inv outs n own (when_any_init n own)"
  by (auto simp: wy_inv_suspended when_any_init_def when_any_state_init_def pending_answer_def open_state_def
      intro!: exI[of _ "{}"])

lemma wy_reach_inv:
  assumes "wy_reach outs n own s" "0 < n" and n: "n < 2 ^ 64"
  shows "wy_inv outs n own s"
  using assms(1)
proof (induction rule: wy_reach.induct)
  case wy_start
  show ?case by (rule wy_inv_init[OF assms(2)])
next
  case (wy_job s i s')
  have "i < n" "wy_jobs s i \<noteq> YEnd"
    using wy_job(2) by (auto simp: job_for_when_any_def split: if_splits)
  from wy_inv_job[OF wy_job(3) this n] wy_job(2) show ?case by auto
next
  case (wy_owner_step s s')
  have "wy_owner s = AnyRunning" using wy_owner_step(2) by (auto simp: any_owner_finish_def split: if_splits)
  from wy_inv_finish[OF wy_owner_step(3) this] wy_owner_step(2) show ?case by auto
qed

section \<open>Properties\<close>

lemma any_resumed_once:
  assumes "wy_reach outs n own s" and "0 < n" and "n < 2 ^ 64"
  shows "(\<forall>i<n. wy_jobs s i \<noteq> YEnd \<longrightarrow> job_for_when_any outs n i s \<noteq> None)
    \<and> (wy_owner s = AnyRunning \<longrightarrow> any_owner_finish n s \<noteq> None)
    \<and> wy_resumed s \<le> 1
    \<and> ((\<forall>i<n. wy_jobs s i = YEnd) \<longrightarrow> wy_resumed s = 1)
    \<and> (wy_owner s = AnyReturned \<longrightarrow> (\<exists>i<n.
          (\<exists>v. outs i = Inr (Inl v) \<and> wy_returned s = Some (i, expected_of v))
        \<or> (\<exists>e. fails (outs i) = Some e \<and> wy_returned s = Some (i, expected_of_unexpected (Unexpected e))
             \<and> (\<forall>j<n. fails (outs j) \<noteq> None))))"
proof -
  have inv: "wy_inv outs n own s" by (rule wy_reach_inv[OF assms])
  have "wy_resumed s \<le> 1 \<and> (wy_resumed s = 1 \<longleftrightarrow> wy_owner s \<noteq> AnySuspended)"
    using inv by (cases "wy_owner s") (simp_all add: wy_inv_def)
  moreover have "\<exists>i<n. wy_jobs s i \<noteq> YEnd" if sus: "wy_owner s = AnySuspended"
  proof (rule ccontr)
    assume "\<not> ?thesis"
    then have e: "\<forall>i<n. wy_jobs s i = YEnd" by blast
    then have "answers n (wy_jobs s) = {}" by (auto simp: answers_def)
    with inv sus obtain st F where F: "open_state outs n own F (wy_jobs s) st"
      by (auto simp: wy_inv_suspended pending_answer_def)
    then have "i \<in> F" if "i < n" for i using e that by (auto simp: open_state_def)
    then have "card {..<n} \<le> card F" using F by (intro card_mono) (auto simp: open_state_def intro: finite_subset)
    with F show False by (simp add: open_state_def)
  qed
  moreover have "any_result_ok outs n (wy_returned s)" if "wy_owner s = AnyReturned"
    using inv that by (simp add: wy_inv_def)
  ultimately show ?thesis
    using wy_inv_job[OF inv _ _ assms(3)] wy_inv_finish[OF inv] unfolding any_result_ok_def
    by (metis option.distinct(1))
qed

text \<open>
  C16. \<open>when_any\<close> resumes its owner exactly once and gives it the right result. In every interleaving:
  every next step of a job and of the owner is defined (the shared state is alive whenever it is
  used, the owner is suspended when it is resumed, and a result is there when it reads it); the
  owner is resumed at most once, and it has been when all jobs have ended, so it is never forgotten;
  and what it returns is the value of a task that succeeded, or, only if every task failed, the
  exception of one of them, with the index of that task.
\<close>

theorem when_any_resumes_once:
  assumes "wy_reach outs n own s" and "0 < n" and "n < 2 ^ 64"
  shows "(\<forall>i<n. wy_jobs s i \<noteq> YEnd \<longrightarrow> job_for_when_any outs n i s \<noteq> None)
    \<and> (wy_owner s = AnyRunning \<longrightarrow> any_owner_finish n s \<noteq> None)
    \<and> wy_resumed s \<le> 1
    \<and> ((\<forall>i<n. wy_jobs s i = YEnd) \<longrightarrow> wy_resumed s = 1)
    \<and> (wy_owner s = AnyReturned \<longrightarrow> (\<exists>i<n.
          (\<exists>v. outs i = Inr (Inl v) \<and> wy_returned s = Some (i, expected_of v))
        \<or> (\<exists>e. fails (outs i) = Some e \<and> wy_returned s = Some (i, expected_of_unexpected (Unexpected e))
             \<and> (\<forall>j<n. fails (outs j) \<noteq> None))))"
  by (rule any_resumed_once[OF assms])

section \<open>A concrete run\<close>

datatype wy_action = WyJob nat | WyOwner

definition wy_exec1 :: "(nat \<Rightarrow> ('v, 'e) task_end) \<Rightarrow> nat \<Rightarrow> wy_action \<Rightarrow> ('v, 'e) wy_sys \<Rightarrow> ('v, 'e) wy_sys option" where
  "wy_exec1 outs n a s = (case a of WyJob i \<Rightarrow> job_for_when_any outs n i s | WyOwner \<Rightarrow> any_owner_finish n s)"

lemma wy_exec_reach:
  "wy_reach outs n own s \<Longrightarrow> foldM_opt (wy_exec1 outs n) as s = Some s' \<Longrightarrow> wy_reach outs n own s'"
proof (induction as arbitrary: s)
  case Nil
  then show ?case by simp
next
  case (Cons a as)
  from Cons.prems(2) obtain s1 where s1: "wy_exec1 outs n a s = Some s1" "foldM_opt (wy_exec1 outs n) as s1 = Some s'"
    by (auto split: bind_splits)
  from s1(1) Cons.prems(1) have "wy_reach outs n own s1"
    by (cases a) (auto simp: wy_exec1_def intro: wy_job wy_owner_step)
  from Cons.IH[OF this s1(2)] show ?case .
qed

text \<open>
  Two tasks: the first one fails; the second one returns a value whose move constructor throws while
  the first job still holds the state.
\<close>

definition any_outs :: "nat \<Rightarrow> (nat, nat) task_end" where
  "any_outs i = (if i = 0 then Inl 5 else Inr (Inr 6))"

definition any_run :: "wy_action list" where
  "any_run = [WyJob 0, WyJob 1, WyJob 0, WyJob 1, WyJob 1, WyJob 0, WyJob 1, WyJob 1, WyOwner, WyJob 0]"

lemma any_run_ok:
  "map_option (\<lambda>s. (wy_owner s, wy_returned s, wy_jobs s 0, wy_jobs s 1, wy_state s))
     (foldM_opt (wy_exec1 any_outs 2) any_run (when_any_init 2 9)) =
   Some (AnyReturned, Some (1, expected_of_unexpected (Unexpected 6)), YEnd, YEnd, None)"
  by (simp add: any_run_def wy_exec1_def job_for_when_any_def any_owner_finish_def when_any_init_def
      when_any_state_init_def expired_def any_outs_def wa_set_exception_def wa_set_result_def Let_def
      drop_state_def holds_state_def numeral_2_eq_2 less_Suc_eq all_conj_distrib)

lemma when_any_resumes_once_witness:
  "\<exists>s. wy_reach any_outs 2 9 s \<and> wy_resumed s = 1 \<and> (\<exists>i<2. \<exists>e.
      fails (any_outs i) = Some e \<and> wy_returned s = Some (i, expected_of_unexpected (Unexpected e)))"
proof -
  from any_run_ok obtain s where s: "foldM_opt (wy_exec1 any_outs 2) any_run (when_any_init 2 9) = Some s"
    "wy_owner s = AnyReturned" "wy_jobs s 0 = YEnd" "wy_jobs s 1 = YEnd" by auto
  from wy_exec_reach[OF wy_start s(1)] have r: "wy_reach any_outs 2 9 s" .
  have end1: "\<forall>i<2. wy_jobs s i = YEnd" using s(3,4) by (simp add: numeral_2_eq_2 less_Suc_eq)
  have nv: "any_outs i \<noteq> Inr (Inl v)" for i v by (simp add: any_outs_def)
  from when_any_resumes_once[OF r] s(2) end1 nv have "wy_resumed s = 1" "\<exists>i<2. \<exists>e.
      fails (any_outs i) = Some e \<and> wy_returned s = Some (i, expected_of_unexpected (Unexpected e))"
    by (simp, simp, blast)
  with r show ?thesis by blast
qed

end
