(* ===== verification/Fixed_Array.thy ===== *)
theory Fixed_Array
  imports Prelude
begin

text \<open>
  \<open>noexport/fixed_array.hpp\<close>: the array of queues and threads of the pool, of a size fixed at
  construction. The memory keeps the allocated blocks with the resource, size and alignment they were
  taken with, and the elements that are alive. Destroying an element that is not alive and returning
  a block with other arguments are undefined behaviour, \<open>None\<close>. The element type has size \<open>esz\<close> and
  alignment \<open>eal\<close>; its default constructor may throw.
\<close>

record array_memory =
  am_blocks :: "addr \<Rightarrow> (nat \<times> nat \<times> nat) option"
  am_alive :: "addr set"

definition resource_allocate :: "nat \<Rightarrow> addr \<Rightarrow> nat \<Rightarrow> nat \<Rightarrow> array_memory \<Rightarrow> array_memory" where
  "resource_allocate r a bytes al m = m\<lparr>am_blocks := (am_blocks m)(a \<mapsto> (r, bytes, al))\<rparr>"

definition resource_deallocate :: "nat \<Rightarrow> addr \<Rightarrow> nat \<Rightarrow> nat \<Rightarrow> array_memory \<Rightarrow> array_memory option" where
  "resource_deallocate r a bytes al m =
     (if am_blocks m a = Some (r, bytes, al) then Some (m\<lparr>am_blocks := (am_blocks m)(a := None)\<rparr>) else None)"

record fixed_array =
  fa_arr :: "addr option"
  fa_n :: nat
  fa_resource :: nat

definition new_delete_resource :: nat where
  "new_delete_resource = 0"

definition fixed_array_default :: fixed_array where
  "fixed_array_default = \<lparr>fa_arr = None, fa_n = 0, fa_resource = new_delete_resource\<rparr>"

text \<open>Move assignment swaps; the result is the pair of this array and the other one.\<close>

definition fixed_array_move_assign :: "fixed_array \<Rightarrow> fixed_array \<Rightarrow> fixed_array \<times> fixed_array" where
  "fixed_array_move_assign this rhs = (rhs, this)"

definition fixed_array_move :: "fixed_array \<Rightarrow> fixed_array \<times> fixed_array" where
  "fixed_array_move rhs = fixed_array_move_assign fixed_array_default rhs"

text \<open>
  \<open>std::uninitialized_default_construct_n\<close> and \<open>std::destroy_n\<close> of the standard library. \<open>throws i\<close>
  says whether the constructor of the element number \<open>i\<close> throws; the elements made so far are
  destroyed then (\<open>False\<close> in the result).
\<close>

definition elem :: "nat \<Rightarrow> addr \<Rightarrow> nat \<Rightarrow> addr" where
  "elem esz a i = a + esz * i"

definition destroy_n :: "nat \<Rightarrow> addr \<Rightarrow> nat \<Rightarrow> array_memory \<Rightarrow> array_memory option" where
  "destroy_n esz a n m = foldM_opt (\<lambda>i m. if elem esz a i \<in> am_alive m
       then Some (m\<lparr>am_alive := am_alive m - {elem esz a i}\<rparr>) else None) [0..<n] m"

definition default_construct_n ::
  "(nat \<Rightarrow> bool) \<Rightarrow> nat \<Rightarrow> addr \<Rightarrow> nat \<Rightarrow> array_memory \<Rightarrow> bool \<times> array_memory" where
  "default_construct_n throws esz a n m =
     (if \<exists>i\<in>set [0..<n]. throws i then (False, m)
      else (True, m\<lparr>am_alive := am_alive m \<union> set (map (elem esz a) [0..<n])\<rparr>))"

text \<open>
  The constructor. \<open>a\<close> is what \<open>allocate\<close> returns. If it is left by an exception there is no array
  (\<open>None\<close>) and the destructor will not run.
\<close>

definition fixed_array_ctor ::
  "(nat \<Rightarrow> bool) \<Rightarrow> nat \<Rightarrow> nat \<Rightarrow> nat \<Rightarrow> nat \<Rightarrow> addr \<Rightarrow> array_memory \<Rightarrow> fixed_array option \<times> array_memory" where
  "fixed_array_ctor throws esz eal n r a m =
     (if n = 0 then (Some \<lparr>fa_arr = None, fa_n = n, fa_resource = r\<rparr>, m)
      else (let m1 = resource_allocate r a (esz * n) eal m; (ok, m2) = default_construct_n throws esz a n m1
            in (if ok then Some \<lparr>fa_arr = Some a, fa_n = n, fa_resource = r\<rparr> else None, m2)))"

definition get_resource :: "fixed_array \<Rightarrow> nat" where
  "get_resource x = fa_resource x"

definition fa_data :: "fixed_array \<Rightarrow> addr option" where
  "fa_data x = fa_arr x"

definition fa_size :: "fixed_array \<Rightarrow> nat" where
  "fa_size x = fa_n x"

text \<open>The range of the iterators: \<open>begin\<close> and \<open>end\<close>, with the null pointer at address 0.\<close>

definition fa_begin :: "fixed_array \<Rightarrow> addr" where
  "fa_begin x = (case fa_arr x of None \<Rightarrow> 0 | Some a \<Rightarrow> a)"

definition fa_end :: "nat \<Rightarrow> fixed_array \<Rightarrow> addr" where
  "fa_end esz x = elem esz (fa_begin x) (fa_n x)"

definition fa_at :: "nat \<Rightarrow> fixed_array \<Rightarrow> nat \<Rightarrow> addr option" where
  "fa_at esz x i = (case fa_arr x of None \<Rightarrow> None | Some a \<Rightarrow> if i < fa_n x then Some (elem esz a i) else None)"

definition fixed_array_dtor :: "nat \<Rightarrow> nat \<Rightarrow> fixed_array \<Rightarrow> array_memory \<Rightarrow> array_memory option" where
  "fixed_array_dtor esz eal x m = (case fa_arr x of
      None \<Rightarrow> Some m
    | Some a \<Rightarrow> do {
        m1 \<leftarrow> destroy_n esz a (fa_n x) m;
        resource_deallocate (fa_resource x) a (esz * fa_n x) eal m1 })"

lemma elem_inj: "0 < esz \<Longrightarrow> elem esz a i = elem esz a j \<longleftrightarrow> i = j"
  by (simp add: elem_def)

lemma destroy_n_ok:
  assumes "0 < esz" "set (map (elem esz a) [0..<n]) \<subseteq> am_alive m"
  shows "destroy_n esz a n m = Some (m\<lparr>am_alive := am_alive m - set (map (elem esz a) [0..<n])\<rparr>)"
  using assms(2)
proof (induction n)
  case 0
  then show ?case by (simp add: destroy_n_def)
next
  case (Suc n)
  then have IH: "destroy_n esz a n m = Some (m\<lparr>am_alive := am_alive m - set (map (elem esz a) [0..<n])\<rparr>)"
    and al: "elem esz a n \<in> am_alive m" by auto
  have "elem esz a n \<notin> set (map (elem esz a) [0..<n])" using assms(1) by (auto simp: elem_inj)
  moreover have "A - set (map (elem esz a) [0..<Suc n]) = A - set (map (elem esz a) [0..<n]) - {elem esz a n}" for A
    by auto
  ultimately show ?case using IH al by (simp add: destroy_n_def foldM_opt_append)
qed

text \<open>
  Life cycle and error path of \<open>fixed_array\<close>. If no element constructor throws, the array has
  \<open>n\<close> live elements at distinct addresses inside its block, every index below \<open>n\<close> is readable and no
  other, the end iterator is \<open>n\<close> elements behind the first, and the destructor (also after the array
  was moved to another one) destroys each of them once and returns the block with the arguments it
  was taken with, so the memory is as before. If one throws, no element stays alive but the block is
  not returned: nothing owns it any more and it leaks.
\<close>

theorem fixed_array_life_cycle:
  assumes "0 < esz" and "0 < n" and "am_blocks m a = None"
    and "\<And>i. i < n \<Longrightarrow> elem esz a i \<notin> am_alive m"
  shows "case fixed_array_ctor throws esz eal n r a m of
      (Some x, m') \<Rightarrow> (\<forall>i. fa_at esz x i = (if i < n then Some (a + esz * i) else None))
        \<and> fa_end esz x = fa_begin x + esz * n
        \<and> am_alive m' = am_alive m \<union> (\<lambda>i. a + esz * i) ` {..<n}
        \<and> fixed_array_dtor esz eal (fst (fixed_array_move x)) m' = Some m
        \<and> fixed_array_dtor esz eal (snd (fixed_array_move x)) m' = Some m'
    | (None, m') \<Rightarrow> (\<exists>i<n. throws i) \<and> am_alive m' = am_alive m \<and> am_blocks m' a = Some (r, esz * n, eal)"
proof (cases "\<exists>i<n. throws i")
  case True
  then show ?thesis using assms(2)
    by (auto simp: fixed_array_ctor_def default_construct_n_def resource_allocate_def Let_def)
next
  case False
  let ?els = "set (map (elem esz a) [0..<n])"
  let ?m = "m\<lparr>am_blocks := (am_blocks m)(a \<mapsto> (r, esz * n, eal)), am_alive := am_alive m \<union> ?els\<rparr>"
  let ?x = "\<lparr>fa_arr = Some a, fa_n = n, fa_resource = r\<rparr>"
  have c: "fixed_array_ctor throws esz eal n r a m = (Some ?x, ?m)"
    using False assms(2) by (auto simp: fixed_array_ctor_def default_construct_n_def resource_allocate_def Let_def)
  have e: "elem esz a = (\<lambda>i. a + esz * i)" by (simp add: elem_def fun_eq_iff)
  have alive: "am_alive m \<union> ?els - ?els = am_alive m" using assms(4) by auto
  have "destroy_n esz a n ?m = Some (?m\<lparr>am_alive := am_alive m\<rparr>)"
    using destroy_n_ok[OF assms(1), of a n ?m] alive by simp
  moreover have "(am_blocks m)(a := None) = am_blocks m" using assms(3) by auto
  ultimately have "fixed_array_dtor esz eal ?x ?m = Some m"
    by (simp add: fixed_array_dtor_def resource_deallocate_def)
  moreover have "?els = (\<lambda>i. a + esz * i) ` {..<n}" unfolding e by (simp add: atLeast0LessThan)
  ultimately show ?thesis
    unfolding c by (simp add: fa_at_def fa_end_def fa_begin_def fixed_array_move_def
        fixed_array_move_assign_def fixed_array_default_def fixed_array_dtor_def elem_def)
qed

lemma fixed_array_life_cycle_witness:
  "snd (fixed_array_ctor (\<lambda>i. i = 1) 8 8 2 0 64 \<lparr>am_blocks = Map.empty, am_alive = {}\<rparr>) =
     \<lparr>am_blocks = [64 \<mapsto> (0, 16, 8)], am_alive = {}\<rparr>
   \<and> am_blocks (snd (fixed_array_ctor (\<lambda>i. i = 1) 8 8 2 0 64 \<lparr>am_blocks = Map.empty, am_alive = {}\<rparr>)) 64 = Some (0, 16, 8)"
  using fixed_array_life_cycle[of 8 2 "\<lparr>am_blocks = Map.empty, am_alive = {}\<rparr>" 64 "\<lambda>i. i = 1" 8 0]
  by (simp add: fixed_array_ctor_def default_construct_n_def resource_allocate_def)

end
