(* ===== verification/Monitoring.thy ===== *)
theory Monitoring
  imports Prelude "HOL-Library.Word"
begin

text \<open>
  \<open>noexport/thread_pool_monitoring.hpp\<close>: the counters of the monitored pool, of type \<open>size_t\<close>, that are
  incremented by the threads and only grow, and the statistics that \<open>print\<close> computes from them. Every
  counter is loaded on its own, so increments of other threads may come between two loads.
\<close>

record monitoring_t =
  mo_pushed :: "64 word"
  mo_finished :: "64 word"
  mo_cancelled :: "64 word"
  mo_strands_count :: "64 word"
  mo_pop_count :: "64 word"

definition monitoring_init :: monitoring_t where
  "monitoring_init = \<lparr>mo_pushed = 0, mo_finished = 0, mo_cancelled = 0, mo_strands_count = 0, mo_pop_count = 0\<rparr>"

definition monitoring_copy :: "monitoring_t \<Rightarrow> monitoring_t" where
  "monitoring_copy other = \<lparr>mo_pushed = mo_pushed other, mo_finished = mo_finished other,
     mo_cancelled = mo_cancelled other, mo_strands_count = mo_strands_count other, mo_pop_count = mo_pop_count other\<rparr>"

text \<open>Division of \<open>size_t\<close> values; \<open>None\<close> for a division by zero.\<close>

definition size_div :: "64 word \<Rightarrow> 64 word \<Rightarrow> 64 word option" where
  "size_div x y = (if y = 0 then None else Some (x div y))"

definition average_tasks_popped :: "64 word \<Rightarrow> 64 word \<Rightarrow> 64 word option" where
  "average_tasks_popped pop_count finished = (if pop_count = 0 then Some 0 else size_div finished pop_count)"

definition pending_count :: "64 word \<Rightarrow> 64 word \<Rightarrow> 64 word" where
  "pending_count pushed finished = pushed - finished"

text \<open>
  The pending tasks that \<open>print\<close> shows. It loads \<open>pushed\<close> first, in the state \<open>s1\<close>, and \<open>finished\<close>
  later, in \<open>s2\<close>.
\<close>

definition printed_pending :: "monitoring_t \<Rightarrow> monitoring_t \<Rightarrow> 64 word" where
  "printed_pending s1 s2 = (let p = mo_pushed s1; f = mo_finished s2 in pending_count p f)"

text \<open>\<open>KELCORO_MONITORING_INC\<close> on the two counters, by any thread.\<close>

datatype mo_event = IncPushed | IncFinished

definition mo_step :: "mo_event \<Rightarrow> monitoring_t \<Rightarrow> monitoring_t" where
  "mo_step e s = (case e of IncPushed \<Rightarrow> s\<lparr>mo_pushed := mo_pushed s + 1\<rparr> | IncFinished \<Rightarrow> s\<lparr>mo_finished := mo_finished s + 1\<rparr>)"

lemma average_total: "average_tasks_popped p f \<noteq> None"
  by (simp add: average_tasks_popped_def size_div_def)

text \<open>
  Loads in one state, or \<open>finished\<close> before \<open>pushed\<close>, never make the number of pending tasks
  negative, but in the order of \<open>print\<close> one task that is pushed and finished between the two loads
  suffices for it to wrap to the largest value of \<open>size_t\<close>.
\<close>

theorem printed_pending_wraps:
  "printed_pending monitoring_init (fold mo_step [IncPushed, IncFinished] monitoring_init) = 2 ^ 64 - 1
   \<and> (unat (mo_finished s1) \<le> unat (mo_pushed s2) \<longleftrightarrow>
        unat (pending_count (mo_pushed s2) (mo_finished s1)) + unat (mo_finished s1) = unat (mo_pushed s2))"
proof
  show "printed_pending monitoring_init (fold mo_step [IncPushed, IncFinished] monitoring_init) = 2 ^ 64 - 1"
    by (simp add: printed_pending_def monitoring_init_def mo_step_def pending_count_def)
  show "unat (mo_finished s1) \<le> unat (mo_pushed s2) \<longleftrightarrow>
        unat (pending_count (mo_pushed s2) (mo_finished s1)) + unat (mo_finished s1) = unat (mo_pushed s2)"
    by (auto simp: pending_count_def unat_sub_if_size)
qed

end
