(* ===== verification/Generator.thy ===== *)
theory Generator
  imports Prelude
begin

text \<open>
  \<open>generator.hpp\<close> with \<open>attach_leaf\<close> of \<open>noexport/generators_common.hpp\<close>: synchronous recursive generators.
  A generator that yields all elements of another one (\<open>co_yield elements_of(g)\<close>) attaches it as a
  leaf; the consumer always resumes the innermost coroutine through \<open>current_worker\<close> of the top, and
  the pointers to the root are brought up to date lazily, when a leaf is skipped.

  A coroutine frame is given by its promise, the actions that its body still has to do and whether it
  is at its final suspension. The leaf generator that lives in the frame during a \<open>co_yield
  elements_of\<close> is an object of the store like the generators of the users. A dead frame or object
  is \<open>None\<close>; every use of one, reading the inactive member of the union, and every violated
  \<open>KELCORO_ASSUME\<close> are undefined behaviour, \<open>None\<close> for the operation.
\<close>

section \<open>Promises, generators, bodies\<close>

datatype objref = Obj addr | LeafOf handle

text \<open>The union of \<open>_consumer\<close> (set in roots) and \<open>_owner\<close> (set in leafs).\<close>

datatype link = ConsumerOf objref | OwnerOf handle

text \<open>
  What a body does at its next step: yield a value, throw, or yield the elements of a generator
  object, which is moved from. The end of the list is \<open>co_return\<close>.
\<close>

datatype ('y, 'e) action = Yield 'y | Throw 'e | ElementsOf addr

record ('y, 'e) generator_promise =
  gp_root :: handle
  gp_worker :: handle
  gp_link :: link
  gp_body :: "('y, 'e) action list"
  gp_done :: bool

text \<open>\<open>current_result\<close> points to what was yielded; \<open>None\<close> is \<open>nullptr\<close>.\<close>

record 'y generator =
  gn_result :: "'y option"
  gn_top :: "handle option"

record ('y, 'e) gen_store =
  gs_fr :: "handle \<Rightarrow> ('y, 'e) generator_promise option"
  gs_ob :: "objref \<Rightarrow> 'y generator option"

definition generator_default :: "'y generator" where
  "generator_default = \<lparr>gn_result = None, gn_top = None\<rparr>"

text \<open>A new promise is its own root and its own worker; \<open>get_return_object\<close> sets the consumer.\<close>

definition generator_promise_init :: "handle \<Rightarrow> objref \<Rightarrow> ('y, 'e) action list \<Rightarrow> ('y, 'e) generator_promise" where
  "generator_promise_init h c b = \<lparr>gp_root = h, gp_worker = h, gp_link = ConsumerOf c, gp_body = b, gp_done = False\<rparr>"

definition upd_frame ::
  "handle \<Rightarrow> (('y, 'e) generator_promise \<Rightarrow> ('y, 'e) generator_promise) \<Rightarrow> ('y, 'e) gen_store \<Rightarrow> ('y, 'e) gen_store option" where
  "upd_frame h f s = do { p \<leftarrow> gs_fr s h; Some (s\<lparr>gs_fr := (gs_fr s)(h \<mapsto> f p)\<rparr>) }"

definition upd_obj ::
  "objref \<Rightarrow> ('y generator \<Rightarrow> 'y generator) \<Rightarrow> ('y, 'e) gen_store \<Rightarrow> ('y, 'e) gen_store option" where
  "upd_obj c f s = do { g \<leftarrow> gs_ob s c; Some (s\<lparr>gs_ob := (gs_ob s)(c \<mapsto> f g)\<rparr>) }"

text \<open>\<open>generator_promise::set_result\<close>\<close>

definition set_result :: "handle \<Rightarrow> 'y option \<Rightarrow> ('y, 'e) gen_store \<Rightarrow> ('y, 'e) gen_store option" where
  "set_result h r s = do {
     p \<leftarrow> gs_fr s h;
     rp \<leftarrow> gs_fr s (gp_root p);
     case gp_link rp of
       ConsumerOf c \<Rightarrow> upd_obj c (\<lambda>g. g\<lparr>gn_result := r\<rparr>) s
     | OwnerOf _ \<Rightarrow> None }"

text \<open>\<open>generator_promise::skip_this_leaf\<close>; also gives the owner.\<close>

definition skip_this_leaf :: "handle \<Rightarrow> ('y, 'e) gen_store \<Rightarrow> (handle \<times> ('y, 'e) gen_store) option" where
  "skip_this_leaf h s = do {
     p \<leftarrow> gs_fr s h;
     if gp_root p = h then None
     else (case gp_link p of
         ConsumerOf _ \<Rightarrow> None
       | OwnerOf w \<Rightarrow>
           if w = h then None
           else do {
             s1 \<leftarrow> upd_frame w (\<lambda>q. q\<lparr>gp_root := gp_root p\<rparr>) s;
             s2 \<leftarrow> upd_frame (gp_root p) (\<lambda>q. q\<lparr>gp_worker := w\<rparr>) s1;
             Some (w, s2) }) }"

text \<open>\<open>generator::empty\<close>, \<open>prepare_to_start\<close>, \<open>swap\<close> and the move constructor\<close>

definition gen_empty :: "objref \<Rightarrow> ('y, 'e) gen_store \<Rightarrow> bool option" where
  "gen_empty c s = do {
     g \<leftarrow> gs_ob s c;
     case gn_top g of None \<Rightarrow> Some True | Some t \<Rightarrow> do { p \<leftarrow> gs_fr s t; Some (gp_done p) } }"

definition prepare_to_start :: "objref \<Rightarrow> ('y, 'e) gen_store \<Rightarrow> ('y, 'e) gen_store option" where
  "prepare_to_start c s = do {
     g \<leftarrow> gs_ob s c;
     t \<leftarrow> gn_top g;
     upd_frame t (\<lambda>p. p\<lparr>gp_link := ConsumerOf c\<rparr>) s }"

definition prepare_if_top :: "objref \<Rightarrow> ('y, 'e) gen_store \<Rightarrow> ('y, 'e) gen_store option" where
  "prepare_if_top c s = do { g \<leftarrow> gs_ob s c; if gn_top g \<noteq> None then prepare_to_start c s else Some s }"

definition gen_swap :: "objref \<Rightarrow> objref \<Rightarrow> ('y, 'e) gen_store \<Rightarrow> ('y, 'e) gen_store option" where
  "gen_swap c d s = do {
     g \<leftarrow> gs_ob s c;
     k \<leftarrow> gs_ob s d;
     s2 \<leftarrow> prepare_if_top c (s\<lparr>gs_ob := (gs_ob s)(c \<mapsto> k, d \<mapsto> g)\<rparr>);
     prepare_if_top d s2 }"

definition gen_move_construct :: "objref \<Rightarrow> objref \<Rightarrow> ('y, 'e) gen_store \<Rightarrow> ('y, 'e) gen_store option" where
  "gen_move_construct c other s = gen_swap c other (s\<lparr>gs_ob := (gs_ob s)(c \<mapsto> generator_default)\<rparr>)"

text \<open>
  Calling a generator function: a frame \<open>h\<close>, suspended at its start, and the object \<open>c\<close> that
  \<open>get_return_object\<close> makes for it.
\<close>

definition gen_create :: "handle \<Rightarrow> objref \<Rightarrow> ('y, 'e) action list \<Rightarrow> ('y, 'e) gen_store \<Rightarrow> ('y, 'e) gen_store option" where
  "gen_create h c b s = prepare_to_start c (s\<lparr>gs_fr := (gs_fr s)(h \<mapsto> generator_promise_init h c b),
     gs_ob := (gs_ob s)(c \<mapsto> generator_default\<lparr>gn_top := Some h\<rparr>)\<rparr>)"

text \<open>
  Destroying a frame destroys the leaf generator that lives in it, whose destructor (\<open>clear\<close>)
  destroys its top. Nothing else is done by the locals of a body here, so no new generator gets into
  an object while it is cleared (\<open>Clear_Loop\<close> has such locals and the loop they need).
\<close>

partial_function (option) destroy_frame :: "handle \<Rightarrow> ('y, 'e) gen_store \<Rightarrow> ('y, 'e) gen_store option" where
  "destroy_frame h s = do {
     _ \<leftarrow> gs_fr s h;
     s1 \<leftarrow> (case gs_ob s (LeafOf h) of
         None \<Rightarrow> Some s
       | Some g \<Rightarrow> (case gn_top g of
           None \<Rightarrow> Some s
         | Some t \<Rightarrow> destroy_frame t (s\<lparr>gs_ob := (gs_ob s)(LeafOf h \<mapsto> g\<lparr>gn_top := None\<rparr>)\<rparr>)));
     Some (s1\<lparr>gs_ob := (gs_ob s1)(LeafOf h := None), gs_fr := (gs_fr s1)(h := None)\<rparr>) }"

definition gen_clear :: "objref \<Rightarrow> ('y, 'e) gen_store \<Rightarrow> ('y, 'e) gen_store option" where
  "gen_clear c s = do {
     g \<leftarrow> gs_ob s c;
     case gn_top g of
       None \<Rightarrow> Some s
     | Some t \<Rightarrow> destroy_frame t (s\<lparr>gs_ob := (gs_ob s)(c \<mapsto> g\<lparr>gn_top := None\<rparr>)\<rparr>) }"

definition gen_release :: "objref \<Rightarrow> ('y, 'e) gen_store \<Rightarrow> (handle option \<times> ('y, 'e) gen_store) option" where
  "gen_release c s = do { g \<leftarrow> gs_ob s c; s' \<leftarrow> upd_obj c (\<lambda>g. g\<lparr>gn_top := None\<rparr>) s; Some (gn_top g, s') }"

definition gen_reset :: "objref \<Rightarrow> handle option \<Rightarrow> ('y, 'e) gen_store \<Rightarrow> ('y, 'e) gen_store option" where
  "gen_reset c h s = do { s1 \<leftarrow> gen_clear c s; upd_obj c (\<lambda>g. g\<lparr>gn_top := h\<rparr>) s1 }"

definition gen_dtor :: "objref \<Rightarrow> ('y, 'e) gen_store \<Rightarrow> ('y, 'e) gen_store option" where
  "gen_dtor c s = do { s1 \<leftarrow> gen_clear c s; Some (s1\<lparr>gs_ob := (gs_ob s1)(c := None)\<rparr>) }"

section \<open>Running\<close>

text \<open>
  One turn of the coroutine \<open>h\<close> that has control: control stays in coroutines (\<open>Again\<close>, with the one
  that runs next), returns to the caller of \<open>resume\<close>, or leaves it by an exception.
\<close>

datatype 'e turn = Again handle | Back | Exc 'e

text \<open>\<open>attach_leaf::await_suspend\<close>, for the leaf object in the frame of \<open>owner\<close>\<close>

definition attach_leaf_suspend :: "handle \<Rightarrow> ('y, 'e) gen_store \<Rightarrow> (handle \<times> ('y, 'e) gen_store) option" where
  "attach_leaf_suspend owner s = do {
     leaf \<leftarrow> gs_ob s (LeafOf owner);
     t \<leftarrow> gn_top leaf;
     if owner = t then None
     else do {
       leaf_p \<leftarrow> gs_fr s t;
       owner_p \<leftarrow> gs_fr s owner;
       s1 \<leftarrow> upd_frame (gp_worker leaf_p) (\<lambda>p. p\<lparr>gp_root := gp_root owner_p\<rparr>) s;
       s2 \<leftarrow> upd_frame t (\<lambda>p. p\<lparr>gp_link := OwnerOf owner\<rparr>) s1;
       s3 \<leftarrow> upd_frame (gp_root owner_p) (\<lambda>p. p\<lparr>gp_worker := gp_worker leaf_p\<rparr>) s2;
       Some (gp_worker leaf_p, s3) } }"

text \<open>The final awaiter, and \<open>unhandled_exception\<close>\<close>

definition final_suspend :: "handle \<Rightarrow> ('y, 'e) gen_store \<Rightarrow> ('e turn \<times> ('y, 'e) gen_store) option" where
  "final_suspend h s = do {
     p \<leftarrow> gs_fr s h;
     if gp_root p \<noteq> h
     then do { (w, s1) \<leftarrow> skip_this_leaf h s; Some (Again w, s1) }
     else do { s1 \<leftarrow> set_result h None s; Some (Back, s1) } }"

definition unhandled_exception :: "'e \<Rightarrow> handle \<Rightarrow> ('y, 'e) gen_store \<Rightarrow> ('e turn \<times> ('y, 'e) gen_store) option" where
  "unhandled_exception e h s = do {
     p \<leftarrow> gs_fr s h;
     s1 \<leftarrow> (if gp_root p \<noteq> h then map_option snd (skip_this_leaf h s) else Some s);
     s2 \<leftarrow> set_result h None s1;
     Some (Exc e, s2) }"

text \<open>
  A resumed coroutine first ends its \<open>co_yield elements_of\<close> expression, if it was in one: the leaf
  object is destroyed.
\<close>

definition end_attach :: "handle \<Rightarrow> ('y, 'e) gen_store \<Rightarrow> ('y, 'e) gen_store option" where
  "end_attach h s = (if gs_ob s (LeafOf h) = None then Some s else gen_dtor (LeafOf h) s)"

definition body_turn :: "handle \<Rightarrow> ('y, 'e) gen_store \<Rightarrow> ('e turn \<times> ('y, 'e) gen_store) option" where
  "body_turn h s = do {
     p \<leftarrow> gs_fr s h;
     if gp_done p then None
     else (case gp_body p of
       [] \<Rightarrow> do { s1 \<leftarrow> upd_frame h (\<lambda>p. p\<lparr>gp_done := True\<rparr>) s; final_suspend h s1 }
     | Yield y # r \<Rightarrow> do {
         s1 \<leftarrow> upd_frame h (\<lambda>p. p\<lparr>gp_body := r\<rparr>) s;
         s2 \<leftarrow> set_result h (Some y) s1;
         Some (Back, s2) }
     | Throw e # r \<Rightarrow> do { s1 \<leftarrow> upd_frame h (\<lambda>p. p\<lparr>gp_done := True\<rparr>) s; unhandled_exception e h s1 }
     | ElementsOf g # r \<Rightarrow> do {
         s1 \<leftarrow> upd_frame h (\<lambda>p. p\<lparr>gp_body := r\<rparr>) s;
         s2 \<leftarrow> gen_move_construct (LeafOf h) (Obj g) s1;
         ready \<leftarrow> gen_empty (LeafOf h) s2;
         if ready then Some (Again h, s2)
         else do { (w, s3) \<leftarrow> attach_leaf_suspend h s2; Some (Again w, s3) } }) }"

definition gen_turn :: "handle \<Rightarrow> ('y, 'e) gen_store \<Rightarrow> ('e turn \<times> ('y, 'e) gen_store) option" where
  "gen_turn h s = do { s1 \<leftarrow> end_attach h s; body_turn h s1 }"

partial_function (option) gen_resume :: "handle \<Rightarrow> ('y, 'e) gen_store \<Rightarrow> ('e turn \<times> ('y, 'e) gen_store) option" where
  "gen_resume h s = do {
     (t, s1) \<leftarrow> gen_turn h s;
     case t of Again w \<Rightarrow> gen_resume w s1 | _ \<Rightarrow> Some (t, s1) }"

text \<open>\<open>generator_iterator::operator++\<close> and \<open>generator::begin\<close>; comparison with the end, and \<open>operator*\<close>\<close>

definition gen_incr :: "objref \<Rightarrow> ('y, 'e) gen_store \<Rightarrow> ('e turn \<times> ('y, 'e) gen_store) option" where
  "gen_incr c s = do {
     empty \<leftarrow> gen_empty c s;
     if empty then None
     else do {
       g \<leftarrow> gs_ob s c;
       t \<leftarrow> gn_top g;
       p \<leftarrow> gs_fr s t;
       (r, s') \<leftarrow> gen_resume (gp_worker p) s;
       g' \<leftarrow> gs_ob s' c;
       if gn_top g' = Some t then Some (r, s') else None } }"

definition gen_begin :: "objref \<Rightarrow> ('y, 'e) gen_store \<Rightarrow> ('e turn \<times> ('y, 'e) gen_store) option" where
  "gen_begin c s = do { empty \<leftarrow> gen_empty c s; if empty then Some (Back, s) else gen_incr c s }"

definition at_end :: "objref \<Rightarrow> ('y, 'e) gen_store \<Rightarrow> bool option" where
  "at_end c s = do { g \<leftarrow> gs_ob s c; Some (gn_result g = None) }"

definition gen_deref :: "objref \<Rightarrow> ('y, 'e) gen_store \<Rightarrow> 'y option" where
  "gen_deref c s = do { g \<leftarrow> gs_ob s c; gn_result g }"

end
