(* ===== verification/Generator_Refinement.thy ===== *)
theory Generator_Refinement
  imports Generator
begin

text \<open>
  The generators of \<open>Generator\<close> refine a machine that knows no pointers: a generator object is the
  result it shows and a stack of bodies, the innermost first.
\<close>

section \<open>The stack machine\<close>

type_synonym ('y, 'e) stacks = "addr \<Rightarrow> ('y option \<times> ('y, 'e) action list list) option"

datatype 'e sturn = SAgain | SBack | SExc 'e

definition stack_turn :: "addr \<Rightarrow> ('y, 'e) stacks \<Rightarrow> ('e sturn \<times> ('y, 'e) stacks) option" where
  "stack_turn a A = (case A a of
      Some (r, [] # []) \<Rightarrow> Some (SBack, A(a \<mapsto> (None, [])))
    | Some (r, [] # rest) \<Rightarrow> Some (SAgain, A(a \<mapsto> (r, rest)))
    | Some (r, (Yield y # b) # rest) \<Rightarrow> Some (SBack, A(a \<mapsto> (Some y, b # rest)))
    | Some (r, (Throw e # b) # rest) \<Rightarrow> Some (SExc e, A(a \<mapsto> (None, rest)))
    | Some (r, (ElementsOf g # b) # rest) \<Rightarrow>
        if g = a then None
        else (case A g of
            None \<Rightarrow> None
          | Some (r', stk) \<Rightarrow> Some (SAgain, A(g \<mapsto> (None, []), a \<mapsto> (r, stk @ b # rest))))
    | _ \<Rightarrow> None)"

text \<open>Turns until control returns; the fuel is discharged below.\<close>

fun stack_run :: "nat \<Rightarrow> addr \<Rightarrow> ('y, 'e) stacks \<Rightarrow> ('e sturn \<times> ('y, 'e) stacks) option" where
  "stack_run 0 a A = None"
| "stack_run (Suc n) a A = (case stack_turn a A of
      Some (SAgain, A') \<Rightarrow> stack_run n a A'
    | r \<Rightarrow> r)"

section \<open>What is true of the pointers\<close>

text \<open>The parts of a frame and of a leaf object that the structure depends on.\<close>

definition frame_view :: "('y, 'e) generator_promise \<Rightarrow> bool \<times> link \<times> ('y, 'e) action list" where
  "frame_view p = (gp_done p, gp_link p, gp_body p)"

definition fv :: "('y, 'e) gen_store \<Rightarrow> handle \<Rightarrow> (bool \<times> link \<times> ('y, 'e) action list) option" where
  "fv s h = map_option frame_view (gs_fr s h)"

definition lv :: "('y, 'e) gen_store \<Rightarrow> handle \<Rightarrow> handle option option" where
  "lv s h = map_option gn_top (gs_ob s (LeafOf h))"

text \<open>
  \<open>linked fv lv w vs k bs\<close>: \<open>w\<close> and \<open>vs\<close> are suspended frames, each the leaf of the following one, with
  the bodies \<open>bs\<close>; \<open>k\<close> is in the union of the last one.
\<close>

primrec linked where
  "linked F L w [] k bs \<longleftrightarrow> (\<exists>b. F w = Some (False, k, b) \<and> bs = [b])"
| "linked F L w (v # vs) k bs \<longleftrightarrow> (\<exists>b bs'. F w = Some (False, OwnerOf v, b) \<and> bs = b # bs'
     \<and> L v = Some (Some w) \<and> linked F L v vs k bs')"

text \<open>The leaf object that may still be in the frame of the innermost coroutine: empty, or finished.\<close>

definition pend where
  "pend F L w x \<longleftrightarrow> (case x of
      None \<Rightarrow> L w = None \<or> L w = Some None
    | Some l \<Rightarrow> L w = Some (Some l) \<and> L l = None \<and> (\<exists>k b. F l = Some (True, k, b)))"

definition running :: "('y, 'e) gen_store \<Rightarrow> addr \<Rightarrow> handle \<Rightarrow> handle list \<Rightarrow> handle option
    \<Rightarrow> ('y, 'e) action list list \<Rightarrow> bool" where
  "running s a w vs x stk \<longleftrightarrow> linked (fv s) (lv s) w vs (ConsumerOf (Obj a)) stk \<and> pend (fv s) (lv s) w x
     \<and> map_option gp_root (gs_fr s w) = Some (last (w # vs))
     \<and> map_option gp_worker (gs_fr s (last (w # vs))) = Some w"

text \<open>The object number \<open>a\<close> shows \<open>r\<close>, stands for the stack \<open>stk\<close>, and owns the frames \<open>fs\<close>.\<close>

definition gen_ok :: "('y, 'e) gen_store \<Rightarrow> addr \<Rightarrow> 'y option \<Rightarrow> ('y, 'e) action list list \<Rightarrow> handle list \<Rightarrow> bool" where
  "gen_ok s a r stk fs \<longleftrightarrow> (\<exists>g. gs_ob s (Obj a) = Some g \<and> gn_result g = r
     \<and> (gn_top g = None \<and> stk = [] \<and> fs = []
        \<or> (\<exists>t b. gn_top g = Some t \<and> fv s t = Some (True, ConsumerOf (Obj a), b) \<and> lv s t = None \<and> stk = [] \<and> fs = [t])
        \<or> (\<exists>w vs x. gn_top g = Some (last (w # vs)) \<and> running s a w vs x stk
             \<and> fs = (case x of None \<Rightarrow> [] | Some l \<Rightarrow> [l]) @ w # vs)))"

definition gen_rel :: "('y, 'e) gen_store \<Rightarrow> ('y, 'e) stacks \<Rightarrow> (addr \<Rightarrow> handle list) \<Rightarrow> bool" where
  "gen_rel s A F \<longleftrightarrow>
     (\<forall>a. case A a of None \<Rightarrow> gs_ob s (Obj a) = None \<and> F a = [] | Some (r, stk) \<Rightarrow> gen_ok s a r stk (F a))
   \<and> (\<forall>a. distinct (F a)) \<and> (\<forall>a b. a \<noteq> b \<longrightarrow> set (F a) \<inter> set (F b) = {})"

subsection \<open>Views under updates\<close>

lemma fv_frame [simp]: "fv (s\<lparr>gs_fr := (gs_fr s)(h := v)\<rparr>) = (fv s)(h := map_option frame_view v)"
  by (simp add: fv_def fun_eq_iff)

lemma fv_ob [simp]: "fv (s\<lparr>gs_ob := o'\<rparr>) = fv s"
  by (simp add: fv_def fun_eq_iff)

lemma lv_fr [simp]: "lv (s\<lparr>gs_fr := f\<rparr>) = lv s"
  by (simp add: lv_def fun_eq_iff)

lemma lv_leaf [simp]: "lv (s\<lparr>gs_ob := (gs_ob s)(LeafOf h := v)\<rparr>) = (lv s)(h := map_option gn_top v)"
  by (simp add: lv_def fun_eq_iff)

lemma lv_obj [simp]: "lv (s\<lparr>gs_ob := (gs_ob s)(Obj a := v)\<rparr>) = lv s"
  by (simp add: lv_def fun_eq_iff)

lemma frame_view_simps [simp]:
  "frame_view (p\<lparr>gp_root := z\<rparr>) = frame_view p" "frame_view (p\<lparr>gp_worker := z\<rparr>) = frame_view p"
  "frame_view (p\<lparr>gp_link := k\<rparr>) = (gp_done p, k, gp_body p)"
  "frame_view (p\<lparr>gp_body := b\<rparr>) = (gp_done p, gp_link p, b)"
  "frame_view (p\<lparr>gp_done := d\<rparr>) = (d, gp_link p, gp_body p)"
  by (simp_all add: frame_view_def)

lemma linked_cong:
  "(\<And>h. h \<in> set (w # vs) \<Longrightarrow> F' h = F h) \<Longrightarrow> (\<And>h. h \<in> set vs \<Longrightarrow> L' h = L h)
   \<Longrightarrow> linked F' L' w vs k bs = linked F L w vs k bs"
  by (induction vs arbitrary: w bs) auto

lemma linked_nonempty: "linked F L w vs k bs \<Longrightarrow> bs \<noteq> []"
  by (cases vs) auto

lemma linked_last: "linked F L w vs k bs \<Longrightarrow> \<exists>b. F (last (w # vs)) = Some (False, k, b)"
  by (induction vs arbitrary: w bs) auto

lemma linked_alive: "linked F L w vs k bs \<Longrightarrow> h \<in> set (w # vs) \<Longrightarrow> F h \<noteq> None"
  by (induction vs arbitrary: w bs) auto

text \<open>Changing what is in the union of the last frame, and attaching a chain to another one.\<close>

lemma linked_relink:
  "linked F L w vs k bs \<Longrightarrow> distinct (w # vs) \<Longrightarrow> F (last (w # vs)) = Some (False, k, b)
   \<Longrightarrow> linked (F(last (w # vs) \<mapsto> (False, k', b))) L w vs k' bs"
proof (induction vs arbitrary: w bs)
  case Nil
  then show ?case by simp
next
  case (Cons v vs)
  then show ?case by (auto simp: last_in_set)
qed

lemma linked_join:
  "linked F L w vs (OwnerOf v) bs \<Longrightarrow> L v = Some (Some (last (w # vs))) \<Longrightarrow> linked F L v us k cs
   \<Longrightarrow> linked F L w (vs @ v # us) k (bs @ cs)"
  by (induction vs arbitrary: w bs) auto

text \<open>What an object stands for depends on its own frames only.\<close>

lemma gen_ok_cong:
  assumes "gen_ok s a r stk fs" "gs_ob s' (Obj a) = gs_ob s (Obj a)"
    and fr: "\<And>h. h \<in> set fs \<Longrightarrow> gs_fr s' h = gs_fr s h"
    and lf: "\<And>h. h \<in> set fs \<Longrightarrow> gs_ob s' (LeafOf h) = gs_ob s (LeafOf h)"
  shows "gen_ok s' a r stk fs"
proof -
  have v: "fv s' h = fv s h" "lv s' h = lv s h" if "h \<in> set fs" for h
    using fr[OF that] lf[OF that] by (simp_all add: fv_def lv_def)
  have run: "running s' a w vs x stk" if "running s a w vs x stk" "fs = (case x of None \<Rightarrow> [] | Some l \<Rightarrow> [l]) @ w # vs" for w vs x
  proof -
    have in_fs: "h \<in> set fs" if "h \<in> set (w # vs)" for h using that \<open>fs = _\<close> by auto
    have "last (w # vs) \<in> set (w # vs)" by (rule last_in_set) simp
    note l = in_fs[OF this]
    have "linked (fv s') (lv s') w vs k stk = linked (fv s) (lv s) w vs k stk" for k
      by (rule linked_cong) (use v in_fs in auto)
    moreover have "pend (fv s') (lv s') w x = pend (fv s) (lv s) w x"
      using v in_fs[of w] \<open>fs = _\<close> by (auto simp: pend_def split: option.splits)
    ultimately show ?thesis
      using that(1) fr[OF l] fr[OF in_fs[of w]] unfolding running_def by simp
  qed
  from assms(1) obtain g where g: "gs_ob s (Obj a) = Some g" "gn_result g = r"
    "gn_top g = None \<and> stk = [] \<and> fs = []
     \<or> (\<exists>t b. gn_top g = Some t \<and> fv s t = Some (True, ConsumerOf (Obj a), b) \<and> lv s t = None \<and> stk = [] \<and> fs = [t])
     \<or> (\<exists>w vs x. gn_top g = Some (last (w # vs)) \<and> running s a w vs x stk
          \<and> fs = (case x of None \<Rightarrow> [] | Some l \<Rightarrow> [l]) @ w # vs)"
    unfolding gen_ok_def by blast
  have "gs_ob s' (Obj a) = Some g" using assms(2) g(1) by simp
  moreover from g(3) have "gn_top g = None \<and> stk = [] \<and> fs = []
     \<or> (\<exists>t b. gn_top g = Some t \<and> fv s' t = Some (True, ConsumerOf (Obj a), b) \<and> lv s' t = None \<and> stk = [] \<and> fs = [t])
     \<or> (\<exists>w vs x. gn_top g = Some (last (w # vs)) \<and> running s' a w vs x stk
          \<and> fs = (case x of None \<Rightarrow> [] | Some l \<Rightarrow> [l]) @ w # vs)"
    using v run by fastforce
  ultimately show ?thesis using g(2) unfolding gen_ok_def by blast
qed

subsection \<open>The operations on chains\<close>

definition same_outside :: "handle set \<Rightarrow> ('y, 'e) gen_store \<Rightarrow> ('y, 'e) gen_store \<Rightarrow> bool" where
  "same_outside H s s' \<longleftrightarrow> (\<forall>h. h \<notin> H \<longrightarrow> gs_fr s' h = gs_fr s h \<and> gs_ob s' (LeafOf h) = gs_ob s (LeafOf h))"

lemma same_outside_trans:
  "same_outside H s s' \<Longrightarrow> same_outside H' s' s'' \<Longrightarrow> H \<subseteq> K \<Longrightarrow> H' \<subseteq> K \<Longrightarrow> same_outside K s s''"
  unfolding same_outside_def by (metis subsetD)

lemma fv_SomeD: "fv s h = Some (d, k, b) \<Longrightarrow> \<exists>p. gs_fr s h = Some p \<and> gp_done p = d \<and> gp_link p = k \<and> gp_body p = b"
  by (auto simp: fv_def frame_view_def)

lemma set_result_ok:
  assumes "gs_fr s w = Some p" "fv s (gp_root p) = Some (d, ConsumerOf c, b)" "gs_ob s c = Some g"
  shows "set_result w r s = Some (s\<lparr>gs_ob := (gs_ob s)(c \<mapsto> g\<lparr>gn_result := r\<rparr>)\<rparr>)"
  using assms fv_SomeD[OF assms(2)] by (auto simp: set_result_def upd_obj_def)

lemma skip_ok:
  assumes p: "gs_fr s w = Some p" "gp_root p \<noteq> w" "gp_link p = OwnerOf v" "v \<noteq> w"
    and alive: "fv s v \<noteq> None" "fv s (gp_root p) \<noteq> None"
  shows "\<exists>s'. skip_this_leaf w s = Some (v, s') \<and> fv s' = fv s \<and> gs_ob s' = gs_ob s
    \<and> map_option gp_root (gs_fr s' v) = Some (gp_root p) \<and> map_option gp_worker (gs_fr s' (gp_root p)) = Some v
    \<and> gs_fr s' w = Some p \<and> (\<forall>h. h \<notin> {v, gp_root p} \<longrightarrow> gs_fr s' h = gs_fr s h)"
proof -
  from alive obtain q where q: "gs_fr s v = Some q" by (auto simp: fv_def)
  let ?s1 = "s\<lparr>gs_fr := (gs_fr s)(v \<mapsto> q\<lparr>gp_root := gp_root p\<rparr>)\<rparr>"
  from alive obtain z where z: "gs_fr ?s1 (gp_root p) = Some z" by (cases "v = gp_root p") (auto simp: fv_def)
  let ?s2 = "?s1\<lparr>gs_fr := (gs_fr ?s1)(gp_root p \<mapsto> z\<lparr>gp_worker := v\<rparr>)\<rparr>"
  have "skip_this_leaf w s = Some (v, ?s2)"
    unfolding skip_this_leaf_def upd_frame_def using p q z by simp
  moreover have "fv ?s2 = fv s"
  proof
    fix h show "fv ?s2 h = fv s h" using q z by (auto simp: fv_def frame_view_def split: if_splits)
  qed
  ultimately show ?thesis using p q z by (intro exI[of _ ?s2]) (auto split: if_splits)
qed

lemma end_attach_ok:
  assumes run: "running s a w vs x stk" and dist: "distinct ((case x of None \<Rightarrow> [] | Some l \<Rightarrow> [l]) @ w # vs)"
  shows "\<exists>s'. end_attach w s = Some s' \<and> running s' a w vs None stk \<and> gs_ob s' (LeafOf w) = None
    \<and> (\<forall>c. gs_ob s' (Obj c) = gs_ob s (Obj c)) \<and> gs_fr s' w = gs_fr s w
    \<and> same_outside (set ((case x of None \<Rightarrow> [] | Some l \<Rightarrow> [l]) @ w # vs)) s s'"
proof -
  have lst: "last (w # vs) \<in> set (w # vs)" by (rule last_in_set) simp
  have keep: "running s' a w vs None stk"
    if "\<And>h. h \<in> set (w # vs) \<Longrightarrow> gs_fr s' h = gs_fr s h" "\<And>h. h \<in> set vs \<Longrightarrow> lv s' h = lv s h" "lv s' w = None" for s'
  proof -
    have "linked (fv s') (lv s') w vs k stk = linked (fv s) (lv s) w vs k stk" for k
      by (rule linked_cong) (use that(1,2) in \<open>auto simp: fv_def\<close>)
    with run that(1)[of w] that(1)[OF lst] that(3) show ?thesis unfolding running_def by (simp add: pend_def)
  qed
  show ?thesis
  proof (cases "gs_ob s (LeafOf w)")
    case None
    with run have x: "x = None" by (auto simp: running_def pend_def lv_def split: option.splits)
    have "running s a w vs None stk" by (rule keep) (use None in \<open>auto simp: lv_def\<close>)
    with None x show ?thesis by (auto simp: end_attach_def same_outside_def)
  next
    case (Some g)
    show ?thesis
    proof (cases x)
      case None
      with run Some have t: "gn_top g = None" by (auto simp: running_def pend_def lv_def)
      let ?s = "s\<lparr>gs_ob := (gs_ob s)(LeafOf w := None)\<rparr>"
      have "end_attach w s = Some ?s" using Some t by (simp add: end_attach_def gen_dtor_def gen_clear_def)
      moreover have "running ?s a w vs None stk" by (rule keep) (use dist None in auto)
      ultimately show ?thesis using None by (auto simp: same_outside_def)
    next
      case (Some l)
      with run \<open>gs_ob s (LeafOf w) = Some g\<close> have t: "gn_top g = Some l" "gs_ob s (LeafOf l) = None" "gs_fr s l \<noteq> None"
        by (auto simp: running_def pend_def lv_def fv_def)
      have lw: "l \<noteq> w" "l \<notin> set vs" using dist Some by auto
      let ?s1 = "s\<lparr>gs_ob := (gs_ob s)(LeafOf w \<mapsto> g\<lparr>gn_top := None\<rparr>)\<rparr>"
      let ?s2 = "?s1\<lparr>gs_ob := (gs_ob ?s1)(LeafOf l := None), gs_fr := (gs_fr ?s1)(l := None)\<rparr>"
      let ?s3 = "?s2\<lparr>gs_ob := (gs_ob ?s2)(LeafOf w := None)\<rparr>"
      have "destroy_frame l ?s1 = Some ?s2" using t lw by (subst destroy_frame.simps) auto
      then have "end_attach w s = Some ?s3"
        using t \<open>gs_ob s (LeafOf w) = Some g\<close> by (simp add: end_attach_def gen_dtor_def gen_clear_def)
      moreover have "running ?s3 a w vs None stk"
        by (rule keep) (use dist Some t lw in \<open>auto simp: lv_def\<close>)
      ultimately show ?thesis using Some lw t by (intro exI[of _ ?s3]) (auto simp: same_outside_def)
    qed
  qed
qed

text \<open>
  A turn of the innermost coroutine, for each thing its body may do. What \<open>gen_ok\<close> needs afterwards is
  stated for the object itself; everything outside its frames stays.
\<close>

definition owns :: "('y, 'e) gen_store \<Rightarrow> addr \<Rightarrow> 'y generator \<Rightarrow> handle \<Rightarrow> handle list \<Rightarrow> ('y, 'e) action list list \<Rightarrow> bool" where
  "owns s a g w vs stk \<longleftrightarrow> gs_ob s (Obj a) = Some g \<and> gn_top g = Some (last (w # vs))
     \<and> running s a w vs None stk \<and> gs_ob s (LeafOf w) = None \<and> distinct (w # vs)"

lemma ownsD:
  assumes "owns s a g w vs (b # rest)"
  obtains p where "gs_fr s w = Some p" "gp_body p = b" "\<not> gp_done p" "gp_root p = last (w # vs)"
    "\<exists>c. fv s (last (w # vs)) = Some (False, ConsumerOf (Obj a), c)"
    "gs_ob s (Obj a) = Some g" "gn_top g = Some (last (w # vs))" "gs_ob s (LeafOf w) = None"
proof -
  from assms have l: "linked (fv s) (lv s) w vs (ConsumerOf (Obj a)) (b # rest)" by (simp add: owns_def running_def)
  then have "\<exists>k. fv s w = Some (False, k, b)" by (cases vs) auto
  then obtain p where "gs_fr s w = Some p" "gp_body p = b" "\<not> gp_done p" by (auto dest: fv_SomeD)
  with assms linked_last[OF l] that show thesis by (auto simp: owns_def running_def)
qed

lemma turn_yield:
  assumes o: "owns s a g w vs ((Yield y # b) # rest)"
  shows "\<exists>s' g'. body_turn w s = Some (Back, s') \<and> owns s' a g' w vs (b # rest) \<and> gn_result g' = Some y
    \<and> (\<forall>c. c \<noteq> a \<longrightarrow> gs_ob s' (Obj c) = gs_ob s (Obj c)) \<and> same_outside (set (w # vs)) s s'"
proof -
  from o obtain p where p: "gs_fr s w = Some p" "gp_body p = Yield y # b" "\<not> gp_done p" "gp_root p = last (w # vs)"
    and l: "\<exists>c. fv s (last (w # vs)) = Some (False, ConsumerOf (Obj a), c)"
    and g: "gs_ob s (Obj a) = Some g" "gn_top g = Some (last (w # vs))" "gs_ob s (LeafOf w) = None"
    by (rule ownsD)
  let ?s1 = "s\<lparr>gs_fr := (gs_fr s)(w \<mapsto> p\<lparr>gp_body := b\<rparr>)\<rparr>"
  let ?s2 = "?s1\<lparr>gs_ob := (gs_ob ?s1)(Obj a \<mapsto> g\<lparr>gn_result := Some y\<rparr>)\<rparr>"
  from o have lk: "linked (fv s) (lv s) w vs (ConsumerOf (Obj a)) ((Yield y # b) # rest)" and d: "distinct (w # vs)"
    by (simp_all add: owns_def running_def)
  have "\<exists>c. fv ?s1 (last (w # vs)) = Some (False, ConsumerOf (Obj a), c)"
    using l p by (cases "last (w # vs) = w") (auto simp: fv_def frame_view_def)
  then have "set_result w (Some y) ?s1 = Some ?s2"
    using set_result_ok[of ?s1 w "p\<lparr>gp_body := b\<rparr>" False "Obj a" _ g "Some y"] p(4) g(1) by auto
  then have "body_turn w s = Some (Back, ?s2)"
    using p by (simp add: body_turn_def upd_frame_def)
  moreover have "linked (fv ?s2) (lv ?s2) w vs (ConsumerOf (Obj a)) (b # rest)"
  proof (cases vs)
    case Nil
    with lk p show ?thesis by (auto simp: fv_def frame_view_def)
  next
    case (Cons v us)
    have "linked (fv ?s2) (lv ?s2) v us (ConsumerOf (Obj a)) rest = linked (fv s) (lv s) v us (ConsumerOf (Obj a)) rest"
      by (rule linked_cong) (use d Cons in \<open>auto simp: lv_def\<close>)
    with lk p Cons show ?thesis by (auto simp: fv_def frame_view_def lv_def)
  qed
  moreover have "map_option gp_root (gs_fr ?s2 w) = Some (last (w # vs))" using p by simp
  moreover have "map_option gp_worker (gs_fr ?s2 (last (w # vs))) = Some w"
    using o p unfolding owns_def running_def by (cases "last (w # vs) = w") auto
  ultimately show ?thesis
    using g d by (intro exI[of _ ?s2] exI[of _ "g\<lparr>gn_result := Some y\<rparr>"])
      (auto simp: owns_def running_def pend_def lv_def same_outside_def)
qed

lemma turn_end_top:
  assumes o: "owns s a g w [] (b # rest)" and b: "b = [] \<or> b = Throw e # b'"
  shows "rest = [] \<and> (\<exists>s' g'. body_turn w s = Some (if b = [] then Back else Exc e, s')
    \<and> gs_ob s' (Obj a) = Some g' \<and> gn_top g' = Some w \<and> gn_result g' = None
    \<and> (\<exists>c. fv s' w = Some (True, ConsumerOf (Obj a), c)) \<and> lv s' w = None
    \<and> (\<forall>c. c \<noteq> a \<longrightarrow> gs_ob s' (Obj c) = gs_ob s (Obj c)) \<and> same_outside {w} s s')"
proof -
  from o obtain p where p: "gs_fr s w = Some p" "gp_body p = b" "\<not> gp_done p" "gp_root p = last [w]"
    and l: "\<exists>c. fv s (last [w]) = Some (False, ConsumerOf (Obj a), c)"
    and g: "gs_ob s (Obj a) = Some g" "gn_top g = Some (last [w])" "gs_ob s (LeafOf w) = None"
    by (rule ownsD)
  from o have rest: "rest = []" by (auto simp: owns_def running_def)
  let ?s1 = "s\<lparr>gs_fr := (gs_fr s)(w \<mapsto> p\<lparr>gp_done := True\<rparr>)\<rparr>"
  let ?s2 = "?s1\<lparr>gs_ob := (gs_ob ?s1)(Obj a \<mapsto> g\<lparr>gn_result := None\<rparr>)\<rparr>"
  from l obtain c where c: "gp_link p = ConsumerOf (Obj a)" using p by (auto simp: fv_def frame_view_def)
  then have "fv ?s1 w = Some (True, ConsumerOf (Obj a), b)" using p by simp
  then have "set_result w None ?s1 = Some ?s2"
    using set_result_ok[of ?s1 w "p\<lparr>gp_done := True\<rparr>" True "Obj a" b g None] p(4) g(1) by simp
  then have "body_turn w s = Some (if b = [] then Back else Exc e, ?s2)"
    using p b by (auto simp: body_turn_def upd_frame_def final_suspend_def unhandled_exception_def)
  with rest g c p show ?thesis
    by (intro conjI exI[of _ ?s2] exI[of _ "g\<lparr>gn_result := None\<rparr>"])
      (auto simp: lv_def same_outside_def)
qed

text \<open>The end of a leaf, with or without an exception: its owner becomes the worker of the root.\<close>

lemma turn_end_leaf:
  assumes o: "owns s a g w (v # us) (b # rest)" and b: "b = [] \<or> b = Throw e # b'"
  shows "\<exists>s' g'. body_turn w s = Some (if b = [] then Again v else Exc e, s')
    \<and> gs_ob s' (Obj a) = Some g' \<and> gn_top g' = gn_top g \<and> gn_result g' = (if b = [] then gn_result g else None)
    \<and> running s' a v us (Some w) rest
    \<and> (\<forall>c. c \<noteq> a \<longrightarrow> gs_ob s' (Obj c) = gs_ob s (Obj c)) \<and> same_outside (set (w # v # us)) s s'"
proof -
  let ?t = "last (v # us)"
  from o obtain p where p: "gs_fr s w = Some p" "gp_body p = b" "\<not> gp_done p" "gp_root p = ?t"
    and l: "\<exists>c. fv s ?t = Some (False, ConsumerOf (Obj a), c)"
    and g: "gs_ob s (Obj a) = Some g" "gn_top g = Some ?t" "gs_ob s (LeafOf w) = None"
    by (rule ownsD) auto
  from o have lk: "fv s w = Some (False, OwnerOf v, b)" "lv s v = Some (Some w)"
      "linked (fv s) (lv s) v us (ConsumerOf (Obj a)) rest" and d: "distinct (w # v # us)"
    by (auto simp: owns_def running_def)
  have t_in: "?t \<in> set (v # us)" by (rule last_in_set) simp
  with d have tw: "?t \<noteq> w" by auto
  let ?p = "p\<lparr>gp_done := True\<rparr>"
  let ?s1 = "s\<lparr>gs_fr := (gs_fr s)(w \<mapsto> ?p)\<rparr>"
  have f1: "fv ?s1 = (fv s)(w \<mapsto> (True, OwnerOf v, b))" using p lk by (auto simp: fv_def frame_view_def)
  have alive: "fv ?s1 v \<noteq> None" "fv ?s1 ?t \<noteq> None"
    using linked_alive[OF lk(3), of v] linked_alive[OF lk(3) t_in] d tw unfolding f1 by auto
  have "gp_link ?p = OwnerOf v" using lk p by (auto simp: fv_def frame_view_def)
  then obtain s2 where s2: "skip_this_leaf w ?s1 = Some (v, s2)" "fv s2 = fv ?s1" "gs_ob s2 = gs_ob s"
    "map_option gp_root (gs_fr s2 v) = Some ?t" "map_option gp_worker (gs_fr s2 ?t) = Some v" "gs_fr s2 w = Some ?p"
    "\<forall>h. h \<notin> {v, ?t} \<longrightarrow> gs_fr s2 h = gs_fr ?s1 h"
    using skip_ok[of ?s1 w ?p v] p(4) tw d alive by auto
  have run: "running s' a v us (Some w) rest" if s': "gs_fr s' = gs_fr s2" "lv s' = lv s" for s'
  proof -
    have f: "fv s' = (fv s)(w \<mapsto> (True, OwnerOf v, b))" using s2(2) s'(1) unfolding f1[symmetric] by (simp add: fv_def fun_eq_iff)
    have "linked (fv s') (lv s') v us (ConsumerOf (Obj a)) rest = linked (fv s) (lv s) v us (ConsumerOf (Obj a)) rest"
      by (rule linked_cong) (use f s'(2) d in auto)
    moreover have "lv s w = None" using g(3) by (simp add: lv_def)
    ultimately show ?thesis
      using lk s2(4,5) s' f unfolding running_def by (simp add: pend_def)
  qed
  have lv2: "lv s2 = lv s" using s2(3) by (simp add: lv_def fun_eq_iff)
  have out: "same_outside (set (w # v # us)) s s'" if "gs_fr s' = gs_fr s2" "\<And>h. gs_ob s' (LeafOf h) = gs_ob s (LeafOf h)" for s'
    using that s2(7) t_in by (auto simp: same_outside_def)
  show ?thesis
  proof (cases "b = []")
    case True
    have "body_turn w s = Some (Again v, s2)"
      using p True s2(1) tw by (simp add: body_turn_def upd_frame_def final_suspend_def)
    with True g s2(3) run[OF refl lv2] out[OF refl] show ?thesis by (intro exI[of _ s2] exI[of _ g]) simp
  next
    case False
    with b have b: "b = Throw e # b'" by simp
    from l tw obtain c where "fv s2 ?t = Some (False, ConsumerOf (Obj a), c)" unfolding s2(2) f1 by auto
    then have "set_result w None s2 = Some (s2\<lparr>gs_ob := (gs_ob s2)(Obj a \<mapsto> g\<lparr>gn_result := None\<rparr>)\<rparr>)"
      using set_result_ok[of s2 w ?p False "Obj a" c g None] s2(3,6) p(4) g(1) by simp
    then have "body_turn w s = Some (Exc e, s2\<lparr>gs_ob := (gs_ob s2)(Obj a \<mapsto> g\<lparr>gn_result := None\<rparr>)\<rparr>)" (is "_ = Some (_, ?s3)")
      using p b s2(1) tw by (simp add: body_turn_def upd_frame_def unhandled_exception_def)
    moreover have "running ?s3 a v us (Some w) rest" by (rule run) (simp_all add: lv2)
    moreover have "same_outside (set (w # v # us)) s ?s3" by (rule out) (simp_all add: s2(3))
    ultimately show ?thesis using g s2(3) False
      by (intro exI[of _ ?s3] exI[of _ "g\<lparr>gn_result := None\<rparr>"]) simp
  qed
qed

text \<open>Moving a generator into a frame, and attaching it.\<close>

lemma move_none:
  assumes "gs_ob s (Obj c) = Some k" "gn_top k = None"
  shows "gen_move_construct (LeafOf w) (Obj c) s =
    Some (s\<lparr>gs_ob := (gs_ob s)(LeafOf w \<mapsto> k, Obj c \<mapsto> generator_default)\<rparr>)"
  using assms by (simp add: gen_move_construct_def gen_swap_def prepare_if_top_def generator_default_def)

lemma move_top:
  assumes "gs_ob s (Obj c) = Some k" "gn_top k = Some l" "gs_fr s l = Some q"
  shows "gen_move_construct (LeafOf w) (Obj c) s =
    Some (s\<lparr>gs_ob := (gs_ob s)(LeafOf w \<mapsto> k, Obj c \<mapsto> generator_default),
           gs_fr := (gs_fr s)(l \<mapsto> q\<lparr>gp_link := ConsumerOf (LeafOf w)\<rparr>)\<rparr>)"
  using assms
  by (simp add: gen_move_construct_def gen_swap_def prepare_if_top_def prepare_to_start_def upd_frame_def
      generator_default_def)

lemma attach_ok:
  assumes leaf: "gs_ob s (LeafOf w) = Some k" "gn_top k = Some l" "l \<noteq> w"
    and fr: "gs_fr s l = Some q" "gs_fr s w = Some p" "gs_fr s (gp_worker q) \<noteq> None" "gs_fr s (gp_root p) \<noteq> None"
    and ne: "gp_root p \<noteq> gp_worker q" "gp_root p \<noteq> l"
  shows "\<exists>s'. attach_leaf_suspend w s = Some (gp_worker q, s') \<and> gs_ob s' = gs_ob s
    \<and> fv s' = (fv s)(l \<mapsto> (gp_done q, OwnerOf w, gp_body q))
    \<and> map_option gp_root (gs_fr s' (gp_worker q)) = Some (gp_root p)
    \<and> map_option gp_worker (gs_fr s' (gp_root p)) = Some (gp_worker q)
    \<and> (\<forall>h. h \<notin> {l, gp_worker q, gp_root p} \<longrightarrow> gs_fr s' h = gs_fr s h)"
proof -
  from fr obtain u where u: "gs_fr s (gp_worker q) = Some u" by blast
  let ?s1 = "s\<lparr>gs_fr := (gs_fr s)(gp_worker q \<mapsto> u\<lparr>gp_root := gp_root p\<rparr>)\<rparr>"
  from fr obtain q' where q': "gs_fr ?s1 l = Some q'" by (cases "l = gp_worker q") auto
  let ?s2 = "?s1\<lparr>gs_fr := (gs_fr ?s1)(l \<mapsto> q'\<lparr>gp_link := OwnerOf w\<rparr>)\<rparr>"
  from fr ne obtain z where z: "gs_fr ?s2 (gp_root p) = Some z" "gs_fr s (gp_root p) = Some z" by auto
  let ?s3 = "?s2\<lparr>gs_fr := (gs_fr ?s2)(gp_root p \<mapsto> z\<lparr>gp_worker := gp_worker q\<rparr>)\<rparr>"
  have "attach_leaf_suspend w s = Some (gp_worker q, ?s3)"
    unfolding attach_leaf_suspend_def upd_frame_def using leaf fr u q' z ne by simp
  moreover have "fv ?s3 = (fv s)(l \<mapsto> (gp_done q, OwnerOf w, gp_body q))"
  proof
    fix h show "fv ?s3 h = ((fv s)(l \<mapsto> (gp_done q, OwnerOf w, gp_body q))) h"
      using fr u q' z ne by (auto simp: fv_def frame_view_def split: if_splits)
  qed
  ultimately show ?thesis using fr u q' z ne by (intro exI[of _ ?s3]) (auto split: if_splits)
qed

lemma gen_ok_cases:
  assumes "gen_ok s c r stk fs"
  obtains (null) k where "gs_ob s (Obj c) = Some k" "gn_result k = r" "gn_top k = None" "stk = []" "fs = []"
  | (fin) k l b where "gs_ob s (Obj c) = Some k" "gn_result k = r" "gn_top k = Some l"
      "fv s l = Some (True, ConsumerOf (Obj c), b)" "lv s l = None" "stk = []" "fs = [l]"
  | (run) k w vs x where "gs_ob s (Obj c) = Some k" "gn_result k = r" "gn_top k = Some (last (w # vs))"
      "running s c w vs x stk" "fs = (case x of None \<Rightarrow> [] | Some l \<Rightarrow> [l]) @ w # vs"
  using assms unfolding gen_ok_def by blast

text \<open>
  Attaching a running chain \<open>w' # vs'\<close>: the leaf of \<open>w\<close> becomes its last frame, its first frame the new
  worker of the root.
\<close>

lemma attach_running:
  assumes lkw: "linked (fv s) (lv s) w vs (ConsumerOf (Obj a)) (b # rest)"
    and rw: "map_option gp_root (gs_fr s w) = Some (last (w # vs))"
    and leaf: "gs_ob s (LeafOf w) = Some k" "gn_top k = Some (last (w' # vs'))"
    and lk': "linked (fv s) (lv s) w' vs' K stk" and pd: "pend (fv s) (lv s) w' x"
    and wk: "map_option gp_worker (gs_fr s (last (w' # vs'))) = Some w'"
    and dist: "distinct ((case x of None \<Rightarrow> [] | Some l \<Rightarrow> [l]) @ w' # vs' @ w # vs)"
  shows "\<exists>s'. attach_leaf_suspend w s = Some (w', s') \<and> gs_ob s' = gs_ob s
    \<and> running s' a w' (vs' @ w # vs) x (stk @ b # rest)
    \<and> same_outside (set (w' # vs' @ w # vs)) s s'"
proof -
  let ?l = "last (w' # vs')" and ?t = "last (w # vs)"
  have l_in: "?l \<in> set (w' # vs')" and t_in: "?t \<in> set (w # vs)" by (rule last_in_set, simp)+
  with dist have ne: "?l \<noteq> w" "?t \<noteq> w'" "?t \<noteq> ?l" by auto
  from linked_last[OF lk'] obtain c where c: "fv s ?l = Some (False, K, c)" by blast
  then obtain q where q: "gs_fr s ?l = Some q" "gp_done q = False" "gp_body q = c" by (auto dest: fv_SomeD)
  from wk q have qw: "gp_worker q = w'" by simp
  from rw obtain p where p: "gs_fr s w = Some p" "gp_root p = ?t" by auto
  have "gs_fr s w' \<noteq> None" "gs_fr s ?t \<noteq> None"
    using linked_alive[OF lk', of w'] linked_alive[OF lkw t_in] by (auto simp: fv_def)
  with attach_ok[OF leaf(1,2) ne(1) q(1) p(1)] qw p ne obtain s' where s':
    "attach_leaf_suspend w s = Some (w', s')" "gs_ob s' = gs_ob s" "fv s' = (fv s)(?l \<mapsto> (False, OwnerOf w, c))"
    "map_option gp_root (gs_fr s' w') = Some ?t" "map_option gp_worker (gs_fr s' ?t) = Some w'"
    "\<forall>h. h \<notin> {?l, w', ?t} \<longrightarrow> gs_fr s' h = gs_fr s h"
    using q by auto
  have lv': "lv s' = lv s" using s'(2) by (simp add: lv_def fun_eq_iff)
  have l1: "linked (fv s') (lv s) w' vs' (OwnerOf w) stk"
    unfolding s'(3) by (rule linked_relink[OF lk' _ c]) (use dist in auto)
  have "?l \<notin> set (w # vs)" using dist l_in by auto
  then have fw: "fv s' h = fv s h" if "h \<in> set (w # vs)" for h
    using that unfolding s'(3) by (metis fun_upd_other)
  have "linked (fv s') (lv s) w vs (ConsumerOf (Obj a)) (b # rest)
      = linked (fv s) (lv s) w vs (ConsumerOf (Obj a)) (b # rest)"
    by (rule linked_cong) (use fw in simp_all)
  with lkw have l2: "linked (fv s') (lv s) w vs (ConsumerOf (Obj a)) (b # rest)" by simp
  have l3: "lv s w = Some (Some ?l)" using leaf by (simp add: lv_def)
  have "linked (fv s') (lv s) w' (vs' @ w # vs) (ConsumerOf (Obj a)) (stk @ b # rest)"
    by (rule linked_join[where L = "lv s", OF l1 l3 l2])
  moreover have "pend (fv s') (lv s) w' x"
  proof (cases x)
    case None
    with pd show ?thesis by (simp add: pend_def)
  next
    case (Some z)
    with dist l_in have "z \<noteq> ?l" by auto
    then have "fv s' z = fv s z" unfolding s'(3) by (metis fun_upd_other)
    with pd Some show ?thesis by (simp add: pend_def)
  qed
  ultimately have "running s' a w' (vs' @ w # vs) x (stk @ b # rest)"
    using s'(4,5) lv' by (simp add: running_def)
  moreover have "same_outside (set (w' # vs' @ w # vs)) s s'"
  proof -
    have "gs_fr s' h = gs_fr s h" if "h \<notin> set (w' # vs' @ w # vs)" for h
    proof -
      have "{?l, w', ?t} \<subseteq> set (w' # vs') \<union> set (w # vs)" using l_in t_in list.set_intros(1)[of w' vs'] by blast
      moreover have "h \<notin> set (w' # vs') \<union> set (w # vs)" using that by simp
      ultimately have "h \<notin> {?l, w', ?t}" by blast
      with s'(6) show ?thesis by blast
    qed
    with s'(2) show ?thesis by (simp add: same_outside_def)
  qed
  ultimately show ?thesis using s'(1,2) by blast
qed

text \<open>A chain after its first frame advanced in its body, and other frames and objects changed.\<close>

lemma linked_advance:
  assumes "linked F L w vs k (b' # rest)" "F' w = map_option (\<lambda>(d, k, _). (d, k, b)) (F w)"
    and "\<And>h. h \<in> set vs \<Longrightarrow> F' h = F h" "\<And>h. h \<in> set vs \<Longrightarrow> L' h = L h"
  shows "linked F' L' w vs k (b # rest)"
proof (cases vs)
  case Nil
  with assms show ?thesis by auto
next
  case (Cons v us)
  have "linked F' L' v us k rest = linked F L v us k rest"
    by (rule linked_cong) (use assms(3,4) Cons in auto)
  with assms Cons show ?thesis by auto
qed

lemma turn_elements:
  assumes o: "owns s a g w vs ((ElementsOf c # b) # rest)" and c: "c \<noteq> a" "gen_ok s c r' stk fs"
    and dist: "distinct (fs @ w # vs)"
  shows "\<exists>s' z ws x. body_turn w s = Some (Again z, s') \<and> gs_ob s' (Obj a) = Some g \<and> last (z # ws) = last (w # vs)
    \<and> running s' a z ws x (stk @ b # rest) \<and> (case x of None \<Rightarrow> [] | Some l \<Rightarrow> [l]) @ z # ws = fs @ w # vs
    \<and> gs_ob s' (Obj c) = Some generator_default
    \<and> (\<forall>d. d \<noteq> a \<and> d \<noteq> c \<longrightarrow> gs_ob s' (Obj d) = gs_ob s (Obj d)) \<and> same_outside (set (fs @ w # vs)) s s'"
proof -
  let ?t = "last (w # vs)"
  from o obtain p where p: "gs_fr s w = Some p" "gp_body p = ElementsOf c # b" "\<not> gp_done p" "gp_root p = ?t"
    and g: "gs_ob s (Obj a) = Some g" "gn_top g = Some ?t" "gs_ob s (LeafOf w) = None"
    by (rule ownsD)
  from o have lk: "linked (fv s) (lv s) w vs (ConsumerOf (Obj a)) ((ElementsOf c # b) # rest)"
    and wk: "map_option gp_worker (gs_fr s ?t) = Some w" and d: "distinct (w # vs)"
    by (simp_all add: owns_def running_def)
  let ?s1 = "s\<lparr>gs_fr := (gs_fr s)(w \<mapsto> p\<lparr>gp_body := b\<rparr>)\<rparr>"
  have turn: "body_turn w s = do {
      s2 \<leftarrow> gen_move_construct (LeafOf w) (Obj c) ?s1;
      ready \<leftarrow> gen_empty (LeafOf w) s2;
      if ready then Some (Again w, s2)
      else do { (w, s3) \<leftarrow> attach_leaf_suspend w s2; Some (Again w, s3) } }"
    using p by (simp add: body_turn_def upd_frame_def)
  text \<open>Facts about every state that differs from \<open>s\<close> in the body of \<open>w\<close>, its leaf and the moved frames.\<close>
  have adv: "linked (fv s2) (lv s2) w vs (ConsumerOf (Obj a)) (b # rest)"
      "map_option gp_root (gs_fr s2 w) = Some ?t" "map_option gp_worker (gs_fr s2 ?t) = Some w"
    if "gs_fr s2 w = Some (p\<lparr>gp_body := b\<rparr>)" "\<And>h. h \<in> set vs \<Longrightarrow> gs_fr s2 h = gs_fr s h"
      "\<And>h. h \<in> set vs \<Longrightarrow> gs_ob s2 (LeafOf h) = gs_ob s (LeafOf h)" for s2
  proof -
    show "linked (fv s2) (lv s2) w vs (ConsumerOf (Obj a)) (b # rest)"
      by (rule linked_advance[OF lk]) (use that p in \<open>auto simp: fv_def lv_def frame_view_def\<close>)
    show "map_option gp_root (gs_fr s2 w) = Some ?t" using that p by simp
    show "map_option gp_worker (gs_fr s2 ?t) = Some w"
    proof (cases "vs = []")
      case True
      with wk p that show ?thesis by simp
    next
      case False
      then have "?t \<in> set vs" by simp
      with that(2) wk show ?thesis by simp
    qed
  qed
  have adv_run: "running s2 a w vs x (b # rest)"
    if "gs_fr s2 w = Some (p\<lparr>gp_body := b\<rparr>)" "\<And>h. h \<in> set vs \<Longrightarrow> gs_fr s2 h = gs_fr s h"
      "\<And>h. h \<in> set vs \<Longrightarrow> gs_ob s2 (LeafOf h) = gs_ob s (LeafOf h)" "pend (fv s2) (lv s2) w x" for s2 x
    using adv[OF that(1-3)] that(4) by (simp only: running_def simp_thms)
  have vs_w: "h \<noteq> w" if "h \<in> set vs" for h using d that by auto
  from c(2) show ?thesis
  proof (cases rule: gen_ok_cases)
    case (null k)
    let ?s2 = "?s1\<lparr>gs_ob := (gs_ob ?s1)(LeafOf w \<mapsto> k, Obj c \<mapsto> generator_default)\<rparr>"
    have "gen_move_construct (LeafOf w) (Obj c) ?s1 = Some ?s2" by (rule move_none) (use null in auto)
    moreover have "gen_empty (LeafOf w) ?s2 = Some True" using null by (simp add: gen_empty_def)
    ultimately have "body_turn w s = Some (Again w, ?s2)" unfolding turn by simp
    moreover have "running ?s2 a w vs None (b # rest)"
      by (rule adv_run) (use null vs_w in \<open>auto simp: pend_def lv_def\<close>)
    ultimately show ?thesis using null g c(1)
      by (intro exI[of _ ?s2] exI[of _ w] exI[of _ vs] exI[of _ None]) (auto simp: same_outside_def)
  next
    case (fin k l b')
    then obtain q where q: "gs_fr s l = Some q" "gp_done q" by (auto dest!: fv_SomeD)
    have lw: "l \<noteq> w" "l \<notin> set vs" using dist fin by auto
    let ?s2 = "?s1\<lparr>gs_ob := (gs_ob ?s1)(LeafOf w \<mapsto> k, Obj c \<mapsto> generator_default),
      gs_fr := (gs_fr ?s1)(l \<mapsto> q\<lparr>gp_link := ConsumerOf (LeafOf w)\<rparr>)\<rparr>"
    have "gen_move_construct (LeafOf w) (Obj c) ?s1 = Some ?s2" by (rule move_top) (use fin q lw in auto)
    moreover have "gen_empty (LeafOf w) ?s2 = Some True" using fin q by (simp add: gen_empty_def)
    ultimately have "body_turn w s = Some (Again w, ?s2)" unfolding turn by simp
    moreover have "running ?s2 a w vs (Some l) (b # rest)"
      by (rule adv_run) (use fin q lw vs_w in \<open>auto simp: pend_def lv_def fv_def frame_view_def\<close>)
    ultimately show ?thesis using fin g c(1)
      by (intro exI[of _ ?s2] exI[of _ w] exI[of _ vs] exI[of _ "Some l"]) (auto simp: same_outside_def)
  next
    case (run k w' vs' x)
    obtain l where l: "l = last (w' # vs')" by blast
    have l_in: "l \<in> set (w' # vs')" unfolding l by (rule last_in_set) simp
    with run dist have lw: "l \<noteq> w" "l \<notin> set vs" by auto
    from run(4) have lk': "linked (fv s) (lv s) w' vs' (ConsumerOf (Obj c)) stk" and pd: "pend (fv s) (lv s) w' x"
      and wk': "map_option gp_worker (gs_fr s l) = Some w'" by (simp_all add: running_def l)
    have top: "gn_top k = Some l" using run(3) l by simp
    from linked_last[OF lk'] obtain cb where cb: "fv s l = Some (False, ConsumerOf (Obj c), cb)" unfolding l by blast
    then obtain q where q: "gs_fr s l = Some q" "gp_done q = False" "gp_body q = cb" by (auto dest: fv_SomeD)
    obtain s2 where s2: "s2 = ?s1\<lparr>gs_ob := (gs_ob ?s1)(LeafOf w \<mapsto> k, Obj c \<mapsto> generator_default),
      gs_fr := (gs_fr ?s1)(l \<mapsto> q\<lparr>gp_link := ConsumerOf (LeafOf w)\<rparr>)\<rparr>"
      by blast
    have mv: "gen_move_construct (LeafOf w) (Obj c) ?s1 = Some s2"
      unfolding s2 by (rule move_top) (use run top q lw in auto)
    have ne: "gen_empty (LeafOf w) s2 = Some False" using run top q by (simp add: gen_empty_def s2)
    have fr2: "gs_fr s2 h = gs_fr s h" if "h \<noteq> w" "h \<noteq> l" for h using that by (simp add: s2)
    have fv2: "fv s2 = (fv s)(w := map_option frame_view (Some (p\<lparr>gp_body := b\<rparr>)), l \<mapsto> (False, ConsumerOf (LeafOf w), cb))"
      using q lw by (simp add: fv_def fun_eq_iff frame_view_def s2)
    have lv2: "lv s2 = (lv s)(w \<mapsto> Some l)" using top by (simp add: lv_def fun_eq_iff s2)
    have w_fresh: "w \<notin> set (w' # vs')" "Some w \<noteq> x" "Some l \<noteq> x" "Some w' \<noteq> x" using dist run(5) l_in by (cases x; auto)+
    have lk2: "linked (fv s2) (lv s2) w' vs' (ConsumerOf (LeafOf w)) stk"
    proof -
      have "linked (fv s2) (lv s2) w' vs' k' stk
          = linked ((fv s)(l \<mapsto> (False, ConsumerOf (LeafOf w), cb))) (lv s) w' vs' k' stk" for k'
        by (rule linked_cong) (use w_fresh in \<open>auto simp: fv2 lv2\<close>)
      moreover have "distinct (w' # vs')" using dist run(5) by auto
      ultimately show ?thesis using linked_relink[OF lk' _ cb[unfolded l]] unfolding l by blast
    qed
    have pd2: "pend (fv s2) (lv s2) w' x"
      using pd w_fresh unfolding fv2 lv2 by (auto simp: pend_def split: option.splits)
    have "map_option gp_worker (gs_fr s2 l) = Some w'" using wk' q by (simp add: s2)
    note wk2 = this[unfolded l]
    have s2_w: "gs_fr s2 w = Some (p\<lparr>gp_body := b\<rparr>)" using lw by (simp add: s2)
    have s2_vs: "gs_fr s2 h = gs_fr s h" "gs_ob s2 (LeafOf h) = gs_ob s (LeafOf h)" if "h \<in> set vs" for h
      using that lw vs_w[OF that] by (auto simp: s2)
    have leaf2: "gs_ob s2 (LeafOf w) = Some k" by (simp add: s2)
    have dist2: "distinct ((case x of None \<Rightarrow> [] | Some l \<Rightarrow> [l]) @ w' # vs' @ w # vs)" using dist run(5) by simp
    from attach_running[OF adv(1,2)[OF s2_w s2_vs] leaf2 run(3) lk2 pd2 wk2 dist2] obtain s' where s': "attach_leaf_suspend w s2 = Some (w', s')" "gs_ob s' = gs_ob s2"
      "running s' a w' (vs' @ w # vs) x (stk @ b # rest)" "same_outside (set (w' # vs' @ w # vs)) s2 s'"
      by blast
    have "body_turn w s = Some (Again w', s')" unfolding turn using mv ne s'(1) by simp
    moreover have "same_outside (set (fs @ w # vs)) s s'"
      using s'(4) run(5) l_in by (auto simp: same_outside_def s2)
    ultimately show ?thesis using s' run g c(1) s2
      by (intro exI[of _ s'] exI[of _ w'] exI[of _ "vs' @ w # vs"] exI[of _ x]) auto
  qed
qed

section \<open>Simulation of a turn\<close>

definition top_of :: "('y, 'e) gen_store \<Rightarrow> addr \<Rightarrow> handle option" where
  "top_of s a = do { g \<leftarrow> gs_ob s (Obj a); gn_top g }"

definition cur_worker :: "('y, 'e) gen_store \<Rightarrow> addr \<Rightarrow> handle option" where
  "cur_worker s a = do { t \<leftarrow> top_of s a; p \<leftarrow> gs_fr s t; Some (gp_worker p) }"

lemma gen_ok_runI:
  assumes "gs_ob s (Obj a) = Some g" "gn_top g = Some (last (w # vs))" "running s a w vs x stk"
    "fs = (case x of None \<Rightarrow> [] | Some l \<Rightarrow> [l]) @ w # vs"
  shows "gen_ok s a (gn_result g) stk fs" "cur_worker s a = Some w" "top_of s a = Some (last (w # vs))"
proof -
  show "gen_ok s a (gn_result g) stk fs" unfolding gen_ok_def using assms by blast
  show t: "top_of s a = Some (last (w # vs))" using assms by (simp add: top_of_def)
  show "cur_worker s a = Some w" using assms(3) t unfolding cur_worker_def running_def by auto
qed

lemma same_outside_gen_ok:
  assumes "gen_ok s c r stk fs" "same_outside H s s'" "set fs \<inter> H = {}" "gs_ob s' (Obj c) = gs_ob s (Obj c)"
  shows "gen_ok s' c r stk fs"
  by (rule gen_ok_cong[OF assms(1,4)]) (use assms(2,3) in \<open>auto simp: same_outside_def\<close>)

lemma gen_rel_obj:
  assumes "gen_rel s A F" "A a = Some (r, stk)"
  shows "gen_ok s a r stk (F a)" "distinct (F a)"
  using assms unfolding gen_rel_def by (metis (mono_tags, lifting) case_prod_conv option.simps(5))+

lemma gen_rel_none:
  assumes "gen_rel s A F" "A a = None"
  shows "gs_ob s (Obj a) = None" "F a = []"
  using assms unfolding gen_rel_def by (metis (mono_tags, lifting) option.simps(4))+

lemma gen_rel_disjoint: "gen_rel s A F \<Longrightarrow> a \<noteq> b \<Longrightarrow> set (F a) \<inter> set (F b) = {}"
  unfolding gen_rel_def by blast

text \<open>Updating the objects of a set \<open>C\<close> whose frames change among themselves.\<close>

lemma gen_rel_upd:
  assumes rel: "gen_rel s A F"
    and new: "\<And>c. c \<in> C \<Longrightarrow> \<exists>r stk. A' c = Some (r, stk) \<and> gen_ok s' c r stk (F' c) \<and> distinct (F' c)"
    and old: "\<And>c. c \<notin> C \<Longrightarrow> A' c = A c \<and> F' c = F c \<and> gs_ob s' (Obj c) = gs_ob s (Obj c)"
    and out: "same_outside (\<Union>c\<in>C. set (F c)) s s'"
    and sub: "(\<Union>c\<in>C. set (F' c)) \<subseteq> (\<Union>c\<in>C. set (F c))"
    and dis: "\<And>c d. c \<in> C \<Longrightarrow> d \<in> C \<Longrightarrow> c \<noteq> d \<Longrightarrow> set (F' c) \<inter> set (F' d) = {}"
  shows "gen_rel s' A' F'"
  unfolding gen_rel_def
proof (intro conjI allI impI)
  fix c
  show "case A' c of None \<Rightarrow> gs_ob s' (Obj c) = None \<and> F' c = [] | Some (r, stk) \<Rightarrow> gen_ok s' c r stk (F' c)"
  proof (cases "c \<in> C")
    case True
    with new show ?thesis by force
  next
    case False
    note o = old[OF False]
    show ?thesis
    proof (cases "A c")
      case None
      with gen_rel_none[OF rel] o show ?thesis by simp
    next
      case (Some rs)
      obtain r stk where rs: "rs = (r, stk)" by (cases rs)
      have "set (F c) \<inter> set (F d) = {}" if "d \<in> C" for d
        by (rule gen_rel_disjoint[OF rel]) (use False that in auto)
      then have "set (F c) \<inter> (\<Union>c\<in>C. set (F c)) = {}" by (simp add: Int_UN_distrib)
      from same_outside_gen_ok[OF gen_rel_obj(1)[OF rel Some[unfolded rs]] out this] o Some rs
      show ?thesis by simp
    qed
  qed
  show "distinct (F' c)" using new[of c] old[of c] rel by (cases "c \<in> C") (auto simp: gen_rel_def)
next
  fix c d :: addr
  assume cd: "c \<noteq> d"
  have mix: "set (F' c) \<inter> set (F' d) = {}" if "c \<in> C" "d \<notin> C" for c d
  proof -
    have "set (F d) \<inter> set (F e) = {}" if "e \<in> C" for e
      by (rule gen_rel_disjoint[OF rel]) (use that \<open>d \<notin> C\<close> in auto)
    then have "set (F' d) \<inter> (\<Union>c\<in>C. set (F c)) = {}" using old[OF that(2)] by (simp add: Int_UN_distrib)
    with sub that(1) show ?thesis by fast
  qed
  show "set (F' c) \<inter> set (F' d) = {}"
  proof (cases "c \<in> C"; cases "d \<in> C")
    assume "c \<notin> C" "d \<notin> C"
    with gen_rel_disjoint[OF rel cd] old show ?thesis by simp
  next
    assume "c \<notin> C" "d \<in> C"
    with mix[of d c] show ?thesis by (simp add: Int_commute)
  qed (use mix dis cd in auto)
qed

fun turn_match :: "'e sturn \<Rightarrow> 'e turn \<Rightarrow> ('y, 'e) gen_store \<Rightarrow> addr \<Rightarrow> bool" where
  "turn_match SAgain t s a \<longleftrightarrow> (\<exists>z. t = Again z \<and> cur_worker s a = Some z)"
| "turn_match SBack t s a \<longleftrightarrow> t = Back"
| "turn_match (SExc e) t s a \<longleftrightarrow> t = Exc e"

lemma turn_sim:
  assumes rel: "gen_rel s A F" and st: "stack_turn a A = Some (o', A')" and cw: "cur_worker s a = Some w"
  shows "\<exists>t s' F'. gen_turn w s = Some (t, s') \<and> gen_rel s' A' F' \<and> turn_match o' t s' a \<and> top_of s' a = top_of s a"
proof -
  from st obtain r b rest where Aa: "A a = Some (r, b # rest)"
    by (auto simp: stack_turn_def split: option.splits list.splits)
  note ok = gen_rel_obj[OF rel Aa]
  from ok(1) obtain g w1 vs x where g: "gs_ob s (Obj a) = Some g" "gn_result g = r" "gn_top g = Some (last (w1 # vs))"
      and run: "running s a w1 vs x (b # rest)" and fs: "F a = (case x of None \<Rightarrow> [] | Some l \<Rightarrow> [l]) @ w1 # vs"
    by (cases rule: gen_ok_cases) auto
  from gen_ok_runI(2)[OF g(1,3) run refl] cw have w: "w1 = w" by simp
  note g = g[unfolded w] and run = run[unfolded w] and fs = fs[unfolded w]
  have top: "top_of s a = Some (last (w # vs))" using g by (simp add: top_of_def)
  from end_attach_ok[OF run] ok(2) fs obtain s1 where s1: "end_attach w s = Some s1" "running s1 a w vs None (b # rest)"
    "gs_ob s1 (LeafOf w) = None" "\<forall>c. gs_ob s1 (Obj c) = gs_ob s (Obj c)" "same_outside (set (F a)) s s1"
    by auto
  have dw: "distinct (w # vs)" "set (w # vs) \<subseteq> set (F a)" using ok(2) fs by auto
  have o: "owns s1 a g w vs (b # rest)" using s1 g dw by (simp add: owns_def)
  have turn: "gen_turn w s = body_turn w s1" using s1(1) by (simp add: gen_turn_def)
  text \<open>The object \<open>a\<close> alone changes.\<close>
  have one: "gen_rel s' (A(a \<mapsto> (r', stk'))) (F(a := fs'))"
    if "gen_ok s' a r' stk' fs'" "distinct fs'" "set fs' \<subseteq> set (w # vs)"
      "\<forall>c. c \<noteq> a \<longrightarrow> gs_ob s' (Obj c) = gs_ob s1 (Obj c)" "same_outside (set (w # vs)) s1 s'" for s' r' stk' fs'
  proof (rule gen_rel_upd[OF rel, where C = "{a}"])
    show "same_outside (\<Union>c\<in>{a}. set (F c)) s s'"
      using same_outside_trans[OF s1(5) that(5), of "set (F a)"] dw(2) by simp
  qed (use that s1(4) dw(2) in auto)
  show ?thesis
  proof (cases b)
    case Nil
    show ?thesis
    proof (cases vs)
      case Nil
      with turn_end_top[of s1 a g w b rest undefined undefined] o \<open>b = []\<close> obtain s' g' c where
        rest: "rest = []" and s': "body_turn w s1 = Some (Back, s')" "gs_ob s' (Obj a) = Some g'" "gn_top g' = Some w"
          "gn_result g' = None" "fv s' w = Some (True, ConsumerOf (Obj a), c)" "lv s' w = None"
          "\<forall>c. c \<noteq> a \<longrightarrow> gs_ob s' (Obj c) = gs_ob s1 (Obj c)" "same_outside {w} s1 s'" by auto
      have "gen_ok s' a None [] [w]" using s' by (auto simp: gen_ok_def)
      with one[of s' None "[]" "[w]"] s' Nil have "gen_rel s' (A(a \<mapsto> (None, []))) (F(a := [w]))" by simp
      with st Aa \<open>b = []\<close> rest turn s' top Nil show ?thesis
        by (auto simp: stack_turn_def top_of_def)
    next
      case (Cons v us)
      from turn_end_leaf[of s1 a g w v us b rest undefined undefined] o Cons \<open>b = []\<close> obtain s' g' where
        s': "body_turn w s1 = Some (Again v, s')" "gs_ob s' (Obj a) = Some g'" "gn_top g' = gn_top g" "gn_result g' = gn_result g"
          "running s' a v us (Some w) rest"
          "\<forall>c. c \<noteq> a \<longrightarrow> gs_ob s' (Obj c) = gs_ob s1 (Obj c)" "same_outside (set (w # vs)) s1 s'" by auto
      have tp: "gn_top g' = Some (last (v # us))" using s'(3) g(3) Cons by simp
      note R = gen_ok_runI[OF s'(2) tp s'(5) refl]
      have "gen_rel s' (A(a \<mapsto> (r, rest))) (F(a := w # v # us))"
        using one[of s' r rest "w # v # us"] R(1) s' g(2) dw(1) Cons by simp
      moreover have "stack_turn a A = Some (SAgain, A(a \<mapsto> (r, rest)))"
        using Aa \<open>b = []\<close> s'(5) linked_nonempty by (cases rest) (fastforce simp: stack_turn_def running_def)+
      ultimately show ?thesis using st turn s'(1) R(2,3) top Cons by auto
    qed
  next
    case (Cons act b')
    show ?thesis
    proof (cases act)
      case (Yield y)
      from turn_yield[of s1 a g w vs y b' rest] o Cons Yield obtain s' g' where
        s': "body_turn w s1 = Some (Back, s')" "owns s' a g' w vs (b' # rest)" "gn_result g' = Some y"
          "\<forall>c. c \<noteq> a \<longrightarrow> gs_ob s' (Obj c) = gs_ob s1 (Obj c)" "same_outside (set (w # vs)) s1 s'" by auto
      from s'(2) have "gs_ob s' (Obj a) = Some g'" "gn_top g' = Some (last (w # vs))" "running s' a w vs None (b' # rest)"
        by (simp_all add: owns_def)
      note R = gen_ok_runI[OF this refl]
      have "gen_rel s' (A(a \<mapsto> (Some y, b' # rest))) (F(a := w # vs))"
        using one[of s' "Some y" "b' # rest" "w # vs"] R(1) s' dw(1) by simp
      with st Aa Cons Yield turn s'(1) R(3) top show ?thesis by (auto simp: stack_turn_def)
    next
      case (Throw e)
      show ?thesis
      proof (cases vs)
        case Nil
        with turn_end_top[of s1 a g w b rest e b'] o Cons Throw obtain s' g' c where
          rest: "rest = []" and s': "body_turn w s1 = Some (Exc e, s')" "gs_ob s' (Obj a) = Some g'" "gn_top g' = Some w"
            "gn_result g' = None" "fv s' w = Some (True, ConsumerOf (Obj a), c)" "lv s' w = None"
            "\<forall>c. c \<noteq> a \<longrightarrow> gs_ob s' (Obj c) = gs_ob s1 (Obj c)" "same_outside {w} s1 s'" by auto
        have "gen_ok s' a None [] [w]" using s' by (auto simp: gen_ok_def)
        with one[of s' None "[]" "[w]"] s' Nil have "gen_rel s' (A(a \<mapsto> (None, []))) (F(a := [w]))" by simp
        with st Aa Cons Throw rest turn s' top Nil show ?thesis
          by (auto simp: stack_turn_def top_of_def)
      next
        case vs: (Cons v us)
        from turn_end_leaf[of s1 a g w v us b rest e b'] o vs Cons Throw obtain s' g' where
          s': "body_turn w s1 = Some (Exc e, s')" "gs_ob s' (Obj a) = Some g'" "gn_top g' = gn_top g" "gn_result g' = None"
            "running s' a v us (Some w) rest"
            "\<forall>c. c \<noteq> a \<longrightarrow> gs_ob s' (Obj c) = gs_ob s1 (Obj c)" "same_outside (set (w # vs)) s1 s'" by auto
        have tp: "gn_top g' = Some (last (v # us))" using s'(3) g(3) vs by simp
        note R = gen_ok_runI[OF s'(2) tp s'(5) refl]
        have "gen_rel s' (A(a \<mapsto> (None, rest))) (F(a := w # v # us))"
          using one[of s' None rest "w # v # us"] R(1) s' dw(1) vs by simp
        with st Aa Cons Throw turn s'(1) R(3) top vs show ?thesis by (auto simp: stack_turn_def)
      qed
    next
      case (ElementsOf c)
      with st Aa Cons obtain rc stk where c: "c \<noteq> a" "A c = Some (rc, stk)"
        "o' = SAgain" "A' = A(c \<mapsto> (None, []), a \<mapsto> (r, stk @ b' # rest))"
        by (auto simp: stack_turn_def split: if_splits option.splits)
      note okc = gen_rel_obj[OF rel c(2)]
      have dj: "set (F c) \<inter> set (F a) = {}" using gen_rel_disjoint[OF rel c(1)] .
      have "gen_ok s1 c rc stk (F c)" by (rule same_outside_gen_ok[OF okc(1) s1(5) dj]) (simp add: s1(4))
      moreover have "distinct (F c @ w # vs)" using okc(2) dw dj by auto
      ultimately obtain s' z ws y where s': "body_turn w s1 = Some (Again z, s')" "gs_ob s' (Obj a) = Some g"
        "last (z # ws) = last (w # vs)" "running s' a z ws y (stk @ b' # rest)"
        "(case y of None \<Rightarrow> [] | Some l \<Rightarrow> [l]) @ z # ws = F c @ w # vs" "gs_ob s' (Obj c) = Some generator_default"
        "\<forall>d. d \<noteq> a \<and> d \<noteq> c \<longrightarrow> gs_ob s' (Obj d) = gs_ob s1 (Obj d)" "same_outside (set (F c @ w # vs)) s1 s'"
        using turn_elements[of s1 a g w vs c b' rest rc stk "F c"] o Cons ElementsOf c(1) by blast
      have tp: "gn_top g = Some (last (z # ws))" using g(3) s'(3) by simp
      note R = gen_ok_runI[OF s'(2) tp s'(4) s'(5)[symmetric]]
      have out: "same_outside (\<Union>d\<in>{a, c}. set (F d)) s s'"
        by (rule same_outside_trans[OF s1(5) s'(8)]) (use dw(2) in auto)
      have "gen_rel s' A' (F(c := [], a := F c @ w # vs))"
      proof (rule gen_rel_upd[OF rel _ _ out])
        fix d assume "d \<in> {a, c}"
        then show "\<exists>r stk. A' d = Some (r, stk) \<and> gen_ok s' d r stk ((F(c := [], a := F c @ w # vs)) d)
            \<and> distinct ((F(c := [], a := F c @ w # vs)) d)"
          using c(1,4) R(1) g(2) s'(6) \<open>distinct (F c @ w # vs)\<close>
          by (auto simp: gen_ok_def generator_default_def)
      qed (use c s' s1(4) dw(2) in auto)
      with turn s'(1) R(2,3) top s'(3) c(3) show ?thesis by auto
    qed
  qed
qed

lemma run_sim:
  assumes "gen_rel s A F" "stack_run n a A = Some (o', A')" "cur_worker s a = Some w"
  shows "\<exists>t s' F'. gen_resume w s = Some (t, s') \<and> gen_rel s' A' F' \<and> turn_match o' t s' a \<and> o' \<noteq> SAgain
    \<and> top_of s' a = top_of s a"
  using assms
proof (induction n arbitrary: s A F w)
  case 0
  then show ?case by simp
next
  case (Suc n)
  from Suc.prems(2) obtain o1 A1 where st: "stack_turn a A = Some (o1, A1)"
    by (cases "stack_turn a A") auto
  from turn_sim[OF Suc.prems(1) st Suc.prems(3)] obtain t1 s1 F1 where
    t1: "gen_turn w s = Some (t1, s1)" "gen_rel s1 A1 F1" "turn_match o1 t1 s1 a" "top_of s1 a = top_of s a" by blast
  show ?case
  proof (cases o1)
    case SAgain
    with t1(3) obtain z where z: "t1 = Again z" "cur_worker s1 a = Some z" by auto
    from Suc.prems(2) st SAgain have "stack_run n a A1 = Some (o', A')" by simp
    from Suc.IH[OF t1(2) this z(2)] t1 z show ?thesis by (subst gen_resume.simps) auto
  next
    case SBack
    with Suc.prems(2) st have "o' = SBack" "A' = A1" by auto
    with t1 SBack show ?thesis by (subst gen_resume.simps) auto
  next
    case (SExc e)
    with Suc.prems(2) st have "o' = SExc e" "A' = A1" by auto
    with t1 SExc show ?thesis by (subst gen_resume.simps) auto
  qed
qed

text \<open>When an object is empty, and its current worker when it is not.\<close>

lemma gen_ok_empty:
  assumes "gen_ok s a r stk fs"
  shows "gen_empty (Obj a) s = Some (stk = [])"
  using assms
proof (cases rule: gen_ok_cases)
  case (run k w vs x)
  then have "linked (fv s) (lv s) w vs (ConsumerOf (Obj a)) stk" by (simp add: running_def)
  with linked_last[OF this] linked_nonempty[OF this] run(1,3) show ?thesis
    by (auto simp: gen_empty_def dest!: fv_SomeD)
qed (auto simp: gen_empty_def dest!: fv_SomeD)

lemma gen_ok_worker:
  assumes "gen_ok s a r stk fs" "stk \<noteq> []"
  obtains g t p where "gs_ob s (Obj a) = Some g" "gn_top g = Some t" "gs_fr s t = Some p"
    "cur_worker s a = Some (gp_worker p)" "top_of s a = Some t"
  using assms(1)
proof (cases rule: gen_ok_cases)
  case (run k w vs x)
  from gen_ok_runI(2,3)[OF run(1,3,4,5)] run(1,3,4) that show ?thesis by (auto simp: running_def)
qed (use assms(2) in auto)

lemma incr_sim:
  assumes rel: "gen_rel s A F" and a: "A a = Some (r, stk)" "stk \<noteq> []" and run: "stack_run n a A = Some (o', A')"
  shows "\<exists>t s' F'. gen_incr (Obj a) s = Some (t, s') \<and> gen_begin (Obj a) s = Some (t, s') \<and> gen_rel s' A' F'
    \<and> turn_match o' t s' a \<and> o' \<noteq> SAgain"
proof -
  note ok = gen_rel_obj(1)[OF rel a(1)]
  from gen_ok_worker[OF ok a(2)] obtain g t p where g: "gs_ob s (Obj a) = Some g" "gn_top g = Some t" "gs_fr s t = Some p"
    "cur_worker s a = Some (gp_worker p)" "top_of s a = Some t" .
  from run_sim[OF rel run g(4)] obtain t' s' F' where s': "gen_resume (gp_worker p) s = Some (t', s')" "gen_rel s' A' F'"
    "turn_match o' t' s' a" "o' \<noteq> SAgain" "top_of s' a = Some t" using g(5) by auto
  from s'(5) have "\<exists>g'. gs_ob s' (Obj a) = Some g' \<and> gn_top g' = Some t"
    by (auto simp: top_of_def split: bind_splits)
  with s' g gen_ok_empty[OF ok] a(2) have "gen_incr (Obj a) s = Some (t', s')" by (auto simp: gen_incr_def)
  with s' gen_ok_empty[OF ok] a(2) show ?thesis by (auto simp: gen_begin_def)
qed

section \<open>Every step returns\<close>

definition stack_size :: "('y, 'e) action list list \<Rightarrow> nat" where
  "stack_size stk = sum_list (map (\<lambda>b. Suc (length b)) stk)"

definition total_size :: "('y, 'e) stacks \<Rightarrow> nat" where
  "total_size A = (\<Sum>c\<in>dom A. stack_size (snd (the (A c))))"

text \<open>No body asks for the elements of the object that is iterated, or of one that does not exist.\<close>

definition body_refs :: "('y, 'e) action list \<Rightarrow> addr set" where
  "body_refs b = {g. ElementsOf g \<in> set b}"

definition refs :: "('y, 'e) action list list \<Rightarrow> addr set" where
  "refs stk = (\<Union>b\<in>set stk. body_refs b)"

definition refs_ok :: "addr \<Rightarrow> ('y, 'e) stacks \<Rightarrow> bool" where
  "refs_ok a A \<longleftrightarrow> (\<forall>c r stk. A c = Some (r, stk) \<longrightarrow> refs stk \<subseteq> dom A - {a})"

lemma refs_simps [simp]:
  "refs [] = {}" "refs (b # stk) = body_refs b \<union> refs stk" "refs (stk @ stk') = refs stk \<union> refs stk'"
  "body_refs [] = {}" "body_refs (act # b) = (case act of ElementsOf g \<Rightarrow> {g} | _ \<Rightarrow> {}) \<union> body_refs b"
  by (auto simp: refs_def body_refs_def split: action.splits)

lemma refs_okD: "refs_ok a A \<Longrightarrow> A c = Some (r, stk) \<Longrightarrow> refs stk \<subseteq> dom A - {a}"
  by (auto simp: refs_ok_def)

lemma refs_ok_upd:
  assumes "refs_ok a A" "A c = Some (r, stk)" "refs stk' \<subseteq> dom A - {a}"
  shows "refs_ok a (A(c \<mapsto> (r', stk')))"
proof -
  have d: "dom (A(c \<mapsto> (r', stk'))) = dom A" using assms(2) by auto
  show ?thesis unfolding refs_ok_def d
  proof (intro allI impI)
    fix e q st assume e: "(A(c \<mapsto> (r', stk'))) e = Some (q, st)"
    show "refs st \<subseteq> dom A - {a}"
    proof (cases "e = c")
      case True
      with e assms(3) show ?thesis by simp
    next
      case False
      with e refs_okD[OF assms(1)] show ?thesis by simp
    qed
  qed
qed

lemma total_size_upd:
  assumes "finite (dom A)" "A a = Some (r, stk)"
  shows "total_size (A(a \<mapsto> (r', stk'))) + stack_size stk = total_size A + stack_size stk'"
proof -
  have d: "dom (A(a \<mapsto> (r', stk'))) = dom A" "a \<in> dom A" using assms by auto
  have "(\<Sum>c\<in>dom A - {a}. stack_size (snd (the ((A(a \<mapsto> (r', stk'))) c))))
      = (\<Sum>c\<in>dom A - {a}. stack_size (snd (the (A c))))"
    by (rule sum.cong) auto
  with assms d show ?thesis unfolding total_size_def by (simp add: sum.remove[of "dom A" a])
qed

lemma stack_turn_total:
  assumes fin: "finite (dom A)" and rf: "refs_ok a A" and a: "A a = Some (r, b # rest)"
  shows "\<exists>o' A'. stack_turn a A = Some (o', A') \<and> dom A' = dom A \<and> refs_ok a A'
    \<and> (o' = SAgain \<longrightarrow> total_size A' < total_size A \<and> (\<exists>b' rest'. A' a = Some (r, b' # rest')))"
proof -
  from refs_okD[OF rf a] have R: "body_refs b \<subseteq> dom A - {a}" "refs rest \<subseteq> dom A - {a}" by simp_all
  have dm: "dom (A(a \<mapsto> v)) = dom A" for v using a by auto
  note upd = refs_ok_upd[OF rf a]
  show ?thesis
  proof (cases b)
    case Nil
    show ?thesis
    proof (cases rest)
      case (Cons b' rest')
      with Nil a have "stack_turn a A = Some (SAgain, A(a \<mapsto> (r, rest)))" by (simp add: stack_turn_def)
      moreover have "total_size (A(a \<mapsto> (r, rest))) < total_size A"
        using total_size_upd[OF fin a, of r rest] Nil by (simp add: stack_size_def)
      ultimately show ?thesis using Cons dm upd[OF R(2), of r] by auto
    next
      case rest: Nil
      with Nil a have "stack_turn a A = Some (SBack, A(a \<mapsto> (None, [])))" by (simp add: stack_turn_def)
      with dm upd[of "[]" None] show ?thesis by auto
    qed
  next
    case (Cons act b')
    with R have Rb: "body_refs b' \<subseteq> dom A - {a}" by auto
    show ?thesis
    proof (cases act)
      case (ElementsOf g)
      with R Cons have g: "g \<noteq> a" "A g \<noteq> None" by auto
      then obtain rg stk where Ag: "A g = Some (rg, stk)" by auto
      let ?A1 = "A(g \<mapsto> (None, []))"
      let ?A2 = "?A1(a \<mapsto> (r, stk @ b' # rest))"
      have st: "stack_turn a A = Some (SAgain, ?A2)" using a Cons ElementsOf g Ag by (simp add: stack_turn_def)
      have d1: "dom ?A1 = dom A" "?A1 a = Some (r, b # rest)" using Ag a g by auto
      have r1: "refs_ok a ?A1" by (rule refs_ok_upd[OF rf Ag]) simp
      have r2: "refs_ok a ?A2"
        by (rule refs_ok_upd[OF r1 d1(2)]) (unfold d1(1), use refs_okD[OF rf Ag] Rb R in simp)
      have d2: "dom ?A2 = dom A" using d1 by auto
      have "finite (dom ?A1)" using fin d1 by simp
      from total_size_upd[where A = ?A1, OF this d1(2), of r "stk @ b' # rest"] total_size_upd[OF fin Ag, of None "[]"] Cons
      have sz: "total_size ?A2 < total_size A" by (simp add: stack_size_def)
      have "\<exists>b'' rest'. stk @ b' # rest = b'' # rest'" by (cases stk) auto
      with st r2 d2 sz show ?thesis by auto
    next
      case (Yield y)
      with Cons a have "stack_turn a A = Some (SBack, A(a \<mapsto> (Some y, b' # rest)))" by (simp add: stack_turn_def)
      with dm upd[of "b' # rest" "Some y"] Rb R show ?thesis by auto
    next
      case (Throw e)
      with Cons a have "stack_turn a A = Some (SExc e, A(a \<mapsto> (None, rest)))" by (simp add: stack_turn_def)
      with dm upd[of rest None] R show ?thesis by auto
    qed
  qed
qed

lemma stack_run_total:
  assumes "finite (dom A)" "refs_ok a A" "A a = Some (r, b # rest)" "total_size A < n"
  shows "\<exists>o' A'. stack_run n a A = Some (o', A')"
  using assms
proof (induction n arbitrary: A b rest)
  case 0
  then show ?case by simp
next
  case (Suc n)
  from stack_turn_total[OF Suc.prems(1-3)] obtain o1 A1 where t: "stack_turn a A = Some (o1, A1)" "dom A1 = dom A"
    "refs_ok a A1" "o1 = SAgain \<longrightarrow> total_size A1 < total_size A \<and> (\<exists>b' rest'. A1 a = Some (r, b' # rest'))" by blast
  show ?case
  proof (cases o1)
    case SAgain
    with t obtain b' rest' where "total_size A1 < n" "A1 a = Some (r, b' # rest')" using Suc.prems(4) by auto
    with Suc.IH[of A1] t Suc.prems(1) SAgain show ?thesis by auto
  qed (use t in auto)
qed

section \<open>Destroying\<close>

definition kill :: "handle set \<Rightarrow> ('y, 'e) gen_store \<Rightarrow> ('y, 'e) gen_store" where
  "kill H s = s\<lparr>gs_fr := \<lambda>h. if h \<in> H then None else gs_fr s h,
     gs_ob := \<lambda>c. case c of LeafOf h \<Rightarrow> if h \<in> H then None else gs_ob s c | Obj a \<Rightarrow> gs_ob s c\<rparr>"

lemma linked_snoc:
  "linked F L w (vs @ [v]) k bs \<longleftrightarrow> (\<exists>bs' b. linked F L w vs (OwnerOf v) bs' \<and> L v = Some (Some (last (w # vs)))
     \<and> F v = Some (False, k, b) \<and> bs = bs' @ [b])"
  by (induction vs arbitrary: w bs) auto

lemma kill_step:
  assumes "s1 = kill H (s\<lparr>gs_ob := (gs_ob s)(LeafOf v \<mapsto> g)\<rparr>)" "v \<notin> H"
  shows "s1\<lparr>gs_ob := (gs_ob s1)(LeafOf v := None), gs_fr := (gs_fr s1)(v := None)\<rparr> = kill (insert v H) s"
  using assms by (auto simp: kill_def fun_eq_iff split: objref.split)

text \<open>Destroying the top of a chain destroys all of its frames, and the pending leaf.\<close>

lemma destroy_chain:
  assumes "linked (fv s) (lv s) w vs k bs" "pend (fv s) (lv s) w x"
    "distinct ((case x of None \<Rightarrow> [] | Some l \<Rightarrow> [l]) @ w # vs)"
  shows "destroy_frame (last (w # vs)) s = Some (kill (set ((case x of None \<Rightarrow> [] | Some l \<Rightarrow> [l]) @ w # vs)) s)"
  using assms
proof (induction vs arbitrary: s k bs rule: rev_induct)
  case Nil
  then have w: "gs_fr s w \<noteq> None" by (auto simp: fv_def)
  then obtain p where p: "gs_fr s w = Some p" by blast
  show ?case
  proof (cases x)
    case None
    with Nil p show ?thesis
      by (subst destroy_frame.simps)
        (auto simp: pend_def lv_def kill_def fun_eq_iff split: option.splits objref.split)
  next
    case (Some l)
    with Nil obtain g where g: "gs_ob s (LeafOf w) = Some g" "gn_top g = Some l" "gs_ob s (LeafOf l) = None" "l \<noteq> w"
      "gs_fr s l \<noteq> None"
      by (auto simp: pend_def lv_def fv_def)
    let ?s = "s\<lparr>gs_ob := (gs_ob s)(LeafOf w \<mapsto> g\<lparr>gn_top := None\<rparr>)\<rparr>"
    have "destroy_frame l ?s = Some (kill {l} ?s)"
      using g by (subst destroy_frame.simps) (auto simp: kill_def fun_eq_iff split: objref.split)
    with g p have "destroy_frame w s = Some (kill {w, l} s)"
      by (subst destroy_frame.simps) (simp add: kill_step)
    with Some show ?thesis by (simp add: insert_commute)
  qed
next
  case (snoc v vs)
  from snoc.prems(1) obtain bs' b where l: "linked (fv s) (lv s) w vs (OwnerOf v) bs'"
    "lv s v = Some (Some (last (w # vs)))" "fv s v = Some (False, k, b)" by (auto simp: linked_snoc)
  then obtain g where g: "gs_ob s (LeafOf v) = Some g" "gn_top g = Some (last (w # vs))" by (auto simp: lv_def)
  from l(3) obtain p where p: "gs_fr s v = Some p" by (auto dest: fv_SomeD)
  let ?H = "set ((case x of None \<Rightarrow> [] | Some l \<Rightarrow> [l]) @ w # vs)"
  have v: "v \<notin> ?H" using snoc.prems(3) by auto
  let ?s = "s\<lparr>gs_ob := (gs_ob s)(LeafOf v \<mapsto> g\<lparr>gn_top := None\<rparr>)\<rparr>"
  have "linked (fv ?s) (lv ?s) w vs (OwnerOf v) bs' = linked (fv s) (lv s) w vs (OwnerOf v) bs'"
    by (rule linked_cong) (use v in auto)
  with l(1) have lk: "linked (fv ?s) (lv ?s) w vs (OwnerOf v) bs'" by blast
  have pd: "pend (fv ?s) (lv ?s) w x" using snoc.prems(2) v by (auto simp: pend_def split: option.splits)
  have ds: "distinct ((case x of None \<Rightarrow> [] | Some l \<Rightarrow> [l]) @ w # vs)" using snoc.prems(3) by auto
  from snoc.IH[OF lk pd ds] have "destroy_frame (last (w # vs)) ?s = Some (kill ?H ?s)" .
  then have "destroy_frame v s = Some (kill (insert v ?H) s)"
    using g p kill_step[OF refl v] by (subst destroy_frame.simps) simp
  moreover have "insert v ?H = set ((case x of None \<Rightarrow> [] | Some l \<Rightarrow> [l]) @ w # vs @ [v])" by auto
  ultimately show ?case by simp
qed

lemma gen_clear_kills:
  assumes ok: "gen_ok s a r stk fs" and d: "distinct fs"
  obtains g where "gs_ob s (Obj a) = Some g" "gn_result g = r"
    "gen_clear (Obj a) s = Some (kill (set fs) (s\<lparr>gs_ob := (gs_ob s)(Obj a \<mapsto> g\<lparr>gn_top := None\<rparr>)\<rparr>))"
  using ok
proof (cases rule: gen_ok_cases)
  case (null k)
  then have "g\<lparr>gn_top := None\<rparr> = k" if "g = k" for g using that by (cases k) simp
  then have "s = kill {} (s\<lparr>gs_ob := (gs_ob s)(Obj a \<mapsto> k\<lparr>gn_top := None\<rparr>)\<rparr>)"
    using null by (auto simp: kill_def fun_eq_iff split: objref.split intro!: gen_store.equality)
  with null that[of k] show thesis by (simp add: gen_clear_def)
next
  case (fin k l b)
  let ?s = "s\<lparr>gs_ob := (gs_ob s)(Obj a \<mapsto> k\<lparr>gn_top := None\<rparr>)\<rparr>"
  have "destroy_frame l ?s = Some (kill {l} ?s)"
    using fin by (subst destroy_frame.simps)
      (auto simp: kill_def fun_eq_iff lv_def fv_def split: objref.split)
  with fin that[of k] show thesis by (simp add: gen_clear_def)
next
  case (run k w vs x)
  let ?s = "s\<lparr>gs_ob := (gs_ob s)(Obj a \<mapsto> k\<lparr>gn_top := None\<rparr>)\<rparr>"
  from run(4) have "linked (fv ?s) (lv ?s) w vs (ConsumerOf (Obj a)) stk" "pend (fv ?s) (lv ?s) w x"
    by (simp_all add: running_def)
  from destroy_chain[OF this] run d that[of k] show thesis by (simp add: gen_clear_def)
qed

section \<open>Making and moving generators\<close>

text \<open>An object that takes over the content of another one, with the consumer of its top set anew.\<close>

lemma gen_ok_rehome:
  assumes ok: "gen_ok s b r stk fs" and d: "distinct fs" and k: "gs_ob s (Obj b) = Some k" "gs_ob s' (Obj a) = Some k"
    and lf: "\<And>h. h \<in> set fs \<Longrightarrow> gs_ob s' (LeafOf h) = gs_ob s (LeafOf h)"
    and fr: "\<And>h. h \<in> set fs \<Longrightarrow> gn_top k \<noteq> Some h \<Longrightarrow> gs_fr s' h = gs_fr s h"
    and tp: "\<And>t. gn_top k = Some t \<Longrightarrow> gs_fr s' t = map_option (\<lambda>p. p\<lparr>gp_link := ConsumerOf (Obj a)\<rparr>) (gs_fr s t)"
  shows "gen_ok s' a r stk fs"
  using ok
proof (cases rule: gen_ok_cases)
  case (null k')
  with k show ?thesis by (simp add: gen_ok_def)
next
  case (fin k' l c)
  then have "gn_top k = Some l" using k by simp
  from tp[OF this] fin have "fv s' l = Some (True, ConsumerOf (Obj a), c)"
    by (auto simp: fv_def frame_view_def dest!: fv_SomeD)
  moreover have "lv s' l = None" using lf[of l] fin by (simp add: lv_def)
  ultimately show ?thesis using fin k by (auto simp: gen_ok_def)
next
  case (run k' w vs x)
  obtain t where t: "t = last (w # vs)" by blast
  have top: "gn_top k = Some t" using run k t by simp
  have t_in: "t \<in> set (w # vs)" unfolding t by (rule last_in_set) simp
  have ne: "gn_top k \<noteq> Some h" if "h \<noteq> t" for h using that top by auto
  from run(4) have lk: "linked (fv s) (lv s) w vs (ConsumerOf (Obj b)) stk" and pd: "pend (fv s) (lv s) w x"
    by (simp_all add: running_def)
  from linked_last[OF lk] obtain c where c: "fv s t = Some (False, ConsumerOf (Obj b), c)" unfolding t by blast
  then obtain q where q: "gs_fr s t = Some q" "gp_done q = False" "gp_body q = c" by (auto dest: fv_SomeD)
  have fvt: "fv s' t = Some (False, ConsumerOf (Obj a), c)" using tp[OF top] q by (simp add: fv_def frame_view_def)
  have view: "fv s' h = ((fv s)(t \<mapsto> (False, ConsumerOf (Obj a), c))) h" "lv s' h = lv s h" if "h \<in> set fs" for h
    using fvt fr[OF that ne] lf[OF that] by (auto simp: fv_def lv_def)
  have sub: "set (w # vs) \<subseteq> set fs" using run(5) by auto
  have "linked (fv s') (lv s') w vs k2 stk = linked ((fv s)(t \<mapsto> (False, ConsumerOf (Obj a), c))) (lv s) w vs k2 stk" for k2
  proof (rule linked_cong)
    show "fv s' h = ((fv s)(t \<mapsto> (False, ConsumerOf (Obj a), c))) h" if "h \<in> set (w # vs)" for h
      using view(1) sub that by blast
    show "lv s' h = lv s h" if "h \<in> set vs" for h using view(2) sub that by auto
  qed
  moreover have "linked ((fv s)(t \<mapsto> (False, ConsumerOf (Obj a), c))) (lv s) w vs (ConsumerOf (Obj a)) stk"
    unfolding t by (rule linked_relink[OF lk]) (use d run(5) c t in auto)
  moreover have "pend (fv s') (lv s') w x"
  proof (cases x)
    case None
    with pd view(2)[of w] sub show ?thesis by (simp add: pend_def)
  next
    case (Some l)
    with d run(5) t_in have "l \<noteq> t" by auto
    then have "fv s' l = fv s l" "lv s' l = lv s l" "lv s' w = lv s w"
      using view[of l] view(2)[of w] run(5) Some by auto
    with pd Some show ?thesis by (simp add: pend_def)
  qed
  moreover have "map_option gp_root (gs_fr s' h) = map_option gp_root (gs_fr s h)"
    "map_option gp_worker (gs_fr s' h) = map_option gp_worker (gs_fr s h)" if "h \<in> set fs" for h
    using fr[OF that ne] tp[OF top] by (cases "h = t"; simp add: option.map_comp comp_def)+
  moreover have "w \<in> set fs" "t \<in> set fs" using sub t_in by auto
  ultimately have "running s' a w vs x stk" using run(4) by (simp only: running_def t[symmetric])
  with run k show ?thesis unfolding gen_ok_def by auto
qed

lemma prepare_if_top_eq:
  assumes "gs_ob s c = Some k" "\<And>t. gn_top k = Some t \<Longrightarrow> gs_fr s t \<noteq> None"
  shows "prepare_if_top c s = Some (s\<lparr>gs_fr := \<lambda>h. if gn_top k = Some h
     then map_option (\<lambda>p. p\<lparr>gp_link := ConsumerOf c\<rparr>) (gs_fr s h) else gs_fr s h\<rparr>)"
  using assms by (cases "gn_top k") (auto simp: prepare_if_top_def prepare_to_start_def upd_frame_def fun_eq_iff)

lemma gen_ok_top: "gen_ok s a r stk fs \<Longrightarrow> gs_ob s (Obj a) = Some k \<Longrightarrow> gn_top k = Some t \<Longrightarrow> t \<in> set fs \<and> gs_fr s t \<noteq> None"
proof -
  assume ok: "gen_ok s a r stk fs" and k: "gs_ob s (Obj a) = Some k" "gn_top k = Some t"
  from ok show ?thesis
  proof (cases rule: gen_ok_cases)
    case (run k' w vs x)
    then have "linked (fv s) (lv s) w vs (ConsumerOf (Obj a)) stk" by (simp add: running_def)
    from linked_last[OF this] have "gs_fr s (last (w # vs)) \<noteq> None" by (auto simp: fv_def)
    moreover have "last (w # vs) \<in> set (w # vs)" by (rule last_in_set) simp
    moreover have "t = last (w # vs)" using run k by simp
    ultimately show ?thesis using run(5) by auto
  qed (use k in \<open>auto simp: fv_def\<close>)
qed

lemma gen_rel_swap:
  assumes rel: "gen_rel s A F" and ab: "a \<noteq> b" "A a = Some x" "A b = Some y"
  shows "\<exists>s'. gen_swap (Obj a) (Obj b) s = Some s' \<and> gen_rel s' (A(a \<mapsto> y, b \<mapsto> x)) (F(a := F b, b := F a))"
proof -
  obtain rx sx ry sy where xy: "x = (rx, sx)" "y = (ry, sy)" by (cases x; cases y)
  note oka = gen_rel_obj[OF rel ab(2)[unfolded xy]] and okb = gen_rel_obj[OF rel ab(3)[unfolded xy]]
  have dj: "set (F a) \<inter> set (F b) = {}" by (rule gen_rel_disjoint[OF rel ab(1)])
  from oka(1) obtain ga where ga: "gs_ob s (Obj a) = Some ga" by (auto simp: gen_ok_def)
  from okb(1) obtain gb where gb: "gs_ob s (Obj b) = Some gb" by (auto simp: gen_ok_def)
  note ta = gen_ok_top[OF oka(1) ga] and tb = gen_ok_top[OF okb(1) gb]
  let ?s0 = "s\<lparr>gs_ob := (gs_ob s)(Obj a \<mapsto> gb, Obj b \<mapsto> ga)\<rparr>"
  obtain s1 where s1: "s1 = ?s0\<lparr>gs_fr := \<lambda>h. if gn_top gb = Some h
     then map_option (\<lambda>p. p\<lparr>gp_link := ConsumerOf (Obj a)\<rparr>) (gs_fr ?s0 h) else gs_fr ?s0 h\<rparr>" by blast
  obtain s2 where s2: "s2 = s1\<lparr>gs_fr := \<lambda>h. if gn_top ga = Some h
     then map_option (\<lambda>p. p\<lparr>gp_link := ConsumerOf (Obj b)\<rparr>) (gs_fr s1 h) else gs_fr s1 h\<rparr>" by blast
  have "prepare_if_top (Obj a) ?s0 = Some s1"
    unfolding s1 by (rule prepare_if_top_eq) (use tb ab(1) in auto)
  moreover have "prepare_if_top (Obj b) s1 = Some s2"
    unfolding s2 by (rule prepare_if_top_eq) (use ta in \<open>auto simp: s1\<close>)
  ultimately have sw: "gen_swap (Obj a) (Obj b) s = Some s2" using ga gb by (simp add: gen_swap_def)
  have fr: "gs_fr s2 h = (if gn_top ga = Some h then map_option (\<lambda>p. p\<lparr>gp_link := ConsumerOf (Obj b)\<rparr>) (gs_fr s h)
      else if gn_top gb = Some h then map_option (\<lambda>p. p\<lparr>gp_link := ConsumerOf (Obj a)\<rparr>) (gs_fr s h) else gs_fr s h)" for h
    using ta[of h] tb[of h] dj by (auto simp: s2 s1)
  have ob: "gs_ob s2 (Obj a) = Some gb" "gs_ob s2 (Obj b) = Some ga" "gs_ob s2 (LeafOf h) = gs_ob s (LeafOf h)"
    "c \<noteq> a \<Longrightarrow> c \<noteq> b \<Longrightarrow> gs_ob s2 (Obj c) = gs_ob s (Obj c)" for h c
    using ab(1) by (simp_all add: s2 s1)
  have "gen_ok s2 a ry sy (F b)"
    by (rule gen_ok_rehome[OF okb gb ob(1)]) (use fr ob(3) ta tb dj in auto)
  moreover have "gen_ok s2 b rx sx (F a)"
    by (rule gen_ok_rehome[OF oka ga ob(2)]) (use fr ob(3) ta tb dj in auto)
  moreover have "same_outside (set (F a) \<union> set (F b)) s s2"
    using fr ob(3) ta tb by (auto simp: same_outside_def)
  ultimately have "gen_rel s2 (A(a \<mapsto> y, b \<mapsto> x)) (F(a := F b, b := F a))"
    by (intro gen_rel_upd[OF rel, where C = "{a, b}"]) (use ab xy oka(2) okb(2) dj ob(4) in auto)
  with sw show ?thesis by blast
qed

lemma gen_rel_create:
  assumes rel: "gen_rel s A F" and fresh: "A a = None" "gs_fr s h = None" "gs_ob s (LeafOf h) = None" "\<And>c. h \<notin> set (F c)"
  shows "\<exists>s'. gen_create h (Obj a) b s = Some s' \<and> gen_rel s' (A(a \<mapsto> (None, [b]))) (F(a := [h]))"
proof -
  let ?s = "s\<lparr>gs_fr := (gs_fr s)(h \<mapsto> generator_promise_init h (Obj a) b),
     gs_ob := (gs_ob s)(Obj a \<mapsto> generator_default\<lparr>gn_top := Some h\<rparr>)\<rparr>"
  have "gen_create h (Obj a) b s = Some ?s"
    by (simp add: gen_create_def prepare_to_start_def upd_frame_def generator_promise_init_def)
  moreover have "gen_rel ?s (A(a \<mapsto> (None, [b]))) (F(a := [h]))"
    unfolding gen_rel_def
  proof (intro conjI allI impI)
    fix c
    show "case (A(a \<mapsto> (None, [b]))) c of None \<Rightarrow> gs_ob ?s (Obj c) = None \<and> (F(a := [h])) c = []
      | Some (r, stk) \<Rightarrow> gen_ok ?s c r stk ((F(a := [h])) c)"
    proof (cases "c = a")
      case True
      have "running ?s a h [] None [b]"
        using fresh(3) by (simp add: running_def pend_def lv_def fv_def frame_view_def generator_promise_init_def)
      then show ?thesis using True by (auto simp: gen_ok_def generator_default_def intro!: exI[of _ h] exI[of _ "[]"] exI[of _ None])
    next
      case False
      show ?thesis
      proof (cases "A c")
        case None
        with gen_rel_none[OF rel] False show ?thesis by simp
      next
        case (Some rs)
        obtain r stk where rs: "rs = (r, stk)" by (cases rs)
        have "gen_ok ?s c r stk (F c)"
          by (rule gen_ok_cong[OF gen_rel_obj(1)[OF rel Some[unfolded rs]]]) (use False fresh(4)[of c] in auto)
        with False Some rs show ?thesis by simp
      qed
    qed
    show "distinct ((F(a := [h])) c)" using rel by (simp add: gen_rel_def)
  next
    fix c d :: addr
    assume "c \<noteq> d"
    with gen_rel_disjoint[OF rel this] fresh(4) show "set ((F(a := [h])) c) \<inter> set ((F(a := [h])) d) = {}" by auto
  qed
  ultimately show ?thesis by blast
qed

text \<open>The default constructor, and the move constructor, which swaps with such an object.\<close>

lemma gen_rel_default:
  assumes rel: "gen_rel s A F" and a: "A a = None"
  shows "gen_rel (s\<lparr>gs_ob := (gs_ob s)(Obj a \<mapsto> generator_default)\<rparr>) (A(a \<mapsto> (None, []))) F"
    (is "gen_rel ?s _ _")
  unfolding gen_rel_def
proof (intro conjI allI impI)
  fix c
  have Fa: "F a = []" using gen_rel_none[OF rel a] by simp
  show "case (A(a \<mapsto> (None, []))) c of None \<Rightarrow> gs_ob ?s (Obj c) = None \<and> F c = [] | Some (r, stk) \<Rightarrow> gen_ok ?s c r stk (F c)"
  proof (cases "c = a")
    case True
    then show ?thesis using Fa by (simp add: gen_ok_def generator_default_def)
  next
    case False
    show ?thesis
    proof (cases "A c")
      case None
      with gen_rel_none[OF rel] False show ?thesis by simp
    next
      case (Some rs)
      obtain r stk where rs: "rs = (r, stk)" by (cases rs)
      have "gen_ok ?s c r stk (F c)"
        by (rule gen_ok_cong[OF gen_rel_obj(1)[OF rel Some[unfolded rs]]]) (use False in auto)
      with False Some rs show ?thesis by simp
    qed
  qed
  show "distinct (F c)" using rel by (simp add: gen_rel_def)
  show "set (F c) \<inter> set (F d) = {}" if "c \<noteq> d" for d using gen_rel_disjoint[OF rel that] .
qed

lemma gen_rel_move:
  assumes rel: "gen_rel s A F" and a: "A a = None" and b: "A b = Some y"
  shows "\<exists>s'. gen_move_construct (Obj a) (Obj b) s = Some s' \<and> gen_rel s' (A(a \<mapsto> y, b \<mapsto> (None, []))) (F(a := F b, b := []))"
proof -
  have ab: "a \<noteq> b" using a b by auto
  have Fa: "F a = []" using gen_rel_none[OF rel a] by simp
  from gen_rel_swap[OF gen_rel_default[OF rel a] ab, of "(None, [])" y] ab b Fa show ?thesis
    by (simp add: gen_move_construct_def)
qed

lemma gen_rel_empty: "gen_rel \<lparr>gs_fr = Map.empty, gs_ob = Map.empty\<rparr> Map.empty (\<lambda>_. [])"
  by (simp add: gen_rel_def)

lemma gen_clear_owned:
  assumes "gen_rel s A F" and "A a = Some (r, stk)"
  shows "\<exists>s'. gen_clear (Obj a) s = Some s' \<and> gen_empty (Obj a) s' = Some True
    \<and> (\<forall>h\<in>set (F a). gs_fr s h \<noteq> None \<and> gs_fr s' h = None \<and> gs_ob s' (LeafOf h) = None)
    \<and> same_outside (set (F a)) s s' \<and> gen_rel s' (A(a \<mapsto> (r, []))) (F(a := []))"
proof -
  note ok = gen_rel_obj[OF assms]
  from gen_clear_kills[OF ok] obtain g where g: "gs_ob s (Obj a) = Some g" "gn_result g = r"
    "gen_clear (Obj a) s = Some (kill (set (F a)) (s\<lparr>gs_ob := (gs_ob s)(Obj a \<mapsto> g\<lparr>gn_top := None\<rparr>)\<rparr>))"
    (is "_ = Some ?s'") by blast
  have ob: "gs_ob ?s' (Obj c) = (if c = a then Some (g\<lparr>gn_top := None\<rparr>) else gs_ob s (Obj c))" for c
    by (simp add: kill_def)
  have out: "same_outside (set (F a)) s ?s'" by (simp add: same_outside_def kill_def)
  have "gen_rel ?s' (A(a \<mapsto> (r, []))) (F(a := []))"
    by (rule gen_rel_upd[OF assms(1), where C = "{a}"]) (use out ob g in \<open>auto simp: gen_ok_def\<close>)
  moreover have "gs_fr s h \<noteq> None" if "h \<in> set (F a)" for h
    using ok(1)
  proof (cases rule: gen_ok_cases)
    case (run k w vs x)
    then have "linked (fv s) (lv s) w vs (ConsumerOf (Obj a)) stk" "pend (fv s) (lv s) w x" by (simp_all add: running_def)
    with linked_alive[OF this(1), of h] that run(5) show ?thesis
      by (auto simp: fv_def pend_def split: option.splits)
  qed (use that in \<open>auto simp: fv_def\<close>)
  moreover have "gen_empty (Obj a) ?s' = Some True" using ob by (simp add: gen_empty_def)
  ultimately show ?thesis using g(3) out by (auto simp: kill_def)
qed

section \<open>Properties\<close>

lemma generator_next_sim:
  assumes "gen_rel s A F" and "finite (dom A)" and "refs_ok a A" and "A a = Some (r, b # rest)"
  shows "\<exists>t s' F' o' A'. stack_run (Suc (total_size A)) a A = Some (o', A')
    \<and> gen_incr (Obj a) s = Some (t, s') \<and> gen_begin (Obj a) s = Some (t, s')
    \<and> gen_rel s' A' F' \<and> turn_match o' t s' a \<and> o' \<noteq> SAgain
    \<and> gen_deref (Obj a) s' = fst (the (A' a)) \<and> at_end (Obj a) s' = Some (fst (the (A' a)) = None)"
proof -
  from stack_run_total[OF assms(2,3,4), of "Suc (total_size A)"] obtain o' A' where
    run: "stack_run (Suc (total_size A)) a A = Some (o', A')" by auto
  from incr_sim[OF assms(1,4) _ run] obtain t s' F' where sim: "gen_incr (Obj a) s = Some (t, s')"
    "gen_begin (Obj a) s = Some (t, s')" "gen_rel s' A' F'" "turn_match o' t s' a" "o' \<noteq> SAgain" by auto
  have "\<exists>g. gs_ob s' (Obj a) = Some g" using sim(1) by (auto simp: gen_incr_def split: bind_splits if_splits)
  then obtain g where g: "gs_ob s' (Obj a) = Some g" by blast
  have "A' a \<noteq> None" using gen_rel_none(1)[OF sim(3), of a] g by force
  then obtain r' stk' where a: "A' a = Some (r', stk')" by (cases "A' a") auto
  from gen_rel_obj(1)[OF sim(3) a] g have "gn_result g = r'" by (auto simp: gen_ok_def)
  with g a have "gen_deref (Obj a) s' = fst (the (A' a))" "at_end (Obj a) s' = Some (fst (the (A' a)) = None)"
    by (simp_all add: gen_deref_def at_end_def)
  with run sim show ?thesis by blast
qed

text \<open>
  C3. Iterating a generator is iterating a stack of bodies. In every well-formed store in which no
  body asks for its own elements, \<open>begin\<close> and \<open>++\<close> return, with no access to a dead frame or to the
  wrong member of the union: what they do to the pointers (attaching a leaf that may itself have been
  iterated already, skipping finished leafs up the chain, roots that are only updated lazily) is what
  the stack machine does: the elements of a nested generator come in place, at the end of a leaf its
  owner goes on, an exception leaves \<open>begin\<close> or \<open>++\<close> with just that leaf skipped, and the result shown
  afterwards is the yielded value, or null at the end. The store stays well-formed.
\<close>

theorem generator_next_refines:
  assumes "gen_rel s A F" and "finite (dom A)" and "refs_ok a A" and "A a = Some (r, b # rest)"
  shows "\<exists>t s' F' o' A'. stack_run (Suc (total_size A)) a A = Some (o', A')
    \<and> gen_incr (Obj a) s = Some (t, s') \<and> gen_begin (Obj a) s = Some (t, s')
    \<and> gen_rel s' A' F' \<and> turn_match o' t s' a \<and> o' \<noteq> SAgain
    \<and> gen_deref (Obj a) s' = fst (the (A' a)) \<and> at_end (Obj a) s' = Some (fst (the (A' a)) = None)"
  by (rule generator_next_sim[OF assms])

text \<open>
  \<open>clear\<close>, also as the destructor, destroys exactly the frames that a generator owns, each once: the
  whole chain from the top to the innermost leaf when it is abandoned in the middle of nested
  generators, and a finished leaf that is still in its owner. Everything else stays as it was and
  well-formed, and the generator is empty.
\<close>

theorem generator_clear_destroys_all:
  assumes "gen_rel s A F" and "A a = Some (r, stk)"
  shows "\<exists>s'. gen_clear (Obj a) s = Some s' \<and> gen_empty (Obj a) s' = Some True
    \<and> (\<forall>h\<in>set (F a). gs_fr s h \<noteq> None \<and> gs_fr s' h = None \<and> gs_ob s' (LeafOf h) = None)
    \<and> same_outside (set (F a)) s s' \<and> gen_rel s' (A(a \<mapsto> (r, []))) (F(a := []))"
  by (rule gen_clear_owned[OF assms])

text \<open>
  C36. Well-formed stores stay well-formed when generators are made and moved. An empty store is
  well-formed; a default-constructed generator is an object without coroutine; calling a generator function
  with a fresh frame adds an object with one body; \<open>swap\<close>, which is the move assignment, exchanges what two objects stand
  for, whatever state they are in, and the move constructor makes an object that stands for what the other one
  did and leaves that one empty: the consumer stored in the top of each is brought up to date, so iterating
  either of them afterwards reaches the right object.
\<close>

theorem generator_store_well_formed:
  assumes "gen_rel s A F"
  shows "gen_rel \<lparr>gs_fr = Map.empty, gs_ob = Map.empty\<rparr> (Map.empty :: ('y, 'e) stacks) (\<lambda>_. [])
    \<and> (\<forall>a. A a = None \<longrightarrow> gen_rel (s\<lparr>gs_ob := (gs_ob s)(Obj a \<mapsto> generator_default)\<rparr>) (A(a \<mapsto> (None, []))) F)
    \<and> (\<forall>a h b. A a = None \<and> gs_fr s h = None \<and> gs_ob s (LeafOf h) = None \<and> (\<forall>c. h \<notin> set (F c)) \<longrightarrow>
        (\<exists>s'. gen_create h (Obj a) b s = Some s' \<and> gen_rel s' (A(a \<mapsto> (None, [b]))) (F(a := [h]))))
    \<and> (\<forall>a b y. A a = None \<and> A b = Some y \<longrightarrow>
        (\<exists>s'. gen_move_construct (Obj a) (Obj b) s = Some s' \<and> gen_rel s' (A(a \<mapsto> y, b \<mapsto> (None, []))) (F(a := F b, b := []))))
    \<and> (\<forall>a b x y. a \<noteq> b \<and> A a = Some x \<and> A b = Some y \<longrightarrow>
        (\<exists>s'. gen_swap (Obj a) (Obj b) s = Some s' \<and> gen_rel s' (A(a \<mapsto> y, b \<mapsto> x)) (F(a := F b, b := F a))))"
  using gen_rel_empty gen_rel_default[OF assms] gen_rel_create[OF assms] gen_rel_move[OF assms] gen_rel_swap[OF assms] by blast

text \<open>
  \<open>clear\<close> does not reset the result that is shown: a generator that is cleared while it shows an
  element is empty, but its \<open>begin\<close> is not the end.
\<close>

lemma generator_clear_stale:
  assumes "gen_rel s A F" "A a = Some (r, stk)"
  shows "\<exists>s'. gen_clear (Obj a) s = Some s' \<and> gen_empty (Obj a) s' = Some True
    \<and> gen_begin (Obj a) s' = Some (Back, s') \<and> at_end (Obj a) s' = Some (r = None)"
proof -
  from gen_clear_kills[OF gen_rel_obj[OF assms]] obtain g where g: "gs_ob s (Obj a) = Some g" "gn_result g = r"
    "gen_clear (Obj a) s = Some (kill (set (F a)) (s\<lparr>gs_ob := (gs_ob s)(Obj a \<mapsto> g\<lparr>gn_top := None\<rparr>)\<rparr>))"
    (is "_ = Some ?s'") by blast
  have ob: "gs_ob ?s' (Obj a) = Some (g\<lparr>gn_top := None\<rparr>)" by (simp add: kill_def)
  with g show ?thesis by (simp add: gen_empty_def gen_begin_def at_end_def)
qed

section \<open>A concrete store\<close>

text \<open>
  Object 1 yields 5 and throws 6; object 0 yields 1, the elements of object 1, and 2.
\<close>

definition ex_empty :: "(nat, nat) gen_store" where
  "ex_empty = \<lparr>gs_fr = Map.empty, gs_ob = Map.empty\<rparr>"

definition ex_body0 :: "(nat, nat) action list" where
  "ex_body0 = [Yield 1, ElementsOf 1, Yield 2]"

definition ex_body1 :: "(nat, nat) action list" where
  "ex_body1 = [Yield 5, Throw 6]"

definition ex_stacks :: "(nat, nat) stacks" where
  "ex_stacks = [1 \<mapsto> (None, [ex_body1]), 0 \<mapsto> (None, [ex_body0])]"

lemma ex_store_eq:
  "\<exists>s. gen_rel s ex_stacks ((\<lambda>_. [])(1 := [10], 0 := [20]))
     \<and> gen_create 10 (Obj 1) ex_body1 ex_empty \<bind> gen_create 20 (Obj 0) ex_body0 = Some s"
proof -
  from gen_rel_create[OF gen_rel_empty, where a = 1 and h = 10 and b = ex_body1] obtain s1 where
    s1: "gen_rel s1 [1 \<mapsto> (None, [ex_body1])] ((\<lambda>_. [])(1 := [10]))" "gen_create 10 (Obj 1) ex_body1 ex_empty = Some s1"
    by (auto simp: ex_empty_def)
  from s1(2) have "gs_fr s1 20 = None" "gs_ob s1 (LeafOf 20) = None"
    by (auto simp: gen_create_def prepare_to_start_def upd_frame_def ex_empty_def)
  with gen_rel_create[OF s1(1), where a = 0 and h = 20 and b = ex_body0] s1(2) show ?thesis by (auto simp: ex_stacks_def)
qed

lemma ex_store: "\<exists>s. gen_rel s ex_stacks ((\<lambda>_. [])(1 := [10], 0 := [20]))"
  using ex_store_eq by blast

lemma ex_facts: "finite (dom ex_stacks)" "refs_ok 0 ex_stacks" "ex_stacks 0 = Some (None, ex_body0 # [])"
  by (auto simp: ex_stacks_def refs_ok_def ex_body0_def ex_body1_def split: if_splits)

lemma generator_next_refines_witness:
  "\<exists>s s' t. gen_rel s ex_stacks ((\<lambda>_. [])(1 := [10], 0 := [20])) \<and> gen_begin (Obj 0) s = Some (t, s')
     \<and> gen_deref (Obj 0) s' = Some 1"
proof -
  from ex_store obtain s where s: "gen_rel s ex_stacks ((\<lambda>_. [])(1 := [10], 0 := [20]))" by blast
  from generator_next_refines[OF s ex_facts] obtain t s' A' o' where n: "stack_run (Suc (total_size ex_stacks)) 0 ex_stacks = Some (o', A')"
    "gen_begin (Obj 0) s = Some (t, s')" "gen_deref (Obj 0) s' = fst (the (A' 0))" by blast
  from n(1) have "fst (the (A' 0)) = Some 1" by (auto simp: stack_turn_def ex_stacks_def ex_body0_def)
  with s n show ?thesis by auto
qed

lemma generator_clear_destroys_all_witness:
  "\<exists>s s'. gen_rel s ex_stacks ((\<lambda>_. [])(1 := [10], 0 := [20])) \<and> gen_clear (Obj 0) s = Some s' \<and> gs_fr s 20 \<noteq> None
     \<and> gs_fr s' 20 = None"
proof -
  from ex_store obtain s where s: "gen_rel s ex_stacks ((\<lambda>_. [])(1 := [10], 0 := [20]))" by blast
  from generator_clear_destroys_all[OF s ex_facts(3)] s show ?thesis by auto
qed

lemma generator_store_well_formed_witness:
  "\<exists>s s'. gen_rel s ex_stacks ((\<lambda>_. [])(1 := [10], 0 := [20])) \<and> gen_swap (Obj 0) (Obj 1) s = Some s'
     \<and> gen_rel s' (ex_stacks(0 \<mapsto> (None, [ex_body1]), 1 \<mapsto> (None, [ex_body0]))) ((\<lambda>_. [])(1 := [20], 0 := [10]))"
proof -
  from ex_store obtain s where s: "gen_rel s ex_stacks ((\<lambda>_. [])(1 := [10], 0 := [20]))" by blast
  have "ex_stacks 1 = Some (None, [ex_body1])" by (simp add: ex_stacks_def)
  then obtain s' where "gen_swap (Obj 0) (Obj 1) s = Some s'"
    "gen_rel s' (ex_stacks(0 \<mapsto> (None, [ex_body1]), 1 \<mapsto> (None, [ex_body0])))
       (((\<lambda>_. [])(1 := [10], 0 := [20]))(0 := [10], 1 := [20]))"
    using generator_store_well_formed[OF s, THEN conjunct2, THEN conjunct2, THEN conjunct2, THEN conjunct2, rule_format,
        of 0 1 "(None, [ex_body0])" "(None, [ex_body1])"] ex_facts(3)
    by (auto simp del: fun_upd_apply simp: fun_upd_same fun_upd_other)
  moreover have "((\<lambda>_. [])(1 := [10], 0 := [20]))(0 := [10], 1 := [20]) = ((\<lambda>_. [])(1 := [20], 0 := [10]) :: addr \<Rightarrow> handle list)"
    by (simp add: fun_eq_iff)
  ultimately show ?thesis using s by auto
qed

text \<open>
  \<open>reset\<close> does not prepare the generator that it takes over: its top still points to the object that it
  was released from, and what it yields appears there.
\<close>

lemma generator_reset_wrong_consumer:
  "do {
     s1 \<leftarrow> gen_create 10 (Obj 1) ex_body1 (ex_empty\<lparr>gs_ob := [Obj 0 \<mapsto> generator_default]\<rparr>);
     (h, s2) \<leftarrow> gen_release (Obj 1) s1;
     s3 \<leftarrow> gen_reset (Obj 0) h s2;
     (t, s4) \<leftarrow> gen_begin (Obj 0) s3;
     Some (at_end (Obj 0) s4, gen_deref (Obj 1) s4) } = Some (Some True, Some 5)"
  by (simp add: gen_create_def ex_empty_def generator_default_def prepare_to_start_def upd_frame_def
      generator_promise_init_def gen_release_def upd_obj_def gen_reset_def gen_clear_def gen_begin_def gen_empty_def
      gen_incr_def gen_resume.simps gen_turn_def body_turn_def end_attach_def ex_body1_def set_result_def at_end_def
      gen_deref_def)

end
