(* ===== verification/Channel.thy ===== *)
theory Channel
  imports Generator
begin

text \<open>
  \<open>channel.hpp\<close> with \<open>attach_leaf\<close> of \<open>noexport/generators_common.hpp\<close>: recursive generators that may
  suspend between their elements. The consumer is a coroutine: it awaits \<open>begin\<close>, \<open>next\<close> or \<open>++\<close>, which
  run the current worker, and a channel that yields, ends or fails resumes it through \<open>handle\<close>. The
  store is that of \<open>Generator\<close>, with the fields of a channel: undefined behaviour, a failed
  \<open>KELCORO_ASSUME\<close>, and \<open>std::terminate\<close> are \<open>None\<close>.
\<close>

section \<open>Promises, channels, bodies\<close>

text \<open>The steps of a body are those of a generator, or a suspension until the world resumes it.\<close>

datatype ('y, 'e) caction = CYield 'y | CThrow 'e | CElementsOf addr | CSuspend

record ('y, 'e) channel_promise =
  cp_root :: handle
  cp_worker :: handle
  cp_link :: link
  cp_body :: "('y, 'e) caction list"
  cp_done :: bool

record ('y, 'e) channel =
  ch_result :: "'y option"
  ch_handle :: "handle option"
  ch_top :: "handle option"
  ch_exception :: "'e option"

record ('y, 'e) chan_store =
  cs_fr :: "handle \<Rightarrow> ('y, 'e) channel_promise option"
  cs_ob :: "objref \<Rightarrow> ('y, 'e) channel option"

definition channel_default :: "('y, 'e) channel" where
  "channel_default = \<lparr>ch_result = None, ch_handle = None, ch_top = None, ch_exception = None\<rparr>"

text \<open>The union of a new promise is not initialised; \<open>c\<close> is what happens to be in it.\<close>

definition channel_promise_init :: "handle \<Rightarrow> objref \<Rightarrow> ('y, 'e) caction list \<Rightarrow> ('y, 'e) channel_promise" where
  "channel_promise_init h c b = \<lparr>cp_root = h, cp_worker = h, cp_link = ConsumerOf c, cp_body = b, cp_done = False\<rparr>"

definition upd_cframe :: "handle \<Rightarrow> (('y, 'e) channel_promise \<Rightarrow> ('y, 'e) channel_promise) \<Rightarrow>
    ('y, 'e) chan_store \<Rightarrow> ('y, 'e) chan_store option" where
  "upd_cframe h f s = do { p \<leftarrow> cs_fr s h; Some (s\<lparr>cs_fr := (cs_fr s)(h \<mapsto> f p)\<rparr>) }"

definition upd_chan :: "objref \<Rightarrow> (('y, 'e) channel \<Rightarrow> ('y, 'e) channel) \<Rightarrow>
    ('y, 'e) chan_store \<Rightarrow> ('y, 'e) chan_store option" where
  "upd_chan c f s = do { g \<leftarrow> cs_ob s c; Some (s\<lparr>cs_ob := (cs_ob s)(c \<mapsto> f g)\<rparr>) }"

text \<open>\<open>channel_promise::consumer\<close>, \<open>consumer_handle\<close>, \<open>set_result\<close>, \<open>exception\<close>, \<open>set_exception\<close>\<close>

definition chan_consumer :: "handle \<Rightarrow> ('y, 'e) chan_store \<Rightarrow> objref option" where
  "chan_consumer h s = do {
     p \<leftarrow> cs_fr s h;
     rp \<leftarrow> cs_fr s (cp_root p);
     case cp_link rp of ConsumerOf c \<Rightarrow> Some c | OwnerOf _ \<Rightarrow> None }"

definition consumer_handle :: "handle \<Rightarrow> ('y, 'e) chan_store \<Rightarrow> handle option" where
  "consumer_handle h s = do { c \<leftarrow> chan_consumer h s; g \<leftarrow> cs_ob s c; ch_handle g }"

definition chan_set_result :: "handle \<Rightarrow> 'y option \<Rightarrow> ('y, 'e) chan_store \<Rightarrow> ('y, 'e) chan_store option" where
  "chan_set_result h v s = do { c \<leftarrow> chan_consumer h s; upd_chan c (\<lambda>g. g\<lparr>ch_result := v\<rparr>) s }"

definition chan_exception :: "handle \<Rightarrow> ('y, 'e) chan_store \<Rightarrow> 'e option option" where
  "chan_exception h s = do { c \<leftarrow> chan_consumer h s; g \<leftarrow> cs_ob s c; Some (ch_exception g) }"

definition chan_set_exception :: "handle \<Rightarrow> 'e option \<Rightarrow> ('y, 'e) chan_store \<Rightarrow> ('y, 'e) chan_store option" where
  "chan_set_exception h e s = do { c \<leftarrow> chan_consumer h s; upd_chan c (\<lambda>g. g\<lparr>ch_exception := e\<rparr>) s }"

text \<open>\<open>channel_promise::skip_this_leaf\<close>; also gives the owner.\<close>

definition chan_skip_leaf :: "handle \<Rightarrow> ('y, 'e) chan_store \<Rightarrow> (handle \<times> ('y, 'e) chan_store) option" where
  "chan_skip_leaf h s = do {
     p \<leftarrow> cs_fr s h;
     if cp_root p = h then None
     else (case cp_link p of
         ConsumerOf _ \<Rightarrow> None
       | OwnerOf w \<Rightarrow>
           if w = h then None
           else do {
             s1 \<leftarrow> upd_cframe w (\<lambda>q. q\<lparr>cp_root := cp_root p\<rparr>) s;
             s2 \<leftarrow> upd_cframe (cp_root p) (\<lambda>q. q\<lparr>cp_worker := w\<rparr>) s1;
             Some (w, s2) }) }"

section \<open>The channel object\<close>

definition chan_swap :: "objref \<Rightarrow> objref \<Rightarrow> ('y, 'e) chan_store \<Rightarrow> ('y, 'e) chan_store option" where
  "chan_swap c d s = do {
     g \<leftarrow> cs_ob s c;
     k \<leftarrow> cs_ob s d;
     Some (s\<lparr>cs_ob := (cs_ob s)(c \<mapsto> k, d \<mapsto> g)\<rparr>) }"

definition chan_move_construct :: "objref \<Rightarrow> objref \<Rightarrow> ('y, 'e) chan_store \<Rightarrow> ('y, 'e) chan_store option" where
  "chan_move_construct c other s = chan_swap c other (s\<lparr>cs_ob := (cs_ob s)(c \<mapsto> channel_default)\<rparr>)"

definition chan_create :: "handle \<Rightarrow> objref \<Rightarrow> objref \<Rightarrow> ('y, 'e) caction list \<Rightarrow> ('y, 'e) chan_store \<Rightarrow> ('y, 'e) chan_store" where
  "chan_create h c junk b s = s\<lparr>cs_fr := (cs_fr s)(h \<mapsto> channel_promise_init h junk b),
     cs_ob := (cs_ob s)(c \<mapsto> channel_default\<lparr>ch_top := Some h\<rparr>)\<rparr>"

definition chan_empty :: "objref \<Rightarrow> ('y, 'e) chan_store \<Rightarrow> bool option" where
  "chan_empty c s = do {
     g \<leftarrow> cs_ob s c;
     case ch_top g of None \<Rightarrow> Some True | Some t \<Rightarrow> do { p \<leftarrow> cs_fr s t; Some (cp_done p) } }"

partial_function (option) chan_destroy :: "handle \<Rightarrow> ('y, 'e) chan_store \<Rightarrow> ('y, 'e) chan_store option" where
  "chan_destroy h s = do {
     _ \<leftarrow> cs_fr s h;
     s1 \<leftarrow> (case cs_ob s (LeafOf h) of
         None \<Rightarrow> Some s
       | Some g \<Rightarrow> (case ch_top g of
           None \<Rightarrow> Some s
         | Some t \<Rightarrow> chan_destroy t (s\<lparr>cs_ob := (cs_ob s)(LeafOf h \<mapsto> g\<lparr>ch_top := None\<rparr>)\<rparr>)));
     Some (s1\<lparr>cs_ob := (cs_ob s1)(LeafOf h := None), cs_fr := (cs_fr s1)(h := None)\<rparr>) }"

definition chan_clear :: "objref \<Rightarrow> ('y, 'e) chan_store \<Rightarrow> ('y, 'e) chan_store option" where
  "chan_clear c s = do {
     g \<leftarrow> cs_ob s c;
     case ch_top g of
       None \<Rightarrow> Some s
     | Some t \<Rightarrow> chan_destroy t (s\<lparr>cs_ob := (cs_ob s)(c \<mapsto> g\<lparr>ch_top := None\<rparr>)\<rparr>) }"

definition chan_dtor :: "objref \<Rightarrow> ('y, 'e) chan_store \<Rightarrow> ('y, 'e) chan_store option" where
  "chan_dtor c s = do { s1 \<leftarrow> chan_clear c s; Some (s1\<lparr>cs_ob := (cs_ob s1)(c := None)\<rparr>) }"

definition chan_release :: "objref \<Rightarrow> ('y, 'e) chan_store \<Rightarrow> (handle option \<times> ('y, 'e) chan_store) option" where
  "chan_release c s = do { g \<leftarrow> cs_ob s c; s' \<leftarrow> upd_chan c (\<lambda>g. g\<lparr>ch_top := None\<rparr>) s; Some (ch_top g, s') }"

definition chan_reset :: "objref \<Rightarrow> handle option \<Rightarrow> ('y, 'e) chan_store \<Rightarrow> ('y, 'e) chan_store option" where
  "chan_reset c h s = do { s1 \<leftarrow> chan_clear c s; upd_chan c (\<lambda>g. g\<lparr>ch_top := h\<rparr>) s1 }"

definition chan_take_exception :: "objref \<Rightarrow> ('y, 'e) chan_store \<Rightarrow> ('e option \<times> ('y, 'e) chan_store) option" where
  "chan_take_exception c s = do {
     g \<leftarrow> cs_ob s c; s' \<leftarrow> upd_chan c (\<lambda>g. g\<lparr>ch_exception := None\<rparr>) s; Some (ch_exception g, s') }"

text \<open>The destructor of \<open>channel_scope_guard\<close>: what it throws, if it does.\<close>

definition channel_scope_guard_dtor :: "objref \<Rightarrow> ('y, 'e) chan_store \<Rightarrow> ('e option \<times> ('y, 'e) chan_store) option" where
  "channel_scope_guard_dtor c s = do {
     g \<leftarrow> cs_ob s c;
     if ch_exception g \<noteq> None then chan_take_exception c s else Some (None, s) }"

section \<open>Running\<close>

text \<open>Who runs after a turn: a coroutine of the channel, the consumer, or what the world resumes.\<close>

datatype cturn = CAgain handle | CBack handle | CPark handle

definition chan_attach_suspend :: "handle \<Rightarrow> ('y, 'e) chan_store \<Rightarrow> (handle \<times> ('y, 'e) chan_store) option" where
  "chan_attach_suspend owner s = do {
     leaf \<leftarrow> cs_ob s (LeafOf owner);
     t \<leftarrow> ch_top leaf;
     if owner = t then None
     else do {
       leaf_p \<leftarrow> cs_fr s t;
       owner_p \<leftarrow> cs_fr s owner;
       s1 \<leftarrow> upd_cframe (cp_worker leaf_p) (\<lambda>p. p\<lparr>cp_root := cp_root owner_p\<rparr>) s;
       s2 \<leftarrow> upd_cframe t (\<lambda>p. p\<lparr>cp_link := OwnerOf owner\<rparr>) s1;
       s3 \<leftarrow> upd_cframe (cp_root owner_p) (\<lambda>p. p\<lparr>cp_worker := cp_worker leaf_p\<rparr>) s2;
       Some (cp_worker leaf_p, s3) } }"

definition chan_final_suspend :: "handle \<Rightarrow> ('y, 'e) chan_store \<Rightarrow> (cturn \<times> ('y, 'e) chan_store) option" where
  "chan_final_suspend h s = do {
     p \<leftarrow> cs_fr s h;
     if cp_root p \<noteq> h
     then do { (w, s1) \<leftarrow> chan_skip_leaf h s; Some (CAgain w, s1) }
     else do { s1 \<leftarrow> chan_set_result h None s; k \<leftarrow> consumer_handle h s1; Some (CBack k, s1) } }"

definition chan_unhandled_exception :: "'e \<Rightarrow> handle \<Rightarrow> ('y, 'e) chan_store \<Rightarrow> ('y, 'e) chan_store option" where
  "chan_unhandled_exception e h s = do {
     pending \<leftarrow> chan_exception h s;
     if pending \<noteq> None then None
     else do {
       p \<leftarrow> cs_fr s h;
       s1 \<leftarrow> (if cp_root p \<noteq> h then map_option snd (chan_skip_leaf h s) else Some s);
       s2 \<leftarrow> chan_set_exception h (Some e) s1;
       c \<leftarrow> chan_consumer h s2;
       s3 \<leftarrow> upd_cframe h (\<lambda>p. p\<lparr>cp_link := ConsumerOf c\<rparr>) s2;
       upd_cframe h (\<lambda>p. p\<lparr>cp_root := h\<rparr>) s3 } }"

definition chan_end_attach :: "handle \<Rightarrow> ('y, 'e) chan_store \<Rightarrow> ('y, 'e) chan_store option" where
  "chan_end_attach h s = (if cs_ob s (LeafOf h) = None then Some s else chan_dtor (LeafOf h) s)"

definition chan_body_turn :: "handle \<Rightarrow> ('y, 'e) chan_store \<Rightarrow> (cturn \<times> ('y, 'e) chan_store) option" where
  "chan_body_turn h s = do {
     p \<leftarrow> cs_fr s h;
     if cp_done p then None
     else (case cp_body p of
       [] \<Rightarrow> do { s1 \<leftarrow> upd_cframe h (\<lambda>p. p\<lparr>cp_done := True\<rparr>) s; chan_final_suspend h s1 }
     | CYield y # r \<Rightarrow> do {
         s1 \<leftarrow> upd_cframe h (\<lambda>p. p\<lparr>cp_body := r\<rparr>) s;
         s2 \<leftarrow> chan_set_result h (Some y) s1;
         k \<leftarrow> consumer_handle h s2;
         Some (CBack k, s2) }
     | CThrow e # r \<Rightarrow> do {
         s1 \<leftarrow> upd_cframe h (\<lambda>p. p\<lparr>cp_done := True\<rparr>) s;
         s2 \<leftarrow> chan_unhandled_exception e h s1;
         chan_final_suspend h s2 }
     | CSuspend # r \<Rightarrow> do { s1 \<leftarrow> upd_cframe h (\<lambda>p. p\<lparr>cp_body := r\<rparr>) s; Some (CPark h, s1) }
     | CElementsOf g # r \<Rightarrow> do {
         s1 \<leftarrow> upd_cframe h (\<lambda>p. p\<lparr>cp_body := r\<rparr>) s;
         s2 \<leftarrow> chan_move_construct (LeafOf h) (Obj g) s1;
         ready \<leftarrow> chan_empty (LeafOf h) s2;
         if ready then Some (CAgain h, s2)
         else do { (w, s3) \<leftarrow> chan_attach_suspend h s2; Some (CAgain w, s3) } }) }"

definition chan_turn :: "handle \<Rightarrow> ('y, 'e) chan_store \<Rightarrow> (cturn \<times> ('y, 'e) chan_store) option" where
  "chan_turn h s = do { s1 \<leftarrow> chan_end_attach h s; chan_body_turn h s1 }"

text \<open>Turns until the consumer runs again, in a world that resumes every coroutine that is parked.\<close>

partial_function (option) chan_resume :: "handle \<Rightarrow> ('y, 'e) chan_store \<Rightarrow> (handle \<times> ('y, 'e) chan_store) option" where
  "chan_resume h s = do {
     (t, s1) \<leftarrow> chan_turn h s;
     case t of CAgain w \<Rightarrow> chan_resume w s1 | CPark w \<Rightarrow> chan_resume w s1 | CBack k \<Rightarrow> Some (k, s1) }"

text \<open>
  \<open>channel_iterator::operator++\<close>, and \<open>begin\<close> and \<open>next\<close>, awaited by the coroutine \<open>k\<close>, until it goes on:
  the result is the coroutine that does.
\<close>

definition chan_incr :: "objref \<Rightarrow> ('y, 'e) chan_store \<Rightarrow> (handle \<times> ('y, 'e) chan_store) option" where
  "chan_incr c s = do {
     empty \<leftarrow> chan_empty c s;
     if empty then None
     else do { g \<leftarrow> cs_ob s c; t \<leftarrow> ch_top g; p \<leftarrow> cs_fr s t; chan_resume (cp_worker p) s } }"

definition starter_await_suspend :: "handle \<Rightarrow> objref \<Rightarrow> ('y, 'e) chan_store \<Rightarrow> (handle \<times> ('y, 'e) chan_store) option" where
  "starter_await_suspend k c s = do {
     s1 \<leftarrow> upd_chan c (\<lambda>g. g\<lparr>ch_handle := Some k\<rparr>) s;
     g \<leftarrow> cs_ob s1 c;
     t \<leftarrow> ch_top g;
     s2 \<leftarrow> upd_cframe t (\<lambda>p. p\<lparr>cp_link := ConsumerOf c\<rparr>) s1;
     p \<leftarrow> cs_fr s2 t;
     Some (cp_worker p, s2) }"

definition chan_begin :: "handle \<Rightarrow> objref \<Rightarrow> ('y, 'e) chan_store \<Rightarrow> (handle \<times> ('y, 'e) chan_store) option" where
  "chan_begin k c s = do {
     empty \<leftarrow> chan_empty c s;
     if empty then Some (k, s)
     else do { (w, s1) \<leftarrow> starter_await_suspend k c s; chan_resume w s1 } }"

definition chan_next :: "handle \<Rightarrow> objref \<Rightarrow> ('y, 'e) chan_store \<Rightarrow> (handle \<times> 'y option \<times> ('y, 'e) chan_store) option" where
  "chan_next k c s = do { (k', s1) \<leftarrow> chan_begin k c s; g \<leftarrow> cs_ob s1 c; Some (k', ch_result g, s1) }"

definition chan_at_end :: "objref \<Rightarrow> ('y, 'e) chan_store \<Rightarrow> bool option" where
  "chan_at_end c s = do { g \<leftarrow> cs_ob s c; Some (ch_result g = None) }"

definition chan_deref :: "objref \<Rightarrow> ('y, 'e) chan_store \<Rightarrow> 'y option" where
  "chan_deref c s = do { g \<leftarrow> cs_ob s c; ch_result g }"

section \<open>Exchanging channels that are being iterated\<close>

text \<open>
  \<open>swap\<close> does not change the \<open>_consumer\<close> of the coroutines, and \<open>++\<close> does not set it again: after the
  exchange of two channels that have been started, incrementing the iterator of the first writes the
  next element (2, of the coroutine that came from the second) to the second channel, and the first
  still shows 10.
\<close>

lemma chan_swap_then_incr:
  "do {
     s1 \<leftarrow> Some (chan_create 1 (Obj 0) (Obj 0) [CYield 1, CYield 3 :: (nat, nat) caction] \<lparr>cs_fr = Map.empty, cs_ob = Map.empty\<rparr>);
     s2 \<leftarrow> Some (chan_create 2 (Obj 1) (Obj 1) [CYield 10, CYield 2] s1);
     (_, s3) \<leftarrow> chan_begin 7 (Obj 0) s2;
     (_, s4) \<leftarrow> chan_begin 7 (Obj 1) s3;
     s5 \<leftarrow> chan_swap (Obj 0) (Obj 1) s4;
     (_, s6) \<leftarrow> chan_incr (Obj 0) s5;
     Some (chan_deref (Obj 0) s6, chan_deref (Obj 1) s6) } = Some (Some 10, Some 2)"
  by (simp add: chan_create_def channel_promise_init_def channel_default_def chan_begin_def chan_empty_def
      starter_await_suspend_def upd_chan_def upd_cframe_def chan_resume.simps chan_turn_def chan_end_attach_def
      chan_body_turn_def chan_set_result_def chan_consumer_def consumer_handle_def chan_swap_def chan_incr_def
      chan_deref_def)

end
