(* ===== verification/Channel_Refinement.thy ===== *)
theory Channel_Refinement
  imports Channel Generator_Refinement
begin

text \<open>
  The channels of \<open>Channel\<close> do what the generators of \<open>Generator\<close> do, but for suspensions, which the
  world resumes, and exceptions, which are kept in the channel instead of leaving the coroutine. With
  the refinement of generators, iterating a channel is iterating a stack of bodies.
\<close>

section \<open>The simulation relation\<close>

primrec act_of :: "('y, 'e) caction \<Rightarrow> ('y, 'e) action list" where
  "act_of (CYield y) = [Yield y]"
| "act_of (CThrow e) = [Throw e]"
| "act_of (CElementsOf g) = [ElementsOf g]"
| "act_of CSuspend = []"

definition erase :: "('y, 'e) caction list \<Rightarrow> ('y, 'e) action list" where
  "erase b = concat (map act_of b)"

text \<open>
  \<open>T\<close>: frames whose \<open>_consumer\<close> is up to date, which is only needed in the top of the channel that is
  iterated. The root and the union of a coroutine that is done may differ, since a leaf that fails
  makes itself a root.
\<close>

definition frame_rel :: "handle set \<Rightarrow> handle \<Rightarrow> ('y, 'e) channel_promise \<Rightarrow> ('y, 'e) generator_promise \<Rightarrow> bool" where
  "frame_rel T h p q \<longleftrightarrow> cp_worker p = gp_worker q \<and> cp_done p = gp_done q \<and> erase (cp_body p) = gp_body q
     \<and> (\<not> gp_done q \<longrightarrow> cp_root p = gp_root q
          \<and> (cp_link p = gp_link q \<or> h \<notin> T \<and> (\<exists>k. gp_link q = ConsumerOf k)))"

definition gen_view :: "('y, 'e) channel \<Rightarrow> 'y generator" where
  "gen_view g = \<lparr>gn_result = ch_result g, gn_top = ch_top g\<rparr>"

lemma gen_view_simps [simp]: "gn_result (gen_view g) = ch_result g" "gn_top (gen_view g) = ch_top g"
  by (simp_all add: gen_view_def)

definition store_rel :: "handle set \<Rightarrow> ('y, 'e) chan_store \<Rightarrow> ('y, 'e) gen_store \<Rightarrow> bool" where
  "store_rel T c s \<longleftrightarrow> (\<forall>x. gs_ob s x = map_option gen_view (cs_ob c x))
     \<and> (\<forall>h. rel_option (frame_rel T h) (cs_fr c h) (gs_fr s h))"

lemma store_rel_ob: "store_rel T c s \<Longrightarrow> gs_ob s x = map_option gen_view (cs_ob c x)"
  by (simp add: store_rel_def)

lemma store_rel_fr: "store_rel T c s \<Longrightarrow> rel_option (frame_rel T h) (cs_fr c h) (gs_fr s h)"
  by (simp add: store_rel_def)

lemma store_rel_frD:
  assumes "store_rel T c s" "gs_fr s h = Some q"
  obtains p where "cs_fr c h = Some p" "frame_rel T h p q"
  using store_rel_fr[OF assms(1), of h] assms(2) by (auto simp: option_rel_Some2)

lemma store_rel_obD:
  assumes "store_rel T c s" "gs_ob s x = Some g"
  obtains k where "cs_ob c x = Some k" "g = gen_view k"
  using that store_rel_ob[OF assms(1), of x] assms(2) by (cases "cs_ob c x") auto

lemma store_rel_upd_frame:
  assumes "store_rel T c s" "gs_fr s h = Some q" "frame_rel T h p' q'"
  shows "store_rel T (c\<lparr>cs_fr := (cs_fr c)(h \<mapsto> p')\<rparr>) (s\<lparr>gs_fr := (gs_fr s)(h \<mapsto> q')\<rparr>)"
  using assms by (simp add: store_rel_def)

lemma store_rel_upd_ob:
  assumes "store_rel T c s" "v = map_option gen_view k"
  shows "store_rel T (c\<lparr>cs_ob := (cs_ob c)(x := k)\<rparr>) (s\<lparr>gs_ob := (gs_ob s)(x := v)\<rparr>)"
  using assms by (simp add: store_rel_def)

lemma store_rel_del_frame:
  assumes "store_rel T c s"
  shows "store_rel T (c\<lparr>cs_fr := (cs_fr c)(h := None)\<rparr>) (s\<lparr>gs_fr := (gs_fr s)(h := None)\<rparr>)"
  using assms by (simp add: store_rel_def)

text \<open>Updates of a frame that keep the relation.\<close>

lemma upd_frame_sim:
  assumes "store_rel T c s" "upd_frame h f s = Some s1" "\<And>p q. frame_rel T h p q \<Longrightarrow> frame_rel T h (f' p) (f q)"
  obtains p q c1 where "upd_cframe h f' c = Some c1" "c1 = c\<lparr>cs_fr := (cs_fr c)(h \<mapsto> f' p)\<rparr>" "cs_fr c h = Some p"
    "gs_fr s h = Some q" "s1 = s\<lparr>gs_fr := (gs_fr s)(h \<mapsto> f q)\<rparr>" "frame_rel T h p q" "store_rel T c1 s1"
proof -
  from assms(2) obtain q where q: "gs_fr s h = Some q" "s1 = s\<lparr>gs_fr := (gs_fr s)(h \<mapsto> f q)\<rparr>"
    by (auto simp: upd_frame_def split: bind_splits)
  from store_rel_frD[OF assms(1) q(1)] obtain p where p: "cs_fr c h = Some p" "frame_rel T h p q" .
  show thesis
    by (rule that[OF _ refl p(1) q p(2)])
      (use p q assms(3)[OF p(2)] store_rel_upd_frame[OF assms(1) q(1)] in \<open>auto simp: upd_cframe_def\<close>)
qed

lemma frame_rel_root: "frame_rel T h p q \<Longrightarrow> frame_rel T h (p\<lparr>cp_root := r\<rparr>) (q\<lparr>gp_root := r\<rparr>)"
  by (auto simp: frame_rel_def)

lemma frame_rel_worker: "frame_rel T h p q \<Longrightarrow> frame_rel T h (p\<lparr>cp_worker := w\<rparr>) (q\<lparr>gp_worker := w\<rparr>)"
  by (auto simp: frame_rel_def)

lemma frame_rel_link: "frame_rel T h p q \<Longrightarrow> frame_rel T h (p\<lparr>cp_link := k\<rparr>) (q\<lparr>gp_link := k\<rparr>)"
  by (auto simp: frame_rel_def)

lemma frame_rel_done: "frame_rel T h p q \<Longrightarrow> frame_rel T h (p\<lparr>cp_done := True\<rparr>) (q\<lparr>gp_done := True\<rparr>)"
  by (auto simp: frame_rel_def)

lemma frame_rel_body:
  "frame_rel T h p q \<Longrightarrow> erase b = b' \<Longrightarrow> frame_rel T h (p\<lparr>cp_body := b\<rparr>) (q\<lparr>gp_body := b'\<rparr>)"
  by (auto simp: frame_rel_def)

section \<open>Skipping, results, destruction\<close>

text \<open>The frame \<open>h\<close> is the same on both sides, whether it is done or not.\<close>

definition exact :: "('y, 'e) chan_store \<Rightarrow> ('y, 'e) gen_store \<Rightarrow> handle \<Rightarrow> bool" where
  "exact c s h \<longleftrightarrow> (\<exists>p q. cs_fr c h = Some p \<and> gs_fr s h = Some q \<and> cp_root p = gp_root q \<and> cp_link p = gp_link q)"

text \<open>The handle and the exception of the channel that is iterated.\<close>

definition chan_keep :: "addr \<Rightarrow> ('y, 'e) chan_store \<Rightarrow> (handle option \<times> 'e option) option" where
  "chan_keep a c = map_option (\<lambda>g. (ch_handle g, ch_exception g)) (cs_ob c (Obj a))"

lemma skip_sim:
  assumes rel: "store_rel T c s" and ex: "exact c s h" and skip: "skip_this_leaf h s = Some (w, s2)"
  obtains c2 where "chan_skip_leaf h c = Some (w, c2)" "store_rel T c2 s2" "cs_ob c2 = cs_ob c"
    "cs_fr c2 h = cs_fr c h" "gs_fr s2 h = gs_fr s h"
    "\<forall>x. map_option cp_link (cs_fr c2 x) = map_option cp_link (cs_fr c x)"
    "\<forall>x. map_option gp_link (gs_fr s2 x) = map_option gp_link (gs_fr s x)"
proof -
  from ex obtain p q where p: "cs_fr c h = Some p" "gs_fr s h = Some q" "cp_root p = gp_root q" "cp_link p = gp_link q"
    by (auto simp: exact_def)
  from skip p(2) obtain s1 where k: "gp_root q \<noteq> h" "gp_link q = OwnerOf w" "w \<noteq> h"
    and s: "upd_frame w (\<lambda>u. u\<lparr>gp_root := gp_root q\<rparr>) s = Some s1"
      "upd_frame (gp_root q) (\<lambda>u. u\<lparr>gp_worker := w\<rparr>) s1 = Some s2"
    by (auto simp: skip_this_leaf_def split: bind_splits if_splits link.splits)
  from upd_frame_sim[where f' = "\<lambda>p. p\<lparr>cp_root := gp_root q\<rparr>", OF rel s(1) frame_rel_root] obtain pw c1 where
    1: "upd_cframe w (\<lambda>p. p\<lparr>cp_root := gp_root q\<rparr>) c = Some c1" "store_rel T c1 s1"
      "c1 = c\<lparr>cs_fr := (cs_fr c)(w \<mapsto> pw\<lparr>cp_root := gp_root q\<rparr>)\<rparr>" "cs_fr c w = Some pw" by blast
  from upd_frame_sim[where f' = "\<lambda>p. p\<lparr>cp_worker := w\<rparr>", OF 1(2) s(2) frame_rel_worker] obtain pr c2 where
    2: "upd_cframe (gp_root q) (\<lambda>p. p\<lparr>cp_worker := w\<rparr>) c1 = Some c2" "store_rel T c2 s2"
      "c2 = c1\<lparr>cs_fr := (cs_fr c1)(gp_root q \<mapsto> pr\<lparr>cp_worker := w\<rparr>)\<rparr>" "cs_fr c1 (gp_root q) = Some pr" by blast
  have "\<forall>x. map_option cp_link (cs_fr c2 x) = map_option cp_link (cs_fr c x)"
    using 1(3,4) 2(3,4) by auto
  moreover have "\<forall>x. map_option gp_link (gs_fr s2 x) = map_option gp_link (gs_fr s x)"
    using s by (auto simp: upd_frame_def split: bind_splits)
  moreover have "gs_fr s2 h = gs_fr s h" using s k by (auto simp: upd_frame_def split: bind_splits)
  moreover have "chan_skip_leaf h c = Some (w, c2)"
    using 1(1) 2(1) p k by (simp add: chan_skip_leaf_def)
  ultimately show thesis
    using that 1(3) 2(2,3) k by simp
qed

text \<open>The root \<open>t\<close> of \<open>h\<close> points to the object \<open>a\<close>, on both sides.\<close>

definition consumed :: "('y, 'e) chan_store \<Rightarrow> ('y, 'e) gen_store \<Rightarrow> handle \<Rightarrow> addr \<Rightarrow> bool" where
  "consumed c s h a \<longleftrightarrow> (\<exists>p q. cs_fr c h = Some p \<and> gs_fr s h = Some q \<and> cp_root p = gp_root q)
     \<and> chan_consumer h c = Some (Obj a)
     \<and> (\<exists>q rq. gs_fr s h = Some q \<and> gs_fr s (gp_root q) = Some rq \<and> gp_link rq = ConsumerOf (Obj a))"

lemma set_result_sim:
  assumes rel: "store_rel T c s" and con: "consumed c s h a" and res: "set_result h v s = Some s1"
  obtains g where "cs_ob c (Obj a) = Some g"
    "chan_set_result h v c = Some (c\<lparr>cs_ob := (cs_ob c)(Obj a \<mapsto> g\<lparr>ch_result := v\<rparr>)\<rparr>)"
    "store_rel T (c\<lparr>cs_ob := (cs_ob c)(Obj a \<mapsto> g\<lparr>ch_result := v\<rparr>)\<rparr>) s1"
    "s1 = s\<lparr>gs_ob := (gs_ob s)(Obj a \<mapsto> (gen_view g)\<lparr>gn_result := v\<rparr>)\<rparr>"
proof -
  from con res obtain k where k: "gs_ob s (Obj a) = Some k" "s1 = s\<lparr>gs_ob := (gs_ob s)(Obj a \<mapsto> k\<lparr>gn_result := v\<rparr>)\<rparr>"
    by (auto simp: consumed_def set_result_def upd_obj_def split: bind_splits)
  from store_rel_obD[OF rel k(1)] obtain g where g: "cs_ob c (Obj a) = Some g" "k = gen_view g" .
  have "store_rel T (c\<lparr>cs_ob := (cs_ob c)(Obj a \<mapsto> g\<lparr>ch_result := v\<rparr>)\<rparr>) s1"
    unfolding k(2) g(2) by (rule store_rel_upd_ob[OF rel]) (simp add: gen_view_def)
  then show thesis
    using that[OF g(1)] con g k by (simp add: consumed_def chan_set_result_def upd_chan_def)
qed

lemma destroy_sim:
  assumes "destroy_frame h s = Some s1" and "store_rel T c s"
  shows "\<exists>c1. chan_destroy h c = Some c1 \<and> store_rel T c1 s1 \<and> (\<forall>x. cs_ob c1 (Obj x) = cs_ob c (Obj x))"
  using assms(2)
proof (induction arbitrary: c rule: destroy_frame.raw_induct[rotated, OF assms(1)])
  case (1 destroy_frame h s s1)
  from 1(2) obtain q where q: "gs_fr s h = Some q" by (cases "gs_fr s h") auto
  from store_rel_frD[OF 1(3) this] obtain p where p: "cs_fr c h = Some p" by blast
  have step: "\<exists>c1. chan_destroy h c = Some c1 \<and> store_rel T c1 s1 \<and> (\<forall>x. cs_ob c1 (Obj x) = cs_ob c (Obj x))"
    if "store_rel T c' s'" "\<forall>x. cs_ob c' (Obj x) = cs_ob c (Obj x)"
      "chan_destroy h c = Some (c'\<lparr>cs_ob := (cs_ob c')(LeafOf h := None), cs_fr := (cs_fr c')(h := None)\<rparr>)"
      "s1 = s'\<lparr>gs_ob := (gs_ob s')(LeafOf h := None), gs_fr := (gs_fr s')(h := None)\<rparr>" for c' s'
  proof -
    have "store_rel T (c'\<lparr>cs_ob := (cs_ob c')(LeafOf h := None), cs_fr := (cs_fr c')(h := None)\<rparr>) s1"
      using store_rel_del_frame[OF store_rel_upd_ob[OF that(1), of None None "LeafOf h"], of h] by (simp add: that(4))
    then show ?thesis using that(2,3) by simp
  qed
  show ?case
  proof (cases "gs_ob s (LeafOf h)")
    case None
    moreover from this have "cs_ob c (LeafOf h) = None" using store_rel_ob[OF 1(3)] by simp
    ultimately show ?thesis using step[of c s] 1(2,3) q p by (simp add: chan_destroy.simps)
  next
    case (Some g)
    from store_rel_obD[OF 1(3) this] obtain k where k: "cs_ob c (LeafOf h) = Some k" "g = gen_view k" .
    show ?thesis
    proof (cases "ch_top k")
      case None
      then show ?thesis using step[of c s] 1(2,3) q p Some k by (simp add: chan_destroy.simps)
    next
      case t: (Some t)
      let ?s = "s\<lparr>gs_ob := (gs_ob s)(LeafOf h \<mapsto> g\<lparr>gn_top := None\<rparr>)\<rparr>"
      let ?c = "c\<lparr>cs_ob := (cs_ob c)(LeafOf h \<mapsto> k\<lparr>ch_top := None\<rparr>)\<rparr>"
      from 1(2) q Some t k(2) obtain s' where s': "destroy_frame t ?s = Some s'"
        "s1 = s'\<lparr>gs_ob := (gs_ob s')(LeafOf h := None), gs_fr := (gs_fr s')(h := None)\<rparr>"
        by (auto split: bind_splits)
      have "store_rel T ?c ?s" by (rule store_rel_upd_ob[OF 1(3)]) (simp add: k(2) gen_view_def)
      from 1(1)[OF s'(1) this] obtain c' where c': "chan_destroy t ?c = Some c'" "store_rel T c' s'"
        "\<forall>x. cs_ob c' (Obj x) = cs_ob c (Obj x)" by auto
      show ?thesis
        using step[OF c'(2,3) _ s'(2)] c'(1) p k(1) t by (simp add: chan_destroy.simps[of h])
    qed
  qed
qed

lemma clear_sim:
  assumes rel: "store_rel T c s" and cl: "gen_clear x s = Some s1"
  shows "\<exists>c1. chan_clear x c = Some c1 \<and> store_rel T c1 s1 \<and> (\<forall>y. x \<noteq> Obj y \<longrightarrow> cs_ob c1 (Obj y) = cs_ob c (Obj y))"
proof -
  from cl obtain g where g: "gs_ob s x = Some g" by (auto simp: gen_clear_def split: bind_splits)
  from store_rel_obD[OF rel g] obtain k where k: "cs_ob c x = Some k" "g = gen_view k" .
  show ?thesis
  proof (cases "ch_top k")
    case None
    then show ?thesis using rel cl g k by (simp add: gen_clear_def chan_clear_def)
  next
    case (Some t)
    let ?s = "s\<lparr>gs_ob := (gs_ob s)(x \<mapsto> g\<lparr>gn_top := None\<rparr>)\<rparr>" and ?c = "c\<lparr>cs_ob := (cs_ob c)(x \<mapsto> k\<lparr>ch_top := None\<rparr>)\<rparr>"
    from cl g k(2) Some have "destroy_frame t ?s = Some s1" by (simp add: gen_clear_def)
    moreover have "store_rel T ?c ?s" by (rule store_rel_upd_ob[OF rel]) (simp add: k(2) gen_view_def)
    ultimately obtain c' where "chan_destroy t ?c = Some c'" "store_rel T c' s1" "\<forall>y. cs_ob c' (Obj y) = cs_ob ?c (Obj y)"
      using destroy_sim by blast
    then show ?thesis using k(1) Some by (auto simp: chan_clear_def)
  qed
qed

lemma end_attach_sim:
  assumes rel: "store_rel T c s" and ea: "end_attach h s = Some s1"
  shows "\<exists>c1. chan_end_attach h c = Some c1 \<and> store_rel T c1 s1 \<and> (\<forall>x. cs_ob c1 (Obj x) = cs_ob c (Obj x))"
proof (cases "gs_ob s (LeafOf h)")
  case None
  then have "cs_ob c (LeafOf h) = None" using store_rel_ob[OF rel] by simp
  with None ea rel show ?thesis by (simp add: end_attach_def chan_end_attach_def)
next
  case (Some g)
  then have "cs_ob c (LeafOf h) \<noteq> None" using store_rel_ob[OF rel, of "LeafOf h"] by auto
  moreover from ea Some obtain s' where s': "gen_clear (LeafOf h) s = Some s'" "s1 = s'\<lparr>gs_ob := (gs_ob s')(LeafOf h := None)\<rparr>"
    by (auto simp: end_attach_def gen_dtor_def split: bind_splits)
  moreover from clear_sim[OF rel s'(1)] obtain c' where "chan_clear (LeafOf h) c = Some c'" "store_rel T c' s'"
    "\<forall>y. cs_ob c' (Obj y) = cs_ob c (Obj y)" by auto
  moreover from this(2) have "store_rel T (c'\<lparr>cs_ob := (cs_ob c')(LeafOf h := None)\<rparr>) s1"
    unfolding s'(2) by (rule store_rel_upd_ob) simp
  ultimately show ?thesis by (auto simp: chan_end_attach_def chan_dtor_def)
qed

section \<open>Turns\<close>

text \<open>What a turn of the current worker \<open>w\<close> relies on; \<open>t\<close> is the top of the object \<open>a\<close>.\<close>

definition ready_turn :: "('y, 'e) gen_store \<Rightarrow> addr \<Rightarrow> handle \<Rightarrow> handle \<Rightarrow> bool" where
  "ready_turn s a w t \<longleftrightarrow> (\<exists>p rq. gs_fr s w = Some p \<and> \<not> gp_done p \<and> gp_root p = t
     \<and> gs_fr s t = Some rq \<and> \<not> gp_done rq \<and> gp_link rq = ConsumerOf (Obj a)
     \<and> (\<forall>g r. gp_body p = ElementsOf g # r \<longrightarrow> g \<noteq> a \<and> (\<forall>k. gs_ob s (Obj g) = Some k \<longrightarrow> gn_top k \<noteq> Some t)))"

text \<open>A worker stays as it is for its last turn, but for being done.\<close>

lemma ready_turnD:
  assumes rel: "store_rel {t} c s" and ready: "ready_turn s a w t" and p: "cs_fr c w = Some p"
  obtains q where "gs_fr s w = Some q" "cp_root p = t" "gp_root q = t"
    "\<not> gp_done q" "\<not> cp_done p" "erase (cp_body p) = gp_body q" "frame_rel {t} w p q"
    "(\<exists>rp. cs_fr c t = Some rp \<and> cp_link rp = ConsumerOf (Obj a))"
    "(\<exists>rq. gs_fr s t = Some rq \<and> gp_link rq = ConsumerOf (Obj a))"
proof -
  from ready obtain q rq where q: "gs_fr s w = Some q" "\<not> gp_done q" "gp_root q = t" "gs_fr s t = Some rq"
    "\<not> gp_done rq" "gp_link rq = ConsumerOf (Obj a)" by (auto simp: ready_turn_def)
  with store_rel_frD[OF rel q(1)] p have fr: "frame_rel {t} w p q" by auto
  from store_rel_frD[OF rel q(4)] obtain rp where "cs_fr c t = Some rp" "frame_rel {t} t rp rq" .
  with q(5,6) have "\<exists>rp. cs_fr c t = Some rp \<and> cp_link rp = ConsumerOf (Obj a)" by (simp add: frame_rel_def)
  with that fr q show thesis by (auto simp: frame_rel_def)
qed

definition keeps :: "addr \<Rightarrow> handle \<Rightarrow> 'e option \<Rightarrow> ('y, 'e) chan_store \<Rightarrow> bool" where
  "keeps a k e c \<longleftrightarrow> (\<exists>g. cs_ob c (Obj a) = Some g \<and> ch_handle g = Some k \<and> ch_exception g = e)"

lemma consumer_handle_keeps:
  "chan_consumer h c = Some (Obj a) \<Longrightarrow> keeps a k e c \<Longrightarrow> consumer_handle h c = Some k"
  by (auto simp: consumer_handle_def keeps_def)

lemma chan_consumer_ob [simp]: "chan_consumer h (c\<lparr>cs_ob := ob\<rparr>) = chan_consumer h c"
  by (simp add: chan_consumer_def)

lemma turn_yield_sim:
  assumes rel: "store_rel {t} c s" and ready: "ready_turn s a w t" and keep: "keeps a k None c"
    and body: "cs_fr c w = Some p" "cp_body p = CYield y # r" and turn: "body_turn w s = Some (tn, s')"
  shows "\<exists>c'. tn = Back \<and> chan_body_turn w c = Some (CBack k, c') \<and> store_rel {t} c' s' \<and> keeps a k None c'"
proof -
  from ready_turnD[OF rel ready body(1)] obtain q where q: "gs_fr s w = Some q" "cp_root p = t" "gp_root q = t"
    "\<not> gp_done q" "\<not> cp_done p" "erase (cp_body p) = gp_body q" "frame_rel {t} w p q"
    "\<exists>rp. cs_fr c t = Some rp \<and> cp_link rp = ConsumerOf (Obj a)"
    "\<exists>rq. gs_fr s t = Some rq \<and> gp_link rq = ConsumerOf (Obj a)" .
  have gb: "gp_body q = Yield y # erase r" using q(6) body(2) by (simp add: erase_def)
  let ?s1 = "s\<lparr>gs_fr := (gs_fr s)(w \<mapsto> q\<lparr>gp_body := erase r\<rparr>)\<rparr>"
  let ?c1 = "c\<lparr>cs_fr := (cs_fr c)(w \<mapsto> p\<lparr>cp_body := r\<rparr>)\<rparr>"
  from turn q(1,4) gb have res: "set_result w (Some y) ?s1 = Some s'" and tn: "tn = Back"
    by (auto simp: body_turn_def upd_frame_def split: bind_splits)
  have rel1: "store_rel {t} ?c1 ?s1"
    by (rule store_rel_upd_frame[OF rel q(1) frame_rel_body[OF q(7)]]) simp
  have con: "consumed ?c1 ?s1 w a"
    using q(2,3,8,9) body(1) q(1) by (auto simp: consumed_def chan_consumer_def)
  from set_result_sim[OF rel1 con res] obtain g where g: "cs_ob c (Obj a) = Some g"
    "chan_set_result w (Some y) ?c1 = Some (?c1\<lparr>cs_ob := (cs_ob c)(Obj a \<mapsto> g\<lparr>ch_result := Some y\<rparr>)\<rparr>)"
    "store_rel {t} (?c1\<lparr>cs_ob := (cs_ob c)(Obj a \<mapsto> g\<lparr>ch_result := Some y\<rparr>)\<rparr>) s'" by auto
  let ?c2 = "?c1\<lparr>cs_ob := (cs_ob c)(Obj a \<mapsto> g\<lparr>ch_result := Some y\<rparr>)\<rparr>"
  have "keeps a k None ?c2" using keep g(1) by (simp add: keeps_def)
  moreover have "chan_consumer w ?c1 = Some (Obj a)" using con by (simp add: consumed_def)
  ultimately have "consumer_handle w ?c2 = Some k"
    by (intro consumer_handle_keeps[of _ _ a k None]) simp_all
  then have "chan_body_turn w c = Some (CBack k, ?c2)"
    using body q(5) g(2) by (simp add: chan_body_turn_def upd_cframe_def)
  then show ?thesis using tn g(1,3) keep by (auto simp: keeps_def)
qed

lemma final_top_sim:
  assumes rel: "store_rel {t} c s" and fr: "cs_fr c t = Some p" "gs_fr s t = Some q" "cp_root p = t" "gp_root q = t"
      "cp_link p = ConsumerOf (Obj a)" "gp_link q = ConsumerOf (Obj a)"
    and keep: "keeps a k e c" and fin: "set_result t None s = Some s'"
  shows "\<exists>c'. chan_final_suspend t c = Some (CBack k, c') \<and> store_rel {t} c' s' \<and> keeps a k e c'"
proof -
  have con: "consumed c s t a" using fr by (auto simp: consumed_def chan_consumer_def)
  from set_result_sim[OF rel con fin] obtain g where g: "cs_ob c (Obj a) = Some g"
    "chan_set_result t None c = Some (c\<lparr>cs_ob := (cs_ob c)(Obj a \<mapsto> g\<lparr>ch_result := None\<rparr>)\<rparr>)"
    "store_rel {t} (c\<lparr>cs_ob := (cs_ob c)(Obj a \<mapsto> g\<lparr>ch_result := None\<rparr>)\<rparr>) s'" by auto
  with fr keep show ?thesis
    by (auto simp: chan_final_suspend_def consumer_handle_def chan_consumer_def keeps_def)
qed

lemma keeps_cong: "keeps a k e c \<Longrightarrow> cs_ob c' (Obj a) = cs_ob c (Obj a) \<Longrightarrow> keeps a k e c'"
  by (simp add: keeps_def)

lemma turn_end_sim:
  assumes rel: "store_rel {t} c s" and ready: "ready_turn s a w t" and keep: "keeps a k None c"
    and body: "cs_fr c w = Some p" "cp_body p = []" and turn: "body_turn w s = Some (tn, s')"
  shows "\<exists>c' tn'. chan_body_turn w c = Some (tn', c') \<and> store_rel {t} c' s' \<and> keeps a k None c'
    \<and> (tn = Back \<and> tn' = CBack k \<or> (\<exists>z. tn = Again z \<and> tn' = CAgain z))"
proof -
  from ready_turnD[OF rel ready body(1)] obtain q where q: "gs_fr s w = Some q" "cp_root p = t" "gp_root q = t"
    "\<not> gp_done q" "\<not> cp_done p" "erase (cp_body p) = gp_body q" "frame_rel {t} w p q"
    "\<exists>rp. cs_fr c t = Some rp \<and> cp_link rp = ConsumerOf (Obj a)"
    "\<exists>rq. gs_fr s t = Some rq \<and> gp_link rq = ConsumerOf (Obj a)" .
  have gb: "gp_body q = []" using q(6) body(2) by (simp add: erase_def)
  let ?s1 = "s\<lparr>gs_fr := (gs_fr s)(w \<mapsto> q\<lparr>gp_done := True\<rparr>)\<rparr>"
  let ?c1 = "c\<lparr>cs_fr := (cs_fr c)(w \<mapsto> p\<lparr>cp_done := True\<rparr>)\<rparr>"
  from turn q(1,4) gb have fin: "final_suspend w ?s1 = Some (tn, s')"
    by (simp add: body_turn_def upd_frame_def)
  have rel1: "store_rel {t} ?c1 ?s1"
    by (rule store_rel_upd_frame[OF rel q(1) frame_rel_done[OF q(7)]])
  have cb: "chan_body_turn w c = chan_final_suspend w ?c1"
    using body q(5) by (simp add: chan_body_turn_def upd_cframe_def)
  have keep1: "keeps a k None ?c1" using keep by (simp add: keeps_def)
  show ?thesis
  proof (cases "t = w")
    case True
    with fin q(3) have res: "set_result t None ?s1 = Some s'" "tn = Back"
      by (auto simp: final_suspend_def split: bind_splits)
    from final_top_sim[OF rel1 _ _ _ _ _ _ keep1 res(1), of "p\<lparr>cp_done := True\<rparr>" "q\<lparr>gp_done := True\<rparr>"] True q body(1) res(2) cb
    show ?thesis by auto
  next
    case False
    with fin q(3) obtain z where z: "skip_this_leaf w ?s1 = Some (z, s')" "tn = Again z"
      by (auto simp: final_suspend_def split: bind_splits)
    have "gp_link q = OwnerOf z" using z(1) by (auto simp: skip_this_leaf_def split: bind_splits if_splits link.splits)
    then have "exact ?c1 ?s1 w" using q(2-4,7) by (simp add: exact_def frame_rel_def)
    from skip_sim[OF rel1 this z(1)] obtain c2 where c2: "chan_skip_leaf w ?c1 = Some (z, c2)" "store_rel {t} c2 s'"
      "cs_ob c2 = cs_ob ?c1" by blast
    have "chan_final_suspend w ?c1 = Some (CAgain z, c2)"
      using c2(1) q(2) False by (simp add: chan_final_suspend_def)
    with cb c2 z(2) keeps_cong[OF keep1, of c2] show ?thesis by auto
  qed
qed

lemma consumed_cong:
  assumes "consumed c s h a" "cs_fr c2 h = cs_fr c h" "gs_fr s2 h = gs_fr s h"
    "\<forall>x. map_option cp_link (cs_fr c2 x) = map_option cp_link (cs_fr c x)"
    "\<forall>x. map_option gp_link (gs_fr s2 x) = map_option gp_link (gs_fr s x)"
  shows "consumed c2 s2 h a"
proof -
  from assms(1) obtain p q rq where p: "cs_fr c h = Some p" "gs_fr s h = Some q" "cp_root p = gp_root q"
    "chan_consumer h c = Some (Obj a)" "gs_fr s (gp_root q) = Some rq" "gp_link rq = ConsumerOf (Obj a)"
    by (auto simp: consumed_def)
  from p(1,4) obtain rp where rp: "cs_fr c (cp_root p) = Some rp" "cp_link rp = ConsumerOf (Obj a)"
    by (auto simp: chan_consumer_def split: bind_splits link.splits)
  from assms(4)[rule_format, of "cp_root p"] rp obtain rp2 where rp2: "cs_fr c2 (cp_root p) = Some rp2"
    "cp_link rp2 = ConsumerOf (Obj a)" by auto
  from assms(5)[rule_format, of "gp_root q"] p(5,6) obtain rq2 where rq2: "gs_fr s2 (gp_root q) = Some rq2"
    "gp_link rq2 = ConsumerOf (Obj a)" by auto
  show ?thesis using p(1-3) assms(2,3) rp2 rq2 by (simp add: consumed_def chan_consumer_def)
qed

text \<open>The rest of a failing coroutine after the leafs have been skipped.\<close>

lemma failed_sim:
  assumes rel: "store_rel {t} c s" and con: "consumed c s w a" and keep: "keeps a k None c"
    and fr: "cs_fr c w = Some p" "gs_fr s w = Some q" "gp_done q" and res: "set_result w None s = Some s'"
  shows "\<exists>c2 c'. chan_set_exception w (Some e) c = Some c2 \<and> chan_consumer w c2 = Some (Obj a)
    \<and> cs_fr c2 = cs_fr c
    \<and> chan_final_suspend w (c2\<lparr>cs_fr := (cs_fr c2)(w \<mapsto> p\<lparr>cp_link := ConsumerOf (Obj a), cp_root := w\<rparr>)\<rparr>) = Some (CBack k, c')
    \<and> store_rel {t} c' s' \<and> keeps a k (Some e) c'"
proof -
  from con have cc: "chan_consumer w c = Some (Obj a)" by (simp add: consumed_def)
  from set_result_sim[OF rel con res] obtain g where g: "cs_ob c (Obj a) = Some g"
    "s' = s\<lparr>gs_ob := (gs_ob s)(Obj a \<mapsto> (gen_view g)\<lparr>gn_result := None\<rparr>)\<rparr>" by blast
  let ?p = "p\<lparr>cp_link := ConsumerOf (Obj a), cp_root := w\<rparr>"
  let ?c2 = "c\<lparr>cs_ob := (cs_ob c)(Obj a \<mapsto> g\<lparr>ch_exception := Some e\<rparr>)\<rparr>"
  let ?c' = "c\<lparr>cs_ob := (cs_ob c)(Obj a \<mapsto> g\<lparr>ch_exception := Some e, ch_result := None\<rparr>), cs_fr := (cs_fr c)(w \<mapsto> ?p)\<rparr>"
  have 2: "chan_set_exception w (Some e) c = Some ?c2"
    using cc g(1) by (simp add: chan_set_exception_def upd_chan_def)
  have fin: "chan_final_suspend w (?c2\<lparr>cs_fr := (cs_fr ?c2)(w \<mapsto> ?p)\<rparr>) = Some (CBack k, ?c')"
    using keep g(1) by (simp add: chan_final_suspend_def chan_set_result_def chan_consumer_def consumer_handle_def
        upd_chan_def keeps_def)
  have "store_rel {t} (c\<lparr>cs_ob := (cs_ob c)(Obj a \<mapsto> g\<lparr>ch_exception := Some e, ch_result := None\<rparr>)\<rparr>) s'"
    unfolding g(2) by (rule store_rel_upd_ob[OF rel]) (simp add: gen_view_def)
  moreover have "frame_rel {t} w ?p q"
    using store_rel_fr[OF rel, of w] fr by (simp add: frame_rel_def)
  moreover have "gs_fr s' w = Some q" using g(2) fr(2) by simp
  ultimately have "store_rel {t} ?c' (s'\<lparr>gs_fr := (gs_fr s')(w \<mapsto> q)\<rparr>)"
    using store_rel_upd_frame[of "{t}" "c\<lparr>cs_ob := (cs_ob c)(Obj a \<mapsto> g\<lparr>ch_exception := Some e, ch_result := None\<rparr>)\<rparr>" s' w q ?p q]
    by simp
  then have "store_rel {t} ?c' s'" using \<open>gs_fr s' w = Some q\<close> by (simp add: fun_upd_idem)
  moreover have "keeps a k (Some e) ?c'" using keep g(1) by (simp add: keeps_def)
  ultimately show ?thesis using 2 fin cc by (intro exI[of _ ?c2] exI[of _ ?c']) simp
qed

lemma turn_throw_sim:
  assumes rel: "store_rel {t} c s" and ready: "ready_turn s a w t" and keep: "keeps a k None c"
    and body: "cs_fr c w = Some p" "cp_body p = CThrow e # r" and turn: "body_turn w s = Some (tn, s')"
  shows "\<exists>c'. tn = Exc e \<and> chan_body_turn w c = Some (CBack k, c') \<and> store_rel {t} c' s' \<and> keeps a k (Some e) c'"
proof -
  from ready_turnD[OF rel ready body(1)] obtain q where q: "gs_fr s w = Some q" "cp_root p = t" "gp_root q = t"
    "\<not> gp_done q" "\<not> cp_done p" "erase (cp_body p) = gp_body q" "frame_rel {t} w p q"
    "\<exists>rp. cs_fr c t = Some rp \<and> cp_link rp = ConsumerOf (Obj a)"
    "\<exists>rq. gs_fr s t = Some rq \<and> gp_link rq = ConsumerOf (Obj a)" .
  have gb: "gp_body q = Throw e # erase r" using q(6) body(2) by (simp add: erase_def)
  obtain s1 where s1: "s1 = s\<lparr>gs_fr := (gs_fr s)(w \<mapsto> q\<lparr>gp_done := True\<rparr>)\<rparr>" by blast
  obtain c1 where c1: "c1 = c\<lparr>cs_fr := (cs_fr c)(w \<mapsto> p\<lparr>cp_done := True\<rparr>)\<rparr>" by blast
  from turn q(1,4) gb have un: "unhandled_exception e w s1 = Some (tn, s')"
    by (simp add: body_turn_def upd_frame_def s1)
  have rel1: "store_rel {t} c1 s1"
    unfolding s1 c1 by (rule store_rel_upd_frame[OF rel q(1) frame_rel_done[OF q(7)]])
  have fr1: "cs_fr c1 w = Some (p\<lparr>cp_done := True\<rparr>)" "gs_fr s1 w = Some (q\<lparr>gp_done := True\<rparr>)"
    by (simp_all add: c1 s1)
  have con1: "consumed c1 s1 w a" using q(1-3,8,9) body(1) by (auto simp: consumed_def chan_consumer_def c1 s1)
  have keep1: "keeps a k None c1" using keep by (simp add: keeps_def c1)
  have pend: "chan_exception w c1 = Some None"
    using con1 keep1 by (auto simp: consumed_def chan_exception_def keeps_def)
  obtain s2 c2 where 2: "(if t \<noteq> w then map_option snd (chan_skip_leaf w c1) else Some c1) = Some c2"
    "set_result w None s2 = Some s'" "store_rel {t} c2 s2" "consumed c2 s2 w a" "keeps a k None c2"
    "cs_fr c2 w = cs_fr c1 w" "gs_fr s2 w = gs_fr s1 w" and tn: "tn = Exc e"
  proof (cases "t = w")
    case True
    then have "set_result w None s1 = Some s'" "tn = Exc e"
      using un q(3) fr1 by (auto simp: unhandled_exception_def split: bind_splits)
    with True rel1 con1 keep1 show thesis using that[of c1 s1] by simp
  next
    case False
    then obtain z s2 where z: "skip_this_leaf w s1 = Some (z, s2)" "set_result w None s2 = Some s'" "tn = Exc e"
      using un q(3) fr1 by (auto simp: unhandled_exception_def split: bind_splits)
    have "gp_link q = OwnerOf z" using z(1) fr1 by (auto simp: skip_this_leaf_def split: bind_splits if_splits link.splits)
    then have "exact c1 s1 w" using q(2-4,7) fr1 by (simp add: exact_def frame_rel_def)
    from skip_sim[OF rel1 this z(1)] obtain c2 where c2: "chan_skip_leaf w c1 = Some (z, c2)" "store_rel {t} c2 s2"
      "cs_ob c2 = cs_ob c1" "cs_fr c2 w = cs_fr c1 w" "gs_fr s2 w = gs_fr s1 w"
      "\<forall>x. map_option cp_link (cs_fr c2 x) = map_option cp_link (cs_fr c1 x)"
      "\<forall>x. map_option gp_link (gs_fr s2 x) = map_option gp_link (gs_fr s1 x)" .
    have "keeps a k None c2" by (rule keeps_cong[OF keep1]) (simp add: c2(3))
    with consumed_cong[OF con1 c2(4-7)] show thesis
      using that[of c2 s2] c2(1,2,4,5) z(2,3) False by simp
  qed
  from failed_sim[OF 2(3,4,5) _ _ _ 2(2), of "p\<lparr>cp_done := True\<rparr>" "q\<lparr>gp_done := True\<rparr>" e] 2(6,7) fr1 obtain c3 c' where
    3: "chan_set_exception w (Some e) c2 = Some c3" "chan_consumer w c3 = Some (Obj a)" "cs_fr c3 = cs_fr c2"
    "chan_final_suspend w (c3\<lparr>cs_fr := (cs_fr c3)(w \<mapsto> p\<lparr>cp_done := True, cp_link := ConsumerOf (Obj a), cp_root := w\<rparr>)\<rparr>) = Some (CBack k, c')"
    "store_rel {t} c' s'" "keeps a k (Some e) c'" by auto
  have "chan_unhandled_exception e w c1
      = Some (c3\<lparr>cs_fr := (cs_fr c3)(w \<mapsto> p\<lparr>cp_done := True, cp_link := ConsumerOf (Obj a), cp_root := w\<rparr>)\<rparr>)"
    using pend fr1(1) q(2) 2(1,6) 3(1,2,3) by (simp add: chan_unhandled_exception_def upd_cframe_def)
  then have "chan_body_turn w c = Some (CBack k, c')"
    using body q(5) 3(4) by (simp add: chan_body_turn_def upd_cframe_def c1)
  with tn 3(5,6) show ?thesis by blast
qed

lemma move_sim:
  assumes rel: "store_rel {t} c s" and mv: "gen_move_construct (LeafOf h) (Obj g) s = Some s2"
    and other: "\<forall>k. gs_ob s (Obj g) = Some k \<longrightarrow> gn_top k \<noteq> Some t"
  shows "\<exists>c2. chan_move_construct (LeafOf h) (Obj g) c = Some c2 \<and> store_rel {t} c2 s2 \<and> cs_fr c2 = cs_fr c
    \<and> (\<forall>x. x \<noteq> g \<longrightarrow> cs_ob c2 (Obj x) = cs_ob c (Obj x))"
proof -
  from mv obtain kg where kg: "gs_ob s (Obj g) = Some kg"
    by (auto simp: gen_move_construct_def gen_swap_def split: bind_splits)
  from store_rel_obD[OF rel kg] obtain k where k: "cs_ob c (Obj g) = Some k" "kg = gen_view k" .
  obtain s1 where s1: "s1 = s\<lparr>gs_ob := (gs_ob s)(LeafOf h \<mapsto> kg, Obj g \<mapsto> generator_default)\<rparr>" by blast
  obtain c1 where c1: "c1 = c\<lparr>cs_ob := (cs_ob c)(LeafOf h \<mapsto> k, Obj g \<mapsto> channel_default)\<rparr>" by blast
  have "gen_swap (LeafOf h) (Obj g) (s\<lparr>gs_ob := (gs_ob s)(LeafOf h \<mapsto> generator_default)\<rparr>)
      = do { s2 \<leftarrow> prepare_if_top (LeafOf h) s1; prepare_if_top (Obj g) s2 }"
    using kg by (simp add: gen_swap_def s1 fun_upd_twist[of "LeafOf h"])
  with mv obtain s1' where p1: "prepare_if_top (LeafOf h) s1 = Some s1'" and p2: "prepare_if_top (Obj g) s1' = Some s2"
    by (auto simp: gen_move_construct_def split: bind_splits)
  have "gs_ob s1' = gs_ob s1"
    using p1 by (auto simp: prepare_if_top_def prepare_to_start_def upd_frame_def split: bind_splits if_splits)
  with p2 have s2: "s2 = s1'" by (simp add: prepare_if_top_def s1 generator_default_def)
  have 1: "store_rel {t} c1 s1"
    unfolding s1 c1 using rel by (simp add: store_rel_def k(2) gen_view_def generator_default_def channel_default_def)
  have "store_rel {t} c1 s1'"
  proof (cases "ch_top k")
    case None
    then show ?thesis using p1 1 k(2) by (simp add: prepare_if_top_def s1)
  next
    case (Some u)
    with p1 k(2) obtain q where q: "gs_fr s1 u = Some q" "s1' = s1\<lparr>gs_fr := (gs_fr s1)(u \<mapsto> q\<lparr>gp_link := ConsumerOf (LeafOf h)\<rparr>)\<rparr>"
      by (auto simp: prepare_if_top_def prepare_to_start_def upd_frame_def s1 split: bind_splits)
    from store_rel_frD[OF 1 q(1)] obtain p where p: "cs_fr c1 u = Some p" "frame_rel {t} u p q" .
    have "u \<noteq> t" using other kg k(2) Some by auto
    with p(2) have "frame_rel {t} u p (q\<lparr>gp_link := ConsumerOf (LeafOf h)\<rparr>)" by (auto simp: frame_rel_def)
    from store_rel_upd_frame[OF 1 q(1) this] p(1) q(2) show ?thesis by (simp add: fun_upd_idem)
  qed
  moreover have "chan_move_construct (LeafOf h) (Obj g) c = Some c1"
    using k(1) by (simp add: chan_move_construct_def chan_swap_def c1 fun_upd_twist[of "LeafOf h"])
  ultimately show ?thesis using s2 c1 by auto
qed

lemma attach_sim:
  assumes rel: "store_rel T c s" and owner: "gs_fr s h = Some q" "\<not> gp_done q"
    and leaf: "gs_ob s (LeafOf h) = Some l" "gn_top l = Some u" and att: "attach_leaf_suspend h s = Some (z, s2)"
  shows "\<exists>c2. chan_attach_suspend h c = Some (z, c2) \<and> store_rel T c2 s2 \<and> cs_ob c2 = cs_ob c"
proof -
  from store_rel_frD[OF rel owner(1)] obtain p where p: "cs_fr c h = Some p" "frame_rel T h p q" .
  from store_rel_obD[OF rel leaf(1)] obtain k where k: "cs_ob c (LeafOf h) = Some k" "l = gen_view k" .
  then have tu: "ch_top k = Some u" using leaf(2) by simp
  from att leaf owner(1) obtain qu s1 s1' where qu: "gs_fr s u = Some qu" "h \<noteq> u"
    and s: "upd_frame (gp_worker qu) (\<lambda>p. p\<lparr>gp_root := gp_root q\<rparr>) s = Some s1"
      "upd_frame u (\<lambda>p. p\<lparr>gp_link := OwnerOf h\<rparr>) s1 = Some s1'"
      "upd_frame (gp_root q) (\<lambda>p. p\<lparr>gp_worker := gp_worker qu\<rparr>) s1' = Some s2"
    and z: "z = gp_worker qu"
    by (auto simp: attach_leaf_suspend_def split: bind_splits if_splits)
  from store_rel_frD[OF rel qu(1)] obtain pu where pu: "cs_fr c u = Some pu" "frame_rel T u pu qu" .
  have eqs: "cp_root p = gp_root q" "cp_worker pu = gp_worker qu"
    using p(2) owner(2) pu(2) by (auto simp: frame_rel_def)
  from upd_frame_sim[where f' = "\<lambda>p. p\<lparr>cp_root := gp_root q\<rparr>", OF rel s(1) frame_rel_root] obtain p1 c1 where
    1: "upd_cframe (gp_worker qu) (\<lambda>p. p\<lparr>cp_root := gp_root q\<rparr>) c = Some c1" "store_rel T c1 s1"
      "c1 = c\<lparr>cs_fr := (cs_fr c)(gp_worker qu \<mapsto> p1)\<rparr>" by blast
  from upd_frame_sim[where f' = "\<lambda>p. p\<lparr>cp_link := OwnerOf h\<rparr>", OF 1(2) s(2) frame_rel_link] obtain p2 c1' where
    2: "upd_cframe u (\<lambda>p. p\<lparr>cp_link := OwnerOf h\<rparr>) c1 = Some c1'" "store_rel T c1' s1'"
      "c1' = c1\<lparr>cs_fr := (cs_fr c1)(u \<mapsto> p2)\<rparr>" by blast
  from upd_frame_sim[where f' = "\<lambda>p. p\<lparr>cp_worker := gp_worker qu\<rparr>", OF 2(2) s(3) frame_rel_worker] obtain p3 c2 where
    3: "upd_cframe (gp_root q) (\<lambda>p. p\<lparr>cp_worker := gp_worker qu\<rparr>) c1' = Some c2" "store_rel T c2 s2"
      "c2 = c1'\<lparr>cs_fr := (cs_fr c1')(gp_root q \<mapsto> p3)\<rparr>" by blast
  have "chan_attach_suspend h c = Some (z, c2)"
    using p(1) k(1) tu pu(1) qu(2) eqs 1(1) 2(1) 3(1) z by (simp add: chan_attach_suspend_def)
  then show ?thesis using 1(3) 2(3) 3(2,3) by auto
qed

lemma chan_empty_sim:
  assumes "store_rel T c s" "gen_empty x s = Some b"
  shows "chan_empty x c = Some b"
proof -
  from assms(2) obtain g where g: "gs_ob s x = Some g" by (auto simp: gen_empty_def split: bind_splits)
  from store_rel_obD[OF assms(1) g] obtain k where k: "cs_ob c x = Some k" "g = gen_view k" .
  show ?thesis
  proof (cases "ch_top k")
    case None
    then show ?thesis using assms(2) g k by (simp add: gen_empty_def chan_empty_def)
  next
    case (Some t)
    then obtain q where q: "gs_fr s t = Some q" "b = gp_done q"
      using assms(2) g k by (auto simp: gen_empty_def split: bind_splits)
    from store_rel_frD[OF assms(1) q(1)] obtain p where "cs_fr c t = Some p" "frame_rel T t p q" .
    then show ?thesis using k Some q(2) by (simp add: chan_empty_def frame_rel_def)
  qed
qed

lemma turn_elements_sim:
  assumes rel: "store_rel {t} c s" and ready: "ready_turn s a w t" and keep: "keeps a k None c"
    and body: "cs_fr c w = Some p" "cp_body p = CElementsOf g # r"
    and turn: "body_turn w s = Some (tn, s')"
  shows "\<exists>c' z. tn = Again z \<and> chan_body_turn w c = Some (CAgain z, c') \<and> store_rel {t} c' s' \<and> keeps a k None c'"
proof -
  from ready_turnD[OF rel ready body(1)] obtain q where q: "gs_fr s w = Some q" "cp_root p = t" "gp_root q = t"
    "\<not> gp_done q" "\<not> cp_done p" "erase (cp_body p) = gp_body q" "frame_rel {t} w p q" .
  have gb: "gp_body q = ElementsOf g # erase r" using q(6) body(2) by (simp add: erase_def)
  obtain s1 where s1: "s1 = s\<lparr>gs_fr := (gs_fr s)(w \<mapsto> q\<lparr>gp_body := erase r\<rparr>)\<rparr>" by blast
  obtain c1 where c1: "c1 = c\<lparr>cs_fr := (cs_fr c)(w \<mapsto> p\<lparr>cp_body := r\<rparr>)\<rparr>" by blast
  have rel1: "store_rel {t} c1 s1"
    unfolding s1 c1 by (rule store_rel_upd_frame[OF rel q(1) frame_rel_body[OF q(7)]]) simp
  from turn q(1,4) gb obtain s2 b where s2: "gen_move_construct (LeafOf w) (Obj g) s1 = Some s2" "gen_empty (LeafOf w) s2 = Some b"
    and rest: "(if b then Some (Again w, s2) else do { (w', s3) \<leftarrow> attach_leaf_suspend w s2; Some (Again w', s3) }) = Some (tn, s')"
    by (auto simp: body_turn_def upd_frame_def s1 split: bind_splits)
  have "\<forall>k. gs_ob s1 (Obj g) = Some k \<longrightarrow> gn_top k \<noteq> Some t"
    and ga: "g \<noteq> a"
    using ready gb q(1) by (auto simp: ready_turn_def s1)
  from move_sim[OF rel1 s2(1) this(1)] obtain c2 where c2: "chan_move_construct (LeafOf w) (Obj g) c1 = Some c2" "store_rel {t} c2 s2"
    "cs_fr c2 = cs_fr c1" "\<forall>x. x \<noteq> g \<longrightarrow> cs_ob c2 (Obj x) = cs_ob c1 (Obj x)" by blast
  note e2 = chan_empty_sim[OF c2(2) s2(2)]
  have keep2: "keeps a k None c2"
    by (rule keeps_cong[OF keep]) (use c2(4) ga in \<open>simp add: c1\<close>)
  have cb: "chan_body_turn w c = (if b then Some (CAgain w, c2) else do { (w', s3) \<leftarrow> chan_attach_suspend w c2; Some (CAgain w', s3) })"
    using body q(5) c2(1) e2 by (simp add: chan_body_turn_def upd_cframe_def c1)
  show ?thesis
  proof (cases b)
    case True
    with cb rest c2(2) keep2 show ?thesis by auto
  next
    case False
    with rest obtain z where z: "attach_leaf_suspend w s2 = Some (z, s')" "tn = Again z" by (auto split: bind_splits)
    from s2(2) False obtain l u where l: "gs_ob s2 (LeafOf w) = Some l" "gn_top l = Some u"
      by (auto simp: gen_empty_def split: bind_splits option.splits)
    have "cs_fr c2 w = Some (p\<lparr>cp_body := r\<rparr>)" using c2(3) by (simp add: c1)
    with store_rel_fr[OF c2(2), of w] q(5) obtain q2 where q2: "gs_fr s2 w = Some q2" "\<not> gp_done q2"
      by (auto simp: option_rel_Some1 frame_rel_def)
    from attach_sim[OF c2(2) q2 l z(1)] obtain c3 where c3: "chan_attach_suspend w c2 = Some (z, c3)" "store_rel {t} c3 s'"
      "cs_ob c3 = cs_ob c2" by blast
    have "keeps a k None c3" by (rule keeps_cong[OF keep2]) (simp add: c3(3))
    with cb False c3 z(2) show ?thesis by auto
  qed
qed

section \<open>Runs\<close>

text \<open>What happened in a turn of the generator, and who runs next in the channel.\<close>

fun exc_of :: "'e turn \<Rightarrow> 'e option" where
  "exc_of (Exc e) = Some e"
| "exc_of _ = None"

fun cturn_match :: "handle \<Rightarrow> 'e turn \<Rightarrow> cturn \<Rightarrow> bool" where
  "cturn_match k (Again z) tn \<longleftrightarrow> tn = CAgain z"
| "cturn_match k Back tn \<longleftrightarrow> tn = CBack k"
| "cturn_match k (Exc e) tn \<longleftrightarrow> tn = CBack k"

lemma body_sim:
  assumes "store_rel {t} c s" and "ready_turn s a w t" and "keeps a k None c"
    and body: "cs_fr c w = Some p" "\<forall>r. cp_body p \<noteq> CSuspend # r"
    and "body_turn w s = Some (tn, s')"
  shows "\<exists>c' tn'. chan_body_turn w c = Some (tn', c') \<and> cturn_match k tn tn' \<and> store_rel {t} c' s'
    \<and> keeps a k (exc_of tn) c'"
proof (cases "cp_body p")
  case Nil
  from turn_end_sim[OF assms(1-3) body(1) Nil assms(6)] show ?thesis by auto
next
  case (Cons act r)
  show ?thesis
  proof (cases act)
    case (CYield y)
    from turn_yield_sim[OF assms(1-3) body(1) Cons[unfolded CYield] assms(6)] show ?thesis by auto
  next
    case (CThrow e)
    from turn_throw_sim[OF assms(1-3) body(1) Cons[unfolded CThrow] assms(6)] show ?thesis by auto
  next
    case (CElementsOf g)
    from turn_elements_sim[OF assms(1-3) body(1) Cons[unfolded CElementsOf] assms(6)] show ?thesis by auto
  qed (use body(2) Cons in auto)
qed

text \<open>A current worker of a well-formed store is ready for its turn once its last leaf is gone.\<close>

lemma turn_start:
  assumes rel: "gen_rel s A F" and st: "stack_turn a A = Some (o', A')" and cw: "cur_worker s a = Some w"
    and tp: "top_of s a = Some t"
  shows "\<exists>s1. end_attach w s = Some s1 \<and> gs_ob s1 (LeafOf w) = None \<and> ready_turn s1 a w t"
proof -
  from st obtain r b rest where Aa: "A a = Some (r, b # rest)"
    by (auto simp: stack_turn_def split: option.splits list.splits)
  note ok = gen_rel_obj[OF rel Aa]
  from ok(1) obtain g w1 vs x where g: "gs_ob s (Obj a) = Some g" "gn_top g = Some (last (w1 # vs))"
      and run: "running s a w1 vs x (b # rest)" and fs: "F a = (case x of None \<Rightarrow> [] | Some l \<Rightarrow> [l]) @ w1 # vs"
    by (cases rule: gen_ok_cases) auto
  from gen_ok_runI(2)[OF g(1,2) run refl] cw have w: "w1 = w" by simp
  note g = g[unfolded w] and run = run[unfolded w] and fs = fs[unfolded w]
  have t: "t = last (w # vs)" using tp g by (simp add: top_of_def)
  from end_attach_ok[OF run] ok(2) fs obtain s1 where s1: "end_attach w s = Some s1" "running s1 a w vs None (b # rest)"
    "gs_ob s1 (LeafOf w) = None" "\<forall>c. gs_ob s1 (Obj c) = gs_ob s (Obj c)" by auto
  from s1(2) have lk: "linked (fv s1) (lv s1) w vs (ConsumerOf (Obj a)) (b # rest)"
    and root: "map_option gp_root (gs_fr s1 w) = Some t" by (simp_all add: running_def t)
  from linked_last[OF lk] obtain bt where "fv s1 t = Some (False, ConsumerOf (Obj a), bt)" by (auto simp: t)
  from fv_SomeD[OF this] obtain rq where rq: "gs_fr s1 t = Some rq" "\<not> gp_done rq" "gp_link rq = ConsumerOf (Obj a)" by auto
  from lk obtain k where "fv s1 w = Some (False, k, b)" by (cases vs) auto
  from fv_SomeD[OF this] root obtain p where p: "gs_fr s1 w = Some p" "\<not> gp_done p" "gp_body p = b" "gp_root p = t" by auto
  have el: "g' \<noteq> a \<and> (\<forall>k. gs_ob s1 (Obj g') = Some k \<longrightarrow> gn_top k \<noteq> Some t)" if "b = ElementsOf g' # b'" for g' b'
  proof -
    from st Aa that obtain rc stk where c: "g' \<noteq> a" "A g' = Some (rc, stk)"
      by (auto simp: stack_turn_def split: if_splits option.splits)
    have "t \<in> set (F a)" using fs t by (cases "vs = []") auto
    moreover have "set (F g') \<inter> set (F a) = {}" by (rule gen_rel_disjoint[OF rel c(1)])
    ultimately have "gn_top k \<noteq> Some t" if "gs_ob s (Obj g') = Some k" for k
      using gen_ok_top[OF gen_rel_obj(1)[OF rel c(2)] that, of t] by auto
    with c(1) s1(4) show ?thesis by simp
  qed
  have "ready_turn s1 a w t" unfolding ready_turn_def using p rq el by blast
  with s1(1,3) show ?thesis by blast
qed

text \<open>The suspensions before a step, and the step.\<close>

lemma chan_run_body:
  assumes "store_rel {t} c s" and "ready_turn s a w t" and "keeps a k None c" and "gs_ob s (LeafOf w) = None"
    and "body_turn w s = Some (tn, s')" and "cs_fr c w = Some p" "cp_body p = b"
  shows "\<exists>c' tn'. (\<forall>c0. chan_end_attach w c0 = Some c \<longrightarrow> chan_resume w c0
        = (case tn' of CAgain z \<Rightarrow> chan_resume z c' | CPark z \<Rightarrow> chan_resume z c' | CBack k \<Rightarrow> Some (k, c')))
    \<and> cturn_match k tn tn' \<and> store_rel {t} c' s' \<and> keeps a k (exc_of tn) c'"
  using assms
proof (induction b arbitrary: c p)
  case Nil
  from body_sim[OF Nil.prems(1-3,6) _ Nil.prems(5)] Nil.prems(7) obtain c' tn' where
    r: "chan_body_turn w c = Some (tn', c')" "cturn_match k tn tn'" "store_rel {t} c' s'" "keeps a k (exc_of tn) c'" by auto
  have "chan_resume w c0 = (case tn' of CAgain z \<Rightarrow> chan_resume z c' | CPark z \<Rightarrow> chan_resume z c' | CBack k \<Rightarrow> Some (k, c'))"
    if "chan_end_attach w c0 = Some c" for c0
    using that r(1) by (simp add: chan_resume.simps[of w] chan_turn_def)
  with r show ?case by blast
next
  case (Cons act r)
  show ?case
  proof (cases "act = CSuspend")
    case False
    with body_sim[OF Cons.prems(1-3,6) _ Cons.prems(5)] Cons.prems(7) obtain c' tn' where
      r: "chan_body_turn w c = Some (tn', c')" "cturn_match k tn tn'" "store_rel {t} c' s'" "keeps a k (exc_of tn) c'" by auto
    have "chan_resume w c0 = (case tn' of CAgain z \<Rightarrow> chan_resume z c' | CPark z \<Rightarrow> chan_resume z c' | CBack k \<Rightarrow> Some (k, c'))"
      if "chan_end_attach w c0 = Some c" for c0
      using that r(1) by (simp add: chan_resume.simps[of w] chan_turn_def)
    with r show ?thesis by blast
  next
    case True
    from ready_turnD[OF Cons.prems(1,2,6)] obtain q where q: "gs_fr s w = Some q" "\<not> cp_done p"
      "erase (cp_body p) = gp_body q" "frame_rel {t} w p q" .
    obtain c1 where c1: "c1 = c\<lparr>cs_fr := (cs_fr c)(w \<mapsto> p\<lparr>cp_body := r\<rparr>)\<rparr>" by blast
    have "frame_rel {t} w (p\<lparr>cp_body := r\<rparr>) q" using q(3,4) Cons.prems(7) True by (simp add: frame_rel_def erase_def)
    from store_rel_upd_frame[OF Cons.prems(1) q(1) this] have rel1: "store_rel {t} c1 s"
      using q(1) by (simp add: c1 fun_upd_idem)
    have keep1: "keeps a k None c1" using Cons.prems(3) by (simp add: keeps_def c1)
    from Cons.IH[OF rel1 Cons.prems(2) keep1 Cons.prems(4,5), of "p\<lparr>cp_body := r\<rparr>"] obtain c' tn' where
      r: "\<forall>c0. chan_end_attach w c0 = Some c1 \<longrightarrow> chan_resume w c0
        = (case tn' of CAgain z \<Rightarrow> chan_resume z c' | CPark z \<Rightarrow> chan_resume z c' | CBack k \<Rightarrow> Some (k, c'))"
      "cturn_match k tn tn'" "store_rel {t} c' s'" "keeps a k (exc_of tn) c'" by (auto simp: c1)
    have "cs_ob c1 (LeafOf w) = None" using store_rel_ob[OF rel1, of "LeafOf w"] Cons.prems(4) by simp
    then have "chan_end_attach w c1 = Some c1" by (simp add: chan_end_attach_def)
    with r(1) have "chan_resume w c1 = (case tn' of CAgain z \<Rightarrow> chan_resume z c' | CPark z \<Rightarrow> chan_resume z c' | CBack k \<Rightarrow> Some (k, c'))"
      by blast
    moreover have "chan_body_turn w c = Some (CPark w, c1)"
      using Cons.prems(6,7) True q(2) by (simp add: chan_body_turn_def upd_cframe_def c1)
    ultimately have "chan_resume w c0 = (case tn' of CAgain z \<Rightarrow> chan_resume z c' | CPark z \<Rightarrow> chan_resume z c' | CBack k \<Rightarrow> Some (k, c'))"
      if "chan_end_attach w c0 = Some c" for c0
      using that by (simp add: chan_resume.simps[of w c0] chan_turn_def)
    with r show ?thesis by blast
  qed
qed

fun sexc_of :: "'e sturn \<Rightarrow> 'e option" where
  "sexc_of (SExc e) = Some e"
| "sexc_of _ = None"

lemma chan_run_sim:
  assumes "gen_rel s A F" "stack_run n a A = Some (o', A')" "cur_worker s a = Some w" "top_of s a = Some t"
    "store_rel {t} c s" "keeps a k None c"
  shows "\<exists>c' s' F'. chan_resume w c = Some (k, c') \<and> gen_rel s' A' F' \<and> store_rel {t} c' s'
    \<and> keeps a k (sexc_of o') c' \<and> o' \<noteq> SAgain \<and> top_of s' a = Some t"
  using assms
proof (induction n arbitrary: s A F w c)
  case 0
  then show ?case by simp
next
  case (Suc n)
  from Suc.prems(2) obtain o1 A1 where st: "stack_turn a A = Some (o1, A1)"
    by (cases "stack_turn a A") auto
  from turn_sim[OF Suc.prems(1) st Suc.prems(3)] obtain t1 s1 F1 where
    t1: "gen_turn w s = Some (t1, s1)" "gen_rel s1 A1 F1" "turn_match o1 t1 s1 a" "top_of s1 a = top_of s a" by blast
  from turn_start[OF Suc.prems(1) st Suc.prems(3,4)] obtain s0 where s0: "end_attach w s = Some s0"
    "gs_ob s0 (LeafOf w) = None" "ready_turn s0 a w t" by blast
  from t1(1) s0(1) have bt: "body_turn w s0 = Some (t1, s1)" by (simp add: gen_turn_def)
  from end_attach_sim[OF Suc.prems(5) s0(1)] obtain c0 where c0: "chan_end_attach w c = Some c0" "store_rel {t} c0 s0"
    "\<forall>x. cs_ob c0 (Obj x) = cs_ob c (Obj x)" by blast
  have keep0: "keeps a k None c0" by (rule keeps_cong[OF Suc.prems(6)]) (simp add: c0(3))
  from s0(3) obtain q where "gs_fr s0 w = Some q" by (auto simp: ready_turn_def)
  from store_rel_frD[OF c0(2) this] obtain p where "cs_fr c0 w = Some p" by blast
  from chan_run_body[OF c0(2) s0(3) keep0 s0(2) bt this refl] c0(1) obtain c1 tn1 where
    c1: "chan_resume w c = (case tn1 of CAgain z \<Rightarrow> chan_resume z c1 | CPark z \<Rightarrow> chan_resume z c1 | CBack k \<Rightarrow> Some (k, c1))"
    "cturn_match k t1 tn1" "store_rel {t} c1 s1" "keeps a k (exc_of t1) c1" by blast
  show ?case
  proof (cases o1)
    case SAgain
    with t1(3) obtain z where z: "t1 = Again z" "cur_worker s1 a = Some z" by auto
    from Suc.prems(2) st SAgain have "stack_run n a A1 = Some (o', A')" by simp
    from Suc.IH[OF t1(2) this z(2) _ c1(3)] t1(4) Suc.prems(4) c1 z(1) show ?thesis by auto
  next
    case SBack
    with Suc.prems(2) st have "o' = SBack" "A' = A1" by auto
    with t1 SBack c1 Suc.prems(4) show ?thesis by auto
  next
    case (SExc e)
    with Suc.prems(2) st have "o' = SExc e" "A' = A1" by auto
    with t1 SExc c1 Suc.prems(4) show ?thesis by auto
  qed
qed

section \<open>Channels at rest\<close>

text \<open>No channel is being run: what is in the union of a top does not matter, \<open>begin\<close> sets it.\<close>

definition chan_rel :: "('y, 'e) chan_store \<Rightarrow> ('y, 'e) stacks \<Rightarrow> (addr \<Rightarrow> handle list) \<Rightarrow> bool" where
  "chan_rel c A F \<longleftrightarrow> (\<exists>s. gen_rel s A F \<and> store_rel {} c s)"

definition no_exception :: "addr \<Rightarrow> ('y, 'e) chan_store \<Rightarrow> bool" where
  "no_exception a c \<longleftrightarrow> map_option ch_exception (cs_ob c (Obj a)) = Some None"

text \<open>The channel \<open>a\<close> is iterated by the coroutine \<open>k\<close>: its top points to it.\<close>

definition chan_prepared :: "handle \<Rightarrow> addr \<Rightarrow> ('y, 'e) chan_store \<Rightarrow> bool" where
  "chan_prepared k a c \<longleftrightarrow> (\<exists>g t p. cs_ob c (Obj a) = Some g \<and> ch_handle g = Some k \<and> ch_top g = Some t
     \<and> cs_fr c t = Some p \<and> cp_link p = ConsumerOf (Obj a))"

lemma store_rel_weaken:
  assumes "store_rel T c s"
  shows "store_rel {} c s"
  unfolding store_rel_def
proof (intro conjI allI)
  fix h
  show "rel_option (frame_rel {} h) (cs_fr c h) (gs_fr s h)"
    using store_rel_fr[OF assms, of h] by (cases "cs_fr c h"; cases "gs_fr s h") (auto simp: frame_rel_def)
qed (use assms in \<open>simp add: store_rel_def\<close>)

lemma store_rel_strengthen:
  assumes "store_rel {} c s" and "\<And>p q. cs_fr c t = Some p \<Longrightarrow> gs_fr s t = Some q \<Longrightarrow> cp_link p = gp_link q"
  shows "store_rel {t} c s"
  unfolding store_rel_def
proof (intro conjI allI)
  fix h
  show "rel_option (frame_rel {t} h) (cs_fr c h) (gs_fr s h)"
    using store_rel_fr[OF assms(1), of h] assms(2) by (cases "cs_fr c h"; cases "gs_fr s h") (auto simp: frame_rel_def)
qed (use assms(1) in \<open>simp add: store_rel_def\<close>)

lemma gen_ok_top_link:
  assumes "gen_ok s a r stk fs" "top_of s a = Some t"
  shows "\<exists>q. gs_fr s t = Some q \<and> gp_link q = ConsumerOf (Obj a) \<and> gp_done q = (stk = [])"
  using assms(1)
proof (cases rule: gen_ok_cases)
  case (run k w vs x)
  then have lk: "linked (fv s) (lv s) w vs (ConsumerOf (Obj a)) stk" by (simp add: running_def)
  from linked_last[OF lk] obtain b where "fv s (last (w # vs)) = Some (False, ConsumerOf (Obj a), b)" by blast
  from fv_SomeD[OF this] run(1,3) assms(2) linked_nonempty[OF lk] show ?thesis by (auto simp: top_of_def)
qed (use assms(2) in \<open>auto simp: top_of_def dest!: fv_SomeD\<close>)

lemma starter_sim:
  assumes rel: "gen_rel s A F" "store_rel {} c s" and a: "A a = Some (r, b # rest)" and ne: "no_exception a c"
  obtains w t c1 where "cur_worker s a = Some w" "top_of s a = Some t" "starter_await_suspend k (Obj a) c = Some (w, c1)"
    "store_rel {t} c1 s" "keeps a k None c1" "chan_empty (Obj a) c = Some False"
    "chan_prepared k a c \<Longrightarrow> c1 = c \<and> (\<exists>g p. cs_ob c (Obj a) = Some g \<and> ch_top g = Some t \<and> cs_fr c t = Some p \<and> cp_worker p = w)"
proof -
  note ok = gen_rel_obj(1)[OF rel(1) a]
  from gen_ok_worker[OF ok] obtain g t q where g: "gs_ob s (Obj a) = Some g" "gn_top g = Some t" "gs_fr s t = Some q"
    "cur_worker s a = Some (gp_worker q)" "top_of s a = Some t" by auto
  from gen_ok_top_link[OF ok g(5)] g(3) have q: "gp_link q = ConsumerOf (Obj a)" "\<not> gp_done q" by auto
  from store_rel_obD[OF rel(2) g(1)] obtain ch where ch: "cs_ob c (Obj a) = Some ch" "g = gen_view ch" .
  from store_rel_frD[OF rel(2) g(3)] obtain p where p: "cs_fr c t = Some p" "frame_rel {} t p q" .
  have wp: "cp_worker p = gp_worker q" using p(2) by (simp add: frame_rel_def)
  obtain c1 where c1: "c1 = c\<lparr>cs_ob := (cs_ob c)(Obj a \<mapsto> ch\<lparr>ch_handle := Some k\<rparr>),
      cs_fr := (cs_fr c)(t \<mapsto> p\<lparr>cp_link := ConsumerOf (Obj a)\<rparr>)\<rparr>" by blast
  have "frame_rel {} t (p\<lparr>cp_link := ConsumerOf (Obj a)\<rparr>) q" using p(2) q(1) by (auto simp: frame_rel_def)
  with store_rel_fr[OF rel(2)] have "\<forall>h. rel_option (frame_rel {} h) (cs_fr c1 h) (gs_fr s h)"
    using g(3) by (simp add: c1)
  moreover have "\<forall>x. gs_ob s x = map_option gen_view (cs_ob c1 x)"
    using store_rel_ob[OF rel(2)] g(1) ch by (simp add: c1 gen_view_def)
  ultimately have "store_rel {} c1 s" by (simp add: store_rel_def)
  then have "store_rel {t} c1 s" by (rule store_rel_strengthen) (use g(3) q(1) in \<open>auto simp: c1\<close>)
  moreover have "starter_await_suspend k (Obj a) c = Some (gp_worker q, c1)"
    using ch g(2) p(1) wp by (simp add: starter_await_suspend_def upd_chan_def upd_cframe_def c1)
  moreover have "keeps a k None c1" using ne ch(1) by (simp add: keeps_def c1 no_exception_def)
  moreover have "chan_empty (Obj a) c = Some False"
    using chan_empty_sim[OF rel(2) gen_ok_empty[OF ok]] by simp
  moreover have "c1 = c \<and> (\<exists>g p. cs_ob c (Obj a) = Some g \<and> ch_top g = Some t \<and> cs_fr c t = Some p \<and> cp_worker p = gp_worker q)"
    if "chan_prepared k a c"
    using that ch g(2) p(1) wp by (auto simp: chan_prepared_def c1 fun_upd_idem)
  ultimately show thesis using that[OF g(4,5)] by blast
qed

lemma channel_next_sim:
  assumes "chan_rel c A F" and "finite (dom A)" and "refs_ok a A" and "A a = Some (r, b # rest)"
    and "no_exception a c"
  shows "\<exists>c' F' o' A'. stack_run (Suc (total_size A)) a A = Some (o', A') \<and> o' \<noteq> SAgain
    \<and> chan_next k (Obj a) c = Some (k, fst (the (A' a)), c')
    \<and> (chan_prepared k a c \<longrightarrow> chan_incr (Obj a) c = Some (k, c'))
    \<and> chan_rel c' A' F' \<and> chan_deref (Obj a) c' = fst (the (A' a))
    \<and> channel_scope_guard_dtor (Obj a) c' \<noteq> None
    \<and> map_option fst (channel_scope_guard_dtor (Obj a) c') = Some (sexc_of o')
    \<and> (snd (the (A' a)) \<noteq> [] \<longrightarrow> chan_prepared k a c')"
proof -
  from assms(1) obtain s where s: "gen_rel s A F" "store_rel {} c s" by (auto simp: chan_rel_def)
  from stack_run_total[OF assms(2,3,4), of "Suc (total_size A)"] obtain o' A' where
    run: "stack_run (Suc (total_size A)) a A = Some (o', A')" by auto
  from starter_sim[OF s assms(4,5), of k] obtain w t c1 where st: "cur_worker s a = Some w" "top_of s a = Some t"
    "starter_await_suspend k (Obj a) c = Some (w, c1)" "store_rel {t} c1 s" "keeps a k None c1"
    "chan_empty (Obj a) c = Some False"
    "chan_prepared k a c \<Longrightarrow> c1 = c \<and> (\<exists>g p. cs_ob c (Obj a) = Some g \<and> ch_top g = Some t \<and> cs_fr c t = Some p \<and> cp_worker p = w)"
    by metis
  from chan_run_sim[OF s(1) run st(1,2,4,5)] obtain c' s' F' where sim: "chan_resume w c1 = Some (k, c')"
    "gen_rel s' A' F'" "store_rel {t} c' s'" "keeps a k (sexc_of o') c'" "o' \<noteq> SAgain" "top_of s' a = Some t" by blast
  from sim(4) obtain g where g: "cs_ob c' (Obj a) = Some g" "ch_handle g = Some k" "ch_exception g = sexc_of o'"
    by (auto simp: keeps_def)
  have gs: "gs_ob s' (Obj a) = Some (gen_view g)" using store_rel_ob[OF sim(3)] g(1) by simp
  have "A' a \<noteq> None" using gen_rel_none(1)[OF sim(2), of a] gs by force
  then obtain r' stk' where a': "A' a = Some (r', stk')" by (cases "A' a") auto
  note ok = gen_rel_obj(1)[OF sim(2) a']
  from ok gs have r': "ch_result g = r'" by (auto simp: gen_ok_def)
  have top: "ch_top g = Some t" using sim(6) gs by (simp add: top_of_def)
  have prep: "chan_prepared k a c'" if "stk' \<noteq> []"
  proof -
    from gen_ok_top_link[OF ok sim(6)] that obtain q where q: "gs_fr s' t = Some q" "gp_link q = ConsumerOf (Obj a)"
      "\<not> gp_done q" by auto
    from store_rel_frD[OF sim(3) q(1)] obtain p where "cs_fr c' t = Some p" "frame_rel {t} t p q" .
    with q g top show ?thesis by (auto simp: chan_prepared_def frame_rel_def)
  qed
  have beg: "chan_begin k (Obj a) c = Some (k, c')" using st(3,6) sim(1) by (simp add: chan_begin_def)
  have inc: "chan_incr (Obj a) c = Some (k, c')" if "chan_prepared k a c"
    using st(7)[OF that] st(6) sim(1) by (auto simp: chan_incr_def)
  have "chan_rel c' A' F'" using sim(2) store_rel_weaken[OF sim(3)] by (auto simp: chan_rel_def)
  moreover have "channel_scope_guard_dtor (Obj a) c' \<noteq> None"
    "map_option fst (channel_scope_guard_dtor (Obj a) c') = Some (sexc_of o')"
    using g by (auto simp: channel_scope_guard_dtor_def chan_take_exception_def upd_chan_def)
  ultimately show ?thesis
    using run sim(5) beg inc g(1) r' a' prep by (auto simp: chan_next_def chan_deref_def)
qed

text \<open>C10. Awaiting the next element of a channel (\<open>begin\<close>, \<open>next\<close>, and \<open>++\<close> on a channel whose iteration has
  begun) always resumes the awaiting coroutine, however often the bodies suspend before, with the
  pointers used properly; it has done what the stack of bodies does: the elements of nested channels
  come in place, a failing leaf alone is skipped. The channel then shows the element, or null at the end
  or after an exception, and keeps the exception of the body; it can be iterated further.\<close>

theorem channel_next_refines:
  assumes "chan_rel c A F" and "finite (dom A)" and "refs_ok a A" and "A a = Some (r, b # rest)"
    and "no_exception a c"
  shows "\<exists>c' F' o' A'. stack_run (Suc (total_size A)) a A = Some (o', A') \<and> o' \<noteq> SAgain
    \<and> chan_next k (Obj a) c = Some (k, fst (the (A' a)), c')
    \<and> (chan_prepared k a c \<longrightarrow> chan_incr (Obj a) c = Some (k, c'))
    \<and> chan_rel c' A' F' \<and> chan_deref (Obj a) c' = fst (the (A' a))
    \<and> channel_scope_guard_dtor (Obj a) c' \<noteq> None
    \<and> map_option fst (channel_scope_guard_dtor (Obj a) c') = Some (sexc_of o')
    \<and> (snd (the (A' a)) \<noteq> [] \<longrightarrow> chan_prepared k a c')"
  by (rule channel_next_sim[OF assms])

lemma prepare_sim:
  assumes rel: "store_rel {} c s" and pr: "prepare_if_top x s = Some s1"
  shows "store_rel {} c s1"
proof (cases "s1 = s")
  case False
  with pr obtain t q where q: "gs_fr s t = Some q" "s1 = s\<lparr>gs_fr := (gs_fr s)(t \<mapsto> q\<lparr>gp_link := ConsumerOf x\<rparr>)\<rparr>"
    by (auto simp: prepare_if_top_def prepare_to_start_def upd_frame_def split: bind_splits if_splits)
  from store_rel_frD[OF rel q(1)] obtain p where p: "cs_fr c t = Some p" "frame_rel {} t p q" .
  then have "frame_rel {} t p (q\<lparr>gp_link := ConsumerOf x\<rparr>)" by (auto simp: frame_rel_def)
  from store_rel_upd_frame[OF rel q(1) this] p(1) show ?thesis by (simp add: q(2) fun_upd_idem)
qed (use rel in simp)

lemma swap_sim:
  assumes rel: "store_rel {} c s" and sw: "gen_swap x y s = Some s1"
  shows "\<exists>c1. chan_swap x y c = Some c1 \<and> store_rel {} c1 s1"
proof -
  from sw obtain g k s0 where g: "gs_ob s x = Some g" "gs_ob s y = Some k"
    and p: "prepare_if_top x (s\<lparr>gs_ob := (gs_ob s)(x \<mapsto> k, y \<mapsto> g)\<rparr>) = Some s0" "prepare_if_top y s0 = Some s1"
    by (auto simp: gen_swap_def split: bind_splits)
  from store_rel_obD[OF rel g(1)] obtain cg where cg: "cs_ob c x = Some cg" "g = gen_view cg" .
  from store_rel_obD[OF rel g(2)] obtain ck where ck: "cs_ob c y = Some ck" "k = gen_view ck" .
  have "store_rel {} (c\<lparr>cs_ob := (cs_ob c)(x \<mapsto> ck, y \<mapsto> cg)\<rparr>) (s\<lparr>gs_ob := (gs_ob s)(x \<mapsto> k, y \<mapsto> g)\<rparr>)"
    using rel cg ck by (simp add: store_rel_def)
  from prepare_sim[OF prepare_sim[OF this p(1)] p(2)] cg(1) ck(1) show ?thesis by (simp add: chan_swap_def)
qed

lemma create_sim:
  assumes rel: "store_rel {} c s" and cr: "gen_create h (Obj a) (erase b) s = Some s1"
  shows "store_rel {} (chan_create h (Obj a) junk b c) s1"
proof -
  have "s1 = s\<lparr>gs_fr := (gs_fr s)(h \<mapsto> generator_promise_init h (Obj a) (erase b)),
      gs_ob := (gs_ob s)(Obj a \<mapsto> generator_default\<lparr>gn_top := Some h\<rparr>)\<rparr>"
    using cr by (cases s) (auto simp: gen_create_def prepare_to_start_def upd_frame_def generator_promise_init_def)
  with rel show ?thesis
    by (simp add: store_rel_def chan_create_def frame_rel_def generator_promise_init_def channel_promise_init_def
        gen_view_def generator_default_def channel_default_def)
qed

lemma store_rel_alive: "store_rel T c s \<Longrightarrow> (cs_fr c h = None) = (gs_fr s h = None)"
  using store_rel_fr[of T c s h] by (cases "cs_fr c h"; cases "gs_fr s h") auto

text \<open>Channels stay well-formed when they are made, moved and cleared: a new channel stands for its
  body, whatever is in the union of its promise; \<open>swap\<close>, with it the move operations, exchanges what two
  channels stand for, as the next \<open>begin\<close> of each shows; \<open>clear\<close> leaves an empty channel, destroys the
  frames it owned, all of them, and no other.\<close>

theorem channel_store_well_formed:
  assumes "chan_rel c A F"
  shows "(\<forall>a h b junk. A a = None \<and> cs_fr c h = None \<and> cs_ob c (LeafOf h) = None \<and> (\<forall>d. h \<notin> set (F d)) \<longrightarrow>
        chan_rel (chan_create h (Obj a) junk b c) (A(a \<mapsto> (None, [erase b]))) (F(a := [h])))
    \<and> (\<forall>a b x y. a \<noteq> b \<and> A a = Some x \<and> A b = Some y \<longrightarrow>
        (\<exists>c'. chan_swap (Obj a) (Obj b) c = Some c' \<and> chan_rel c' (A(a \<mapsto> y, b \<mapsto> x)) (F(a := F b, b := F a))))
    \<and> (\<forall>a r stk. A a = Some (r, stk) \<longrightarrow>
        (\<exists>c'. chan_clear (Obj a) c = Some c' \<and> chan_rel c' (A(a \<mapsto> (r, []))) (F(a := []))
          \<and> (\<forall>h\<in>set (F a). cs_fr c h \<noteq> None \<and> cs_fr c' h = None)
          \<and> (\<forall>h. h \<notin> set (F a) \<longrightarrow> (cs_fr c' h = None) = (cs_fr c h = None))))"
proof -
  from assms obtain s where s: "gen_rel s A F" "store_rel {} c s" by (auto simp: chan_rel_def)
  have create: "chan_rel (chan_create h (Obj a) junk b c) (A(a \<mapsto> (None, [erase b]))) (F(a := [h]))"
    if "A a = None" "cs_fr c h = None" "cs_ob c (LeafOf h) = None" "\<forall>d. h \<notin> set (F d)" for a h b junk
  proof -
    have "gs_fr s h = None" "gs_ob s (LeafOf h) = None"
      using that(2,3) store_rel_alive[OF s(2)] store_rel_ob[OF s(2)] by auto
    from gen_rel_create[OF s(1) that(1) this, of "erase b"] that(4) create_sim[OF s(2)]
    show ?thesis unfolding chan_rel_def by blast
  qed
  have swp: "\<exists>c'. chan_swap (Obj a) (Obj b) c = Some c' \<and> chan_rel c' (A(a \<mapsto> y, b \<mapsto> x)) (F(a := F b, b := F a))"
    if "a \<noteq> b" "A a = Some x" "A b = Some y" for a b x y
    using gen_rel_swap[OF s(1) that] swap_sim[OF s(2)] unfolding chan_rel_def by blast
  have clr: "\<exists>c'. chan_clear (Obj a) c = Some c' \<and> chan_rel c' (A(a \<mapsto> (r, []))) (F(a := []))
      \<and> (\<forall>h\<in>set (F a). cs_fr c h \<noteq> None \<and> cs_fr c' h = None)
      \<and> (\<forall>h. h \<notin> set (F a) \<longrightarrow> (cs_fr c' h = None) = (cs_fr c h = None))" if "A a = Some (r, stk)" for a r stk
  proof -
    from gen_clear_owned[OF s(1) that] obtain s' where s': "gen_clear (Obj a) s = Some s'"
      "\<forall>h\<in>set (F a). gs_fr s h \<noteq> None \<and> gs_fr s' h = None \<and> gs_ob s' (LeafOf h) = None"
      "same_outside (set (F a)) s s'" "gen_rel s' (A(a \<mapsto> (r, []))) (F(a := []))" by blast
    from clear_sim[OF s(2) s'(1)] obtain c' where c': "chan_clear (Obj a) c = Some c'" "store_rel {} c' s'" by blast
    have "(cs_fr c' h = None) = (cs_fr c h = None)" if "h \<notin> set (F a)" for h
      using that s'(3) store_rel_alive[OF c'(2)] store_rel_alive[OF s(2)] by (simp add: same_outside_def)
    with c' s'(2,4) store_rel_alive[OF c'(2)] store_rel_alive[OF s(2)] show ?thesis
      unfolding chan_rel_def by blast
  qed
  show ?thesis using create swp clr by blast
qed

definition ex_chan :: "(nat, nat) chan_store" where
  "ex_chan = chan_create 20 (Obj 0) (Obj 7) [CSuspend, CYield 1, CElementsOf 1, CSuspend, CYield 2]
     (chan_create 10 (Obj 1) (Obj 7) [CYield 5, CSuspend, CThrow 6] \<lparr>cs_fr = Map.empty, cs_ob = Map.empty\<rparr>)"

lemma ex_chan_rel: "chan_rel ex_chan ex_stacks ((\<lambda>_. [])(1 := [10], 0 := [20]))"
proof -
  obtain s where s: "gen_rel s ex_stacks ((\<lambda>_. [])(1 := [10], 0 := [20]))"
    "gen_create 10 (Obj 1) ex_body1 ex_empty \<bind> gen_create 20 (Obj 0) ex_body0 = Some s"
    using ex_store_eq by blast
  then obtain s1 where s1: "gen_create 10 (Obj 1) ex_body1 ex_empty = Some s1" "gen_create 20 (Obj 0) ex_body0 s1 = Some s"
    by (auto split: bind_splits)
  have e: "store_rel {} \<lparr>cs_fr = Map.empty, cs_ob = Map.empty\<rparr> ex_empty" by (simp add: store_rel_def ex_empty_def)
  have b: "ex_body1 = erase [CYield 5, CSuspend, CThrow 6]" "ex_body0 = erase [CSuspend, CYield 1, CElementsOf 1, CSuspend, CYield 2]"
    by (simp_all add: erase_def ex_body0_def ex_body1_def)
  from create_sim[OF create_sim[OF e s1(1)[unfolded b]] s1(2)[unfolded b], of "Obj 7" "Obj 7"] s(1)
  show ?thesis unfolding ex_chan_def chan_rel_def by blast
qed

lemma channel_next_refines_witness:
  "\<exists>c'. chan_next 9 (Obj 0) ex_chan = Some (9, Some 1, c') \<and> chan_prepared 9 0 c'"
proof -
  have "no_exception 0 ex_chan" by (simp add: ex_chan_def chan_create_def no_exception_def channel_default_def)
  from channel_next_refines[OF ex_chan_rel ex_facts this, of 9] obtain c' A' o' where
    n: "stack_run (Suc (total_size ex_stacks)) 0 ex_stacks = Some (o', A')" "chan_next 9 (Obj 0) ex_chan = Some (9, fst (the (A' 0)), c')"
      "snd (the (A' 0)) \<noteq> [] \<longrightarrow> chan_prepared 9 0 c'" by blast
  from n(1) have "fst (the (A' 0)) = Some 1" "snd (the (A' 0)) \<noteq> []"
    by (auto simp: stack_turn_def ex_stacks_def ex_body0_def)
  with n show ?thesis by auto
qed

lemma channel_store_well_formed_witness:
  "\<exists>c'. chan_clear (Obj 0) ex_chan = Some c' \<and> cs_fr ex_chan 20 \<noteq> None \<and> cs_fr c' 20 = None"
proof -
  have "ex_stacks 0 = Some (None, [ex_body0])" by (simp add: ex_stacks_def)
  with channel_store_well_formed[OF ex_chan_rel, THEN conjunct2, THEN conjunct2, rule_format, of 0 None "[ex_body0]"]
  show ?thesis by auto
qed

end
