(* ===== verification/Task.thy ===== *)
theory Task
  imports Return_Block
begin

text \<open>
  \<open>task.hpp\<close>: lazy coroutines that are awaited, started or detached. Control moves by symmetric
  transfer: \<open>co_await\<close> of a task stores the owner in its promise and runs it, its final suspension
  runs the owner again, which takes the value or the exception and destroys the frame of the task.

  A body is what a coroutine does until its end: it returns, throws, suspends until it is resumed
  from outside, or awaits another task (made by the call in the \<open>co_await\<close> expression) and goes on
  with the value or the exception it gets. Addresses of new frames are never used again.
\<close>

section \<open>Promises and frames\<close>

datatype ('v, 'e) tbody = Ret 'v | Thr 'e | Ext "('v, 'e) tbody"
  | Await "('v, 'e) tbody" "'v + 'e \<Rightarrow> ('v, 'e) tbody"

text \<open>\<open>who_waits\<close>: nobody (the coroutine destroys itself at its end), \<open>noop_coroutine\<close>, or an owner.\<close>

datatype waiter = NoOne | NoopCoro | Waits handle

text \<open>
  \<open>tk_awaits\<close> is the task object in a \<open>co_await\<close> expression with what the body does afterwards.
\<close>

record ('v, 'e) task_promise =
  tk_block :: "('v, 'e) return_block"
  tk_who :: waiter
  tk_body :: "('v, 'e) tbody"
  tk_awaits :: "(handle \<times> ('v + 'e \<Rightarrow> ('v, 'e) tbody)) option"
  tk_done :: bool

text \<open>The calls of the context of a task (\<open>on_owner_setted\<close>, \<open>on_start\<close>, \<open>on_end\<close>, \<open>on_ignored_exception\<close>).\<close>

datatype ctx_call = OnOwner handle handle | OnStart handle | OnEnd handle | OnIgnored handle

record ('v, 'e) task_world =
  tw_fr :: "handle \<Rightarrow> ('v, 'e) task_promise option"
  tw_fresh :: handle
  tw_log :: "ctx_call list"

definition task_promise_init :: "('v, 'e) tbody \<Rightarrow> ('v, 'e) task_promise" where
  "task_promise_init b = \<lparr>tk_block = return_block_init, tk_who = NoOne, tk_body = b, tk_awaits = None, tk_done = False\<rparr>"

definition upd_task ::
  "handle \<Rightarrow> (('v, 'e) task_promise \<Rightarrow> ('v, 'e) task_promise) \<Rightarrow> ('v, 'e) task_world \<Rightarrow> ('v, 'e) task_world option" where
  "upd_task h f s = do { p \<leftarrow> tw_fr s h; Some (s\<lparr>tw_fr := (tw_fr s)(h \<mapsto> f p)\<rparr>) }"

definition call_ctx :: "ctx_call \<Rightarrow> ('v, 'e) task_world \<Rightarrow> ('v, 'e) task_world" where
  "call_ctx c s = s\<lparr>tw_log := tw_log s @ [c]\<rparr>"

text \<open>Calling a coroutine function: a new frame, suspended at its start (\<open>initial_suspend\<close>).\<close>

definition create_task :: "('v, 'e) tbody \<Rightarrow> ('v, 'e) task_world \<Rightarrow> handle \<times> ('v, 'e) task_world" where
  "create_task b s = (tw_fresh s, s\<lparr>tw_fr := (tw_fr s)(tw_fresh s \<mapsto> task_promise_init b), tw_fresh := Suc (tw_fresh s)\<rparr>)"

text \<open>\<open>handle.destroy()\<close>, with the return block and the task object the frame may contain.\<close>

partial_function (option) destroy_task :: "handle \<Rightarrow> ('v, 'e) task_world \<Rightarrow> ('v, 'e) task_world option" where
  "destroy_task h s = do {
     p \<leftarrow> tw_fr s h;
     _ \<leftarrow> rb_dtor (tk_block p);
     s1 \<leftarrow> (case tk_awaits p of None \<Rightarrow> Some s | Some (c, _) \<Rightarrow> destroy_task c s);
     Some (s1\<lparr>tw_fr := (tw_fr s1)(h := None)\<rparr>) }"

definition result_or_rethrow :: "handle \<Rightarrow> ('v, 'e) task_world \<Rightarrow> (('v + 'e) \<times> ('v, 'e) task_world) option" where
  "result_or_rethrow h s = do {
     p \<leftarrow> tw_fr s h;
     if rb_has_exception (tk_block p)
     then do {
       (e, b) \<leftarrow> rb_take_exception (tk_block p);
       e' \<leftarrow> e;
       s1 \<leftarrow> upd_task h (\<lambda>p. p\<lparr>tk_block := b\<rparr>) s;
       Some (Inr e', s1) }
     else do { v \<leftarrow> rb_result (tk_block p); Some (Inl v, s) } }"

text \<open>\<open>prepare_task_to_start\<close>, and \<open>await_suspend\<close> of the awaiters, which returns who runs next.\<close>

definition prepare_task_to_start :: "handle \<Rightarrow> handle \<Rightarrow> ('v, 'e) task_world \<Rightarrow> ('v, 'e) task_world option" where
  "prepare_task_to_start tsk owner s = do {
     s1 \<leftarrow> upd_task tsk (\<lambda>p. p\<lparr>tk_who := Waits owner\<rparr>) s;
     Some (call_ctx (OnStart tsk) (call_ctx (OnOwner owner tsk) s1)) }"

definition starter_ready :: "handle \<Rightarrow> ('v, 'e) task_world \<Rightarrow> bool option" where
  "starter_ready tsk s = do { p \<leftarrow> tw_fr s tsk; Some (tk_done p) }"

definition starter_suspend :: "handle \<Rightarrow> handle \<Rightarrow> ('v, 'e) task_world \<Rightarrow> (handle \<times> ('v, 'e) task_world) option" where
  "starter_suspend tsk owner s = do { s1 \<leftarrow> prepare_task_to_start tsk owner s; Some (tsk, s1) }"

definition proxy_suspend ::
  "handle \<Rightarrow> handle \<Rightarrow> handle \<Rightarrow> ('v, 'e) task_world \<Rightarrow> (handle \<times> ('v, 'e) task_world) option" where
  "proxy_suspend tsk proxy owner s = do {
     s1 \<leftarrow> prepare_task_to_start tsk proxy s;
     s2 \<leftarrow> upd_task tsk (\<lambda>p. p\<lparr>tk_who := Waits owner\<rparr>) s1;
     Some (tsk, s2) }"

section \<open>Running\<close>

text \<open>
  A turn ends with the next coroutine to run, with a suspension until \<open>h\<close> is resumed from outside, or
  with the return to the caller of \<open>resume\<close>.
\<close>

datatype tturn = Next handle | Parked handle | Returns

text \<open>
  \<open>transfer_control_to\<close>, awaited by \<open>h\<close> at its end: with a null handle it does not suspend, so the
  coroutine ends, which destroys its frame; otherwise control goes to \<open>who_waits\<close>.
\<close>

definition transfer_control_to :: "waiter \<Rightarrow> handle \<Rightarrow> ('v, 'e) task_world \<Rightarrow> (tturn \<times> ('v, 'e) task_world) option" where
  "transfer_control_to who h s = (case who of
      NoOne \<Rightarrow> do { s1 \<leftarrow> destroy_task h s; Some (Returns, s1) }
    | NoopCoro \<Rightarrow> Some (Returns, s)
    | Waits w \<Rightarrow> Some (Next w, s))"

definition task_final_suspend :: "handle \<Rightarrow> ('v, 'e) task_world \<Rightarrow> (tturn \<times> ('v, 'e) task_world) option" where
  "task_final_suspend h s = do {
     s1 \<leftarrow> upd_task h (\<lambda>p. p\<lparr>tk_done := True\<rparr>) (call_ctx (OnEnd h) s);
     p \<leftarrow> tw_fr s1 h;
     transfer_control_to (tk_who p) h s1 }"

definition task_unhandled_exception :: "'e \<Rightarrow> handle \<Rightarrow> ('v, 'e) task_world \<Rightarrow> ('v, 'e) task_world option" where
  "task_unhandled_exception e h s = do {
     p \<leftarrow> tw_fr s h;
     let s1 = (if tk_who p = NoOne then call_ctx (OnIgnored h) s else s);
     b \<leftarrow> rb_set_exception (Some e) (tk_block p);
     upd_task h (\<lambda>p. p\<lparr>tk_block := b\<rparr>) s1 }"

text \<open>\<open>await_resume\<close> of the owner: takes the outcome, then the task object of the expression dies.\<close>

definition end_await :: "handle \<Rightarrow> handle \<Rightarrow> ('v + 'e \<Rightarrow> ('v, 'e) tbody) \<Rightarrow> ('v, 'e) task_world \<Rightarrow> ('v, 'e) task_world option" where
  "end_await h c k s = do {
     p \<leftarrow> tw_fr s c;
     if \<not> tk_done p then None
     else do {
       (r, s1) \<leftarrow> result_or_rethrow c s;
       s2 \<leftarrow> destroy_task c s1;
       upd_task h (\<lambda>p. p\<lparr>tk_awaits := None, tk_body := k r\<rparr>) s2 } }"

definition task_turn :: "handle \<Rightarrow> ('v, 'e) task_world \<Rightarrow> (tturn \<times> ('v, 'e) task_world) option" where
  "task_turn h s = do {
     p \<leftarrow> tw_fr s h;
     if tk_done p then None
     else (case tk_awaits p of
       Some (c, k) \<Rightarrow> do { s1 \<leftarrow> end_await h c k s; Some (Next h, s1) }
     | None \<Rightarrow> (case tk_body p of
         Ret v \<Rightarrow> do {
           (_, b) \<leftarrow> rb_return_value (Some v) (tk_block p);
           s1 \<leftarrow> upd_task h (\<lambda>p. p\<lparr>tk_block := b\<rparr>) s;
           task_final_suspend h s1 }
       | Thr e \<Rightarrow> do { s1 \<leftarrow> task_unhandled_exception e h s; task_final_suspend h s1 }
       | Ext b \<Rightarrow> do { s1 \<leftarrow> upd_task h (\<lambda>p. p\<lparr>tk_body := b\<rparr>) s; Some (Parked h, s1) }
       | Await b k \<Rightarrow> (let (c, s1) = create_task b s in do {
           s2 \<leftarrow> upd_task h (\<lambda>p. p\<lparr>tk_awaits := Some (c, k)\<rparr>) s1;
           ready \<leftarrow> starter_ready c s2;
           if ready then Some (Next h, s2)
           else do { (w, s3) \<leftarrow> starter_suspend c h s2; Some (Next w, s3) } }))) }"

text \<open>\<open>resume()\<close>, and a world that resumes what is parked, \<open>n\<close> times.\<close>

partial_function (option) task_resume :: "handle \<Rightarrow> ('v, 'e) task_world \<Rightarrow> (tturn \<times> ('v, 'e) task_world) option" where
  "task_resume h s = do {
     (t, s1) \<leftarrow> task_turn h s;
     case t of Next w \<Rightarrow> task_resume w s1 | _ \<Rightarrow> Some (t, s1) }"

fun drive :: "nat \<Rightarrow> handle \<Rightarrow> ('v, 'e) task_world \<Rightarrow> (tturn \<times> ('v, 'e) task_world) option" where
  "drive 0 h s = task_resume h s"
| "drive (Suc n) h s = do {
     (t, s1) \<leftarrow> task_resume h s;
     case t of Parked w \<Rightarrow> drive n w s1 | _ \<Rightarrow> None }"

section \<open>The task object\<close>

text \<open>A \<open>task\<close> object is its handle, which may be null.\<close>

definition task_empty :: "handle option \<Rightarrow> bool" where
  "task_empty t \<longleftrightarrow> t = None"

definition task_release :: "handle option \<Rightarrow> handle option \<times> handle option" where
  "task_release t = (t, None)"

definition task_move :: "handle option \<Rightarrow> handle option \<times> handle option" where
  "task_move other = (other, None)"

definition task_move_assign :: "handle option \<Rightarrow> handle option \<Rightarrow> handle option \<times> handle option" where
  "task_move_assign this other = (other, this)"

definition task_dtor :: "handle option \<Rightarrow> ('v, 'e) task_world \<Rightarrow> ('v, 'e) task_world option" where
  "task_dtor t s = (case t of None \<Rightarrow> Some s | Some h \<Rightarrow> destroy_task h s)"

definition task_detach ::
  "handle option \<Rightarrow> ('v, 'e) task_world \<Rightarrow> ((handle option \<times> handle option) \<times> ('v, 'e) task_world) option" where
  "task_detach this s = (let (h, this1) = task_release this in (case h of
      None \<Rightarrow> Some ((h, this1), s)
    | Some a \<Rightarrow> do { s1 \<leftarrow> upd_task a (\<lambda>p. p\<lparr>tk_who := NoOne\<rparr>) s; Some ((h, this1), s1) }))"

text \<open>
  \<open>start\<close> and \<open>start_and_detach\<close> up to the \<open>resume\<close> of the handle; then the coroutine runs.
\<close>

definition task_start :: "handle option \<Rightarrow> ('v, 'e) task_world \<Rightarrow> (handle \<times> ('v, 'e) task_world) option" where
  "task_start t s = do {
     h \<leftarrow> fst (task_release t);
     s1 \<leftarrow> upd_task h (\<lambda>p. p\<lparr>tk_who := NoopCoro\<rparr>) s;
     Some (h, call_ctx (OnStart h) s1) }"

definition task_start_and_detach ::
  "bool \<Rightarrow> handle option \<Rightarrow> ('v, 'e) task_world \<Rightarrow> (bool \<times> handle option \<times> ('v, 'e) task_world) option" where
  "task_start_and_detach stop_at_end this s = do {
     ((r, this1), s1) \<leftarrow> task_detach this s;
     case r of
       None \<Rightarrow> Some (False, None, s1)
     | Some h \<Rightarrow> do {
         p \<leftarrow> tw_fr s1 h;
         if tk_done p
         then (if \<not> stop_at_end then do { s2 \<leftarrow> destroy_task h s1; Some (False, None, s2) }
               else Some (False, Some h, s1))
         else do {
           s2 \<leftarrow> upd_task h (\<lambda>p. p\<lparr>tk_who := if stop_at_end then NoopCoro else NoOne\<rparr>) s1;
           Some (True, Some h, call_ctx (OnStart h) s2) } } }"

text \<open>\<open>start_result\<close>: its awaiter and its destructor.\<close>

definition already_started_ready :: "handle \<Rightarrow> ('v, 'e) task_world \<Rightarrow> bool option" where
  "already_started_ready h s = do { p \<leftarrow> tw_fr s h; Some (tk_done p) }"

definition already_started_suspend :: "handle \<Rightarrow> handle \<Rightarrow> ('v, 'e) task_world \<Rightarrow> ('v, 'e) task_world option" where
  "already_started_suspend h owner s = prepare_task_to_start h owner s"

definition start_result_dtor :: "handle \<Rightarrow> ('v, 'e) task_world \<Rightarrow> ('v, 'e) task_world option" where
  "start_result_dtor h s = do {
     p \<leftarrow> tw_fr s h;
     if tk_done p then destroy_task h s else upd_task h (\<lambda>p. p\<lparr>tk_who := NoOne\<rparr>) s }"

section \<open>Direct style\<close>

text \<open>
  What a body computes if awaiting is calling: its outcome, how often it has to be resumed from
  outside, how many frames it needs, and the calls of the contexts, for a body in the frame \<open>h\<close> when
  \<open>f\<close> is the next free address.
\<close>

primrec eval :: "('v, 'e) tbody \<Rightarrow> 'v + 'e" where
  "eval (Ret v) = Inl v"
| "eval (Thr e) = Inr e"
| "eval (Ext b) = eval b"
| "eval (Await b k) = (let r = eval b in eval (k r))"

primrec resumes :: "('v, 'e) tbody \<Rightarrow> nat" where
  "resumes (Ret v) = 0"
| "resumes (Thr e) = 0"
| "resumes (Ext b) = Suc (resumes b)"
| "resumes (Await b k) = resumes b + resumes (k (eval b))"

primrec frames :: "('v, 'e) tbody \<Rightarrow> nat" where
  "frames (Ret v) = 0"
| "frames (Thr e) = 0"
| "frames (Ext b) = frames b"
| "frames (Await b k) = Suc (frames b) + frames (k (eval b))"

primrec calls :: "('v, 'e) tbody \<Rightarrow> handle \<Rightarrow> handle \<Rightarrow> ctx_call list" where
  "calls (Ret v) h f = []"
| "calls (Thr e) h f = []"
| "calls (Ext b) h f = calls b h f"
| "calls (Await b k) h f = [OnOwner h f, OnStart f] @ calls b f (Suc f) @ [OnEnd f]
     @ calls (k (eval b)) h (Suc f + frames b)"

section \<open>Every run follows the direct style\<close>

text \<open>
  A run of coroutines in which control stays with tasks: a turn hands over to the next coroutine, or
  it parks and the world resumes it; the number counts the resumes of the world.
\<close>

inductive runs :: "handle \<Rightarrow> ('v, 'e) task_world \<Rightarrow> nat \<Rightarrow> handle \<Rightarrow> ('v, 'e) task_world \<Rightarrow> bool" where
  runs_refl: "runs h s 0 h s"
| runs_next: "task_turn h s = Some (Next w, s1) \<Longrightarrow> runs w s1 n h' s' \<Longrightarrow> runs h s n h' s'"
| runs_park: "task_turn h s = Some (Parked w, s1) \<Longrightarrow> runs w s1 n h' s' \<Longrightarrow> runs h s (Suc n) h' s'"

lemma runs_trans: "runs h s n h1 s1 \<Longrightarrow> runs h1 s1 m h2 s2 \<Longrightarrow> runs h s (n + m) h2 s2"
  by (induction h s n h1 s1 rule: runs.induct) (auto intro: runs.intros)

lemma runs_drive:
  assumes "runs h s n h' s'" and "task_turn h' s' = Some (t, s2)" and "\<forall>w. t \<noteq> Next w"
  shows "drive n h s = Some (t, s2)"
  using assms
proof (induction h s n h' s' rule: runs.induct)
  case (runs_refl h s)
  then show ?case by (cases t) (simp_all add: task_resume.simps)
next
  case (runs_next h s w s1 n h' s')
  then show ?case by (cases n) (simp_all add: task_resume.simps[of h s])
next
  case (runs_park h s w s1 n h' s')
  then show ?case by (simp add: task_resume.simps[of h s])
qed

definition tw_fresh_ok :: "('v, 'e) task_world \<Rightarrow> bool" where
  "tw_fresh_ok s \<longleftrightarrow> (\<forall>a\<ge>tw_fresh s. tw_fr s a = None)"

lemma tw_fresh_okD: "tw_fresh_ok s \<Longrightarrow> tw_fr s h = Some p \<Longrightarrow> h < tw_fresh s"
  by (metis not_le_imp_less option.distinct(1) tw_fresh_ok_def)

definition body_of :: "'v + 'e \<Rightarrow> ('v, 'e) tbody" where
  "body_of r = (case r of Inl v \<Rightarrow> Ret v | Inr e \<Rightarrow> Thr e)"

definition block_of :: "'v + 'e \<Rightarrow> ('v, 'e) return_block" where
  "block_of r = (case r of Inl v \<Rightarrow> \<lparr>rb_data = HoldsValue v, rb_kind = RetVal\<rparr>
     | Inr e \<Rightarrow> \<lparr>rb_data = HoldsEx (Some e), rb_kind = RetEx\<rparr>)"

definition outcome_world ::
  "handle \<Rightarrow> ('v, 'e) task_promise \<Rightarrow> ('v, 'e) tbody \<Rightarrow> ('v, 'e) task_world \<Rightarrow> ('v, 'e) task_world" where
  "outcome_world h p b s = \<lparr>tw_fr = (tw_fr s)(h \<mapsto> p\<lparr>tk_body := body_of (eval b)\<rparr>),
     tw_fresh = tw_fresh s + frames b, tw_log = tw_log s @ calls b h (tw_fresh s)\<rparr>"

lemmas block_simps = rb_return_value_def rb_set_exception_def rb_take_exception_def rb_result_def
  rb_has_exception_def return_block_init_def rb_dtor_def construct_value_def construct_ex_def
  destroy_value_def destroy_ex_def as_value_def as_ex_def

lemmas turn_simps = transfer_control_to_def upd_task_def call_ctx_def task_final_suspend_def task_unhandled_exception_def
  result_or_rethrow_def end_await_def starter_ready_def starter_suspend_def prepare_task_to_start_def

definition ignored_calls :: "'v + 'e \<Rightarrow> handle \<Rightarrow> ctx_call list" where
  "ignored_calls r h = (case r of Inl _ \<Rightarrow> [] | Inr _ \<Rightarrow> [OnIgnored h])"

text \<open>The last turn of a body, by who waits.\<close>

lemma last_turn:
  assumes "tw_fr s h = Some p" "\<not> tk_done p" "tk_awaits p = None" "tk_body p = body_of r"
    "tk_block p = return_block_init"
  shows "tk_who p = Waits w \<Longrightarrow> task_turn h s = Some (Next w, s\<lparr>tw_fr := (tw_fr s)(h \<mapsto>
      p\<lparr>tk_block := block_of r, tk_done := True\<rparr>), tw_log := tw_log s @ [OnEnd h]\<rparr>)"
    and "tk_who p = NoopCoro \<Longrightarrow> task_turn h s = Some (Returns, s\<lparr>tw_fr := (tw_fr s)(h \<mapsto>
      p\<lparr>tk_block := block_of r, tk_done := True\<rparr>), tw_log := tw_log s @ [OnEnd h]\<rparr>)"
    and "tk_who p = NoOne \<Longrightarrow> task_turn h s = Some (Returns, s\<lparr>tw_fr := (tw_fr s)(h := None),
      tw_log := tw_log s @ ignored_calls r h @ [OnEnd h]\<rparr>)"
  using assms
  by (cases r; simp add: task_turn_def turn_simps block_simps body_of_def block_of_def ignored_calls_def
      destroy_task.simps)+

text \<open>The turn that reaches a \<open>co_await\<close>, and the one after the awaited task has ended.\<close>

lemma await_turn:
  assumes "tw_fr s h = Some p" "\<not> tk_done p" "tk_awaits p = None" "tk_body p = Await b k" "h < tw_fresh s"
  shows "task_turn h s = Some (Next (tw_fresh s),
    \<lparr>tw_fr = (tw_fr s)(h \<mapsto> p\<lparr>tk_awaits := Some (tw_fresh s, k)\<rparr>,
       tw_fresh s \<mapsto> (task_promise_init b)\<lparr>tk_who := Waits h\<rparr>),
     tw_fresh = Suc (tw_fresh s), tw_log = tw_log s @ [OnOwner h (tw_fresh s), OnStart (tw_fresh s)]\<rparr>)"
  using assms
  by (simp add: task_turn_def turn_simps create_task_def task_promise_init_def fun_upd_twist[of h])

lemma resumed_turn:
  assumes "tw_fr s h = Some p" "\<not> tk_done p" "tk_awaits p = Some (c, k)" "c \<noteq> h"
    "tw_fr s c = Some q" "tk_done q" "tk_awaits q = None" "tk_block q = block_of r"
  shows "task_turn h s = Some (Next h, s\<lparr>tw_fr := (tw_fr s)(c := None, h \<mapsto> p\<lparr>tk_awaits := None, tk_body := k r\<rparr>)\<rparr>)"
  using assms
  by (cases r) (simp_all add: task_turn_def turn_simps block_simps block_of_def destroy_task.simps)

text \<open>The world when the awaited task starts, and when the body goes on after it.\<close>

definition await_child :: "handle \<Rightarrow> ('v, 'e) tbody \<Rightarrow> ('v, 'e) task_promise" where
  "await_child h b = (task_promise_init b)\<lparr>tk_who := Waits h\<rparr>"

definition await_started :: "handle \<Rightarrow> ('v, 'e) task_promise \<Rightarrow> ('v, 'e) tbody \<Rightarrow>
    ('v + 'e \<Rightarrow> ('v, 'e) tbody) \<Rightarrow> ('v, 'e) task_world \<Rightarrow> ('v, 'e) task_world" where
  "await_started h p b k s = \<lparr>tw_fr = (tw_fr s)(h \<mapsto> p\<lparr>tk_awaits := Some (tw_fresh s, k)\<rparr>, tw_fresh s \<mapsto> await_child h b),
     tw_fresh = Suc (tw_fresh s), tw_log = tw_log s @ [OnOwner h (tw_fresh s), OnStart (tw_fresh s)]\<rparr>"

definition await_over :: "handle \<Rightarrow> ('v, 'e) task_promise \<Rightarrow> ('v, 'e) tbody \<Rightarrow>
    ('v + 'e \<Rightarrow> ('v, 'e) tbody) \<Rightarrow> ('v, 'e) task_world \<Rightarrow> ('v, 'e) task_world" where
  "await_over h p b k s = (let c = tw_fresh s in
     \<lparr>tw_fr = (tw_fr s)(h \<mapsto> p\<lparr>tk_awaits := None, tk_body := k (eval b)\<rparr>), tw_fresh = Suc c + frames b,
      tw_log = tw_log s @ [OnOwner h c, OnStart c] @ calls b c (Suc c) @ [OnEnd c]\<rparr>)"

lemma await_started_runs:
  assumes "tw_fr s h = Some p" "\<not> tk_done p" "tk_awaits p = None" "tk_body p = Await b k" "tw_fresh_ok s"
  shows "runs h s 0 (tw_fresh s) (await_started h p b k s)"
proof (rule runs_next[OF _ runs_refl])
  show "task_turn h s = Some (Next (tw_fresh s), await_started h p b k s)"
    using await_turn[OF assms(1-4) tw_fresh_okD[OF assms(5,1)]] by (simp add: await_started_def await_child_def)
qed

lemma await_over_runs:
  assumes "tw_fr s h = Some p" "\<not> tk_done p" "tk_awaits p = None" "tw_fresh_ok s"
  shows "runs (tw_fresh s) (outcome_world (tw_fresh s) (await_child h b) b (await_started h p b k s)) 0
    h (await_over h p b k s)"
proof -
  let ?c = "tw_fresh s" and ?r = "eval b" and ?q = "await_child h b"
  let ?s1 = "outcome_world ?c ?q b (await_started h p b k s)"
  let ?s3 = "?s1\<lparr>tw_fr := (tw_fr ?s1)(?c \<mapsto>
      ?q\<lparr>tk_body := body_of ?r, tk_block := block_of ?r, tk_done := True\<rparr>), tw_log := tw_log ?s1 @ [OnEnd ?c]\<rparr>"
  have h: "h < ?c" by (rule tw_fresh_okD[OF assms(4,1)])
  have "task_turn ?c ?s1 = Some (Next h, ?s3)"
    by (rule last_turn(1)[where p = "?q\<lparr>tk_body := body_of ?r\<rparr>" and r = ?r, simplified])
      (simp_all add: outcome_world_def await_child_def task_promise_init_def)
  moreover have "task_turn h ?s3 = Some (Next h, await_over h p b k s)"
  proof -
    have "tw_fr s ?c = None" using assms(4) by (simp add: tw_fresh_ok_def)
    then have "await_over h p b k s = ?s3\<lparr>tw_fr := (tw_fr ?s3)(?c := None,
        h \<mapsto> p\<lparr>tk_awaits := Some (?c, k), tk_awaits := None, tk_body := k ?r\<rparr>)\<rparr>"
      using h by (auto simp: await_over_def await_started_def outcome_world_def Let_def fun_eq_iff)
    then show ?thesis
      using resumed_turn[of ?s3 h "p\<lparr>tk_awaits := Some (?c, k)\<rparr>" ?c k _ ?r] h assms(2)
      by (simp add: await_started_def outcome_world_def await_child_def task_promise_init_def)
  qed
  ultimately show ?thesis by (rule runs_next[OF _ runs_next[OF _ runs_refl]])
qed

lemma await_phases_ok:
  assumes "tw_fr s h = Some p" "tw_fresh_ok s"
  shows "tw_fresh_ok (await_started h p b k s)" and "tw_fresh_ok (await_over h p b k s)"
  using assms tw_fresh_okD[OF assms(2,1)]
  by (auto simp: tw_fresh_ok_def await_started_def await_over_def Let_def)

lemma await_over_outcome:
  "tk_awaits p = None \<Longrightarrow>
   outcome_world h (p\<lparr>tk_awaits := None, tk_body := k (eval b)\<rparr>) (k (eval b)) (await_over h p b k s)
   = outcome_world h p (Await b k) s"
  by (cases p) (simp add: outcome_world_def await_over_def Let_def)

lemmas await_frames = await_started_def await_over_def await_child_def task_promise_init_def Let_def

text \<open>
  A body that starts in a frame reaches its \<open>co_return\<close> or its exception with the outcome of the
  direct style; every frame it used on the way is destroyed again.
\<close>

lemma body_runs:
  assumes "tw_fr s h = Some p" "\<not> tk_done p" "tk_awaits p = None" "tk_body p = b" "tw_fresh_ok s"
  shows "runs h s (resumes b) h (outcome_world h p b s)"
  using assms
proof (induction b arbitrary: h s p)
  case (Ret v)
  then have "outcome_world h p (Ret v) s = s"
    by (simp add: outcome_world_def body_of_def fun_upd_idem)
  then show ?case by (simp add: runs_refl)
next
  case (Thr e)
  then have "outcome_world h p (Thr e) s = s"
    by (simp add: outcome_world_def body_of_def fun_upd_idem)
  then show ?case by (simp add: runs_refl)
next
  case (Ext b)
  let ?s = "s\<lparr>tw_fr := (tw_fr s)(h \<mapsto> p\<lparr>tk_body := b\<rparr>)\<rparr>"
  have "task_turn h s = Some (Parked h, ?s)"
    using Ext.prems by (simp add: task_turn_def upd_task_def)
  moreover have "tw_fresh_ok ?s"
    using Ext.prems tw_fresh_okD[OF Ext.prems(5,1)] by (auto simp: tw_fresh_ok_def)
  then have "runs h ?s (resumes b) h (outcome_world h (p\<lparr>tk_body := b\<rparr>) b ?s)"
    using Ext.prems by (intro Ext.IH) simp_all
  moreover have "outcome_world h (p\<lparr>tk_body := b\<rparr>) b ?s = outcome_world h p (Ext b) s"
    by (simp add: outcome_world_def)
  ultimately show ?case by (simp add: runs_park)
next
  case (Await b k)
  note ok = await_phases_ok[OF Await.prems(1,5)]
  have child: "runs (tw_fresh s) (await_started h p b k s) (resumes b) (tw_fresh s)
      (outcome_world (tw_fresh s) (await_child h b) b (await_started h p b k s))"
    using ok(1) by (intro Await.IH(1)) (simp_all add: await_frames)
  have rest: "runs h (await_over h p b k s) (resumes (k (eval b))) h (outcome_world h p (Await b k) s)"
    unfolding await_over_outcome[OF Await.prems(3), symmetric]
    using Await.prems(2) ok(2) by (intro Await.IH(2)) (simp_all add: await_frames)
  show ?case
    using runs_trans[OF runs_trans[OF runs_trans[OF await_started_runs[OF Await.prems] child]
        await_over_runs[OF Await.prems(1-3,5)]] rest] by simp
qed

section \<open>Detached and started tasks\<close>

definition run_detached :: "('v, 'e) tbody \<Rightarrow> ('v, 'e) task_world \<Rightarrow> (tturn \<times> ('v, 'e) task_world) option" where
  "run_detached b s = (let (h, s1) = create_task b s in do {
     (_, r, s2) \<leftarrow> task_start_and_detach False (Some h) s1;
     h' \<leftarrow> r;
     drive (resumes b) h' s2 })"

definition run_started ::
  "('v, 'e) tbody \<Rightarrow> ('v, 'e) task_world \<Rightarrow> (bool \<times> ('v + 'e) \<times> ('v, 'e) task_world) option" where
  "run_started b s = (let (t, s1) = create_task b s in do {
     (h, s2) \<leftarrow> task_start (Some t) s1;
     (_, s3) \<leftarrow> drive (resumes b) h s2;
     ready \<leftarrow> already_started_ready h s3;
     (r, s4) \<leftarrow> result_or_rethrow h s3;
     s5 \<leftarrow> start_result_dtor h s4;
     Some (ready, r, s5) })"

lemma fresh_frame_none: "tw_fresh_ok s \<Longrightarrow> tw_fr s (tw_fresh s) = None"
  by (simp add: tw_fresh_ok_def)

text \<open>A created task that is given to \<open>who\<close> and started, up to its last turn.\<close>

definition ready_world :: "waiter \<Rightarrow> ('v, 'e) tbody \<Rightarrow> ('v, 'e) task_world \<Rightarrow> ('v, 'e) task_world" where
  "ready_world who b s = \<lparr>tw_fr = (tw_fr s)(tw_fresh s \<mapsto> (task_promise_init b)\<lparr>tk_who := who\<rparr>),
     tw_fresh = Suc (tw_fresh s), tw_log = tw_log s @ [OnStart (tw_fresh s)]\<rparr>"

lemma ready_world_runs:
  assumes "tw_fresh_ok s"
  shows "runs (tw_fresh s) (ready_world who b s) (resumes b) (tw_fresh s)
    (outcome_world (tw_fresh s) ((task_promise_init b)\<lparr>tk_who := who\<rparr>) b (ready_world who b s))"
  using assms by (intro body_runs) (auto simp: ready_world_def task_promise_init_def tw_fresh_ok_def)

lemma ready_worlds:
  shows "task_start (Some (tw_fresh s)) (snd (create_task b s)) = Some (tw_fresh s, ready_world NoopCoro b s)"
    and "task_start_and_detach False (Some (tw_fresh s)) (snd (create_task b s))
      = Some (True, Some (tw_fresh s), ready_world NoOne b s)"
  by (cases s; simp add: create_task_def task_start_def task_start_and_detach_def task_detach_def
      task_release_def upd_task_def call_ctx_def ready_world_def task_promise_init_def)+

text \<open>C25. A task that is started and detached runs to its end and destroys its own frame: after the
  resumes its body needs no frame is left that was not there before, every frame of an awaited task
  included, and the calls of the contexts are those of a direct call, with \<open>on_start\<close> first,
  \<open>on_end\<close> last, and \<open>on_ignored_exception\<close> before it exactly if the body ends with an exception.\<close>

theorem detached_task_frees_itself:
  assumes "tw_fresh_ok s"
  shows "run_detached b s = Some (Returns, \<lparr>tw_fr = tw_fr s, tw_fresh = Suc (tw_fresh s) + frames b,
    tw_log = tw_log s @ [OnStart (tw_fresh s)] @ calls b (tw_fresh s) (Suc (tw_fresh s))
      @ ignored_calls (eval b) (tw_fresh s) @ [OnEnd (tw_fresh s)]\<rparr>)"
proof -
  let ?h = "tw_fresh s" and ?p = "(task_promise_init b)\<lparr>tk_who := NoOne\<rparr>"
  let ?s1 = "outcome_world ?h ?p b (ready_world NoOne b s)"
  have "task_turn ?h ?s1 = Some (Returns, ?s1\<lparr>tw_fr := (tw_fr ?s1)(?h := None),
      tw_log := tw_log ?s1 @ ignored_calls (eval b) ?h @ [OnEnd ?h]\<rparr>)"
    by (rule last_turn(3)[where p = "?p\<lparr>tk_body := body_of (eval b)\<rparr>"])
      (simp_all add: outcome_world_def task_promise_init_def)
  from runs_drive[OF ready_world_runs[OF assms, of NoOne] this]
  have "drive (resumes b) ?h (ready_world NoOne b s) = Some (Returns, \<lparr>tw_fr = tw_fr s,
    tw_fresh = Suc (tw_fresh s) + frames b, tw_log = tw_log s @ [OnStart (tw_fresh s)]
      @ calls b (tw_fresh s) (Suc (tw_fresh s)) @ ignored_calls (eval b) (tw_fresh s) @ [OnEnd (tw_fresh s)]\<rparr>)"
    by (simp add: outcome_world_def ready_world_def fresh_frame_none[OF assms] fun_upd_idem)
  then show ?thesis
    using ready_worlds(2)[of s b] by (simp add: run_detached_def create_task_def)
qed

theorem detached_task_frees_itself_witness:
  "run_detached (Await (Ext (Thr (7::nat))) (\<lambda>r. case r of Inl v \<Rightarrow> Ret v | Inr e \<Rightarrow> Thr e))
     \<lparr>tw_fr = Map.empty, tw_fresh = 0, tw_log = []\<rparr>
   = Some (Returns, \<lparr>tw_fr = Map.empty, tw_fresh = 2,
       tw_log = [OnStart 0, OnOwner 0 1, OnStart 1, OnEnd 1, OnIgnored 0, OnEnd (0 :: nat)]\<rparr> :: (nat, nat) task_world)"
  by (subst detached_task_frees_itself)
    (simp_all add: tw_fresh_ok_def ignored_calls_def numeral_2_eq_2)

lemma started_task_runs:
  assumes "tw_fresh_ok s"
  shows "run_started b s = Some (True, eval b, \<lparr>tw_fr = tw_fr s, tw_fresh = Suc (tw_fresh s) + frames b,
    tw_log = tw_log s @ [OnStart (tw_fresh s)] @ calls b (tw_fresh s) (Suc (tw_fresh s)) @ [OnEnd (tw_fresh s)]\<rparr>)"
proof -
  let ?h = "tw_fresh s" and ?p = "(task_promise_init b)\<lparr>tk_who := NoopCoro\<rparr>"
  let ?s1 = "outcome_world ?h ?p b (ready_world NoopCoro b s)"
  have "task_turn ?h ?s1 = Some (Returns, ?s1\<lparr>tw_fr := (tw_fr ?s1)(?h \<mapsto>
      ?p\<lparr>tk_body := body_of (eval b), tk_block := block_of (eval b), tk_done := True\<rparr>),
      tw_log := tw_log ?s1 @ [OnEnd ?h]\<rparr>)"
    by (rule last_turn(2)[where p = "?p\<lparr>tk_body := body_of (eval b)\<rparr>" and r = "eval b", simplified])
      (simp_all add: outcome_world_def task_promise_init_def)
  from runs_drive[OF ready_world_runs[OF assms, of NoopCoro] this]
  have drive: "drive (resumes b) ?h (ready_world NoopCoro b s) = Some (Returns, \<lparr>tw_fr = (tw_fr s)(?h \<mapsto>
      \<lparr>tk_block = block_of (eval b), tk_who = NoopCoro, tk_body = body_of (eval b), tk_awaits = None, tk_done = True\<rparr>),
    tw_fresh = Suc (tw_fresh s) + frames b, tw_log = tw_log s @ [OnStart (tw_fresh s)]
      @ calls b (tw_fresh s) (Suc (tw_fresh s)) @ [OnEnd (tw_fresh s)]\<rparr>)"
    by (simp add: outcome_world_def ready_world_def task_promise_init_def)
  show ?thesis
    using ready_worlds(1)[of s b] fresh_frame_none[OF assms]
    by (cases "eval b") (simp_all add: run_started_def create_task_def drive already_started_ready_def
        result_or_rethrow_def start_result_dtor_def destroy_task.simps block_of_def block_simps
        upd_task_def fun_upd_idem)
qed

section \<open>The owner of a running task changes\<close>

text \<open>
  The destructor of a \<open>start_result\<close> whose task is not done forgets the owner, and awaiting it sets one.
  \<open>set_owner who g\<close> is the effect on the frame \<open>g\<close>, which no turn before the last one of \<open>g\<close> notices.
\<close>

definition set_owner :: "waiter \<Rightarrow> handle \<Rightarrow> ('v, 'e) task_world \<Rightarrow> ('v, 'e) task_world" where
  "set_owner who g s = s\<lparr>tw_fr := (tw_fr s)(g := map_option (\<lambda>p. p\<lparr>tk_who := who\<rparr>) (tw_fr s g))\<rparr>"

definition owned_if :: "waiter \<Rightarrow> bool \<Rightarrow> ('v, 'e) task_promise \<Rightarrow> ('v, 'e) task_promise" where
  "owned_if who c p = (if c then p\<lparr>tk_who := who\<rparr> else p)"

lemma owned_if_simps [simp]:
  "tk_block (owned_if who c p) = tk_block p" "tk_body (owned_if who c p) = tk_body p"
  "tk_awaits (owned_if who c p) = tk_awaits p" "tk_done (owned_if who c p) = tk_done p"
  by (simp_all add: owned_if_def)

lemma set_owner_frame: "tw_fr s h = Some p \<Longrightarrow> tw_fr (set_owner who g s) h = Some (owned_if who (g = h) p)"
  by (auto simp: set_owner_def owned_if_def)

lemma set_owner_keeps [simp]: "tw_fresh (set_owner who g s) = tw_fresh s" "tw_log (set_owner who g s) = tw_log s"
  by (simp_all add: set_owner_def)

lemma set_owner_ok: "tw_fresh_ok (set_owner who g s) = tw_fresh_ok s"
  by (auto simp: tw_fresh_ok_def set_owner_def)

lemma outcome_owned:
  "outcome_world h (owned_if who (g = h) p) b (set_owner who g s) = set_owner who g (outcome_world h p b s)"
  by (auto simp: outcome_world_def set_owner_def owned_if_def fun_eq_iff)

lemma await_over_owned:
  "await_over h (owned_if who (g = h) p) b k (set_owner who g s) = set_owner who g (await_over h p b k s)"
  by (auto simp: await_over_def set_owner_def owned_if_def fun_eq_iff Let_def)

lemma await_started_owned:
  "g \<noteq> tw_fresh s \<Longrightarrow>
   await_started h (owned_if who (g = h) p) b k (set_owner who g s) = set_owner who g (await_started h p b k s)"
  by (auto simp: await_started_def set_owner_def owned_if_def fun_eq_iff)

lemma owned_body_runs:
  assumes "tw_fr s h = Some p" "\<not> tk_done p" "tk_awaits p = None" "tk_body p = b" "tw_fresh_ok s"
  shows "runs h (set_owner who g s) (resumes b) h (set_owner who g (outcome_world h p b s))"
  unfolding outcome_owned[symmetric]
  using assms by (intro body_runs) (simp_all add: set_owner_frame set_owner_ok)

lemma owned_await_over_runs:
  assumes "tw_fr s h = Some p" "\<not> tk_done p" "tk_awaits p = None" "tk_body p = Await b k" "tw_fresh_ok s"
    and "g \<noteq> tw_fresh s"
  shows "runs (tw_fresh s) (set_owner who g (outcome_world (tw_fresh s) (await_child h b) b (await_started h p b k s)))
    (resumes (k (eval b))) h (set_owner who g (outcome_world h p (Await b k) s))"
proof -
  have "runs (tw_fresh s) (set_owner who g (outcome_world (tw_fresh s) (await_child h b) b (await_started h p b k s))) 0
      h (set_owner who g (await_over h p b k s))"
    using await_over_runs[of "set_owner who g s" h "owned_if who (g = h) p" b k] assms
      outcome_owned[of "tw_fresh s" who g "await_child h b" b "await_started h p b k s"]
    by (simp add: set_owner_frame set_owner_ok await_over_owned await_started_owned owned_if_def[of _ False])
  moreover have "runs h (set_owner who g (await_over h p b k s)) (resumes (k (eval b))) h
      (set_owner who g (outcome_world h p (Await b k) s))"
    unfolding await_over_outcome[OF assms(3), symmetric]
    using assms(2) await_phases_ok(2)[OF assms(1,5)]
    by (intro owned_body_runs) (simp_all add: await_frames)
  ultimately show ?thesis using runs_trans by fastforce
qed

text \<open>
  Wherever the run of \<open>h\<close> is parked, changing the owner of a frame \<open>g\<close> from before leads to the same
  end but for the owner of \<open>g\<close>.
\<close>

definition parks :: "handle \<Rightarrow> ('v, 'e) task_world \<Rightarrow> nat \<Rightarrow> handle \<Rightarrow> ('v, 'e) task_world \<Rightarrow> bool" where
  "parks h s j w s1 \<longleftrightarrow> (\<exists>h' s'. runs h s j h' s' \<and> task_turn h' s' = Some (Parked w, s1))"

lemma parks_after: "runs h s n h1 s1 \<Longrightarrow> parks h1 s1 j w s2 \<Longrightarrow> parks h s (n + j) w s2"
  unfolding parks_def using runs_trans by blast

lemma owned_runs:
  assumes "tw_fr s h = Some p" "\<not> tk_done p" "tk_awaits p = None" "tk_body p = b" "tw_fresh_ok s"
    and "tw_fr s g = Some pg" and "j < resumes b"
  shows "\<exists>w s1. parks h s j w s1 \<and> map_option tk_done (tw_fr s1 g) = Some (tk_done pg) \<and>
    runs w (set_owner who g s1) (resumes b - Suc j) h (set_owner who g (outcome_world h p b s))"
  using assms
proof (induction b arbitrary: h s p j pg)
  case (Ret v)
  then show ?case by simp
next
  case (Thr e)
  then show ?case by simp
next
  case (Ext b)
  let ?s = "s\<lparr>tw_fr := (tw_fr s)(h \<mapsto> p\<lparr>tk_body := b\<rparr>)\<rparr>" and ?p = "p\<lparr>tk_body := b\<rparr>"
  have turn: "task_turn h s = Some (Parked h, ?s)"
    using Ext.prems by (simp add: task_turn_def upd_task_def)
  have ok: "tw_fresh_ok ?s"
    using Ext.prems tw_fresh_okD[OF Ext.prems(5,1)] by (auto simp: tw_fresh_ok_def)
  have out: "outcome_world h ?p b ?s = outcome_world h p (Ext b) s"
    by (simp add: outcome_world_def)
  have g: "\<exists>pg'. tw_fr ?s g = Some pg' \<and> tk_done pg' = tk_done pg"
    using Ext.prems by auto
  show ?case
  proof (cases j)
    case 0
    have "runs h (set_owner who g ?s) (resumes b) h (set_owner who g (outcome_world h ?p b ?s))"
      using Ext.prems ok by (intro owned_body_runs) simp_all
    moreover have "parks h s 0 h ?s" unfolding parks_def using turn runs_refl by blast
    ultimately show ?thesis using g by (force simp: 0 out)
  next
    case (Suc i)
    obtain pg' where "tw_fr ?s g = Some pg'" "tk_done pg' = tk_done pg" using g by blast
    then obtain w s1 where "parks h ?s i w s1" "map_option tk_done (tw_fr s1 g) = Some (tk_done pg)"
      "runs w (set_owner who g s1) (resumes b - Suc i) h (set_owner who g (outcome_world h ?p b ?s))"
      using Ext.IH[of ?s h ?p pg' i] Ext.prems ok Suc by auto
    moreover have "parks h s (Suc i) w s1"
      using \<open>parks h ?s i w s1\<close> turn unfolding parks_def by (meson runs_park)
    ultimately show ?thesis by (auto simp: Suc out)
  qed
next
  case (Await b k)
  let ?c = "tw_fresh s" and ?s1 = "await_started h p b k s" and ?s2 = "await_over h p b k s"
  let ?q = "await_child h b" and ?p2 = "p\<lparr>tk_awaits := None, tk_body := k (eval b)\<rparr>"
  note ok = await_phases_ok[OF Await.prems(1,5)]
  have g: "g < ?c" by (rule tw_fresh_okD[OF Await.prems(5,6)])
  show ?case
  proof (cases "j < resumes b")
    case True
    obtain pg' where pg': "tw_fr ?s1 g = Some pg'" "tk_done pg' = tk_done pg"
      using Await.prems(1,6) g by (cases "g = h") (auto simp: await_frames)
    obtain w s1 where w: "parks ?c ?s1 j w s1" "map_option tk_done (tw_fr s1 g) = Some (tk_done pg)"
      "runs w (set_owner who g s1) (resumes b - Suc j) ?c (set_owner who g (outcome_world ?c ?q b ?s1))"
      using Await.IH(1)[of ?s1 ?c ?q pg' j] ok(1) pg' True by (auto simp: await_frames)
    have "runs w (set_owner who g s1) (resumes b - Suc j + resumes (k (eval b))) h
        (set_owner who g (outcome_world h p (Await b k) s))"
      using g by (intro runs_trans[OF w(3)] owned_await_over_runs Await.prems(1-5)) simp
    moreover have "parks h s j w s1"
      using parks_after[OF await_started_runs[OF Await.prems(1-5)] w(1)] by simp
    ultimately show ?thesis using w(2) True by (force simp: )
  next
    case False
    obtain pg' where pg': "tw_fr ?s2 g = Some pg'" "tk_done pg' = tk_done pg"
      using Await.prems(1,6) g by (cases "g = h") (auto simp: await_frames)
    have "j - resumes b < resumes (k (eval b))" using False Await.prems(7) by simp
    then obtain w s1 where w: "parks h ?s2 (j - resumes b) w s1" "map_option tk_done (tw_fr s1 g) = Some (tk_done pg)"
      "runs w (set_owner who g s1) (resumes (k (eval b)) - Suc (j - resumes b)) h
        (set_owner who g (outcome_world h ?p2 (k (eval b)) ?s2))"
      using Await.IH(2)[of "k (eval b)" ?s2 h ?p2 pg' "j - resumes b"] ok(2) pg' Await.prems(2)
      by (auto simp: await_frames)
    have "runs h s (resumes b) h ?s2"
      using runs_trans[OF runs_trans[OF await_started_runs[OF Await.prems(1-5)]
            body_runs[of ?s1 ?c ?q b]] await_over_runs[OF Await.prems(1-3,5), of b k]] ok(1)
      by (simp add: await_child_def task_promise_init_def await_started_def)
    from parks_after[OF this w(1)] have "parks h s j w s1" using False by simp
    moreover have "resumes (k (eval b)) - Suc (j - resumes b) = resumes (Await b k) - Suc j"
      using False by simp
    ultimately show ?thesis
      using w(2,3) unfolding await_over_outcome[OF Await.prems(3), of h k b s] by metis
  qed
qed

definition run_dropped :: "nat \<Rightarrow> ('v, 'e) tbody \<Rightarrow> ('v, 'e) task_world \<Rightarrow> (tturn \<times> ('v, 'e) task_world) option" where
  "run_dropped j b s = (let (t, s1) = create_task b s in do {
     (h, s2) \<leftarrow> task_start (Some t) s1;
     (u, s3) \<leftarrow> drive j h s2;
     w \<leftarrow> (case u of Parked w \<Rightarrow> Some w | _ \<Rightarrow> None);
     s4 \<leftarrow> start_result_dtor h s3;
     drive (resumes b - Suc j) w s4 })"

text \<open>A \<open>start_result\<close> that is dropped.\<close>

lemma start_result_dtor_running:
  "map_option tk_done (tw_fr s h) = Some False \<Longrightarrow> start_result_dtor h s = Some (set_owner NoOne h s)"
  by (auto simp: start_result_dtor_def upd_task_def set_owner_def)

text \<open>A \<open>start_result\<close> that is dropped while its task is suspended, at whatever resume, detaches
  the task: the rest of the run ends as that of a task that was started and detached, with its frame
  destroyed and an exception of the body handed to \<open>on_ignored_exception\<close>.\<close>

theorem dropped_start_result_detaches:
  assumes "tw_fresh_ok s" and "j < resumes b"
  shows "run_dropped j b s = run_detached b s"
proof -
  let ?h = "tw_fresh s" and ?p = "(task_promise_init b)\<lparr>tk_who := NoopCoro\<rparr>"
  let ?s = "ready_world NoopCoro b s" and ?p' = "(task_promise_init b)\<lparr>tk_who := NoOne\<rparr>"
  have init: "tw_fr ?s ?h = Some ?p" "tw_fresh_ok ?s"
    using assms(1) by (auto simp: ready_world_def tw_fresh_ok_def)
  then obtain w s1 where parked: "parks ?h ?s j w s1" and d: "map_option tk_done (tw_fr s1 ?h) = Some False"
    and rest: "runs w (set_owner NoOne ?h s1) (resumes b - Suc j) ?h (set_owner NoOne ?h (outcome_world ?h ?p b ?s))"
    using owned_runs[of ?s ?h ?p b ?h ?p j NoOne] assms(2) by (auto simp: task_promise_init_def)
  have drive_j: "drive j ?h ?s = Some (Parked w, s1)"
    using parked runs_drive unfolding parks_def by fast
  have same: "set_owner NoOne ?h (outcome_world ?h ?p b ?s) = outcome_world ?h ?p' b (ready_world NoOne b s)"
    by (simp add: set_owner_def outcome_world_def ready_world_def  task_promise_init_def)
  obtain s2 where s2: "task_turn ?h (outcome_world ?h ?p' b (ready_world NoOne b s)) = Some (Returns, s2)"
    using last_turn(3)[of "outcome_world ?h ?p' b (ready_world NoOne b s)" ?h "?p'\<lparr>tk_body := body_of (eval b)\<rparr>" "eval b"]
    by (simp add: outcome_world_def task_promise_init_def)
  have "run_dropped j b s = Some (Returns, s2)"
    using ready_worlds(1)[of s b] drive_j start_result_dtor_running[OF d] runs_drive[OF rest[unfolded same] s2]
    by (simp add: run_dropped_def create_task_def)
  moreover have "run_detached b s = Some (Returns, s2)"
    using ready_worlds(2)[of s b] runs_drive[OF ready_world_runs[OF assms(1), of NoOne] s2]
    by (simp add: run_detached_def create_task_def)
  ultimately show ?thesis by simp
qed

theorem dropped_start_result_detaches_witness:
  "run_dropped 1 (Await (Ext (Ext (Ret 20))) (\<lambda>r. Thr 3)) \<lparr>tw_fr = Map.empty, tw_fresh = 0, tw_log = []\<rparr>
   = run_detached (Await (Ext (Ext (Ret 20))) (\<lambda>r. Thr 3))
       (\<lparr>tw_fr = Map.empty, tw_fresh = 0, tw_log = []\<rparr> :: (nat, nat) task_world)"
  by (rule dropped_start_result_detaches) (simp_all add: tw_fresh_ok_def)

end
