(* ===== verification/Chain.thy ===== *)
theory Chain
  imports Task
begin

text \<open>
  \<open>with\<close> and \<open>chain\<close> of \<open>algorithm.hpp\<close>: coroutines that await one awaitable after the other. They are
  bodies of \<open>Task\<close>; an awaitable is the task that awaiting it runs. What they do is the
  composition of the functions they are given, with the first exception ending it.
\<close>

definition co_return_await :: "('v, 'e) tbody \<Rightarrow> ('v, 'e) tbody" where
  "co_return_await t = Await t (\<lambda>r. case r of Inl v \<Rightarrow> Ret v | Inr e \<Rightarrow> Thr e)"

definition with_task :: "('v, 'e) tbody \<Rightarrow> ('v, 'e) tbody" where
  "with_task t = co_return_await t"

definition chain_two :: "('v, 'e) tbody \<Rightarrow> ('v \<Rightarrow> ('v, 'e) tbody) \<Rightarrow> ('v, 'e) tbody" where
  "chain_two a b = Await a (\<lambda>r. case r of Inl v \<Rightarrow> co_return_await (b v) | Inr e \<Rightarrow> Thr e)"

text \<open>The overloads for an awaitable without result, with a function and with an awaitable.\<close>

definition chain_invoke :: "('v, 'e) tbody \<Rightarrow> (unit \<Rightarrow> ('v, 'e) tbody) \<Rightarrow> ('v, 'e) tbody" where
  "chain_invoke a b = Await a (\<lambda>r. case r of Inl _ \<Rightarrow> co_return_await (b ()) | Inr e \<Rightarrow> Thr e)"

definition chain_await :: "('v, 'e) tbody \<Rightarrow> ('v, 'e) tbody \<Rightarrow> ('v, 'e) tbody" where
  "chain_await a b = Await a (\<lambda>r. case r of Inl _ \<Rightarrow> co_return_await b | Inr e \<Rightarrow> Thr e)"

text \<open>Three and more: the first two are chained first.\<close>

fun chain_all :: "('v, 'e) tbody \<Rightarrow> ('v \<Rightarrow> ('v, 'e) tbody) list \<Rightarrow> ('v, 'e) tbody" where
  "chain_all t [] = t"
| "chain_all t (foo # tail) = chain_all (chain_two t foo) tail"

text \<open>What a stage makes of the outcome of the stages before.\<close>

definition bind_outcome :: "'v + 'e \<Rightarrow> ('v \<Rightarrow> ('v, 'e) tbody) \<Rightarrow> 'v + 'e" where
  "bind_outcome r f = (case r of Inl v \<Rightarrow> eval (f v) | Inr e \<Rightarrow> Inr e)"

lemma eval_co_return_await [simp]: "eval (co_return_await t) = eval t"
  by (cases "eval t") (simp_all add: co_return_await_def)

lemma eval_chain [simp]: "eval (chain_two a b) = bind_outcome (eval a) b"
  by (cases "eval a") (simp_all add: chain_two_def bind_outcome_def)

lemma eval_chain_void:
  "eval (chain_invoke a b) = bind_outcome (eval a) (\<lambda>_. b ())" "eval (chain_await a b') = bind_outcome (eval a) (\<lambda>_. b')"
  by (cases "eval a"; simp add: chain_invoke_def chain_await_def bind_outcome_def)+

lemma eval_chain_all: "eval (chain_all t fs) = foldl bind_outcome (eval t) fs"
  by (induction fs arbitrary: t) simp_all

lemma foldl_bind_outcome_error: "foldl bind_outcome (Inr e) fs = Inr e"
  by (induction fs) (simp_all add: bind_outcome_def)

text \<open>A chain of tasks is a composition of functions, whatever the stages do and however often they
  suspend: the task that \<open>chain\<close> returns ends with the outcome of the stages applied one after the
  other, where an exception skips all later stages, and associating the stages differently changes
  nothing; when the chain is started and awaited, every frame it used has been destroyed.\<close>

theorem chain_is_composition:
  assumes "tw_fresh_ok s"
  shows "(\<exists>s'. run_started (chain_all t fs) s = Some (True, foldl bind_outcome (eval t) fs, s') \<and> tw_fr s' = tw_fr s)
    \<and> eval (chain_two (chain_two t f) g) = eval (chain_two t (\<lambda>v. chain_two (f v) g))
    \<and> (\<forall>e. eval t = Inr e \<longrightarrow> eval (chain_all t fs) = Inr e)
    \<and> eval (chain_await t u) = eval (chain_invoke t (\<lambda>_. u)) \<and> eval (with_task t) = eval t"
  using started_task_runs[OF assms, of "chain_all t fs"]
  by (cases "eval t") (simp_all add: eval_chain_all eval_chain_void with_task_def foldl_bind_outcome_error bind_outcome_def)

theorem chain_is_composition_witness:
  "\<exists>s'. run_started (chain_all (Ext (Ret 3)) [\<lambda>v. Ext (Ret (v + 1)), \<lambda>v. Thr v, \<lambda>v. Ret 0])
     (\<lparr>tw_fr = Map.empty, tw_fresh = 0, tw_log = []\<rparr> :: (nat, nat) task_world) = Some (True, Inr 4, s')"
proof -
  have "tw_fresh_ok (\<lparr>tw_fr = Map.empty, tw_fresh = 0, tw_log = []\<rparr> :: (nat, nat) task_world)"
    by (simp add: tw_fresh_ok_def)
  from chain_is_composition[OF this, of "Ext (Ret 3)" "[\<lambda>v. Ext (Ret (v + 1)), \<lambda>v. Thr v, \<lambda>v. Ret 0]" Ret Ret "Ret 0"]
  show ?thesis by (auto simp: bind_outcome_def)
qed

end
