(* ===== verification/Logical_Thread.thy ===== *)
theory Logical_Thread
  imports Prelude
begin

text \<open>
  \<open>logical_thread.hpp\<close>: a coroutine that starts at once and an object that joins or detaches it, like a
  \<open>std::jthread\<close>. Both share the frame; a flag, exchanged by both (\<open>two_way_bound\<close>), decides who
  destroys it. The coroutine and its owner are interleaved at the granularity of single atomic
  accesses. A frame that is gone is \<open>None\<close>, and every access to it, \<open>notify_one\<close> on its flag included, is
  undefined behaviour, \<open>None\<close> for the step.
\<close>

section \<open>The promise\<close>

record two_way_bound =
  tb_flag :: bool

definition two_way_bound_init :: two_way_bound where
  "two_way_bound_init = \<lparr>tb_flag = False\<rparr>"

text \<open>\<open>try_inform\<close> up to the notification: whether this side was the first.\<close>

definition try_inform :: "two_way_bound \<Rightarrow> bool \<times> two_way_bound" where
  "try_inform l = (\<not> tb_flag l, l\<lparr>tb_flag := True\<rparr>)"

definition bound_reset :: "two_way_bound \<Rightarrow> two_way_bound" where
  "bound_reset l = l\<lparr>tb_flag := False\<rparr>"

text \<open>\<open>lp_done\<close> is what \<open>handle.done()\<close> tells: the coroutine is suspended at its end.\<close>

record lt_promise =
  lp_stop_requested :: bool
  lp_stopped :: two_way_bound
  lp_done :: bool

definition lt_promise_init :: lt_promise where
  "lt_promise_init = \<lparr>lp_stop_requested = False, lp_stopped = two_way_bound_init, lp_done = False\<rparr>"

text \<open>\<open>stop_token::stop_requested\<close>, on the promise that \<open>return_stop_token\<close> points to\<close>

definition token_stop_requested :: "lt_promise \<Rightarrow> bool" where
  "token_stop_requested p = lp_stop_requested p"

section \<open>The two sides\<close>

text \<open>
  The coroutine: in its body, at \<open>try_inform\<close> of its final suspension, at the notification, suspended
  or gone. The owner: between two calls, about to load the flag in \<open>join\<close>, blocked, about to
  destroy the frame after the wait, at the notification of \<open>detach\<close>.
\<close>

datatype coro_pc = LBody | LInform | LNotify | LEnd
datatype lt_owner_pc = OIdle | OJoin | OAsleep | OWoken | ODetNotify

record lt_sys =
  ls_frame :: "lt_promise option"
  ls_coro :: coro_pc
  ls_owner :: lt_owner_pc
  ls_joinable :: bool
  ls_destroyed :: nat

definition lt_init :: lt_sys where
  "lt_init = \<lparr>ls_frame = Some lt_promise_init, ls_coro = LBody, ls_owner = OIdle, ls_joinable = True,
     ls_destroyed = 0\<rparr>"

definition lt_destroy :: "lt_sys \<Rightarrow> lt_sys option" where
  "lt_destroy s = do { _ \<leftarrow> ls_frame s; Some (s\<lparr>ls_frame := None, ls_destroyed := Suc (ls_destroyed s)\<rparr>) }"

definition upd_promise :: "(lt_promise \<Rightarrow> lt_promise) \<Rightarrow> lt_sys \<Rightarrow> lt_sys option" where
  "upd_promise f s = do { p \<leftarrow> ls_frame s; Some (s\<lparr>ls_frame := Some (f p)\<rparr>) }"

text \<open>The exchange of one side, on the flag in the frame.\<close>

definition inform :: "lt_sys \<Rightarrow> (bool \<times> lt_sys) option" where
  "inform s = do {
     p \<leftarrow> ls_frame s;
     let (informed, l) = try_inform (lp_stopped p);
     Some (informed, s\<lparr>ls_frame := Some (p\<lparr>lp_stopped := l\<rparr>)\<rparr>) }"

text \<open>\<open>flag.notify_one()\<close>, after the exchange and no longer protected by it\<close>

definition lt_notify :: "lt_sys \<Rightarrow> lt_sys option" where
  "lt_notify s = do {
     _ \<leftarrow> ls_frame s;
     Some (s\<lparr>ls_owner := if ls_owner s = OAsleep then OJoin else ls_owner s\<rparr>) }"

text \<open>
  A step of the coroutine: the end of its body, then \<open>set_stopped_and_wait_or_destroy::await_suspend\<close>.
\<close>

definition coro_step :: "lt_sys \<Rightarrow> lt_sys option" where
  "coro_step s = (case ls_coro s of
      LBody \<Rightarrow> do { s1 \<leftarrow> upd_promise (\<lambda>p. p\<lparr>lp_done := True\<rparr>) s; Some (s1\<lparr>ls_coro := LInform\<rparr>) }
    | LInform \<Rightarrow> do {
        (informed, s1) \<leftarrow> inform s;
        if informed then Some (s1\<lparr>ls_coro := LNotify\<rparr>)
        else do { s2 \<leftarrow> lt_destroy s1; Some (s2\<lparr>ls_coro := LEnd\<rparr>) } }
    | LNotify \<Rightarrow> do { s1 \<leftarrow> lt_notify s; Some (s1\<lparr>ls_coro := LEnd\<rparr>) }
    | LEnd \<Rightarrow> None)"

text \<open>
  The calls of the owner, to their first access to the frame; \<open>None\<close> also if \<open>assert(joinable())\<close>
  fails. \<open>CallCancel\<close> is \<open>try_cancel_and_join\<close>: the destructor, and the assignment to the object.
\<close>

datatype lt_call = CallStop | CallJoin | CallDetach | CallCancel

definition lt_request_stop :: "lt_sys \<Rightarrow> (bool \<times> lt_sys) option" where
  "lt_request_stop s =
     (if \<not> ls_joinable s then Some (False, s)
      else do { s1 \<leftarrow> upd_promise (\<lambda>p. p\<lparr>lp_stop_requested := True\<rparr>) s; Some (True, s1) })"

definition lt_join :: "lt_sys \<Rightarrow> lt_sys option" where
  "lt_join s = (if \<not> ls_joinable s then None else Some (s\<lparr>ls_owner := OJoin\<rparr>))"

definition lt_detach :: "lt_sys \<Rightarrow> lt_sys option" where
  "lt_detach s =
     (if \<not> ls_joinable s then None
      else do {
        (informed, s1) \<leftarrow> inform s;
        if informed then Some (s1\<lparr>ls_owner := ODetNotify\<rparr>)
        else do { s2 \<leftarrow> lt_destroy s1; Some (s2\<lparr>ls_joinable := False\<rparr>) } })"

definition try_cancel_and_join :: "lt_sys \<Rightarrow> lt_sys option" where
  "try_cancel_and_join s =
     (if ls_joinable s then do { (_, s1) \<leftarrow> lt_request_stop s; lt_join s1 } else Some s)"

definition owner_call :: "lt_call \<Rightarrow> lt_sys \<Rightarrow> lt_sys option" where
  "owner_call c s =
     (if ls_owner s \<noteq> OIdle then None
      else (case c of CallStop \<Rightarrow> map_option snd (lt_request_stop s) | CallJoin \<Rightarrow> lt_join s
        | CallDetach \<Rightarrow> lt_detach s | CallCancel \<Rightarrow> try_cancel_and_join s))"

text \<open>The rest of \<open>join\<close> (\<open>two_way_bound::wait\<close>, then the frame) and of \<open>detach\<close>.\<close>

definition owner_step :: "lt_sys \<Rightarrow> lt_sys option" where
  "owner_step s = (case ls_owner s of
      OIdle \<Rightarrow> None
    | OJoin \<Rightarrow> do { p \<leftarrow> ls_frame s; Some (s\<lparr>ls_owner := if tb_flag (lp_stopped p) then OWoken else OAsleep\<rparr>) }
    | OAsleep \<Rightarrow> None
    | OWoken \<Rightarrow> do {
        p \<leftarrow> ls_frame s;
        if \<not> lp_done p then None
        else do { s1 \<leftarrow> lt_destroy s; Some (s1\<lparr>ls_joinable := False, ls_owner := OIdle\<rparr>) } }
    | ODetNotify \<Rightarrow> do { s1 \<leftarrow> lt_notify s; Some (s1\<lparr>ls_joinable := False, ls_owner := OIdle\<rparr>) })"

inductive lt_reach :: "lt_sys \<Rightarrow> bool" where
  lt_reach_init: "lt_reach lt_init"
| lt_reach_coro: "lt_reach s \<Longrightarrow> coro_step s = Some s' \<Longrightarrow> lt_reach s'"
| lt_reach_owner: "lt_reach s \<Longrightarrow> owner_step s = Some s' \<Longrightarrow> lt_reach s'"
| lt_reach_call: "lt_reach s \<Longrightarrow> owner_call c s = Some s' \<Longrightarrow> lt_reach s'"

section \<open>The invariant\<close>

definition flag_up :: "lt_sys \<Rightarrow> bool" where
  "flag_up s \<longleftrightarrow> (\<exists>p. ls_frame s = Some p \<and> tb_flag (lp_stopped p))"

text \<open>
  While the owner is attached, the flag tells that the coroutine has informed it; once the owner has
  detached first, the coroutine destroys the frame.
\<close>

definition lt_inv :: "lt_sys \<Rightarrow> bool" where
  "lt_inv s \<longleftrightarrow> (case ls_frame s of None \<Rightarrow> ls_destroyed s = 1
      | Some p \<Rightarrow> ls_destroyed s = 0 \<and> lp_done p = (ls_coro s \<noteq> LBody))
   \<and> (if \<not> ls_joinable s then ls_owner s = OIdle
        \<and> (if ls_coro s \<in> {LBody, LInform} then flag_up s else ls_frame s = None)
      else if ls_owner s = ODetNotify then ls_coro s \<noteq> LNotify
        \<and> (if ls_coro s = LEnd then ls_frame s = None else flag_up s)
      else ls_frame s \<noteq> None \<and> flag_up s = (ls_coro s \<in> {LNotify, LEnd})
        \<and> (ls_owner s = OAsleep \<longrightarrow> ls_coro s \<noteq> LEnd) \<and> (ls_owner s = OWoken \<longrightarrow> flag_up s))"

lemmas lt_simps = upd_promise_def inform_def try_inform_def lt_destroy_def lt_notify_def lt_request_stop_def
  lt_join_def lt_detach_def try_cancel_and_join_def Let_def

text \<open>With the state written out, each case is evaluated.\<close>

lemma coro_step_inv_cases:
  "lt_inv \<lparr>ls_frame = fr, ls_coro = c, ls_owner = ow, ls_joinable = j, ls_destroyed = d\<rparr> \<Longrightarrow>
   pred_option lt_inv (coro_step \<lparr>ls_frame = fr, ls_coro = c, ls_owner = ow, ls_joinable = j, ls_destroyed = d\<rparr>)"
  by (cases c; cases fr; cases j; cases ow; simp add: lt_inv_def coro_step_def lt_simps flag_up_def)

lemma coro_step_inv: "lt_inv s \<Longrightarrow> coro_step s = Some s' \<Longrightarrow> lt_inv s'"
  using coro_step_inv_cases by (cases s) (metis option.pred_inject(2))

lemma owner_step_inv_cases:
  "lt_inv \<lparr>ls_frame = fr, ls_coro = c, ls_owner = ow, ls_joinable = j, ls_destroyed = d\<rparr> \<Longrightarrow>
   pred_option lt_inv (owner_step \<lparr>ls_frame = fr, ls_coro = c, ls_owner = ow, ls_joinable = j, ls_destroyed = d\<rparr>)"
  by (cases ow; cases fr; cases j; cases c; simp add: lt_inv_def owner_step_def lt_simps flag_up_def)

lemma owner_step_inv: "lt_inv s \<Longrightarrow> owner_step s = Some s' \<Longrightarrow> lt_inv s'"
  using owner_step_inv_cases by (cases s) (metis option.pred_inject(2))

lemma owner_call_inv_cases:
  "lt_inv \<lparr>ls_frame = fr, ls_coro = c, ls_owner = OIdle, ls_joinable = j, ls_destroyed = d\<rparr> \<Longrightarrow>
   pred_option lt_inv (owner_call k \<lparr>ls_frame = fr, ls_coro = c, ls_owner = OIdle, ls_joinable = j, ls_destroyed = d\<rparr>)"
  by (cases k; cases fr; cases j; cases c; simp add: lt_inv_def owner_call_def lt_simps flag_up_def)

lemma owner_call_inv: "lt_inv s \<Longrightarrow> owner_call c s = Some s' \<Longrightarrow> lt_inv s'"
proof -
  assume a: "lt_inv s" "owner_call c s = Some s'"
  then have "ls_owner s = OIdle" by (simp add: owner_call_def split: if_splits)
  with a(1) have "pred_option lt_inv (owner_call c s)" using owner_call_inv_cases by (cases s) simp
  with a(2) show ?thesis by simp
qed

lemma lt_reach_inv: "lt_reach s \<Longrightarrow> lt_inv s"
proof (induction rule: lt_reach.induct)
  case lt_reach_init
  show ?case by (simp add: lt_inv_def lt_init_def lt_promise_init_def two_way_bound_init_def flag_up_def)
qed (auto intro: coro_step_inv owner_step_inv owner_call_inv)

text \<open>The steps that are not defined are those that are not due, and the notification of a flag that is gone.\<close>

lemma coro_step_due:
  assumes "lt_inv s"
  shows "coro_step s = None \<longleftrightarrow> ls_coro s = LEnd \<or> ls_coro s = LNotify \<and> ls_frame s = None"
  using assms by (cases "ls_coro s")
    (auto simp: lt_inv_def coro_step_def lt_simps flag_up_def split: option.splits if_splits)

lemma owner_step_due:
  assumes "lt_inv s"
  shows "owner_step s = None \<longleftrightarrow> ls_owner s = OIdle \<or> ls_owner s = OAsleep \<or> ls_owner s = ODetNotify \<and> ls_frame s = None"
  using assms by (cases "ls_owner s") (auto simp: lt_inv_def owner_step_def lt_simps flag_up_def split: if_splits)

section \<open>Properties\<close>

text \<open>C27. However a coroutine and its owner interleave, the frame is destroyed exactly once: by \<open>join\<close>, or, if
  the owner detached, by whichever of the two informs the other second. A thread object that can still be
  joined has a frame, and when neither side has anything left to do, the frame is gone. No step uses a
  frame that is gone and no assertion fails but \<open>joinable()\<close>, with one exception, which is stated exactly:
  the side that has informed the other first still calls \<open>notify_one\<close> on the flag, and its step is
  undefined if the other side has destroyed the frame in between. For the coroutine this means that the
  owner has joined it meanwhile, for \<open>detach\<close> that the coroutine has ended meanwhile. Every other step that
  is due, and every call that the owner may make, is defined.\<close>

theorem logical_thread_frame_once:
  assumes "lt_reach s"
  shows "ls_destroyed s = (if ls_frame s = None then 1 else 0)
    \<and> (ls_joinable s \<and> ls_owner s = OIdle \<longrightarrow> ls_frame s \<noteq> None)
    \<and> (\<not> ls_joinable s \<and> ls_coro s = LEnd \<longrightarrow> ls_frame s = None)
    \<and> (coro_step s = None \<longleftrightarrow> ls_coro s = LEnd \<or> ls_coro s = LNotify \<and> ls_frame s = None)
    \<and> (owner_step s = None \<longleftrightarrow> ls_owner s = OIdle \<or> ls_owner s = OAsleep \<or> ls_owner s = ODetNotify \<and> ls_frame s = None)
    \<and> (ls_frame s = None \<and> ls_coro s = LNotify \<longrightarrow> \<not> ls_joinable s \<and> ls_owner s = OIdle)
    \<and> (ls_frame s = None \<and> ls_owner s = ODetNotify \<longrightarrow> ls_coro s = LEnd)
    \<and> (ls_owner s = OIdle \<longrightarrow> owner_call CallStop s \<noteq> None \<and> owner_call CallCancel s \<noteq> None
        \<and> (ls_joinable s \<longrightarrow> owner_call CallJoin s \<noteq> None \<and> owner_call CallDetach s \<noteq> None))"
proof (intro conjI impI)
  note inv = lt_reach_inv[OF assms]
  show "ls_destroyed s = (if ls_frame s = None then 1 else 0)"
    using inv by (cases "ls_frame s") (auto simp: lt_inv_def)
  show "ls_frame s \<noteq> None" if "ls_joinable s \<and> ls_owner s = OIdle" using inv that by (auto simp: lt_inv_def)
  show "ls_frame s = None" if "\<not> ls_joinable s \<and> ls_coro s = LEnd" using inv that by (auto simp: lt_inv_def)
  show "coro_step s = None \<longleftrightarrow> ls_coro s = LEnd \<or> ls_coro s = LNotify \<and> ls_frame s = None" by (rule coro_step_due[OF inv])
  show "owner_step s = None \<longleftrightarrow> ls_owner s = OIdle \<or> ls_owner s = OAsleep \<or> ls_owner s = ODetNotify \<and> ls_frame s = None"
    by (rule owner_step_due[OF inv])
  show "\<not> ls_joinable s" "ls_owner s = OIdle" if "ls_frame s = None \<and> ls_coro s = LNotify"
    using inv that by (auto simp: lt_inv_def split: if_splits)
  show "ls_coro s = LEnd" if "ls_frame s = None \<and> ls_owner s = ODetNotify"
    using inv that by (auto simp: lt_inv_def flag_up_def split: if_splits)
  show "owner_call CallStop s \<noteq> None" "owner_call CallCancel s \<noteq> None" if "ls_owner s = OIdle"
    using inv that by (auto simp: lt_inv_def owner_call_def lt_simps split: if_splits)
  show "owner_call CallJoin s \<noteq> None" "owner_call CallDetach s \<noteq> None" if "ls_owner s = OIdle" "ls_joinable s"
    using inv that by (auto simp: lt_inv_def owner_call_def lt_simps split: if_splits)
qed

definition run_steps :: "(lt_sys \<Rightarrow> lt_sys option) list \<Rightarrow> lt_sys \<Rightarrow> lt_sys option" where
  "run_steps fs s = foldl Option.bind (Some s) fs"

lemma reach_steps:
  assumes "lt_reach s" "run_steps fs s = Some s'" "\<forall>f\<in>set fs. f = coro_step \<or> f = owner_step \<or> (\<exists>c. f = owner_call c)"
  shows "lt_reach s'"
proof -
  have none: "foldl Option.bind None fs = None" for fs :: "(lt_sys \<Rightarrow> lt_sys option) list" by (induction fs) auto
  show ?thesis using assms
  proof (induction fs arbitrary: s)
    case Nil
    then show ?case by (simp add: run_steps_def)
  next
    case (Cons f fs)
    then obtain s1 where s1: "f s = Some s1" "run_steps fs s1 = Some s'"
      using none by (cases "f s") (auto simp: run_steps_def)
    moreover have "lt_reach s1" using Cons.prems(1,3) s1(1) by (auto intro: lt_reach.intros)
    ultimately show ?case using Cons.IH Cons.prems(3) by simp
  qed
qed

text \<open>The coroutine ends first; the destructor of the owner joins it.\<close>

lemma logical_thread_frame_once_witness:
  "\<exists>s. run_steps [owner_call CallStop, coro_step, coro_step, coro_step, owner_call CallJoin, owner_step, owner_step] lt_init = Some s
     \<and> \<not> ls_joinable s \<and> ls_frame s = None \<and> ls_destroyed s = 1"
proof -
  let ?fs = "[owner_call CallStop, coro_step, coro_step, coro_step, owner_call CallJoin, owner_step, owner_step]"
  obtain s where s: "run_steps ?fs lt_init = Some s" "\<not> ls_joinable s" "ls_coro s = LEnd"
    by (simp add: run_steps_def lt_init_def lt_promise_init_def two_way_bound_init_def owner_call_def coro_step_def
        owner_step_def lt_simps)
  have "lt_reach s" by (rule reach_steps[OF lt_reach_init s(1)]) auto
  from logical_thread_frame_once[OF this] s show ?thesis by auto
qed

lemma stop_kept:
  assumes "ls_frame s = Some p" "lp_stop_requested p" "ls_frame s' = Some p'"
    and "coro_step s = Some s' \<or> owner_step s = Some s' \<or> (\<exists>c. owner_call c s = Some s')"
  shows "lp_stop_requested p'"
  using assms(4)
proof (elim disjE exE)
  assume "coro_step s = Some s'"
  with assms(1-3) show ?thesis
    by (cases "ls_coro s") (auto simp: coro_step_def lt_simps split: if_splits)
next
  assume "owner_step s = Some s'"
  with assms(1-3) show ?thesis
    by (cases "ls_owner s") (auto simp: owner_step_def lt_simps split: if_splits)
next
  fix c assume "owner_call c s = Some s'"
  with assms(1-3) show ?thesis
    by (cases c) (auto simp: owner_call_def lt_simps split: if_splits)
qed

definition lt_rank :: "lt_sys \<Rightarrow> nat" where
  "lt_rank s = 3 * (case ls_coro s of LBody \<Rightarrow> 3 | LInform \<Rightarrow> 2 | LNotify \<Rightarrow> 1 | LEnd \<Rightarrow> 0)
     + (case ls_owner s of OIdle \<Rightarrow> 0 | OJoin \<Rightarrow> 3 | OAsleep \<Rightarrow> 2 | OWoken \<Rightarrow> 1 | ODetNotify \<Rightarrow> 1)"

text \<open>No wakeup is lost and \<open>join\<close> returns: an owner that waits while the coroutine has not ended is
  woken by it, an owner that waits is never alone without a next step of either side, and every step
  of either side decreases a rank, so the call of the owner returns after at most that many steps once
  the body of the coroutine ends. A stop that was requested stays requested, and the destructor
  requests it before it waits, so a body that ends on \<open>stop_requested()\<close> lets the destructor return.\<close>

theorem logical_thread_join_returns:
  assumes "lt_reach s"
  shows "(ls_owner s \<noteq> OIdle \<and> ls_owner s \<noteq> ODetNotify \<longrightarrow> owner_step s \<noteq> None \<or> coro_step s \<noteq> None)
    \<and> (\<forall>s'. coro_step s = Some s' \<or> owner_step s = Some s' \<longrightarrow> lt_rank s' < lt_rank s)
    \<and> (\<forall>s' p. (coro_step s = Some s' \<or> owner_step s = Some s' \<or> (\<exists>c. owner_call c s = Some s')) \<and> ls_frame s = Some p
        \<and> token_stop_requested p \<longrightarrow> (\<forall>p'. ls_frame s' = Some p' \<longrightarrow> token_stop_requested p'))
    \<and> (\<forall>s'. ls_joinable s \<and> owner_call CallCancel s = Some s' \<longrightarrow>
        ls_owner s' = OJoin \<and> map_option token_stop_requested (ls_frame s') = Some True)"
proof (intro conjI allI impI)
  note inv = lt_reach_inv[OF assms]
  show "owner_step s \<noteq> None \<or> coro_step s \<noteq> None" if "ls_owner s \<noteq> OIdle \<and> ls_owner s \<noteq> ODetNotify"
  proof (cases "ls_owner s = OAsleep")
    case True
    with inv have "ls_coro s \<noteq> LEnd" by (auto simp: lt_inv_def split: if_splits)
    with inv True show ?thesis
      by (cases "ls_coro s") (auto simp: lt_inv_def coro_step_def lt_simps flag_up_def split: option.splits if_splits)
  next
    case False
    with inv that show ?thesis
      by (cases "ls_owner s") (auto simp: lt_inv_def owner_step_def lt_simps flag_up_def split: if_splits)
  qed
  show "lt_rank s' < lt_rank s" if "coro_step s = Some s' \<or> owner_step s = Some s'" for s'
    using that
  proof
    assume "coro_step s = Some s'"
    then show ?thesis
      by (cases "ls_coro s") (auto simp: lt_rank_def coro_step_def lt_simps split: if_splits bind_splits lt_owner_pc.splits)
  next
    assume "owner_step s = Some s'"
    then show ?thesis
      by (cases "ls_owner s") (auto simp: lt_rank_def owner_step_def lt_simps split: if_splits bind_splits coro_pc.splits)
  qed
  show "token_stop_requested p'" if "(coro_step s = Some s' \<or> owner_step s = Some s' \<or> (\<exists>c. owner_call c s = Some s')) \<and>
      ls_frame s = Some p \<and> token_stop_requested p" "ls_frame s' = Some p'" for s' p p'
    using that stop_kept unfolding token_stop_requested_def by blast
  show "ls_owner s' = OJoin" if "ls_joinable s \<and> owner_call CallCancel s = Some s'" for s'
    using that by (auto simp: owner_call_def lt_simps split: if_splits bind_splits)
  show "map_option token_stop_requested (ls_frame s') = Some True" if "ls_joinable s \<and> owner_call CallCancel s = Some s'" for s'
    using that by (auto simp: owner_call_def lt_simps token_stop_requested_def split: if_splits bind_splits)
qed

lemma logical_thread_join_returns_witness:
  "\<exists>s. run_steps [owner_call CallCancel, owner_step] lt_init = Some s \<and> ls_owner s = OAsleep \<and> coro_step s \<noteq> None"
proof -
  obtain s where s: "run_steps [owner_call CallCancel, owner_step] lt_init = Some s" "ls_owner s = OAsleep"
    by (simp add: run_steps_def lt_init_def lt_promise_init_def two_way_bound_init_def owner_call_def
        owner_step_def lt_simps)
  have "lt_reach s" by (rule reach_steps[OF lt_reach_init s(1)]) auto
  from logical_thread_join_returns[OF this] s show ?thesis by (auto simp: owner_step_def)
qed

text \<open>
  The notification may come too late: after the exchange the other side may have destroyed the frame,
  with the flag that \<open>notify_one\<close> is called on. Both sides may be the late one.
\<close>

lemma logical_thread_late_notify:
  "\<exists>s. lt_reach s \<and> ls_coro s = LNotify \<and> coro_step s = None"
  "\<exists>s. lt_reach s \<and> ls_owner s = ODetNotify \<and> owner_step s = None"
proof -
  let ?fs = "[coro_step, coro_step, owner_call CallJoin, owner_step, owner_step]"
  obtain s where s: "run_steps ?fs lt_init = Some s" "ls_coro s = LNotify" "coro_step s = None"
    by (simp add: run_steps_def lt_init_def lt_promise_init_def two_way_bound_init_def owner_call_def coro_step_def
        owner_step_def lt_simps)
  have "lt_reach s" by (rule reach_steps[OF lt_reach_init s(1)]) auto
  with s(2,3) show "\<exists>s. lt_reach s \<and> ls_coro s = LNotify \<and> coro_step s = None" by blast
  let ?gs = "[coro_step, owner_call CallDetach, coro_step]"
  obtain u where u: "run_steps ?gs lt_init = Some u" "ls_owner u = ODetNotify" "owner_step u = None"
    by (simp add: run_steps_def lt_init_def lt_promise_init_def two_way_bound_init_def owner_call_def coro_step_def
        owner_step_def lt_simps)
  have "lt_reach u" by (rule reach_steps[OF lt_reach_init u(1)]) auto
  with u(2,3) show "\<exists>s. lt_reach s \<and> ls_owner s = ODetNotify \<and> owner_step s = None" by blast
qed

end
