(* ===== verification/Events.thy ===== *)
theory Events
  imports Lockfree_Stack
begin

text \<open>
  \<open>events.hpp\<close>: an event is a lock-free stack of awaiters; \<open>notify_all\<close> takes all of them and hands them to
  an executor, with a copy of the input of the event. One call is one function here; that the pushes
  and the exchange of a stack are linearizable is shown in \<open>Lockfree_Stack\<close>.
\<close>

section \<open>Subscribers\<close>

text \<open>An awaiter is the task node at \<open>this\<close> with its \<open>input\<close>.\<close>

record 'i ev_world = lf_world +
  ev_input :: "addr \<Rightarrow> 'i option"

definition subscribe_await_ready :: bool where
  "subscribe_await_ready = False"

definition subscribe_await_suspend :: "addr \<Rightarrow> handle \<Rightarrow> ('i, 'z) ev_world_scheme \<Rightarrow> ('i, 'z) ev_world_scheme option" where
  "subscribe_await_suspend this hnd w = do {
     h \<leftarrow> set_task this (Some hnd) (nodes w);
     lf_push [] this (w\<lparr>nodes := h\<rparr>) }"

definition subscribe_await_resume :: "addr \<Rightarrow> ('i, 'z) ev_world_scheme \<Rightarrow> 'i option" where
  "subscribe_await_resume this w = ev_input w this"

text \<open>\<open>notify_all\<close> of an event without and with an input\<close>

definition notify_all ::
  "(addr \<Rightarrow> ('i, 'z) ev_world_scheme \<Rightarrow> ('i, 'z) ev_world_scheme option) \<Rightarrow> ('i, 'z) ev_world_scheme \<Rightarrow> (bool \<times> ('i, 'z) ev_world_scheme) option" where
  "notify_all attach w = (case lf_try_pop_all w of
      (None, w1) \<Rightarrow> Some (False, w1)
    | (Some t, w1) \<Rightarrow> do { w2 \<leftarrow> attach_list attach (Some t) w1; Some (True, w2) })"

definition set_input :: "addr \<Rightarrow> 'i \<Rightarrow> ('i, 'z) ev_world_scheme \<Rightarrow> ('i, 'z) ev_world_scheme option" where
  "set_input p v w = do { _ \<leftarrow> nodes w p; Some (w\<lparr>ev_input := (ev_input w)(p \<mapsto> v)\<rparr>) }"

partial_function (option) notify_loop ::
  "(addr \<Rightarrow> ('i, 'z) ev_world_scheme \<Rightarrow> ('i, 'z) ev_world_scheme option) \<Rightarrow> 'i \<Rightarrow> addr option \<Rightarrow> ('i, 'z) ev_world_scheme \<Rightarrow> ('i, 'z) ev_world_scheme option" where
  "notify_loop attach v t w = (case t of
      None \<Rightarrow> Some w
    | Some p \<Rightarrow> do {
        w1 \<leftarrow> set_input p v w;
        nxt \<leftarrow> next_of (nodes w1) p;
        w2 \<leftarrow> attach p w1;
        notify_loop attach v nxt w2 })"

definition notify_all_input ::
  "(addr \<Rightarrow> ('i, 'z) ev_world_scheme \<Rightarrow> ('i, 'z) ev_world_scheme option) \<Rightarrow> 'i \<Rightarrow> ('i, 'z) ev_world_scheme \<Rightarrow> (bool \<times> ('i, 'z) ev_world_scheme) option" where
  "notify_all_input attach v w = (case lf_try_pop_all w of
      (None, w1) \<Rightarrow> Some (False, w1)
    | (Some t, w1) \<Rightarrow> do { w2 \<leftarrow> notify_loop attach v (Some t) w1; Some (True, w2) })"

text \<open>An executor that first receives the input is the executor that the loop uses.\<close>

definition input_attach ::
  "(addr \<Rightarrow> ('i, 'z) ev_world_scheme \<Rightarrow> ('i, 'z) ev_world_scheme option) \<Rightarrow> 'i \<Rightarrow> addr \<Rightarrow> ('i, 'z) ev_world_scheme \<Rightarrow> ('i, 'z) ev_world_scheme option" where
  "input_attach attach v p w = do { w1 \<leftarrow> set_input p v w; attach p w1 }"

lemma input_attach_executor:
  assumes "\<And>a as w w'. acc (a # as) w \<Longrightarrow> attach a w = Some w' \<Longrightarrow> acc as w' \<and> (\<forall>q\<in>set as. nodes w' q = nodes w q)"
    and "\<And>as w f. acc as (w\<lparr>ev_input := f\<rparr>) = acc as w"
  shows "executor (input_attach attach v) acc"
proof unfold_locales
  fix a as and w w' :: "('a, 'b) ev_world_scheme"
  assume acc: "acc (a # as) w" and at: "input_attach attach v a w = Some w'"
  then obtain w1 where w1: "set_input a v w = Some w1" "attach a w1 = Some w'"
    by (auto simp: input_attach_def split: bind_splits)
  then have "acc (a # as) w1" "nodes w1 = nodes w" using acc assms(2) by (auto simp: set_input_def split: bind_splits)
  with assms(1)[OF _ w1(2)] show "acc as w' \<and> (\<forall>q\<in>set as. nodes w' q = nodes w q)" by auto
qed

lemma notify_loop_fold:
  assumes ex: "executor (input_attach attach v) acc" and "node_list (nodes w) t as" and "acc as w"
  shows "notify_loop attach v t w = foldM_opt (input_attach attach v) as w"
  using assms(2,3)
proof (induction as arbitrary: t w)
  case Nil
  then show ?case by (simp add: notify_loop.simps)
next
  case (Cons p ps)
  from Cons.prems(1) obtain r where t: "t = Some p" and r: "next_of (nodes w) p = Some r" and rest: "node_list (nodes w) r ps"
    by (auto split: option.splits)
  from r obtain nd where nd: "nodes w p = Some nd" by (cases "nodes w p") (auto simp: next_of_def)
  let ?w1 = "w\<lparr>ev_input := (ev_input w)(p \<mapsto> v)\<rparr>"
  have w1: "set_input p v w = Some ?w1" using nd by (simp add: set_input_def)
  show ?case
  proof (cases "attach p ?w1")
    case None
    then show ?thesis using t w1 r by (simp add: notify_loop.simps[of _ _ "Some p"] input_attach_def)
  next
    case (Some w2)
    then have at: "input_attach attach v p w = Some w2" using w1 by (simp add: input_attach_def)
    from executor.spares_rest[OF ex Cons.prems(2) at] have acc: "acc ps w2" and same: "\<forall>q\<in>set ps. nodes w2 q = nodes w q" by auto
    have "node_list (nodes w2) r ps"
      using rest node_list_cong[where h' = "nodes w2" and h = "nodes w" and as = ps and p = r and q = None] same by simp
    from Cons.IH[OF this acc] t w1 r Some show ?thesis
      by (simp add: notify_loop.simps[of _ _ "Some p"] input_attach_def)
  qed
qed

text \<open>\<open>notify_all\<close> gives every subscriber its own copy of the input and hands it to the executor, each
  once, the last subscriber first, although the executor may resume, free or relink a node at once; a
  coroutine that subscribes again meanwhile waits for the next notification. It answers whether there
  was a subscriber. A subscription adds the awaiting coroutine to the subscribers.\<close>

theorem event_notify_wakes_all:
  assumes "\<And>a as w w'. acc (a # as) w \<Longrightarrow> attach a w = Some w' \<Longrightarrow> acc as w' \<and> (\<forall>q\<in>set as. nodes w' q = nodes w q)"
    and "\<And>as w f. acc as (w\<lparr>ev_input := f\<rparr>) = acc as w"
    and "lf_holds w ps False" and "acc ps (w\<lparr>lf_top := None\<rparr>)"
  shows "notify_all_input attach v w = map_option (Pair (ps \<noteq> [])) (foldM_opt (input_attach attach v) ps (w\<lparr>lf_top := None\<rparr>))
    \<and> notify_all attach w = map_option (Pair (ps \<noteq> [])) (foldM_opt attach ps (w\<lparr>lf_top := None\<rparr>))
    \<and> (\<forall>p h. nodes w p \<noteq> None \<and> p \<notin> set ps \<and> p \<noteq> closed_marker \<longrightarrow>
        (\<exists>w'. subscribe_await_suspend p h w = Some w' \<and> lf_holds w' (p # ps) False \<and> task_of (nodes w') p = Some h))"
proof (intro conjI allI impI)
  have nl: "node_list (nodes (w\<lparr>lf_top := None\<rparr>)) (lf_top w) ps" using assms(3) by (simp add: lf_holds_def)
  have fst: "lf_top w = None \<longleftrightarrow> ps = []" using nl by (cases ps) auto
  have "executor attach acc" using assms(1) by unfold_locales
  note fold = executor.attach_list_fold[OF this nl assms(4)]
  have "executor (input_attach attach v) acc" by (rule input_attach_executor[OF assms(1,2)])
  note loop = notify_loop_fold[OF this nl assms(4)]
  have pair: "r \<bind> (\<lambda>w2. Some (True, w2)) = map_option (Pair True) r" for r :: "('a, 'b) ev_world_scheme option"
    by (cases r) auto
  show "notify_all_input attach v w = map_option (Pair (ps \<noteq> [])) (foldM_opt (input_attach attach v) ps (w\<lparr>lf_top := None\<rparr>))"
    using loop fst by (cases "lf_top w") (auto simp: notify_all_input_def lf_try_pop_all_def pair split: option.split)
  show "notify_all attach w = map_option (Pair (ps \<noteq> [])) (foldM_opt attach ps (w\<lparr>lf_top := None\<rparr>))"
    using fold fst by (cases "lf_top w") (auto simp: notify_all_def lf_try_pop_all_def pair split: option.split)
  fix p h assume p: "nodes w p \<noteq> None \<and> p \<notin> set ps \<and> p \<noteq> closed_marker"
  then obtain nd where nd: "nodes w p = Some nd" by auto
  let ?w1 = "w\<lparr>nodes := (nodes w)(p \<mapsto> nd\<lparr>nd_task := Some h\<rparr>)\<rparr>"
  have "lf_holds ?w1 ps False" using assms(3) p by (simp add: lf_holds_def)
  from lf_holds_push[OF this, of p "nd\<lparr>nd_task := Some h\<rparr>"] p
  show "\<exists>w'. subscribe_await_suspend p h w = Some w' \<and> lf_holds w' (p # ps) False \<and> task_of (nodes w') p = Some h"
    using nd lf_push_eq[of ?w1 p "nd\<lparr>nd_task := Some h\<rparr>" "[]"] by (auto simp: subscribe_await_suspend_def)
qed

definition ev_two :: "nat ev_world" where
  "ev_two = \<lparr>nodes = nodes two_nodes, lf_top = Some 1, ev_input = Map.empty\<rparr>"

lemma event_notify_wakes_all_witness:
  "notify_all_input (this_thread_attach free_self) 7 ev_two
   = Some (True, \<lparr>nodes = Map.empty, lf_top = None, ev_input = [1 \<mapsto> 7, 2 \<mapsto> 7]\<rparr>)"
proof -
  have "own_handles as (w\<lparr>ev_input := f\<rparr>) = own_handles as w" for as f and w :: "nat ev_world"
    by (simp add: own_handles_def)
  moreover have "lf_holds ev_two [1, 2] False"
    by (simp add: lf_holds_def ev_two_def two_nodes_def closed_marker_def)
  moreover have "own_handles [1, 2] (ev_two\<lparr>lf_top := None\<rparr>)"
    by (simp add: own_handles_def ev_two_def two_nodes_def)
  ultimately have "notify_all_input (this_thread_attach free_self) 7 ev_two
      = map_option (Pair True) (foldM_opt (input_attach (this_thread_attach free_self) 7) [1, 2] (ev_two\<lparr>lf_top := None\<rparr>))"
    using event_notify_wakes_all[where acc = own_handles and attach = "this_thread_attach free_self" and w = ev_two
        and ps = "[1, 2]" and v = 7, OF free_self_spares] by simp
  also have "\<dots> = Some (True, \<lparr>nodes = Map.empty, lf_top = None, ev_input = [1 \<mapsto> 7, 2 \<mapsto> 7]\<rparr>)"
    by (simp add: input_attach_def set_input_def this_thread_attach_def free_self_def destroy_nodes_def
        ev_two_def two_nodes_def fun_eq_iff)
  finally show ?thesis .
qed

end
