(* ===== verification/Event_Waits.thy ===== *)
theory Event_Waits
  imports Prelude "HOL-Library.Word"
begin

text \<open>
  \<open>when_all\<close> and \<open>when_any\<close> of \<open>events.hpp\<close>: a coroutine that awaits several events. Its awaiter, in
  the frame of the coroutine, subscribes one callback to each event, in order; every callback is
  invoked once, by whoever notifies the event, possibly on another thread and possibly while the
  awaiter still subscribes to later events. Resuming the coroutine ends the awaiter; an access to it
  afterwards is undefined behaviour, \<open>None\<close> for the step. A step is one atomic access with the
  accesses around it that no other thread can observe; event \<open>i\<close> is notified with \<open>vs i\<close>.
\<close>

section \<open>All events\<close>

text \<open>A callback: not subscribed yet, subscribed, input stored, finished.\<close>

datatype cb_pc = CbNone | CbWaiting | CbStored | CbEnd

record 'v subscribe_all_awaiter =
  sa_count :: "8 word"
  sa_input :: "'v list"

record 'v all_sys =
  al_awaiter :: "'v subscribe_all_awaiter option"
  al_next :: nat
  al_cbs :: "nat \<Rightarrow> cb_pc"
  al_resumed :: "'v list list"

definition event_when_all :: "'v \<Rightarrow> nat \<Rightarrow> 'v all_sys" where
  "event_when_all d n = \<lparr>al_awaiter = Some \<lparr>sa_count = 0, sa_input = replicate n d\<rparr>, al_next = 0,
     al_cbs = \<lambda>_. CbNone, al_resumed = []\<rparr>"

text \<open>The next step of \<open>await_suspend\<close>: it reads \<open>events_\<close> in the awaiter and sets a callback.\<close>

definition all_await_suspend :: "nat \<Rightarrow> 'v all_sys \<Rightarrow> 'v all_sys option" where
  "all_await_suspend n s =
     (if al_next s < n
      then do { _ \<leftarrow> al_awaiter s; Some (s\<lparr>al_next := Suc (al_next s), al_cbs := (al_cbs s)(al_next s := CbWaiting)\<rparr>) }
      else None)"

definition all_callback :: "nat \<Rightarrow> nat \<Rightarrow> 'v \<Rightarrow> 'v all_sys \<Rightarrow> 'v all_sys option" where
  "all_callback n i v s = (case al_cbs s i of
      CbWaiting \<Rightarrow> do {
        f \<leftarrow> al_awaiter s;
        Some (s\<lparr>al_awaiter := Some (f\<lparr>sa_input := (sa_input f)[i := v]\<rparr>), al_cbs := (al_cbs s)(i := CbStored)\<rparr>) }
    | CbStored \<Rightarrow> do {
        f \<leftarrow> al_awaiter s;
        let s1 = s\<lparr>al_awaiter := Some (f\<lparr>sa_count := sa_count f + 1\<rparr>), al_cbs := (al_cbs s)(i := CbEnd)\<rparr>;
        Some (if unat (sa_count f) = n - 1
          then s1\<lparr>al_awaiter := None, al_resumed := al_resumed s1 @ [sa_input f]\<rparr> else s1) }
    | _ \<Rightarrow> None)"

inductive all_reach :: "'v \<Rightarrow> (nat \<Rightarrow> 'v) \<Rightarrow> nat \<Rightarrow> 'v all_sys \<Rightarrow> bool" for d vs n where
  all_start: "all_reach d vs n (event_when_all d n)"
| all_subscribe: "all_reach d vs n s \<Longrightarrow> all_await_suspend n s = Some s' \<Longrightarrow> all_reach d vs n s'"
| all_notified: "all_reach d vs n s \<Longrightarrow> all_callback n i (vs i) s = Some s' \<Longrightarrow> all_reach d vs n s'"

definition ended :: "nat \<Rightarrow> (nat \<Rightarrow> cb_pc) \<Rightarrow> nat set" where
  "ended n cbs = {i. i < n \<and> cbs i = CbEnd}"

lemma finite_ended [simp]: "finite (ended n cbs)"
  by (simp add: ended_def)

lemma ended_upd_other: "cbs i \<noteq> CbEnd \<Longrightarrow> pc \<noteq> CbEnd \<Longrightarrow> ended n (cbs(i := pc)) = ended n cbs"
  by (auto simp: ended_def)

lemma ended_end: "i < n \<Longrightarrow> cbs i \<noteq> CbEnd \<Longrightarrow> ended n (cbs(i := CbEnd)) = insert i (ended n cbs) \<and> i \<notin> ended n cbs"
  by (auto simp: ended_def)

lemma card_ended_full: "card (ended n cbs) = n \<longleftrightarrow> (\<forall>i<n. cbs i = CbEnd)"
proof
  assume "card (ended n cbs) = n"
  moreover have "ended n cbs \<subseteq> {..<n}" by (auto simp: ended_def)
  ultimately have "ended n cbs = {..<n}" by (simp add: card_subset_eq)
  then show "\<forall>i<n. cbs i = CbEnd" by (auto simp: ended_def)
next
  assume "\<forall>i<n. cbs i = CbEnd"
  then have "ended n cbs = {..<n}" by (auto simp: ended_def)
  then show "card (ended n cbs) = n" by simp
qed

definition all_subscribed :: "nat \<Rightarrow> 'v all_sys \<Rightarrow> bool" where
  "all_subscribed n s \<longleftrightarrow> al_next s \<le> n \<and> (\<forall>i. (al_cbs s i = CbNone) = (al_next s \<le> i))"

definition all_inv :: "(nat \<Rightarrow> 'v) \<Rightarrow> nat \<Rightarrow> 'v all_sys \<Rightarrow> bool" where
  "all_inv vs n s \<longleftrightarrow> all_subscribed n s \<and> (case al_awaiter s of
      None \<Rightarrow> (\<forall>i<n. al_cbs s i = CbEnd) \<and> al_resumed s = [map vs [0..<n]]
    | Some f \<Rightarrow> al_resumed s = [] \<and> length (sa_input f) = n \<and> sa_count f = of_nat (card (ended n (al_cbs s)))
        \<and> card (ended n (al_cbs s)) < n
        \<and> (\<forall>i<n. al_cbs s i \<in> {CbStored, CbEnd} \<longrightarrow> sa_input f ! i = vs i))"

lemma unat_of_byte: "c < 256 \<Longrightarrow> unat (of_nat c :: 8 word) = c"
  by (simp only: unat_of_nat) simp

lemma all_inv_suspend:
  assumes inv: "all_inv vs n s" and lt: "al_next s < n"
  shows "\<exists>s'. all_await_suspend n s = Some s' \<and> all_inv vs n s'"
proof -
  let ?k = "al_next s" and ?cbs = "al_cbs s"
  from inv lt have k: "?cbs ?k = CbNone" by (simp add: all_inv_def all_subscribed_def)
  with inv lt obtain f where f: "al_awaiter s = Some f" by (cases "al_awaiter s") (auto simp: all_inv_def)
  have "ended n (?cbs(?k := CbWaiting)) = ended n ?cbs" by (rule ended_upd_other) (simp_all add: k)
  with inv f lt show ?thesis
    by (auto simp: all_await_suspend_def all_inv_def all_subscribed_def)
qed

lemma all_inv_callback:
  assumes inv: "all_inv vs n s" and n: "n < 256" and pc: "al_cbs s i \<in> {CbWaiting, CbStored}"
  shows "\<exists>s'. all_callback n i (vs i) s = Some s' \<and> all_inv vs n s'"
proof -
  let ?cbs = "al_cbs s"
  from inv pc have sub: "all_subscribed n s" by (simp add: all_inv_def)
  from pc have "?cbs i \<noteq> CbNone" by auto
  with sub have ni: "i < al_next s" "al_next s \<le> n" unfolding all_subscribed_def by (metis not_le)+
  then have i: "i < n" by simp
  from inv i pc obtain f where f: "al_awaiter s = Some f" by (cases "al_awaiter s") (auto simp: all_inv_def)
  from inv f have I: "al_resumed s = []" "length (sa_input f) = n" "sa_count f = of_nat (card (ended n ?cbs))"
    "card (ended n ?cbs) < n"
    by (simp_all add: all_inv_def)
  have I5: "sa_input f ! j = vs j" if "j < n" "?cbs j \<in> {CbStored, CbEnd}" for j
    using inv f that by (auto simp: all_inv_def)
  have sub': "all_subscribed n (s\<lparr>al_awaiter := x, al_cbs := ?cbs(i := pc'), al_resumed := r\<rparr>)" if "pc' \<noteq> CbNone" for x pc' r
    using sub ni that by (auto simp: all_subscribed_def)
  from pc consider "?cbs i = CbWaiting" | "?cbs i = CbStored" by auto
  then show ?thesis
  proof cases
    case 1
    have e: "ended n (?cbs(i := CbStored)) = ended n ?cbs" by (rule ended_upd_other) (simp_all add: 1)
    have "all_callback n i (vs i) s = Some (s\<lparr>al_awaiter := Some (f\<lparr>sa_input := (sa_input f)[i := vs i]\<rparr>), al_cbs := ?cbs(i := CbStored)\<rparr>)"
      using 1 f by (simp add: all_callback_def)
    moreover have "all_subscribed n (s\<lparr>al_awaiter := Some (f\<lparr>sa_input := (sa_input f)[i := vs i]\<rparr>), al_cbs := ?cbs(i := CbStored)\<rparr>)"
      using sub'[where pc' = CbStored and x = "Some (f\<lparr>sa_input := (sa_input f)[i := vs i]\<rparr>)" and r = "al_resumed s"] by simp
    moreover have "\<forall>j<n. (?cbs(i := CbStored)) j \<in> {CbStored, CbEnd} \<longrightarrow> (sa_input f)[i := vs i] ! j = vs j"
      using I5 I(2) by (auto simp: nth_list_update)
    ultimately show ?thesis using I e by (simp add: all_inv_def)
  next
    case 2
    note e = ended_end[of i n ?cbs] 
    have c: "card (ended n (?cbs(i := CbEnd))) = Suc (card (ended n ?cbs))" using e i 2 by simp
    have u: "unat (sa_count f) = card (ended n ?cbs)" unfolding I(3) by (rule unat_of_byte) (use I(4) n in linarith)
    show ?thesis
    proof (cases "card (ended n ?cbs) = n - 1")
      case True
      with c i have all: "\<forall>j<n. (?cbs(i := CbEnd)) j = CbEnd" by (simp only: card_ended_full[symmetric])
      have "sa_input f ! j = vs j" if "j < n" for j
        using I5[OF that] all that 2 by (cases "j = i") auto
      then have "sa_input f = map vs [0..<n]" using I(2) by (simp add: list_eq_iff_nth_eq)
      moreover have "all_callback n i (vs i) s = Some (s\<lparr>al_awaiter := None, al_cbs := ?cbs(i := CbEnd), al_resumed := [sa_input f]\<rparr>)"
        using 2 f u True I(1) by (simp add: all_callback_def)
      ultimately show ?thesis using all sub'[where pc' = CbEnd and x = None and r = "[sa_input f]"] by (simp add: all_inv_def)
    next
      case False
      have "all_callback n i (vs i) s = Some (s\<lparr>al_awaiter := Some (f\<lparr>sa_count := sa_count f + 1\<rparr>), al_cbs := ?cbs(i := CbEnd)\<rparr>)"
        using 2 f u False by (simp add: all_callback_def)
      moreover have "all_subscribed n (s\<lparr>al_awaiter := Some (f\<lparr>sa_count := sa_count f + 1\<rparr>), al_cbs := ?cbs(i := CbEnd)\<rparr>)"
        using sub'[where pc' = CbEnd and x = "Some (f\<lparr>sa_count := sa_count f + 1\<rparr>)" and r = "al_resumed s"] by simp
      moreover have "card (ended n (?cbs(i := CbEnd))) < n" "sa_count f + 1 = of_nat (card (ended n (?cbs(i := CbEnd))))"
        using c False I(3,4) by simp_all
      moreover have "\<forall>j<n. (?cbs(i := CbEnd)) j \<in> {CbStored, CbEnd} \<longrightarrow> sa_input f ! j = vs j"
        using I5 2 by simp
      ultimately show ?thesis using I(1,2) by (simp add: all_inv_def)
    qed
  qed
qed

lemma all_reach_inv: "all_reach d vs n s \<Longrightarrow> 0 < n \<Longrightarrow> n < 256 \<Longrightarrow> all_inv vs n s"
proof (induction rule: all_reach.induct)
  case all_start
  then show ?case by (simp add: all_inv_def event_when_all_def all_subscribed_def ended_def)
next
  case (all_subscribe s s')
  then have "al_next s < n" by (auto simp: all_await_suspend_def split: if_splits)
  from all_inv_suspend[OF all_subscribe.IH[OF all_subscribe.prems] this] all_subscribe.hyps(2) show ?case by simp
next
  case (all_notified s i s')
  then have "al_cbs s i \<in> {CbWaiting, CbStored}" by (cases "al_cbs s i") (auto simp: all_callback_def)
  from all_inv_callback[OF all_notified.IH[OF all_notified.prems] all_notified.prems(2) this] all_notified.hyps(2)
  show ?case by simp
qed

section \<open>Any event\<close>

datatype any_pc = YbNone | YbWaiting | YbFirst | YbEnd

text \<open>The variant in the awaiter, the counter that the callbacks share, and what the coroutine got.\<close>

record 'v any_sys =
  an_awaiter :: "(nat \<times> 'v) option"
  an_count :: "8 word"
  an_next :: nat
  an_cbs :: "nat \<Rightarrow> any_pc"
  an_resumed :: "(nat \<times> 'v) list"

definition event_when_any :: "'v \<Rightarrow> 'v any_sys" where
  "event_when_any d = \<lparr>an_awaiter = Some (0, d), an_count = 0, an_next = 0, an_cbs = \<lambda>_. YbNone, an_resumed = []\<rparr>"

definition any_await_suspend :: "nat \<Rightarrow> 'v any_sys \<Rightarrow> 'v any_sys option" where
  "any_await_suspend n s =
     (if an_next s < n
      then do { _ \<leftarrow> an_awaiter s; Some (s\<lparr>an_next := Suc (an_next s), an_cbs := (an_cbs s)(an_next s := YbWaiting)\<rparr>) }
      else None)"

definition any_callback :: "nat \<Rightarrow> 'v \<Rightarrow> 'v any_sys \<Rightarrow> 'v any_sys option" where
  "any_callback i v s = (case an_cbs s i of
      YbWaiting \<Rightarrow> Some (s\<lparr>an_count := an_count s + 1, an_cbs := (an_cbs s)(i := if an_count s = 0 then YbFirst else YbEnd)\<rparr>)
    | YbFirst \<Rightarrow> do {
        _ \<leftarrow> an_awaiter s;
        Some (s\<lparr>an_awaiter := None, an_cbs := (an_cbs s)(i := YbEnd), an_resumed := an_resumed s @ [(i, v)]\<rparr>) }
    | _ \<Rightarrow> None)"

text \<open>\<open>early\<close>: events may be notified while the awaiter subscribes to later ones.\<close>

inductive any_reach :: "bool \<Rightarrow> 'v \<Rightarrow> (nat \<Rightarrow> 'v) \<Rightarrow> nat \<Rightarrow> 'v any_sys \<Rightarrow> bool" for early d vs n where
  any_start: "any_reach early d vs n (event_when_any d)"
| any_subscribe: "any_reach early d vs n s \<Longrightarrow> any_await_suspend n s = Some s' \<Longrightarrow> any_reach early d vs n s'"
| any_notified: "any_reach early d vs n s \<Longrightarrow> early \<or> an_next s = n \<Longrightarrow> any_callback i (vs i) s = Some s' \<Longrightarrow> any_reach early d vs n s'"

definition counted :: "nat \<Rightarrow> (nat \<Rightarrow> any_pc) \<Rightarrow> nat set" where
  "counted n cbs = {i. i < n \<and> cbs i \<in> {YbFirst, YbEnd}}"

lemma finite_counted [simp]: "finite (counted n cbs)"
  by (simp add: counted_def)

lemma card_counted_le: "card (counted n cbs) \<le> n"
proof -
  have "counted n cbs \<subseteq> {..<n}" by (auto simp: counted_def)
  from card_mono[OF _ this] show ?thesis by simp
qed

definition answered :: "(nat \<Rightarrow> 'v) \<Rightarrow> 'v any_sys \<Rightarrow> nat \<Rightarrow> bool" where
  "answered vs s w \<longleftrightarrow> (\<forall>i. i \<noteq> w \<longrightarrow> an_cbs s i \<noteq> YbFirst)
     \<and> (if an_cbs s w = YbFirst then an_awaiter s \<noteq> None \<and> an_resumed s = []
        else an_cbs s w = YbEnd \<and> an_awaiter s = None \<and> an_resumed s = [(w, vs w)])"

definition any_inv :: "(nat \<Rightarrow> 'v) \<Rightarrow> nat \<Rightarrow> 'v any_sys \<Rightarrow> bool" where
  "any_inv vs n s \<longleftrightarrow> an_next s \<le> n \<and> (\<forall>i. (an_cbs s i = YbNone) = (an_next s \<le> i))
     \<and> an_count s = of_nat (card (counted n (an_cbs s)))
     \<and> (if counted n (an_cbs s) = {} then an_awaiter s \<noteq> None \<and> an_resumed s = []
        else an_next s = n \<and> (\<exists>w<n. answered vs s w))"

lemma any_inv_suspend:
  assumes inv: "any_inv vs n s" and lt: "an_next s < n"
  shows "\<exists>s'. any_await_suspend n s = Some s' \<and> any_inv vs n s'"
proof -
  let ?k = "an_next s" and ?cbs = "an_cbs s"
  from inv lt have k: "?cbs ?k = YbNone" and c: "counted n ?cbs = {}" and a: "an_awaiter s \<noteq> None" "an_resumed s = []"
    by (auto simp: any_inv_def split: if_splits)
  let ?s = "s\<lparr>an_next := Suc ?k, an_cbs := ?cbs(?k := YbWaiting)\<rparr>"
  have "counted n (?cbs(?k := YbWaiting)) = {}" using c k by (auto simp: counted_def)
  moreover have "(?cbs(?k := YbWaiting)) i = YbNone \<longleftrightarrow> Suc ?k \<le> i" for i
    using inv by (cases "i = ?k") (simp_all add: any_inv_def Suc_le_eq order_less_le)
  moreover have "an_count s = 0" using inv c by (simp add: any_inv_def)
  ultimately have "any_inv vs n ?s" using lt a unfolding any_inv_def by simp
  moreover have "any_await_suspend n s = Some ?s" using lt a(1) by (auto simp: any_await_suspend_def)
  ultimately show ?thesis by blast
qed

lemma byte_zero:
  assumes "c < 256"
  shows "(of_nat c :: 8 word) = 0 \<longleftrightarrow> c = 0"
proof -
  have "(of_nat c :: 8 word) = 0 \<longleftrightarrow> unat (of_nat c :: 8 word) = 0" by (rule unat_eq_zero[symmetric])
  then show ?thesis unfolding unat_of_byte[OF assms] .
qed

lemma any_inv_callback:
  assumes inv: "any_inv vs n s" and n: "n < 256" and late: "an_next s = n" and pc: "an_cbs s i \<in> {YbWaiting, YbFirst}"
  shows "\<exists>s'. any_callback i (vs i) s = Some s' \<and> any_inv vs n s'"
proof -
  let ?cbs = "an_cbs s"
  from inv have I: "\<And>j. (?cbs j = YbNone) = (an_next s \<le> j)" "an_count s = of_nat (card (counted n ?cbs))"
    by (auto simp: any_inv_def)
  from pc I(1)[of i] late have i: "i < n" by auto
  have z: "an_count s = 0 \<longleftrightarrow> counted n ?cbs = {}"
    unfolding I(2) using byte_zero[of "card (counted n ?cbs)"] card_counted_le[of n ?cbs] n by simp
  from pc consider (wait) "?cbs i = YbWaiting" | (fst) "?cbs i = YbFirst" by auto
  then show ?thesis
  proof cases
    case wait
    obtain pc where pc: "pc = (if an_count s = 0 then YbFirst else YbEnd)" by blast
    have cn: "counted n (?cbs(i := pc)) = insert i (counted n ?cbs)" "i \<notin> counted n ?cbs"
      using wait i by (auto simp: counted_def pc)
    then have "card (counted n (?cbs(i := pc))) = Suc (card (counted n ?cbs))" by simp
    then have cnt: "an_count s + 1 = of_nat (card (counted n (?cbs(i := pc))))" using I(2) by simp
    let ?s = "s\<lparr>an_count := an_count s + 1, an_cbs := ?cbs(i := pc)\<rparr>"
    have "\<exists>w<n. answered vs ?s w"
    proof (cases "an_count s = 0")
      case True
      with z inv have "an_awaiter s \<noteq> None" "an_resumed s = []" "counted n ?cbs = {}" by (auto simp: any_inv_def)
      moreover from this(3) have "?cbs j \<noteq> YbFirst" for j
        using I(1)[of j] late by (cases "j < n") (auto simp: counted_def)
      ultimately have "answered vs ?s i" using True by (auto simp: answered_def pc)
      with i show ?thesis by blast
    next
      case False
      with z inv obtain w where w: "w < n" "answered vs s w" by (auto simp: any_inv_def split: if_splits)
      with wait have "w \<noteq> i" by (auto simp: answered_def split: if_splits)
      with w False have "answered vs ?s w" by (auto simp: answered_def pc split: if_splits)
      with w show ?thesis by blast
    qed
    moreover have "(?cbs(i := pc)) j = YbNone \<longleftrightarrow> an_next s \<le> j" for j using I(1)[of j] i late by (auto simp: pc)
    moreover have "counted n (?cbs(i := pc)) \<noteq> {}" using cn by simp
    ultimately have "any_inv vs n ?s" using cnt late by (simp add: any_inv_def)
    moreover have "any_callback i (vs i) s = Some ?s" using wait by (simp add: any_callback_def pc)
    ultimately show ?thesis by blast
  next
    case fst
    then have ne: "counted n ?cbs \<noteq> {}" using i by (auto simp: counted_def)
    with inv obtain w where w: "w < n" "answered vs s w" by (auto simp: any_inv_def split: if_splits)
    from w(2) have "\<forall>j. j \<noteq> w \<longrightarrow> ?cbs j \<noteq> YbFirst" by (simp add: answered_def)
    with fst have "w = i" by auto
    with w(2) fst have wi: "w = i" "an_awaiter s \<noteq> None" "an_resumed s = []" by (simp_all add: answered_def)
    let ?s = "s\<lparr>an_awaiter := None, an_cbs := ?cbs(i := YbEnd), an_resumed := [(i, vs i)]\<rparr>"
    have "any_callback i (vs i) s = Some ?s" using fst wi by (auto simp: any_callback_def)
    moreover have "counted n (?cbs(i := YbEnd)) = counted n ?cbs" using fst by (auto simp: counted_def)
    moreover have "answered vs ?s i" using w wi by (auto simp: answered_def split: if_splits)
    moreover have "(?cbs(i := YbEnd)) j = YbNone \<longleftrightarrow> an_next s \<le> j" for j using I(1)[of j] i late by auto
    ultimately have "any_callback i (vs i) s = Some ?s" "any_inv vs n ?s" using ne late i I(2) by (auto simp: any_inv_def)
    then show ?thesis by blast
  qed
qed

lemma any_reach_inv: "any_reach False d vs n s \<Longrightarrow> 0 < n \<Longrightarrow> n < 256 \<Longrightarrow> any_inv vs n s"
proof (induction rule: any_reach.induct)
  case any_start
  then show ?case by (simp add: any_inv_def event_when_any_def counted_def)
next
  case (any_subscribe s s')
  then have "an_next s < n" by (auto simp: any_await_suspend_def split: if_splits)
  from any_inv_suspend[OF any_subscribe.IH[OF any_subscribe.prems] this] any_subscribe.hyps(2) show ?case by simp
next
  case (any_notified s i s')
  then have "an_cbs s i \<in> {YbWaiting, YbFirst}" by (cases "an_cbs s i") (auto simp: any_callback_def)
  from any_inv_callback[OF any_notified.IH[OF any_notified.prems] any_notified.prems(2) _ this] any_notified.hyps(2,3)
  show ?case by simp
qed

section \<open>Properties\<close>

text \<open>C29. A coroutine that awaits all of up to 255 events is resumed exactly once, when the last callback
  has finished, with the input of each event at its place, however subscriptions, notifications and
  callbacks interleave; nothing touches the awaiter after that, and the counter of one byte never wraps.\<close>

theorem event_when_all_resumes_once:
  assumes "all_reach d vs n s" and "0 < n" and "n < 256"
  shows "al_resumed s = (if \<forall>i<n. al_cbs s i = CbEnd then [map vs [0..<n]] else [])
    \<and> (al_next s < n \<longrightarrow> all_await_suspend n s \<noteq> None)
    \<and> (\<forall>i. al_cbs s i \<in> {CbWaiting, CbStored} \<longrightarrow> all_callback n i (vs i) s \<noteq> None)"
proof -
  note inv = all_reach_inv[OF assms]
  have "al_resumed s = (if \<forall>i<n. al_cbs s i = CbEnd then [map vs [0..<n]] else [])"
  proof (cases "al_awaiter s")
    case None
    with inv show ?thesis by (simp add: all_inv_def)
  next
    case (Some f)
    with inv have "al_resumed s = []" "card (ended n (al_cbs s)) < n" by (simp_all add: all_inv_def)
    with card_ended_full[of n "al_cbs s"] show ?thesis by auto
  qed
  with all_inv_suspend[OF inv] all_inv_callback[OF inv assms(3)] show ?thesis by blast
qed

lemma event_when_all_resumes_once_witness:
  "\<exists>s. (all_await_suspend 1 (event_when_all (0::nat) 1) \<bind> all_callback 1 0 7 \<bind> all_callback 1 0 7) = Some s
     \<and> al_resumed s = [[7]]"
proof -
  obtain s1 s2 s where s: "all_await_suspend 1 (event_when_all (0::nat) 1) = Some s1" "all_callback 1 0 7 s1 = Some s2"
    "all_callback 1 0 7 s2 = Some s" "al_cbs s 0 = CbEnd"
    by (simp add: all_await_suspend_def event_when_all_def all_callback_def)
  have "all_reach 0 (\<lambda>_. 7) 1 s"
    by (rule all_notified[OF all_notified[OF all_subscribe[OF all_start s(1)] s(2)] s(3)])
  from event_when_all_resumes_once[OF this] s show ?thesis by simp
qed

text \<open>A coroutine that awaits any of up to 255 events is resumed exactly once, by the callback that counts
  first and with its index and input, if no event is notified before it has subscribed to all of them;
  the later callbacks leave the awaiter alone.\<close>

theorem event_when_any_resumes_once:
  assumes "any_reach False d vs n s" and "0 < n" and "n < 256"
  shows "(an_next s < n \<longrightarrow> any_await_suspend n s \<noteq> None)
    \<and> (\<forall>i. an_next s = n \<and> an_cbs s i \<in> {YbWaiting, YbFirst} \<longrightarrow> any_callback i (vs i) s \<noteq> None)
    \<and> length (an_resumed s) \<le> 1
    \<and> ((\<exists>i<n. an_cbs s i = YbEnd) \<and> (\<forall>i<n. an_cbs s i \<noteq> YbFirst) \<longrightarrow> (\<exists>w<n. an_resumed s = [(w, vs w)] \<and> an_cbs s w = YbEnd))"
proof -
  note inv = any_reach_inv[OF assms]
  have "length (an_resumed s) \<le> 1"
    using inv by (auto simp: any_inv_def answered_def split: if_splits)
  moreover have "\<exists>w<n. an_resumed s = [(w, vs w)] \<and> an_cbs s w = YbEnd"
    if "\<exists>i<n. an_cbs s i = YbEnd" "\<forall>i<n. an_cbs s i \<noteq> YbFirst"
  proof -
    from that(1) have "counted n (an_cbs s) \<noteq> {}" by (auto simp: counted_def)
    with inv obtain w where "w < n" "answered vs s w" by (auto simp: any_inv_def split: if_splits)
    with that(2) show ?thesis by (auto simp: answered_def split: if_splits)
  qed
  ultimately show ?thesis using any_inv_suspend[OF inv] any_inv_callback[OF inv assms(3)] by blast
qed

lemma event_when_any_resumes_once_witness:
  "\<exists>s. (any_await_suspend 2 (event_when_any (0::nat)) \<bind> any_await_suspend 2 \<bind> any_callback 1 7 \<bind> any_callback 0 7
       \<bind> any_callback 1 7) = Some s \<and> an_resumed s = [(1, 7)]"
proof -
  obtain s1 s2 s3 s4 s where s: "any_await_suspend 2 (event_when_any (0::nat)) = Some s1" "any_await_suspend 2 s1 = Some s2"
    "any_callback 1 7 s2 = Some s3" "any_callback 0 7 s3 = Some s4" "any_callback 1 7 s4 = Some s"
    "an_next s2 = 2" "an_next s3 = 2" "an_next s4 = 2" "an_cbs s 0 = YbEnd" "an_cbs s 1 = YbEnd" "fst (the (find (\<lambda>_. True) (an_resumed s))) = 1"
    by (simp add: any_await_suspend_def event_when_any_def any_callback_def)
  have "any_reach False 0 (\<lambda>_. 7) 2 s"
    by (rule any_notified[OF any_notified[OF any_notified[OF any_subscribe[OF any_subscribe[OF any_start s(1)] s(2)] _ s(3)] _ s(4)] _ s(5)])
      (simp_all add: s)
  moreover have "\<exists>i<2. an_cbs s i = YbEnd" "\<forall>i<2. an_cbs s i \<noteq> YbFirst" using s(9,10) by (auto simp: less_2_cases_iff)
  ultimately obtain w where "an_resumed s = [(w, 7)]"
    using event_when_any_resumes_once[of 0 "\<lambda>_. 7" 2 s] by auto
  with s show ?thesis by auto
qed

text \<open>
  But an event that is notified while the awaiter still subscribes resumes the coroutine, which ends the
  awaiter; \<open>await_suspend\<close> then reads \<open>events_\<close> of the dead awaiter for the next event.
\<close>

lemma event_when_any_early_notify:
  "\<exists>s. any_reach True (0::nat) (\<lambda>_. 7) 2 s \<and> an_next s < 2 \<and> any_await_suspend 2 s = None"
proof -
  obtain s1 s2 s where s: "any_await_suspend 2 (event_when_any (0::nat)) = Some s1" "any_callback 0 7 s1 = Some s2"
    "any_callback 0 7 s2 = Some s" "an_next s = 1" "an_awaiter s = None"
    by (simp add: any_await_suspend_def event_when_any_def any_callback_def)
  have "any_reach True 0 (\<lambda>_. 7) 2 s"
    by (rule any_notified[OF any_notified[OF any_subscribe[OF any_start s(1)] _ s(2)] _ s(3)]) simp_all
  with s(4,5) show ?thesis by (auto simp: any_await_suspend_def)
qed

end
