(* ===== verification/Iteration.thy ===== *)
theory Iteration
  imports Channel_Refinement
begin

text \<open>
  The loops over generators and channels: the range-based \<open>for\<close> over a generator, which uses \<open>begin\<close>,
  \<open>++\<close>, \<open>*\<close> and the comparison with the end, and the macros \<open>co_foreach\<close> and \<open>co_foreach_nt\<close> of
  \<open>channel.hpp\<close>, which also converts channels to another element type in
  \<open>noexport/generators_common.hpp\<close>. What the body of the loop does to the state of the user is the
  parameter \<open>visit\<close>.
\<close>

section \<open>The elements of a generator\<close>

text \<open>
  The elements that are still to come, in order, and the exception that ends them: nested generators
  come in place and are empty afterwards.
\<close>

partial_function (option) drain ::
  "addr \<Rightarrow> ('y, 'e) stacks \<Rightarrow> ('y list \<times> 'e option \<times> ('y, 'e) stacks) option" where
  "drain a A = (case A a of
      None \<Rightarrow> None
    | Some (r, stk) \<Rightarrow> (case stk of
        [] \<Rightarrow> Some ([], None, A)
      | b # rest \<Rightarrow> (case b of
          [] \<Rightarrow> drain a (A(a \<mapsto> (None, rest)))
        | act # b' \<Rightarrow> (case act of
            Yield y \<Rightarrow> do { (ys, x, A') \<leftarrow> drain a (A(a \<mapsto> (None, b' # rest))); Some (y # ys, x, A') }
          | Throw e \<Rightarrow> Some ([], Some e, A(a \<mapsto> (None, rest)))
          | ElementsOf g \<Rightarrow> if g = a then None
              else do { (_, stk') \<leftarrow> A g; drain a (A(g \<mapsto> (None, []), a \<mapsto> (None, stk' @ b' # rest))) }))))"

lemma drain_empty: "A a = Some (r, []) \<Longrightarrow> drain a A = Some ([], None, A)"
  by (subst drain.simps) simp

lemma drain_end: "A a = Some (r, [] # rest) \<Longrightarrow> drain a A = drain a (A(a \<mapsto> (None, rest)))"
  by (subst drain.simps) simp

lemma drain_yield:
  "A a = Some (r, (Yield y # b) # rest) \<Longrightarrow>
     drain a A = do { (ys, x, A') \<leftarrow> drain a (A(a \<mapsto> (None, b # rest))); Some (y # ys, x, A') }"
  by (subst drain.simps) simp

lemma drain_throw:
  "A a = Some (r, (Throw e # b) # rest) \<Longrightarrow> drain a A = Some ([], Some e, A(a \<mapsto> (None, rest)))"
  by (subst drain.simps) simp

lemma drain_elements:
  "A a = Some (r, (ElementsOf g # b) # rest) \<Longrightarrow> g \<noteq> a \<Longrightarrow> A g = Some (r', stk) \<Longrightarrow>
     drain a A = drain a (A(g \<mapsto> (None, []), a \<mapsto> (None, stk @ b # rest)))"
  by (subst drain.simps) simp

text \<open>What is shown does not matter, unless nothing is left to do.\<close>

lemma drain_shown: "stk \<noteq> [] \<Longrightarrow> drain a (A(a \<mapsto> (r, stk))) = drain a (A(a \<mapsto> (None, stk)))"
  by (subst (1 2) drain.simps) (auto split: list.splits action.splits)

text \<open>
  \<open>to_generator\<close>: the body of the generator that \<open>elements_of\<close> makes from a range which is not a generator,
  a loop over the range. Its two branches yield the elements in the same order: as they are, for an
  rvalue range of the same type, or each converted by \<open>cast\<close>.
\<close>

fun to_generator :: "('x \<Rightarrow> 'y) \<Rightarrow> 'x list \<Rightarrow> ('y, 'e) action list" where
  "to_generator cast [] = []"
| "to_generator cast (x # rng) = Yield (cast x) # to_generator cast rng"

lemma to_generator_yields: "to_generator cast rng = map (\<lambda>x. Yield (cast x)) rng"
  by (induction rng) simp_all

lemma drain_yields:
  "A a = Some (r, (map Yield ys @ b) # rest) \<Longrightarrow> drain a A = do {
     (zs, x, A') \<leftarrow> drain a (A(a \<mapsto> (None, b # rest))); Some (ys @ zs, x, A') }"
proof (induction ys arbitrary: A r)
  case Nil
  with drain_shown[of "b # rest" a A r] show ?case
    by (simp add: fun_upd_triv fun_upd_idem case_prod_unfold del: fun_upd_apply)
next
  case (Cons y ys)
  have "drain a A = do {
      (zs, x, A') \<leftarrow> drain a (A(a \<mapsto> (None, (map Yield ys @ b) # rest))); Some (y # zs, x, A') }"
    by (rule drain_yield) (use Cons.prems in simp)
  with Cons.IH[of "A(a \<mapsto> (None, (map Yield ys @ b) # rest))" None] show ?case
    by (simp add: case_prod_unfold fun_upd_same del: fun_upd_apply)
qed

text \<open>The elements of a range come in place, before the rest of the body that yields them.\<close>

lemma drain_range:
  assumes "A a = Some (r, (ElementsOf g # b) # rest)" "g \<noteq> a" "A g = Some (r', [to_generator cast rng])"
  shows "drain a A = do {
     (ys, x, A') \<leftarrow> drain a (A(g \<mapsto> (None, []), a \<mapsto> (None, b # rest))); Some (map cast rng @ ys, x, A') }"
proof -
  let ?A = "A(g \<mapsto> (None, []), a \<mapsto> (None, map Yield (map cast rng) # b # rest))"
  have "drain a A = drain a ?A"
    using drain_elements[OF assms] by (simp add: to_generator_yields comp_def)
  also have "\<dots> = do {
      (ys, x, A') \<leftarrow> drain a (?A(a \<mapsto> (None, [] # b # rest))); Some (map cast rng @ ys, x, A') }"
    by (rule drain_yields[where r = None]) simp
  also have "drain a (?A(a \<mapsto> (None, [] # b # rest))) = drain a (A(g \<mapsto> (None, []), a \<mapsto> (None, b # rest)))"
    by (subst drain_end[where r = None and rest = "b # rest"]) simp_all
  finally show ?thesis .
qed

text \<open>One run of the stack machine takes one element.\<close>

definition next_drain ::
  "addr \<Rightarrow> 'e sturn \<Rightarrow> ('y, 'e) stacks \<Rightarrow> ('y list \<times> 'e option \<times> ('y, 'e) stacks) option" where
  "next_drain a o' A = (case o' of
      SAgain \<Rightarrow> None
    | SExc e \<Rightarrow> Some ([], Some e, A)
    | SBack \<Rightarrow> (case A a of
        Some (Some y, stk) \<Rightarrow> do { (ys, x, A') \<leftarrow> drain a (A(a \<mapsto> (None, stk))); Some (y # ys, x, A') }
      | _ \<Rightarrow> Some ([], None, A)))"

lemma stack_run_drain:
  "stack_run n a A = Some (o', A') \<Longrightarrow> A a = Some (r, stk) \<Longrightarrow> stk \<noteq> [] \<Longrightarrow> drain a A = next_drain a o' A'"
proof (induction n arbitrary: A r stk)
  case 0
  then show ?case by simp
next
  case (Suc n)
  obtain b rest where stk: "stk = b # rest" using Suc.prems(3) by (cases stk) auto
  note a = Suc.prems(2)[unfolded stk]
  show ?case
  proof (cases b)
    case Nil
    show ?thesis
    proof (cases rest)
      case rest: Nil
      with a Nil have "stack_turn a A = Some (SBack, A(a \<mapsto> (None, [])))" by (simp add: stack_turn_def)
      with Suc.prems(1) a Nil rest show ?thesis
        by (auto simp: drain_end drain_empty next_drain_def)
    next
      case (Cons b' rest')
      with a Nil have "stack_turn a A = Some (SAgain, A(a \<mapsto> (r, rest)))" by (simp add: stack_turn_def)
      with Suc.prems(1) have run: "stack_run n a (A(a \<mapsto> (r, rest))) = Some (o', A')" by simp
      have "drain a (A(a \<mapsto> (r, rest))) = next_drain a o' A'"
        by (rule Suc.IH[OF run]) (use Cons in auto)
      moreover have "drain a A = drain a (A(a \<mapsto> (r, rest)))"
        using drain_shown[of rest a A r] drain_end[of A a r rest] a Nil Cons by simp
      ultimately show ?thesis by simp
    qed
  next
    case (Cons act b')
    show ?thesis
    proof (cases act)
      case (Yield y)
      with a Cons have "stack_turn a A = Some (SBack, A(a \<mapsto> (Some y, b' # rest)))" by (simp add: stack_turn_def)
      with Suc.prems(1) have "o' = SBack" "A' = A(a \<mapsto> (Some y, b' # rest))" by auto
      with a Cons Yield show ?thesis by (simp add: drain_yield next_drain_def del: fun_upd_apply add: fun_upd_same)
    next
      case (Throw e)
      with a Cons have "stack_turn a A = Some (SExc e, A(a \<mapsto> (None, rest)))" by (simp add: stack_turn_def)
      with Suc.prems(1) have "o' = SExc e" "A' = A(a \<mapsto> (None, rest))" by auto
      with a Cons Throw show ?thesis by (simp add: drain_throw next_drain_def del: fun_upd_apply)
    next
      case (ElementsOf g)
      from Suc.prems(1) have "stack_turn a A \<noteq> None" by (cases "stack_turn a A") auto
      with a Cons ElementsOf obtain r' st where g: "g \<noteq> a" "A g = Some (r', st)"
        by (auto simp: stack_turn_def split: if_splits option.splits)
      let ?A = "A(g \<mapsto> (None, []))"
      have "stack_turn a A = Some (SAgain, ?A(a \<mapsto> (r, st @ b' # rest)))"
        using a Cons ElementsOf g by (simp add: stack_turn_def)
      with Suc.prems(1) have run: "stack_run n a (?A(a \<mapsto> (r, st @ b' # rest))) = Some (o', A')" by simp
      have "drain a (?A(a \<mapsto> (r, st @ b' # rest))) = next_drain a o' A'"
        by (rule Suc.IH[OF run]) auto
      with drain_shown[of "st @ b' # rest" a ?A r] drain_elements[of A a r g b' rest r' st] a Cons ElementsOf g
      show ?thesis by simp
    qed
  qed
qed

text \<open>What a run of the machine leaves can be run again, and it is smaller when an element was taken.\<close>

lemma stack_run_props:
  assumes "stack_run n a A = Some (o', A')" "finite (dom A)" "refs_ok a A" "A a = Some (r, b # rest)"
  shows "dom A' = dom A \<and> refs_ok a A' \<and> total_size A' < total_size A
    \<and> (o' = SBack \<and> fst (the (A' a)) = None \<longrightarrow> A' a = Some (None, []))"
  using assms
proof (induction n arbitrary: A r b rest)
  case 0
  then show ?case by simp
next
  case (Suc n)
  from stack_turn_total[OF Suc.prems(2,3,4)] obtain o1 A1 where t: "stack_turn a A = Some (o1, A1)" "dom A1 = dom A"
    "refs_ok a A1" "o1 = SAgain \<longrightarrow> total_size A1 < total_size A \<and> (\<exists>b' rest'. A1 a = Some (r, b' # rest'))" by blast
  show ?case
  proof (cases "o1 = SAgain")
    case True
    with t obtain b' rest' where a1: "A1 a = Some (r, b' # rest')" "total_size A1 < total_size A" by auto
    from Suc.prems(1) t(1) True have "stack_run n a A1 = Some (o', A')" by simp
    from Suc.IH[OF this _ t(3) a1(1)] t(2) Suc.prems(2) a1(2) show ?thesis by auto
  next
    case False
    with Suc.prems(1) t(1) have eq: "o' = o1" "A' = A1" by (cases o1; simp)+
    consider (yield) y b' where "b = Yield y # b'" "A1 = A(a \<mapsto> (Some y, b' # rest))"
      | (throw) e b' where "b = Throw e # b'" "A1 = A(a \<mapsto> (None, rest))" "o1 = SExc e"
      | (nil) "b = []" "rest = []" "A1 = A(a \<mapsto> (None, []))"
      using t(1) False Suc.prems(4)
      by (auto simp: stack_turn_def split: list.splits action.splits if_splits option.splits)
    then obtain x stk where A1: "A1 = A(a \<mapsto> (x, stk))" "stack_size stk < stack_size (b # rest)"
      "o1 = SBack \<and> x = None \<longrightarrow> stk = []"
    proof cases
      case yield
      show ?thesis by (rule that[OF yield(2)]) (simp_all add: yield(1) stack_size_def)
    next
      case throw
      show ?thesis by (rule that[OF throw(2)]) (simp_all add: throw(1,3) stack_size_def)
    next
      case nil
      show ?thesis by (rule that[OF nil(3)]) (simp_all add: nil(1) stack_size_def)
    qed
    then have "total_size A1 < total_size A" using total_size_upd[OF Suc.prems(2,4), of x stk] by simp
    with A1 have "total_size A1 < total_size A \<and> (o1 = SBack \<and> fst (the (A1 a)) = None \<longrightarrow> A1 a = Some (None, []))"
      by auto
    with eq t show ?thesis by simp
  qed
qed

lemma stack_run_thrown:
  "stack_run n a A = Some (SExc e, A') \<Longrightarrow> A' a = Some (r, stk) \<Longrightarrow> r = None"
proof (induction n arbitrary: A)
  case 0
  then show ?case by simp
next
  case (Suc n)
  obtain o1 A1 where t: "stack_turn a A = Some (o1, A1)" using Suc.prems(1) by (cases "stack_turn a A") auto
  show ?case
  proof (cases "o1 = SAgain")
    case True
    with Suc.prems(1) t have "stack_run n a A1 = Some (SExc e, A')" by simp
    from Suc.IH[OF this Suc.prems(2)] show ?thesis .
  next
    case False
    with Suc.prems t have "A1 = A'" "o1 = SExc e" by (cases o1; simp)+
    with t Suc.prems(2) show ?thesis
      by (auto simp: stack_turn_def split: list.splits action.splits if_splits option.splits)
  qed
qed

lemma stack_run_yield:
  assumes "stack_run n a A = Some (SBack, A')" "A a = Some (r, b # rest)" "A' a = Some (Some y, stk)"
  shows "stk \<noteq> []"
  using assms
proof (induction n arbitrary: A r b rest)
  case 0
  then show ?case by simp
next
  case (Suc n)
  obtain o1 A1 where t: "stack_turn a A = Some (o1, A1)" using Suc.prems(1) by (cases "stack_turn a A") auto
  show ?case
  proof (cases "o1 = SAgain")
    case True
    with Suc.prems(1) t have run: "stack_run n a A1 = Some (SBack, A')" by simp
    from t True Suc.prems(2) obtain stk1 where "A1 a = Some (r, stk1)" "stk1 \<noteq> []"
      by (auto simp: stack_turn_def split: list.splits action.splits if_splits option.splits)
    then obtain b' rest' where "A1 a = Some (r, b' # rest')" by (cases stk1) auto
    with Suc.IH[OF run] Suc.prems(3) show ?thesis by blast
  next
    case False
    with Suc.prems t have "A1 = A'" "o1 = SBack" by (cases o1; simp)+
    with t Suc.prems(2,3) show ?thesis
      by (auto simp: stack_turn_def split: list.splits action.splits if_splits option.splits)
  qed
qed

section \<open>Range-based \<open>for\<close>\<close>

text \<open>\<open>for (auto&& x : g) visit(x)\<close>: what it throws, if it does, and the states afterwards.\<close>

partial_function (option) gen_loop :: "('y \<Rightarrow> 'u \<Rightarrow> 'u) \<Rightarrow> objref \<Rightarrow> 'u \<Rightarrow> ('y, 'e) gen_store
    \<Rightarrow> ('e option \<times> 'u \<times> ('y, 'e) gen_store) option" where
  "gen_loop visit c u s = do {
     stop \<leftarrow> at_end c s;
     if stop then Some (None, u, s)
     else do {
       y \<leftarrow> gen_deref c s;
       (t, s1) \<leftarrow> gen_incr c s;
       case t of
         Back \<Rightarrow> gen_loop visit c (visit y u) s1
       | Exc e \<Rightarrow> Some (Some e, visit y u, s1)
       | Again _ \<Rightarrow> None } }"

definition gen_for :: "('y \<Rightarrow> 'u \<Rightarrow> 'u) \<Rightarrow> objref \<Rightarrow> 'u \<Rightarrow> ('y, 'e) gen_store
    \<Rightarrow> ('e option \<times> 'u \<times> ('y, 'e) gen_store) option" where
  "gen_for visit c u s = do {
     (t, s1) \<leftarrow> gen_begin c s;
     case t of
       Back \<Rightarrow> gen_loop visit c u s1
     | Exc e \<Rightarrow> Some (Some e, u, s1)
     | Again _ \<Rightarrow> None }"

lemma gen_loop_stop: "at_end c s = Some True \<Longrightarrow> gen_loop visit c u s = Some (None, u, s)"
  by (subst gen_loop.simps) simp

lemma gen_loop_step:
  "at_end c s = Some False \<Longrightarrow> gen_deref c s = Some y \<Longrightarrow> gen_incr c s = Some (t, s1) \<Longrightarrow>
   gen_loop visit c u s = (case t of Back \<Rightarrow> gen_loop visit c (visit y u) s1
     | Exc e \<Rightarrow> Some (Some e, visit y u, s1) | Again _ \<Rightarrow> None)"
  by (subst gen_loop.simps) simp

text \<open>After a turn that took one element, the loop goes on with what the turn left.\<close>

lemma gen_shown:
  assumes "gen_rel s A F" "A a = Some (r, stk)"
  shows "at_end (Obj a) s = Some (r = None)" "gen_deref (Obj a) s = r"
  using gen_rel_obj(1)[OF assms] by (auto simp: gen_ok_def at_end_def gen_deref_def)

lemma gen_loop_drains:
  assumes "gen_rel s A F" "finite (dom A)" "refs_ok a A" "A a = Some (Some y, stk)" "stk \<noteq> []"
  shows "\<exists>ys x s' F' A'. drain a A = Some (ys, x, A') \<and> gen_rel s' A' F'
    \<and> gen_loop visit (Obj a) u s = Some (x, fold visit (y # ys) u, s')"
  using assms
proof (induction "total_size A" arbitrary: A s F u y stk rule: less_induct)
  case less
  obtain b rest where stk: "stk = b # rest" using less.prems(5) by (cases stk) auto
  note a = less.prems(4)[unfolded stk]
  from generator_next_sim[OF less.prems(1-3) a] obtain t s1 F1 o1 A1 where n: "stack_run (Suc (total_size A)) a A = Some (o1, A1)"
    "gen_incr (Obj a) s = Some (t, s1)" "gen_rel s1 A1 F1" "turn_match o1 t s1 a" "o1 \<noteq> SAgain" by blast
  note loop = gen_loop_step[OF _ _ n(2), of y visit u] gen_shown[OF less.prems(1) a]
  from stack_run_props[OF n(1) less.prems(2,3) a] have pr: "dom A1 = dom A" "refs_ok a A1" "total_size A1 < total_size A"
    "o1 = SBack \<and> fst (the (A1 a)) = None \<longrightarrow> A1 a = Some (None, [])" by auto
  have dr: "drain a A = next_drain a o1 A1" by (rule stack_run_drain[OF n(1) a]) simp
  obtain r1 stk1 where a1: "A1 a = Some (r1, stk1)" using pr(1) a by (metis domD domI surj_pair)
  show ?case
  proof (cases o1)
    case SAgain
    with n(5) show ?thesis by simp
  next
    case (SExc e)
    with dr loop n(3,4) show ?thesis by (auto simp: next_drain_def)
  next
    case SBack
    with n(4) have t: "t = Back" by simp
    show ?thesis
    proof (cases r1)
      case None
      then have "gen_loop visit (Obj a) (visit y u) s1 = Some (None, visit y u, s1)"
        using gen_shown(1)[OF n(3) a1] by (simp add: gen_loop_stop)
      with SBack dr loop n(3) t a1 None show ?thesis by (auto simp: next_drain_def)
    next
      case (Some y1)
      have ne: "stk1 \<noteq> []" using stack_run_yield[OF n(1)[unfolded SBack] a] a1 Some by auto
      obtain ys x s' F' A' where "drain a A1 = Some (ys, x, A')" "gen_rel s' A' F'"
        "gen_loop visit (Obj a) (visit y u) s1 = Some (x, fold visit (y1 # ys) (visit y u), s')"
        using less.hyps[OF pr(3) n(3) _ pr(2) a1[unfolded Some] ne, of "visit y u"] pr(1) less.prems(2) by auto
      moreover have "drain a A1 = drain a (A1(a \<mapsto> (None, stk1)))"
        using drain_shown[OF ne, of a A1 r1] a1 by (simp add: fun_upd_idem)
      ultimately show ?thesis using SBack dr loop t a1 Some by (auto simp: next_drain_def)
    qed
  qed
qed

lemma gen_for_drains:
  assumes "gen_rel s A F" "finite (dom A)" "refs_ok a A" "A a = Some (r, stk)" "stk = [] \<longrightarrow> r = None"
  shows "\<exists>ys x s' F' A'. drain a A = Some (ys, x, A') \<and> gen_rel s' A' F'
    \<and> gen_for visit (Obj a) u s = Some (x, fold visit ys u, s')"
proof (cases stk)
  case Nil
  with assms(4,5) have a: "A a = Some (None, [])" by simp
  have "gen_begin (Obj a) s = Some (Back, s)"
    using gen_ok_empty[OF gen_rel_obj(1)[OF assms(1) a]] by (simp add: gen_begin_def)
  with gen_shown(1)[OF assms(1) a] drain_empty[where A = A and a = a and r = None] a assms(1) show ?thesis
    by (auto simp: gen_for_def gen_loop_stop)
next
  case (Cons b rest)
  note a = assms(4)[unfolded Cons]
  from generator_next_sim[OF assms(1-3) a] obtain t s1 F1 o1 A1 where n: "stack_run (Suc (total_size A)) a A = Some (o1, A1)"
    "gen_begin (Obj a) s = Some (t, s1)" "gen_rel s1 A1 F1" "turn_match o1 t s1 a" "o1 \<noteq> SAgain" by blast
  from stack_run_props[OF n(1) assms(2,3) a] have pr: "dom A1 = dom A" "refs_ok a A1" by auto
  have dr: "drain a A = next_drain a o1 A1" by (rule stack_run_drain[OF n(1) a]) simp
  obtain r1 stk1 where a1: "A1 a = Some (r1, stk1)" using pr(1) a by (metis domD domI surj_pair)
  show ?thesis
  proof (cases o1)
    case SAgain
    with n(5) show ?thesis by simp
  next
    case (SExc e)
    with dr n show ?thesis by (auto simp: next_drain_def gen_for_def)
  next
    case SBack
    with n have f: "gen_for visit (Obj a) u s = gen_loop visit (Obj a) u s1" by (simp add: gen_for_def)
    show ?thesis
    proof (cases r1)
      case None
      with SBack dr f n(3) a1 gen_shown(1)[OF n(3) a1] show ?thesis
        by (auto simp: next_drain_def gen_loop_stop)
    next
      case (Some y1)
      have ne: "stk1 \<noteq> []" using stack_run_yield[OF n(1)[unfolded SBack] a] a1 Some by auto
      obtain ys x s' F' A' where "drain a A1 = Some (ys, x, A')" "gen_rel s' A' F'"
        "gen_loop visit (Obj a) u s1 = Some (x, fold visit (y1 # ys) u, s')"
        using gen_loop_drains[OF n(3) _ pr(2) a1[unfolded Some] ne, of visit u] pr(1) assms(2) by auto
      moreover have "drain a A1 = drain a (A1(a \<mapsto> (None, stk1)))"
        using drain_shown[OF ne, of a A1 r1] a1 by (simp add: fun_upd_idem)
      ultimately show ?thesis using SBack dr f a1 Some by (auto simp: next_drain_def)
    qed
  qed
qed

section \<open>\<open>co_foreach\<close>\<close>

text \<open>
  \<open>co_foreach_nt\<close> in the coroutine \<open>k\<close>. Around it \<open>co_foreach\<close> puts a \<open>channel_scope_guard\<close>, which throws
  the exception that the channel has kept when the loop is left.
\<close>

partial_function (option) chan_loop :: "('y \<Rightarrow> 'u \<Rightarrow> 'u) \<Rightarrow> handle \<Rightarrow> objref \<Rightarrow> 'u \<Rightarrow> ('y, 'e) chan_store
    \<Rightarrow> ('u \<times> ('y, 'e) chan_store) option" where
  "chan_loop visit k c u s = do {
     stop \<leftarrow> chan_at_end c s;
     if stop then Some (u, s)
     else do {
       y \<leftarrow> chan_deref c s;
       (k', s1) \<leftarrow> chan_incr c s;
       if k' \<noteq> k then None else chan_loop visit k c (visit y u) s1 } }"

definition co_foreach_nt :: "('y \<Rightarrow> 'u \<Rightarrow> 'u) \<Rightarrow> handle \<Rightarrow> objref \<Rightarrow> 'u \<Rightarrow> ('y, 'e) chan_store
    \<Rightarrow> ('u \<times> ('y, 'e) chan_store) option" where
  "co_foreach_nt visit k c u s = do {
     (k', s1) \<leftarrow> chan_begin k c s;
     if k' \<noteq> k then None else chan_loop visit k c u s1 }"

definition co_foreach :: "('y \<Rightarrow> 'u \<Rightarrow> 'u) \<Rightarrow> handle \<Rightarrow> objref \<Rightarrow> 'u \<Rightarrow> ('y, 'e) chan_store
    \<Rightarrow> ('e option \<times> 'u \<times> ('y, 'e) chan_store) option" where
  "co_foreach visit k c u s = do {
     (u1, s1) \<leftarrow> co_foreach_nt visit k c u s;
     (x, s2) \<leftarrow> channel_scope_guard_dtor c s1;
     Some (x, u1, s2) }"

lemma chan_loop_stop: "chan_at_end c s = Some True \<Longrightarrow> chan_loop visit k c u s = Some (u, s)"
  by (subst chan_loop.simps) simp

lemma chan_loop_step:
  "chan_at_end c s = Some False \<Longrightarrow> chan_deref c s = Some y \<Longrightarrow> chan_incr c s = Some (k, s1) \<Longrightarrow>
   chan_loop visit k c u s = chan_loop visit k c (visit y u) s1"
  by (subst chan_loop.simps) simp

lemma chan_shown:
  assumes "chan_rel c A F" "A a = Some (r, stk)"
  shows "chan_at_end (Obj a) c = Some (r = None)" "chan_deref (Obj a) c = r" "chan_empty (Obj a) c = Some (stk = [])"
proof -
  from assms(1) obtain s where s: "gen_rel s A F" "store_rel {} c s" by (auto simp: chan_rel_def)
  note ok = gen_rel_obj(1)[OF s(1) assms(2)]
  from ok obtain g where g: "gs_ob s (Obj a) = Some g" "gn_result g = r" by (auto simp: gen_ok_def)
  from store_rel_obD[OF s(2) g(1)] obtain ch where "cs_ob c (Obj a) = Some ch" "g = gen_view ch" .
  with g(2) show "chan_at_end (Obj a) c = Some (r = None)" "chan_deref (Obj a) c = r"
    by (auto simp: chan_at_end_def chan_deref_def)
  show "chan_empty (Obj a) c = Some (stk = [])" by (rule chan_empty_sim[OF s(2) gen_ok_empty[OF ok]])
qed

lemma guard_dtor:
  assumes "cs_ob c (Obj a) = Some g"
  shows "channel_scope_guard_dtor (Obj a) c = Some (ch_exception g, c\<lparr>cs_ob := (cs_ob c)(Obj a \<mapsto> g\<lparr>ch_exception := None\<rparr>)\<rparr>)"
  using assms by (cases "ch_exception g") (auto simp: channel_scope_guard_dtor_def chan_take_exception_def upd_chan_def fun_upd_idem)

lemma chan_rel_handled:
  assumes "chan_rel c A F" "cs_ob c (Obj a) = Some g"
  shows "chan_rel (c\<lparr>cs_ob := (cs_ob c)(Obj a \<mapsto> g\<lparr>ch_exception := None\<rparr>)\<rparr>) A F"
  using assms by (fastforce simp: chan_rel_def store_rel_def gen_view_def)

lemma guard_handles:
  assumes "chan_rel c A F" "map_option fst (channel_scope_guard_dtor (Obj a) c) = Some x"
  shows "\<exists>c'. channel_scope_guard_dtor (Obj a) c = Some (x, c') \<and> chan_rel c' A F \<and> no_exception a c'
    \<and> (x = None \<longrightarrow> no_exception a c)"
proof -
  from assms(2) obtain g where g: "cs_ob c (Obj a) = Some g"
    by (cases "cs_ob c (Obj a)") (auto simp: channel_scope_guard_dtor_def)
  from guard_dtor[OF g] chan_rel_handled[OF assms(1) g] g assms(2) show ?thesis
    by (auto simp: no_exception_def)
qed

text \<open>Where the consumer goes on after one step, and what is left for the guard.\<close>

definition chan_done :: "addr \<Rightarrow> 'e option \<Rightarrow> ('y, 'e) chan_store \<Rightarrow> ('y, 'e) stacks \<Rightarrow> (addr \<Rightarrow> handle list) \<Rightarrow> bool" where
  "chan_done a x c A F \<longleftrightarrow> chan_rel c A F \<and> map_option fst (channel_scope_guard_dtor (Obj a) c) = Some x"

lemma chan_step:
  assumes "chan_rel c A F" "finite (dom A)" "refs_ok a A" "A a = Some (r, b # rest)" "no_exception a c"
  obtains c1 F1 o1 A1 r1 stk1 where "stack_run (Suc (total_size A)) a A = Some (o1, A1)" "o1 \<noteq> SAgain"
    "chan_begin k (Obj a) c = Some (k, c1)" "chan_prepared k a c \<Longrightarrow> chan_incr (Obj a) c = Some (k, c1)"
    "chan_done a (sexc_of o1) c1 A1 F1" "A1 a = Some (r1, stk1)" "stk1 \<noteq> [] \<Longrightarrow> chan_prepared k a c1"
    "dom A1 = dom A" "refs_ok a A1" "total_size A1 < total_size A" "drain a A = next_drain a o1 A1"
    "o1 = SBack \<and> r1 \<noteq> None \<Longrightarrow> stk1 \<noteq> []" "o1 \<noteq> SBack \<Longrightarrow> r1 = None"
proof -
  from channel_next_sim[OF assms, of k] obtain c1 F1 o1 A1 where n: "stack_run (Suc (total_size A)) a A = Some (o1, A1)"
    "o1 \<noteq> SAgain" "chan_next k (Obj a) c = Some (k, fst (the (A1 a)), c1)"
    "chan_prepared k a c \<longrightarrow> chan_incr (Obj a) c = Some (k, c1)" "chan_rel c1 A1 F1"
    "map_option fst (channel_scope_guard_dtor (Obj a) c1) = Some (sexc_of o1)"
    "snd (the (A1 a)) \<noteq> [] \<longrightarrow> chan_prepared k a c1" by blast
  from stack_run_props[OF n(1) assms(2-4)] have pr: "dom A1 = dom A" "refs_ok a A1" "total_size A1 < total_size A" by auto
  obtain r1 stk1 where a1: "A1 a = Some (r1, stk1)" using pr(1) assms(4) by (metis domD domI surj_pair)
  have beg: "chan_begin k (Obj a) c = Some (k, c1)" using n(3) by (auto simp: chan_next_def split: bind_splits)
  have yield: "stk1 \<noteq> []" if "o1 = SBack \<and> r1 \<noteq> None"
    using stack_run_yield[of _ a A A1] n(1) that assms(4) a1 by (metis not_Some_eq)
  have thrown: "r1 = None" if "o1 \<noteq> SBack"
    using that n(2) stack_run_thrown[of "Suc (total_size A)" a A _ A1 r1 stk1] n(1) a1
    by (cases o1) (simp_all del: stack_run.simps)
  show thesis
    by (rule that[OF n(1,2) beg _ _ a1 _ pr stack_run_drain[OF n(1) assms(4)] yield thrown])
      (use n a1 in \<open>auto simp: chan_done_def\<close>)
qed

lemma chan_loop_drains:
  assumes "chan_rel c A F" "finite (dom A)" "refs_ok a A" "A a = Some (Some y, stk)" "stk \<noteq> []"
    "no_exception a c" "chan_prepared k a c"
  shows "\<exists>ys x c' F' A'. drain a A = Some (ys, x, A') \<and> chan_done a x c' A' F'
    \<and> chan_loop visit k (Obj a) u c = Some (fold visit (y # ys) u, c')"
  using assms
proof (induction "total_size A" arbitrary: A c F u y stk rule: less_induct)
  case less
  obtain b rest where stk: "stk = b # rest" using less.prems(5) by (cases stk) auto
  note a = less.prems(4)[unfolded stk]
  from chan_step[OF less.prems(1-3) a less.prems(6), of k] obtain c1 F1 o1 A1 r1 stk1 where n: "o1 \<noteq> SAgain"
    "chan_prepared k a c \<Longrightarrow> chan_incr (Obj a) c = Some (k, c1)" "chan_done a (sexc_of o1) c1 A1 F1"
    and a1: "A1 a = Some (r1, stk1)" and prep: "stk1 \<noteq> [] \<Longrightarrow> chan_prepared k a c1"
    and pr: "dom A1 = dom A" "refs_ok a A1" "total_size A1 < total_size A" and dr: "drain a A = next_drain a o1 A1"
    and ne: "o1 = SBack \<and> r1 \<noteq> None \<Longrightarrow> stk1 \<noteq> []" and th: "o1 \<noteq> SBack \<Longrightarrow> r1 = None" by metis
  from n(3) have rel1: "chan_rel c1 A1 F1" by (simp add: chan_done_def)
  have loop: "chan_loop visit k (Obj a) u c = chan_loop visit k (Obj a) (visit y u) c1"
    using chan_loop_step[OF _ _ n(2)[OF less.prems(7)], of y visit u] chan_shown[OF less.prems(1) a] by simp
  show ?case
  proof (cases "r1 = None")
    case True
    then have "chan_loop visit k (Obj a) (visit y u) c1 = Some (visit y u, c1)"
      using chan_shown(1)[OF rel1 a1] by (simp add: chan_loop_stop)
    with True n(1,3) a1 dr loop show ?thesis by (cases o1) (auto simp: next_drain_def)
  next
    case False
    with th have sb: "o1 = SBack" by blast
    from False obtain y1 where y1: "r1 = Some y1" by blast
    note ne = ne[OF conjI[OF sb False]]
    have noex: "no_exception a c1"
      using guard_handles[OF rel1, of a None] n(3) sb by (auto simp: chan_done_def)
    obtain ys x c' F' A' where "drain a A1 = Some (ys, x, A')" "chan_done a x c' A' F'"
      "chan_loop visit k (Obj a) (visit y u) c1 = Some (fold visit (y1 # ys) (visit y u), c')"
      using less.hyps[OF pr(3) rel1 _ pr(2) a1[unfolded y1] ne noex prep[OF ne], of "visit y u"] pr(1) less.prems(2) by auto
    moreover have "drain a A1 = drain a (A1(a \<mapsto> (None, stk1)))"
      using drain_shown[OF ne, of a A1 r1] a1 by (simp add: fun_upd_idem)
    ultimately show ?thesis using sb dr loop a1 y1 by (auto simp: next_drain_def)
  qed
qed

lemma co_foreach_drains:
  assumes "chan_rel c A F" "finite (dom A)" "refs_ok a A" "A a = Some (r, stk)" "stk = [] \<longrightarrow> r = None"
    "no_exception a c"
  shows "\<exists>ys x c' F' A' c2. drain a A = Some (ys, x, A')
    \<and> co_foreach_nt visit k (Obj a) u c = Some (fold visit ys u, c') \<and> chan_done a x c' A' F'
    \<and> co_foreach visit k (Obj a) u c = Some (x, fold visit ys u, c2) \<and> chan_rel c2 A' F' \<and> no_exception a c2"
proof -
  have "\<exists>ys x c' F' A'. drain a A = Some (ys, x, A') \<and> chan_done a x c' A' F'
    \<and> co_foreach_nt visit k (Obj a) u c = Some (fold visit ys u, c')"
  proof (cases stk)
    case Nil
    with assms(4,5) have a: "A a = Some (None, [])" by simp
    from assms(6) obtain g where g: "cs_ob c (Obj a) = Some g" "ch_exception g = None" by (auto simp: no_exception_def)
    have "chan_done a None c A F" using assms(1) g by (simp add: chan_done_def guard_dtor)
    moreover have "co_foreach_nt visit k (Obj a) u c = Some (u, c)"
      using chan_shown[OF assms(1) a] by (simp add: co_foreach_nt_def chan_begin_def chan_loop_stop)
    ultimately show ?thesis using drain_empty[where A = A and a = a and r = None] a by fastforce
  next
    case (Cons b rest)
    note a = assms(4)[unfolded Cons]
    from chan_step[OF assms(1-3) a assms(6), of k] obtain c1 F1 o1 A1 r1 stk1 where n: "o1 \<noteq> SAgain"
      "chan_begin k (Obj a) c = Some (k, c1)" "chan_done a (sexc_of o1) c1 A1 F1"
      and a1: "A1 a = Some (r1, stk1)" and prep: "stk1 \<noteq> [] \<Longrightarrow> chan_prepared k a c1"
      and pr: "dom A1 = dom A" "refs_ok a A1" and dr: "drain a A = next_drain a o1 A1"
      and ne: "o1 = SBack \<and> r1 \<noteq> None \<Longrightarrow> stk1 \<noteq> []" and th: "o1 \<noteq> SBack \<Longrightarrow> r1 = None" by metis
    from n(3) have rel1: "chan_rel c1 A1 F1" by (simp add: chan_done_def)
    have nt: "co_foreach_nt visit k (Obj a) u c = chan_loop visit k (Obj a) u c1"
      using n(2) by (simp add: co_foreach_nt_def)
    show ?thesis
    proof (cases "r1 = None")
      case True
      then have "chan_loop visit k (Obj a) u c1 = Some (u, c1)"
        using chan_shown(1)[OF rel1 a1] by (simp add: chan_loop_stop)
      with True n(1,3) a1 dr nt show ?thesis by (cases o1) (auto simp: next_drain_def)
    next
      case False
      with th have sb: "o1 = SBack" by blast
      from False obtain y1 where y1: "r1 = Some y1" by blast
      note ne = ne[OF conjI[OF sb False]]
      have noex: "no_exception a c1" using guard_handles[OF rel1, of a None] n(3) sb by (auto simp: chan_done_def)
      obtain ys x c' F' A' where "drain a A1 = Some (ys, x, A')" "chan_done a x c' A' F'"
        "chan_loop visit k (Obj a) u c1 = Some (fold visit (y1 # ys) u, c')"
        using chan_loop_drains[OF rel1 _ pr(2) a1[unfolded y1] ne noex prep[OF ne], of visit u] pr(1) assms(2) by auto
      moreover have "drain a A1 = drain a (A1(a \<mapsto> (None, stk1)))"
        using drain_shown[OF ne, of a A1 r1] a1 by (simp add: fun_upd_idem)
      ultimately show ?thesis using sb dr nt a1 y1 by (auto simp: next_drain_def)
    qed
  qed
  then obtain ys x c' F' A' where d: "drain a A = Some (ys, x, A')" "chan_done a x c' A' F'"
    "co_foreach_nt visit k (Obj a) u c = Some (fold visit ys u, c')" by blast
  from d(2) guard_handles[of c' A' F' a x] obtain c2 where
    "channel_scope_guard_dtor (Obj a) c' = Some (x, c2)" "chan_rel c2 A' F'" "no_exception a c2"
    by (auto simp: chan_done_def)
  with d show ?thesis by (auto simp: co_foreach_def)
qed

section \<open>Properties\<close>

text \<open>A range-based \<open>for\<close> over a generator returns and visits its elements, all of them and in order, those
  of nested generators in place, until the end or the first exception, which leaves the loop; then the
  store is well-formed again, the generators that were moved from are empty, and after an exception
  another loop goes on with what the failed coroutine leaves.\<close>

theorem generator_for_visits_all:
  assumes "gen_rel s A F" and "finite (dom A)" and "refs_ok a A" and "A a = Some (r, stk)"
    and "stk = [] \<longrightarrow> r = None"
  shows "\<exists>ys x s' F' A'. drain a A = Some (ys, x, A') \<and> gen_rel s' A' F'
    \<and> gen_for visit (Obj a) u s = Some (x, fold visit ys u, s')"
  by (rule gen_for_drains[OF assms])

text \<open>C6. \<open>co_foreach\<close> over a channel resumes its coroutine after every element, visits them all and in order,
  however often the bodies suspend in between, and then throws the exception the channel has kept,
  once: afterwards it is marked as handled. \<open>co_foreach_nt\<close> visits the same and leaves the exception in the
  channel.\<close>

theorem co_foreach_visits_all:
  assumes "chan_rel c A F" and "finite (dom A)" and "refs_ok a A" and "A a = Some (r, stk)"
    and "stk = [] \<longrightarrow> r = None" and "no_exception a c"
  shows "\<exists>ys x c' F' A' c2. drain a A = Some (ys, x, A')
    \<and> co_foreach_nt visit k (Obj a) u c = Some (fold visit ys u, c')
    \<and> map_option fst (channel_scope_guard_dtor (Obj a) c') = Some x
    \<and> co_foreach visit k (Obj a) u c = Some (x, fold visit ys u, c2) \<and> chan_rel c2 A' F' \<and> no_exception a c2"
  using co_foreach_drains[OF assms, of visit k u] unfolding chan_done_def by blast

lemma ex_drain: "drain 0 ex_stacks = Some ([1, 5], Some 6, ex_stacks(1 \<mapsto> (None, []), 0 \<mapsto> (None, [[Yield 2]])))"
  by (simp add: ex_stacks_def ex_body0_def ex_body1_def drain.simps fun_upd_twist)

theorem generator_for_visits_all_witness:
  "\<exists>s s'. gen_rel s ex_stacks ((\<lambda>_. [])(1 := [10], 0 := [20]))
     \<and> gen_for (\<lambda>y ys. ys @ [y]) (Obj 0) [] s = Some (Some 6, [1, 5], s')"
proof -
  from ex_store obtain s where s: "gen_rel s ex_stacks ((\<lambda>_. [])(1 := [10], 0 := [20]))" by blast
  from generator_for_visits_all[OF s ex_facts, of "\<lambda>y ys. ys @ [y]" "[]"] s show ?thesis
    by (auto simp: ex_drain)
qed

theorem co_foreach_visits_all_witness:
  "\<exists>c'. co_foreach (\<lambda>y ys. ys @ [y]) 9 (Obj 0) [] ex_chan = Some (Some 6, [1, 5], c')"
proof -
  have "no_exception 0 ex_chan" by (simp add: ex_chan_def chan_create_def no_exception_def channel_default_def)
  from co_foreach_visits_all[OF ex_chan_rel ex_facts _ this, of "\<lambda>y ys. ys @ [y]" 9 "[]"] show ?thesis
    by (auto simp: ex_drain)
qed

end
