(* ===== verification/Pool_Jobs.thy ===== *)
theory Pool_Jobs
  imports Thread_Pool_Runs
begin

text \<open>
  \<open>job.hpp\<close>, and what schedules callables: \<open>schedule_to\<close> and \<open>thread_pool::schedule\<close> of
  \<open>thread_pool.hpp\<close>. A job is a coroutine that starts at once and destroys itself at its end; the job of
  \<open>schedule_to\<close> jumps on an executor with a task node in its own frame, and when it is resumed it looks at
  the status in the node, calls the callable unless it was cancelled, and ends, which frees the node.
  The runs of a thread pool are composed with the jobs scheduled on it.
\<close>

section \<open>Jobs\<close>

text \<open>A job that is suspended in \<open>schedule_to\<close>: the node in its frame and the callable.\<close>

record 'f job_frame =
  jf_node :: addr
  jf_foo :: 'f

text \<open>
  \<open>js_issued\<close> are all jobs so far with their callables, \<open>js_calls\<close> the calls of callables, \<open>js_dropped\<close> the jobs
  that ended without a call. Handles number the coroutines, so they are not used again.
\<close>

record 'f jobs =
  js_frames :: "handle \<Rightarrow> 'f job_frame option"
  js_issued :: "handle \<Rightarrow> 'f option"
  js_calls :: "(handle \<times> 'f) list"
  js_dropped :: "handle list"

definition jobs_init :: "'f jobs" where
  "jobs_init = \<lparr>js_frames = Map.empty, js_issued = Map.empty, js_calls = [], js_dropped = []\<rparr>"

text \<open>
  \<open>job_promise\<close>: neither the initial nor the final suspension suspends, so the coroutine starts when it is
  called and its frame is destroyed when it ends, with the node in it; an exception terminates.
\<close>

definition job_start :: "handle \<Rightarrow> addr \<Rightarrow> 'f \<Rightarrow> 'f jobs \<Rightarrow> 'f jobs" where
  "job_start h p foo js = js\<lparr>js_frames := (js_frames js)(h \<mapsto> \<lparr>jf_node = p, jf_foo = foo\<rparr>), js_issued := (js_issued js)(h \<mapsto> foo)\<rparr>"

definition job_end :: "handle \<Rightarrow> 'f jobs \<Rightarrow> 'w world_scheme \<Rightarrow> ('f jobs \<times> 'w world_scheme) option" where
  "job_end h js w = do {
     f \<leftarrow> js_frames js h;
     Some (js\<lparr>js_frames := (js_frames js)(h := None)\<rparr>, destroy_nodes [jf_node f] w) }"

definition job_unhandled_exception :: "'a option" where
  "job_unhandled_exception = None"

text \<open>\<open>schedule_to\<close>: up to its suspension, and from its resumption. \<open>throws\<close> tells the callables that throw.\<close>

definition schedule_to ::
  "(addr \<Rightarrow> 'w world_scheme \<Rightarrow> 'w world_scheme option) \<Rightarrow> handle \<Rightarrow> addr \<Rightarrow> 'f \<Rightarrow> 'f jobs \<Rightarrow> 'w world_scheme
     \<Rightarrow> ('f jobs \<times> 'w world_scheme) option" where
  "schedule_to attach h p foo js w = do {
     let js1 = job_start h p foo js;
     w1 \<leftarrow> create_node_await_suspend attach p h (construct_node p w);
     Some (js1, w1) }"

definition schedule_to_resume ::
  "('f \<Rightarrow> bool) \<Rightarrow> handle \<Rightarrow> 'f jobs \<Rightarrow> 'w world_scheme \<Rightarrow> ('f jobs \<times> 'w world_scheme) option" where
  "schedule_to_resume throws h js w = do {
     f \<leftarrow> js_frames js h;
     st \<leftarrow> create_node_await_resume (jf_node f) w;
     if \<not> schedule_status_bool st then job_end h (js\<lparr>js_dropped := js_dropped js @ [h]\<rparr>) w
     else if throws (jf_foo f) then job_unhandled_exception
     else job_end h (js\<lparr>js_calls := js_calls js @ [(h, jf_foo f)]\<rparr>) w }"

definition pool_schedule ::
  "nat \<Rightarrow> operation_hash_t \<Rightarrow> handle \<Rightarrow> addr \<Rightarrow> 'f \<Rightarrow> 'f jobs \<Rightarrow> 'w pool_scheme \<Rightarrow> ('f jobs \<times> 'w pool_scheme) option" where
  "pool_schedule k hash h p foo js s = schedule_to (queue_attach k (select_queue hash s)) h p foo js s"

section \<open>Runs of a pool with jobs\<close>

fun served_task :: "served \<Rightarrow> handle option" where
  "served_task (Run p t st) = t"
| "served_task (Cancel p t st) = t"

text \<open>What follows when a node is served: if its task is a job, the job runs.\<close>

definition resume_job ::
  "('f \<Rightarrow> bool) \<Rightarrow> served option \<Rightarrow> 'f jobs \<Rightarrow> 'w world_scheme \<Rightarrow> ('f jobs \<times> 'w world_scheme) option" where
  "resume_job throws e js w = (case e of
      None \<Rightarrow> Some (js, w)
    | Some x \<Rightarrow> (case served_task x of
        None \<Rightarrow> Some (js, w)
      | Some h \<Rightarrow> if h \<in> dom (js_issued js) then schedule_to_resume throws h js w else Some (js, w)))"

type_synonym pushes = "nat \<Rightarrow> (addr \<times> handle option \<times> schedule_errc) list"

text \<open>
  The steps of a pool, with what is served. Nobody but the jobs themselves attaches the handle of a job.
\<close>

inductive pool_step ::
  "handle set \<Rightarrow> pool \<Rightarrow> pushes \<Rightarrow> (nat \<Rightarrow> served list) \<Rightarrow> served option \<Rightarrow> pool \<Rightarrow> pushes \<Rightarrow> (nat \<Rightarrow> served list) \<Rightarrow> bool"
  for J where
  environment: "pool_lists s B Q \<Longrightarrow>
    (\<And>a. (\<exists>i. a \<in> set (B i @ Q i)) \<or> stop_pill (pl_stop s) = Some a \<Longrightarrow> h a = nodes s a) \<Longrightarrow>
    pool_step J s P L None (s\<lparr>nodes := h\<rparr>) P L"
| push_list: "pool_lists s B Q \<Longrightarrow> i < pl_size s \<Longrightarrow> \<not> finishing s \<Longrightarrow>
    node_list (nodes s) (Some f) as \<Longrightarrow> last as = l \<Longrightarrow>
    (\<And>a. a \<in> set as \<Longrightarrow> stop_pill (pl_stop s) \<noteq> Some a \<and> (\<forall>j. a \<notin> set (B j @ Q j))) \<Longrightarrow>
    (\<And>a t. a \<in> set as \<Longrightarrow> task_of (nodes s) a = Some t \<Longrightarrow> t \<notin> J) \<Longrightarrow>
    tq_push_list k (pl_queues s i) f l (nodes s) = Some (q, h) \<Longrightarrow>
    pool_step J s P L None (set_queue i q (s\<lparr>nodes := h\<rparr>)) (P(i := P i @ map (entry (nodes s)) as)) L"
| attach: "pool_lists s B Q \<Longrightarrow> \<not> finishing s \<Longrightarrow>
    stop_pill (pl_stop s) \<noteq> Some p \<Longrightarrow> (\<And>j. p \<notin> set (B j @ Q j)) \<Longrightarrow>
    (\<And>t. task_of (nodes s) p = Some t \<Longrightarrow> t \<notin> J) \<Longrightarrow>
    pool_attach k p s = Some s' \<Longrightarrow>
    i = select_queue (operation_hash_handle (the (task_of (nodes s) p))) s \<Longrightarrow>
    pool_step J s P L None s' (P(i := P i @ [entry (nodes s) p])) L"
| work: "worker_enabled i s \<Longrightarrow> worker_step i s = Some (e, s') \<Longrightarrow>
    pool_step J s P L e s' P (log_served i e L)"
| spurious_wakeup: "t \<in> set (tq_waiting (pl_queues s i)) \<Longrightarrow>
    pool_step J s P L None (set_queue i (cv_wake t (pl_queues s i)) s) P L"
| dtor: "pool_lists s B Q \<Longrightarrow> pl_stop s = SIdle \<or> pl_stop s = SDone \<Longrightarrow>
    (\<And>j. pl \<notin> set (B j @ Q j)) \<Longrightarrow> pool_step J s P L None (pool_dtor_begin pl s) P L"
| wait_stop: "pl_stop s = SIdle \<Longrightarrow> wait_stop_begin tid s = Some s' \<Longrightarrow> pool_step J s P L None s' P L"
| stop_push: "pl_stop s = SPush pl i \<Longrightarrow> i < pl_size s \<Longrightarrow> pl_joinable s i \<Longrightarrow>
    stop_step k s = Some (e, s') \<Longrightarrow> pool_step J s P L None s' (P(i := P i @ [entry (nodes s) pl])) L"
| stop: "stop_enabled s \<Longrightarrow>
    (\<And>pl i. pl_stop s = SPush pl i \<Longrightarrow> \<not> (i < pl_size s \<and> pl_joinable s i)) \<Longrightarrow>
    stop_step k s = Some (e, s') \<Longrightarrow>
    pool_step J s P L (map_option snd e) s' P (case e of None \<Rightarrow> L | Some (i, x) \<Rightarrow> log_served i (Some x) L)"

lemma pool_step_reach: "pool_step J s P L e s' P' L' \<Longrightarrow> pool_reach s P L \<Longrightarrow> pool_reach s' P' L'"
proof (induction rule: pool_step.induct)
  case (environment s B Q h P L)
  then show ?case by (blast intro: pool_reach.environment)
next
  case (push_list s B Q i f as l k q h P L)
  then show ?case by (blast intro: pool_reach.push_list)
next
  case (attach s B Q p k s' i P L)
  then show ?case by (blast intro: pool_reach.attach)
next
  case (dtor s B Q pl P L)
  then show ?case by (blast intro: pool_reach.dtor)
qed (blast intro: pool_reach.intros)+

text \<open>A pool, what was pushed and served, and the jobs.\<close>

inductive jobs_reach :: "('f \<Rightarrow> bool) \<Rightarrow> pool \<Rightarrow> pushes \<Rightarrow> (nat \<Rightarrow> served list) \<Rightarrow> 'f jobs \<Rightarrow> bool" for throws where
  init: "jobs_reach throws (pool_ctor n h) (\<lambda>_. []) (\<lambda>_. []) jobs_init"
| schedule: "jobs_reach throws s P L js \<Longrightarrow> pool_lists s B Q \<Longrightarrow> \<not> finishing s \<Longrightarrow>
    nodes s p = None \<Longrightarrow> h \<notin> dom (js_issued js) \<Longrightarrow>
    (\<And>i x. x \<in> set (P i) \<Longrightarrow> fst (snd x) \<noteq> Some h) \<Longrightarrow>
    pool_schedule k hash h p foo js s = Some (js', s') \<Longrightarrow>
    jobs_reach throws s' (P(select_queue hash s := P (select_queue hash s) @ [(p, Some h, ok)])) L js'"
| step: "jobs_reach throws s P L js \<Longrightarrow> pool_step (dom (js_issued js)) s P L e s1 P' L' \<Longrightarrow>
    resume_job throws e js s1 = Some (js', s') \<Longrightarrow> jobs_reach throws s' P' L' js'"

section \<open>What is pending in a pool\<close>

definition pending :: "pushes \<Rightarrow> (nat \<Rightarrow> served list) \<Rightarrow> nat \<Rightarrow> (addr \<times> handle option \<times> schedule_errc) list" where
  "pending P L i = drop (length (L i)) (P i)"

lemma entry_fst: "map fst (map (entry h) as) = as"
  by (induction as) (simp_all add: entry_def)

lemma pool_inv_pending:
  assumes "pool_inv s P L B Q"
  shows "map (entry (nodes s)) (B i @ Q i) = pending P L i" "B i @ Q i = map fst (pending P L i)"
    "list_all2 served_as (take (length (L i)) (P i)) (L i)" "distinct (map fst (pending P L i))"
    "i \<noteq> j \<Longrightarrow> set (map fst (pending P L i)) \<inter> set (map fst (pending P L j)) = {}"
proof -
  have l: "lanes s P L B Q" using assms by (simp add: pool_inv_def)
  have e: "map (entry (nodes s)) (B i @ Q i) = pending P L i" "list_all2 served_as (take (length (L i)) (P i)) (L i)" for i
  proof -
    from lanesD(1)[OF l, of i] obtain pre where "P i = pre @ map (entry (nodes s)) (B i @ Q i)" "list_all2 served_as pre (L i)"
      by (auto simp: lane_def history_def)
    moreover from this(2) have "length pre = length (L i)" by (rule list_all2_lengthD)
    ultimately show "map (entry (nodes s)) (B i @ Q i) = pending P L i"
      "list_all2 served_as (take (length (L i)) (P i)) (L i)" by (simp_all add: pending_def)
  qed
  have f: "B i @ Q i = map fst (pending P L i)" for i by (simp only: e(1)[of i, symmetric] entry_fst)
  show "map (entry (nodes s)) (B i @ Q i) = pending P L i" "B i @ Q i = map fst (pending P L i)" by (fact e(1) f)+
  show "list_all2 served_as (take (length (L i)) (P i)) (L i)" by (fact e(2))
  have "distinct (B i @ Q i)" using lanesD(1)[OF l, of i] by (simp add: lane_def)
  then show "distinct (map fst (pending P L i))" using f[of i] by simp
  show "set (map fst (pending P L i)) \<inter> set (map fst (pending P L j)) = {}" if "i \<noteq> j"
    using lanesD(2)[OF l that] by (simp only: f)
qed

text \<open>The effects of a step on what was pushed and served.\<close>

fun served_status :: "served \<Rightarrow> schedule_errc" where
  "served_status (Run p t st) = st"
| "served_status (Cancel p t st) = st"

definition serves :: "pushes \<Rightarrow> (nat \<Rightarrow> served list) \<Rightarrow> served \<Rightarrow> pool \<Rightarrow> pushes \<Rightarrow> (nat \<Rightarrow> served list) \<Rightarrow> bool" where
  "serves P L x s' P' L' \<longleftrightarrow> P' = P \<and> (\<exists>i. L' = L(i := L i @ [x]))
     \<and> (\<exists>n. nodes s' (served_node x) = Some n \<and> nd_task n = served_task x \<and> nd_status n = served_status x)"

definition pushes_others :: "handle set \<Rightarrow> pushes \<Rightarrow> pushes \<Rightarrow> bool" where
  "pushes_others J P P' \<longleftrightarrow> P' = P \<or> (\<exists>i xs. P' = P(i := P i @ xs) \<and> (\<forall>x\<in>set xs. \<forall>h. fst (snd x) = Some h \<longrightarrow> h \<notin> J))"

lemma pushes_othersI:
  "(\<And>x h. x \<in> set xs \<Longrightarrow> fst (snd x) = Some h \<Longrightarrow> h \<notin> J) \<Longrightarrow> pushes_others J P (P(i := P i @ xs))"
  unfolding pushes_others_def by blast

lemma cancel_task_served:
  "cancel_task p h = Some (x, nxt, h') \<Longrightarrow>
     \<exists>n. h' (served_node x) = Some n \<and> nd_task n = served_task x \<and> nd_status n = served_status x"
  by (auto simp: cancel_task_def set_status_def split: bind_splits)

lemma worker_step_served:
  "worker_step i s = Some (Some x, s') \<Longrightarrow>
     \<exists>n. nodes s' (served_node x) = Some n \<and> nd_task n = served_task x \<and> nd_status n = served_status x"
  by (auto simp: worker_step_def run_task_def dest!: cancel_task_served split: worker_pc.splits option.splits prod.splits bind_splits)

lemma stop_step_served:
  "stop_step k s = Some (Some (i, x), s') \<Longrightarrow>
     \<exists>n. nodes s' (served_node x) = Some n \<and> nd_task n = served_task x \<and> nd_status n = served_status x"
  by (auto simp: stop_step_def dest!: cancel_task_served split: stop_pc.splits option.splits prod.splits bind_splits if_splits)

lemma worker_step_size: "worker_step i s = Some (e, s') \<Longrightarrow> pl_size s' = pl_size s"
  by (auto simp: worker_step_def split: worker_pc.splits option.splits prod.splits bind_splits)

lemma stop_step_size: "stop_step k s = Some (e, s') \<Longrightarrow> pl_size s' = pl_size s"
  by (auto simp: stop_step_def split: stop_pc.splits option.splits prod.splits bind_splits if_splits)

lemma stop_pill_task:
  assumes "pool_inv s P L B Q" "stop_pill (pl_stop s) = Some pl"
  shows "task_of (nodes s) pl = None"
  using assms by (cases "pl_stop s") (auto simp: pool_inv_def stop_ok_def stop_pill_def pill_ok_def)

lemma pool_step_logs:
  assumes "pool_step J s P L e s' P' L'" "pool_inv s P L B0 Q0"
  shows "pl_size s' = pl_size s \<and> (case e of None \<Rightarrow> L' = L \<and> pushes_others J P P' | Some x \<Rightarrow> serves P L x s' P' L')"
  using assms
proof (cases rule: pool_step.cases)
  case (push_list B Q i f as l k q h)
  then have "pushes_others J P P'" by (fastforce simp: pushes_others_def entry_def)
  with push_list show ?thesis by simp
next
  case (attach B Q p k i)
  then have "pushes_others J P P'" by (fastforce simp: pushes_others_def entry_def)
  moreover have "pl_size s' = pl_size s" using attach by (auto simp: pool_attach_def queue_attach_def split: bind_splits)
  ultimately show ?thesis using attach by simp
next
  case (work i)
  with worker_step_size[of i s e s'] worker_step_served[of i s _ s'] show ?thesis
    by (cases e) (auto simp: log_served_def pushes_others_def serves_def)
next
  case (wait_stop tid)
  then show ?thesis by (auto simp: pushes_others_def wait_stop_begin_def split: if_splits)
next
  case (stop_push pl i k e')
  from stop_pill_task[OF assms(2), of pl] stop_push have "task_of (nodes s) pl = None" by (simp add: stop_pill_def)
  then have "pushes_others J P P'"
    unfolding stop_push(2) by (intro pushes_othersI) (simp add: entry_def)
  with stop_push stop_step_size show ?thesis by auto
next
  case (stop k e')
  with stop_step_size[of k s e' s'] stop_step_served[of k s _ _ s'] show ?thesis
    by (cases e') (auto simp: log_served_def pushes_others_def serves_def)
qed (auto simp: pushes_others_def pool_dtor_begin_def)

section \<open>The invariant of the jobs\<close>

fun jobs_in :: "handle set \<Rightarrow> (addr \<times> handle option \<times> schedule_errc) list \<Rightarrow> handle list" where
  "jobs_in J [] = []"
| "jobs_in J ((p, t, st) # xs) = (case t of Some h \<Rightarrow> if h \<in> J then h # jobs_in J xs else jobs_in J xs | None \<Rightarrow> jobs_in J xs)"

lemma jobs_in_append: "jobs_in J (xs @ ys) = jobs_in J xs @ jobs_in J ys"
  by (induction J xs rule: jobs_in.induct) (auto split: option.splits)

lemma jobs_in_others: "(\<And>x h. x \<in> set xs \<Longrightarrow> fst (snd x) = Some h \<Longrightarrow> h \<notin> J) \<Longrightarrow> jobs_in J xs = []"
  by (induction J xs rule: jobs_in.induct) (fastforce split: option.splits)+

lemma jobs_in_iff: "h \<in> set (jobs_in J xs) \<longleftrightarrow> h \<in> J \<and> (\<exists>p st. (p, Some h, st) \<in> set xs)"
  by (induction J xs rule: jobs_in.induct) (auto split: option.splits)

lemma jobs_in_insert: "(\<And>x. x \<in> set xs \<Longrightarrow> fst (snd x) \<noteq> Some h) \<Longrightarrow> jobs_in (insert h J) xs = jobs_in J xs"
  by (induction J xs rule: jobs_in.induct) (fastforce split: option.splits)+

text \<open>
  The frames are those of the jobs that are pending, each pending once, with the node of the job and the
  status \<open>ok\<close>; every other job has ended, with a call or without.
\<close>

definition job_entries :: "'f jobs \<Rightarrow> (addr \<times> handle option \<times> schedule_errc) list \<Rightarrow> bool" where
  "job_entries js xs \<longleftrightarrow> distinct (jobs_in (dom (js_issued js)) xs)
     \<and> (\<forall>(p, t, st)\<in>set xs. \<forall>h. t = Some h \<and> h \<in> dom (js_issued js) \<longrightarrow>
          st = ok \<and> (\<exists>foo. js_frames js h = Some \<lparr>jf_node = p, jf_foo = foo\<rparr> \<and> js_issued js h = Some foo))"

definition jobs_ended :: "'f jobs \<Rightarrow> bool" where
  "jobs_ended js \<longleftrightarrow> distinct (map fst (js_calls js) @ js_dropped js)
     \<and> set (map fst (js_calls js) @ js_dropped js) = dom (js_issued js) - dom (js_frames js)
     \<and> (\<forall>(h, foo)\<in>set (js_calls js). js_issued js h = Some foo)"

definition jobs_log :: "'f jobs \<Rightarrow> (nat \<Rightarrow> served list) \<Rightarrow> bool" where
  "jobs_log js L \<longleftrightarrow> (\<forall>h\<in>dom (js_issued js). h \<in> set (js_dropped js) \<longleftrightarrow> (\<exists>i p. Cancel p (Some h) cancelled \<in> set (L i)))"

definition job_inv :: "nat \<Rightarrow> pushes \<Rightarrow> (nat \<Rightarrow> served list) \<Rightarrow> 'f jobs \<Rightarrow> bool" where
  "job_inv n P L js \<longleftrightarrow> (\<forall>i. job_entries js (pending P L i))
     \<and> (\<forall>i j. i \<noteq> j \<longrightarrow> set (jobs_in (dom (js_issued js)) (pending P L i)) \<inter> set (jobs_in (dom (js_issued js)) (pending P L j)) = {})
     \<and> dom (js_frames js) \<subseteq> (\<Union>i<n. set (jobs_in (dom (js_issued js)) (pending P L i)))
     \<and> jobs_ended js \<and> jobs_log js L"

lemma job_invD:
  assumes "job_inv n P L js"
  shows "job_entries js (pending P L i)"
    "i \<noteq> j \<Longrightarrow> set (jobs_in (dom (js_issued js)) (pending P L i)) \<inter> set (jobs_in (dom (js_issued js)) (pending P L j)) = {}"
    "dom (js_frames js) \<subseteq> (\<Union>i<n. set (jobs_in (dom (js_issued js)) (pending P L i)))" "jobs_ended js" "jobs_log js L"
  using assms by (simp_all add: job_inv_def)

lemma pending_push:
  assumes "\<And>i. length (L i) \<le> length (P i)"
  shows "pending (P(i := P i @ xs)) L j = (if j = i then pending P L i @ xs else pending P L j)"
  using assms by (simp add: pending_def)

lemma job_inv_push_others:
  assumes inv: "job_inv n P L js" and P': "pushes_others (dom (js_issued js)) P P'"
    and len: "\<And>i. length (L i) \<le> length (P i)"
  shows "job_inv n P' L js"
proof (cases "P' = P")
  case False
  with P' obtain i xs where xs: "P' = P(i := P i @ xs)"
    "\<And>x h. x \<in> set xs \<Longrightarrow> fst (snd x) = Some h \<Longrightarrow> h \<notin> dom (js_issued js)"
    by (auto simp: pushes_others_def)
  note pend = pending_push[where L = L and P = P, OF len, of i xs, folded xs(1)]
  have j: "jobs_in (dom (js_issued js)) (pending P' L j) = jobs_in (dom (js_issued js)) (pending P L j)" for j
    using jobs_in_others[OF xs(2)] by (simp add: pend jobs_in_append)
  have "job_entries js (pending P' L j)" for j
    using job_invD(1)[OF inv, of j] j[of j] xs(2) by (fastforce simp: job_entries_def pend)
  with inv show ?thesis by (simp add: job_inv_def j)
qed (use inv in simp)

lemma job_inv_schedule:
  assumes inv: "job_inv n P L js" and len: "\<And>i. length (L i) \<le> length (P i)" and k: "k < n"
    and h: "h \<notin> dom (js_issued js)" "\<And>i x. x \<in> set (P i) \<Longrightarrow> fst (snd x) \<noteq> Some h"
    and L: "\<And>i x. x \<in> set (L i) \<Longrightarrow> served_task x \<noteq> Some h"
  shows "job_inv n (P(k := P k @ [(p, Some h, ok)])) L (job_start h p foo js)"
proof -
  let ?P = "P(k := P k @ [(p, Some h, ok)])" and ?js = "job_start h p foo js" and ?J = "dom (js_issued js)"
  note pend = pending_push[where L = L and P = P, OF len, of k "[(p, Some h, ok)]"]
  have old: "x \<in> set (pending P L j) \<Longrightarrow> fst (snd x) \<noteq> Some h" for x j
    unfolding pending_def using h(2)[OF in_set_dropD] by blast
  have J: "dom (js_issued ?js) = insert h ?J" by (auto simp: job_start_def)
  have j: "jobs_in (insert h ?J) (pending ?P L j) = jobs_in ?J (pending P L j) @ (if j = k then [h] else [])" for j
    using jobs_in_insert[of "pending P L j" h ?J] old[of _ j] by (auto simp: pend jobs_in_append)
  have nh: "h \<notin> set (jobs_in ?J (pending P L j))" for j using h(1) by (auto simp: jobs_in_iff)
  have fr: "js_frames js h = None" using job_invD(4)[OF inv] job_invD(3)[OF inv] h(1) by (auto simp: jobs_in_iff)
  have ent: "job_entries ?js (pending ?P L j)" for j
  proof -
    have "distinct (jobs_in (insert h ?J) (pending ?P L j))"
      using job_invD(1)[OF inv, of j] nh[of j] by (auto simp: j job_entries_def)
    moreover have "st = ok \<and> (\<exists>foo'. js_frames ?js g = Some \<lparr>jf_node = q, jf_foo = foo'\<rparr> \<and> js_issued ?js g = Some foo')"
      if "(q, Some g, st) \<in> set (pending ?P L j)" "g \<in> insert h ?J" for q g st
    proof (cases "(q, Some g, st) \<in> set (pending P L j)")
      case True
      with old that(2) have "g \<noteq> h" "g \<in> ?J" by fastforce+
      with job_invD(1)[OF inv, of j] True show ?thesis by (fastforce simp: job_entries_def job_start_def)
    next
      case False
      with that(1) have "(q, Some g, st) = (p, Some h, ok)" by (auto simp: pend split: if_splits)
      then show ?thesis by (simp add: job_start_def)
    qed
    ultimately show ?thesis unfolding job_entries_def J by blast
  qed
  have dis: "set (jobs_in (insert h ?J) (pending ?P L i)) \<inter> set (jobs_in (insert h ?J) (pending ?P L j)) = {}" if "i \<noteq> j" for i j
    using job_invD(2)[OF inv that] nh[of i] nh[of j] that by (auto simp: j)
  have "dom (js_frames ?js) \<subseteq> (\<Union>i<n. set (jobs_in (insert h ?J) (pending ?P L i)))"
    using job_invD(3)[OF inv] k by (fastforce simp: j job_start_def)
  moreover have "jobs_ended ?js"
  proof -
    have "g \<noteq> h \<and> js_issued js g = Some b" if "(g, b) \<in> set (js_calls js)" for g b
      using job_invD(4)[OF inv] that h(1) by (fastforce simp: jobs_ended_def)
    then have "\<forall>(g, b)\<in>set (js_calls ?js). js_issued ?js g = Some b" by (auto simp: job_start_def)
    moreover have "dom (js_issued ?js) - dom (js_frames ?js) = ?J - dom (js_frames js)"
      using h(1) by (auto simp: job_start_def)
    moreover have "js_calls ?js = js_calls js" "js_dropped ?js = js_dropped js" by (simp_all add: job_start_def)
    ultimately show ?thesis using job_invD(4)[OF inv] unfolding jobs_ended_def by (simp only: simp_thms)
  qed
  moreover have "jobs_log ?js L"
  proof -
    have "set (map fst (js_calls js) @ js_dropped js) \<subseteq> ?J"
      using job_invD(4)[OF inv] unfolding jobs_ended_def by (metis Diff_subset)
    then have "h \<notin> set (js_dropped js)" using h(1) by auto
    moreover have "Cancel q (Some h) cancelled \<notin> set (L k)" for q k
      using L[of "Cancel q (Some h) cancelled" k] by auto
    ultimately show ?thesis using job_invD(5)[OF inv] by (auto simp: jobs_log_def job_start_def)
  qed
  ultimately show ?thesis using ent dis unfolding job_inv_def J by blast
qed

lemma serve_pending:
  assumes "serves P L x s' P' L'" "list_all2 served_as (take (length (L' i)) (P' i)) (L' i)" "L' = L(i := L i @ [x])"
  obtains y where "pending P L i = y # pending P L' i" "served_as y x" "\<And>j. j \<noteq> i \<Longrightarrow> pending P L' j = pending P L j"
proof -
  from assms have l: "list_all2 served_as (take (Suc (length (L i))) (P i)) (L i @ [x])" by (simp add: serves_def)
  from list_all2_lengthD[OF l] have n: "length (L i) < length (P i)" by simp
  from l have a: "served_as (P i ! length (L i)) x"
    using list_all2_nthD2[OF l, of "length (L i)"] n by simp
  have "pending P L i = P i ! length (L i) # pending P L' i"
    using n assms(3) by (simp add: pending_def Cons_nth_drop_Suc)
  then show thesis by (rule that[OF _ a]) (simp add: pending_def assms(3))
qed

lemma cancel_log:
  assumes "L' = L(i := L i @ [x])"
  shows "(\<exists>k q. Cancel q t st \<in> set (L' k)) \<longleftrightarrow> (\<exists>k q. Cancel q t st \<in> set (L k)) \<or> (\<exists>q. x = Cancel q t st)"
proof -
  have "y \<in> set (L' k) \<longleftrightarrow> y \<in> set (L k) \<or> k = i \<and> y = x" for y k by (auto simp: assms)
  then show ?thesis by blast
qed

lemma job_entries_tl: "job_entries js (y # xs) \<Longrightarrow> job_entries js xs"
  by (cases y) (auto simp: job_entries_def split: option.splits if_splits)

text \<open>The head of a queue is served: if it is a job, it is there, with its node, and it ends.\<close>

lemma job_inv_serve:
  assumes inv: "job_inv n P L js" and i: "pending P L i = y # pending P L' i" "served_as y x"
    and L': "L' = L(i := L i @ [x])" "\<And>j. j \<noteq> i \<Longrightarrow> pending P L' j = pending P L j"
    and other: "\<And>h. served_task x = Some h \<Longrightarrow> h \<notin> dom (js_issued js)"
  shows "job_inv n P L' js"
proof -
  let ?J = "dom (js_issued js)"
  obtain p t st where y: "y = (p, t, st)" by (cases y) auto
  have t: "served_task x = t" using i(2) y by (cases x) auto
  have hd: "jobs_in ?J (pending P L j) = jobs_in ?J (pending P L' j)" for j
  proof (cases "j = i")
    case True
    then show ?thesis using other t by (auto simp: i(1) y split: option.splits)
  qed (simp add: L'(2))
  have "job_entries js (pending P L' j)" for j
    using job_invD(1)[OF inv, of j] job_entries_tl[of js y] i(1) L'(2)[of j] by (cases "j = i") simp_all
  moreover have "jobs_log js L'"
  proof -
    have "x \<noteq> Cancel q (Some h) cancelled" if "h \<in> ?J" for h q using other[of h] that by auto
    then have "(\<exists>k q. Cancel q (Some h) cancelled \<in> set (L' k)) = (\<exists>k q. Cancel q (Some h) cancelled \<in> set (L k))"
      if "h \<in> ?J" for h using that cancel_log[OF L'(1)] by blast
    with job_invD(5)[OF inv] show ?thesis by (simp add: jobs_log_def)
  qed
  ultimately show ?thesis using inv by (simp add: job_inv_def hd)
qed

lemma job_inv_resume:
  assumes inv: "job_inv n P L js" and i: "pending P L i = y # pending P L' i" "served_as y x"
    and L': "L' = L(i := L i @ [x])" "\<And>j. j \<noteq> i \<Longrightarrow> pending P L' j = pending P L j"
    and h: "served_task x = Some h" "h \<in> dom (js_issued js)"
    and nd: "nodes s (served_node x) = Some nd" "nd_status nd = served_status x"
  obtains foo where "js_frames js h = Some \<lparr>jf_node = served_node x, jf_foo = foo\<rparr>"
    "\<And>js' s'. schedule_to_resume throws h js s = Some (js', s') \<Longrightarrow>
       job_inv n P L' js' \<and> s' = destroy_nodes [served_node x] s"
    "\<not> throws foo \<Longrightarrow> schedule_to_resume throws h js s \<noteq> None"
proof -
  let ?J = "dom (js_issued js)"
  obtain p st where y: "y = (p, Some h, st)" using i(2) h(1) by (cases y; cases x) auto
  have p: "served_node x = p" using i(2) y by (cases x) auto
  from job_invD(1)[OF inv, of i] obtain foo where foo: "st = ok" "js_frames js h = Some \<lparr>jf_node = p, jf_foo = foo\<rparr>"
    "js_issued js h = Some foo" using h(2) unfolding i(1) y job_entries_def by auto
  have hi: "jobs_in ?J (pending P L i) = h # jobs_in ?J (pending P L' i)" using h(2) by (simp add: i(1) y)
  have nh: "h \<notin> set (jobs_in ?J (pending P L' j))" for j
  proof (cases "j = i")
    case True
    then show ?thesis using job_invD(1)[OF inv, of i] by (simp add: job_entries_def hi)
  next
    case False
    then show ?thesis using job_invD(2)[OF inv, of i j] by (auto simp: hi L'(2))
  qed
  have fresh: "h \<notin> set (map fst (js_calls js) @ js_dropped js)"
    using job_invD(4)[OF inv] foo(2) by (auto simp: jobs_ended_def)
  let ?fr = "(js_frames js)(h := None)"
  have keep: "job_inv n P L' (js\<lparr>js_frames := ?fr, js_calls := c, js_dropped := d\<rparr>)"
    if "jobs_ended (js\<lparr>js_frames := ?fr, js_calls := c, js_dropped := d\<rparr>)"
      "jobs_log (js\<lparr>js_frames := ?fr, js_calls := c, js_dropped := d\<rparr>) L'" for c d
  proof -
    let ?js = "js\<lparr>js_frames := ?fr, js_calls := c, js_dropped := d\<rparr>"
    have "job_entries js (pending P L' j)" for j
      using job_invD(1)[OF inv, of j] job_entries_tl[of js y] i(1) L'(2)[of j] by (cases "j = i") simp_all
    then have "job_entries ?js (pending P L' j)" for j
      using nh[of j] by (fastforce simp: job_entries_def jobs_in_iff)
    moreover have "set (jobs_in ?J (pending P L' k)) \<inter> set (jobs_in ?J (pending P L' j)) = {}" if "k \<noteq> j" for k j
      using job_invD(2)[OF inv that] L'(2)[of k] L'(2)[of j] by (cases "k = i"; cases "j = i") (auto simp: hi)
    moreover have "dom ?fr \<subseteq> (\<Union>j<n. set (jobs_in ?J (pending P L' j)))"
    proof
      fix g assume g: "g \<in> dom ?fr"
      then have "g \<noteq> h" "g \<in> dom (js_frames js)" by (auto split: if_splits)
      with job_invD(3)[OF inv] obtain j where "j < n" "g \<in> set (jobs_in ?J (pending P L j))" by blast
      then show "g \<in> (\<Union>j<n. set (jobs_in ?J (pending P L' j)))"
        using \<open>g \<noteq> h\<close> L'(2)[of j] by (cases "j = i") (auto simp: hi intro!: bexI[of _ j])
    qed
    ultimately show ?thesis using that by (simp add: job_inv_def)
  qed
  note log = cancel_log[OF L'(1)]
  have end_h: "jobs_ended (js\<lparr>js_frames := ?fr, js_calls := js_calls js @ [(h, foo)]\<rparr>)"
    "jobs_ended (js\<lparr>js_frames := ?fr, js_dropped := js_dropped js @ [h]\<rparr>)"
    using job_invD(4)[OF inv] fresh h(2) foo(3) by (auto simp: jobs_ended_def)
  show thesis
  proof (rule that[of foo])
    show "js_frames js h = Some \<lparr>jf_node = served_node x, jf_foo = foo\<rparr>" using foo(2) p by simp
    show "schedule_to_resume throws h js s \<noteq> None" if "\<not> throws foo"
      using that foo(2) nd p by (simp add: schedule_to_resume_def create_node_await_resume_def job_end_def)
    fix js' s' assume r: "schedule_to_resume throws h js s = Some (js', s')"
    show "job_inv n P L' js' \<and> s' = destroy_nodes [served_node x] s"
    proof (cases "served_status x = ok")
      case True
      then have x: "x \<noteq> Cancel q (Some g) cancelled" for q g by auto
      from r True foo(2) nd p have "js' = js\<lparr>js_frames := ?fr, js_calls := js_calls js @ [(h, foo)]\<rparr>" "\<not> throws foo"
        "s' = destroy_nodes [served_node x] s"
        by (auto simp: schedule_to_resume_def create_node_await_resume_def job_end_def schedule_status_bool_def
            job_unhandled_exception_def split: if_splits)
      moreover have "jobs_log (js\<lparr>js_frames := ?fr, js_calls := js_calls js @ [(h, foo)]\<rparr>) L'"
        using job_invD(5)[OF inv] by (simp add: jobs_log_def log x)
      ultimately show ?thesis using keep[where c = "js_calls js @ [(h, foo)]" and d = "js_dropped js"] end_h(1) by simp
    next
      case False
      then obtain x': "x = Cancel p (Some h) cancelled" using i(2) y foo(1) by (cases x) auto
      from r False foo(2) nd p have "js' = js\<lparr>js_frames := ?fr, js_dropped := js_dropped js @ [h]\<rparr>"
        "s' = destroy_nodes [served_node x] s"
        by (auto simp: schedule_to_resume_def create_node_await_resume_def job_end_def schedule_status_bool_def
            split: if_splits)
      moreover have "jobs_log (js\<lparr>js_frames := ?fr, js_dropped := js_dropped js @ [h]\<rparr>) L'"
        using job_invD(5)[OF inv] by (auto simp: jobs_log_def log x')
      ultimately show ?thesis using keep[where c = "js_calls js" and d = "js_dropped js @ [h]"] end_h(2) by simp
    qed
  qed
qed

lemma served_node_free:
  assumes "pool_inv s P L B Q" "pool_inv s1 P L' B1 Q1"
    and "pending P L i = y # pending P L' i" "\<And>j. j \<noteq> i \<Longrightarrow> pending P L' j = pending P L j"
  shows "fst y \<notin> set (B1 j @ Q1 j)"
proof (cases "j = i")
  case True
  then show ?thesis
    using pool_inv_pending(4)[OF assms(1), of i] unfolding pool_inv_pending(2)[OF assms(2)] by (simp add: assms(3))
next
  case False
  then show ?thesis
    using pool_inv_pending(5)[OF assms(1), of i j] assms(4)[OF False]
    unfolding pool_inv_pending(2)[OF assms(2)] by (auto simp: assms(3))
qed

lemma pool_inv_lengths: "pool_inv s P L B Q \<Longrightarrow> length (L i) \<le> length (P i)"
  using pool_inv_pending(3)[of s P L B Q i] list_all2_lengthD by fastforce

lemma pool_inv_lists: "pool_inv s P L B Q \<Longrightarrow> pool_lists s B Q"
  unfolding pool_inv_def by (blast intro: lanes_lists)

lemma list_all2_in2: "list_all2 R xs ys \<Longrightarrow> y \<in> set ys \<Longrightarrow> \<exists>x\<in>set xs. R x y"
  by (induction rule: list_all2_induct) auto

lemma pool_inv_served:
  assumes "pool_inv s P L B Q" "x \<in> set (L i)" "served_task x = Some h"
  obtains z where "z \<in> set (P i)" "fst (snd z) = Some h"
proof -
  from list_all2_in2[OF pool_inv_pending(3)[OF assms(1)] assms(2)] obtain z where
    "z \<in> set (take (length (L i)) (P i))" "served_as z x" by blast
  moreover from this(2) assms(3) have "fst (snd z) = Some h" by (cases z; cases x) auto
  ultimately show thesis using that in_set_takeD by metis
qed

text \<open>Where a job may be scheduled: the node is new, so nothing has it.\<close>

lemma dead_node_free:
  assumes "pool_inv s P L B Q" "nodes s p = None"
  shows "p \<notin> set (B j @ Q j)" "stop_pill (pl_stop s) \<noteq> Some p"
proof -
  have "lane (nodes s) j (cur_list s j) (pl_pcs s j) (pl_queues s j) (P j) (L j) (B j) (Q j)"
    using assms(1) lanesD(1) by (simp add: pool_inv_def)
  then have "node_list (nodes s) (cur_list s j) (B j)" "node_list (nodes s) (tq_first (pl_queues s j)) (Q j)"
    by (simp_all add: lane_def tq_holds_def)
  then show "p \<notin> set (B j @ Q j)" using node_list_live assms(2) by fastforce
  show "stop_pill (pl_stop s) \<noteq> Some p"
    using assms by (cases "pl_stop s") (auto simp: pool_inv_def stop_ok_def stop_pill_def pill_ok_def)
qed

lemma pool_schedule_reach:
  assumes reach: "pool_reach s P L" and inv: "pool_inv s P L B Q" and f: "\<not> finishing s" "nodes s p = None"
    and sch: "pool_schedule k hash h p foo js s = Some (js', s')"
  shows "pool_reach s' (P(select_queue hash s := P (select_queue hash s) @ [(p, Some h, ok)])) L"
    "js' = job_start h p foo js" "pl_size s' = pl_size s" "select_queue hash s < pl_size s"
proof -
  let ?i = "select_queue hash s" and ?h = "(nodes s)(p \<mapsto> \<lparr>nd_next = None, nd_task = Some h, nd_status = ok\<rparr>)"
  let ?s = "s\<lparr>nodes := ?h\<rparr>"
  note free = dead_node_free[OF inv f(2)]
  have "select_queue hash (s\<lparr>nodes := g\<rparr>) = ?i" for g by (simp add: select_queue_def)
  then obtain q g where q: "tq_push_list k (pl_queues s ?i) p p ?h = Some (q, g)" "s' = set_queue ?i q (s\<lparr>nodes := g\<rparr>)"
    using sch by (auto simp: pool_schedule_def schedule_to_def create_node_await_suspend_def queue_attach_def
        tq_attach_def tq_push_def task_node_init_def construct_node_def split: bind_splits if_splits)
  show "js' = job_start h p foo js" using sch by (auto simp: pool_schedule_def schedule_to_def split: bind_splits)
  show sz: "?i < pl_size s" using inv by (simp add: select_queue_def pool_inv_def stop_ok_def)
  show "pl_size s' = pl_size s" by (simp add: q(2))
  note lists = pool_inv_lists[OF inv]
  have r: "pool_reach ?s P L" by (rule pool_reach.environment[OF reach lists]) (use free in auto)
  have inv': "pool_inv ?s P L B Q" by (rule pool_inv_environment[OF inv]) (use free in auto)
  note lists' = pool_inv_lists[OF inv']
  have "pool_reach (set_queue ?i q (?s\<lparr>nodes := g\<rparr>)) (P(?i := P ?i @ map (entry (nodes ?s)) [p])) L"
    by (rule pool_reach.push_list[OF r lists', where f = p and l = p and k = k])
      (use free f(1) sz q(1) in \<open>simp_all add: finishing_def\<close>)
  moreover have "map (entry (nodes ?s)) [p] = [(p, Some h, ok)]" by (simp add: entry_def)
  ultimately show "pool_reach s' (P(?i := P ?i @ [(p, Some h, ok)])) L" by (simp add: q(2))
qed

lemma jobs_reach_inv: "jobs_reach throws s P L js \<Longrightarrow> pool_reach s P L \<and> job_inv (pl_size s) P L js"
proof (induction rule: jobs_reach.induct)
  case (init n h)
  show ?case
    by (auto simp: pool_reach.init job_inv_def job_entries_def jobs_ended_def jobs_log_def jobs_init_def pending_def)
next
  case (schedule s P L js B Q p h k hash foo js' s')
  then obtain B0 Q0 where inv: "pool_inv s P L B0 Q0" using pool_reach_inv by blast
  from schedule have r: "pool_reach s P L" by blast
  note sch = pool_schedule_reach[OF r inv schedule.hyps(3,4,7)]
  have "job_inv (pl_size s) (P(select_queue hash s := P (select_queue hash s) @ [(p, Some h, ok)])) L (job_start h p foo js)"
  proof (rule job_inv_schedule[OF _ pool_inv_lengths[OF inv] sch(4) schedule.hyps(5,6)])
    show "job_inv (pl_size s) P L js" using schedule by blast
    show "served_task x \<noteq> Some h" if "x \<in> set (L i)" for i x
      using pool_inv_served[OF inv that] schedule.hyps(6) by metis
  qed
  with sch show ?case by (simp del: fun_upd_apply)
next
  case (step s P L js e s1 P' L' js' s')
  then have r: "pool_reach s P L" and ji: "job_inv (pl_size s) P L js" by auto
  from pool_reach_inv[OF r] obtain B Q where inv: "pool_inv s P L B Q" by blast
  note r1 = pool_step_reach[OF step.hyps(2) r]
  from pool_reach_inv[OF r1] obtain B1 Q1 where inv1: "pool_inv s1 P' L' B1 Q1" by blast
  note logs = pool_step_logs[OF step.hyps(2) inv]
  show ?case
  proof (cases e)
    case None
    with step.hyps(3) have "js' = js" "s' = s1" by (simp_all add: resume_job_def)
    with None logs job_inv_push_others[OF ji _ pool_inv_lengths[OF inv]] r1 show ?thesis by simp
  next
    case (Some x)
    with logs have sv: "serves P L x s1 P' L'" and sz: "pl_size s1 = pl_size s" by simp_all
    then obtain i where i: "L' = L(i := L i @ [x])" and P': "P' = P" by (auto simp: serves_def)
    from serve_pending[OF sv pool_inv_pending(3)[OF inv1] i] obtain y where
      y: "pending P L i = y # pending P L' i" "served_as y x" "\<And>j. j \<noteq> i \<Longrightarrow> pending P L' j = pending P L j"
      unfolding P' by blast
    show ?thesis
    proof (cases "\<exists>h. served_task x = Some h \<and> h \<in> dom (js_issued js)")
      case False
      with Some step.hyps(3) have "js' = js" "s' = s1" by (auto simp: resume_job_def split: option.splits if_splits)
      with job_inv_serve[OF ji y(1,2) i y(3)] False r1 P' sz show ?thesis by auto
    next
      case True
      then obtain h where h: "served_task x = Some h" "h \<in> dom (js_issued js)" by blast
      with Some step.hyps(3) have run: "schedule_to_resume throws h js s1 = Some (js', s')"
        by (simp add: resume_job_def)
      from sv obtain nd where nd: "nodes s1 (served_node x) = Some nd" "nd_status nd = served_status x" "nd_task nd = Some h"
        using h(1) by (auto simp: serves_def)
      from job_inv_resume[OF ji y(1,2) i y(3) h nd(1,2)] run have
        j: "job_inv (pl_size s) P L' js'" "s' = destroy_nodes [served_node x] s1" by metis+
      have fy: "fst y = served_node x" using y(2) by (cases y; cases x) auto
      have "pool_reach (s1\<lparr>nodes := (\<lambda>a. if a \<in> set [served_node x] then None else nodes s1 a)\<rparr>) P L'"
      proof (rule pool_reach.environment[OF r1[unfolded P']])
        show "pool_lists s1 B1 Q1" by (rule pool_inv_lists[OF inv1])
        fix a assume "(\<exists>i. a \<in> set (B1 i @ Q1 i)) \<or> stop_pill (pl_stop s1) = Some a"
        then have "a \<noteq> served_node x"
          using served_node_free[OF inv inv1[unfolded P'] y(1,3)] fy stop_pill_task[OF inv1, of a] nd by auto
        then show "(if a \<in> set [served_node x] then None else nodes s1 a) = nodes s1 a" by simp
      qed
      with j P' sz show ?thesis by (simp add: destroy_nodes_def)
    qed
  qed
qed

section \<open>Properties\<close>

text \<open>C14. When a pool on which jobs were scheduled has stopped, every job has been resumed exactly once and
  its frame has been destroyed exactly once: its callable was called once, if the job was not cancelled,
  or the job was dropped, which happens to exactly the jobs that were cancelled.\<close>

theorem scheduled_jobs_end_once:
  assumes "jobs_reach throws s P L js" and "pl_stop s = SDone"
  shows "js_frames js = Map.empty \<and> distinct (map fst (js_calls js) @ js_dropped js)
    \<and> set (map fst (js_calls js) @ js_dropped js) = dom (js_issued js)
    \<and> (\<forall>h foo. (h, foo) \<in> set (js_calls js) \<longrightarrow> js_issued js h = Some foo)
    \<and> (\<forall>h\<in>dom (js_issued js). h \<in> set (js_dropped js) \<longleftrightarrow> (\<exists>i p. Cancel p (Some h) cancelled \<in> set (L i)))"
proof -
  from jobs_reach_inv[OF assms(1)] have r: "pool_reach s P L" and j: "job_inv (pl_size s) P L js" by auto
  from pool_reach_inv[OF r] obtain B Q where inv: "pool_inv s P L B Q" by blast
  have "pending P L i = []" if "i < pl_size s" for i
  proof -
    have ex: "pl_pcs s i = WExit" and q: "Q i = []"
      using inv assms(2) that by (auto simp: pool_inv_def stop_ok_def joined_below_def)
    have "lane (nodes s) i (cur_list s i) (pl_pcs s i) (pl_queues s i) (P i) (L i) (B i) (Q i)"
      using inv lanesD(1) by (simp add: pool_inv_def)
    then have "B i = []" using ex assms(2) by (simp add: lane_def cur_list_def stop_list_def)
    with q pool_inv_pending(1)[OF inv, of i] show ?thesis by simp
  qed
  then have d: "dom (js_frames js) = {}" using job_invD(3)[OF j] by auto
  then have "js_frames js = Map.empty" by simp
  moreover from job_invD(4)[OF j] have "distinct (map fst (js_calls js) @ js_dropped js)"
    "set (map fst (js_calls js) @ js_dropped js) = dom (js_issued js)"
    "\<forall>h foo. (h, foo) \<in> set (js_calls js) \<longrightarrow> js_issued js h = Some foo"
    unfolding jobs_ended_def d by blast+
  moreover note job_invD(5)[OF j, unfolded jobs_log_def]
  ultimately show ?thesis by blast
qed

text \<open>A job never touches a frame or a node that is gone: whatever step a pool with jobs makes next, what
  follows it is defined, unless a callable throws, which terminates the program.\<close>

theorem scheduled_jobs_defined:
  assumes "jobs_reach throws s P L js" and "pool_step (dom (js_issued js)) s P L e s1 P' L'"
    and "\<And>h f. js_frames js h = Some f \<Longrightarrow> \<not> throws (jf_foo f)"
  shows "\<exists>js' s'. resume_job throws e js s1 = Some (js', s') \<and> jobs_reach throws s' P' L' js'"
proof -
  from jobs_reach_inv[OF assms(1)] have r: "pool_reach s P L" and ji: "job_inv (pl_size s) P L js" by auto
  from pool_reach_inv[OF r] obtain B Q where inv: "pool_inv s P L B Q" by blast
  from pool_reach_inv[OF pool_step_reach[OF assms(2) r]] obtain B1 Q1 where inv1: "pool_inv s1 P' L' B1 Q1" by blast
  have "resume_job throws e js s1 \<noteq> None"
  proof (cases "\<exists>x h. e = Some x \<and> served_task x = Some h \<and> h \<in> dom (js_issued js)")
    case True
    then obtain x h where x: "e = Some x" "served_task x = Some h" "h \<in> dom (js_issued js)" by blast
    with pool_step_logs[OF assms(2) inv] have sv: "serves P L x s1 P' L'" by simp
    then obtain i where i: "L' = L(i := L i @ [x])" and P': "P' = P" by (auto simp: serves_def)
    from serve_pending[OF sv pool_inv_pending(3)[OF inv1] i] obtain y where
      y: "pending P L i = y # pending P L' i" "served_as y x" "\<And>j. j \<noteq> i \<Longrightarrow> pending P L' j = pending P L j"
      unfolding P' by blast
    from sv obtain nd where nd: "nodes s1 (served_node x) = Some nd" "nd_status nd = served_status x"
      by (auto simp: serves_def)
    from job_inv_resume[OF ji y(1,2) i y(3) x(2,3) nd, of throws] assms(3) have
      "schedule_to_resume throws h js s1 \<noteq> None" by (metis job_frame.select_convs(2))
    with x show ?thesis by (simp add: resume_job_def)
  qed (auto simp: resume_job_def split: option.splits)
  then obtain js' s' where "resume_job throws e js s1 = Some (js', s')" by auto
  with jobs_reach.step[OF assms(1,2)] show ?thesis by blast
qed

section \<open>A run\<close>

text \<open>
  A pool with one worker; a job with handle 9, node 5 and callable 7 is scheduled, and then the pool is
  destroyed, with the pill 6.
\<close>

definition jp :: "node_heap \<Rightarrow> task_queue \<Rightarrow> worker_pc \<Rightarrow> bool \<Rightarrow> stop_pc \<Rightarrow> pool" where
  "jp h q c j z = \<lparr>nodes = h, pl_size = 1, pl_queues = (\<lambda>_. task_queue_init)(0 := q),
     pl_pcs = (\<lambda>_. WPop)(0 := c), pl_joinable = (\<lambda>_. False)(0 := j), pl_stop = z\<rparr>"

definition job_node :: "addr option \<Rightarrow> task_node" where
  "job_node n = \<lparr>nd_next = n, nd_task = Some 9, nd_status = ok\<rparr>"

definition one_job :: "(handle \<Rightarrow> nat job_frame option) \<Rightarrow> (handle \<times> nat) list \<Rightarrow> nat jobs" where
  "one_job fr c = \<lparr>js_frames = fr, js_issued = [9 \<mapsto> 7], js_calls = c, js_dropped = []\<rparr>"

abbreviation no_throw :: "nat \<Rightarrow> bool" where "no_throw \<equiv> \<lambda>_. False"

lemmas jp_simps = jp_def a_queue_def job_node_def one_job_def worker_step_def stop_step_def tq_pop_attempt_def
  tq_pop_all_def set_queue_def set_worker_def set_stop_def join_thread_def run_task_def resume_job_def
  deadpill_def task_node_init_def stop_enabled_def Let_def

lemma jp_scheduled:
  "jobs_reach no_throw (jp [5 \<mapsto> job_node None] (a_queue (Some 5) 5) WPop True SIdle)
     ((\<lambda>_. [])(0 := [(5, Some 9, ok)])) (\<lambda>_. []) (one_job [9 \<mapsto> \<lparr>jf_node = 5, jf_foo = 7\<rparr>] [])"
proof -
  have i: "jobs_reach no_throw (pool_ctor 1 Map.empty) (\<lambda>_. []) (\<lambda>_. []) jobs_init" by (rule jobs_reach.init)
  have l: "pool_lists (pool_ctor 1 Map.empty) (\<lambda>_. []) (\<lambda>_. [])"
    by (simp add: pool_lists_def pool_ctor_def cur_list_def)
  have sel: "select_queue 0 (pool_ctor 1 Map.empty) = 0" by (simp add: select_queue_def pool_ctor_def)
  have "pool_schedule 0 0 9 5 7 jobs_init (pool_ctor 1 Map.empty)
      = Some (one_job [9 \<mapsto> \<lparr>jf_node = 5, jf_foo = 7\<rparr>] [], jp [5 \<mapsto> job_node None] (a_queue (Some 5) 5) WPop True SIdle)"
    by (simp add: pool_schedule_def schedule_to_def create_node_await_suspend_def construct_node_def queue_attach_def
        select_queue_def pool_ctor_def tq_attach_def tq_push_def tq_push_list_def task_queue_init_def notify_one_def
        jp_simps job_start_def jobs_init_def fun_eq_iff)
  from jobs_reach.schedule[OF i l _ _ _ _ this] show ?thesis
    by (simp add: sel[unfolded pool_ctor_def] select_queue_def finishing_def pool_ctor_def jobs_init_def)
qed

lemma jp_stopping:
  "jobs_reach no_throw (jp [5 \<mapsto> job_node (Some 6), 6 \<mapsto> deadpill] (a_queue (Some 5) 6) WPop True (SJoin 6 0))
     pushed_run (\<lambda>_. []) (one_job [9 \<mapsto> \<lparr>jf_node = 5, jf_foo = 7\<rparr>] [])"
proof -
  let ?js = "one_job [9 \<mapsto> \<lparr>jf_node = 5, jf_foo = 7\<rparr>] []" and ?P = "(\<lambda>_. [])(0 := [(5, Some 9, ok)]) :: pushes"
  let ?s = "jp [5 \<mapsto> job_node None] (a_queue (Some 5) 5) WPop True SIdle"
  let ?d = "jp [5 \<mapsto> job_node None, 6 \<mapsto> deadpill] (a_queue (Some 5) 5) WPop True (SPush 6 0)"
  let ?t = "jp [5 \<mapsto> job_node (Some 6), 6 \<mapsto> deadpill] (a_queue (Some 5) 6) WPop True (SJoin 6 0)"
  have "pool_lists ?s (\<lambda>_. []) ((\<lambda>_. [])(0 := [5]))"
    by (simp add: pool_lists_def cur_list_def tq_holds_def jp_def a_queue_def job_node_def task_queue_init_def)
  from pool_step.dtor[OF this, of 6] have "pool_step (dom (js_issued ?js)) ?s ?P (\<lambda>_. []) None (pool_dtor_begin 6 ?s) ?P (\<lambda>_. [])"
    by (simp add: jp_def)
  moreover have "pool_dtor_begin 6 ?s = ?d" by (simp add: pool_dtor_begin_def jp_def)
  ultimately have d: "jobs_reach no_throw ?d ?P (\<lambda>_. []) ?js"
    using jobs_reach.step[OF jp_scheduled, of None ?d ?P "\<lambda>_. []" ?js ?d] by (simp add: resume_job_def)
  have "stop_step 0 ?d = Some (None, ?t)"
    by (simp add: tq_push_def tq_push_list_def jp_simps fun_eq_iff)
  from pool_step.stop_push[OF _ _ _ this, of 6 0 "dom (js_issued ?js)" ?P "\<lambda>_. []"]
  have "pool_step (dom (js_issued ?js)) ?d ?P (\<lambda>_. []) None ?t (?P(0 := ?P 0 @ [entry (nodes ?d) 6])) (\<lambda>_. [])"
    by (simp add: jp_def)
  moreover have "?P(0 := ?P 0 @ [entry (nodes ?d) 6]) = pushed_run"
    by (simp add: pushed_run_def entry_def jp_def deadpill_def task_node_init_def)
  ultimately show ?thesis
    using jobs_reach.step[OF d, of None ?t pushed_run "\<lambda>_. []" ?js ?t] by (simp add: resume_job_def)
qed

lemma jp_work:
  assumes "jobs_reach T (jp h q c j z) P L js" "c \<noteq> WExit" "tq_waiting q = []"
    "worker_step 0 (jp h q c j z) = Some (e, s1)" "resume_job T e js s1 = Some (js', s')" "L' = log_served 0 e L"
  shows "jobs_reach T s' P L' js'"
  unfolding assms(6)
  by (rule jobs_reach.step[OF assms(1) pool_step.work[OF _ assms(4)] assms(5)])
    (use assms(2,3) in \<open>simp add: worker_enabled_def jp_def\<close>)

lemma jp_stop:
  assumes "jobs_reach T (jp h q c j z) P L js" "stop_enabled (jp h q c j z)"
    "\<And>pl i. z = SPush pl i \<Longrightarrow> i \<noteq> 0" "stop_step 0 (jp h q c j z) = Some (None, s')"
  shows "jobs_reach T s' P L js"
proof -
  have "pool_step (dom (js_issued js)) (jp h q c j z) P L None s' P L"
    using pool_step.stop[OF assms(2) _ assms(4), of "dom (js_issued js)" P L] assms(3) by (simp add: jp_def)
  from jobs_reach.step[OF assms(1) this] show ?thesis by (simp add: resume_job_def)
qed

lemma jp_done: "jobs_reach no_throw (jp [6 \<mapsto> deadpill] (a_queue None 6) WExit False SDone) pushed_run served_run
    (one_job Map.empty [(9, 7)])"
proof -
  let ?js = "one_job [9 \<mapsto> \<lparr>jf_node = 5, jf_foo = 7\<rparr>] []" and ?js' = "one_job Map.empty [(9, 7)]"
  let ?h = "[5 \<mapsto> job_node (Some 6), 6 \<mapsto> deadpill] :: node_heap" and ?h' = "[6 \<mapsto> deadpill] :: node_heap"
  let ?q = "a_queue None 6" and ?L = "log_served 0 (Some (Run 5 (Some 9) ok)) (\<lambda>_. [])"
  have 1: "jobs_reach no_throw (jp ?h ?q (WBatch 5) True (SJoin 6 0)) pushed_run (\<lambda>_. []) ?js"
    by (rule jp_work[OF jp_stopping, where e = None]) (simp_all add: jp_simps log_served_def fun_eq_iff)
  have 2: "jobs_reach no_throw (jp ?h' ?q (WBatch 6) True (SJoin 6 0)) pushed_run ?L ?js'"
    by (rule jp_work[OF 1, where e = "Some (Run 5 (Some 9) ok)" and ?s1.0 = "jp ?h ?q (WBatch 6) True (SJoin 6 0)"])
      (simp_all add: jp_simps schedule_to_resume_def create_node_await_resume_def job_end_def destroy_nodes_def
        schedule_status_bool_def fun_eq_iff)
  have 3: "jobs_reach no_throw (jp ?h' ?q (WCancel None) True (SJoin 6 0)) pushed_run served_run ?js'"
    by (rule jp_work[OF 2, where e = "Some (Run 6 None ok)"])
      (simp_all add: jp_simps log_served_def served_run_def fun_eq_iff)
  have 4: "jobs_reach no_throw (jp ?h' ?q WExit True (SJoin 6 0)) pushed_run served_run ?js'"
    by (rule jp_work[OF 3, where e = None]) (simp_all add: jp_simps log_served_def fun_eq_iff)
  have 5: "jobs_reach no_throw (jp ?h' ?q WExit False (SCancel 6 0 None)) pushed_run served_run ?js'"
    by (rule jp_stop[OF 4]) (simp_all add: jp_simps fun_eq_iff)
  have 6: "jobs_reach no_throw (jp ?h' ?q WExit False (SPush 6 1)) pushed_run served_run ?js'"
    by (rule jp_stop[OF 5]) (simp_all add: jp_simps fun_eq_iff)
  have 7: "jobs_reach no_throw (jp ?h' ?q WExit False (SPop 0)) pushed_run served_run ?js'"
    by (rule jp_stop[OF 6]) (simp_all add: jp_simps fun_eq_iff)
  have 8: "jobs_reach no_throw (jp ?h' ?q WExit False (SFinal 0 None)) pushed_run served_run ?js'"
    by (rule jp_stop[OF 7]) (simp_all add: jp_simps fun_eq_iff)
  have 9: "jobs_reach no_throw (jp ?h' ?q WExit False (SPop 1)) pushed_run served_run ?js'"
    by (rule jp_stop[OF 8]) (simp_all add: jp_simps fun_eq_iff)
  show ?thesis by (rule jp_stop[OF 9]) (simp_all add: jp_simps fun_eq_iff)
qed

theorem scheduled_jobs_end_once_witness:
  "js_frames (one_job Map.empty [(9, 7)]) = Map.empty
     \<and> set (map fst (js_calls (one_job Map.empty [(9, 7)])) @ js_dropped (one_job Map.empty [(9, 7)])) = {9}"
  using scheduled_jobs_end_once[OF jp_done] by (simp add: jp_def one_job_def)

theorem scheduled_jobs_defined_witness:
  "\<exists>js' s'. resume_job no_throw None (one_job [9 \<mapsto> \<lparr>jf_node = 5, jf_foo = 7\<rparr>] [])
       (jp [5 \<mapsto> job_node (Some 6), 6 \<mapsto> deadpill] (a_queue None 6) (WBatch 5) True (SJoin 6 0)) = Some (js', s')
     \<and> jobs_reach no_throw s' pushed_run (\<lambda>_. []) js'"
proof -
  let ?s = "jp [5 \<mapsto> job_node (Some 6), 6 \<mapsto> deadpill] (a_queue (Some 5) 6) WPop True (SJoin 6 0)"
  let ?t = "jp [5 \<mapsto> job_node (Some 6), 6 \<mapsto> deadpill] (a_queue None 6) (WBatch 5) True (SJoin 6 0)"
  let ?js = "one_job [9 \<mapsto> \<lparr>jf_node = 5, jf_foo = 7\<rparr>] []"
  have "worker_enabled 0 ?s" "worker_step 0 ?s = Some (None, ?t)"
    by (simp_all add: worker_enabled_def jp_simps fun_eq_iff)
  from pool_step.work[OF this, of "dom (js_issued ?js)" pushed_run "\<lambda>_. []"]
  have "pool_step (dom (js_issued ?js)) ?s pushed_run (\<lambda>_. []) None ?t pushed_run (\<lambda>_. [])"
    by (simp add: log_served_def)
  from scheduled_jobs_defined[OF jp_stopping this] show ?thesis by simp
qed

end
