(* ===== verification/Coro_Awaiters.thy ===== *)
theory Coro_Awaiters
  imports Task
begin

text \<open>
  The awaiters of \<open>common.hpp\<close> and \<open>this_coro\<close> (\<open>task.hpp\<close>): \<open>transfer_control_to\<close>,
  \<open>destroy_and_transfer_control_to\<close>, \<open>destroy\<close>, \<open>suspend_and\<close>, and the questions a coroutine asks
  about itself (\<open>handle\<close>, \<open>context\<close>, \<open>return_place\<close>), under the rules of the language for
  \<open>co_await\<close>. The awaiter is an object in the frame of the coroutine that awaits: it dies with the
  frame, so that reading a member of it after \<open>self.destroy()\<close> is undefined (\<open>None\<close>). The end of
  the theory models \<open>scope_exit\<close> and the choice of an awaiter (\<open>build_awaiter\<close>, \<open>await_result_t\<close>).
\<close>

section \<open>Frames and awaiters\<close>

text \<open>A \<open>std::coroutine_handle\<close>: null, the no-op coroutine, or a coroutine.\<close>

datatype cohandle = NullH | NoopH | CoroH handle

text \<open>
  The awaiters. A pointer member is \<open>None\<close> until it is set; a pointer to the context or to the place
  of a result is the handle of the coroutine whose promise contains it.
\<close>

datatype 'f awaiter =
    TransferTo cohandle
  | DestroyCoro
  | SuspendAnd 'f
  | GetHandle "handle option"
  | GetContext "handle option"
  | GetPlace "handle option"
  | DestroyTransfer cohandle

record ('v, 'e, 'c, 'f) coro_frame =
  cf_block :: "('v, 'e) return_block"
  cf_ctx :: 'c
  cf_awaiter :: "'f awaiter option"
  cf_suspended :: bool

type_synonym ('v, 'e, 'c, 'f) coros = "handle \<Rightarrow> ('v, 'e, 'c, 'f) coro_frame option"

definition coro_destroy :: "handle \<Rightarrow> ('v, 'e, 'c, 'f) coros \<Rightarrow> ('v, 'e, 'c, 'f) coros option" where
  "coro_destroy h s = do {
     fr \<leftarrow> s h;
     if \<not> cf_suspended fr then None
     else do { _ \<leftarrow> rb_dtor (cf_block fr); Some (s(h := None)) } }"

definition this_awaiter :: "handle \<Rightarrow> ('v, 'e, 'c, 'f) coros \<Rightarrow> 'f awaiter option" where
  "this_awaiter h s = do { fr \<leftarrow> s h; cf_awaiter fr }"

definition set_awaiter :: "'f awaiter option \<Rightarrow> handle \<Rightarrow> ('v, 'e, 'c, 'f) coros \<Rightarrow> ('v, 'e, 'c, 'f) coros option" where
  "set_awaiter a h s = do { fr \<leftarrow> s h; Some (s(h \<mapsto> fr\<lparr>cf_awaiter := a\<rparr>)) }"

definition set_suspended :: "bool \<Rightarrow> handle \<Rightarrow> ('v, 'e, 'c, 'f) coros \<Rightarrow> ('v, 'e, 'c, 'f) coros option" where
  "set_suspended b h s = do { fr \<leftarrow> s h; Some (s(h \<mapsto> fr\<lparr>cf_suspended := b\<rparr>)) }"

text \<open>What \<open>await_suspend\<close> returns: nothing, a bool, a handle; or it throws.\<close>

datatype 'e suspend_result = SVoid | SBool bool | SHandle cohandle | SThrow 'e

section \<open>The awaiters\<close>

definition transfer_ready :: "cohandle \<Rightarrow> bool" where
  "transfer_ready who_waits \<longleftrightarrow> who_waits = NullH"

definition transfer_suspend :: "cohandle \<Rightarrow> handle \<Rightarrow> ('v, 'e, 'c, 'f) coros
    \<Rightarrow> ('e suspend_result \<times> ('v, 'e, 'c, 'f) coros) option" where
  "transfer_suspend who_waits h s = Some (SHandle who_waits, s)"

definition destroy_coro_suspend :: "handle \<Rightarrow> ('v, 'e, 'c, 'f) coros
    \<Rightarrow> ('e suspend_result \<times> ('v, 'e, 'c, 'f) coros) option" where
  "destroy_coro_suspend h s = do { s1 \<leftarrow> coro_destroy h s; Some (SVoid, s1) }"

text \<open>\<open>fn\<close> gets the handle and may do anything; what it returns is what \<open>await_suspend\<close> returns.\<close>

definition suspend_and_suspend ::
  "('f \<Rightarrow> handle \<Rightarrow> ('v, 'e, 'c, 'f) coros \<Rightarrow> ('e suspend_result \<times> ('v, 'e, 'c, 'f) coros) option)
     \<Rightarrow> 'f \<Rightarrow> handle \<Rightarrow> ('v, 'e, 'c, 'f) coros \<Rightarrow> ('e suspend_result \<times> ('v, 'e, 'c, 'f) coros) option" where
  "suspend_and_suspend invoke fn h s = invoke fn h s"

definition get_handle_suspend :: "handle \<Rightarrow> ('v, 'e, 'c, 'f) coros
    \<Rightarrow> ('e suspend_result \<times> ('v, 'e, 'c, 'f) coros) option" where
  "get_handle_suspend h s = do { s1 \<leftarrow> set_awaiter (Some (GetHandle (Some h))) h s; Some (SBool False, s1) }"

definition get_context_suspend :: "handle \<Rightarrow> ('v, 'e, 'c, 'f) coros
    \<Rightarrow> ('e suspend_result \<times> ('v, 'e, 'c, 'f) coros) option" where
  "get_context_suspend h s = do { s1 \<leftarrow> set_awaiter (Some (GetContext (Some h))) h s; Some (SBool False, s1) }"

text \<open>
  \<open>return_place()\<close> constructs the value that the coroutine is going to return (\<open>ctor\<close>, which may throw).
\<close>

definition get_place_suspend :: "'v + 'e \<Rightarrow> handle \<Rightarrow> ('v, 'e, 'c, 'f) coros
    \<Rightarrow> ('e suspend_result \<times> ('v, 'e, 'c, 'f) coros) option" where
  "get_place_suspend ctor h s = do {
     fr \<leftarrow> s h;
     (_, b) \<leftarrow> rb_return_place (case ctor of Inl v \<Rightarrow> Some v | Inr _ \<Rightarrow> None) (cf_block fr);
     case ctor of
       Inr e \<Rightarrow> Some (SThrow e, s(h \<mapsto> fr\<lparr>cf_block := b\<rparr>))
     | Inl _ \<Rightarrow> do {
         s1 \<leftarrow> set_awaiter (Some (GetPlace (Some h))) h (s(h \<mapsto> fr\<lparr>cf_block := b\<rparr>));
         Some (SBool False, s1) } }"

text \<open>The member \<open>who_waits\<close> is copied to the stack before the frame it lives in is destroyed.\<close>

definition who_waits_member :: "handle \<Rightarrow> ('v, 'e, 'c, 'f) coros \<Rightarrow> cohandle option" where
  "who_waits_member h s = do {
     a \<leftarrow> this_awaiter h s;
     case a of DestroyTransfer w \<Rightarrow> Some w | _ \<Rightarrow> None }"

definition destroy_transfer_suspend :: "handle \<Rightarrow> ('v, 'e, 'c, 'f) coros
    \<Rightarrow> ('e suspend_result \<times> ('v, 'e, 'c, 'f) coros) option" where
  "destroy_transfer_suspend self s = do {
     w \<leftarrow> who_waits_member self s;
     s1 \<leftarrow> coro_destroy self s;
     Some (SHandle (if w \<noteq> NullH then w else NoopH), s1) }"

section \<open>\<open>co_await\<close>\<close>

text \<open>
  What a question is answered with: nothing, a handle, or a reference into the promise of a coroutine.
\<close>

datatype answer = AUnit | AHandle handle | AContext handle | APlace handle

definition await_ready :: "'f awaiter \<Rightarrow> bool" where
  "await_ready a = (case a of TransferTo w \<Rightarrow> transfer_ready w | _ \<Rightarrow> False)"

text \<open>\<open>invoke\<close> is what callables do, \<open>ctor\<close> what the constructor of a result does.\<close>

definition await_suspend ::
  "('f \<Rightarrow> handle \<Rightarrow> ('v, 'e, 'c, 'f) coros \<Rightarrow> ('e suspend_result \<times> ('v, 'e, 'c, 'f) coros) option)
     \<Rightarrow> 'v + 'e \<Rightarrow> 'f awaiter \<Rightarrow> handle \<Rightarrow> ('v, 'e, 'c, 'f) coros
     \<Rightarrow> ('e suspend_result \<times> ('v, 'e, 'c, 'f) coros) option" where
  "await_suspend invoke ctor a h s = (case a of
      TransferTo w \<Rightarrow> transfer_suspend w h s
    | DestroyCoro \<Rightarrow> destroy_coro_suspend h s
    | SuspendAnd fn \<Rightarrow> suspend_and_suspend invoke fn h s
    | GetHandle _ \<Rightarrow> get_handle_suspend h s
    | GetContext _ \<Rightarrow> get_context_suspend h s
    | GetPlace _ \<Rightarrow> get_place_suspend ctor h s
    | DestroyTransfer _ \<Rightarrow> destroy_transfer_suspend h s)"

text \<open>\<open>await_resume\<close>; the two awaiters that destroy their coroutine cannot be resumed.\<close>

definition await_resume :: "'f awaiter \<Rightarrow> answer option" where
  "await_resume a = (case a of
      TransferTo _ \<Rightarrow> Some AUnit
    | SuspendAnd _ \<Rightarrow> Some AUnit
    | DestroyCoro \<Rightarrow> None
    | DestroyTransfer _ \<Rightarrow> None
    | GetHandle h \<Rightarrow> map_option AHandle h
    | GetContext c \<Rightarrow> map_option AContext c
    | GetPlace p \<Rightarrow> map_option APlace p)"

text \<open>
  The language: the awaiter is a temporary in the frame; if it is not ready the coroutine counts as
  suspended while \<open>await_suspend\<close> runs; \<open>false\<close> and an exception resume it at once; a handle is
  resumed next, and a null handle is undefined behaviour.
\<close>

datatype 'e await_turn = Continues answer | Throws 'e | Stops | TransfersTo handle

definition resume_here :: "handle \<Rightarrow> ('v, 'e, 'c, 'f) coros \<Rightarrow> ('e await_turn \<times> ('v, 'e, 'c, 'f) coros) option" where
  "resume_here h s = do {
     a \<leftarrow> this_awaiter h s;
     r \<leftarrow> await_resume a;
     s1 \<leftarrow> set_awaiter None h s;
     s2 \<leftarrow> set_suspended False h s1;
     Some (Continues r, s2) }"

definition co_await ::
  "('f \<Rightarrow> handle \<Rightarrow> ('v, 'e, 'c, 'f) coros \<Rightarrow> ('e suspend_result \<times> ('v, 'e, 'c, 'f) coros) option)
     \<Rightarrow> 'v + 'e \<Rightarrow> 'f awaiter \<Rightarrow> handle \<Rightarrow> ('v, 'e, 'c, 'f) coros
     \<Rightarrow> ('e await_turn \<times> ('v, 'e, 'c, 'f) coros) option" where
  "co_await invoke ctor a h s = do {
     s1 \<leftarrow> set_awaiter (Some a) h s;
     if await_ready a then resume_here h s1
     else do {
       s2 \<leftarrow> set_suspended True h s1;
       (r, s3) \<leftarrow> await_suspend invoke ctor a h s2;
       case r of
         SVoid \<Rightarrow> Some (Stops, s3)
       | SBool True \<Rightarrow> Some (Stops, s3)
       | SBool False \<Rightarrow> resume_here h s3
       | SThrow e \<Rightarrow> do {
           s4 \<leftarrow> set_awaiter None h s3;
           s5 \<leftarrow> set_suspended False h s4;
           Some (Throws e, s5) }
       | SHandle NullH \<Rightarrow> None
       | SHandle NoopH \<Rightarrow> Some (Stops, s3)
       | SHandle (CoroH k) \<Rightarrow> Some (TransfersTo k, s3) } }"

section \<open>What a coroutine asks about itself\<close>

lemmas await_defs = co_await_def await_ready_def await_suspend_def await_resume_def resume_here_def
  set_awaiter_def set_suspended_def this_awaiter_def get_handle_suspend_def get_context_suspend_def
  get_place_suspend_def destroy_transfer_suspend_def destroy_coro_suspend_def transfer_suspend_def
  transfer_ready_def suspend_and_suspend_def who_waits_member_def coro_destroy_def

text \<open>A coroutine that runs: it is not suspended and no awaiter is alive in it.\<close>

definition running :: "handle \<Rightarrow> ('v, 'e, 'c, 'f) coros \<Rightarrow> bool" where
  "running h s \<longleftrightarrow> (case s h of None \<Rightarrow> False
     | Some fr \<Rightarrow> \<not> cf_suspended fr \<and> cf_awaiter fr = None)"

lemma runningE:
  assumes "running h s"
  obtains b c where "s h = Some \<lparr>cf_block = b, cf_ctx = c, cf_awaiter = None, cf_suspended = False\<rparr>"
proof (cases "s h")
  case None
  with assms show ?thesis by (simp add: running_def)
next
  case (Some fr)
  with assms that show ?thesis by (cases fr) (simp add: running_def)
qed

text \<open>The write of a coroutine through the reference that \<open>return_place\<close> gave it.\<close>

definition write_place :: "handle \<Rightarrow> 'v \<Rightarrow> ('v, 'e, 'c, 'f) coros \<Rightarrow> ('v, 'e, 'c, 'f) coros option" where
  "write_place p v s = do {
     fr \<leftarrow> s p;
     _ \<leftarrow> as_value (rb_data (cf_block fr));
     Some (s(p \<mapsto> fr\<lparr>cf_block := (cf_block fr)\<lparr>rb_data := HoldsValue v\<rparr>\<rparr>)) }"

text \<open>\<open>co_return rvo\<close> and \<open>co_return v\<close>.\<close>

definition co_return_rvo :: "handle \<Rightarrow> ('v, 'e, 'c, 'f) coros \<Rightarrow> ('v, 'e, 'c, 'f) coros option" where
  "co_return_rvo h s = do {
     fr \<leftarrow> s h;
     b \<leftarrow> rb_return_rvo (cf_block fr);
     Some (s(h \<mapsto> fr\<lparr>cf_block := b\<rparr>)) }"

definition co_return_value :: "'v \<Rightarrow> handle \<Rightarrow> ('v, 'e, 'c, 'f) coros \<Rightarrow> ('v, 'e, 'c, 'f) coros option" where
  "co_return_value v h s = do {
     fr \<leftarrow> s h;
     (_, b) \<leftarrow> rb_return_value (Some v) (cf_block fr);
     Some (s(h \<mapsto> fr\<lparr>cf_block := b\<rparr>)) }"

lemma return_place_await:
  assumes "running h s" and "s h = Some fr" and "cf_block fr = return_block_init"
  shows "co_await invoke (Inl d) (GetPlace None) h s
       = Some (Continues (APlace h), s(h \<mapsto> fr\<lparr>cf_block := \<lparr>rb_data = HoldsValue d, rb_kind = RetVal\<rparr>\<rparr>))"
    and "co_await invoke (Inr e) (GetPlace None) h s = Some (Throws e, s)"
proof -
  from assms(1) obtain b c
    where sh: "s h = Some \<lparr>cf_block = b, cf_ctx = c, cf_awaiter = None, cf_suspended = False\<rparr>"
    by (rule runningE)
  with assms show
    "co_await invoke (Inl d) (GetPlace None) h s
       = Some (Continues (APlace h), s(h \<mapsto> fr\<lparr>cf_block := \<lparr>rb_data = HoldsValue d, rb_kind = RetVal\<rparr>\<rparr>))"
    by (auto simp: await_defs rb_return_place_def construct_value_def return_block_init_def fun_upd_def)
  from sh assms show "co_await invoke (Inr e) (GetPlace None) h s = Some (Throws e, s)"
    by (auto simp: await_defs rb_return_place_def return_block_init_def fun_eq_iff)
qed

lemma write_place_step:
  "write_place h v (s(h \<mapsto> fr\<lparr>cf_block := \<lparr>rb_data = HoldsValue d, rb_kind = RetVal\<rparr>\<rparr>))
    = Some (s(h \<mapsto> fr\<lparr>cf_block := \<lparr>rb_data = HoldsValue v, rb_kind = RetVal\<rparr>\<rparr>))"
  by (simp add: write_place_def as_value_def)

lemma write_places:
  "foldM_opt (write_place h) vs (s(h \<mapsto> fr\<lparr>cf_block := \<lparr>rb_data = HoldsValue d, rb_kind = RetVal\<rparr>\<rparr>))
    = Some (s(h \<mapsto> fr\<lparr>cf_block := \<lparr>rb_data = HoldsValue (last (d # vs)), rb_kind = RetVal\<rparr>\<rparr>))"
  by (induction vs arbitrary: d) (simp_all add: write_place_step del: fun_upd_apply)

text \<open>
  \<open>co_await this_coro::return_place\<close> never suspends. It gives a reference to the value that will
  be returned: writing any number of values through it and ending with \<open>co_return rvo\<close> is the same as
  \<open>co_return\<close> of the last value written, without a copy. If the constructor of the result throws,
  the exception comes out of the \<open>co_await\<close> and the coroutine is as it was before.
\<close>

theorem return_place_is_co_return:
  assumes "running h s" and "s h = Some fr" and "cf_block fr = return_block_init"
  shows "\<exists>s1 s2. co_await invoke (Inl d) (GetPlace None) h s = Some (Continues (APlace h), s1)
       \<and> foldM_opt (write_place h) vs s1 = Some s2
       \<and> co_return_rvo h s2 = co_return_value (last (d # vs)) h s
       \<and> co_return_value (last (d # vs)) h s \<noteq> None
       \<and> co_await invoke (Inr e) (GetPlace None) h s = Some (Throws e, s)"
proof -
  let ?s1 = "s(h \<mapsto> fr\<lparr>cf_block := \<lparr>rb_data = HoldsValue d, rb_kind = RetVal\<rparr>\<rparr>)"
  have "foldM_opt (write_place h) vs ?s1
      = Some (s(h \<mapsto> fr\<lparr>cf_block := \<lparr>rb_data = HoldsValue (last (d # vs)), rb_kind = RetVal\<rparr>\<rparr>))"
    by (rule write_places)
  moreover have "co_return_value (last (d # vs)) h s
      = Some (s(h \<mapsto> fr\<lparr>cf_block := \<lparr>rb_data = HoldsValue (last (d # vs)), rb_kind = RetVal\<rparr>\<rparr>))"
    using assms by (simp add: co_return_value_def rb_return_value_def construct_value_def return_block_init_def)
  ultimately show ?thesis
    using return_place_await[OF assms, where invoke = invoke] by (simp add: co_return_rvo_def rb_return_rvo_def)
qed

text \<open>One coroutine, returning a number, that runs at \<open>5\<close>.\<close>

definition one_coro :: "(nat, string, nat, nat) coros" where
  "one_coro = [5 \<mapsto> \<lparr>cf_block = return_block_init, cf_ctx = 0, cf_awaiter = None, cf_suspended = False\<rparr>]"

lemma one_coro_5:
  "one_coro 5 = Some \<lparr>cf_block = return_block_init, cf_ctx = 0, cf_awaiter = None, cf_suspended = False\<rparr>"
  by (simp add: one_coro_def)

theorem return_place_is_co_return_witness:
  "\<exists>s1 s2. co_await (\<lambda>_ _ s. Some (SVoid, s)) (Inl 0) (GetPlace None) 5 one_coro
       = Some (Continues (APlace 5), s1)
     \<and> foldM_opt (write_place 5) [7, 8] s1 = Some s2
     \<and> co_return_rvo 5 s2 = co_return_value (last (0 # [7, 8])) 5 one_coro
     \<and> co_return_value (last (0 # [7, 8])) 5 one_coro \<noteq> None
     \<and> co_await (\<lambda>_ _ s. Some (SVoid, s)) (Inr ''full'') (GetPlace None) 5 one_coro
       = Some (Throws ''full'', one_coro)"
  by (rule return_place_is_co_return[where s = one_coro and h = 5, OF _ one_coro_5]) (simp_all add: one_coro_def running_def)

lemma get_handle_await:
  assumes "running h s"
  shows "co_await invoke ctor (GetHandle None) h s = Some (Continues (AHandle h), s)"
proof -
  from assms obtain b c
    where "s h = Some \<lparr>cf_block = b, cf_ctx = c, cf_awaiter = None, cf_suspended = False\<rparr>"
    by (rule runningE)
  then show ?thesis by (auto simp: await_defs fun_eq_iff)
qed

lemma get_context_await:
  assumes "running h s"
  shows "co_await invoke ctor (GetContext None) h s = Some (Continues (AContext h), s)"
proof -
  from assms obtain b c
    where "s h = Some \<lparr>cf_block = b, cf_ctx = c, cf_awaiter = None, cf_suspended = False\<rparr>"
    by (rule runningE)
  then show ?thesis by (auto simp: await_defs fun_eq_iff)
qed

section \<open>Coroutines that end by destroying themselves\<close>

text \<open>A block whose destructor is defined; the blocks of promises are of this kind (\<open>rb_of_dtor\<close>).\<close>

definition can_destroy :: "('v, 'e, 'c, 'f) coro_frame \<Rightarrow> bool" where
  "can_destroy fr \<longleftrightarrow> rb_dtor (cf_block fr) \<noteq> None"

lemma destroy_transfer_await:
  assumes "s h = Some fr" and "can_destroy fr"
  shows "co_await invoke ctor (DestroyTransfer w) h s
    = Some (case w of CoroH k \<Rightarrow> TransfersTo k | _ \<Rightarrow> Stops, s(h := None))"
  using assms by (cases w) (auto simp: await_defs can_destroy_def fun_eq_iff)

lemma destroy_coro_await:
  assumes "s h = Some fr" and "can_destroy fr"
  shows "co_await invoke ctor DestroyCoro h s = Some (Stops, s(h := None))"
  using assms by (auto simp: await_defs can_destroy_def fun_eq_iff)

text \<open>
  A resumed coroutine whose last act is \<open>co_await this_coro::destroy_and_transfer_control_to(who h)\<close>,
  and then whoever control goes to.
\<close>

partial_function (option) hand_over ::
  "('f \<Rightarrow> handle \<Rightarrow> ('v, 'e, 'c, 'f) coros \<Rightarrow> ('e suspend_result \<times> ('v, 'e, 'c, 'f) coros) option)
     \<Rightarrow> 'v + 'e \<Rightarrow> (handle \<Rightarrow> cohandle) \<Rightarrow> handle \<Rightarrow> ('v, 'e, 'c, 'f) coros
    \<Rightarrow> ('v, 'e, 'c, 'f) coros option" where
  "hand_over invoke ctor who h s = do {
     fr \<leftarrow> s h;
     if \<not> cf_suspended fr then None
     else do {
       s1 \<leftarrow> set_suspended False h s;
       (t, s2) \<leftarrow> co_await invoke ctor (DestroyTransfer (who h)) h s1;
       case t of TransfersTo k \<Rightarrow> hand_over invoke ctor who k s2 | Stops \<Rightarrow> Some s2 | _ \<Rightarrow> None } }"

lemma hand_over_step:
  assumes "s h = Some fr" and "cf_suspended fr" and "can_destroy fr"
  shows "hand_over invoke ctor who h s = (case who h of CoroH k \<Rightarrow> hand_over invoke ctor who k (s(h := None)) | _ \<Rightarrow> Some (s(h := None)))"
proof -
  let ?s1 = "s(h \<mapsto> fr\<lparr>cf_suspended := False\<rparr>)"
  have "co_await invoke ctor (DestroyTransfer (who h)) h ?s1
    = Some (case who h of CoroH k \<Rightarrow> TransfersTo k | _ \<Rightarrow> Stops, s(h := None))"
    using destroy_transfer_await[of ?s1 h "fr\<lparr>cf_suspended := False\<rparr>"] assms(3) by (simp add: can_destroy_def)
  with assms show ?thesis
    by (subst hand_over.simps) (simp add: set_suspended_def split: cohandle.split del: fun_upd_apply)
qed

lemma hand_over_chain:
  assumes "distinct hs" and "hs \<noteq> []"
    and "\<forall>h\<in>set hs. \<exists>fr. s h = Some fr \<and> cf_suspended fr \<and> can_destroy fr"
    and "\<forall>i<length hs. who (hs ! i) = (if Suc i < length hs then CoroH (hs ! Suc i) else w)"
    and "w = NullH \<or> w = NoopH"
  shows "hand_over invoke ctor who (hd hs) s = Some (s |` (- set hs))"
  using assms(1-4)
proof (induction hs arbitrary: s)
  case Nil
  then show ?case by simp
next
  case (Cons h hs)
  from Cons.prems(3) obtain fr where "s h = Some fr" "cf_suspended fr" "can_destroy fr" by auto
  note step = hand_over_step[where s = s and h = h and fr = fr and who = who and invoke = invoke and ctor = ctor, OF this]
  have whoh: "who h = (if hs \<noteq> [] then CoroH (hd hs) else w)"
    using Cons.prems(4) by (cases hs) (auto dest: spec[of _ 0])
  show ?case
  proof (cases "hs = []")
    case True
    with step whoh assms(5) show ?thesis by (auto simp: restrict_map_def fun_eq_iff)
  next
    case False
    have next_who: "\<forall>i<length hs. who (hs ! i) = (if Suc i < length hs then CoroH (hs ! Suc i) else w)"
      using Cons.prems(4) by (metis Suc_less_eq length_Cons nth_Cons_Suc)
    have "\<forall>k\<in>set hs. \<exists>fr. (s(h := None)) k = Some fr \<and> cf_suspended fr \<and> can_destroy fr"
      using Cons.prems(1,3) by auto
    from Cons.IH[OF _ False this next_who] Cons.prems(1)
    have "hand_over invoke ctor who (hd hs) (s(h := None)) = Some (s(h := None) |` (- set hs))" by (simp del: fun_upd_apply)
    moreover have "s(h := None) |` (- set hs) = s |` (- set (h # hs))"
      by (auto simp: restrict_map_def fun_eq_iff)
    ultimately show ?thesis using step whoh False by (simp only: list.sel if_True not_False_eq_True cohandle.case)
  qed
qed

text \<open>
  C37. \<open>destroy_and_transfer_control_to\<close> frees the frame it is awaited in, once, and nothing else, and
  only then passes control on. Along a chain of suspended coroutines of any length that end this way,
  each handing over to the one after it and the last to nobody (a null handle is the no-op
  coroutine), every one is resumed once, every frame of the chain is gone in the end, the others are
  untouched, and no member of a destroyed frame is read.
\<close>

theorem destroy_and_transfer_frees_once:
  assumes "distinct hs" and "hs \<noteq> []"
    and "\<forall>h\<in>set hs. \<exists>fr. s h = Some fr \<and> cf_suspended fr \<and> can_destroy fr"
    and "\<forall>i<length hs. who (hs ! i) = (if Suc i < length hs then CoroH (hs ! Suc i) else w)"
    and "w = NullH \<or> w = NoopH"
  shows "hand_over invoke ctor who (hd hs) s = Some (s |` (- set hs))"
  by (rule hand_over_chain[OF assms])

definition parked_coro :: "(nat, string, nat, nat) coro_frame" where
  "parked_coro = \<lparr>cf_block = rb_of (Returned 1), cf_ctx = 0, cf_awaiter = None, cf_suspended = True\<rparr>"

definition parked_coros :: "(nat, string, nat, nat) coros" where
  "parked_coros = [1 \<mapsto> parked_coro, 4 \<mapsto> parked_coro, 9 \<mapsto> parked_coro]"

theorem destroy_and_transfer_frees_once_witness:
  "hand_over (\<lambda>_ _ _. None) (Inl 0) ((\<lambda>_. NullH)(4 := CoroH 1)) (hd [4, 1]) parked_coros = Some (parked_coros |` (- set [4, 1]))
     \<and> parked_coros |` (- set [4, 1]) = [9 \<mapsto> parked_coro]"
proof
  show "hand_over (\<lambda>_ _ _. None) (Inl 0) ((\<lambda>_. NullH)(4 := CoroH 1)) (hd [4, 1]) parked_coros = Some (parked_coros |` (- set [4, 1]))"
    by (rule destroy_and_transfer_frees_once[where w = NullH])
      (auto simp: parked_coros_def parked_coro_def can_destroy_def rb_of_dtor less_Suc_eq)
  show "parked_coros |` (- set [4, 1]) = [9 \<mapsto> parked_coro]"
    by (auto simp: parked_coros_def restrict_map_def fun_eq_iff)
qed

section \<open>\<open>scope_exit\<close>\<close>

text \<open>
  \<open>scope_exit todo\<close> in a block: \<open>todo\<close> runs when the block is left, by its end or by an exception.
  An exception of \<open>todo\<close> leaves a block that ended normally, and is the end of the program
  (\<open>None\<close>) while another one is on its way.
\<close>

definition scope_exit_dtor :: "('s \<Rightarrow> ('e option \<times> 's) option) \<Rightarrow> 'e option \<times> 's \<Rightarrow> ('e option \<times> 's) option" where
  "scope_exit_dtor todo = (\<lambda>(pending, s). do {
     (x, s1) \<leftarrow> todo s;
     case x of
       None \<Rightarrow> Some (pending, s1)
     | Some e \<Rightarrow> if pending = None then Some (Some e, s1) else None })"

definition with_scope_exit ::
  "('s \<Rightarrow> ('e option \<times> 's) option) \<Rightarrow> ('s \<Rightarrow> ('e option \<times> 's) option) \<Rightarrow> 's \<Rightarrow> ('e option \<times> 's) option" where
  "with_scope_exit todo block s = do { r \<leftarrow> block s; scope_exit_dtor todo r }"

lemma with_scope_exit_no_throw:
  assumes "\<And>s. todo s = Some (None, f s)"
  shows "with_scope_exit todo block s = map_option (map_prod (\<lambda>x. x) f) (block s)"
  using assms by (cases "block s") (auto simp: with_scope_exit_def scope_exit_dtor_def)

section \<open>Which awaiter a \<open>co_await\<close> uses\<close>

text \<open>What overload resolution finds for a type: the concepts of \<open>common.hpp\<close>.\<close>

record co_type =
  has_member_co_await :: bool
  has_global_co_await :: bool
  co_awaiter :: bool

definition ambigious_co_await_lookup :: "co_type \<Rightarrow> bool" where
  "ambigious_co_await_lookup t \<longleftrightarrow> has_global_co_await t \<and> has_member_co_await t"

definition co_awaitable :: "co_type \<Rightarrow> bool" where
  "co_awaitable t \<longleftrightarrow> has_member_co_await t \<or> has_global_co_await t \<or> co_awaiter t"

text \<open>
  Where the awaiter comes from; an error of the compiler is \<open>None\<close> (a failed constraint or
  \<open>static_assert\<close>).
\<close>

datatype awaiter_source = TheValue | GlobalOperator | MemberOperator

definition build_awaiter :: "co_type \<Rightarrow> awaiter_source option" where
  "build_awaiter t =
     (if \<not> co_awaitable t then None
      else if ambigious_co_await_lookup t then None
      else if co_awaiter t then Some TheValue
      else if has_global_co_await t then Some GlobalOperator
      else if has_member_co_await t then Some MemberOperator
      else None)"

definition await_result_source :: "co_type \<Rightarrow> awaiter_source option" where
  "await_result_source t =
     (if \<not> co_awaitable t then None
      else if ambigious_co_await_lookup t then None
      else if has_global_co_await t then Some GlobalOperator
      else if has_member_co_await t then Some MemberOperator
      else Some TheValue)"

text \<open>
  The rule of the language ([expr.await]): an applicable \<open>operator co_await\<close> is called, two are
  ambiguous, and without one the operand itself is the awaiter.
\<close>

definition language_awaiter :: "co_type \<Rightarrow> awaiter_source option" where
  "language_awaiter t = (case (has_member_co_await t, has_global_co_await t) of
      (True, True) \<Rightarrow> None
    | (True, False) \<Rightarrow> Some MemberOperator
    | (False, True) \<Rightarrow> Some GlobalOperator
    | (False, False) \<Rightarrow> if co_awaiter t then Some TheValue else None)"

text \<open>
  \<open>await_result_t\<close> follows the rule of the language for every type. \<open>build_awaiter\<close> follows it for
  exactly the types that are not an awaiter and the operand of an \<open>operator co_await\<close> at once (and are
  not ambiguous): for a type that is both, the language calls the operator and \<open>build_awaiter\<close> takes the
  value itself, so that the awaiter it builds and \<open>await_result_t\<close> speak of different objects.
\<close>

theorem build_awaiter_imitates_language:
  "await_result_source t = language_awaiter t
     \<and> (build_awaiter t = language_awaiter t
        \<longleftrightarrow> \<not> (co_awaiter t \<and> has_member_co_await t \<noteq> has_global_co_await t))"
  by (cases "has_member_co_await t"; cases "has_global_co_await t"; cases "co_awaiter t")
    (simp_all add: await_result_source_def language_awaiter_def build_awaiter_def co_awaitable_def
      ambigious_co_await_lookup_def)

section \<open>The end of a task\<close>

text \<open>
  The final suspension of a task (\<open>Task.transfer_control_to\<close>) is \<open>transfer_control_to\<close> under the rules
  above: ready exactly if nobody waits, in which case the coroutine goes on past its final suspend
  point and its frame is destroyed.
\<close>

definition waiter_handle :: "waiter \<Rightarrow> cohandle" where
  "waiter_handle w = (case w of NoOne \<Rightarrow> NullH | NoopCoro \<Rightarrow> NoopH | Waits h \<Rightarrow> CoroH h)"

lemma task_final_transfer:
  "Task.transfer_control_to who h s =
     (if transfer_ready (waiter_handle who) then map_option (Pair Returns) (destroy_task h s)
      else case waiter_handle who of CoroH w \<Rightarrow> Some (Next w, s) | _ \<Rightarrow> Some (Returns, s))"
  by (cases who; cases "destroy_task h s") (simp_all add: transfer_control_to_def waiter_handle_def transfer_ready_def)

end
