(* ===== verification/Pool_Lifecycle.thy ===== *)
theory Pool_Lifecycle
  imports Thread_Pool_Runs Coro_Awaiters
begin

text \<open>
  The rest of \<open>thread_pool.hpp\<close>: the class \<open>worker\<close> (one queue, one thread, its own destructor),
  \<open>strand\<close>, and the constructor of \<open>thread_pool\<close>, which starts the threads one by one and, when a
  \<open>std::thread\<close> cannot be created, takes back the ones that run already.

  A worker is a pool of size one in the model (queue and thread number 0); its destructor is shorter
  than the one of the pool, and a simulation shows that a run of a worker is a run of such a pool. The
  constructor of the pool interleaves with the workers it has started; a simulation shows that what it
  builds is what \<open>pool_ctor\<close> makes in one step, and that its error path is a run of the destructor.
\<close>

section \<open>Strands and workers\<close>

text \<open>A strand is a reference to a queue of a pool: its index. \<open>get_strand\<close> and \<open>attach\<close>.\<close>

definition get_strand :: "operation_hash_t \<Rightarrow> 'w pool_scheme \<Rightarrow> nat" where
  "get_strand op_hash s = select_queue op_hash s"

definition strand_attach :: "nat \<Rightarrow> nat \<Rightarrow> addr \<Rightarrow> 'w pool_scheme \<Rightarrow> 'w pool_scheme option" where
  "strand_attach k q node s = queue_attach k q node s"

definition worker_ctor :: "node_heap \<Rightarrow> pool" where
  "worker_ctor h = \<lparr>nodes = h, pl_size = 1, pl_queues = (\<lambda>_. task_queue_init), pl_pcs = (\<lambda>_. WPop),
      pl_joinable = (\<lambda>i. i < 1), pl_stop = SIdle\<rparr>"

definition worker_attach :: "nat \<Rightarrow> addr \<Rightarrow> 'w pool_scheme \<Rightarrow> 'w pool_scheme option" where
  "worker_attach k node s =
     (if task_of (nodes s) node = None then None
      else do {
        (q, h) \<leftarrow> tq_push k (pl_queues s 0) node (nodes s);
        Some (set_queue 0 q (s\<lparr>nodes := h\<rparr>)) })"

text \<open>
  \<open>~worker\<close>: without a thread to join the queue is cancelled at once; otherwise the pill is made and
  pushed, the thread joined, and what came behind the pill cancelled.
\<close>

definition worker_dtor_begin :: "addr \<Rightarrow> 'w pool_scheme \<Rightarrow> 'w pool_scheme" where
  "worker_dtor_begin pill s =
     (if \<not> pl_joinable s 0
      then (let (t, q) = tq_pop_all (pl_queues s 0) in set_stop (SFinal 0 t) (set_queue 0 q s))
      else s\<lparr>nodes := (nodes s)(pill \<mapsto> deadpill), pl_stop := SPush pill 0\<rparr>)"

definition worker_dtor_step ::
  "nat \<Rightarrow> 'w pool_scheme \<Rightarrow> (served option \<times> 'w pool_scheme) option" where
  "worker_dtor_step k s = (case pl_stop s of
      SPush pl _ \<Rightarrow> do {
        (q, h) \<leftarrow> tq_push k (pl_queues s 0) pl (nodes s);
        Some (None, set_stop (SJoin pl 0) (set_queue 0 q (s\<lparr>nodes := h\<rparr>))) }
    | SJoin pl _ \<Rightarrow> (let (t, q) = tq_pop_all (pl_queues s 0) in
        Some (None, set_stop (SCancel pl 0 t) (set_queue 0 q (join_thread 0 s))))
    | SCancel pl _ None \<Rightarrow> Some (None, set_stop SDone s)
    | SCancel pl _ (Some p) \<Rightarrow> do {
        (e, nxt, h) \<leftarrow> cancel_task p (nodes s);
        Some (Some e, set_stop (SCancel pl 0 nxt) (s\<lparr>nodes := h\<rparr>)) }
    | SFinal _ None \<Rightarrow> Some (None, set_stop SDone s)
    | SFinal _ (Some p) \<Rightarrow> do {
        (e, nxt, h) \<leftarrow> cancel_task p (nodes s);
        Some (Some e, set_stop (SFinal 0 nxt) (s\<lparr>nodes := h\<rparr>)) }
    | _ \<Rightarrow> Some (None, s))"

text \<open>
  Runs of a worker, as \<open>pool_reach\<close>. Nothing may be attached any more when the destructor has taken
  the rest of the queue.
\<close>

definition worker_finishing :: "'w pool_scheme \<Rightarrow> bool" where
  "worker_finishing s \<longleftrightarrow> (case pl_stop s of SCancel pl i t \<Rightarrow> True | SFinal i t \<Rightarrow> True | SDone \<Rightarrow> True | _ \<Rightarrow> False)"

type_synonym pushed = "nat \<Rightarrow> (addr \<times> handle option \<times> schedule_errc) list"

inductive worker_reach :: "pool \<Rightarrow> pushed \<Rightarrow> (nat \<Rightarrow> served list) \<Rightarrow> bool" where
  init: "worker_reach (worker_ctor h) (\<lambda>_. []) (\<lambda>_. [])"
| environment: "worker_reach s P L \<Longrightarrow> pool_lists s B Q \<Longrightarrow>
    (\<And>a. (\<exists>i. a \<in> set (B i @ Q i)) \<or> stop_pill (pl_stop s) = Some a \<Longrightarrow> h a = nodes s a) \<Longrightarrow>
    worker_reach (s\<lparr>nodes := h\<rparr>) P L"
| push_list: "worker_reach s P L \<Longrightarrow> pool_lists s B Q \<Longrightarrow> \<not> worker_finishing s \<Longrightarrow>
    node_list (nodes s) (Some f) as \<Longrightarrow> last as = l \<Longrightarrow>
    (\<And>a. a \<in> set as \<Longrightarrow> stop_pill (pl_stop s) \<noteq> Some a \<and> (\<forall>j. a \<notin> set (B j @ Q j))) \<Longrightarrow>
    tq_push_list k (pl_queues s 0) f l (nodes s) = Some (q, h) \<Longrightarrow>
    worker_reach (set_queue 0 q (s\<lparr>nodes := h\<rparr>)) (P(0 := P 0 @ map (entry (nodes s)) as)) L"
| attach: "worker_reach s P L \<Longrightarrow> pool_lists s B Q \<Longrightarrow> \<not> worker_finishing s \<Longrightarrow>
    stop_pill (pl_stop s) \<noteq> Some p \<Longrightarrow> (\<And>j. p \<notin> set (B j @ Q j)) \<Longrightarrow>
    worker_attach k p s = Some s' \<Longrightarrow>
    worker_reach s' (P(0 := P 0 @ [entry (nodes s) p])) L"
| work: "worker_reach s P L \<Longrightarrow> worker_enabled 0 s \<Longrightarrow> worker_step 0 s = Some (e, s') \<Longrightarrow>
    worker_reach s' P (log_served 0 e L)"
| spurious_wakeup: "worker_reach s P L \<Longrightarrow> t \<in> set (tq_waiting (pl_queues s 0)) \<Longrightarrow>
    worker_reach (set_queue 0 (cv_wake t (pl_queues s 0)) s) P L"
| dtor: "worker_reach s P L \<Longrightarrow> pool_lists s B Q \<Longrightarrow> pl_stop s = SIdle \<Longrightarrow>
    (\<And>j. pl \<notin> set (B j @ Q j)) \<Longrightarrow> worker_reach (worker_dtor_begin pl s) P L"
| dtor_push: "worker_reach s P L \<Longrightarrow> pl_stop s = SPush pl i \<Longrightarrow>
    worker_dtor_step k s = Some (e, s') \<Longrightarrow> worker_reach s' (P(0 := P 0 @ [entry (nodes s) pl])) L"
| dtor_step: "worker_reach s P L \<Longrightarrow> stop_enabled s \<Longrightarrow> (\<And>pl i. pl_stop s \<noteq> SPush pl i) \<Longrightarrow>
    worker_dtor_step k s = Some (e, s') \<Longrightarrow> worker_reach s' P (log_served 0 e L)"

section \<open>A worker is a pool of size one\<close>

definition worker_shape :: "pool \<Rightarrow> bool" where
  "worker_shape s \<longleftrightarrow> pl_size s = 1 \<and> (case pl_stop s of
      SIdle \<Rightarrow> pl_joinable s 0
    | SPush pl i \<Rightarrow> i = 0 \<and> pl_joinable s 0
    | SJoin pl i \<Rightarrow> i = 0
    | SCancel pl i t \<Rightarrow> i = 0 \<and> tq_first (pl_queues s 0) = None
    | SDone \<Rightarrow> tq_first (pl_queues s 0) = None
    | _ \<Rightarrow> False)"

lemma worker_ctor_pool: "worker_ctor h = pool_ctor 1 h"
  by (simp add: worker_ctor_def pool_ctor_def)

lemma tq_pop_all_empty: "tq_first q = None \<Longrightarrow> tq_pop_all q = (None, q)"
  by (cases q) (simp add: tq_pop_all_def)

lemma set_queue_same: "q = pl_queues s i \<Longrightarrow> set_queue i q s = s"
  by (cases s) (simp add: set_queue_def)

lemma pool_reach_stop:
  assumes "pool_reach s P L" and "stop_enabled s"
    and "\<And>pl i. pl_stop s = SPush pl i \<Longrightarrow> \<not> (i < pl_size s \<and> pl_joinable s i)"
    and "stop_step 0 s = Some (None, s')"
  shows "pool_reach s' P L"
  using pool_reach.stop[OF assms] by simp

text \<open>The last part of \<open>~thread_pool\<close>, which \<open>~worker\<close> does not have, changes nothing.\<close>

lemma set_stop_twice: "set_stop c (set_stop d s) = set_stop c s"
  by (simp add: set_stop_def)

lemma pool_final_loop:
  assumes r: "pool_reach s P L" and stop: "pl_stop s = SCancel pl 0 None" and sz: "pl_size s = 1"
    and e: "tq_first (pl_queues s 0) = None"
  shows "pool_reach (set_stop SDone s) P L"
proof -
  have 1: "pool_reach (set_stop (SPush pl 1) s) P L"
    by (rule pool_reach_stop[OF r]) (simp_all add: stop stop_enabled_def stop_step_def)
  have 2: "pool_reach (set_stop (SPop 0) s) P L"
    by (rule pool_reach_stop[OF 1]) (simp_all add: stop_enabled_def stop_step_def sz set_stop_twice)
  have 3: "pool_reach (set_stop (SFinal 0 None) s) P L"
    by (rule pool_reach_stop[OF 2])
      (simp_all add: stop_enabled_def stop_step_def sz e tq_pop_all_empty set_queue_same set_stop_twice)
  have 4: "pool_reach (set_stop (SPop 1) s) P L"
    by (rule pool_reach_stop[OF 3]) (simp_all add: stop_enabled_def stop_step_def sz set_stop_twice)
  show ?thesis
    by (rule pool_reach_stop[OF 4]) (simp_all add: stop_enabled_def stop_step_def sz set_stop_twice)
qed

text \<open>What the steps do to the shape.\<close>

lemma worker_shapeD: "worker_shape s \<Longrightarrow> pl_size s = 1"
  by (simp add: worker_shape_def)

lemma worker_shape_cong:
  assumes "worker_shape s" and "pl_size s' = pl_size s" and "pl_stop s' = pl_stop s" and "pl_joinable s' = pl_joinable s"
    and "tq_first (pl_queues s 0) = None \<Longrightarrow> tq_first (pl_queues s' 0) = None"
  shows "worker_shape s'"
  using assms by (auto simp: worker_shape_def split: stop_pc.splits)

lemma worker_shape_open:
  assumes "worker_shape s" and "pl_size s' = pl_size s" and "pl_stop s' = pl_stop s" and "pl_joinable s' = pl_joinable s"
    and "\<not> worker_finishing s"
  shows "worker_shape s'"
  using assms by (auto simp: worker_shape_def worker_finishing_def split: stop_pc.splits)

lemma worker_step_keeps:
  assumes "worker_step 0 s = Some (e, s')"
  shows "pl_size s' = pl_size s" "pl_stop s' = pl_stop s" "pl_joinable s' = pl_joinable s"
    "tq_first (pl_queues s 0) = None \<Longrightarrow> tq_first (pl_queues s' 0) = None"
  using assms
  by (auto simp: worker_step_def set_worker_def set_queue_def tq_pop_attempt_def tq_pop_all_def Let_def
      split: worker_pc.splits option.splits prod.splits bind_splits)

lemma not_worker_finishing: "worker_shape s \<Longrightarrow> \<not> worker_finishing s \<Longrightarrow> \<not> finishing s"
  by (auto simp: worker_shape_def worker_finishing_def finishing_def split: stop_pc.splits)

lemma worker_attach_pool: "pl_size s = 1 \<Longrightarrow> worker_attach k p s = pool_attach k p s"
  by (auto simp: worker_attach_def pool_attach_def queue_attach_def tq_attach_def select_queue_def next_of_def
      split: option.splits bind_splits)

lemma worker_attach_shape:
  assumes "worker_shape s" and "\<not> worker_finishing s" and "worker_attach k p s = Some s'"
  shows "worker_shape s'"
  using assms
  by (intro worker_shape_open[OF assms(1) _ _ _ assms(2)]) (auto simp: worker_attach_def split: if_splits bind_splits)

lemma worker_dtor_push_sim:
  assumes "worker_shape s" and "pl_stop s = SPush pl i"
  shows "i = 0" and "worker_dtor_step k s = map_option (map_prod (\<lambda>_. None) (\<lambda>x. x)) (stop_step k s)"
    and "worker_dtor_step k s = Some (e, s') \<Longrightarrow> worker_shape s'"
  using assms
  by (auto simp: worker_shape_def worker_dtor_step_def stop_step_def set_stop_def split: bind_splits)

lemma worker_dtor_step_sim:
  assumes r: "pool_reach s P L" and sh: "worker_shape s" and en: "stop_enabled s"
    and np: "\<And>pl i. pl_stop s \<noteq> SPush pl i" and st: "worker_dtor_step k s = Some (e, s')"
  shows "pool_reach s' P (log_served 0 e L) \<and> worker_shape s'"
proof (cases "pl_stop s")
  case (SJoin pl i)
  then have i: "i = 0" using sh by (simp add: worker_shape_def)
  let ?s1 = "set_stop (SCancel pl 0 (tq_first (pl_queues s 0)))
      (set_queue 0 ((pl_queues s 0)\<lparr>tq_first := None\<rparr>) (join_thread 0 s))"
  have "s' = ?s1" "e = None" using st SJoin by (simp_all add: worker_dtor_step_def tq_pop_all_def)
  moreover have "pool_reach ?s1 P L"
    by (rule pool_reach_stop[OF r en]) (simp_all add: SJoin i stop_step_def tq_pop_all_def)
  ultimately show ?thesis using sh by (simp add: worker_shape_def log_served_def)
next
  case (SCancel pl i t)
  then have i: "i = 0" and e0: "tq_first (pl_queues s 0) = None" using sh by (simp_all add: worker_shape_def)
  show ?thesis
  proof (cases t)
    case None
    then have "s' = set_stop SDone s" "e = None" using st SCancel by (simp_all add: worker_dtor_step_def)
    with pool_final_loop[OF r _ worker_shapeD[OF sh] e0, of pl] SCancel None i e0 sh show ?thesis
      by (simp add: worker_shape_def log_served_def)
  next
    case (Some p)
    with st SCancel obtain x nxt h where c: "cancel_task p (nodes s) = Some (x, nxt, h)" "e = Some x"
      "s' = set_stop (SCancel pl 0 nxt) (s\<lparr>nodes := h\<rparr>)"
      by (auto simp: worker_dtor_step_def split: bind_splits)
    have "pool_reach s' P (case Some (0, x) of None \<Rightarrow> L | Some (i, x) \<Rightarrow> log_served i (Some x) L)"
      by (rule pool_reach.stop[OF r en]) (use SCancel Some c i in \<open>simp_all add: stop_step_def\<close>)
    with c sh SCancel e0 show ?thesis by (simp add: worker_shape_def)
  qed
next
  case SDone
  with en show ?thesis by (simp add: stop_enabled_def)
next
  case SIdle
  with en show ?thesis by (simp add: stop_enabled_def)
qed (use sh np in \<open>simp_all add: worker_shape_def\<close>)

lemma worker_sim: "worker_reach s P L \<Longrightarrow> pool_reach s P L \<and> worker_shape s"
proof (induction s P L rule: worker_reach.induct)
  case (init h)
  then show ?case using pool_reach.init[of 1 h]
    by (simp add: worker_ctor_pool) (simp add: worker_shape_def pool_ctor_def)
next
  case (environment s P L B Q h)
  with pool_reach.environment[of s P L B Q h] show ?case
    by (auto intro: worker_shape_cong[where s = s])
next
  case (push_list s P L B Q f as l k q h)
  with pool_reach.push_list[of s P L B Q 0 f as l k q h] show ?case
    using worker_shape_open[of s "set_queue 0 q (s\<lparr>nodes := h\<rparr>)"] not_worker_finishing[of s] worker_shapeD[of s]
    by (auto simp del: fun_upd_apply)
next
  case (attach s P L B Q p k s')
  have sz: "pl_size s = 1" using attach.IH worker_shapeD by blast
  have "pool_attach k p s = Some s'" using attach worker_attach_pool[OF sz] by simp
  with attach pool_reach.attach[of s P L B Q p k s' 0] sz show ?case
    using worker_attach_shape[of s k p s'] not_worker_finishing[of s]
    by (simp add: select_queue_def del: fun_upd_apply)
next
  case (work s P L e s')
  then show ?case
    using pool_reach.work[of s P L 0 e s'] worker_shape_cong[of s s'] worker_step_keeps[of s e s'] by blast
next
  case (spurious_wakeup s P L t)
  then show ?case
    using pool_reach.spurious_wakeup[of s P L t 0]
      worker_shape_cong[of s "set_queue 0 (cv_wake t (pl_queues s 0)) s"] by (simp add: cv_wake_def)
next
  case (dtor s P L B Q pl)
  then have j: "pl_joinable s 0" by (simp add: worker_shape_def)
  then have "worker_dtor_begin pl s = pool_dtor_begin pl s"
    by (simp add: worker_dtor_begin_def pool_dtor_begin_def)
  with dtor pool_reach.dtor[of s P L B Q pl] j show ?case
    by (simp add: worker_shape_def pool_dtor_begin_def)
next
  case (dtor_push s P L pl i k e s')
  note sim = worker_dtor_push_sim[OF conjunct2[OF dtor_push.IH] dtor_push.hyps(2)]
  from sim(2)[of k] dtor_push.hyps(3) obtain x where "stop_step k s = Some (x, s')"
    by (cases "stop_step k s") auto
  with dtor_push sim(1) pool_reach.stop_push[of s P L pl i k x s'] sim(3)[of k e s'] show ?case
    by (auto simp: worker_shape_def simp del: fun_upd_apply)
next
  case (dtor_step s P L k e s')
  then show ?case using worker_dtor_step_sim[of s P L k e s'] by blast
qed

text \<open>
  C23. Every run of a \<open>worker\<close> is a run of a thread pool with one thread: its shorter destructor, which
  stops after cancelling what came behind the pill, ends in the same state as the destructor of the
  pool. So everything proved about pools holds for workers; when \<open>~worker\<close> is done, every node that was
  ever attached has been served exactly once and in order, and the thread has returned.
\<close>

theorem worker_refines_pool:
  assumes "worker_reach s P L"
  shows "pool_reach s P L
     \<and> (pl_stop s = SDone \<longrightarrow> list_all2 served_as (P 0) (L 0) \<and> pl_pcs s 0 = WExit)"
  using worker_sim[OF assms] pool_stopped_served[of s P L 0] worker_shapeD[of s] by auto

text \<open>A worker that runs the task of node 5 and is destroyed with its pill at address 6.\<close>

lemma worker_attached:
  "worker_reach \<lparr>nodes = [5 \<mapsto> \<lparr>nd_next = None, nd_task = Some 9, nd_status = ok\<rparr>],
     pl_size = 1, pl_queues = (\<lambda>_. task_queue_init)(0 := a_queue (Some 5) 5), pl_pcs = (\<lambda>_. WPop),
     pl_joinable = (\<lambda>_. False)(0 := True), pl_stop = SIdle\<rparr> ((\<lambda>_. [])(0 := [(5, Some 9, ok)])) (\<lambda>_. [])"
proof -
  let ?h = "[5 \<mapsto> \<lparr>nd_next = None, nd_task = Some 9, nd_status = ok\<rparr>] :: node_heap"
  have i: "worker_reach (worker_ctor ?h) (\<lambda>_. []) (\<lambda>_. [])" by (rule worker_reach.init)
  have "pool_lists (worker_ctor ?h) (\<lambda>_. []) (\<lambda>_. [])"
    by (simp add: pool_lists_def worker_ctor_def cur_list_def)
  from worker_reach.attach[OF i this]
  have r: "worker_attach 0 5 (worker_ctor ?h) = Some s' \<Longrightarrow>
      worker_reach s' ((\<lambda>_. [])(0 := [(5, Some 9, ok)])) (\<lambda>_. [])" for s'
    by (fastforce simp: worker_ctor_def worker_finishing_def stop_pill_def entry_def)
  show ?thesis
    by (rule r) (simp add: worker_ctor_def worker_attach_def tq_push_def tq_push_list_def
        task_queue_init_def notify_one_def set_queue_def a_queue_def fun_eq_iff)
qed

lemma worker_joining:
  "worker_reach (one_worker (a_queue (Some 5) 6) WPop True (SJoin 6 0)) pushed_run (\<lambda>_. [])"
proof -
  let ?s = "\<lparr>nodes = [5 \<mapsto> \<lparr>nd_next = None, nd_task = Some 9, nd_status = ok\<rparr>],
     pl_size = 1, pl_queues = (\<lambda>_. task_queue_init)(0 := a_queue (Some 5) 5), pl_pcs = (\<lambda>_. WPop),
     pl_joinable = (\<lambda>_. False)(0 := True), pl_stop = SIdle\<rparr>"
  have "pool_lists ?s (\<lambda>_. []) ((\<lambda>_. [])(0 := [5]))"
    by (simp add: pool_lists_def cur_list_def tq_holds_def a_queue_def task_queue_init_def)
  from worker_reach.dtor[OF worker_attached this, of 6]
  have d: "worker_reach (worker_dtor_begin 6 ?s) ((\<lambda>_. [])(0 := [(5, Some 9, ok)])) (\<lambda>_. [])" by simp
  have s: "worker_dtor_step 0 (worker_dtor_begin 6 ?s) = Some (None, one_worker (a_queue (Some 5) 6) WPop True (SJoin 6 0))"
    by (simp add: worker_dtor_step_def worker_dtor_begin_def tq_push_def tq_push_list_def a_queue_def one_worker_def
        set_stop_def set_queue_def deadpill_def task_node_init_def fun_eq_iff)
  from worker_reach.dtor_push[OF d, where pl = 6 and i = 0 and k = 0 and e = None, OF _ s]
  show ?thesis
    by (simp add: pushed_run_def entry_def worker_dtor_begin_def deadpill_def task_node_init_def)
qed

lemma log_served_None: "log_served i None L = L"
  by (simp add: log_served_def)

lemma log_served_Some: "log_served i (Some x) L = L(i := L i @ [x])"
  by (simp add: log_served_def)

lemma worker_run_work:
  assumes "worker_reach (one_worker q c j z) pushed_run L" "c \<noteq> WExit" "tq_waiting q = []"
    "worker_step 0 (one_worker q c j z) = Some (e, s')" "L' = log_served 0 e L"
  shows "worker_reach s' pushed_run L'"
  unfolding assms(5)
  by (rule worker_reach.work[OF assms(1) _ assms(4)])
    (use assms(2,3) in \<open>simp add: worker_enabled_def one_worker_def\<close>)

lemma worker_run_dtor:
  assumes "worker_reach (one_worker q c j z) pushed_run L" "stop_enabled (one_worker q c j z)"
    "\<And>pl i. z \<noteq> SPush pl i" "worker_dtor_step 0 (one_worker q c j z) = Some (None, s')"
  shows "worker_reach s' pushed_run L"
  using worker_reach.dtor_step[OF assms(1,2) _ assms(4)] assms(3) by (simp add: one_worker_def log_served_def)

lemma worker_stopped:
  "worker_reach (one_worker (a_queue None 6) WExit False SDone) pushed_run served_run"
proof -
  let ?L = "(\<lambda>_. [])(0 := [Run 5 (Some 9) ok])"
  have 1: "worker_reach (one_worker (a_queue None 6) (WBatch 5) True (SJoin 6 0)) pushed_run (\<lambda>_. [])"
    by (rule worker_run_work[OF worker_joining _ _ _ log_served_None[symmetric]]) (simp_all add: one_worker_simps fun_eq_iff)
  have 2: "worker_reach (one_worker (a_queue None 6) (WBatch 6) True (SJoin 6 0)) pushed_run ?L"
    by (rule worker_run_work[OF 1 _ _ _ log_served_Some[symmetric, THEN trans[rotated]]]) (simp_all add: one_worker_simps fun_eq_iff)
  have 3: "worker_reach (one_worker (a_queue None 6) (WCancel None) True (SJoin 6 0)) pushed_run served_run"
    by (rule worker_run_work[OF 2 _ _ _ log_served_Some[symmetric, THEN trans[rotated]]]) (simp_all add: one_worker_simps fun_eq_iff)
  have 4: "worker_reach (one_worker (a_queue None 6) WExit True (SJoin 6 0)) pushed_run served_run"
    by (rule worker_run_work[OF 3 _ _ _ log_served_None[symmetric]]) (simp_all add: one_worker_simps fun_eq_iff)
  have 5: "worker_reach (one_worker (a_queue None 6) WExit False (SCancel 6 0 None)) pushed_run served_run"
    by (rule worker_run_dtor[OF 4]) (simp_all add: one_worker_simps worker_dtor_step_def fun_eq_iff)
  show ?thesis by (rule worker_run_dtor[OF 5]) (simp_all add: one_worker_simps worker_dtor_step_def fun_eq_iff)
qed

theorem worker_refines_pool_witness:
  "pool_reach (one_worker (a_queue None 6) WExit False SDone) pushed_run served_run
     \<and> list_all2 served_as (pushed_run 0) (served_run 0)"
  using worker_refines_pool[OF worker_stopped] by (simp add: one_worker_def)

section \<open>The constructor of the pool\<close>

text \<open>
  \<open>CStart i\<close>: before \<open>threads[i] = std::thread(...)\<close>; \<open>CRollback pl i\<close>: in the guard of the
  constructor after an exception, before the iteration \<open>i\<close>, with the pill at address \<open>pl\<close>; \<open>CJoin\<close>: in
  its \<open>join\<close>; \<open>CBuilt\<close> and \<open>CThrown\<close>: the constructor has returned or is left by the exception.
\<close>

datatype ctor_pc = CStart nat | CRollback addr nat | CJoin addr nat | CBuilt | CThrown

text \<open>
  The arrays of queues and threads exist; no thread has been started: \<open>WExit\<close> stands for no running
  thread function. Indices beyond the arrays do not matter; they are as in \<open>pool_ctor\<close>.
\<close>

definition ctor_begin :: "nat \<Rightarrow> node_heap \<Rightarrow> ctor_pc \<times> pool" where
  "ctor_begin thread_count h = (CStart 0,
     \<lparr>nodes = h, pl_size = max 1 thread_count, pl_queues = (\<lambda>_. task_queue_init),
      pl_pcs = (\<lambda>j. if j < max 1 thread_count then WExit else WPop),
      pl_joinable = (\<lambda>_. False), pl_stop = SIdle\<rparr>)"

definition start_thread :: "nat \<Rightarrow> 'w pool_scheme \<Rightarrow> 'w pool_scheme" where
  "start_thread i s = s\<lparr>pl_pcs := (pl_pcs s)(i := WPop), pl_joinable := (pl_joinable s)(i := True)\<rparr>"

definition ctor_step :: "nat \<Rightarrow> bool \<Rightarrow> addr \<Rightarrow> ctor_pc \<times> 'w pool_scheme \<Rightarrow> (ctor_pc \<times> 'w pool_scheme) option" where
  "ctor_step k thread_throws pill = (\<lambda>(c, s). case c of
      CStart i \<Rightarrow>
        if i < pl_size s then
          (if thread_throws then Some (CRollback pill 0, s\<lparr>nodes := (nodes s)(pill \<mapsto> deadpill)\<rparr>)
           else Some (CStart (Suc i), start_thread i s))
        else Some (CBuilt, s)
    | CRollback pl i \<Rightarrow>
        if i < pl_size s then
          (if \<not> pl_joinable s i then Some (CThrown, s)
           else do {
             (q, h) \<leftarrow> tq_push k (pl_queues s i) pl (nodes s);
             Some (CJoin pl i, set_queue i q (s\<lparr>nodes := h\<rparr>)) })
        else Some (CThrown, s)
    | CJoin pl i \<Rightarrow> Some (CRollback pl (Suc i), join_thread i s)
    | _ \<Rightarrow> Some (c, s))"

definition ctor_enabled :: "ctor_pc \<times> 'w pool_scheme \<Rightarrow> bool" where
  "ctor_enabled = (\<lambda>(c, s). case c of
      CJoin pl i \<Rightarrow> pl_pcs s i = WExit
    | CBuilt \<Rightarrow> False
    | CThrown \<Rightarrow> False
    | _ \<Rightarrow> True)"

text \<open>
  The constructor and the threads it has started, interleaved; other threads do not know the pool yet
  and may change all nodes but the pill. The pill of the guard is a new object.
\<close>

definition ctor_pill :: "ctor_pc \<Rightarrow> addr option" where
  "ctor_pill c = (case c of CRollback pl i \<Rightarrow> Some pl | CJoin pl i \<Rightarrow> Some pl | _ \<Rightarrow> None)"

inductive ctor_reach :: "nat \<Rightarrow> ctor_pc \<times> pool \<Rightarrow> bool" for thread_count where
  init: "ctor_reach thread_count (ctor_begin thread_count h)"
| environment: "ctor_reach thread_count (c, s) \<Longrightarrow> (\<And>a. ctor_pill c = Some a \<Longrightarrow> h a = nodes s a) \<Longrightarrow>
    ctor_reach thread_count (c, s\<lparr>nodes := h\<rparr>)"
| step: "ctor_reach thread_count cs \<Longrightarrow> ctor_enabled cs \<Longrightarrow> ctor_step k thread_throws pill cs = Some cs' \<Longrightarrow>
    ctor_reach thread_count cs'"
| work: "ctor_reach thread_count (c, s) \<Longrightarrow> worker_enabled i s \<Longrightarrow> worker_step i s = Some (e, s') \<Longrightarrow>
    ctor_reach thread_count (c, s')"
| spurious_wakeup: "ctor_reach thread_count (c, s) \<Longrightarrow> t \<in> set (tq_waiting (pl_queues s i)) \<Longrightarrow>
    ctor_reach thread_count (c, set_queue i (cv_wake t (pl_queues s i)) s)"

section \<open>The constructor builds a pool or takes everything back\<close>

text \<open>
  The pool as the abstract steps see it, when the first \<open>m\<close> threads have been started: the other ones
  have not done anything yet, and the error path is a destructor.
\<close>

definition ctor_stop :: "ctor_pc \<Rightarrow> stop_pc" where
  "ctor_stop c = (case c of CRollback pl i \<Rightarrow> SPush pl i | CJoin pl i \<Rightarrow> SJoin pl i | _ \<Rightarrow> SIdle)"

definition ctor_view :: "nat \<Rightarrow> ctor_pc \<Rightarrow> pool \<Rightarrow> pool" where
  "ctor_view m c s = s\<lparr>pl_pcs := (\<lambda>j. if j < m then pl_pcs s j else WPop),
     pl_joinable := (\<lambda>j. if j < m then pl_joinable s j else j < pl_size s), pl_stop := ctor_stop c\<rparr>"

definition thread_gone :: "nat \<Rightarrow> pool \<Rightarrow> bool" where
  "thread_gone j s \<longleftrightarrow> \<not> pl_joinable s j \<and> pl_pcs s j = WExit \<and> tq_first (pl_queues s j) = None"

definition ctor_at :: "nat \<Rightarrow> ctor_pc \<Rightarrow> pool \<Rightarrow> pushed \<Rightarrow> bool" where
  "ctor_at m c s P \<longleftrightarrow> (case c of
      CStart i \<Rightarrow> m = i \<and> (\<forall>j<m. pl_joinable s j) \<and> P = (\<lambda>_. [])
    | CBuilt \<Rightarrow> m = pl_size s \<and> (\<forall>j<m. pl_joinable s j) \<and> P = (\<lambda>_. [])
    | CRollback pl i \<Rightarrow> i \<le> m \<and> (\<forall>j<i. thread_gone j s) \<and> (\<forall>j. i \<le> j \<and> j < m \<longrightarrow> pl_joinable s j)
        \<and> (\<forall>j\<ge>i. P j = [])
    | CJoin pl i \<Rightarrow> i < m \<and> (\<forall>j<i. thread_gone j s) \<and> (\<forall>j. i \<le> j \<and> j < m \<longrightarrow> pl_joinable s j)
        \<and> (\<forall>j>i. P j = []) \<and> length (P i) = 1
    | CThrown \<Rightarrow> False)"

definition building :: "nat \<Rightarrow> ctor_pc \<Rightarrow> pool \<Rightarrow> pushed \<Rightarrow> (nat \<Rightarrow> served list) \<Rightarrow> bool" where
  "building m c s P L \<longleftrightarrow> m \<le> pl_size s \<and> pl_stop s = SIdle
     \<and> (\<forall>j\<ge>m. pl_pcs s j = (if j < pl_size s then WExit else WPop) \<and> \<not> pl_joinable s j \<and> pl_queues s j = task_queue_init)
     \<and> pool_reach (ctor_view m c s) P L \<and> ctor_at m c s P
     \<and> (\<forall>j. \<forall>x\<in>set (P j). ctor_pill c = Some (fst x))"

definition ctor_inv :: "nat \<Rightarrow> ctor_pc \<Rightarrow> pool \<Rightarrow> bool" where
  "ctor_inv thread_count c s \<longleftrightarrow> pl_size s = max 1 thread_count \<and>
     (if c = CThrown then \<forall>j<pl_size s. thread_gone j s else \<exists>m P L. building m c s P L)"

lemma pool_reach_held:
  assumes "pool_reach s P L"
  shows "\<exists>B Q. pool_lists s B Q \<and> (\<forall>i. set (B i @ Q i) \<subseteq> fst ` set (P i))"
proof -
  from pool_reach_inv[OF assms] obtain B Q where l: "lanes s P L B Q" by (auto simp: pool_inv_def)
  have "a \<in> fst ` set (P i)" if "a \<in> set (B i @ Q i)" for i a
  proof -
    from lanesD(1)[OF l, of i] obtain pre where "P i = pre @ map (entry (nodes s)) (B i @ Q i)"
      by (auto simp: lane_def history_def)
    with that have "entry (nodes s) a \<in> set (P i)" by auto
    then show ?thesis by (rule rev_image_eqI) (simp add: entry_def)
  qed
  with lanes_lists[OF l] show ?thesis by blast
qed

lemma pool_reach_unserved:
  assumes "pool_reach s P L" and "P i = []"
  shows "L i = []"
proof -
  from pool_reach_inv[OF assms(1)] obtain B Q where "lanes s P L B Q" by (auto simp: pool_inv_def)
  from lanesD(1)[OF this, of i] assms(2) show ?thesis by (auto simp: lane_def history_def)
qed

lemma pool_reach_exit_empty:
  assumes "pool_reach s P L" and "length (P i) = 1" and "pl_pcs s i = WExit"
  shows "tq_first (pl_queues s i) = None"
proof -
  from pool_reach_inv[OF assms(1)] obtain B Q where "lanes s P L B Q" by (auto simp: pool_inv_def)
  from lanesD(1)[OF this, of i] obtain pre where P: "P i = pre @ map (entry (nodes s)) (B i @ Q i)"
    and pre: "list_all2 served_as pre (L i)" and sh: "log_shape WExit (L i)" and h: "tq_holds (pl_queues s i) (nodes s) (Q i)"
    using assms(3) by (auto simp: lane_def history_def)
  from sh have "L i \<noteq> []" by (auto simp: log_shape_def stopped_log_def)
  with pre have "pre \<noteq> []" by auto
  with P assms(2) have "Q i = []" by (cases pre) auto
  with h show ?thesis by (simp add: tq_holds_def)
qed

lemma worker_step_frame:
  assumes "worker_step i s = Some (e, s')"
  shows "pl_size s' = pl_size s" "pl_stop s' = pl_stop s" "pl_joinable s' = pl_joinable s"
    "j \<noteq> i \<Longrightarrow> pl_pcs s' j = pl_pcs s j" "j \<noteq> i \<Longrightarrow> pl_queues s' j = pl_queues s j"
  using assms
  by (auto simp: worker_step_def set_worker_def set_queue_def split: worker_pc.splits option.splits prod.splits bind_splits)

lemma ctor_view_work:
  assumes "i < m" and "worker_step i s = Some (e, s')"
  shows "worker_step i (ctor_view m c s) = Some (e, ctor_view m c s')"
  using assms
  by (cases "pl_pcs s i")
    (auto simp: worker_step_def ctor_view_def set_worker_def set_queue_def fun_eq_iff
      split: option.splits prod.splits bind_splits)

lemma thread_gone_work:
  assumes "worker_enabled i s" and "worker_step i s = Some (e, s')" and "thread_gone j s"
  shows "thread_gone j s'"
proof -
  have "j \<noteq> i" using assms(1,3) by (auto simp: worker_enabled_def thread_gone_def)
  with assms(3) worker_step_frame[OF assms(2)] show ?thesis by (simp add: thread_gone_def)
qed

lemma ctor_at_cong:
  assumes "ctor_at m c s P" and "pl_size s' = pl_size s" and "pl_joinable s' = pl_joinable s"
    and "\<And>j. thread_gone j s \<Longrightarrow> thread_gone j s'"
  shows "ctor_at m c s' P"
  using assms by (cases c) (auto simp: ctor_at_def)

lemma building_work:
  assumes b: "building m c s P L" and en: "worker_enabled i s" and st: "worker_step i s = Some (e, s')"
  shows "building m c s' P (log_served i e L)"
proof -
  note fr = worker_step_frame[OF st]
  have im: "i < m" using b en by (auto simp: building_def worker_enabled_def not_less[symmetric])
  have "worker_enabled i (ctor_view m c s)" using en im by (simp add: worker_enabled_def ctor_view_def)
  with b ctor_view_work[OF im st, of c] have "pool_reach (ctor_view m c s') P (log_served i e L)"
    using pool_reach.work[of "ctor_view m c s" P L i e "ctor_view m c s'"] by (simp add: building_def)
  moreover have "ctor_at m c s' P"
    by (rule ctor_at_cong[where s = s]) (use b fr thread_gone_work[OF en st] in \<open>auto simp: building_def\<close>)
  moreover have "j \<noteq> i" if "m \<le> j" for j using that im by simp
  ultimately show ?thesis using b fr unfolding building_def by simp
qed

lemma building_environment:
  assumes b: "building m c s P L" and h: "\<And>a. ctor_pill c = Some a \<Longrightarrow> h a = nodes s a"
  shows "building m c (s\<lparr>nodes := h\<rparr>) P L"
proof -
  have r: "pool_reach (ctor_view m c s) P L" using b by (simp add: building_def)
  from pool_reach_held[OF r] obtain B Q where l: "pool_lists (ctor_view m c s) B Q"
    "\<And>i. set (B i @ Q i) \<subseteq> fst ` set (P i)" by blast
  have pill: "stop_pill (pl_stop (ctor_view m c s)) = ctor_pill c"
    by (cases c) (simp_all add: ctor_view_def ctor_stop_def ctor_pill_def stop_pill_def)
  have "pool_reach ((ctor_view m c s)\<lparr>nodes := h\<rparr>) P L"
  proof (rule pool_reach.environment[OF r l(1)])
    fix a assume "(\<exists>i. a \<in> set (B i @ Q i)) \<or> stop_pill (pl_stop (ctor_view m c s)) = Some a"
    then have "ctor_pill c = Some a"
    proof
      assume "\<exists>i. a \<in> set (B i @ Q i)"
      then obtain i where "a \<in> fst ` set (P i)" using l(2) by blast
      then show ?thesis using b by (auto simp: building_def)
    qed (simp add: pill)
    then show "h a = nodes (ctor_view m c s) a" using h by (simp add: ctor_view_def)
  qed
  moreover have "(ctor_view m c s)\<lparr>nodes := h\<rparr> = ctor_view m c (s\<lparr>nodes := h\<rparr>)"
    by (simp add: ctor_view_def cong: if_cong)
  moreover have "ctor_at m c (s\<lparr>nodes := h\<rparr>) P"
    by (rule ctor_at_cong[where s = s]) (use b in \<open>auto simp: building_def thread_gone_def\<close>)
  ultimately show ?thesis using b by (simp add: building_def)
qed

lemma building_wakeup:
  assumes b: "building m c s P L" and t: "t \<in> set (tq_waiting (pl_queues s i))"
  shows "building m c (set_queue i (cv_wake t (pl_queues s i)) s) P L"
proof -
  let ?q = "cv_wake t (pl_queues s i)"
  have im: "i < m" using b t by (auto simp: building_def task_queue_init_def not_less[symmetric])
  have "pool_reach (set_queue i (cv_wake t (pl_queues (ctor_view m c s) i)) (ctor_view m c s)) P L"
    by (rule pool_reach.spurious_wakeup) (use b t in \<open>simp_all add: building_def ctor_view_def\<close>)
  moreover have "set_queue i (cv_wake t (pl_queues (ctor_view m c s) i)) (ctor_view m c s) = ctor_view m c (set_queue i ?q s)"
    by (simp add: ctor_view_def set_queue_def cong: if_cong)
  moreover have "ctor_at m c (set_queue i ?q s) P"
    by (rule ctor_at_cong[where s = s]) (use b in \<open>auto simp: building_def thread_gone_def cv_wake_def\<close>)
  moreover have "j \<noteq> i" if "m \<le> j" for j using that im by simp
  ultimately show ?thesis using b by (simp add: building_def)
qed

lemma building_start:
  assumes b: "building m (CStart i) s P L" and i: "i < pl_size s"
  shows "building (Suc m) (CStart (Suc i)) (start_thread i s) P L"
proof -
  have m: "m = i" using b by (simp add: building_def ctor_at_def)
  have "ctor_view (Suc m) (CStart (Suc i)) (start_thread i s) = ctor_view m (CStart i) s"
    using i by (auto simp: ctor_view_def ctor_stop_def start_thread_def m fun_eq_iff less_Suc_eq)
  then show ?thesis using b i
    by (auto simp: building_def ctor_at_def m less_Suc_eq) (simp_all add: start_thread_def)
qed

lemma building_built:
  assumes b: "building m (CStart i) s P L" and i: "\<not> i < pl_size s"
  shows "building m CBuilt s P L"
proof -
  have "ctor_view m CBuilt s = ctor_view m (CStart i) s" by (simp add: ctor_view_def ctor_stop_def)
  with assms show ?thesis by (auto simp: building_def ctor_at_def)
qed

lemma building_fail:
  assumes b: "building m (CStart i) s P L"
  shows "building m (CRollback pl 0) (s\<lparr>nodes := (nodes s)(pl \<mapsto> deadpill)\<rparr>) P L"
proof -
  have P: "P = (\<lambda>_. [])" and r: "pool_reach (ctor_view m (CStart i) s) P L"
    using b by (auto simp: building_def ctor_at_def)
  from pool_reach_held[OF r] obtain B Q where l: "pool_lists (ctor_view m (CStart i) s) B Q"
    "\<And>i. set (B i @ Q i) \<subseteq> fst ` set (P i)" by blast
  have "pl \<notin> set (B j @ Q j)" for j using l(2)[of j] by (auto simp: P)
  from pool_reach.dtor[OF r l(1) _ this]
  have "pool_reach (pool_dtor_begin pl (ctor_view m (CStart i) s)) P L" by (simp add: ctor_view_def ctor_stop_def)
  moreover have "pool_dtor_begin pl (ctor_view m (CStart i) s)
      = ctor_view m (CRollback pl 0) (s\<lparr>nodes := (nodes s)(pl \<mapsto> deadpill)\<rparr>)"
    by (simp add: pool_dtor_begin_def ctor_view_def ctor_stop_def cong: if_cong)
  ultimately show ?thesis using b by (simp add: building_def ctor_at_def P)
qed

lemma building_rollback:
  assumes b: "building m (CRollback pl i) s P L" and i: "pl_joinable s i"
    and q: "tq_push k (pl_queues s i) pl (nodes s) = Some (q, h)"
  shows "building m (CJoin pl i) (set_queue i q (s\<lparr>nodes := h\<rparr>)) (P(i := P i @ [entry (nodes s) pl])) L"
proof -
  let ?v = "ctor_view m (CRollback pl i) s"
  have im: "i < m" using b i by (auto simp: building_def not_less[symmetric])
  then have isz: "i < pl_size s" using b by (simp add: building_def)
  have v: "pl_stop ?v = SPush pl i" "i < pl_size ?v" "pl_joinable ?v i" "nodes ?v = nodes s"
    using im isz i by (simp_all add: ctor_view_def ctor_stop_def)
  have "stop_step k ?v = Some (None, ctor_view m (CJoin pl i) (set_queue i q (s\<lparr>nodes := h\<rparr>)))"
    using im isz i q by (simp add: stop_step_def ctor_view_def ctor_stop_def set_stop_def set_queue_def cong: if_cong)
  from pool_reach.stop_push[OF _ v(1,2,3) this] b
  have "pool_reach (ctor_view m (CJoin pl i) (set_queue i q (s\<lparr>nodes := h\<rparr>))) (P(i := P i @ [entry (nodes s) pl])) L"
    by (simp add: building_def v(4))
  moreover have "ctor_at m (CJoin pl i) (set_queue i q (s\<lparr>nodes := h\<rparr>)) (P(i := P i @ [entry (nodes s) pl]))"
    using b im by (auto simp: building_def ctor_at_def thread_gone_def)
  moreover have "j \<noteq> i" if "m \<le> j" for j using that im by simp
  ultimately show ?thesis using b by (auto simp: building_def ctor_pill_def entry_def)
qed

lemma building_join:
  assumes b: "building m (CJoin pl i) s P L" and ex: "pl_pcs s i = WExit"
  shows "building m (CRollback pl (Suc i)) (join_thread i s) P L"
proof -
  let ?v = "ctor_view m (CJoin pl i) s"
  have r: "pool_reach ?v P L" and im: "i < m" and one: "length (P i) = 1"
    using b by (simp_all add: building_def ctor_at_def)
  have e: "tq_first (pl_queues s i) = None"
    using pool_reach_exit_empty[OF r one] ex im by (simp add: ctor_view_def)
  have "pool_reach (set_stop (SCancel pl i None) (join_thread i ?v)) P L"
    by (rule pool_reach_stop[OF r])
      (use ex im e in \<open>simp_all add: ctor_view_def ctor_stop_def stop_enabled_def stop_step_def
        tq_pop_all_empty set_queue_same join_thread_def\<close>)
  then have "pool_reach (set_stop (SPush pl (Suc i)) (join_thread i ?v)) P L"
    by (rule pool_reach_stop) (simp_all add: stop_enabled_def stop_step_def set_stop_twice)
  moreover have "set_stop (SPush pl (Suc i)) (join_thread i ?v) = ctor_view m (CRollback pl (Suc i)) (join_thread i s)"
    using im by (auto simp: ctor_view_def ctor_stop_def set_stop_def join_thread_def fun_eq_iff)
  moreover have "ctor_at m (CRollback pl (Suc i)) (join_thread i s) P"
    using b im e ex by (auto simp: building_def ctor_at_def thread_gone_def less_Suc_eq)
  ultimately show ?thesis using b im by (auto simp: building_def ctor_pill_def)
qed

text \<open>The loop of the guard stops at the first thread that was not started.\<close>

lemma building_thrown:
  assumes b: "building m (CRollback pl i) s P L" and i: "\<not> pl_joinable s i" and j: "j < pl_size s"
  shows "thread_gone j s"
proof -
  have mi: "m \<le> i" using b i by (auto simp: building_def ctor_at_def not_less[symmetric])
  show ?thesis
  proof (cases "j < m")
    case True
    with b mi show ?thesis by (simp add: building_def ctor_at_def)
  next
    case False
    with b j show ?thesis by (simp add: building_def thread_gone_def task_queue_init_def)
  qed
qed

lemma building_inv: "building m c s P L \<Longrightarrow> c \<noteq> CThrown \<Longrightarrow> pl_size s = max 1 n \<Longrightarrow> ctor_inv n c s"
  by (auto simp: ctor_inv_def)

lemma ctor_inv_step:
  assumes inv: "ctor_inv n c s" and en: "ctor_enabled (c, s)" and st: "ctor_step k thread_throws pill (c, s) = Some (c', s')"
  shows "ctor_inv n c' s'"
proof -
  have "c \<noteq> CThrown" using en by (auto simp: ctor_enabled_def)
  with inv obtain m P L where b: "building m c s P L" and sz: "pl_size s = max 1 n" by (auto simp: ctor_inv_def)
  show ?thesis
  proof (cases c)
    case (CStart i)
    show ?thesis
    proof (cases "i < pl_size s")
      case True
      with st CStart have "c' = CRollback pill 0 \<and> s' = s\<lparr>nodes := (nodes s)(pill \<mapsto> deadpill)\<rparr>
          \<or> c' = CStart (Suc i) \<and> s' = start_thread i s" by (auto simp: ctor_step_def split: if_splits)
      with building_fail[of m i s P L pill] building_start[of m i s P L, OF _ True] b CStart sz show ?thesis
        by (auto intro!: building_inv simp: start_thread_def simp del: fun_upd_apply)
    next
      case False
      with st CStart have "c' = CBuilt" "s' = s" by (auto simp: ctor_step_def)
      with building_built[of m i s P L, OF _ False] b CStart sz show ?thesis by (auto intro: building_inv)
    qed
  next
    case (CRollback pl i)
    show ?thesis
    proof (cases "i < pl_size s \<and> pl_joinable s i")
      case True
      with st CRollback obtain q h where q: "tq_push k (pl_queues s i) pl (nodes s) = Some (q, h)"
        "c' = CJoin pl i" "s' = set_queue i q (s\<lparr>nodes := h\<rparr>)" by (auto simp: ctor_step_def split: bind_splits)
      with building_rollback[of m pl i s P L, OF _ _ q(1)] b CRollback True sz show ?thesis
        by (auto intro: building_inv)
    next
      case False
      have "\<not> pl_joinable s i" using False b by (auto simp: building_def)
      with building_thrown[of m pl i s P L] b CRollback have "\<forall>j<pl_size s. thread_gone j s" by blast
      moreover have "c' = CThrown" "s' = s" using st CRollback False by (auto simp: ctor_step_def split: if_splits)
      ultimately show ?thesis using sz by (simp add: ctor_inv_def)
    qed
  next
    case (CJoin pl i)
    with st en have "c' = CRollback pl (Suc i)" "s' = join_thread i s" "pl_pcs s i = WExit"
      by (auto simp: ctor_step_def ctor_enabled_def)
    with building_join[of m pl i s P L] b CJoin sz show ?thesis by (auto intro: building_inv)
  qed (use en in \<open>simp_all add: ctor_enabled_def\<close>)
qed

lemma ctor_begin_inv: "ctor_inv n (fst (ctor_begin n h)) (snd (ctor_begin n h))"
proof -
  let ?s = "snd (ctor_begin n h)"
  have "ctor_view 0 (CStart 0) ?s = pool_ctor n h"
    by (simp add: ctor_view_def ctor_stop_def ctor_begin_def pool_ctor_def Let_def)
  then have "building 0 (CStart 0) ?s (\<lambda>_. []) (\<lambda>_. [])"
    using pool_reach.init[of n h] by (simp add: building_def ctor_at_def ctor_begin_def)
  then show ?thesis by (intro building_inv) (auto simp: ctor_begin_def)
qed

lemma ctor_reach_inv: "ctor_reach n cs \<Longrightarrow> ctor_inv n (fst cs) (snd cs)"
proof (induction rule: ctor_reach.induct)
  case (init h)
  then show ?case by (rule ctor_begin_inv)
next
  case (environment c s h)
  show ?case
  proof (cases "c = CThrown")
    case True
    with environment.IH show ?thesis by (simp add: ctor_inv_def thread_gone_def)
  next
    case False
    with environment.IH obtain m P L where "building m c s P L" "pl_size s = max 1 n" by (auto simp: ctor_inv_def)
    with building_environment[of m c s P L h, OF _ environment.hyps(2)] False show ?thesis
      by (auto intro: building_inv)
  qed
next
  case (step cs k thread_throws pill cs')
  then show ?case
    using ctor_inv_step[of n "fst cs" "snd cs" k thread_throws pill "fst cs'" "snd cs'"] by simp
next
  case (work c s i e s')
  note sz = worker_step_frame(1)[OF work.hyps(3)]
  show ?case
  proof (cases "c = CThrown")
    case True
    with work.IH work.hyps(2) have "thread_gone i s" by (simp add: ctor_inv_def worker_enabled_def)
    with work.hyps(2) show ?thesis by (simp add: thread_gone_def worker_enabled_def)
  next
    case False
    with work.IH obtain m P L where "building m c s P L" "pl_size s = max 1 n" by (auto simp: ctor_inv_def)
    with building_work[OF _ work.hyps(2,3), of m c P L] False sz show ?thesis by (auto intro: building_inv)
  qed
next
  case (spurious_wakeup c s t i)
  show ?case
  proof (cases "c = CThrown")
    case True
    with spurious_wakeup.IH show ?thesis by (simp add: ctor_inv_def thread_gone_def cv_wake_def)
  next
    case False
    with spurious_wakeup.IH obtain m P L where "building m c s P L" "pl_size s = max 1 n" by (auto simp: ctor_inv_def)
    with building_wakeup[OF _ spurious_wakeup.hyps(2), of m c P L] False show ?thesis by (auto intro: building_inv)
  qed
qed

text \<open>No step of the constructor is undefined.\<close>

lemma ctor_step_defined:
  assumes "ctor_reach n (c, s)"
  shows "ctor_step k thread_throws pill (c, s) \<noteq> None"
proof (cases c)
  case (CRollback pl i)
  show ?thesis
  proof (cases "i < pl_size s \<and> pl_joinable s i")
    case True
    from ctor_reach_inv[OF assms] CRollback obtain m P L where b: "building m c s P L" by (auto simp: ctor_inv_def)
    let ?v = "ctor_view m c s"
    have im: "i < m" using b True by (auto simp: building_def not_less[symmetric])
    have "stop_step k ?v \<noteq> None"
      using b pool_reach_inv[of ?v P L] stop_step_defined[of ?v P L] by (auto simp: building_def)
    then have "tq_push k (pl_queues s i) pl (nodes s) \<noteq> None"
      using True im CRollback
      by (cases "tq_push k (pl_queues s i) pl (nodes s)") (auto simp: stop_step_def ctor_view_def ctor_stop_def)
    then show ?thesis using CRollback by (auto simp: ctor_step_def)
  qed (use CRollback in \<open>auto simp: ctor_step_def\<close>)
qed (simp_all add: ctor_step_def)

lemma ctor_view_built:
  assumes "building m CBuilt s P L"
  shows "ctor_view m CBuilt s = s"
proof -
  have m: "m = pl_size s" and st: "pl_stop s = SIdle" using assms by (auto simp: building_def ctor_at_def)
  have "(\<lambda>j. if j < m then pl_pcs s j else WPop) = pl_pcs s"
    using assms m by (auto simp: building_def fun_eq_iff)
  moreover have "(\<lambda>j. if j < m then pl_joinable s j else j < pl_size s) = pl_joinable s"
    using assms m by (auto simp: building_def fun_eq_iff)
  moreover have "s = s\<lparr>pl_pcs := pl_pcs s, pl_joinable := pl_joinable s, pl_stop := pl_stop s\<rparr>" by simp
  ultimately show ?thesis by (simp add: ctor_view_def ctor_stop_def st)
qed

lemma ctor_view_moves:
  assumes "worker_moves i (ctor_view m c s) v" and "i < m"
  shows "\<exists>s'. worker_moves i s s' \<and> v = ctor_view m c s'"
proof -
  from assms have en: "worker_enabled i s" by (simp add: worker_moves_def worker_enabled_def ctor_view_def)
  from assms(1) obtain e where v: "worker_step i (ctor_view m c s) = Some (e, v)" by (auto simp: worker_moves_def)
  have "worker_step i s \<noteq> None"
  proof
    assume "worker_step i s = None"
    then have "worker_step i (ctor_view m c s) = None"
      using assms(2) by (cases "pl_pcs s i")
        (auto simp: worker_step_def ctor_view_def split: option.splits prod.splits bind_splits)
    with v show False by simp
  qed
  then obtain e' s' where s': "worker_step i s = Some (e', s')" by auto
  with ctor_view_work[OF assms(2) this, of c] v en show ?thesis by (auto simp: worker_moves_def)
qed

lemma ctor_view_run:
  assumes "(worker_moves i)\<^sup>*\<^sup>* (ctor_view m c s) v" and "i < m"
  shows "\<exists>s'. (worker_moves i)\<^sup>*\<^sup>* s s' \<and> v = ctor_view m c s'"
  using assms(1)
proof (induction rule: rtranclp_induct)
  case base
  then show ?case by blast
next
  case (step v w)
  then obtain s' where "(worker_moves i)\<^sup>*\<^sup>* s s'" "v = ctor_view m c s'" by blast
  with ctor_view_moves[of i m c s' w] step.hyps(2) assms(2) show ?case
    by (meson rtranclp.rtrancl_into_rtrancl)
qed

lemma ctor_join_returns:
  assumes "building m (CJoin pl i) s P L"
  shows "\<exists>s'. (worker_moves i)\<^sup>*\<^sup>* s s' \<and> pl_pcs s' i = WExit"
proof -
  let ?v = "ctor_view m (CJoin pl i) s"
  have im: "i < m" and r: "pool_reach ?v P L" using assms by (simp_all add: building_def ctor_at_def)
  from pool_reach_inv[OF r] obtain B Q where "pool_inv ?v P L B Q" by blast
  moreover have "pl_stop ?v = SJoin pl i" by (simp add: ctor_view_def ctor_stop_def)
  ultimately obtain v where v: "(worker_moves i)\<^sup>*\<^sup>* ?v v" "pl_pcs v i = WExit" using worker_reaches_exit by blast
  from ctor_view_run[OF v(1) im] v(2) im show ?thesis by (auto simp: ctor_view_def)
qed

text \<open>
  C22. The constructor of \<open>thread_pool\<close>, with everything its threads may do meanwhile. If it returns, the
  pool is in a state that a pool made at once can reach, so all theorems about pools apply. If a
  \<open>std::thread\<close> cannot be created, the exception leaves the constructor only after every thread that was
  started has returned and was joined, with all queues empty: no thread is destroyed while joinable
  and none uses a queue that is gone. On the way no step is undefined, and a join of the error path
  returns after finitely many steps of the thread it waits for, all of which it can make.
\<close>

theorem pool_ctor_builds_or_joins:
  assumes "ctor_reach n (c, s)"
  shows "case c of
      CBuilt \<Rightarrow> pool_reach s (\<lambda>_. []) (\<lambda>_. [])
    | CThrown \<Rightarrow> list_all (\<lambda>i. \<not> pl_joinable s i \<and> pl_pcs s i = WExit \<and> tq_first (pl_queues s i) = None) [0..<pl_size s]
    | CJoin pl i \<Rightarrow> \<exists>s'. (worker_moves i)\<^sup>*\<^sup>* s s' \<and> pl_pcs s' i = WExit
    | _ \<Rightarrow> ctor_step k thread_throws pill (c, s) \<noteq> None"
proof (cases c)
  case CBuilt
  with ctor_reach_inv[OF assms] obtain m P L where b: "building m CBuilt s P L" by (auto simp: ctor_inv_def)
  then have "pool_reach (ctor_view m CBuilt s) P L" and P: "P = (\<lambda>_. [])" by (auto simp: building_def ctor_at_def)
  then have r: "pool_reach s P L" by (simp only: ctor_view_built[OF b])
  have "L = (\<lambda>_. [])" using pool_reach_unserved[OF r] P by auto
  with r P CBuilt show ?thesis by simp
next
  case CThrown
  with ctor_reach_inv[OF assms] show ?thesis by (simp add: ctor_inv_def thread_gone_def list_all_iff)
next
  case (CJoin pl i)
  with ctor_reach_inv[OF assms] ctor_join_returns show ?thesis by (fastforce simp: ctor_inv_def)
qed (use ctor_step_defined[OF assms] in simp_all)

text \<open>
  Two threads are wanted, the second cannot be created; the guard stops the first one with the pill at
  address 6.
\<close>

definition failing :: "node_heap \<Rightarrow> task_queue \<Rightarrow> worker_pc \<Rightarrow> bool \<Rightarrow> pool" where
  "failing h q c j = \<lparr>nodes = h, pl_size = 2, pl_queues = (\<lambda>_. task_queue_init)(0 := q),
     pl_pcs = (\<lambda>j. if j < 2 then WExit else WPop)(0 := c), pl_joinable = (\<lambda>_. False)(0 := j), pl_stop = SIdle\<rparr>"

lemmas failing_simps = failing_def ctor_begin_def ctor_step_def ctor_enabled_def start_thread_def join_thread_def
  worker_step_def tq_pop_attempt_def tq_pop_all_def tq_push_def tq_push_list_def notify_one_def a_queue_def
  set_queue_def set_worker_def run_task_def deadpill_def task_node_init_def task_queue_init_def Let_def

lemma failing_thread:
  assumes "ctor_reach 2 (c, failing h q w j)" "w \<noteq> WExit" "tq_waiting q = []"
    and "worker_step 0 (failing h q w j) = Some (e, s')"
  shows "ctor_reach 2 (c, s')"
  by (rule ctor_reach.work[OF assms(1) _ assms(4)]) (use assms(2,3) in \<open>simp add: worker_enabled_def failing_def\<close>)

lemma failed_ctor: "ctor_reach 2 (CThrown, failing [6 \<mapsto> deadpill] (a_queue None 6) WExit False)"
proof -
  have 0: "ctor_reach 2 (CStart 0, failing Map.empty task_queue_init WExit False)"
  proof -
    have "ctor_begin 2 Map.empty = (CStart 0, failing Map.empty task_queue_init WExit False)"
      by (auto simp: ctor_begin_def failing_def fun_eq_iff)
    with ctor_reach.init[of 2 Map.empty] show ?thesis by simp
  qed
  have 1: "ctor_reach 2 (CStart 1, failing Map.empty task_queue_init WPop True)"
    by (rule ctor_reach.step[OF 0, where k = 0 and thread_throws = False]) (simp_all add: failing_simps)
  have 2: "ctor_reach 2 (CRollback 6 0, failing [6 \<mapsto> deadpill] task_queue_init WPop True)"
    by (rule ctor_reach.step[OF 1, where k = 0 and thread_throws = True and pill = 6]) (simp_all add: failing_simps)
  have 3: "ctor_reach 2 (CJoin 6 0, failing [6 \<mapsto> deadpill] (a_queue (Some 6) 6) WPop True)"
    by (rule ctor_reach.step[OF 2, where k = 0]) (simp_all add: failing_simps)
  have 4: "ctor_reach 2 (CJoin 6 0, failing [6 \<mapsto> deadpill] (a_queue None 6) (WBatch 6) True)"
    by (rule failing_thread[OF 3]) (simp_all add: failing_simps)
  have 5: "ctor_reach 2 (CJoin 6 0, failing [6 \<mapsto> deadpill] (a_queue None 6) (WCancel None) True)"
    by (rule failing_thread[OF 4]) (simp_all add: failing_simps)
  have 6: "ctor_reach 2 (CJoin 6 0, failing [6 \<mapsto> deadpill] (a_queue None 6) WExit True)"
    by (rule failing_thread[OF 5]) (simp_all add: failing_simps)
  have 7: "ctor_reach 2 (CRollback 6 1, failing [6 \<mapsto> deadpill] (a_queue None 6) WExit False)"
    by (rule ctor_reach.step[OF 6, where k = 0]) (simp_all add: failing_simps)
  show ?thesis by (rule ctor_reach.step[OF 7, where k = 0]) (simp_all add: failing_simps)
qed

theorem pool_ctor_builds_or_joins_witness:
  "list_all (\<lambda>i. \<not> pl_joinable (failing [6 \<mapsto> deadpill] (a_queue None 6) WExit False) i
       \<and> pl_pcs (failing [6 \<mapsto> deadpill] (a_queue None 6) WExit False) i = WExit
       \<and> tq_first (pl_queues (failing [6 \<mapsto> deadpill] (a_queue None 6) WExit False) i) = None) [0..<2]"
  using pool_ctor_builds_or_joins[OF failed_ctor] by (simp only: ctor_pc.case) (simp add: failing_def)

end
