(* ===== verification/Frame_Memory.thy ===== *)
theory Frame_Memory
  imports Memory_Support
begin

text \<open>
  \<open>memory_support.hpp\<close>: how a coroutine gets the memory of its frame. The type of the coroutine and
  the types of its arguments select a promise type (\<open>coroutine_traits\<close>, \<open>resourced\<close>,
  \<open>enable_resource_deduction\<close>), the promise selects \<open>operator new\<close> and \<open>operator delete\<close>
  (\<open>overload_new_delete\<close> or the global ones), and those select the resource object. Types of
  resources are values of \<open>'id\<close>; \<open>RT\<close> gives the operations of each. What the type system decides is
  decided here by functions on these names; a program that does not compile is \<open>None\<close>.
\<close>

section \<open>Resources of the library\<close>

text \<open>
  \<open>new_delete_resource\<close> over \<open>new char[]\<close> and \<open>delete[]\<close>. The heap knows its live arrays and the
  deletes of something that was not one; \<open>place\<close> places the next array, or fails (\<open>bad_alloc\<close>).
\<close>

record heap =
  hp_arrays :: "addr \<Rightarrow> nat option"
  hp_wrong :: "addr list"

definition new_array :: "(nat \<Rightarrow> heap \<Rightarrow> addr option) \<Rightarrow> nat \<Rightarrow> heap \<Rightarrow> (addr \<times> heap) option" where
  "new_array place sz hp = do { p \<leftarrow> place sz hp; Some (p, hp\<lparr>hp_arrays := (hp_arrays hp)(p \<mapsto> sz)\<rparr>) }"

definition delete_array :: "addr \<Rightarrow> heap \<Rightarrow> heap" where
  "delete_array p hp = (case hp_arrays hp p of
      None \<Rightarrow> hp\<lparr>hp_wrong := p # hp_wrong hp\<rparr>
    | Some _ \<Rightarrow> hp\<lparr>hp_arrays := (hp_arrays hp)(p := None)\<rparr>)"

definition new_delete_mr :: "(nat \<Rightarrow> heap \<Rightarrow> addr option) \<Rightarrow> (unit, heap) memory_resource" where
  "new_delete_mr place = \<lparr>
     mr_allocate = (\<lambda>sz r hp. do { (p, hp') \<leftarrow> new_array place sz hp; Some (p, r, hp') }),
     mr_deallocate = (\<lambda>p _ r hp. (r, delete_array p hp)),
     mr_sizeof = 1, mr_alignof = 1, mr_is_empty = True, mr_trivially_destructible = True, mr_default = ()\<rparr>"

text \<open>
  \<open>pmr::polymorphic_resource\<close>: a pointer to one of the resources \<open>res\<close>, by default the one that
  \<open>get_default_resource\<close> names; it passes the alignment of frames on.
\<close>

definition polymorphic_default :: "addr \<Rightarrow> addr" where
  "polymorphic_default default_resource = default_resource"

definition polymorphic_of :: "addr \<Rightarrow> addr" where
  "polymorphic_of m = m"

definition polymorphic_allocate ::
  "(nat \<Rightarrow> nat \<Rightarrow> 'r \<Rightarrow> 's \<Rightarrow> (addr \<times> 'r \<times> 's) option) \<Rightarrow> nat \<Rightarrow> addr \<Rightarrow> (addr \<Rightarrow> 'r option) \<times> 's
     \<Rightarrow> (addr \<times> addr \<times> (addr \<Rightarrow> 'r option) \<times> 's) option" where
  "polymorphic_allocate alloc sz passed = (\<lambda>(res, s). do {
     r \<leftarrow> res passed;
     (p, r', s') \<leftarrow> alloc sz coroframe_align r s;
     Some (p, passed, res(passed \<mapsto> r'), s') })"

definition polymorphic_deallocate ::
  "(addr \<Rightarrow> nat \<Rightarrow> nat \<Rightarrow> 'r \<Rightarrow> 's \<Rightarrow> 'r \<times> 's) \<Rightarrow> addr \<Rightarrow> nat \<Rightarrow> addr \<Rightarrow> (addr \<Rightarrow> 'r option) \<times> 's
     \<Rightarrow> (addr \<times> (addr \<Rightarrow> 'r option) \<times> 's) option" where
  "polymorphic_deallocate dealloc p sz passed = (\<lambda>(res, s). do {
     r \<leftarrow> res passed;
     let (r', s') = dealloc p sz coroframe_align r s in Some (passed, res(passed \<mapsto> r'), s') })"

text \<open>What the concept \<open>memory_resource\<close> asks of a type (\<open>max_align_t\<close> is as aligned as a frame).\<close>

definition memory_resource_concept :: "bool \<Rightarrow> ('r, 's) memory_resource \<Rightarrow> bool" where
  "memory_resource_concept default_initializable R \<longleftrightarrow>
     unat (mr_alignof R) \<le> coroframe_align \<and> \<not> (mr_is_empty R \<and> \<not> default_initializable)"

section \<open>The last argument\<close>

text \<open>
  An argument of a coroutine: a \<open>with_resource<R>\<close> that holds a resource, by value or by reference,
  or something else.
\<close>

datatype ('id, 'r) coro_arg = WithResource 'id bool 'r | OtherArg

definition last_arg :: "('id, 'r) coro_arg list \<Rightarrow> ('id, 'r) coro_arg option" where
  "last_arg args = (if args = [] then None else Some (last args))"

text \<open>\<open>get_memory_resource_info\<close>, which removes references from the type.\<close>

definition memory_resource_info :: "('id, 'r) coro_arg option \<Rightarrow> 'id option" where
  "memory_resource_info a = (case a of Some (WithResource R _ _) \<Rightarrow> Some R | _ \<Rightarrow> None)"

definition last_is_memory_resource_tag :: "('id, 'r) coro_arg list \<Rightarrow> bool" where
  "last_is_memory_resource_tag args \<longleftrightarrow> memory_resource_info (last_arg args) \<noteq> None"

definition resource_type :: "('id, 'r) coro_arg list \<Rightarrow> 'id option" where
  "resource_type args = memory_resource_info (last_arg args)"

text \<open>\<open>last_type_t\<close> keeps a reference: only an argument by value has the type \<open>with_default_resource\<close>.\<close>

definition last_is_with_default_resource :: "'id \<Rightarrow> ('id, 'r) coro_arg list \<Rightarrow> bool" where
  "last_is_with_default_resource new_delete args \<longleftrightarrow>
     (case last_arg args of Some (WithResource R by_ref _) \<Rightarrow> R = new_delete \<and> \<not> by_ref | _ \<Rightarrow> False)"

section \<open>The promise\<close>

text \<open>
  A coroutine type: one of the library or the program, which may derive from
  \<open>enable_resource_deduction\<close>, or \<open>resourced<Coro, R>\<close>.
\<close>

datatype 'id coro_kind = PlainCoro bool | ResourcedCoro 'id

datatype 'id promise_kind = CoroPromise | ResourcedPromise 'id

definition coroutine_traits :: "'id \<Rightarrow> 'id coro_kind \<Rightarrow> ('id, 'r) coro_arg list \<Rightarrow> 'id promise_kind" where
  "coroutine_traits new_delete coro args = (case coro of
      ResourcedCoro R \<Rightarrow> ResourcedPromise R
    | PlainCoro deduction \<Rightarrow>
        if deduction \<and> last_is_memory_resource_tag args \<and> \<not> last_is_with_default_resource new_delete args
        then (case resource_type args of Some R \<Rightarrow> ResourcedPromise R | None \<Rightarrow> CoroPromise)
        else CoroPromise)"

section \<open>Frames\<close>

text \<open>
  The call of \<open>operator new\<close> for a frame: first with the arguments of the coroutine, and if that
  overload takes no part, with the size only. \<open>dflt\<close>: the resource types that are default
  initializable. A promise of the library without a resource has the global operators.
\<close>

definition as_new_args :: "'id \<Rightarrow> ('id, 'r) coro_arg list \<Rightarrow> ('r + unit) list" where
  "as_new_args R = map (\<lambda>a. case a of WithResource R' _ r \<Rightarrow> if R' = R then Inl r else Inr () | OtherArg \<Rightarrow> Inr ())"

definition promise_new ::
  "('id \<Rightarrow> ('r, 's) memory_resource) \<Rightarrow> ('id \<Rightarrow> bool) \<Rightarrow> (nat \<Rightarrow> 's \<Rightarrow> (addr \<times> 's) option)
     \<Rightarrow> 'id promise_kind \<Rightarrow> ('id, 'r) coro_arg list \<Rightarrow> nat \<Rightarrow> (addr \<Rightarrow> 'r option) \<times> 's
     \<Rightarrow> (addr \<times> (addr \<Rightarrow> 'r option) \<times> 's) option" where
  "promise_new RT dflt global_new P args frame_sz m = (case P of
      CoroPromise \<Rightarrow> (case m of (onframe, s) \<Rightarrow> do { (p, s') \<leftarrow> global_new frame_sz s; Some (p, onframe, s') })
    | ResourcedPromise R \<Rightarrow>
        if last_is_memory_resource_tag args \<and> resource_type args = Some R
        then operator_new_args (RT R) frame_sz (as_new_args R args) m
        else if dflt R then operator_new_default (RT R) frame_sz m
        else None)"

definition promise_delete ::
  "('id \<Rightarrow> ('r, 's) memory_resource) \<Rightarrow> (addr \<Rightarrow> nat \<Rightarrow> 's \<Rightarrow> 's)
     \<Rightarrow> 'id promise_kind \<Rightarrow> addr \<Rightarrow> nat \<Rightarrow> (addr \<Rightarrow> 'r option) \<times> 's
     \<Rightarrow> ((addr \<Rightarrow> 'r option) \<times> 's) option" where
  "promise_delete RT global_delete P ptr frame_sz m = (case P of
      CoroPromise \<Rightarrow> (case m of (onframe, s) \<Rightarrow> Some (onframe, global_delete ptr frame_sz s))
    | ResourcedPromise R \<Rightarrow> operator_delete (RT R) ptr frame_sz m)"

section \<open>The resource that is used\<close>

text \<open>
  The contract, in the words of the documentation: \<open>resourced<Coro, R>\<close> allocates with \<open>R\<close>, the object
  in the last argument if that is a \<open>with_resource<R>\<close> and a default constructed one otherwise; a
  coroutine with deduction allocates with the resource in its last argument.
\<close>

definition frame_resource :: "('id \<Rightarrow> ('r, 's) memory_resource) \<Rightarrow> 'id \<Rightarrow> 'id coro_kind \<Rightarrow> ('id, 'r) coro_arg list
    \<Rightarrow> ('id \<times> 'r) option" where
  "frame_resource RT new_delete coro args = (case (coro, last_arg args) of
      (ResourcedCoro R, Some (WithResource R' _ r)) \<Rightarrow> Some (R, if R' = R then r else mr_default (RT R))
    | (ResourcedCoro R, _) \<Rightarrow> Some (R, mr_default (RT R))
    | (PlainCoro True, Some (WithResource R by_ref r)) \<Rightarrow> if R = new_delete \<and> \<not> by_ref then None else Some (R, r)
    | (PlainCoro _, _) \<Rightarrow> None)"

lemma as_new_args_last:
  assumes "last_arg args = Some (WithResource R b r)"
  shows "operator_new_args RR sz (as_new_args R args) m = do_allocate RR sz r m"
proof -
  from assms obtain xs where "args = xs @ [WithResource R b r]"
    by (cases args rule: rev_cases) (auto simp: last_arg_def)
  then show ?thesis by (simp add: operator_new_args_def as_new_args_def)
qed

lemmas selection_defs = coroutine_traits_def last_is_memory_resource_tag_def resource_type_def
  memory_resource_info_def last_is_with_default_resource_def frame_resource_def

lemma promise_new_resourced:
  assumes "frame_resource RT new_delete coro args = Some (R, r)"
  shows "coroutine_traits new_delete coro args = ResourcedPromise R"
    and "promise_new RT dflt gn (ResourcedPromise R) args sz m = Some x \<Longrightarrow> do_allocate (RT R) sz r m = Some x"
  using assms
  by (auto simp: selection_defs promise_new_def operator_new_default_def as_new_args_last
      split: option.splits coro_arg.splits coro_kind.splits bool.splits if_splits)

lemma promise_new_plain:
  assumes "frame_resource RT new_delete coro args = None"
  shows "coroutine_traits new_delete coro args = CoroPromise"
  using assms
  by (auto simp: selection_defs split: option.splits coro_arg.splits coro_kind.splits bool.splits if_splits)

lemma coroframe_align_16: "coroframe_align = 2 ^ 4"
  by (simp add: coroframe_align_def)

lemma frame_aligned_for_resource:
  assumes "has_single_bit (mr_alignof R)" and "memory_resource_concept d R" and "p mod coroframe_align = 0"
  shows "p mod unat (mr_alignof R) = 0" and "1 \<le> mr_alignof R" and "unat (mr_alignof R) \<le> 16"
proof -
  from has_single_bitD[OF assms(1)] obtain k where k: "k < 64" "mr_alignof R = 2 ^ k" by blast
  then have u: "unat (mr_alignof R) = 2 ^ k" by (simp add: unat_exp_word)
  show le: "unat (mr_alignof R) \<le> 16" using assms(2) by (simp add: memory_resource_concept_def coroframe_align_def)
  with u have "(2 :: nat) ^ k \<le> 2 ^ 4" by simp
  then have "k \<le> 4" by (rule power_le_imp_le_exp[rotated]) simp
  then have "(2 :: nat) ^ k dvd 2 ^ 4" by (rule le_imp_power_dvd)
  with assms(3) u show "p mod unat (mr_alignof R) = 0"
    by (metis coroframe_align_16 dvd_trans mod_0_imp_dvd dvd_imp_mod_0)
  from u show "1 \<le> mr_alignof R" by (simp add: word_le_nat_alt)
qed

text \<open>
  C33. The memory of a frame comes from the resource that the documentation names (\<open>frame_resource\<close>) and
  goes back to it: whatever the coroutine type and its arguments are, \<open>operator new\<close> calls
  \<open>allocate\<close> of that resource with at least the size of the frame, and \<open>operator delete\<close>, however the
  world has changed, calls \<open>deallocate\<close> with the same address and size on the object that
  \<open>allocate\<close> left (a default object if the type is empty); no assertion fails. The hypotheses are the
  concept \<open>memory_resource\<close>, its promise that memory is aligned for frames, and no overflow of sizes.
\<close>

theorem frame_memory_returns:
  assumes "frame_resource RT new_delete coro args = Some (R, r)"
    and "promise_new RT dflt global_new (coroutine_traits new_delete coro args) args sz (onframe, s)
           = Some (p, onframe', s')"
    and "memory_resource_concept (dflt R) (RT R)" and "has_single_bit (mr_alignof (RT R))"
    and "p mod coroframe_align = 0" and "sz + 16 < 2 ^ 64"
  shows "\<exists>r' n. mr_allocate (RT R) n r s = Some (p, r', s') \<and> sz \<le> n
     \<and> (\<forall>t. map_option snd (promise_delete RT global_delete (coroutine_traits new_delete coro args) p sz (onframe', t))
            = Some (snd (mr_deallocate (RT R) p n (if mr_is_empty (RT R) then mr_default (RT R) else r') t)))"
proof -
  note al = frame_aligned_for_resource[OF assms(4,3,5)]
  note P = promise_new_resourced(1)[OF assms(1)]
  have "do_allocate (RT R) sz r (onframe, s) = Some (p, onframe', s')"
    using assms(2) unfolding P by (rule promise_new_resourced(2)[OF assms(1)])
  from operator_delete_undoes_new[OF this al(1,2)] al(3) assms(6) show ?thesis
    unfolding P promise_delete_def by simp
qed

text \<open>Without a resource, or with \<open>with_default_resource\<close>, the global operators are used.\<close>

lemma frame_memory_plain:
  assumes "frame_resource RT new_delete coro args = None"
    and "promise_new RT dflt global_new (coroutine_traits new_delete coro args) args sz (onframe, s)
           = Some (p, onframe', s')"
  shows "global_new sz s = Some (p, s') \<and> onframe' = onframe
     \<and> promise_delete RT global_delete (coroutine_traits new_delete coro args) p sz (onframe', t)
         = Some (onframe', global_delete p sz t)"
  using assms(2) unfolding promise_new_plain[OF assms(1)]
  by (auto simp: promise_new_def promise_delete_def split: bind_splits)

text \<open>
  A generator called with \<open>with_resource<counting_resource>\<close> (its type is \<open>1\<close>) as its last argument;
  \<open>0\<close> is the default resource, the frame has 21 bytes.
\<close>

theorem frame_memory_returns_witness:
  "\<exists>r' n. mr_allocate counting_resource n 0 64 = Some (64, r', 96) \<and> 21 \<le> n
     \<and> (\<forall>t. map_option snd (promise_delete (\<lambda>_. counting_resource) (\<lambda>_ _ s. s)
              (coroutine_traits 0 (PlainCoro True) [OtherArg, WithResource (1 :: nat) False (0 :: nat)]) 64 21 ([88 \<mapsto> 32], t))
            = Some (snd (mr_deallocate counting_resource 64 n
                (if mr_is_empty counting_resource then mr_default counting_resource else r') t)))"
proof -
  have a: "aligned 8 21 = 24"
    by (simp add: aligned_def has_single_bit_def upt_rec bit_numeral_rec)
  have f: "frame_resource (\<lambda>_. counting_resource) 0 (PlainCoro True) [OtherArg, WithResource (1 :: nat) False (0 :: nat)] = Some (1, 0)"
    by (simp add: frame_resource_def last_arg_def)
  have n: "promise_new (\<lambda>_. counting_resource) (\<lambda>_. True) (\<lambda>_ _. None)
      (coroutine_traits 0 (PlainCoro True) [OtherArg, WithResource (1 :: nat) False (0 :: nat)])
      [OtherArg, WithResource 1 False 0] 21 (Map.empty, 64) = Some (64, [88 \<mapsto> 32], 96)"
    by (simp add: selection_defs last_arg_def promise_new_def as_new_args_def operator_new_args_def
        do_allocate_def counting_resource_def frame_size_def a)
  show ?thesis
    by (rule frame_memory_returns[where RT = "\<lambda>_. counting_resource" and dflt = "\<lambda>_. True"
          and global_delete = "\<lambda>_ _ s. s", OF f n])
      (simp_all add: memory_resource_concept_def counting_resource_def coroframe_align_def
        has_single_bit_def upt_rec bit_numeral_rec)
qed

end
