(* ===== verification/Task_Get.thy ===== *)
theory Task_Get
  imports Task
begin

text \<open>
  \<open>task::get\<close> of \<open>task.hpp\<close> with \<open>null_context::do_blocking_wait\<close>: outside of coroutines the result of a
  task is awaited by a small \<open>async_task<void>\<close> whose body is \<open>co_await t.wait()\<close>, and whose own \<open>get\<close>
  blocks the thread. (That the thread is woken when the \<open>async_task\<close> has ended is shown in
  \<open>Async_Task\<close>.) Meanwhile somebody has to resume what the task suspends on; the number of resumes that
  will come is a parameter, and a \<open>get\<close> that waits for more is blocked forever, \<open>None\<close>.
\<close>

section \<open>Blocking\<close>

text \<open>
  Control runs until it reaches the coroutine \<open>w\<close>, which is not a task; \<open>n\<close> times the world
  resumes what is parked.
\<close>

partial_function (option) run_until :: "nat \<Rightarrow> handle \<Rightarrow> handle \<Rightarrow> ('v, 'e) task_world \<Rightarrow> ('v, 'e) task_world option" where
  "run_until n w h s = (if h = w then Some s
     else do {
       (t, s1) \<leftarrow> task_turn h s;
       case t of
         Next k \<Rightarrow> run_until n w k s1
       | Parked k \<Rightarrow> if n = 0 then None else run_until (n - 1) w k s1
       | Returns \<Rightarrow> None })"

text \<open>
  \<open>do_blocking_wait\<close>: the \<open>async_task\<close> is a new coroutine \<open>w\<close>; it starts at once and awaits
  \<open>t.wait()\<close>, whose \<open>await_resume\<close> does nothing, and when it is resumed it ends.
\<close>

definition do_blocking_wait :: "nat \<Rightarrow> handle \<Rightarrow> ('v, 'e) task_world \<Rightarrow> ('v, 'e) task_world option" where
  "do_blocking_wait n t s = do {
     let w = tw_fresh s;
     let s1 = s\<lparr>tw_fresh := Suc w\<rparr>;
     ready \<leftarrow> starter_ready t s1;
     if ready then Some s1
     else do { (h, s2) \<leftarrow> starter_suspend t w s1; run_until n w h s2 } }"

text \<open>\<open>left v\<close> is what a move leaves of \<open>v\<close>.\<close>

definition move_result :: "('v \<Rightarrow> 'v) \<Rightarrow> handle \<Rightarrow> 'v + 'e \<Rightarrow> ('v, 'e) task_world \<Rightarrow> ('v, 'e) task_world option" where
  "move_result left h r s = (case r of
      Inl v \<Rightarrow> upd_task h (\<lambda>p. p\<lparr>tk_block := (tk_block p)\<lparr>rb_data := HoldsValue (left v)\<rparr>\<rparr>) s
    | Inr _ \<Rightarrow> Some s)"

definition task_get :: "('v \<Rightarrow> 'v) \<Rightarrow> nat \<Rightarrow> handle option \<Rightarrow> ('v, 'e) task_world \<Rightarrow> (('v + 'e) \<times> ('v, 'e) task_world) option" where
  "task_get left n this s = do {
     h \<leftarrow> this;
     p \<leftarrow> tw_fr s h;
     s1 \<leftarrow> (if \<not> tk_done p then do_blocking_wait n h s else Some s);
     (r, s2) \<leftarrow> result_or_rethrow h s1;
     s3 \<leftarrow> move_result left h r s2;
     Some (r, s3) }"

section \<open>No task has the address of the waiting coroutine\<close>

definition no_task_at :: "handle \<Rightarrow> ('v, 'e) task_world \<Rightarrow> bool" where
  "no_task_at w s \<longleftrightarrow> w < tw_fresh s \<and> tw_fr s w = None"

lemma destroy_task_keeps:
  assumes "destroy_task h s = Some s'" and "no_task_at w s"
  shows "no_task_at w s'"
  using assms(2)
proof (induction rule: destroy_task.raw_induct[OF _ assms(1), consumes 0])
  case (1 destroy h s s')
  from 1(2) obtain p where p: "tw_fr s h = Some p" by (auto split: bind_splits)
  show ?case
  proof (cases "tk_awaits p")
    case None
    with 1(2,3) p show ?thesis by (auto simp: no_task_at_def split: bind_splits)
  next
    case (Some ck)
    obtain c k where "ck = (c, k)" by (cases ck)
    with Some 1(2) p obtain s1 where s1: "destroy c s = Some s1" "s' = s1\<lparr>tw_fr := (tw_fr s1)(h := None)\<rparr>"
      by (auto split: bind_splits)
    from 1(1)[OF s1(1) 1(3)] s1(2) show ?thesis by (simp add: no_task_at_def)
  qed
qed

lemma upd_task_keeps: "upd_task h f s = Some s' \<Longrightarrow> no_task_at w s \<Longrightarrow> no_task_at w s'"
  by (auto simp: upd_task_def no_task_at_def split: bind_splits)

lemma call_ctx_keeps: "no_task_at w (call_ctx c s) \<longleftrightarrow> no_task_at w s"
  by (simp add: no_task_at_def call_ctx_def)

lemma create_task_keeps: "create_task b s = (h, s') \<Longrightarrow> no_task_at w s \<Longrightarrow> no_task_at w s'"
  by (auto simp: create_task_def no_task_at_def)

lemma task_turn_keeps:
  assumes "task_turn h s = Some (t, s')" and "no_task_at w s"
  shows "no_task_at w s'"
  using assms
  by (auto simp: task_turn_def transfer_control_to_def task_final_suspend_def task_unhandled_exception_def Let_def
      result_or_rethrow_def end_await_def starter_suspend_def prepare_task_to_start_def call_ctx_keeps
      elim!: upd_task_keeps destroy_task_keeps create_task_keeps
      split: bind_splits if_splits option.splits tbody.splits waiter.splits prod.splits)

section \<open>A run that reaches its end\<close>

lemma run_until_step:
  assumes "task_turn h s = Some (t, s1)" and "no_task_at w s"
  shows "run_until n w h s = (case t of
      Next k \<Rightarrow> run_until n w k s1
    | Parked k \<Rightarrow> if n = 0 then None else run_until (n - 1) w k s1
    | Returns \<Rightarrow> None)"
proof -
  have "h \<noteq> w" using assms by (auto simp: task_turn_def no_task_at_def split: bind_splits)
  then show ?thesis using assms(1) by (subst run_until.simps) simp
qed

lemma runs_until:
  assumes "runs h s k h' s'" and "no_task_at w s"
  shows "run_until n w h s = (if n < k then None else run_until (n - k) w h' s')"
  using assms
proof (induction h s k h' s' arbitrary: n rule: runs.induct)
  case (runs_refl h s)
  then show ?case by simp
next
  case (runs_next h s v s1 k h' s')
  note ok = task_turn_keeps[OF runs_next.hyps(1) runs_next.prems]
  show ?case using run_until_step[OF runs_next.hyps(1) runs_next.prems, of n] runs_next.IH[OF ok, of n] by simp
next
  case (runs_park h s v s1 k h' s')
  note ok = task_turn_keeps[OF runs_park.hyps(1) runs_park.prems]
  show ?case
    using run_until_step[OF runs_park.hyps(1) runs_park.prems, of n] runs_park.IH[OF ok, of "n - 1"]
    by (cases n) auto
qed

text \<open>
  A task that has not started, at the address \<open>h\<close>; the world after it has ended with control at the
  waiting coroutine.
\<close>

definition got_world :: "handle \<Rightarrow> ('v, 'e) tbody \<Rightarrow> ('v, 'e) return_block \<Rightarrow> ('v, 'e) task_world \<Rightarrow> ('v, 'e) task_world" where
  "got_world h b blk s = (let w = tw_fresh s in
     \<lparr>tw_fr = (tw_fr s)(h \<mapsto> \<lparr>tk_block = blk, tk_who = Waits w, tk_body = body_of (eval b), tk_awaits = None, tk_done = True\<rparr>),
      tw_fresh = Suc w + frames b,
      tw_log = tw_log s @ [OnOwner w h, OnStart h] @ calls b h (Suc w) @ [OnEnd h]\<rparr>)"

lemma blocking_wait_ends:
  assumes ok: "tw_fresh_ok s" and h: "tw_fr s h = Some (task_promise_init b)"
  shows "do_blocking_wait n h s = (if n < resumes b then None else Some (got_world h b (block_of (eval b)) s))"
proof -
  let ?w = "tw_fresh s" and ?p = "(task_promise_init b)\<lparr>tk_who := Waits (tw_fresh s)\<rparr>"
  let ?s2 = "\<lparr>tw_fr = (tw_fr s)(h \<mapsto> ?p), tw_fresh = Suc ?w, tw_log = tw_log s @ [OnOwner ?w h, OnStart h]\<rparr>"
  let ?s3 = "outcome_world h ?p b ?s2"
  have hw: "h < ?w" by (rule tw_fresh_okD[OF ok h])
  have none: "no_task_at ?w ?s2" using ok hw by (simp add: no_task_at_def tw_fresh_ok_def)
  have "runs h ?s2 (resumes b) h ?s3"
    by (rule body_runs) (use ok hw in \<open>auto simp: task_promise_init_def tw_fresh_ok_def\<close>)
  moreover have turn: "task_turn h ?s3 = Some (Next ?w, got_world h b (block_of (eval b)) s)"
    by (subst last_turn(1)[where p = "?p\<lparr>tk_body := body_of (eval b)\<rparr>" and r = "eval b"])
      (simp_all add: outcome_world_def task_promise_init_def got_world_def Let_def)
  then have "runs h ?s3 0 ?w (got_world h b (block_of (eval b)) s)" by (rule runs_next[OF _ runs_refl])
  ultimately have "runs h ?s2 (resumes b) ?w (got_world h b (block_of (eval b)) s)" using runs_trans by fastforce
  from runs_until[OF this none, of n]
  have "run_until n ?w h ?s2 = (if n < resumes b then None else Some (got_world h b (block_of (eval b)) s))"
    by (simp add: run_until.simps[of _ ?w ?w])
  then show ?thesis
    using h by (cases s) (simp add: do_blocking_wait_def starter_ready_def starter_suspend_def
        prepare_task_to_start_def upd_task_def call_ctx_def task_promise_init_def Let_def)
qed

text \<open>
  C7. \<open>get\<close> of a task that was not started returns what the body computes when awaiting is calling,
  value or exception, exactly if everything the task suspends on is resumed by somebody: with fewer
  resumes than that the thread is blocked forever (the deadlock that the comment warns of). Then the
  task is done and its object still owns it: another \<open>get\<close> does not block, it gets what the move left of a
  value, and is undefined after an exception; the destructor frees the frame, and no frame but that of
  the task was touched or left behind.
\<close>

theorem task_get_is_direct_style:
  assumes "tw_fresh_ok s" and "tw_fr s h = Some (task_promise_init b)"
  shows "case task_get left n (Some h) s of
      None \<Rightarrow> n < resumes b
    | Some (r, s') \<Rightarrow> resumes b \<le> n \<and> r = eval b
        \<and> (tw_fr s')(h := None) = (tw_fr s)(h := None)
        \<and> map_option fst (task_get left 0 (Some h) s') = (case r of Inl v \<Rightarrow> Some (Inl (left v)) | Inr e \<Rightarrow> None)
        \<and> task_dtor (Some h) s' = Some (s'\<lparr>tw_fr := (tw_fr s)(h := None)\<rparr>)"
proof (cases "n < resumes b")
  case True
  then show ?thesis
    using assms(2) blocking_wait_ends[OF assms, of n] by (simp add: task_get_def task_promise_init_def)
next
  case False
  have upd: "(tw_fr s)(h := x, h := y) = (tw_fr s)(h := y)" for x y by simp
  let ?blk = "case eval b of Inl v \<Rightarrow> block_of (Inl (left v)) | Inr e \<Rightarrow> return_block_init"
  let ?s' = "got_world h b ?blk s"
  have "task_get left n (Some h) s = Some (eval b, ?s')"
    using assms(2) False blocking_wait_ends[OF assms, of n]
    by (cases "eval b") (simp_all add: task_get_def task_promise_init_def result_or_rethrow_def got_world_def Let_def block_of_def
        block_simps upd_task_def move_result_def)
  moreover have "map_option fst (task_get left 0 (Some h) ?s') = (case eval b of Inl v \<Rightarrow> Some (Inl (left v)) | Inr e \<Rightarrow> None)"
    by (cases "eval b") (simp_all add: task_get_def result_or_rethrow_def got_world_def Let_def block_of_def block_simps
        upd_task_def move_result_def)
  moreover have "task_dtor (Some h) ?s' = Some (?s'\<lparr>tw_fr := (tw_fr s)(h := None)\<rparr>)"
    by (cases "eval b") (simp_all add: task_dtor_def destroy_task.simps got_world_def Let_def block_of_def block_simps)
  ultimately show ?thesis using False by (simp add: got_world_def Let_def)
qed

definition one_task :: "(nat, nat) task_world" where
  "one_task = \<lparr>tw_fr = [3 \<mapsto> task_promise_init (Await (Ext (Thr 7)) (\<lambda>r. case r of Inl v \<Rightarrow> Ret v | Inr e \<Rightarrow> Ret (e + 1)))],
     tw_fresh = 4, tw_log = []\<rparr>"

theorem task_get_is_direct_style_witness:
  "map_option fst (task_get (\<lambda>v. v) 1 (Some 3) one_task) = Some (Inl 8) \<and> task_get (\<lambda>v. v) 0 (Some 3) one_task = None"
proof -
  let ?b = "Await (Ext (Thr 7)) (\<lambda>r. case r of Inl v \<Rightarrow> Ret v | Inr e \<Rightarrow> Ret (e + 1)) :: (nat, nat) tbody"
  have ok: "tw_fresh_ok one_task" "tw_fr one_task 3 = Some (task_promise_init ?b)"
    by (simp_all add: one_task_def tw_fresh_ok_def)
  from task_get_is_direct_style[OF ok, where left = "\<lambda>v. v" and n = 1] task_get_is_direct_style[OF ok, where left = "\<lambda>v. v" and n = 0] show ?thesis
    by (auto split: option.splits)
qed

end
