(* ===== verification/When_Any_Vector.thy ===== *)
theory When_Any_Vector
  imports When_Any
begin

text \<open>
  \<open>when_any\<close> of \<open>algorithm.hpp\<close> for a vector of tasks: \<open>job_for_when_any_dyn\<close> over \<open>when_any_state_dyn\<close>,
  where the index of the task is a \<open>size_t\<close> beside the result. It is related step by step to the
  version for a fixed list, and what was proved there carries over.
\<close>

section \<open>Jobs and owner\<close>

record ('v, 'e) wv_sys =
  wv_state :: "('v, 'e) when_any_state_dyn option"
  wv_owner :: wy_owner_pc
  wv_jobs :: "nat \<Rightarrow> 'e wy_pc"
  wv_resumed :: nat
  wv_returned :: "(('v, 'e) expected \<times> 64 word) option"

definition when_any_vector_init :: "nat \<Rightarrow> handle \<Rightarrow> ('v, 'e) wv_sys" where
  "when_any_vector_init n own = \<lparr>wv_state = Some (when_any_state_dyn_init (of_nat n) own), wv_owner = AnySuspended,
     wv_jobs = \<lambda>_. YStart, wv_resumed = 0, wv_returned = None\<rparr>"

definition drop_state_dyn :: "nat \<Rightarrow> ('v, 'e) wv_sys \<Rightarrow> ('v, 'e) wv_sys" where
  "drop_state_dyn n s = (if wv_owner s = AnyReturned \<and> (\<forall>i<n. \<not> holds_state (wv_jobs s i))
     then s\<lparr>wv_state := None\<rparr> else s)"

definition expired_dyn :: "('v, 'e) wv_sys \<Rightarrow> bool" where
  "expired_dyn s \<longleftrightarrow> wv_state s = None"

text \<open>The job number \<open>i\<close> is called with the index \<open>I = i\<close>, a \<open>size_t\<close>.\<close>

definition job_for_when_any_dyn ::
  "(nat \<Rightarrow> ('v, 'e) task_end) \<Rightarrow> nat \<Rightarrow> nat \<Rightarrow> ('v, 'e) wv_sys \<Rightarrow> ('v, 'e) wv_sys option" where
  "job_for_when_any_dyn outs n i s =
     (if n \<le> i then None
      else (let I = of_nat i :: 64 word in case wv_jobs s i of
        YStart \<Rightarrow> Some (s\<lparr>wv_jobs := (wv_jobs s)(i := if expired_dyn s then YEnd else YWait)\<rparr>)
      | YWait \<Rightarrow> Some (s\<lparr>wv_jobs := (wv_jobs s)(i := if expired_dyn s then YEnd else YCall)\<rparr>)
      | YCall \<Rightarrow> do {
          st \<leftarrow> wv_state s;
          case outs i of
            Inl e \<Rightarrow> (let (r, st') = wd_set_exception I e st
               in Some (s\<lparr>wv_state := Some st', wv_jobs := (wv_jobs s)(i := YRet r)\<rparr>))
          | Inr arg \<Rightarrow> (let (r, st') = wd_set_result I arg st
               in Some (s\<lparr>wv_state := Some st', wv_jobs := (wv_jobs s)(i := (case r of Inl h \<Rightarrow> YRet h | Inr e \<Rightarrow> YRetry e))\<rparr>)) }
      | YRetry e \<Rightarrow> do {
          st \<leftarrow> wv_state s;
          let (r, st') = wd_set_exception I e st
          in Some (s\<lparr>wv_state := Some st', wv_jobs := (wv_jobs s)(i := YRet r)\<rparr>) }
      | YRet r \<Rightarrow> (let s' = drop_state_dyn n (s\<lparr>wv_jobs := (wv_jobs s)(i := YEnd)\<rparr>)
          in case r of
            None \<Rightarrow> Some s'
          | Some own \<Rightarrow> if wv_owner s' = AnySuspended
              then Some (s'\<lparr>wv_owner := AnyRunning, wv_resumed := Suc (wv_resumed s')\<rparr>) else None)
      | YEnd \<Rightarrow> None))"

text \<open>The owner reads \<open>std::get<1>(state->result)\<close> and \<open>state->index\<close>.\<close>

definition any_vector_finish :: "nat \<Rightarrow> ('v, 'e) wv_sys \<Rightarrow> ('v, 'e) wv_sys option" where
  "any_vector_finish n s = (if wv_owner s = AnyRunning
     then do {
       st \<leftarrow> wv_state s;
       x \<leftarrow> (case wd_result st of Has x \<Rightarrow> Some x | _ \<Rightarrow> None);
       Some (drop_state_dyn n (s\<lparr>wv_owner := AnyReturned, wv_returned := Some (x, wd_index st)\<rparr>)) }
     else None)"

inductive wv_reach :: "(nat \<Rightarrow> ('v, 'e) task_end) \<Rightarrow> nat \<Rightarrow> handle \<Rightarrow> ('v, 'e) wv_sys \<Rightarrow> bool" for outs n own where
  wv_start: "wv_reach outs n own (when_any_vector_init n own)"
| wv_job: "wv_reach outs n own s \<Longrightarrow> job_for_when_any_dyn outs n i s = Some s' \<Longrightarrow> wv_reach outs n own s'"
| wv_owner_step: "wv_reach outs n own s \<Longrightarrow> any_vector_finish n s = Some s' \<Longrightarrow> wv_reach outs n own s'"

section \<open>The relation to the version for a fixed list\<close>

definition wv_abs :: "('v, 'e) wv_sys \<Rightarrow> ('v, 'e) wy_sys" where
  "wv_abs s = \<lparr>wy_state = map_option wd_abs (wv_state s), wy_owner = wv_owner s, wy_jobs = wv_jobs s,
     wy_resumed = wv_resumed s, wy_returned = map_option (\<lambda>(x, i). (unat i, x)) (wv_returned s)\<rparr>"

lemma wd_abs_init: "wd_abs (when_any_state_dyn_init n own) = when_any_state_init n own"
  by (simp add: wd_abs_def when_any_state_dyn_init_def when_any_state_init_def)

lemma wd_abs_exception: "wd_set_exception i e s = (r, s') \<Longrightarrow> wa_set_exception (unat i) e (wd_abs s) = (r, wd_abs s')"
  by (auto simp: wd_abs_def wd_set_exception_def wa_set_exception_def Let_def split: if_splits)

lemma wd_abs_result: "wd_set_result i arg s = (r, s') \<Longrightarrow> wa_set_result (unat i) arg (wd_abs s) = (r, wd_abs s')"
  by (auto simp: wd_abs_def wd_set_result_def wa_set_result_def split: if_splits sum.splits)

lemma drop_state_abs: "wv_abs (drop_state_dyn n s) = drop_state n (wv_abs s)"
  by (auto simp: wv_abs_def drop_state_dyn_def drop_state_def)

lemma wv_abs_simps [simp]:
  "wy_owner (wv_abs s) = wv_owner s" "wy_jobs (wv_abs s) = wv_jobs s"
  "wy_resumed (wv_abs s) = wv_resumed s" "wy_state (wv_abs s) = map_option wd_abs (wv_state s)"
  "expired (wv_abs s) = expired_dyn s"
  by (simp_all add: wv_abs_def expired_def expired_dyn_def)

lemma wv_abs_upd:
  "wv_abs (s\<lparr>wv_jobs := js\<rparr>) = (wv_abs s)\<lparr>wy_jobs := js\<rparr>"
  "wv_abs (s\<lparr>wv_state := Some st\<rparr>) = (wv_abs s)\<lparr>wy_state := Some (wd_abs st)\<rparr>"
  "wv_abs (s\<lparr>wv_owner := ow\<rparr>) = (wv_abs s)\<lparr>wy_owner := ow\<rparr>"
  "wv_abs (s\<lparr>wv_resumed := k\<rparr>) = (wv_abs s)\<lparr>wy_resumed := k\<rparr>"
  "wv_abs (s\<lparr>wv_returned := Some (x, i)\<rparr>) = (wv_abs s)\<lparr>wy_returned := Some (unat i, x)\<rparr>"
  by (simp_all add: wv_abs_def)

lemma unat_index: "i < n \<Longrightarrow> n < 2 ^ 64 \<Longrightarrow> unat (of_nat i :: 64 word) = i"
  by (simp add: unat_of_nat)

lemma job_dyn_abs:
  assumes "n < 2 ^ 64"
  shows "map_option wv_abs (job_for_when_any_dyn outs n i s) = job_for_when_any outs n i (wv_abs s)"
proof (cases "i < n")
  case True
  note u = unat_index[OF True assms]
  show ?thesis
  proof (cases "wv_jobs s i")
    case YCall
    show ?thesis
    proof (cases "wv_state s")
      case (Some st)
      show ?thesis
      proof (cases "outs i")
        case (Inl e)
        obtain r st' where "wd_set_exception (of_nat i) e st = (r, st')" by fastforce
        with wd_abs_exception[OF this] Inl Some YCall True u show ?thesis
          by (simp add: job_for_when_any_dyn_def job_for_when_any_def wv_abs_upd)
      next
        case (Inr arg)
        obtain r st' where "wd_set_result (of_nat i) arg st = (r, st')" by fastforce
        with wd_abs_result[OF this] Inr Some YCall True u show ?thesis
          by (simp add: job_for_when_any_dyn_def job_for_when_any_def wv_abs_upd)
      qed
    qed (use True YCall in \<open>simp add: job_for_when_any_dyn_def job_for_when_any_def\<close>)
  next
    case (YRetry e)
    show ?thesis
    proof (cases "wv_state s")
      case (Some st)
      obtain r st' where "wd_set_exception (of_nat i) e st = (r, st')" by fastforce
      with wd_abs_exception[OF this] Some YRetry True u show ?thesis
        by (simp add: job_for_when_any_dyn_def job_for_when_any_def wv_abs_upd)
    qed (use True YRetry in \<open>simp add: job_for_when_any_dyn_def job_for_when_any_def\<close>)
  next
    case (YRet r)
    let ?s = "drop_state_dyn n (s\<lparr>wv_jobs := (wv_jobs s)(i := YEnd)\<rparr>)"
    have a: "wv_abs ?s = drop_state n ((wv_abs s)\<lparr>wy_jobs := (wv_jobs s)(i := YEnd)\<rparr>)"
      by (simp add: drop_state_abs wv_abs_upd)
    have "wy_owner (drop_state n ((wv_abs s)\<lparr>wy_jobs := (wv_jobs s)(i := YEnd)\<rparr>)) = wv_owner ?s"
      "wy_resumed (drop_state n ((wv_abs s)\<lparr>wy_jobs := (wv_jobs s)(i := YEnd)\<rparr>)) = wv_resumed ?s"
      by (simp_all add: a[symmetric])
    with YRet True a show ?thesis
      by (auto simp: job_for_when_any_dyn_def job_for_when_any_def Let_def wv_abs_upd split: option.split)
  qed (use True in \<open>simp_all add: job_for_when_any_dyn_def job_for_when_any_def wv_abs_upd\<close>)
qed (simp add: job_for_when_any_dyn_def job_for_when_any_def)

lemma vector_finish_abs: "map_option wv_abs (any_vector_finish n s) = any_owner_finish n (wv_abs s)"
proof (cases "wv_owner s = AnyRunning \<and> wv_state s \<noteq> None")
  case True
  then obtain st where "wv_state s = Some st" by auto
  with True show ?thesis
    by (cases "wd_result st")
      (simp_all add: any_vector_finish_def any_owner_finish_def drop_state_abs wv_abs_upd wd_abs_def)
qed (auto simp: any_vector_finish_def any_owner_finish_def)

lemma wv_reach_abs:
  assumes "wv_reach outs n own s" and "n < 2 ^ 64"
  shows "wy_reach outs n own (wv_abs s)"
  using assms(1)
proof (induction rule: wv_reach.induct)
  case wv_start
  have "wv_abs (when_any_vector_init n own) = when_any_init n own"
    by (simp add: wv_abs_def when_any_vector_init_def when_any_init_def wd_abs_init)
  with wy_start show ?case by metis
next
  case (wv_job s i s')
  have "job_for_when_any outs n i (wv_abs s) = Some (wv_abs s')"
    using job_dyn_abs[OF assms(2), of outs i s] wv_job.hyps(2) by simp
  with wv_job.IH show ?case by (rule wy_job)
next
  case (wv_owner_step s s')
  have "any_owner_finish n (wv_abs s) = Some (wv_abs s')"
    using vector_finish_abs[of n s] wv_owner_step.hyps(2) by simp
  with wv_owner_step.IH show ?case by (rule wy_owner_step)
qed

section \<open>Property\<close>

text \<open>
  C17. \<open>when_any\<close> for a vector of tasks resumes its owner exactly once, with a result that is there and
  whose index fits: no step of a job or of the owner is undefined, the owner is resumed once all jobs
  have ended at the latest, and it returns the value of the task with the returned index, which
  succeeded, or, only if all failed, the exception of the task with that index.
\<close>

theorem when_any_vector_resumes_once:
  assumes "wv_reach outs n own s" and "0 < n" and "n < 2 ^ 64"
  shows "(\<forall>i<n. wv_jobs s i \<noteq> YEnd \<longrightarrow> job_for_when_any_dyn outs n i s \<noteq> None)
    \<and> (wv_owner s = AnyRunning \<longrightarrow> any_vector_finish n s \<noteq> None)
    \<and> wv_resumed s \<le> 1
    \<and> ((\<forall>i<n. wv_jobs s i = YEnd) \<longrightarrow> wv_resumed s = 1)
    \<and> (wv_owner s = AnyReturned \<longrightarrow> (\<exists>x I. wv_returned s = Some (x, I) \<and> unat I < n \<and>
          ((\<exists>v. outs (unat I) = Inr (Inl v) \<and> x = expected_of v)
        \<or> (\<exists>e. fails (outs (unat I)) = Some e \<and> x = expected_of_unexpected (Unexpected e)
             \<and> (\<forall>j<n. fails (outs j) \<noteq> None)))))"
proof -
  note once = any_resumed_once[OF wv_reach_abs[OF assms(1,3)] assms(2,3)]
  have job: "job_for_when_any_dyn outs n i s \<noteq> None" if "i < n" "wv_jobs s i \<noteq> YEnd" for i
    using once that job_dyn_abs[OF assms(3), of outs i s] by (metis option.map_disc_iff wv_abs_simps(2))
  have fin: "any_vector_finish n s \<noteq> None" if "wv_owner s = AnyRunning"
    using once that vector_finish_abs[of n s] by (metis option.map_disc_iff wv_abs_simps(1))
  have "\<exists>x I. wv_returned s = Some (x, I) \<and> unat I < n \<and>
          ((\<exists>v. outs (unat I) = Inr (Inl v) \<and> x = expected_of v)
        \<or> (\<exists>e. fails (outs (unat I)) = Some e \<and> x = expected_of_unexpected (Unexpected e)
             \<and> (\<forall>j<n. fails (outs j) \<noteq> None)))" if "wv_owner s = AnyReturned"
  proof -
    from once that have "\<exists>i<n. (\<exists>v. outs i = Inr (Inl v) \<and> wy_returned (wv_abs s) = Some (i, expected_of v))
        \<or> (\<exists>e. fails (outs i) = Some e \<and> wy_returned (wv_abs s) = Some (i, expected_of_unexpected (Unexpected e))
             \<and> (\<forall>j<n. fails (outs j) \<noteq> None))" by simp
    then show ?thesis by (auto simp: wv_abs_def)
  qed
  with once job fin show ?thesis by simp
qed

text \<open>Two tasks: the second one succeeds first, the first one fails later.\<close>

datatype wv_action = WvJob nat | WvOwner

definition wv_exec1 :: "(nat \<Rightarrow> ('v, 'e) task_end) \<Rightarrow> nat \<Rightarrow> wv_action \<Rightarrow> ('v, 'e) wv_sys \<Rightarrow> ('v, 'e) wv_sys option" where
  "wv_exec1 outs n a s = (case a of WvJob i \<Rightarrow> job_for_when_any_dyn outs n i s | WvOwner \<Rightarrow> any_vector_finish n s)"

lemma wv_exec_reach:
  "wv_reach outs n own s \<Longrightarrow> foldM_opt (wv_exec1 outs n) as s = Some s' \<Longrightarrow> wv_reach outs n own s'"
proof (induction as arbitrary: s)
  case Nil
  then show ?case by simp
next
  case (Cons a as)
  from Cons.prems(2) obtain s1 where s1: "wv_exec1 outs n a s = Some s1" "foldM_opt (wv_exec1 outs n) as s1 = Some s'"
    by (auto split: bind_splits)
  from s1(1) Cons.prems(1) have "wv_reach outs n own s1"
    by (cases a) (auto simp: wv_exec1_def intro: wv_job wv_owner_step)
  from Cons.IH[OF this s1(2)] show ?case .
qed

definition vector_outs :: "nat \<Rightarrow> (nat, nat) task_end" where
  "vector_outs i = (if i = 0 then Inl 5 else Inr (Inl 7))"

definition vector_run :: "wv_action list" where
  "vector_run = [WvJob 0, WvJob 1, WvJob 1, WvJob 0, WvJob 1, WvJob 1, WvOwner, WvJob 0, WvJob 0]"

lemma vector_run_ok:
  "map_option (\<lambda>s. (wv_owner s, wv_returned s, wv_jobs s 0, wv_jobs s 1, wv_state s))
     (foldM_opt (wv_exec1 vector_outs 2) vector_run (when_any_vector_init 2 9)) =
   Some (AnyReturned, Some (expected_of 7, 1), YEnd, YEnd, None)"
  by (simp add: vector_run_def wv_exec1_def job_for_when_any_dyn_def any_vector_finish_def when_any_vector_init_def
      when_any_state_dyn_init_def expired_dyn_def vector_outs_def wd_set_exception_def wd_set_result_def Let_def
      drop_state_dyn_def holds_state_def numeral_2_eq_2 less_Suc_eq all_conj_distrib)

lemma when_any_vector_resumes_once_witness:
  "\<exists>s. wv_reach vector_outs 2 9 s \<and> wv_resumed s = 1 \<and> wv_returned s = Some (expected_of 7, 1)"
proof -
  from vector_run_ok obtain s where s: "foldM_opt (wv_exec1 vector_outs 2) vector_run (when_any_vector_init 2 9) = Some s"
    "wv_owner s = AnyReturned" "wv_returned s = Some (expected_of 7, 1)" "wv_jobs s 0 = YEnd" "wv_jobs s 1 = YEnd" by auto
  from wv_exec_reach[OF wv_start s(1)] have r: "wv_reach vector_outs 2 9 s" .
  have "\<forall>i<2. wv_jobs s i = YEnd" using s(4,5) by (simp add: numeral_2_eq_2 less_Suc_eq)
  with when_any_vector_resumes_once[OF r] have "wv_resumed s = 1" by simp
  with r s(3) show ?thesis by blast
qed

end
