(* ===== verification/Channel_Conversion.thy ===== *)
theory Channel_Conversion
  imports Iteration
begin

text \<open>
  \<open>elements_of\<close> a channel of another element type, \<open>extract_from::do_(channel<OtherY>*)\<close> of
  \<open>noexport/generators_common.hpp\<close>: a coroutine that loops over the channel and yields its elements, each
  converted. It is itself a channel, the leaf which the coroutine that yields \<open>elements_of\<close> waits for.
\<close>

section \<open>The coroutine that converts\<close>

text \<open>
  What one turn of it ends with: it yields a converted element and is suspended in the loop, or the loop
  is over and the coroutine returns. \<open>k\<close> is its own handle, the consumer of the channel \<open>c\<close> it converts.
\<close>

datatype 'z conv_turn = ConvYield 'z | ConvReturn

definition conv_show :: "('y \<Rightarrow> 'z) \<Rightarrow> objref \<Rightarrow> ('y, 'e) chan_store \<Rightarrow> ('z conv_turn \<times> ('y, 'e) chan_store) option" where
  "conv_show cast c s = do {
     stop \<leftarrow> chan_at_end c s;
     if stop then Some (ConvReturn, s)
     else do { y \<leftarrow> chan_deref c s; Some (ConvYield (cast y), s) } }"

definition conv_start :: "('y \<Rightarrow> 'z) \<Rightarrow> handle \<Rightarrow> objref \<Rightarrow> ('y, 'e) chan_store
    \<Rightarrow> ('z conv_turn \<times> ('y, 'e) chan_store) option" where
  "conv_start cast k c s = do { (k', s1) \<leftarrow> chan_begin k c s; if k' \<noteq> k then None else conv_show cast c s1 }"

definition conv_next :: "('y \<Rightarrow> 'z) \<Rightarrow> handle \<Rightarrow> objref \<Rightarrow> ('y, 'e) chan_store
    \<Rightarrow> ('z conv_turn \<times> ('y, 'e) chan_store) option" where
  "conv_next cast k c s = do { (k', s1) \<leftarrow> chan_incr c s; if k' \<noteq> k then None else conv_show cast c s1 }"

text \<open>Everything the coroutine does when it is resumed after every element, as the actions of a body.\<close>

partial_function (option) conv_rest ::
  "('y \<Rightarrow> 'z) \<Rightarrow> handle \<Rightarrow> objref \<Rightarrow> 'z conv_turn \<Rightarrow> ('y, 'e) chan_store
    \<Rightarrow> (('z, 'e) action list \<times> ('y, 'e) chan_store) option" where
  "conv_rest cast k c t s = (case t of
      ConvReturn \<Rightarrow> Some ([], s)
    | ConvYield z \<Rightarrow> do {
        (t1, s1) \<leftarrow> conv_next cast k c s;
        (b, s2) \<leftarrow> conv_rest cast k c t1 s1;
        Some (Yield z # b, s2) })"

definition convert_body :: "('y \<Rightarrow> 'z) \<Rightarrow> handle \<Rightarrow> objref \<Rightarrow> ('y, 'e) chan_store
    \<Rightarrow> (('z, 'e) action list \<times> ('y, 'e) chan_store) option" where
  "convert_body cast k c s = do { (t, s1) \<leftarrow> conv_start cast k c s; conv_rest cast k c t s1 }"

section \<open>The conversion as a loop\<close>

lemma conv_rest_return: "conv_rest cast k c ConvReturn s = Some ([], s)"
  by (subst conv_rest.simps) simp

lemma conv_rest_yield:
  "conv_rest cast k c (ConvYield z) s = do {
     (t1, s1) \<leftarrow> conv_next cast k c s; (b, s2) \<leftarrow> conv_rest cast k c t1 s1; Some (Yield z # b, s2) }"
  by (subst conv_rest.simps) simp

lemma conv_turn_yields:
  assumes "chan_at_end c s = Some False" and "chan_deref c s = Some y" and "chan_incr c s = Some (k, s1)"
    and "do { (t, s1) \<leftarrow> conv_show cast c s1; conv_rest cast k c t s1 } = Some (map Yield zs, s')"
  shows "do { (t, s1) \<leftarrow> conv_show cast c s; conv_rest cast k c t s1 } = Some (map Yield (cast y # zs), s')"
proof -
  have "conv_show cast c s = Some (ConvYield (cast y), s)" "conv_next cast k c s = conv_show cast c s1"
    using assms(1-3) by (simp_all add: conv_show_def conv_next_def)
  with assms(4) show ?thesis by (cases "conv_show cast c s1") (auto simp: conv_rest_yield)
qed

text \<open>It visits what \<open>co_foreach_nt\<close> visits with a body that collects the converted elements.\<close>

lemma chan_loop_collects:
  assumes "chan_loop visit k c u s = Some r" and "visit = (\<lambda>y zs. zs @ [cast y])"
  shows "\<exists>zs. fst r = u @ zs \<and>
    do { (t, s1) \<leftarrow> conv_show cast c s; conv_rest cast k c t s1 } = Some (map Yield zs, snd r)"
  using assms(2)
proof (induction rule: chan_loop.raw_induct[OF _ assms(1), consumes 0])
  case (1 loop visit k c u s r)
  from 1(2) obtain stop where stop: "chan_at_end c s = Some stop" by (auto split: bind_splits)
  show ?case
  proof (cases stop)
    case True
    with 1(2) stop show ?thesis by (auto simp: conv_show_def conv_rest_return)
  next
    case False
    from 1(2) stop False obtain y s1 where n: "chan_deref c s = Some y" "chan_incr c s = Some (k, s1)"
      "loop visit k c (visit y u) s1 = Some r"
      by (simp split: bind_splits if_splits prod.splits)
    from 1(1)[OF n(3) 1(3)] 1(3) obtain zs where zs: "fst r = u @ cast y # zs"
      "do { (t, s1) \<leftarrow> conv_show cast c s1; conv_rest cast k c t s1 } = Some (map Yield zs, snd r)"
      by auto
    have "do { (t, s1) \<leftarrow> conv_show cast c s; conv_rest cast k c t s1 } = Some (map Yield (cast y # zs), snd r)"
      using conv_turn_yields[OF _ n(1,2) zs(2)] stop False by simp
    with zs(1) show ?thesis by blast
  qed
qed

lemma convert_body_collects:
  assumes "co_foreach_nt (\<lambda>y zs. zs @ [cast y]) k c [] s = Some (zs, s')"
  shows "convert_body cast k c s = Some (map Yield zs, s')"
proof -
  from assms obtain s1 where n: "chan_begin k c s = Some (k, s1)"
    "chan_loop (\<lambda>y zs. zs @ [cast y]) k c [] s1 = Some (zs, s')"
    by (auto simp: co_foreach_nt_def split: bind_splits if_splits)
  from chan_loop_collects[OF n(2) refl] n(1) show ?thesis
    by (auto simp: convert_body_def conv_start_def split: bind_splits)
qed

lemma fold_collects: "fold (\<lambda>y zs. zs @ [cast y]) ys u = u @ map cast ys"
  by (induction ys arbitrary: u) simp_all

section \<open>Properties\<close>

text \<open>C12. A channel of another element type is converted to its elements, each cast, all of them and in order.
  The exception that ends the channel is left in it: the body of the conversion throws nothing, so a loop over
  the channel that yields \<open>elements_of\<close> ends there as if all were well, while a channel of the same
  element type hands its exception on.\<close>

theorem converted_channel_keeps_exception:
  assumes "chan_rel c A F" and "finite (dom A)" and "refs_ok a A" and "A a = Some (r, stk)"
    and "stk = [] \<longrightarrow> r = None" and "no_exception a c"
  shows "\<exists>ys x c' A'. drain a A = Some (ys, x, A')
    \<and> convert_body cast k (Obj a) c = Some (map (\<lambda>y. Yield (cast y)) ys, c')
    \<and> map_option fst (channel_scope_guard_dtor (Obj a) c') = Some x
    \<and> drain 0 [0 \<mapsto> (None, [map (\<lambda>y. Yield (cast y)) ys])] = Some (map cast ys, None, [0 \<mapsto> (None, [])])"
proof -
  from co_foreach_drains[OF assms, of "\<lambda>y zs. zs @ [cast y]" k "[]"] obtain ys x c' F' A' where
    d: "drain a A = Some (ys, x, A')" "chan_done a x c' A' F'"
      "co_foreach_nt (\<lambda>y zs. zs @ [cast y]) k (Obj a) [] c = Some (map cast ys, c')"
    by (auto simp: fold_collects)
  have "drain 0 [0 \<mapsto> (None, [map (\<lambda>y. Yield (cast y)) ys])] = Some (map cast ys, None, [0 \<mapsto> (None, [])])"
    using drain_yields[of "[0 \<mapsto> (None, [map Yield (map cast ys)])]" 0 None "map cast ys" "[]" "[]"]
    by (simp add: drain_end drain_empty comp_def)
  with d convert_body_collects[OF d(3)] show ?thesis unfolding chan_done_def by (auto simp: comp_def)
qed

text \<open>The channel of the other examples throws 6 after its elements; the conversion shows the elements only.\<close>

theorem converted_channel_keeps_exception_witness:
  "\<exists>c'. convert_body (\<lambda>y. y + 100) 9 (Obj 0) ex_chan = Some ([Yield 101, Yield 105], c')
     \<and> map_option fst (channel_scope_guard_dtor (Obj 0) c') = Some (Some 6)"
proof -
  have "no_exception 0 ex_chan" by (simp add: ex_chan_def chan_create_def no_exception_def channel_default_def)
  from converted_channel_keeps_exception[OF ex_chan_rel ex_facts _ this, of "\<lambda>y. y + 100" 9] show ?thesis
    by (auto simp: ex_drain)
qed

end
