(* ===== verification/Yielded_Values.thy ===== *)
theory Yielded_Values
  imports Channel
begin

text \<open>
  What \<open>*it\<close> refers to while a generator or a channel is suspended at \<open>co_yield\<close>: the overloads of
  \<open>yield_value\<close>, \<open>by_ref\<close> and \<open>hold_value_until_resume\<close> of \<open>noexport/generators_common.hpp\<close>, the iterators and
  the output iterator of \<open>generator.hpp\<close>, \<open>generator<nothing_t>\<close> and the loop of \<open>to_generator\<close>. Here the
  pointer \<open>current_result\<close> points to objects with a lifetime: variables of the coroutine or of the range it
  yields, and temporaries that die when the coroutine is resumed.
\<close>

section \<open>Objects and the suspended coroutine\<close>

datatype place = Var nat | Temp nat

text \<open>The kinds of \<open>Yield\<close>: a type of values, a reference, and \<open>nothing_t\<close>.\<close>

datatype yield_kind = ByValue | ByReference | OfNothing

text \<open>The operand of \<open>co_yield\<close>: a new value, \<open>std::move(x)\<close>, \<open>x\<close> and \<open>by_ref{x}\<close>.\<close>

datatype 'v yield_arg = Prvalue 'v | Xvalue nat | Lvalue nat | ByRef nat

text \<open>
  The code of a coroutine between two suspensions is a function of the point where it goes on and of its
  variables; it ends with \<open>co_yield\<close>, the return or an exception it does not handle.
\<close>

datatype ('v, 'e, 'p) body_next = CoYield "'v yield_arg" 'p | Return | Raise 'e

type_synonym ('v, 'e, 'p) code = "'p \<Rightarrow> 'v list \<Rightarrow> 'v list \<times> ('v, 'e, 'p) body_next"

record ('v, 'p) yielding =
  yd_vars :: "'v list"
  yd_temps :: "nat \<Rightarrow> 'v option"
  yd_made :: nat
  yd_result :: "place option"
  yd_at :: "'p option"

definition yd_start :: "'v list \<Rightarrow> 'p \<Rightarrow> ('v, 'p) yielding" where
  "yd_start vs p = \<lparr>yd_vars = vs, yd_temps = (\<lambda>_. None), yd_made = 0, yd_result = None, yd_at = Some p\<rparr>"

definition object_at :: "('v, 'p) yielding \<Rightarrow> place \<Rightarrow> 'v option" where
  "object_at s p = (case p of
      Var i \<Rightarrow> if i < length (yd_vars s) then Some (yd_vars s ! i) else None
    | Temp n \<Rightarrow> yd_temps s n)"

definition write_at :: "place \<Rightarrow> 'v \<Rightarrow> ('v, 'p) yielding \<Rightarrow> ('v, 'p) yielding" where
  "write_at p v s = (case p of
      Var i \<Rightarrow> s\<lparr>yd_vars := (yd_vars s)[i := v]\<rparr>
    | Temp n \<Rightarrow> s\<lparr>yd_temps := (yd_temps s)(n \<mapsto> v)\<rparr>)"

definition new_temp :: "'v \<Rightarrow> ('v, 'p) yielding \<Rightarrow> place \<times> ('v, 'p) yielding" where
  "new_temp v s = (Temp (yd_made s), s\<lparr>yd_temps := (yd_temps s)(yd_made s \<mapsto> v), yd_made := Suc (yd_made s)\<rparr>)"

section \<open>Yielding a value\<close>

text \<open>\<open>set_result\<close> of the promise does nothing for \<open>nothing_t\<close>.\<close>

definition show_result :: "yield_kind \<Rightarrow> place option \<Rightarrow> ('v, 'p) yielding \<Rightarrow> ('v, 'p) yielding" where
  "show_result kind p s = (if kind = OfNothing then s else s\<lparr>yd_result := p\<rparr>)"

datatype 'v yield_awaiter = SuspendAlways | HoldValue 'v

text \<open>The overloads; a reference is bound to an object that exists.\<close>

definition yield_by_ref :: "yield_kind \<Rightarrow> nat \<Rightarrow> ('v, 'p) yielding \<Rightarrow> ('v yield_awaiter \<times> ('v, 'p) yielding) option" where
  "yield_by_ref kind i s = (case object_at s (Var i) of
      None \<Rightarrow> None
    | Some _ \<Rightarrow> Some (SuspendAlways, show_result kind (Some (Var i)) s))"

definition yield_rvalue :: "yield_kind \<Rightarrow> place \<Rightarrow> ('v, 'p) yielding \<Rightarrow> ('v yield_awaiter \<times> ('v, 'p) yielding) option" where
  "yield_rvalue kind p s = (case object_at s p of
      None \<Rightarrow> None
    | Some _ \<Rightarrow> Some (SuspendAlways, show_result kind (Some p) s))"

definition yield_lvalue :: "yield_kind \<Rightarrow> nat \<Rightarrow> ('v, 'p) yielding \<Rightarrow> ('v yield_awaiter \<times> ('v, 'p) yielding) option" where
  "yield_lvalue kind i s = yield_by_ref kind i s"

text \<open>The copy constructor \<open>copy\<close> may throw.\<close>

definition yield_clvalue :: "('v \<Rightarrow> 'e + 'v) \<Rightarrow> nat \<Rightarrow> ('v, 'p) yielding
    \<Rightarrow> ('e + 'v yield_awaiter \<times> ('v, 'p) yielding) option" where
  "yield_clvalue copy i s = (case object_at s (Var i) of
      None \<Rightarrow> None
    | Some v \<Rightarrow> Some (case copy v of Inl e \<Rightarrow> Inl e | Inr w \<Rightarrow> Inr (HoldValue w, s)))"

definition yield_nothing :: "('v, 'p) yielding \<Rightarrow> 'v yield_awaiter \<times> ('v, 'p) yielding" where
  "yield_nothing s = (SuspendAlways, s)"

text \<open>
  Which overload the language takes: an rvalue and \<open>const Yield&\<close> or \<open>Yield&&\<close> for values, \<open>Yield&\<close> for
  references, to which no rvalue binds (None: it does not compile).
\<close>

definition yield_value :: "('v \<Rightarrow> 'e + 'v) \<Rightarrow> yield_kind \<Rightarrow> 'v yield_arg \<Rightarrow> ('v, 'p) yielding
    \<Rightarrow> ('e + 'v yield_awaiter \<times> ('v, 'p) yielding) option" where
  "yield_value copy kind arg s = (case kind of
      OfNothing \<Rightarrow> Some (Inr (yield_nothing s))
    | ByValue \<Rightarrow> (case arg of
        Prvalue v \<Rightarrow> (let (p, s1) = new_temp v s in map_option Inr (yield_rvalue kind p s1))
      | Xvalue i \<Rightarrow> map_option Inr (yield_rvalue kind (Var i) s)
      | Lvalue i \<Rightarrow> yield_clvalue copy i s
      | ByRef i \<Rightarrow> map_option Inr (yield_by_ref kind i s))
    | ByReference \<Rightarrow> (case arg of
        Lvalue i \<Rightarrow> map_option Inr (yield_lvalue kind i s)
      | ByRef i \<Rightarrow> map_option Inr (yield_by_ref kind i s)
      | _ \<Rightarrow> None))"

text \<open>The awaiter is a temporary as well: the value it holds lives until the coroutine is resumed.\<close>

definition hold_suspend :: "yield_kind \<Rightarrow> 'v \<Rightarrow> ('v, 'p) yielding \<Rightarrow> ('v, 'p) yielding" where
  "hold_suspend kind v s = (let (p, s1) = new_temp v s in show_result kind (Some p) s1)"

definition yield_suspend :: "yield_kind \<Rightarrow> 'v yield_awaiter \<Rightarrow> ('v, 'p) yielding \<Rightarrow> ('v, 'p) yielding" where
  "yield_suspend kind w s = (case w of SuspendAlways \<Rightarrow> s | HoldValue v \<Rightarrow> hold_suspend kind v s)"

section \<open>Resuming\<close>

definition body_ends :: "yield_kind \<Rightarrow> ('v, 'p) yielding \<Rightarrow> ('v, 'p) yielding" where
  "body_ends kind s = (show_result kind None s)\<lparr>yd_at := None\<rparr>"

text \<open>The full expression of \<open>co_yield\<close> ends first, and its temporaries with it.\<close>

definition value_resume :: "('v \<Rightarrow> 'e + 'v) \<Rightarrow> ('v, 'e, 'p) code \<Rightarrow> yield_kind \<Rightarrow> ('v, 'p) yielding
    \<Rightarrow> ('e option \<times> ('v, 'p) yielding) option" where
  "value_resume copy code kind s = (case yd_at s of
      None \<Rightarrow> None
    | Some p \<Rightarrow> (let (vs, nx) = code p (yd_vars s); s1 = s\<lparr>yd_vars := vs, yd_temps := (\<lambda>_. None)\<rparr> in
        case nx of
          Return \<Rightarrow> Some (None, body_ends kind s1)
        | Raise e \<Rightarrow> Some (Some e, body_ends kind s1)
        | CoYield arg p' \<Rightarrow> (case yield_value copy kind arg s1 of
            None \<Rightarrow> None
          | Some (Inl e) \<Rightarrow> Some (Some e, body_ends kind s1)
          | Some (Inr (w, s2)) \<Rightarrow> Some (None, (yield_suspend kind w s2)\<lparr>yd_at := Some p'\<rparr>))))"

section \<open>The iterators\<close>

definition it_at_end :: "yield_kind \<Rightarrow> ('v, 'p) yielding \<Rightarrow> bool" where
  "it_at_end kind s = (if kind = OfNothing then yd_at s = None else yd_result s = None)"

text \<open>The reference that \<open>*it\<close> returns; for \<open>nothing_t\<close> it returns a new object and no reference.\<close>

definition it_deref :: "yield_kind \<Rightarrow> ('v, 'p) yielding \<Rightarrow> place option" where
  "it_deref kind s = (if it_at_end kind s \<or> kind = OfNothing then None else yd_result s)"

definition it_arrow :: "yield_kind \<Rightarrow> ('v, 'p) yielding \<Rightarrow> place option" where
  "it_arrow kind s = it_deref kind s"

definition out_deref :: "yield_kind \<Rightarrow> ('v, 'p) yielding \<Rightarrow> place option" where
  "out_deref kind s = it_deref kind s"

definition it_incr :: "('v \<Rightarrow> 'e + 'v) \<Rightarrow> ('v, 'e, 'p) code \<Rightarrow> yield_kind \<Rightarrow> ('v, 'p) yielding
    \<Rightarrow> ('e option \<times> ('v, 'p) yielding) option" where
  "it_incr copy code kind s = value_resume copy code kind s"

text \<open>
  What a consumer does between two resumptions: it uses the object behind \<open>*it\<close>, which it may read, move
  from, or write through the output iterator, all of which is a function of its value.
\<close>

datatype 'v consumer_op = Use "'v \<Rightarrow> 'v" | Advance

datatype ('v, 'e) seen = Saw 'v | Resumed "'e option" bool

definition use_object :: "yield_kind \<Rightarrow> ('v \<Rightarrow> 'v) \<Rightarrow> ('v, 'p) yielding \<Rightarrow> ('v \<times> ('v, 'p) yielding) option" where
  "use_object kind f s = do { p \<leftarrow> out_deref kind s; v \<leftarrow> object_at s p; Some (v, write_at p (f v) s) }"

fun consume :: "('v \<Rightarrow> 'e + 'v) \<Rightarrow> ('v, 'e, 'p) code \<Rightarrow> yield_kind \<Rightarrow> 'v consumer_op list \<Rightarrow> ('v, 'p) yielding
    \<Rightarrow> (('v, 'e) seen list \<times> ('v, 'p) yielding) option" where
  "consume copy code kind [] s = Some ([], s)"
| "consume copy code kind (Use f # ops) s = do {
     (v, s1) \<leftarrow> use_object kind f s; (obs, s2) \<leftarrow> consume copy code kind ops s1; Some (Saw v # obs, s2) }"
| "consume copy code kind (Advance # ops) s = do {
     (x, s1) \<leftarrow> it_incr copy code kind s; (obs, s2) \<leftarrow> consume copy code kind ops s1;
     Some (Resumed x (it_at_end kind s1) # obs, s2) }"

section \<open>The channel\<close>

text \<open>
  In a channel every overload passes the control to the consumer \<open>k\<close>, at once or when the held value is shown,
  and so does the end of the body, which keeps an exception in the channel.
\<close>

datatype 'v chan_awaiter = TransferTo handle | HoldThenTransfer 'v

definition chan_yield_by_ref :: "handle \<Rightarrow> place \<Rightarrow> ('v, 'p) yielding \<Rightarrow> ('v chan_awaiter \<times> ('v, 'p) yielding) option" where
  "chan_yield_by_ref k p s = (case object_at s p of
      None \<Rightarrow> None
    | Some _ \<Rightarrow> Some (TransferTo k, s\<lparr>yd_result := Some p\<rparr>))"

text \<open>The overloads are those of the generator, without a special case for \<open>nothing_t\<close>.\<close>

definition chan_yield_value :: "('v \<Rightarrow> 'e + 'v) \<Rightarrow> yield_kind \<Rightarrow> handle \<Rightarrow> 'v yield_arg \<Rightarrow> ('v, 'p) yielding
    \<Rightarrow> ('e + 'v chan_awaiter \<times> ('v, 'p) yielding) option" where
  "chan_yield_value copy kind k arg s = (case kind of
      ByReference \<Rightarrow> (case arg of
        Lvalue i \<Rightarrow> map_option Inr (chan_yield_by_ref k (Var i) s)
      | ByRef i \<Rightarrow> map_option Inr (chan_yield_by_ref k (Var i) s)
      | _ \<Rightarrow> None)
    | _ \<Rightarrow> (case arg of
        Prvalue v \<Rightarrow> (let (p, s1) = new_temp v s in map_option Inr (chan_yield_by_ref k p s1))
      | Xvalue i \<Rightarrow> map_option Inr (chan_yield_by_ref k (Var i) s)
      | Lvalue i \<Rightarrow> (case object_at s (Var i) of
          None \<Rightarrow> None
        | Some v \<Rightarrow> Some (case copy v of Inl e \<Rightarrow> Inl e | Inr w \<Rightarrow> Inr (HoldThenTransfer w, s)))
      | ByRef i \<Rightarrow> map_option Inr (chan_yield_by_ref k (Var i) s)))"

definition chan_hold_suspend :: "handle \<Rightarrow> 'v \<Rightarrow> ('v, 'p) yielding \<Rightarrow> handle \<times> ('v, 'p) yielding" where
  "chan_hold_suspend k v s = (let (p, s1) = new_temp v s in (k, s1\<lparr>yd_result := Some p\<rparr>))"

definition chan_yield_suspend :: "handle \<Rightarrow> 'v chan_awaiter \<Rightarrow> ('v, 'p) yielding \<Rightarrow> handle \<times> ('v, 'p) yielding" where
  "chan_yield_suspend k w s = (case w of TransferTo k' \<Rightarrow> (k', s) | HoldThenTransfer v \<Rightarrow> chan_hold_suspend k v s)"

definition chan_body_ends :: "handle \<Rightarrow> 'e option \<Rightarrow> ('v, 'p) yielding \<Rightarrow> handle \<times> 'e option \<times> ('v, 'p) yielding" where
  "chan_body_ends k x s = (k, x, s\<lparr>yd_result := None, yd_at := None\<rparr>)"

definition chan_value_resume :: "('v \<Rightarrow> 'e + 'v) \<Rightarrow> ('v, 'e, 'p) code \<Rightarrow> yield_kind \<Rightarrow> handle \<Rightarrow> ('v, 'p) yielding
    \<Rightarrow> (handle \<times> 'e option \<times> ('v, 'p) yielding) option" where
  "chan_value_resume copy code kind k s = (case yd_at s of
      None \<Rightarrow> None
    | Some p \<Rightarrow> (let (vs, nx) = code p (yd_vars s); s1 = s\<lparr>yd_vars := vs, yd_temps := (\<lambda>_. None)\<rparr> in
        case nx of
          Return \<Rightarrow> Some (chan_body_ends k None s1)
        | Raise e \<Rightarrow> Some (chan_body_ends k (Some e) s1)
        | CoYield arg p' \<Rightarrow> (case chan_yield_value copy kind k arg s1 of
            None \<Rightarrow> None
          | Some (Inl e) \<Rightarrow> Some (chan_body_ends k (Some e) s1)
          | Some (Inr (w, s2)) \<Rightarrow> (let (k', s3) = chan_yield_suspend k w s2 in Some (k', None, s3\<lparr>yd_at := Some p'\<rparr>)))))"

text \<open>The channel shows the same objects as the generator and always goes on with the consumer.\<close>

lemma chan_yield_suspends:
  assumes "kind \<noteq> OfNothing"
  shows "map_option (map_sum (\<lambda>e. e) (\<lambda>(w, s). chan_yield_suspend k w s)) (chan_yield_value copy kind k arg s)
    = map_option (map_sum (\<lambda>e. e) (\<lambda>(w, s). (k, yield_suspend kind w s))) (yield_value copy kind arg s)"
  using assms
  by (cases kind; cases arg)
    (auto simp: chan_yield_value_def chan_yield_by_ref_def yield_value_def chan_yield_suspend_def yield_suspend_def hold_suspend_def
      chan_hold_suspend_def show_result_def yield_rvalue_def yield_lvalue_def yield_by_ref_def yield_clvalue_def
      new_temp_def object_at_def split: option.splits sum.splits)

lemma chan_body_ends_same: "kind \<noteq> OfNothing \<Longrightarrow> chan_body_ends k x s = (k, x, body_ends kind s)"
  by (simp add: chan_body_ends_def body_ends_def show_result_def)

lemma channel_shows_same:
  assumes "kind \<noteq> OfNothing"
  shows "chan_value_resume copy code kind k s = map_option (\<lambda>(x, s'). (k, x, s')) (value_resume copy code kind s)"
proof (cases "yd_at s")
  case None
  then show ?thesis by (simp add: chan_value_resume_def value_resume_def)
next
  case (Some p)
  obtain vs nx where c: "code p (yd_vars s) = (vs, nx)" by fastforce
  show ?thesis
  proof (cases nx)
    case (CoYield arg p')
    let ?s1 = "s\<lparr>yd_vars := vs, yd_temps := (\<lambda>_. None)\<rparr>"
    from chan_yield_suspends[OF assms, of k copy arg ?s1] Some c CoYield chan_body_ends_same[OF assms] show ?thesis
      by (cases "chan_yield_value copy kind k arg ?s1"; cases "yield_value copy kind arg ?s1")
        (auto simp: chan_value_resume_def value_resume_def Let_def split: sum.splits prod.splits)
  qed (use Some c chan_body_ends_same[OF assms] in \<open>simp_all add: chan_value_resume_def value_resume_def\<close>)
qed

section \<open>What the consumer may rely on\<close>

text \<open>
  The promise without pointers: while the coroutine is suspended the consumer sees either an object of the
  coroutine itself or one of its own, which nobody else sees and which is gone at the next \<open>++\<close>.
\<close>

datatype 'v shown = Itself nat | Own 'v

definition shows_what :: "('v \<Rightarrow> 'e + 'v) \<Rightarrow> yield_kind \<Rightarrow> 'v yield_arg \<Rightarrow> 'v list \<Rightarrow> ('e + 'v shown option) option" where
  "shows_what copy kind arg vs = (let itself = (\<lambda>i. if i < length vs then Some (Inr (Some (Itself i))) else None) in
     case (kind, arg) of
       (OfNothing, _) \<Rightarrow> Some (Inr None)
     | (ByValue, Prvalue v) \<Rightarrow> Some (Inr (Some (Own v)))
     | (ByValue, Xvalue i) \<Rightarrow> itself i
     | (ByValue, Lvalue i) \<Rightarrow> if i < length vs then Some (case copy (vs ! i) of Inl e \<Rightarrow> Inl e | Inr w \<Rightarrow> Inr (Some (Own w))) else None
     | (ByReference, Lvalue i) \<Rightarrow> itself i
     | (_, ByRef i) \<Rightarrow> itself i
     | _ \<Rightarrow> None)"

type_synonym ('v, 'p) shown_state = "'v list \<times> 'v shown option \<times> 'p option"

definition shown_resume :: "('v \<Rightarrow> 'e + 'v) \<Rightarrow> ('v, 'e, 'p) code \<Rightarrow> yield_kind \<Rightarrow> ('v, 'p) shown_state
    \<Rightarrow> ('e option \<times> ('v, 'p) shown_state) option" where
  "shown_resume copy code kind a = (case a of (vs, _, at) \<Rightarrow> (case at of
      None \<Rightarrow> None
    | Some p \<Rightarrow> (let (vs', nx) = code p vs in
        case nx of
          Return \<Rightarrow> Some (None, vs', None, None)
        | Raise e \<Rightarrow> Some (Some e, vs', None, None)
        | CoYield arg p' \<Rightarrow> map_option (case_sum (\<lambda>e. (Some e, vs', None, None)) (\<lambda>w. (None, vs', w, Some p')))
            (shows_what copy kind arg vs'))))"

definition shown_use :: "('v \<Rightarrow> 'v) \<Rightarrow> ('v, 'p) shown_state \<Rightarrow> ('v \<times> ('v, 'p) shown_state) option" where
  "shown_use f a = (case a of
      (vs, Some (Itself i), at) \<Rightarrow> Some (vs ! i, vs[i := f (vs ! i)], Some (Itself i), at)
    | (vs, Some (Own v), at) \<Rightarrow> Some (v, vs, Some (Own (f v)), at)
    | (vs, None, at) \<Rightarrow> None)"

fun shown_consume :: "('v \<Rightarrow> 'e + 'v) \<Rightarrow> ('v, 'e, 'p) code \<Rightarrow> yield_kind \<Rightarrow> 'v consumer_op list \<Rightarrow> ('v, 'p) shown_state
    \<Rightarrow> (('v, 'e) seen list \<times> ('v, 'p) shown_state) option" where
  "shown_consume copy code kind [] a = Some ([], a)"
| "shown_consume copy code kind (Use f # ops) a = do {
     (v, a1) \<leftarrow> shown_use f a; (obs, a2) \<leftarrow> shown_consume copy code kind ops a1; Some (Saw v # obs, a2) }"
| "shown_consume copy code kind (Advance # ops) a = do {
     (x, a1) \<leftarrow> shown_resume copy code kind a; (obs, a2) \<leftarrow> shown_consume copy code kind ops a1;
     Some (Resumed x (if kind = OfNothing then snd (snd a1) = None else fst (snd a1) = None) # obs, a2) }"

text \<open>How the pointers stand for it: the result, if there is one, points to an object that is alive.\<close>

definition shown_at :: "('v, 'p) yielding \<Rightarrow> place \<Rightarrow> 'v shown" where
  "shown_at s p = (case p of Var i \<Rightarrow> Itself i | Temp n \<Rightarrow> Own (the (yd_temps s n)))"

definition shown_abs :: "('v, 'p) yielding \<Rightarrow> ('v, 'p) shown_state" where
  "shown_abs s = (yd_vars s, map_option (shown_at s) (yd_result s), yd_at s)"

definition result_alive :: "yield_kind \<Rightarrow> ('v, 'p) yielding \<Rightarrow> bool" where
  "result_alive kind s \<longleftrightarrow> (case yd_result s of
      None \<Rightarrow> True
    | Some p \<Rightarrow> kind \<noteq> OfNothing \<and> object_at s p \<noteq> None)"

lemmas yield_defs = yield_value_def yield_suspend_def hold_suspend_def show_result_def yield_rvalue_def
  yield_lvalue_def yield_by_ref_def yield_clvalue_def yield_nothing_def new_temp_def

lemma yield_shows:
  assumes "yd_result s = None \<or> kind \<noteq> OfNothing"
  shows "shows_what copy kind arg (yd_vars s) =
      map_option (map_sum (\<lambda>e. e) (\<lambda>(w, s1). fst (snd (shown_abs (yield_suspend kind w s1))))) (yield_value copy kind arg s)"
    and "yield_value copy kind arg s = Some (Inr (w, s1)) \<Longrightarrow> result_alive kind (yield_suspend kind w s1)
      \<and> yd_vars (yield_suspend kind w s1) = yd_vars s"
  using assms
  by (cases kind; cases arg; auto simp: yield_defs shows_what_def shown_abs_def shown_at_def object_at_def
      result_alive_def split: sum.splits if_splits option.splits)+

lemma body_ends_shows:
  assumes "yd_result s = None \<or> kind \<noteq> OfNothing"
  shows "shown_abs (body_ends kind s) = (yd_vars s, None, None)" "result_alive kind (body_ends kind s)"
  using assms by (auto simp: body_ends_def show_result_def shown_abs_def result_alive_def)

lemma at_shows [simp]:
  "shown_at (s\<lparr>yd_at := p\<rparr>) = shown_at s"
  "result_alive kind (s\<lparr>yd_at := p\<rparr>) = result_alive kind s"
  by (auto simp: result_alive_def object_at_def shown_at_def fun_eq_iff split: option.splits place.splits)

lemma resume_shows:
  assumes "result_alive kind s"
  shows "shown_resume copy code kind (shown_abs s) = map_option (\<lambda>(x, s'). (x, shown_abs s')) (value_resume copy code kind s)
    \<and> (\<forall>x s'. value_resume copy code kind s = Some (x, s') \<longrightarrow> result_alive kind s')"
proof -
  have none: "yd_result s = None \<or> kind \<noteq> OfNothing" using assms by (auto simp: result_alive_def split: option.splits)
  show ?thesis
  proof (cases "yd_at s")
    case None
    then show ?thesis by (simp add: shown_resume_def value_resume_def shown_abs_def)
  next
    case (Some p)
    obtain vs nx where c: "code p (yd_vars s) = (vs, nx)" by fastforce
    let ?s1 = "s\<lparr>yd_vars := vs, yd_temps := (\<lambda>_. None)\<rparr>"
    note simps = shown_resume_def value_resume_def Let_def Some c
    have s1: "yd_result ?s1 = None \<or> kind \<noteq> OfNothing" "yd_vars ?s1 = vs" using none by simp_all
    have a: "shown_abs s = (yd_vars s, fst (snd (shown_abs s)), Some p)" by (simp add: shown_abs_def Some)
    show ?thesis
    proof (cases nx)
      case (CoYield arg p')
      from yield_shows[OF s1(1), of copy arg] body_ends_shows[OF s1(1)] s1(2) CoYield show ?thesis
        by (subst a, cases "yield_value copy kind arg ?s1") (auto simp: simps shown_abs_def split: sum.splits prod.splits)
    qed (subst a, use body_ends_shows[OF s1(1)] in \<open>simp add: simps\<close>)+
  qed
qed

lemma use_shows:
  assumes "result_alive kind s"
  shows "shown_use f (shown_abs s) = map_option (\<lambda>(v, s'). (v, shown_abs s')) (use_object kind f s)
    \<and> (\<forall>v s'. use_object kind f s = Some (v, s') \<longrightarrow> result_alive kind s')"
proof (cases "yd_result s")
  case None
  then show ?thesis
    by (simp add: shown_use_def shown_abs_def use_object_def out_deref_def it_deref_def it_at_end_def)
next
  case (Some p)
  with assms obtain v where v: "object_at s p = Some v" "kind \<noteq> OfNothing" by (auto simp: result_alive_def)
  with Some show ?thesis
    by (cases p) (auto simp: shown_use_def shown_abs_def use_object_def out_deref_def it_deref_def it_at_end_def
        object_at_def write_at_def shown_at_def result_alive_def split: if_splits)
qed

lemma at_end_shows:
  "it_at_end kind s = (if kind = OfNothing then snd (snd (shown_abs s)) = None else fst (snd (shown_abs s)) = None)"
  by (simp add: it_at_end_def shown_abs_def)

lemma consume_shows:
  assumes "result_alive kind s"
  shows "shown_consume copy code kind ops (shown_abs s) = map_option (\<lambda>(obs, s'). (obs, shown_abs s')) (consume copy code kind ops s)
    \<and> (\<forall>obs s'. consume copy code kind ops s = Some (obs, s') \<longrightarrow> result_alive kind s')"
  using assms
proof (induction ops arbitrary: s)
  case (Cons op ops)
  show ?case
  proof (cases op)
    case (Use f)
    from use_shows[OF Cons.prems, of f] Cons.IH Use show ?thesis
      by (cases "use_object kind f s") (fastforce split: bind_splits)+
  next
    case Advance
    from resume_shows[OF Cons.prems, of copy code] Cons.IH Advance show ?thesis
      by (cases "value_resume copy code kind s") (fastforce simp: it_incr_def at_end_shows split: bind_splits)+
  qed
qed simp

section \<open>The elements of a range\<close>





fun seen_values :: "('v, 'e) seen list \<Rightarrow> 'v list" where
  "seen_values [] = []"
| "seen_values (Saw v # obs) = v # seen_values obs"
| "seen_values (Resumed x b # obs) = seen_values obs"





lemma start_shows: "result_alive kind (yd_start vs p)" "shown_abs (yd_start vs p) = (vs, None, Some p)"
  by (simp_all add: result_alive_def shown_abs_def yd_start_def)



section \<open>Properties\<close>

text \<open>C11. However a consumer mixes \<open>++\<close> with reading, moving from and writing \<open>*it\<close>, it sees an object of its
  own after \<open>co_yield\<close> of an lvalue or a new value, and the object itself after \<open>co_yield\<close> of \<open>by_ref\<close>, an
  rvalue or, if \<open>Yield\<close> is a reference, an lvalue: then the coroutine finds what the consumer has written. The
  result never points to an object that is dead, and a copy constructor that throws ends the coroutine
  without showing anything.\<close>

theorem yielded_values_refine:
  assumes "result_alive kind s"
  shows "shown_consume copy code kind ops (shown_abs s)
      = map_option (\<lambda>(obs, s'). (obs, shown_abs s')) (consume copy code kind ops s)
    \<and> map_option (\<lambda>(obs, s'). result_alive kind s') (consume copy code kind ops s) \<noteq> Some False"
  using consume_shows[OF assms, of copy code ops] by auto



text \<open>
  A coroutine that yields a copy of its variable and then the variable: what the consumer writes arrives the
  second time only.
\<close>

definition ex_code :: "(nat, nat, nat) code" where
  "ex_code p vs = (vs, if p = 0 then CoYield (Lvalue 0) 1 else if p = 1 then CoYield (ByRef 0) 2
     else if p = 2 then CoYield (Lvalue 0) 3 else Return)"

theorem yielded_values_refine_witness:
  "map_option (\<lambda>(obs, s). seen_values obs) (consume Inr ex_code ByValue
     [Advance, Use (\<lambda>_. 8), Advance, Use (\<lambda>_. 9), Advance, Use (\<lambda>v. v)] (yd_start [7] 0)) = Some [7, 7, 9]"
proof -
  let ?ops = "[Advance, Use (\<lambda>_. 8), Advance, Use (\<lambda>_. 9), Advance, Use (\<lambda>v. v)]"
  have "shown_consume Inr ex_code ByValue ?ops ([7], None, Some 0)
    = Some ([Resumed None False, Saw 7, Resumed None False, Saw 7, Resumed None False, Saw 9], [9], Some (Own 9), Some 3)"
    by (simp add: shown_resume_def ex_code_def shows_what_def shown_use_def)
  with yielded_values_refine[OF start_shows(1), of Inr ex_code ByValue ?ops "[7]" 0]
  have "map_option (\<lambda>(obs, s'). (obs, shown_abs s')) (consume Inr ex_code ByValue ?ops (yd_start [7] 0))
    = Some ([Resumed None False, Saw 7, Resumed None False, Saw 7, Resumed None False, Saw 9], [9], Some (Own 9), Some 3)"
    by (simp add: start_shows(2))
  then show ?thesis by auto
qed

end
