(* ===== verification/Thread_Group.thy ===== *)
theory Thread_Group
  imports Logical_Thread
begin

text \<open>
  Several objects \<open>logical_thread\<close> of one owner (\<open>logical_thread.hpp\<close>): construction, moves, \<open>swap\<close>, the
  destructor and the function templates \<open>stop\<close>, which first request every coroutine to stop and then join
  them all. Every coroutine runs concurrently with the owner, as in \<open>Logical_Thread\<close>.
\<close>

section \<open>Objects and coroutines\<close>

text \<open>
  An object holds \<open>handle_\<close>, and a handle stands for the coroutine with its frame. A member function of the
  owner is a list of operations: the calls of \<open>Logical_Thread\<close> on an object, and the exchanges of handles.
  \<open>lg_busy\<close> is the object whose call has not returned. \<open>lg_stopping\<close> is not in the code: the coroutines that
  a running \<open>stop\<close> is about.
\<close>

datatype lt_op = OpCall lt_call nat | OpTake nat nat | OpSwap nat nat

record lt_group =
  lg_obj :: "nat \<Rightarrow> nat option"
  lg_thr :: "nat \<Rightarrow> lt_sys option"
  lg_todo :: "lt_op list"
  lg_busy :: "nat option"
  lg_stopping :: "nat list"

definition lt_group_init :: lt_group where
  "lt_group_init = \<lparr>lg_obj = (\<lambda>_. None), lg_thr = (\<lambda>_. None), lg_todo = [], lg_busy = None, lg_stopping = []\<rparr>"

text \<open>\<open>handle_ = std::exchange(other.handle_, nullptr)\<close>\<close>

definition lt_take :: "nat \<Rightarrow> nat \<Rightarrow> lt_group \<Rightarrow> lt_group" where
  "lt_take a b g = g\<lparr>lg_obj := (lg_obj g)(b := None, a := lg_obj g b)\<rparr>"

definition lt_swap :: "nat \<Rightarrow> nat \<Rightarrow> lt_group \<Rightarrow> lt_group" where
  "lt_swap a b g = g\<lparr>lg_obj := (lg_obj g)(a := lg_obj g b, b := lg_obj g a)\<rparr>"

text \<open>
  The beginning of a call; without a handle \<open>request_stop\<close> and the destructor do nothing, and \<open>join\<close> and
  \<open>detach\<close> fail their assertion.
\<close>

definition begin_call :: "lt_call \<Rightarrow> nat \<Rightarrow> lt_group \<Rightarrow> lt_group option" where
  "begin_call c a g = (case lg_obj g a of
      None \<Rightarrow> if c = CallStop \<or> c = CallCancel then Some g else None
    | Some h \<Rightarrow> do {
        s \<leftarrow> lg_thr g h;
        s1 \<leftarrow> owner_call c s;
        Some (g\<lparr>lg_thr := (lg_thr g)(h \<mapsto> s1), lg_busy := Some a\<rparr>) })"

text \<open>The rest of a call. When the frame is given up, \<open>handle_ = nullptr\<close>.\<close>

definition go_on_call :: "nat \<Rightarrow> lt_group \<Rightarrow> lt_group option" where
  "go_on_call a g = do {
     h \<leftarrow> lg_obj g a;
     s \<leftarrow> lg_thr g h;
     if ls_owner s = OIdle
     then Some (g\<lparr>lg_obj := (lg_obj g)(a := if ls_joinable s then Some h else None), lg_busy := None\<rparr>)
     else do { s1 \<leftarrow> owner_step s; Some (g\<lparr>lg_thr := (lg_thr g)(h \<mapsto> s1)\<rparr>) } }"

definition group_op :: "lt_group \<Rightarrow> lt_group option" where
  "group_op g = (case lg_busy g of
      Some a \<Rightarrow> go_on_call a g
    | None \<Rightarrow> (case lg_todo g of
        [] \<Rightarrow> None
      | OpCall c a # ops \<Rightarrow> begin_call c a (g\<lparr>lg_todo := ops\<rparr>)
      | OpTake a b # ops \<Rightarrow> Some (lt_take a b (g\<lparr>lg_todo := ops\<rparr>))
      | OpSwap a b # ops \<Rightarrow> Some (lt_swap a b (g\<lparr>lg_todo := ops\<rparr>))))"

definition group_blocked :: "lt_group \<Rightarrow> bool" where
  "group_blocked g \<longleftrightarrow> (case Option.bind (Option.bind (lg_busy g) (lg_obj g)) (lg_thr g) of
      None \<Rightarrow> False | Some s \<Rightarrow> ls_owner s = OAsleep)"

section \<open>What the owner calls\<close>

datatype lt_cmd =
    NewThread nat nat
  | MoveNew nat nat
  | MoveAssign nat nat
  | SwapThreads nat nat
  | CallOn lt_call nat
  | StopAll "nat list"

fun lt_expand :: "lt_cmd \<Rightarrow> lt_op list" where
  "lt_expand (NewThread a h) = []"
| "lt_expand (MoveNew a b) = [OpTake a b]"
| "lt_expand (MoveAssign a b) = [OpCall CallCancel a, OpTake a b]"
| "lt_expand (SwapThreads a b) = [OpSwap a b]"
| "lt_expand (CallOn c a) = [OpCall c a]"
| "lt_expand (StopAll as) = map (OpCall CallStop) as @ map (OpCall CallJoin) as"

text \<open>The preconditions: an object is constructed once, and only a joinable one is joined or detached.\<close>

fun cmd_ok :: "lt_cmd \<Rightarrow> lt_group \<Rightarrow> bool" where
  "cmd_ok (NewThread a h) g = (lg_obj g a = None \<and> lg_thr g h = None)"
| "cmd_ok (MoveNew a b) g = (a \<noteq> b \<and> lg_obj g a = None)"
| "cmd_ok (MoveAssign a b) g = True"
| "cmd_ok (SwapThreads a b) g = True"
| "cmd_ok (CallOn c a) g = (c \<in> {CallJoin, CallDetach} \<longrightarrow> lg_obj g a \<noteq> None)"
| "cmd_ok (StopAll as) g = (distinct as \<and> (\<forall>a\<in>set as. lg_obj g a \<noteq> None))"

definition group_begin :: "lt_cmd \<Rightarrow> lt_group \<Rightarrow> lt_group option" where
  "group_begin cmd g =
     (if lg_busy g \<noteq> None \<or> lg_todo g \<noteq> [] \<or> \<not> cmd_ok cmd g then None
      else (let g1 = g\<lparr>lg_todo := lt_expand cmd, lg_stopping := []\<rparr> in
        case cmd of
          NewThread a h \<Rightarrow> Some (g1\<lparr>lg_obj := (lg_obj g)(a \<mapsto> h), lg_thr := (lg_thr g)(h \<mapsto> lt_init)\<rparr>)
        | StopAll as \<Rightarrow> Some (g1\<lparr>lg_stopping := map (\<lambda>a. the (lg_obj g a)) as\<rparr>)
        | _ \<Rightarrow> Some g1))"

definition group_coro :: "nat \<Rightarrow> lt_group \<Rightarrow> lt_group option" where
  "group_coro h g = do { s \<leftarrow> lg_thr g h; s1 \<leftarrow> coro_step s; Some (g\<lparr>lg_thr := (lg_thr g)(h \<mapsto> s1)\<rparr>) }"

inductive group_reach :: "lt_group \<Rightarrow> bool" where
  group_reach_init: "group_reach lt_group_init"
| group_reach_begin: "group_reach g \<Longrightarrow> group_begin cmd g = Some g' \<Longrightarrow> group_reach g'"
| group_reach_op: "group_reach g \<Longrightarrow> group_op g = Some g' \<Longrightarrow> group_reach g'"
| group_reach_coro: "group_reach g \<Longrightarrow> group_coro h g = Some g' \<Longrightarrow> group_reach g'"

section \<open>The invariant\<close>

text \<open>What is still to do meets its preconditions; \<open>H\<close> are the objects that hold a handle before it.\<close>

fun todo_ok :: "(nat \<Rightarrow> bool) \<Rightarrow> lt_op list \<Rightarrow> bool" where
  "todo_ok H [] = True"
| "todo_ok H (OpCall c a # ops) = (case c of
      CallStop \<Rightarrow> todo_ok H ops
    | CallCancel \<Rightarrow> todo_ok (H(a := False)) ops
    | _ \<Rightarrow> H a \<and> todo_ok (H(a := False)) ops)"
| "todo_ok H (OpTake a b # ops) = (\<not> H a \<and> todo_ok (H(b := False, a := H b)) ops)"
| "todo_ok H (OpSwap a b # ops) = todo_ok (H(a := H b, b := H a)) ops"

definition holds_on :: "lt_group \<Rightarrow> nat \<Rightarrow> bool" where
  "holds_on g a \<longleftrightarrow> (case Option.bind (lg_obj g a) (lg_thr g) of
      None \<Rightarrow> False | Some s \<Rightarrow> ls_joinable s \<and> ls_owner s = OIdle)"

definition no_stop :: "lt_op list \<Rightarrow> bool" where
  "no_stop ops \<longleftrightarrow> (\<forall>a. OpCall CallStop a \<notin> set ops)"

fun stops_first :: "lt_op list \<Rightarrow> bool" where
  "stops_first [] = True"
| "stops_first (op # ops) = (case op of
      OpCall c a \<Rightarrow> if c = CallStop then stops_first ops else no_stop ops
    | _ \<Rightarrow> no_stop ops)"

definition stop_asked :: "lt_sys \<Rightarrow> bool" where
  "stop_asked s \<longleftrightarrow> (case ls_frame s of None \<Rightarrow> True | Some p \<Rightarrow> lp_stop_requested p)"

definition group_inv :: "lt_group \<Rightarrow> bool" where
  "group_inv g \<longleftrightarrow> (\<forall>h s. lg_thr g h = Some s \<longrightarrow> lt_inv s)
   \<and> (\<forall>a h. lg_obj g a = Some h \<longrightarrow> (\<exists>s. lg_thr g h = Some s \<and> (ls_joinable s \<or> lg_busy g = Some a)))
   \<and> (\<forall>a b h. lg_obj g a = Some h \<longrightarrow> lg_obj g b = Some h \<longrightarrow> a = b)
   \<and> (\<forall>h s. lg_thr g h = Some s \<longrightarrow> ls_joinable s \<longrightarrow> (\<exists>a. lg_obj g a = Some h))
   \<and> (\<forall>h s. lg_thr g h = Some s \<longrightarrow> ls_owner s \<noteq> OIdle \<longrightarrow>
        (\<exists>a. lg_busy g = Some a \<and> lg_obj g a = Some h) \<and> no_stop (lg_todo g))
   \<and> (\<forall>a. lg_busy g = Some a \<longrightarrow> lg_obj g a \<noteq> None)
   \<and> todo_ok (holds_on g) (lg_todo g) \<and> stops_first (lg_todo g)
   \<and> (\<forall>h s. h \<in> set (lg_stopping g) \<longrightarrow> lg_thr g h = Some s \<longrightarrow> \<not> stop_asked s \<longrightarrow>
        (\<exists>a. OpCall CallStop a \<in> set (lg_todo g) \<and> lg_obj g a = Some h \<and> ls_joinable s))"

section \<open>What the steps of one coroutine keep\<close>

text \<open>As for the invariant of one thread, with the state written out each case is evaluated.\<close>

lemma coro_step_keeps_cases:
  "pred_option (\<lambda>s1. ls_joinable s1 = j \<and> (ls_owner s1 = OIdle) = (ow = OIdle) \<and>
      (stop_asked \<lparr>ls_frame = fr, ls_coro = c, ls_owner = ow, ls_joinable = j, ls_destroyed = d\<rparr> \<longrightarrow> stop_asked s1))
    (coro_step \<lparr>ls_frame = fr, ls_coro = c, ls_owner = ow, ls_joinable = j, ls_destroyed = d\<rparr>)"
  by (cases c; cases fr; cases ow; simp add: coro_step_def lt_simps stop_asked_def)

lemma coro_step_keeps:
  assumes "coro_step s = Some s1"
  shows "ls_joinable s1 = ls_joinable s" "(ls_owner s1 = OIdle) = (ls_owner s = OIdle)" "stop_asked s \<Longrightarrow> stop_asked s1"
  using coro_step_keeps_cases[of "ls_joinable s" "ls_owner s" "ls_frame s" "ls_coro s" "ls_destroyed s"] assms
  by (cases s; simp)+

lemma owner_step_keeps_cases:
  "pred_option (\<lambda>s1. (ls_owner s1 = OIdle \<longrightarrow> \<not> ls_joinable s1) \<and> (ls_joinable s1 \<longrightarrow> j) \<and>
      (stop_asked \<lparr>ls_frame = fr, ls_coro = c, ls_owner = ow, ls_joinable = j, ls_destroyed = d\<rparr> \<longrightarrow> stop_asked s1))
    (owner_step \<lparr>ls_frame = fr, ls_coro = c, ls_owner = ow, ls_joinable = j, ls_destroyed = d\<rparr>)"
  by (cases ow; cases fr; cases j; simp add: owner_step_def lt_simps stop_asked_def)

lemma owner_step_keeps:
  assumes "owner_step s = Some s1"
  shows "ls_owner s1 = OIdle \<Longrightarrow> \<not> ls_joinable s1" "ls_joinable s1 \<Longrightarrow> ls_joinable s" "stop_asked s \<Longrightarrow> stop_asked s1"
  using owner_step_keeps_cases[of "ls_joinable s" "ls_frame s" "ls_coro s" "ls_owner s" "ls_destroyed s"] assms
  by (cases s; simp)+

lemma owner_call_keeps_cases:
  "pred_option (\<lambda>s1. (if k = CallStop then ls_owner s1 = OIdle \<and> ls_joinable s1 = j \<and> (j \<longrightarrow> stop_asked s1)
        else ls_owner s1 = OIdle \<longrightarrow> \<not> ls_joinable s1) \<and> (ls_joinable s1 \<longrightarrow> j) \<and> ow = OIdle \<and>
      (stop_asked \<lparr>ls_frame = fr, ls_coro = c, ls_owner = ow, ls_joinable = j, ls_destroyed = d\<rparr> \<longrightarrow> stop_asked s1))
    (owner_call k \<lparr>ls_frame = fr, ls_coro = c, ls_owner = ow, ls_joinable = j, ls_destroyed = d\<rparr>)"
  by (cases k; cases ow; cases fr; cases j; simp add: owner_call_def lt_simps stop_asked_def)

lemma owner_call_keeps:
  assumes "owner_call c s = Some s1"
  shows "c = CallStop \<Longrightarrow> ls_owner s1 = OIdle \<and> ls_joinable s1 = ls_joinable s \<and> (ls_joinable s \<longrightarrow> stop_asked s1)"
    "c \<noteq> CallStop \<Longrightarrow> ls_owner s1 = OIdle \<Longrightarrow> \<not> ls_joinable s1"
    "ls_joinable s1 \<Longrightarrow> ls_joinable s" "stop_asked s \<Longrightarrow> stop_asked s1" "ls_owner s = OIdle"
  using owner_call_keeps_cases[of c "ls_joinable s" "ls_owner s" "ls_frame s" "ls_coro s" "ls_destroyed s"] assms
  by (cases s; simp)+

lemma lt_inv_busy: "lt_inv s \<Longrightarrow> ls_owner s \<noteq> OIdle \<Longrightarrow> ls_joinable s"
  by (auto simp: lt_inv_def split: if_splits)

lemma group_invD:
  assumes "group_inv g"
  shows "lg_thr g h = Some s \<Longrightarrow> lt_inv s"
    "lg_obj g a = Some h \<Longrightarrow> \<exists>s. lg_thr g h = Some s \<and> (ls_joinable s \<or> lg_busy g = Some a)"
    "lg_obj g a = Some h \<Longrightarrow> lg_obj g b = Some h \<Longrightarrow> a = b"
    "lg_thr g h = Some s \<Longrightarrow> ls_joinable s \<Longrightarrow> \<exists>a. lg_obj g a = Some h"
    "lg_thr g h = Some s \<Longrightarrow> ls_owner s \<noteq> OIdle \<Longrightarrow> (\<exists>a. lg_busy g = Some a \<and> lg_obj g a = Some h) \<and> no_stop (lg_todo g)"
    "lg_busy g = Some a \<Longrightarrow> lg_obj g a \<noteq> None"
    "todo_ok (holds_on g) (lg_todo g)" "stops_first (lg_todo g)"
    "h \<in> set (lg_stopping g) \<Longrightarrow> lg_thr g h = Some s \<Longrightarrow> \<not> stop_asked s \<Longrightarrow>
       \<exists>a. OpCall CallStop a \<in> set (lg_todo g) \<and> lg_obj g a = Some h \<and> ls_joinable s"
  using assms unfolding group_inv_def by blast+

lemma group_invI:
  assumes "\<And>h s. lg_thr g h = Some s \<Longrightarrow> lt_inv s"
    "\<And>a h. lg_obj g a = Some h \<Longrightarrow> \<exists>s. lg_thr g h = Some s \<and> (ls_joinable s \<or> lg_busy g = Some a)"
    "\<And>a b h. lg_obj g a = Some h \<Longrightarrow> lg_obj g b = Some h \<Longrightarrow> a = b"
    "\<And>h s. lg_thr g h = Some s \<Longrightarrow> ls_joinable s \<Longrightarrow> \<exists>a. lg_obj g a = Some h"
    "\<And>h s. lg_thr g h = Some s \<Longrightarrow> ls_owner s \<noteq> OIdle \<Longrightarrow> (\<exists>a. lg_busy g = Some a \<and> lg_obj g a = Some h) \<and> no_stop (lg_todo g)"
    "\<And>a. lg_busy g = Some a \<Longrightarrow> lg_obj g a \<noteq> None"
    "todo_ok (holds_on g) (lg_todo g)" "stops_first (lg_todo g)"
    "\<And>h s. h \<in> set (lg_stopping g) \<Longrightarrow> lg_thr g h = Some s \<Longrightarrow> \<not> stop_asked s \<Longrightarrow>
       \<exists>a. OpCall CallStop a \<in> set (lg_todo g) \<and> lg_obj g a = Some h \<and> ls_joinable s"
  shows "group_inv g"
  using assms unfolding group_inv_def by blast

section \<open>Every step keeps the invariant\<close>

lemma holds_on_simps:
  "lg_obj g a = None \<Longrightarrow> \<not> holds_on g a"
  "lg_obj g a = Some h \<Longrightarrow> lg_thr g h = Some s \<Longrightarrow> holds_on g a \<longleftrightarrow> ls_joinable s \<and> ls_owner s = OIdle"
  by (simp_all add: holds_on_def)

lemma holds_on_cong:
  "lg_obj g' b = lg_obj g b \<Longrightarrow> (\<And>k. lg_obj g b = Some k \<Longrightarrow> lg_thr g' k = lg_thr g k) \<Longrightarrow> holds_on g' b = holds_on g b"
  by (cases "lg_obj g b") (simp_all add: holds_on_def)

lemma holds_on_upd:
  assumes "lg_obj g a = Some h" "\<And>b. lg_obj g b = Some h \<Longrightarrow> b = a"
    and g': "lg_obj g' = lg_obj g" "lg_thr g' = (lg_thr g)(h \<mapsto> s1)"
  shows "holds_on g' = (holds_on g)(a := ls_joinable s1 \<and> ls_owner s1 = OIdle)"
proof
  fix b
  show "holds_on g' b = ((holds_on g)(a := ls_joinable s1 \<and> ls_owner s1 = OIdle)) b"
  proof (cases "b = a")
    case True
    with assms(1) g' show ?thesis by (simp add: holds_on_simps(2)[of g' a h s1])
  next
    case False
    with assms(2) have "lg_obj g b \<noteq> Some h" by blast
    with False show ?thesis using holds_on_cong[of g' b g] g' by fastforce
  qed
qed

lemma group_inv_coro:
  assumes inv: "group_inv g" and step: "group_coro h g = Some g'"
  shows "group_inv g'"
proof -
  from step obtain s s1 where s: "lg_thr g h = Some s" "coro_step s = Some s1" "g' = g\<lparr>lg_thr := (lg_thr g)(h \<mapsto> s1)\<rparr>"
    by (auto simp: group_coro_def split: bind_splits)
  note D = group_invD[OF inv] and K = coro_step_keeps[OF s(2)]
  have holds: "holds_on g' = holds_on g"
  proof
    fix a
    show "holds_on g' a = holds_on g a" using s K(1,2) by (cases "lg_obj g a") (auto simp: holds_on_def)
  qed
  have new: "lt_inv s1" by (rule coro_step_inv[OF D(1)[OF s(1)] s(2)])
  show ?thesis
  proof (rule group_invI)
    show "lt_inv u" if "lg_thr g' k = Some u" for k u
      using that s(3) D(1)[of k u] new by (simp split: if_splits)
    show "\<exists>s. lg_thr g' k = Some s \<and> (ls_joinable s \<or> lg_busy g' = Some a)" if "lg_obj g' a = Some k" for a k
      using D(2)[of a k] that s K by auto
    show "a = b" if "lg_obj g' a = Some k" "lg_obj g' b = Some k" for a b k using that D(3) s by simp
    show "\<exists>a. lg_obj g' a = Some k" if "lg_thr g' k = Some u" "ls_joinable u" for k u
      using that s D(4)[of h s] D(4)[of k u] K by (auto split: if_splits)
    show "(\<exists>a. lg_busy g' = Some a \<and> lg_obj g' a = Some k) \<and> no_stop (lg_todo g')"
      if "lg_thr g' k = Some u" "ls_owner u \<noteq> OIdle" for k u
    proof (cases "k = h")
      case True
      with that s(3) K(2) have "ls_owner s \<noteq> OIdle" by simp
      with D(5)[OF s(1)] s(3) True show ?thesis by simp
    next
      case False
      with that s(3) D(5)[of k u] show ?thesis by simp
    qed
    show "lg_obj g' a \<noteq> None" if "lg_busy g' = Some a" for a using that s D(6) by simp
    show "todo_ok (holds_on g') (lg_todo g')" "stops_first (lg_todo g')" using holds D(7,8) s by simp_all
    show "\<exists>a. OpCall CallStop a \<in> set (lg_todo g') \<and> lg_obj g' a = Some k \<and> ls_joinable u"
      if "k \<in> set (lg_stopping g')" "lg_thr g' k = Some u" "\<not> stop_asked u" for k u
    proof (cases "k = h")
      case True
      with that s(3) K(3) have "\<not> stop_asked s" "h \<in> set (lg_stopping g)" "u = s1" by auto
      with D(9)[OF _ s(1)] True s(3) K(1) show ?thesis by simp
    next
      case False
      with that s(3) D(9)[of k u] show ?thesis by simp
    qed
  qed
qed

lemma group_inv_go_on:
  assumes inv: "group_inv g" and busy: "lg_busy g = Some a" and step: "go_on_call a g = Some g'"
  shows "group_inv g'"
proof -
  from step obtain h s where s: "lg_obj g a = Some h" "lg_thr g h = Some s"
    by (auto simp: go_on_call_def split: bind_splits)
  note D = group_invD[OF inv]
  have one: "b = a" if "lg_obj g b = Some h" for b using D(3) that s(1) by blast
  show ?thesis
  proof (cases "ls_owner s = OIdle")
    case True
    then have g': "g' = g\<lparr>lg_obj := (lg_obj g)(a := if ls_joinable s then Some h else None), lg_busy := None\<rparr>"
      using step s by (simp add: go_on_call_def)
    have idle: "ls_owner u = OIdle" if "lg_thr g k = Some u" for k u
    proof (rule ccontr)
      assume "ls_owner u \<noteq> OIdle"
      with D(5)[OF that] busy s that True show False by simp
    qed
    have holds: "holds_on g' = holds_on g"
    proof
      fix b
      show "holds_on g' b = holds_on g b"
      proof (cases "b = a \<and> \<not> ls_joinable s")
        case True
        then have "\<not> holds_on g' a" using g' by (intro holds_on_simps(1)) simp
        with True s show ?thesis by (simp add: holds_on_simps(2)[of g a h s])
      next
        case False
        with s(1) g' show ?thesis by (intro holds_on_cong) auto
      qed
    qed
    have old: "lg_obj g b = Some k" if "lg_obj g' b = Some k" for b k
      using that g' s(1) by (auto split: if_splits)
    have stays: "lg_obj g' b = Some k" if "lg_obj g b = Some k" "lg_thr g k = Some u" "ls_joinable u" for b k u
      using that g' s by auto
    show ?thesis
    proof (rule group_invI)
      show "\<exists>s. lg_thr g' k = Some s \<and> (ls_joinable s \<or> lg_busy g' = Some b)" if "lg_obj g' b = Some k" for b k
        using D(2)[of b k] that s g' busy by (auto split: if_splits)
      show "b = c" if "lg_obj g' b = Some k" "lg_obj g' c = Some k" for b c k
        by (rule D(3)[OF old[OF that(1)] old[OF that(2)]])
      show "\<exists>b. lg_obj g' b = Some k" if "lg_thr g' k = Some u" "ls_joinable u" for k u
      proof -
        have "lg_thr g k = Some u" using that g' by simp
        with D(4)[OF this that(2)] stays that(2) show ?thesis by blast
      qed
      show "\<exists>b. OpCall CallStop b \<in> set (lg_todo g') \<and> lg_obj g' b = Some k \<and> ls_joinable u"
        if "k \<in> set (lg_stopping g')" "lg_thr g' k = Some u" "\<not> stop_asked u" for k u
      proof -
        from that g' D(9)[of k u] obtain b where b: "OpCall CallStop b \<in> set (lg_todo g)" "lg_obj g b = Some k" "ls_joinable u"
          by auto
        moreover have "lg_thr g k = Some u" "lg_todo g' = lg_todo g" using that g' by simp_all
        ultimately show ?thesis using stays by metis
      qed
    qed (use D g' holds idle in auto)
  next
    case False
    with step s obtain s1 where s1: "owner_step s = Some s1" "g' = g\<lparr>lg_thr := (lg_thr g)(h \<mapsto> s1)\<rparr>"
      by (auto simp: go_on_call_def split: bind_splits)
    note K = owner_step_keeps[OF s1(1)]
    have "\<not> holds_on g a" using s False by (simp add: holds_on_def)
    then have holds: "holds_on g' = holds_on g" 
    proof -
      have "(ls_joinable s1 \<and> ls_owner s1 = OIdle) = holds_on g a" using K(1) \<open>\<not> holds_on g a\<close> by blast
      moreover have "holds_on g' = (holds_on g)(a := ls_joinable s1 \<and> ls_owner s1 = OIdle)"
        by (rule holds_on_upd[OF s(1) one]) (use s1 in simp_all)
      ultimately show ?thesis by (simp only: fun_upd_triv)
    qed
    show ?thesis
    proof (rule group_invI)
      show "lt_inv u" if "lg_thr g' k = Some u" for k u
          using that s1(2) D(1)[of k u] owner_step_inv[OF D(1)[OF s(2)] s1(1)] by (simp split: if_splits)
      show "\<exists>s. lg_thr g' k = Some s \<and> (ls_joinable s \<or> lg_busy g' = Some b)" if "lg_obj g' b = Some k" for b k
      proof (cases "b = a")
        case True
        with that s1(2) s(1) busy show ?thesis by simp
      next
        case False
        with that one s1(2) have "k \<noteq> h" by auto
        with that D(2)[of b k] s1(2) show ?thesis by simp
      qed
      show "\<exists>b. lg_obj g' b = Some k" if "lg_thr g' k = Some u" "ls_joinable u" for k u
        using that D(4)[of k u] s s1 by (auto split: if_splits)
      show "(\<exists>b. lg_busy g' = Some b \<and> lg_obj g' b = Some k) \<and> no_stop (lg_todo g')"
        if "lg_thr g' k = Some u" "ls_owner u \<noteq> OIdle" for k u
      proof (cases "k = h")
        case True
        with D(5)[OF s(2) False] s1(2) show ?thesis by simp
      next
        case False
        with that s1(2) D(5)[of k u] show ?thesis by simp
      qed
      show "\<exists>b. OpCall CallStop b \<in> set (lg_todo g') \<and> lg_obj g' b = Some k \<and> ls_joinable u"
        if "k \<in> set (lg_stopping g')" "lg_thr g' k = Some u" "\<not> stop_asked u" for k u
      proof (cases "k = h")
        case True
        with that s1(2) K(3) have "\<not> stop_asked s" "h \<in> set (lg_stopping g)" by auto
        from D(9)[OF this(2) s(2) this(1)] D(5)[OF s(2) False] show ?thesis by (auto simp: no_stop_def)
      next
        case False
        with that s1(2) D(9)[of k u] show ?thesis by simp
      qed
    qed (use D s1 holds in auto)
  qed
qed

lemma no_stop_stops_first: "no_stop ops \<Longrightarrow> stops_first ops"
proof (induction ops)
  case (Cons op ops)
  then show ?case by (cases op) (auto simp: no_stop_def)
qed simp

lemma stops_first_tl: "stops_first (op # ops) \<Longrightarrow> stops_first ops"
  by (cases op) (auto intro: no_stop_stops_first split: if_splits)

lemma group_inv_idle:
  assumes "group_inv g" and "lg_busy g = None" and "lg_thr g h = Some s"
  shows "ls_owner s = OIdle"
  using group_invD(5)[OF assms(1,3)] assms(2) by auto

lemma group_inv_call:
  assumes inv: "group_inv g" and todo: "lg_todo g = OpCall c a # ops" "lg_busy g = None"
    and step: "begin_call c a (g\<lparr>lg_todo := ops\<rparr>) = Some g'"
  shows "group_inv g'"
proof -
  note D = group_invD[OF inv]
  note idle = group_inv_idle[OF inv todo(2)]
  have tl: "stops_first ops" by (rule stops_first_tl[of "OpCall c a"]) (use D(8) todo(1) in simp)
  show ?thesis
  proof (cases "lg_obj g a")
    case None
    with step have g': "g' = g\<lparr>lg_todo := ops\<rparr>" and c: "c = CallStop \<or> c = CallCancel"
      by (auto simp: begin_call_def split: if_splits)
    have H: "holds_on g' = holds_on g" "(holds_on g)(a := False) = holds_on g"
      using g' holds_on_simps(1)[OF None] by (auto simp: holds_on_def fun_upd_idem_iff)
    show ?thesis
    proof (rule group_invI)
      show "todo_ok (holds_on g') (lg_todo g')" using D(7) todo c g' H by auto
      show "stops_first (lg_todo g')" using tl g' by simp
      show "\<exists>b. OpCall CallStop b \<in> set (lg_todo g') \<and> lg_obj g' b = Some k \<and> ls_joinable u"
        if "k \<in> set (lg_stopping g')" "lg_thr g' k = Some u" "\<not> stop_asked u" for k u
        using D(9)[of k u] that g' todo None by auto
    qed (use D g' idle todo in auto)
  next
    case (Some h)
    with step obtain s s1 where s: "lg_thr g h = Some s" "owner_call c s = Some s1"
      "g' = g\<lparr>lg_todo := ops, lg_thr := (lg_thr g)(h \<mapsto> s1), lg_busy := Some a\<rparr>"
      by (auto simp: begin_call_def split: bind_splits)
    note K = owner_call_keeps[OF s(2)]
    have one: "b = a" if "lg_obj g b = Some h" for b using D(3) that Some by blast
    have joinable: "ls_joinable s" using D(2)[OF Some] s(1) todo by auto
    have new: "lt_inv s1" by (rule owner_call_inv[OF D(1)[OF s(1)] s(2)])
    have "holds_on g' = (holds_on g)(a := ls_joinable s1 \<and> ls_owner s1 = OIdle)"
      by (rule holds_on_upd[OF Some one]) (use s in simp_all)
    moreover have "holds_on g a" using holds_on_simps(2)[OF Some s(1)] joinable K(5) by simp
    moreover have "(ls_joinable s1 \<and> ls_owner s1 = OIdle) = (c = CallStop)"
      using K(1,2) joinable by (cases "c = CallStop") blast+
    ultimately have H: "holds_on g' = (if c = CallStop then holds_on g else (holds_on g)(a := False))"
      by (simp add: fun_upd_idem)
    have first: "c \<noteq> CallStop \<Longrightarrow> no_stop ops" using D(8) todo by simp
    show ?thesis
    proof (rule group_invI)
      show "lt_inv u" if "lg_thr g' k = Some u" for k u using that s(3) D(1)[of k u] new by (simp split: if_splits)
      show "\<exists>s. lg_thr g' k = Some s \<and> (ls_joinable s \<or> lg_busy g' = Some b)" if "lg_obj g' b = Some k" for b k
        using D(2)[of b k] that s(3) one todo(2) by auto
      show "\<exists>b. lg_obj g' b = Some k" if "lg_thr g' k = Some u" "ls_joinable u" for k u
      proof (cases "k = h")
        case True
        with Some s(3) show ?thesis by auto
      next
        case False
        with that s(3) D(4)[of k u] show ?thesis by simp
      qed
      show "(\<exists>b. lg_busy g' = Some b \<and> lg_obj g' b = Some k) \<and> no_stop (lg_todo g')"
        if "lg_thr g' k = Some u" "ls_owner u \<noteq> OIdle" for k u
      proof (cases "k = h")
        case True
        with that s(3) have "ls_owner s1 \<noteq> OIdle" by simp
        with K(1) have "c \<noteq> CallStop" by blast
        with first True Some s(3) show ?thesis by simp
      next
        case False
        with that s(3) idle[of k u] show ?thesis by simp
      qed
      show "todo_ok (holds_on g') (lg_todo g')" using D(7) todo s(3) H by (cases c) auto
      show "stops_first (lg_todo g')" using tl s(3) by simp
      show "\<exists>b. OpCall CallStop b \<in> set (lg_todo g') \<and> lg_obj g' b = Some k \<and> ls_joinable u"
        if "k \<in> set (lg_stopping g')" "lg_thr g' k = Some u" "\<not> stop_asked u" for k u
      proof (cases "k = h")
        case True
        with that s(3) K(4) have "\<not> stop_asked s" "h \<in> set (lg_stopping g)" "u = s1" by auto
        with D(9)[OF _ s(1)] first todo have "c = CallStop" by (auto simp: no_stop_def)
        with K(1) joinable that(3) \<open>u = s1\<close> show ?thesis by blast
      next
        case False
        with that s(3) D(9)[of k u] todo Some show ?thesis by fastforce
      qed
    qed (use D s Some in auto)
  qed
qed

text \<open>With nothing in the object that takes it, taking a handle is swapping.\<close>

lemma group_inv_swapped:
  assumes inv: "group_inv g" and busy: "lg_busy g = None"
    and g': "lg_thr g' = lg_thr g" "lg_busy g' = None" "lg_obj g' = (lg_obj g)(a := lg_obj g b, b := lg_obj g a)"
    and todo: "no_stop (lg_todo g)" "no_stop (lg_todo g')" "todo_ok ((holds_on g)(a := holds_on g b, b := holds_on g a)) (lg_todo g')"
    and stopping: "lg_stopping g' = lg_stopping g"
  shows "group_inv g'"
proof -
  note D = group_invD[OF inv]
  let ?p = "\<lambda>x. if x = a then b else if x = b then a else x"
  have obj: "lg_obj g' x = lg_obj g (?p x)" for x using g'(3) by simp
  have holds: "holds_on g' = (holds_on g)(a := holds_on g b, b := holds_on g a)"
  proof
    fix x
    have "holds_on g' x = holds_on g (?p x)" using obj[of x] g'(1) by (simp add: holds_on_def)
    then show "holds_on g' x = ((holds_on g)(a := holds_on g b, b := holds_on g a)) x" by simp
  qed
  show ?thesis
  proof (rule group_invI)
    show "\<exists>s. lg_thr g' k = Some s \<and> (ls_joinable s \<or> lg_busy g' = Some x)" if "lg_obj g' x = Some k" for x k
      using D(2)[of "?p x" k] that obj[of x] g'(1) busy by auto
    show "x = y" if "lg_obj g' x = Some k" "lg_obj g' y = Some k" for x y k
      using D(3)[of "?p x" k "?p y"] that obj by (metis (full_types))
    show "\<exists>x. lg_obj g' x = Some k" if "lg_thr g' k = Some u" "ls_joinable u" for k u
    proof -
      from D(4)[of k u] that g'(1) obtain x where "lg_obj g x = Some k" by auto
      then have "lg_obj g' (?p x) = Some k" unfolding obj by auto
      then show ?thesis by blast
    qed
    show "(\<exists>x. lg_busy g' = Some x \<and> lg_obj g' x = Some k) \<and> no_stop (lg_todo g')"
      if "lg_thr g' k = Some u" "ls_owner u \<noteq> OIdle" for k u
      using D(5)[of k u] that g'(1) busy by simp
    show "todo_ok (holds_on g') (lg_todo g')" "stops_first (lg_todo g')"
      using holds todo(2,3) no_stop_stops_first by simp_all
    show "\<exists>x. OpCall CallStop x \<in> set (lg_todo g') \<and> lg_obj g' x = Some k \<and> ls_joinable u"
      if "k \<in> set (lg_stopping g')" "lg_thr g' k = Some u" "\<not> stop_asked u" for k u
      using D(9)[of k u] that g'(1) stopping todo(1) by (auto simp: no_stop_def)
  qed (use D(1) g' in auto)
qed

lemma holds_on_idle:
  assumes "group_inv g" and "lg_busy g = None"
  shows "holds_on g x \<longleftrightarrow> lg_obj g x \<noteq> None"
proof (cases "lg_obj g x")
  case (Some h)
  from group_invD(2)[OF assms(1) Some] assms(2) obtain s where "lg_thr g h = Some s" "ls_joinable s" by auto
  with group_inv_idle[OF assms] Some show ?thesis by (simp add: holds_on_simps(2)[OF Some])
qed (simp add: holds_on_simps(1))

lemma group_inv_exchange:
  assumes inv: "group_inv g" and todo: "lg_todo g = op # ops" and busy: "lg_busy g = None"
    and op: "op = OpTake a b \<and> g' = lt_take a b (g\<lparr>lg_todo := ops\<rparr>) \<or> op = OpSwap a b \<and> g' = lt_swap a b (g\<lparr>lg_todo := ops\<rparr>)"
  shows "group_inv g'"
proof -
  note D = group_invD[OF inv]
  note holds = holds_on_idle[OF inv busy]
  have stop: "no_stop ops" using D(8) todo op by auto
  have null: "op = OpTake a b \<Longrightarrow> lg_obj g a = None" using D(7) todo holds by auto
  show ?thesis
  proof (rule group_inv_swapped[OF inv busy])
    show "lg_obj g' = (lg_obj g)(a := lg_obj g b, b := lg_obj g a)"
      using op null by (auto simp: lt_take_def lt_swap_def fun_eq_iff)
    have "(holds_on g)(b := False, a := holds_on g b) = (holds_on g)(a := holds_on g b, b := holds_on g a)" if "op = OpTake a b"
      using null[OF that] holds by (auto simp: fun_eq_iff)
    with D(7) todo op show "todo_ok ((holds_on g)(a := holds_on g b, b := holds_on g a)) (lg_todo g')"
      by (auto simp: lt_take_def lt_swap_def)
  qed (use stop op todo busy in \<open>auto simp: lt_take_def lt_swap_def no_stop_def\<close>)
qed

lemma group_inv_op:
  assumes inv: "group_inv g" and step: "group_op g = Some g'"
  shows "group_inv g'"
proof (cases "lg_busy g")
  case (Some a)
  with step group_inv_go_on[OF inv] show ?thesis by (simp add: group_op_def)
next
  case None
  with step obtain op ops where todo: "lg_todo g = op # ops" by (auto simp: group_op_def split: list.splits)
  show ?thesis
  proof (cases op)
    case (OpCall c a)
    with step None todo group_inv_call[OF inv _ None] show ?thesis by (simp add: group_op_def)
  qed (use step None todo group_inv_exchange[OF inv todo None] in \<open>auto simp: group_op_def\<close>)
qed

lemma todo_ok_joins: "distinct as \<Longrightarrow> \<forall>a\<in>set as. H a \<Longrightarrow> todo_ok H (map (OpCall CallJoin) as)"
proof (induction as arbitrary: H)
  case (Cons a as)
  have "todo_ok (H(a := False)) (map (OpCall CallJoin) as)" by (rule Cons.IH) (use Cons.prems in auto)
  with Cons.prems show ?case by (simp del: fun_upd_apply)
qed simp

lemma todo_ok_stop_all:
  "distinct as \<Longrightarrow> \<forall>a\<in>set as. H a \<Longrightarrow> todo_ok H (map (OpCall CallStop) bs @ map (OpCall CallJoin) as)"
  by (induction bs) (simp_all add: todo_ok_joins)

lemma stops_first_stop_all: "stops_first (map (OpCall CallStop) bs @ map (OpCall CallJoin) as)"
proof (induction bs)
  case Nil
  show ?case by (cases as) (auto simp: no_stop_def)
qed simp

lemma group_inv_begin:
  assumes inv: "group_inv g" and step: "group_begin cmd g = Some g'"
  shows "group_inv g'"
proof -
  from step have ok: "lg_busy g = None" "lg_todo g = []" "cmd_ok cmd g" by (auto simp: group_begin_def split: if_splits)
  note D = group_invD[OF inv] and idle = group_inv_idle[OF inv ok(1)] and holds = holds_on_idle[OF inv ok(1)]
  have same: "group_inv g'" if g': "lg_obj g' = lg_obj g" "lg_thr g' = lg_thr g" "lg_busy g' = None"
    "todo_ok (holds_on g) (lg_todo g')" "stops_first (lg_todo g')"
    "\<And>h s. h \<in> set (lg_stopping g') \<Longrightarrow> lg_thr g h = Some s \<Longrightarrow>
       \<exists>a. OpCall CallStop a \<in> set (lg_todo g') \<and> lg_obj g a = Some h \<and> ls_joinable s"
  proof -
    have "holds_on g' = holds_on g" using g'(1,2) by (intro ext holds_on_cong) simp_all
    with g'(4) have "todo_ok (holds_on g') (lg_todo g')" by simp
    then show ?thesis using D ok(1) idle g'(1-3,5,6) by (intro group_invI) auto
  qed
  have expanded: "todo_ok (holds_on g) (lt_expand cmd)" "stops_first (lt_expand cmd)"
    using ok(3) holds
    by (cases cmd; auto simp: no_stop_def todo_ok_stop_all stops_first_stop_all split: lt_call.splits)+
  show ?thesis
  proof (cases cmd)
    case (NewThread a h)
    with step ok have g': "g' = g\<lparr>lg_todo := [], lg_stopping := [], lg_obj := (lg_obj g)(a \<mapsto> h), lg_thr := (lg_thr g)(h \<mapsto> lt_init)\<rparr>"
      and new: "lg_obj g a = None" "lg_thr g h = None" by (auto simp: group_begin_def Let_def)
    have other: "lg_obj g b \<noteq> Some h" for b using D(2)[of b h] new(2) by auto
    have init: "ls_joinable lt_init" "ls_owner lt_init = OIdle" by (simp_all add: lt_init_def)
    show ?thesis
    proof (rule group_invI)
      show "lt_inv u" if "lg_thr g' k = Some u" for k u
        using that g' D(1)[of k u] lt_reach_inv[OF lt_reach_init] by (simp split: if_splits)
      show "\<exists>s. lg_thr g' k = Some s \<and> (ls_joinable s \<or> lg_busy g' = Some b)" if "lg_obj g' b = Some k" for b k
        using that g' D(2)[of b k] init ok(1) other[of b] by (auto split: if_splits)
      show "b = c" if "lg_obj g' b = Some k" "lg_obj g' c = Some k" for b c k
        using that g' D(3)[of b k c] other by (auto split: if_splits)
      show "\<exists>b. lg_obj g' b = Some k" if "lg_thr g' k = Some u" "ls_joinable u" for k u
      proof (cases "k = h")
        case True
        then show ?thesis using g' by auto
      next
        case False
        with that g' D(4)[of k u] obtain b where "lg_obj g b = Some k" by auto
        with new(1) g' have "lg_obj g' b = Some k" by auto
        then show ?thesis by blast
      qed
      show "(\<exists>b. lg_busy g' = Some b \<and> lg_obj g' b = Some k) \<and> no_stop (lg_todo g')"
        if "lg_thr g' k = Some u" "ls_owner u \<noteq> OIdle" for k u
        using that g' idle[of k u] init by (auto split: if_splits)
    qed (use g' ok(1) in simp_all)
  next
    case (StopAll as)
    with step ok have g': "g' = g\<lparr>lg_todo := lt_expand cmd, lg_stopping := map (\<lambda>a. the (lg_obj g a)) as\<rparr>"
      by (auto simp: group_begin_def Let_def split: if_splits)
    show ?thesis
    proof (rule same)
      fix h s assume "h \<in> set (lg_stopping g')" "lg_thr g h = Some s"
      with g' obtain a where a: "a \<in> set as" "h = the (lg_obj g a)" by auto
      with ok(3) StopAll have "lg_obj g a = Some h" by auto
      with D(2)[OF this] ok(1) a(1) StopAll g' \<open>lg_thr g h = Some s\<close>
      show "\<exists>a. OpCall CallStop a \<in> set (lg_todo g') \<and> lg_obj g a = Some h \<and> ls_joinable s" by auto
    qed (use g' ok(1) expanded in simp_all)
  qed (rule same; use step ok expanded in \<open>auto simp: group_begin_def Let_def\<close>)+
qed

lemma group_reach_inv: "group_reach g \<Longrightarrow> group_inv g"
proof (induction rule: group_reach.induct)
  case group_reach_init
  show ?case by (rule group_invI) (simp_all add: lt_group_init_def)
qed (auto intro: group_inv_begin group_inv_op group_inv_coro)

section \<open>Properties\<close>

lemma waiting_has_asked:
  assumes "group_inv g" and "lg_thr g h = Some s" and "ls_owner s \<noteq> OIdle"
    and "k \<in> set (lg_stopping g)" and "lg_thr g k = Some u"
  shows "stop_asked u"
  using group_invD(5)[OF assms(1-3)] group_invD(9)[OF assms(1,4,5)] by (auto simp: no_stop_def)

lemma held_alive:
  assumes "group_inv g" and "lg_busy g = None" and "lg_obj g a = Some h"
  shows "\<exists>s p. lg_thr g h = Some s \<and> ls_frame s = Some p"
proof -
  from group_invD(2)[OF assms(1,3)] assms(2) obtain s where s: "lg_thr g h = Some s" "ls_joinable s" by auto
  with group_inv_idle[OF assms(1,2)] group_invD(1)[OF assms(1)] show ?thesis by (fastforce simp: lt_inv_def)
qed

lemma begin_call_defined:
  assumes "lt_inv s" and "ls_owner s = OIdle" and "ls_joinable s \<or> c = CallStop \<or> c = CallCancel"
  shows "owner_call c s \<noteq> None"
  using assms by (cases c) (auto simp: lt_inv_def owner_call_def lt_simps split: if_splits)

text \<open>The notification that may come too late, see \<open>logical_thread_late_notify\<close>, of the owner.\<close>

definition late_detach :: "lt_group \<Rightarrow> bool" where
  "late_detach g \<longleftrightarrow> (case Option.bind (Option.bind (lg_busy g) (lg_obj g)) (lg_thr g) of
      None \<Rightarrow> False | Some s \<Rightarrow> ls_owner s = ODetNotify \<and> ls_frame s = None)"

lemma group_op_defined:
  assumes inv: "group_inv g" and due: "lg_busy g \<noteq> None \<or> lg_todo g \<noteq> []"
  shows "group_op g = None \<longleftrightarrow> group_blocked g \<or> late_detach g"
proof (cases "lg_busy g")
  case (Some a)
  with group_invD(6)[OF inv] obtain h where h: "lg_obj g a = Some h" by blast
  with group_invD(2)[OF inv] obtain s where s: "lg_thr g h = Some s" by blast
  have "owner_step s = None \<longleftrightarrow> ls_owner s = OIdle \<or> ls_owner s = OAsleep \<or> ls_owner s = ODetNotify \<and> ls_frame s = None"
    by (rule owner_step_due[OF group_invD(1)[OF inv s]])
  with Some h s show ?thesis
    by (cases "owner_step s") (auto simp: group_op_def go_on_call_def group_blocked_def late_detach_def)
next
  case None
  with due obtain op ops where todo: "lg_todo g = op # ops" by (cases "lg_todo g") auto
  note holds = holds_on_idle[OF inv None]
  have "group_op g \<noteq> None"
  proof (cases op)
    case (OpCall c a)
    show ?thesis
    proof (cases "lg_obj g a")
      case None
      with group_invD(7)[OF inv] todo OpCall holds have "c = CallStop \<or> c = CallCancel" by (cases c) auto
      with None \<open>lg_busy g = None\<close> todo OpCall show ?thesis by (auto simp: group_op_def begin_call_def)
    next
      case (Some h)
      with group_invD(2)[OF inv Some] \<open>lg_busy g = None\<close> obtain s where s: "lg_thr g h = Some s" "ls_joinable s" by auto
      with begin_call_defined[OF group_invD(1)[OF inv s(1)] group_inv_idle[OF inv \<open>lg_busy g = None\<close> s(1)]]
      obtain s1 where "owner_call c s = Some s1" by blast
      with Some s \<open>lg_busy g = None\<close> todo OpCall show ?thesis by (simp add: group_op_def begin_call_def)
    qed
  qed (use None todo in \<open>simp_all add: group_op_def\<close>)
  with None show ?thesis by (simp add: group_blocked_def late_detach_def)
qed

text \<open>C28. Whatever an owner does with its objects, moving and swapping handles, joining, detaching, stopping
  and destroying them, while their coroutines run: two objects never hold the same coroutine, and a held
  frame is alive; no frame is destroyed twice, and once no object holds anything, the frame of every
  coroutine that has ended is gone. An operation that is due is blocked in a \<open>join\<close> or defined, so no
  assertion fails and no frame is used that is gone, and so is every step of a coroutine, with the exception
  of \<open>notify_one\<close>: \<open>detach\<close>, and a coroutine that has been joined meanwhile, may call it on a flag whose
  frame the other side has just destroyed, and in no other case is a step undefined. While \<open>stop\<close> waits in a
  \<open>join\<close>, all the coroutines it is about have been asked to stop, so none of them waits in vain for another
  one that was not asked yet.\<close>

theorem thread_group_safe:
  assumes "group_reach g"
  shows "(lg_busy g \<noteq> None \<or> lg_todo g \<noteq> [] \<longrightarrow> (group_op g = None \<longleftrightarrow> group_blocked g \<or> late_detach g))
    \<and> (\<forall>h s. lg_thr g h = Some s \<longrightarrow> (group_coro h g = None \<longleftrightarrow> ls_coro s = LEnd \<or> ls_coro s = LNotify \<and> ls_frame s = None))
    \<and> (\<forall>a b h. lg_obj g a = Some h \<and> lg_obj g b = Some h \<longrightarrow> a = b)
    \<and> (\<forall>a h. lg_busy g = None \<and> lg_obj g a = Some h \<longrightarrow> (\<exists>s p. lg_thr g h = Some s \<and> ls_frame s = Some p))
    \<and> (\<forall>h s. lg_thr g h = Some s \<longrightarrow> ls_destroyed s = (if ls_frame s = None then 1 else 0))
    \<and> (\<forall>h s. (\<forall>a. lg_obj g a = None) \<and> lg_thr g h = Some s \<and> ls_coro s = LEnd \<longrightarrow> ls_frame s = None)
    \<and> (\<forall>h s k u. lg_thr g h = Some s \<and> ls_owner s \<noteq> OIdle \<and> k \<in> set (lg_stopping g) \<and> lg_thr g k = Some u
        \<longrightarrow> stop_asked u)"
proof (intro conjI allI impI; (elim conjE)?)
  note inv = group_reach_inv[OF assms]
  note D = group_invD[OF inv]
  show "group_op g = None \<longleftrightarrow> group_blocked g \<or> late_detach g" if "lg_busy g \<noteq> None \<or> lg_todo g \<noteq> []"
    by (rule group_op_defined[OF inv that])
  show "group_coro h g = None \<longleftrightarrow> ls_coro s = LEnd \<or> ls_coro s = LNotify \<and> ls_frame s = None" if "lg_thr g h = Some s" for h s
    using coro_step_due[OF D(1)[OF that]] that by (cases "coro_step s") (auto simp: group_coro_def)
  show "a = b" if "lg_obj g a = Some h" "lg_obj g b = Some h" for a b h by (rule D(3)[OF that])
  show "\<exists>s p. lg_thr g h = Some s \<and> ls_frame s = Some p" if "lg_busy g = None" "lg_obj g a = Some h" for a h
    by (rule held_alive[OF inv that])
  show "ls_destroyed s = (if ls_frame s = None then 1 else 0)" if "lg_thr g h = Some s" for h s
    using D(1)[OF that] by (cases "ls_frame s") (auto simp: lt_inv_def)
  show "ls_frame s = None" if "\<forall>a. lg_obj g a = None" "lg_thr g h = Some s" "ls_coro s = LEnd" for h s
    using D(1)[OF that(2)] D(4)[OF that(2)] that by (auto simp: lt_inv_def split: if_splits)
  show "stop_asked u" if "lg_thr g h = Some s" "ls_owner s \<noteq> OIdle" "k \<in> set (lg_stopping g)" "lg_thr g k = Some u" for h s k u
    by (rule waiting_has_asked[OF inv that])
qed

text \<open>
  Two threads, one of them moved to a third object; \<open>stop\<close> asks both and waits for the first, which has
  not ended yet.
\<close>

fun group_exec :: "(lt_group \<Rightarrow> lt_group option) list \<Rightarrow> lt_group \<Rightarrow> lt_group option" where
  "group_exec [] g = Some g"
| "group_exec (f # fs) g = do { g1 \<leftarrow> f g; group_exec fs g1 }"

definition ex_group :: "(lt_group \<Rightarrow> lt_group option) list" where
  "ex_group = [group_begin (NewThread 0 10), group_begin (NewThread 1 11), group_begin (MoveNew 2 0), group_op,
     group_begin (StopAll [2, 1]), group_op, group_op, group_op, group_op, group_op, group_coro 10]"

lemma group_exec_reach:
  assumes "group_reach g" "group_exec fs g = Some g'"
    "list_all (\<lambda>f. f = group_op \<or> (\<exists>cmd. f = group_begin cmd) \<or> (\<exists>h. f = group_coro h)) fs"
  shows "group_reach g'"
  using assms
proof (induction fs arbitrary: g)
  case (Cons f fs)
  then obtain g1 where "f g = Some g1" "group_exec fs g1 = Some g'" by (auto split: bind_splits)
  with Cons show ?case by (auto intro: group_reach.intros)
qed simp

theorem thread_group_safe_witness:
  "\<exists>g. group_exec ex_group lt_group_init = Some g \<and> group_op g \<noteq> None
     \<and> map_option stop_asked (lg_thr g 11) = Some True"
proof -
  obtain g where g: "group_exec ex_group lt_group_init = Some g" "lg_busy g = Some 2" "\<not> group_blocked g" "\<not> late_detach g"
    "lg_stopping g = [10, 11]" "\<exists>s. lg_thr g 10 = Some s \<and> ls_owner s \<noteq> OIdle" "\<exists>u. lg_thr g 11 = Some u"
    by (simp add: ex_group_def group_begin_def group_op_def begin_call_def go_on_call_def lt_take_def lt_group_init_def
        group_coro_def coro_step_def lt_init_def lt_promise_init_def two_way_bound_init_def owner_call_def
        owner_step_def lt_simps group_blocked_def late_detach_def)
  have "group_reach g" by (rule group_exec_reach[OF group_reach_init g(1)]) (auto simp: ex_group_def)
  note safe = thread_group_safe[OF this]
  from safe g(2-4) have "group_op g \<noteq> None" by blast
  moreover from g(6,7) obtain s u where su: "lg_thr g 10 = Some s" "ls_owner s \<noteq> OIdle" "lg_thr g 11 = Some u" by blast
  moreover have "11 \<in> set (lg_stopping g)" using g(5) by simp
  ultimately have "group_op g \<noteq> None" "stop_asked u" using safe by blast+
  with g(1) su(3) show ?thesis by simp
qed

end
