(* ===== verification/When_Any_Destroyed.thy ===== *)
theory When_Any_Destroyed
  imports When_Any
begin

text \<open>
  \<open>when_any\<close> of \<open>algorithm.hpp\<close> when the coroutine that waits is destroyed from outside. The jobs hold a
  \<open>weak_ptr\<close> to the state, test \<open>expired()\<close> before they start their task and \<open>lock()\<close> it afterwards, so they
  end when nobody waits any more. The handle of the owner in the state is not cleared, though: a job that
  has locked the state still finds it there.
\<close>

text \<open>Destroying the suspended owner drops its \<open>shared_ptr\<close>; \<open>wy_returned\<close> stays empty.\<close>

definition any_owner_destroy :: "nat \<Rightarrow> ('v, 'e) wy_sys \<Rightarrow> ('v, 'e) wy_sys option" where
  "any_owner_destroy n s = (if wy_owner s = AnySuspended
     then Some (drop_state n (s\<lparr>wy_owner := AnyReturned\<rparr>)) else None)"

definition none_reports :: "nat \<Rightarrow> ('v, 'e) wy_sys \<Rightarrow> bool" where
  "none_reports n s \<longleftrightarrow> (\<forall>i<n. \<not> holds_state (wy_jobs s i))"

text \<open>The owner is destroyed while no job is between \<open>lock()\<close> and its end.\<close>

inductive wz_reach :: "(nat \<Rightarrow> ('v, 'e) task_end) \<Rightarrow> nat \<Rightarrow> handle \<Rightarrow> ('v, 'e) wy_sys \<Rightarrow> bool" for outs n own where
  wz_start: "wz_reach outs n own (when_any_init n own)"
| wz_job: "wz_reach outs n own s \<Longrightarrow> job_for_when_any outs n i s = Some s' \<Longrightarrow> wz_reach outs n own s'"
| wz_owner_step: "wz_reach outs n own s \<Longrightarrow> any_owner_finish n s = Some s' \<Longrightarrow> wz_reach outs n own s'"
| wz_destroy: "wz_reach outs n own s \<Longrightarrow> none_reports n s \<Longrightarrow> any_owner_destroy n s = Some s' \<Longrightarrow> wz_reach outs n own s'"

definition nobody_waits :: "nat \<Rightarrow> ('v, 'e) wy_sys \<Rightarrow> bool" where
  "nobody_waits n s \<longleftrightarrow> wy_owner s = AnyReturned \<and> wy_state s = None \<and> none_reports n s
     \<and> wy_resumed s = 0 \<and> wy_returned s = None"

lemma none_reports_upd: "none_reports n s \<Longrightarrow> \<not> holds_state pc \<Longrightarrow> none_reports n (s\<lparr>wy_jobs := (wy_jobs s)(i := pc)\<rparr>)"
  by (simp add: none_reports_def)

lemma holds_state_simps [simp]: "\<not> holds_state YStart" "\<not> holds_state YWait" "\<not> holds_state YEnd"
  by (simp_all add: holds_state_def)

text \<open>The next step of a job is then its end.\<close>

lemma nobody_waits_job:
  assumes "nobody_waits n s" and "i < n" and "wy_jobs s i \<noteq> YEnd"
  shows "job_for_when_any outs n i s = Some (s\<lparr>wy_jobs := (wy_jobs s)(i := YEnd)\<rparr>)"
    and "nobody_waits n (s\<lparr>wy_jobs := (wy_jobs s)(i := YEnd)\<rparr>)"
proof -
  have "wy_jobs s i = YStart \<or> wy_jobs s i = YWait"
    using assms by (cases "wy_jobs s i") (auto simp: nobody_waits_def none_reports_def holds_state_def)
  with assms(1,2) show "job_for_when_any outs n i s = Some (s\<lparr>wy_jobs := (wy_jobs s)(i := YEnd)\<rparr>)"
    by (auto simp: job_for_when_any_def nobody_waits_def expired_def)
  show "nobody_waits n (s\<lparr>wy_jobs := (wy_jobs s)(i := YEnd)\<rparr>)"
    using assms(1) none_reports_upd[of n s YEnd i] by (simp add: nobody_waits_def)
qed

lemma wz_reach_cases:
  assumes "wz_reach outs n own s" and n: "0 < n" "n < 2 ^ 64"
  shows "wy_reach outs n own s \<or> nobody_waits n s"
  using assms(1)
proof (induction rule: wz_reach.induct)
  case wz_start
  show ?case by (simp add: wy_start)
next
  case (wz_job s i s')
  have i: "i < n" "wy_jobs s i \<noteq> YEnd" using wz_job.hyps(2) by (auto simp: job_for_when_any_def split: if_splits)
  from wz_job.IH show ?case
  proof
    assume "wy_reach outs n own s"
    with wz_job.hyps(2) show ?thesis by (auto intro: wy_job)
  next
    assume "nobody_waits n s"
    from nobody_waits_job[OF this i] wz_job.hyps(2) show ?thesis by simp
  qed
next
  case (wz_owner_step s s')
  then show ?case by (auto intro: wy_reach.wy_owner_step simp: any_owner_finish_def nobody_waits_def split: if_splits)
next
  case (wz_destroy s s')
  have sus: "wy_owner s = AnySuspended" using wz_destroy.hyps(3) by (auto simp: any_owner_destroy_def split: if_splits)
  with wz_destroy.IH have reach: "wy_reach outs n own s" by (auto simp: nobody_waits_def)
  with n have "wy_inv outs n own s" by (simp add: wy_reach_inv)
  with sus have "wy_resumed s = 0" "wy_returned s = None" by (simp_all add: wy_inv_def)
  with wz_destroy.hyps sus show ?case
    by (auto simp: any_owner_destroy_def drop_state_def nobody_waits_def none_reports_def)
qed

text \<open>
  Why no job may be between \<open>lock()\<close> and its end: a job that reports a value then gets the handle of the
  owner out of the state and resumes a coroutine that is gone.
\<close>

lemma destroyed_owner_resumed:
  assumes "wy_state s = Some st" and "wa_owner st = Some own" and "wy_jobs s i = YCall" and "outs i = Inr (Inl v)" and "i < n"
    and "any_owner_destroy n s = Some s1"
  shows "Option.bind (job_for_when_any outs n i s1) (job_for_when_any outs n i) = None"
proof -
  from assms have s1: "s1 = s\<lparr>wy_owner := AnyReturned\<rparr>"
    by (auto simp: any_owner_destroy_def drop_state_def holds_state_def split: if_splits)
  with assms have "job_for_when_any outs n i s1 = Some (s1\<lparr>wy_state := Some (st\<lparr>wa_result := Some (i, expected_of v), wa_owner := None\<rparr>),
      wy_jobs := (wy_jobs s1)(i := YRet (Some own))\<rparr>)"
    by (simp add: job_for_when_any_def wa_set_result_def)
  with assms(5) s1 show ?thesis by (simp add: job_for_when_any_def drop_state_def Let_def)
qed

section \<open>Properties\<close>

text \<open>C18. The coroutine that waits for \<open>when_any\<close> may be destroyed from outside while tasks run, provided no
  job is between locking the state and its end. Then every step of every job stays defined: no job reads a
  state that is gone and none resumes the destroyed coroutine; nobody is resumed, and each job ends with its
  next step, before it starts its task if it had not yet. As long as the owner was not destroyed the runs
  are those without destruction.\<close>

theorem when_any_owner_may_be_destroyed:
  assumes "wz_reach outs n own s" and "0 < n" and "n < 2 ^ 64"
  shows "(\<forall>i<n. wy_jobs s i \<noteq> YEnd \<longrightarrow> job_for_when_any outs n i s \<noteq> None)
    \<and> (wy_owner s = AnyRunning \<longrightarrow> any_owner_finish n s \<noteq> None) \<and> wy_resumed s \<le> 1
    \<and> (wy_owner s = AnyReturned \<and> wy_returned s = None \<longrightarrow> wy_resumed s = 0
        \<and> (\<forall>i<n. wy_jobs s i \<noteq> YEnd \<longrightarrow> job_for_when_any outs n i s = Some (s\<lparr>wy_jobs := (wy_jobs s)(i := YEnd)\<rparr>)))
    \<and> (wy_returned s \<noteq> None \<longrightarrow> wy_reach outs n own s)"
proof (cases "nobody_waits n s")
  case True
  from nobody_waits_job(1)[OF this] True show ?thesis by (simp add: nobody_waits_def)
next
  case False
  with wz_reach_cases[OF assms] have r: "wy_reach outs n own s" by blast
  from any_resumed_once[OF r assms(2,3)] r show ?thesis by fastforce
qed

definition destroyed_run :: "(nat, nat) wy_sys" where
  "destroyed_run = (when_any_init 2 9)\<lparr>wy_owner := AnyReturned, wy_state := None, wy_jobs := (\<lambda>_. YStart)(0 := YWait)\<rparr>"

lemma destroyed_run_reach: "wz_reach any_outs 2 9 destroyed_run"
proof -
  let ?s = "(when_any_init 2 9)\<lparr>wy_jobs := (\<lambda>_. YStart)(0 := YWait)\<rparr> :: (nat, nat) wy_sys"
  have "job_for_when_any any_outs 2 0 (when_any_init 2 9) = Some ?s"
    by (simp add: job_for_when_any_def when_any_init_def expired_def)
  from wz_job[OF wz_start this] have "wz_reach any_outs 2 9 ?s" .
  moreover have "none_reports 2 ?s" by (simp add: none_reports_def when_any_init_def)
  moreover have "any_owner_destroy 2 ?s = Some destroyed_run"
    by (simp add: any_owner_destroy_def drop_state_def destroyed_run_def when_any_init_def)
  ultimately show ?thesis by (rule wz_destroy)
qed

theorem when_any_owner_may_be_destroyed_witness:
  "job_for_when_any any_outs 2 0 destroyed_run = Some (destroyed_run\<lparr>wy_jobs := (wy_jobs destroyed_run)(0 := YEnd)\<rparr>)"
  using when_any_owner_may_be_destroyed[OF destroyed_run_reach] by (simp add: destroyed_run_def when_any_init_def)

end
