(* ===== verification/Event_Errors.thy ===== *)
theory Event_Errors
  imports Events
begin

text \<open>
  \<open>events.hpp\<close>, two more operations of an event: \<open>notify_all\<close> when the copy assignment of the input
  throws, and \<open>set_callback\<close>, which subscribes a function by means of a \<open>job\<close>.
\<close>

section \<open>Exceptions of copies\<close>

text \<open>\<open>fails p\<close> is the exception of the assignment to the awaiter at \<open>p\<close>. It leaves \<open>notify_all\<close>, whose local
  variable \<open>top\<close> was the only pointer to the awaiters that are left.\<close>

partial_function (option) notify_loop_ex ::
  "(addr \<Rightarrow> 'e option) \<Rightarrow> (addr \<Rightarrow> ('i, 'z) ev_world_scheme \<Rightarrow> ('i, 'z) ev_world_scheme option) \<Rightarrow> 'i \<Rightarrow> addr option
     \<Rightarrow> ('i, 'z) ev_world_scheme \<Rightarrow> ('e option \<times> ('i, 'z) ev_world_scheme) option" where
  "notify_loop_ex fails attach v t w = (case t of
      None \<Rightarrow> Some (None, w)
    | Some p \<Rightarrow> (case fails p of
          Some e \<Rightarrow> Some (Some e, w)
        | None \<Rightarrow> do {
            w1 \<leftarrow> set_input p v w;
            nxt \<leftarrow> next_of (nodes w1) p;
            w2 \<leftarrow> attach p w1;
            notify_loop_ex fails attach v nxt w2 }))"

definition notify_all_input_ex ::
  "(addr \<Rightarrow> 'e option) \<Rightarrow> (addr \<Rightarrow> ('i, 'z) ev_world_scheme \<Rightarrow> ('i, 'z) ev_world_scheme option) \<Rightarrow> 'i
     \<Rightarrow> ('i, 'z) ev_world_scheme \<Rightarrow> (('e + bool) \<times> ('i, 'z) ev_world_scheme) option" where
  "notify_all_input_ex fails attach v w = (case lf_try_pop_all w of
      (None, w1) \<Rightarrow> Some (Inr False, w1)
    | (Some t, w1) \<Rightarrow> do {
        (r, w2) \<leftarrow> notify_loop_ex fails attach v (Some t) w1;
        Some (case r of Some e \<Rightarrow> Inl e | None \<Rightarrow> Inr True, w2) })"

lemma notify_loop_ex_ok:
  assumes ex: "executor (input_attach attach v) acc" and "node_list (nodes w) t as" and "acc as w"
    and "\<And>p. p \<in> set as \<Longrightarrow> fails p = None"
  shows "notify_loop_ex fails attach v t w = map_option (Pair None) (foldM_opt (input_attach attach v) as w)"
  using assms(2-4)
proof (induction as arbitrary: t w)
  case Nil
  then show ?case by (simp add: notify_loop_ex.simps)
next
  case (Cons p ps)
  from Cons.prems(1) obtain r where t: "t = Some p" and r: "next_of (nodes w) p = Some r" and rest: "node_list (nodes w) r ps"
    by (auto split: option.splits)
  from r obtain nd where nd: "nodes w p = Some nd" by (cases "nodes w p") (auto simp: next_of_def)
  let ?w1 = "w\<lparr>ev_input := (ev_input w)(p \<mapsto> v)\<rparr>"
  have w1: "set_input p v w = Some ?w1" using nd by (simp add: set_input_def)
  show ?case
  proof (cases "attach p ?w1")
    case None
    then show ?thesis using t w1 r Cons.prems(3)[of p] by (simp add: notify_loop_ex.simps[of _ _ _ "Some p"] input_attach_def)
  next
    case (Some w2)
    then have at: "input_attach attach v p w = Some w2" using w1 by (simp add: input_attach_def)
    from executor.spares_rest[OF ex Cons.prems(2) at] have acc: "acc ps w2" and same: "\<forall>q\<in>set ps. nodes w2 q = nodes w q" by auto
    have "node_list (nodes w2) r ps"
      using rest node_list_cong[where h' = "nodes w2" and h = "nodes w" and as = ps and p = r and q = None] same by simp
    from Cons.IH[OF this acc] t w1 r Some Cons.prems(3) show ?thesis
      by (simp add: notify_loop_ex.simps[of _ _ _ "Some p"] input_attach_def)
  qed
qed

lemma notify_loop_ex_fails:
  assumes ex: "executor (input_attach attach v) acc" and "node_list (nodes w) t (qs @ p # ps)" and "acc (qs @ p # ps) w"
    and "\<And>q. q \<in> set qs \<Longrightarrow> fails q = None" and "fails p = Some e"
  shows "notify_loop_ex fails attach v t w = map_option (Pair (Some e)) (foldM_opt (input_attach attach v) qs w)"
  using assms(2-4)
proof (induction qs arbitrary: t w)
  case Nil
  with assms(5) show ?case by (auto simp: notify_loop_ex.simps[of _ _ _ "Some p"] split: option.splits)
next
  case (Cons q qs)
  from Cons.prems(1) obtain r where t: "t = Some q" and r: "next_of (nodes w) q = Some r" and rest: "node_list (nodes w) r (qs @ p # ps)"
    by (auto split: option.splits)
  from r obtain nd where nd: "nodes w q = Some nd" by (cases "nodes w q") (auto simp: next_of_def)
  let ?w1 = "w\<lparr>ev_input := (ev_input w)(q \<mapsto> v)\<rparr>"
  have w1: "set_input q v w = Some ?w1" using nd by (simp add: set_input_def)
  show ?case
  proof (cases "attach q ?w1")
    case None
    then show ?thesis using t w1 r Cons.prems(3)[of q] by (simp add: notify_loop_ex.simps[of _ _ _ "Some q"] input_attach_def)
  next
    case (Some w2)
    then have at: "input_attach attach v q w = Some w2" using w1 by (simp add: input_attach_def)
    from executor.spares_rest[OF ex _ at, of "qs @ p # ps"] Cons.prems(2)
    have acc: "acc (qs @ p # ps) w2" and same: "\<forall>a\<in>set (qs @ p # ps). nodes w2 a = nodes w a" by auto
    have "node_list (nodes w2) r (qs @ p # ps)"
      using rest node_list_cong[where h' = "nodes w2" and h = "nodes w" and as = "qs @ p # ps" and p = r and q = None] same by simp
    from Cons.IH[OF this acc] t w1 r Some Cons.prems(3) show ?thesis
      by (simp add: notify_loop_ex.simps[of _ _ _ "Some q"] input_attach_def)
  qed
qed

section \<open>Callbacks\<close>

text \<open>
  The coroutine of \<open>set_callback\<close> is a job: it runs at once up to \<open>co_await event_\<close>, where its frame \<open>this\<close>
  becomes the awaiter, and its frame is destroyed after the callback \<open>f\<close> returned. \<open>cb_calls\<close> records the
  calls; what else a callback does, to its event too, is any function \<open>f\<close> of its frame and the input.
\<close>

record 'i cb_world = "'i ev_world" +
  cb_calls :: "(handle \<times> 'i) list"

definition set_callback :: "handle \<Rightarrow> 'i cb_world \<Rightarrow> 'i cb_world option" where
  "set_callback this w = (if subscribe_await_ready then None
     else subscribe_await_suspend this this (construct_node this w))"

definition callback_resume :: "(handle \<Rightarrow> 'i \<Rightarrow> 'i cb_world \<Rightarrow> 'i cb_world option) \<Rightarrow> handle \<Rightarrow> 'i cb_world \<Rightarrow> 'i cb_world option" where
  "callback_resume f this w = do {
     i \<leftarrow> subscribe_await_resume this w;
     w1 \<leftarrow> f this i (w\<lparr>cb_calls := cb_calls w @ [(this, i)]\<rparr>);
     Some (destroy_nodes [this] w1) }"

text \<open>
  A callback that returns, leaves the frames that exist alone and sets callbacks on the event, in the new
  frames \<open>again\<close>; the coroutines \<open>qs\<close> that have subscribed before it go on waiting.
\<close>

definition waiting :: "handle list \<Rightarrow> 'i cb_world \<Rightarrow> bool" where
  "waiting qs w \<longleftrightarrow> lf_holds w qs False \<and> own_handles qs w"

definition good_callback ::
  "handle set \<Rightarrow> (handle \<Rightarrow> handle list) \<Rightarrow> (handle \<Rightarrow> 'i \<Rightarrow> 'i cb_world \<Rightarrow> 'i cb_world option) \<Rightarrow> bool" where
  "good_callback A again f \<longleftrightarrow> (\<forall>a i w qs. a \<in> A \<and> nodes w a \<noteq> None \<and> waiting qs w \<and> (\<forall>n\<in>set (again a). nodes w n = None)
     \<longrightarrow> (\<exists>w'. f a i w = Some w' \<and> cb_calls w' = cb_calls w \<and> waiting (rev (again a) @ qs) w'
       \<and> (\<forall>p. p \<notin> set (again a) \<longrightarrow> nodes w' p = nodes w p)))"

lemma set_callback_waits:
  assumes "lf_holds w ps False" "p \<notin> set ps" "p \<noteq> closed_marker"
  obtains w' where "set_callback p w = Some w'" "lf_holds w' (p # ps) False" "task_of (nodes w') p = Some p"
    "cb_calls w' = cb_calls w" "\<And>q. q \<noteq> p \<Longrightarrow> nodes w' q = nodes w q"
proof -
  let ?w = "w\<lparr>nodes := (nodes w)(p \<mapsto> task_node_init\<lparr>nd_task := Some p\<rparr>)\<rparr>"
  have h: "lf_holds ?w ps False" using assms by (simp add: lf_holds_def)
  have "set_callback p w = Some ((linked p ?w (task_node_init\<lparr>nd_task := Some p\<rparr>))\<lparr>lf_top := Some p\<rparr>)"
    by (simp add: set_callback_def subscribe_await_ready_def subscribe_await_suspend_def construct_node_def lf_push_eq)
  moreover from lf_holds_push[OF h assms(2,3)]
  have "lf_holds ((linked p ?w (task_node_init\<lparr>nd_task := Some p\<rparr>))\<lparr>lf_top := Some p\<rparr>) (p # ps) False" .
  ultimately show ?thesis by (rule that) (simp_all add: linked_def)
qed

lemma set_callbacks_wait:
  assumes "lf_holds w ps False" "distinct (rev as @ ps)" "closed_marker \<notin> set as"
    and "\<And>q. q \<in> set ps \<Longrightarrow> task_of (nodes w) q = Some q"
  shows "\<exists>w'. foldM_opt set_callback as w = Some w' \<and> lf_holds w' (rev as @ ps) False \<and> cb_calls w' = cb_calls w
    \<and> (\<forall>q\<in>set (rev as @ ps). task_of (nodes w') q = Some q) \<and> (\<forall>q. q \<notin> set as \<longrightarrow> nodes w' q = nodes w q)"
  using assms
proof (induction as arbitrary: w ps)
  case Nil
  then show ?case by simp
next
  case (Cons a as)
  from Cons.prems(1-3) obtain w1 where w1: "set_callback a w = Some w1" "lf_holds w1 (a # ps) False" "task_of (nodes w1) a = Some a"
    "cb_calls w1 = cb_calls w" "\<And>q. q \<noteq> a \<Longrightarrow> nodes w1 q = nodes w q"
    by (auto elim: set_callback_waits[of w ps a])
  have "task_of (nodes w1) q = Some q" if "q \<in> set (a # ps)" for q
    using that w1(3) w1(5)[of q] Cons.prems(4) by (cases "q = a") auto
  from Cons.IH[OF w1(2) _ _ this] Cons.prems(2,3) obtain w' where
    w': "foldM_opt set_callback as w1 = Some w'" "lf_holds w' (rev as @ a # ps) False" "cb_calls w' = cb_calls w1"
      "\<forall>q\<in>set (rev as @ a # ps). task_of (nodes w') q = Some q" "\<forall>q. q \<notin> set as \<longrightarrow> nodes w' q = nodes w1 q" by auto
  have "nodes w' q = nodes w q" if "q \<notin> set (a # as)" for q using that w'(5) w1(5)[of q] by simp
  with w' w1(1,4) show ?case by simp
qed

lemma waiting_cong:
  assumes "waiting qs w" and "lf_top w' = lf_top w" and "\<And>q. q \<in> set qs \<Longrightarrow> nodes w' q = nodes w q"
  shows "waiting qs w'"
proof -
  have "node_list (nodes w') (lf_top w) qs"
    using assms(1,3) node_list_cong[of qs "nodes w'" "nodes w" "lf_top w" None] by (simp add: waiting_def lf_holds_def)
  with assms show ?thesis by (simp add: waiting_def lf_holds_def own_handles_def)
qed

lemma distinct_concat_rev: "distinct (concat (rev xss)) = distinct (concat xss)"
  by (induction xss) auto

text \<open>\<open>as\<close> are still to be called, \<open>qs\<close> have subscribed meanwhile.\<close>

definition to_call :: "(handle \<Rightarrow> handle list) \<Rightarrow> handle set \<Rightarrow> handle list \<Rightarrow> handle list \<Rightarrow> 'i cb_world \<Rightarrow> bool" where
  "to_call again A as qs w \<longleftrightarrow> own_handles as w \<and> waiting qs w \<and> set as \<subseteq> A \<and> A \<inter> set qs = {}
     \<and> distinct (concat (map again as)) \<and> A \<inter> set (concat (map again as)) = {}
     \<and> (\<forall>n\<in>set (concat (map again as)). nodes w n = None)"

lemma callback_step:
  assumes good: "good_callback A again f" and todo: "to_call again A (a # as) qs w"
  shows "\<exists>w'. input_attach (this_thread_attach (callback_resume f)) v a w = Some w' \<and> to_call again A as (rev (again a) @ qs) w'
    \<and> cb_calls w' = cb_calls w @ [(a, v)] \<and> nodes w' a = None \<and> (\<forall>q\<in>A. q \<noteq> a \<longrightarrow> nodes w' q = nodes w q)"
proof -
  from todo have own: "own_handles (a # as) w" and a: "a \<in> A" and sub: "set as \<subseteq> A" and wait: "waiting qs w"
    and fresh: "\<forall>n\<in>set (again a). nodes w n = None" and dis: "A \<inter> set (again a) = {}" "A \<inter> set qs = {}"
    by (auto simp: to_call_def)
  from own obtain nd where nd: "nodes w a = Some nd" "nd_task nd = Some a"
    by (cases "nodes w a") (auto simp: own_handles_def)
  let ?w = "w\<lparr>ev_input := (ev_input w)(a \<mapsto> v), cb_calls := cb_calls w @ [(a, v)]\<rparr>"
  have "a \<in> A \<and> nodes ?w a \<noteq> None \<and> waiting qs ?w \<and> (\<forall>n\<in>set (again a). nodes ?w n = None)"
    using a nd fresh waiting_cong[OF wait, of ?w] by simp
  with good obtain w1 where "f a v ?w = Some w1 \<and> cb_calls w1 = cb_calls ?w \<and> waiting (rev (again a) @ qs) w1
      \<and> (\<forall>p. p \<notin> set (again a) \<longrightarrow> nodes w1 p = nodes ?w p)" unfolding good_callback_def by blast
  then have w1: "f a v ?w = Some w1" "cb_calls w1 = cb_calls w @ [(a, v)]" "waiting (rev (again a) @ qs) w1"
    "\<And>p. p \<notin> set (again a) \<Longrightarrow> nodes w1 p = nodes w p" by simp_all
  let ?w' = "destroy_nodes [a] w1"
  have step: "input_attach (this_thread_attach (callback_resume f)) v a w = Some ?w'"
    using nd w1(1) by (simp add: input_attach_def set_input_def this_thread_attach_def callback_resume_def subscribe_await_resume_def)
  have kept: "nodes ?w' q = nodes w q" if "q \<notin> set (again a)" "q \<noteq> a" for q using that w1(4) by (simp add: destroy_nodes_def)
  have "waiting (rev (again a) @ qs) ?w'"
    by (rule waiting_cong[OF w1(3)]) (use a dis in \<open>auto simp: destroy_nodes_def\<close>)
  moreover have "nodes ?w' q = nodes w q" if "q \<in> set as" for q
    using that own sub dis(1) by (intro kept) (auto simp: own_handles_def)
  then have "own_handles as ?w'" using own by (simp add: own_handles_def)
  moreover have "nodes ?w' n = None" if "n \<in> set (concat (map again as))" for n
  proof -
    have "n \<notin> set (again a)" "nodes w n = None" "n \<noteq> a" using that todo a by (auto simp: to_call_def)
    with kept show ?thesis by simp
  qed
  ultimately have "to_call again A as (rev (again a) @ qs) ?w'" using todo by (auto simp: to_call_def)
  moreover have "nodes ?w' q = nodes w q" if "q \<in> A" "q \<noteq> a" for q using kept[of q] that dis(1) by auto
  moreover have "nodes ?w' a = None" "cb_calls ?w' = cb_calls w @ [(a, v)]" using w1(2) by (simp_all add: destroy_nodes_def)
  ultimately show ?thesis using step by blast
qed

lemma callbacks_run:
  assumes "good_callback A again f" and "to_call again A as qs w"
  shows "\<exists>w'. foldM_opt (input_attach (this_thread_attach (callback_resume f)) v) as w = Some w'
    \<and> cb_calls w' = cb_calls w @ map (\<lambda>a. (a, v)) as \<and> (\<forall>a\<in>A. a \<in> set as \<or> nodes w a = None \<longrightarrow> nodes w' a = None)
    \<and> waiting (rev (concat (map again as)) @ qs) w'"
  using assms(2)
proof (induction as arbitrary: w qs)
  case Nil
  then show ?case by (simp add: to_call_def)
next
  case (Cons a as)
  from callback_step[OF assms(1) Cons.prems, of v] obtain w1 where
    w1: "input_attach (this_thread_attach (callback_resume f)) v a w = Some w1" "to_call again A as (rev (again a) @ qs) w1"
      "cb_calls w1 = cb_calls w @ [(a, v)]" "nodes w1 a = None" "\<forall>q\<in>A. q \<noteq> a \<longrightarrow> nodes w1 q = nodes w q" by blast
  from Cons.IH[OF w1(2)] obtain w' where
    w': "foldM_opt (input_attach (this_thread_attach (callback_resume f)) v) as w1 = Some w'"
      "cb_calls w' = cb_calls w1 @ map (\<lambda>a. (a, v)) as" "\<forall>a\<in>A. a \<in> set as \<or> nodes w1 a = None \<longrightarrow> nodes w' a = None"
      "waiting (rev (concat (map again as)) @ rev (again a) @ qs) w'" by blast
  have "nodes w' q = None" if "q \<in> A" "q \<in> set (a # as) \<or> nodes w q = None" for q
    using that w'(3) w1(4,5) by (cases "q = a") auto
  then show ?case using w1(1,3) w'(1,2,4) by simp
qed

lemma callbacks_executor:
  assumes "good_callback A again f"
  shows "executor (input_attach (this_thread_attach (callback_resume f)) v) (\<lambda>as w. \<exists>qs. to_call again A as qs w)"
proof unfold_locales
  fix a as and w w' :: "'a cb_world"
  assume "\<exists>qs. to_call again A (a # as) qs w" and at: "input_attach (this_thread_attach (callback_resume f)) v a w = Some w'"
  then obtain qs where todo: "to_call again A (a # as) qs w" by blast
  from callback_step[OF assms todo, of v] at have "to_call again A as (rev (again a) @ qs) w'" "\<forall>q\<in>A. q \<noteq> a \<longrightarrow> nodes w' q = nodes w q"
    by simp_all
  moreover have "set as \<subseteq> A" "a \<notin> set as" using todo by (auto simp: to_call_def own_handles_def)
  ultimately have "\<forall>q\<in>set as. nodes w' q = nodes w q" by auto
  with \<open>to_call again A as (rev (again a) @ qs) w'\<close>
  show "(\<exists>qs. to_call again A as qs w') \<and> (\<forall>q\<in>set as. nodes w' q = nodes w q)" by blast
qed

section \<open>Properties\<close>

text \<open>C31. An exception of a copy leaves \<open>notify_all\<close> after exactly the subscribers before it have received the
  input and were handed to the executor, each once. The subscriber whose copy failed and all behind it are
  neither resumed nor subscribed any more: they are lost. Without an exception this is \<open>notify_all\<close>.\<close>

theorem event_copy_exception_loses_waiters:
  assumes "\<And>a as w w'. acc (a # as) w \<Longrightarrow> attach a w = Some w' \<Longrightarrow> acc as w' \<and> (\<forall>q\<in>set as. nodes w' q = nodes w q)"
    and "\<And>as w f. acc as (w\<lparr>ev_input := f\<rparr>) = acc as w"
    and "lf_holds w ps False" and "acc ps (w\<lparr>lf_top := None\<rparr>)"
  shows "((\<forall>p\<in>set ps. fails p = None) \<longrightarrow>
      notify_all_input_ex fails attach v w = map_option (map_prod Inr (\<lambda>w. w)) (notify_all_input attach v w))
    \<and> (\<forall>qs p rest e. ps = qs @ p # rest \<and> (\<forall>q\<in>set qs. fails q = None) \<and> fails p = Some e \<longrightarrow>
      notify_all_input_ex fails attach v w = map_option (Pair (Inl e)) (foldM_opt (input_attach attach v) qs (w\<lparr>lf_top := None\<rparr>)))"
proof (intro conjI allI impI)
  have nl: "node_list (nodes (w\<lparr>lf_top := None\<rparr>)) (lf_top w) ps" using assms(3) by (simp add: lf_holds_def)
  have fst: "lf_top w = None \<longleftrightarrow> ps = []" using nl by (cases ps) auto
  have nc: "lf_top w \<noteq> None \<Longrightarrow> lf_try_pop_all w = (lf_top w, w\<lparr>lf_top := None\<rparr>)" by (simp add: lf_try_pop_all_def)
  have ex: "executor (input_attach attach v) acc" by (rule input_attach_executor[OF assms(1,2)])
  {
    assume "\<forall>p\<in>set ps. fails p = None"
    then have "notify_loop_ex fails attach v (lf_top w) (w\<lparr>lf_top := None\<rparr>)
        = map_option (Pair None) (notify_loop attach v (lf_top w) (w\<lparr>lf_top := None\<rparr>))"
      by (simp add: notify_loop_ex_ok[OF ex nl assms(4)] notify_loop_fold[OF ex nl assms(4)])
    then show "notify_all_input_ex fails attach v w = map_option (map_prod Inr (\<lambda>w. w)) (notify_all_input attach v w)"
      by (cases "lf_top w"; cases "notify_loop attach v (lf_top w) (w\<lparr>lf_top := None\<rparr>)")
        (simp_all add: notify_all_input_ex_def notify_all_input_def lf_try_pop_all_def)
  }
  fix qs p rest e assume p: "ps = qs @ p # rest \<and> (\<forall>q\<in>set qs. fails q = None) \<and> fails p = Some e"
  then have "notify_loop_ex fails attach v (lf_top w) (w\<lparr>lf_top := None\<rparr>)
      = map_option (Pair (Some e)) (foldM_opt (input_attach attach v) qs (w\<lparr>lf_top := None\<rparr>))"
    using notify_loop_ex_fails[OF ex, of "w\<lparr>lf_top := None\<rparr>" "lf_top w" qs p rest fails e] nl assms(4) by simp
  with p fst show "notify_all_input_ex fails attach v w = map_option (Pair (Inl e)) (foldM_opt (input_attach attach v) qs (w\<lparr>lf_top := None\<rparr>))"
    by (cases "lf_top w"; cases "foldM_opt (input_attach attach v) qs (w\<lparr>lf_top := None\<rparr>)")
      (simp_all add: notify_all_input_ex_def lf_try_pop_all_def)
qed

definition bad_copy :: "addr \<Rightarrow> string option" where
  "bad_copy p = (if p = 2 then Some ''bad_alloc'' else None)"

lemma event_copy_exception_loses_waiters_witness:
  "notify_all_input_ex bad_copy (this_thread_attach free_self) 7 ev_two
   = Some (Inl ''bad_alloc'', \<lparr>nodes = [2 \<mapsto> \<lparr>nd_next = None, nd_task = Some 2, nd_status = ok\<rparr>], lf_top = None, ev_input = [1 \<mapsto> 7]\<rparr>)"
proof -
  have inp: "own_handles as (w\<lparr>ev_input := f\<rparr>) = own_handles as w" for as f and w :: "nat ev_world"
    by (simp add: own_handles_def)
  have holds: "lf_holds ev_two [1, 2] False"
    by (simp add: lf_holds_def ev_two_def two_nodes_def closed_marker_def)
  have own: "own_handles [1, 2] (ev_two\<lparr>lf_top := None\<rparr>)"
    by (simp add: own_handles_def ev_two_def two_nodes_def)
  have "\<forall>qs p rest e. [1, 2] = qs @ p # rest \<and> (\<forall>q\<in>set qs. bad_copy q = None) \<and> bad_copy p = Some e \<longrightarrow>
      notify_all_input_ex bad_copy (this_thread_attach free_self) 7 ev_two
        = map_option (Pair (Inl e)) (foldM_opt (input_attach (this_thread_attach free_self) 7) qs (ev_two\<lparr>lf_top := None\<rparr>))"
    using event_copy_exception_loses_waiters[where acc = own_handles and attach = "this_thread_attach free_self" and w = ev_two
        and ps = "[1, 2]" and v = 7 and fails = bad_copy, OF free_self_spares inp holds own] by (rule conjunct2)
  from this[rule_format, of "[1]" 2 "[]"] have "notify_all_input_ex bad_copy (this_thread_attach free_self) 7 ev_two
      = map_option (Pair (Inl ''bad_alloc'')) (foldM_opt (input_attach (this_thread_attach free_self) 7) [1] (ev_two\<lparr>lf_top := None\<rparr>))"
    by (simp add: bad_copy_def)
  then show ?thesis
    by (simp add: input_attach_def set_input_def this_thread_attach_def free_self_def destroy_nodes_def
        ev_two_def two_nodes_def fun_eq_iff)
qed

text \<open>C30. Every callback that was set on an event is called exactly once by the next notification, with its
  own copy of the input, the last one first, and its frame is freed. The callbacks that they set on the event
  from within their calls, \<open>again\<close>, are not called by this notification: afterwards exactly these are
  subscribed, and wait for the next one.\<close>

theorem event_callbacks_called_once:
  assumes "lf_holds w [] False" and "distinct (as @ concat (map again as))" and "closed_marker \<notin> set as"
    and "\<And>n. n \<in> set (concat (map again as)) \<Longrightarrow> nodes w n = None" and "good_callback (set as) again f"
  shows "\<exists>w1 w2. foldM_opt set_callback as w = Some w1 \<and> cb_calls w1 = cb_calls w
    \<and> notify_all_input (this_thread_attach (callback_resume f)) v w1 = Some (as \<noteq> [], w2)
    \<and> cb_calls w2 = cb_calls w @ map (\<lambda>a. (a, v)) (rev as) \<and> (\<forall>a\<in>set as. nodes w2 a = None)
    \<and> lf_holds w2 (rev (concat (map again (rev as)))) False
    \<and> (\<forall>n\<in>set (concat (map again as)). task_of (nodes w2) n = Some n)"
proof -
  from set_callbacks_wait[OF assms(1), of as] assms(2,3) obtain w1 where
    w1: "foldM_opt set_callback as w = Some w1" "lf_holds w1 (rev as) False" "cb_calls w1 = cb_calls w"
      "\<forall>q\<in>set (rev as). task_of (nodes w1) q = Some q" "\<forall>q. q \<notin> set as \<longrightarrow> nodes w1 q = nodes w q" by auto
  let ?w = "w1\<lparr>lf_top := None\<rparr>"
  have dis: "set as \<inter> set (concat (map again as)) = {}" "distinct (concat (map again as))" using assms(2) by auto
  have "distinct (concat (map again (rev as)))" using dis(2) distinct_concat_rev[of "map again as"] by (simp add: rev_map)
  moreover have "nodes ?w n = None" if "n \<in> set (concat (map again as))" for n
  proof -
    have "n \<notin> set as" using that dis(1) by blast
    then show ?thesis using w1(5) assms(4)[OF that] by simp
  qed
  then have "\<forall>n\<in>set (concat (map again (rev as))). nodes ?w n = None" by simp
  ultimately have todo: "to_call again (set as) (rev as) [] ?w"
    using w1(4) assms(2) dis(1) by (auto simp: to_call_def own_handles_def waiting_def lf_holds_def)
  from callbacks_run[OF assms(5) todo, of v] obtain w2 where
    w2: "foldM_opt (input_attach (this_thread_attach (callback_resume f)) v) (rev as) ?w = Some w2"
      "cb_calls w2 = cb_calls w1 @ map (\<lambda>a. (a, v)) (rev as)" "\<forall>a\<in>set as. nodes w2 a = None"
      "waiting (rev (concat (map again (rev as)))) w2" by auto
  have nl: "node_list (nodes ?w) (lf_top w1) (rev as)" using w1(2) by (simp add: lf_holds_def)
  have "lf_top w1 = None \<longleftrightarrow> as = []" using nl by (cases "rev as") auto
  moreover have "\<exists>qs. to_call again (set as) (rev as) qs ?w" using todo by blast
  ultimately have "notify_all_input (this_thread_attach (callback_resume f)) v w1 = Some (as \<noteq> [], w2)"
    using notify_loop_fold[OF callbacks_executor[OF assms(5)] nl, of v] w2(1)
    by (cases "lf_top w1") (auto simp: notify_all_input_def lf_try_pop_all_def notify_loop.simps[of _ _ None])
  with w1 w2 show ?thesis by (auto simp: waiting_def own_handles_def)
qed

text \<open>The first callback sets one at frame 5.\<close>

definition five_again :: "handle \<Rightarrow> handle list" where
  "five_again h = (if h = 1 then [5] else [])"

definition sets_five :: "handle \<Rightarrow> nat \<Rightarrow> nat cb_world \<Rightarrow> nat cb_world option" where
  "sets_five h i w = (if h = 1 then set_callback 5 w else Some w)"

definition cb_empty :: "nat cb_world" where
  "cb_empty = \<lparr>nodes = Map.empty, lf_top = None, ev_input = Map.empty, cb_calls = []\<rparr>"

lemma sets_five_good: "good_callback {1, 2} five_again sets_five"
  unfolding good_callback_def
proof (intro allI impI; elim conjE)
  fix a i qs and w :: "nat cb_world"
  assume w: "waiting qs w" and fresh: "\<forall>n\<in>set (five_again a). nodes w n = None"
  show "\<exists>w'. sets_five a i w = Some w' \<and> cb_calls w' = cb_calls w \<and> waiting (rev (five_again a) @ qs) w'
      \<and> (\<forall>p. p \<notin> set (five_again a) \<longrightarrow> nodes w' p = nodes w p)"
  proof (cases "a = 1")
    case True
    then have "nodes w 5 = None" using fresh by (simp add: five_again_def)
    with w have n: "5 \<notin> set qs" by (auto simp: waiting_def own_handles_def)
    from w have h: "lf_holds w qs False" by (simp add: waiting_def)
    from set_callback_waits[OF h n] obtain w' where w': "set_callback 5 w = Some w'" "lf_holds w' (5 # qs) False"
      "task_of (nodes w') 5 = Some 5" "cb_calls w' = cb_calls w" "\<And>q. q \<noteq> 5 \<Longrightarrow> nodes w' q = nodes w q"
      by (auto simp: closed_marker_def)
    have "task_of (nodes w') q = Some q" if "q \<in> set qs" for q
      using that w w'(5)[of q] n by (cases "q = 5") (auto simp: waiting_def own_handles_def)
    then have "waiting (5 # qs) w'" using w w'(2,3) n by (auto simp: waiting_def own_handles_def)
    with True w' show ?thesis by (simp add: sets_five_def five_again_def)
  qed (use w in \<open>simp add: sets_five_def five_again_def\<close>)
qed

lemma event_callbacks_called_once_witness:
  "\<exists>w1 w2. foldM_opt set_callback [1, 2] cb_empty = Some w1
    \<and> notify_all_input (this_thread_attach (callback_resume sets_five)) 7 w1 = Some (True, w2) \<and> cb_calls w2 = [(2, 7), (1, 7)]
    \<and> lf_holds w2 [5] False"
proof -
  have "lf_holds cb_empty [] False" by (simp add: lf_holds_def cb_empty_def)
  from event_callbacks_called_once[OF this, of "[1, 2]" five_again sets_five 7] sets_five_good show ?thesis
    by (auto simp: cb_empty_def closed_marker_def five_again_def)
qed

end
