(* ===== verification/Task_Awaiters.thy ===== *)
theory Task_Awaiters
  imports Task_Get
begin

text \<open>
  \<open>task.hpp\<close>: a coroutine \<open>w\<close> of any other type awaits a task object that it keeps, so the task outlives the
  \<open>co_await\<close> expression and may be awaited or asked for its result again. \<open>co_await t\<close> gives a reference to
  the result in the frame of the task, \<open>co_await std::move(t)\<close> a value moved out of it, \<open>t.wait()\<close> nothing;
  \<open>t.wait_with_proxy_owner(po)\<close> shows the context of the task the coroutine \<open>po\<close> as its owner.
\<close>

datatype task_await = CoAwaitRef | CoAwaitValue | TaskWait | WaitProxy handle

definition awaiter_suspend :: "task_await \<Rightarrow> handle \<Rightarrow> handle \<Rightarrow> ('v, 'e) task_world \<Rightarrow> (handle \<times> ('v, 'e) task_world) option" where
  "awaiter_suspend kind h owner s = (case kind of
      WaitProxy po \<Rightarrow> proxy_suspend h po owner s
    | _ \<Rightarrow> starter_suspend h owner s)"

definition awaiter_resume ::
  "('v \<Rightarrow> 'v) \<Rightarrow> task_await \<Rightarrow> handle \<Rightarrow> ('v, 'e) task_world \<Rightarrow> (('v + 'e) option \<times> ('v, 'e) task_world) option" where
  "awaiter_resume left kind h s = (case kind of
      CoAwaitRef \<Rightarrow> do { (r, s1) \<leftarrow> result_or_rethrow h s; Some (Some r, s1) }
    | CoAwaitValue \<Rightarrow> do { (r, s1) \<leftarrow> result_or_rethrow h s; s2 \<leftarrow> move_result left h r s1; Some (Some r, s2) }
    | _ \<Rightarrow> Some (None, s))"

text \<open>The whole expression; \<open>n\<close> times the world resumes what is parked, with less the owner never goes on.\<close>

definition await_task ::
  "('v \<Rightarrow> 'v) \<Rightarrow> nat \<Rightarrow> handle \<Rightarrow> task_await \<Rightarrow> handle option \<Rightarrow> ('v, 'e) task_world
     \<Rightarrow> (('v + 'e) option \<times> ('v, 'e) task_world) option" where
  "await_task left n w kind this s = do {
     h \<leftarrow> this;
     ready \<leftarrow> starter_ready h s;
     s1 \<leftarrow> (if ready then Some s
           else do { (k, s') \<leftarrow> awaiter_suspend kind h w s; run_until n w k s' });
     awaiter_resume left kind h s1 }"

definition shown_owner :: "task_await \<Rightarrow> handle \<Rightarrow> handle" where
  "shown_owner kind w = (case kind of WaitProxy po \<Rightarrow> po | _ \<Rightarrow> w)"

definition gives_result :: "task_await \<Rightarrow> bool" where
  "gives_result kind \<longleftrightarrow> kind = CoAwaitRef \<or> kind = CoAwaitValue"

text \<open>The world after the task has ended and \<open>w\<close> was resumed, with \<open>blk\<close> as its return block.\<close>

definition awaited_world ::
  "task_await \<Rightarrow> handle \<Rightarrow> handle \<Rightarrow> ('v, 'e) tbody \<Rightarrow> ('v, 'e) return_block \<Rightarrow> ('v, 'e) task_world \<Rightarrow> ('v, 'e) task_world" where
  "awaited_world kind w h b blk s =
     \<lparr>tw_fr = (tw_fr s)(h \<mapsto> \<lparr>tk_block = blk, tk_who = Waits w, tk_body = body_of (eval b), tk_awaits = None, tk_done = True\<rparr>),
      tw_fresh = tw_fresh s + frames b,
      tw_log = tw_log s @ [OnOwner (shown_owner kind w) h, OnStart h] @ calls b h (tw_fresh s) @ [OnEnd h]\<rparr>"

lemma awaiter_suspend_world:
  assumes "tw_fr s h = Some (task_promise_init b)"
  shows "awaiter_suspend kind h w s = Some (h, \<lparr>tw_fr = (tw_fr s)(h \<mapsto> (task_promise_init b)\<lparr>tk_who := Waits w\<rparr>),
     tw_fresh = tw_fresh s, tw_log = tw_log s @ [OnOwner (shown_owner kind w) h, OnStart h]\<rparr>)"
  using assms by (cases kind; cases s) (simp_all add: awaiter_suspend_def proxy_suspend_def starter_suspend_def
      prepare_task_to_start_def upd_task_def call_ctx_def task_promise_init_def shown_owner_def)

lemma awaited_runs:
  assumes ok: "tw_fresh_ok s" and h: "tw_fr s h = Some (task_promise_init b)" and w: "no_task_at w s"
  shows "Option.bind (awaiter_suspend kind h w s) (\<lambda>(k, s'). run_until n w k s')
    = (if n < resumes b then None else Some (awaited_world kind w h b (block_of (eval b)) s))"
proof -
  let ?p = "(task_promise_init b)\<lparr>tk_who := Waits w\<rparr>" and ?s4 = "awaited_world kind w h b (block_of (eval b)) s"
  let ?s2 = "\<lparr>tw_fr = (tw_fr s)(h \<mapsto> ?p), tw_fresh = tw_fresh s, tw_log = tw_log s @ [OnOwner (shown_owner kind w) h, OnStart h]\<rparr>"
  let ?s3 = "outcome_world h ?p b ?s2"
  have none: "no_task_at w ?s2" using w h by (auto simp: no_task_at_def)
  have "runs h ?s2 (resumes b) h ?s3"
    by (rule body_runs) (use ok tw_fresh_okD[OF ok h] in \<open>auto simp: task_promise_init_def tw_fresh_ok_def\<close>)
  moreover have "task_turn h ?s3 = Some (Next w, ?s4)"
    by (subst last_turn(1)[where p = "?p\<lparr>tk_body := body_of (eval b)\<rparr>" and r = "eval b"])
      (simp_all add: outcome_world_def task_promise_init_def awaited_world_def)
  then have "runs h ?s3 0 w ?s4" by (rule runs_next[OF _ runs_refl])
  ultimately have "runs h ?s2 (resumes b) w ?s4" using runs_trans by fastforce
  from runs_until[OF this none, of n] show ?thesis
    by (simp add: awaiter_suspend_world[OF h] run_until.simps[of _ w w])
qed

text \<open>What an expression that does not suspend leaves in the return block.\<close>

definition block_after :: "('v \<Rightarrow> 'v) \<Rightarrow> task_await \<Rightarrow> 'v + 'e \<Rightarrow> ('v, 'e) return_block" where
  "block_after left kind r = (case r of
      Inl v \<Rightarrow> block_of (Inl (if kind = CoAwaitValue then left v else v))
    | Inr e \<Rightarrow> if gives_result kind then return_block_init else block_of (Inr e))"

lemma awaiter_resume_ended:
  "awaiter_resume left kind h (awaited_world kind0 w h b (block_of r) s)
   = Some (if gives_result kind then Some r else None, awaited_world kind0 w h b (block_after left kind r) s)"
  by (cases kind; cases r) (simp_all add: awaiter_resume_def result_or_rethrow_def awaited_world_def block_of_def block_simps
      upd_task_def move_result_def gives_result_def block_after_def)

lemma awaiter_resume_taken:
  "awaiter_resume left kind h (awaited_world kind0 w h b return_block_init s)
   = (if gives_result kind then None else Some (None, awaited_world kind0 w h b return_block_init s))"
  by (cases kind) (simp_all add: awaiter_resume_def result_or_rethrow_def awaited_world_def block_simps gives_result_def)

lemma await_task_first:
  assumes "tw_fresh_ok s" and "tw_fr s h = Some (task_promise_init b)" and "no_task_at w s"
  shows "await_task left n w kind (Some h) s = (if n < resumes b then None
    else Some (if gives_result kind then Some (eval b) else None, awaited_world kind w h b (block_after left kind (eval b)) s))"
proof -
  have "starter_ready h s = Some False" using assms(2) by (simp add: starter_ready_def task_promise_init_def)
  then show ?thesis using awaited_runs[OF assms, of kind n]
    by (simp add: await_task_def awaiter_resume_ended split: if_splits)
qed

lemma await_task_again:
  "await_task left n w' kind (Some h) (awaited_world kind0 w h b blk s) = awaiter_resume left kind h (awaited_world kind0 w h b blk s)"
  by (simp add: await_task_def starter_ready_def awaited_world_def)

text \<open>
  C8. Awaiting a task object that is kept gives, as a reference or as a value, what its body computes when
  awaiting is calling, value or exception, exactly if all that the task suspends on is resumed; the waiting
  forms give nothing. The context sees the waiting coroutine, or the proxy, as the owner. No frame but that
  of the task is touched, and its object can still destroy it. Every further expression does not suspend, in
  whatever coroutine it is: after a wait the outcome is still there, for \<open>get\<close> too, which does not block;
  after \<open>co_await std::move(t)\<close> a moved-from value is left; but after an exception was rethrown neither
  \<open>co_await\<close> nor \<open>get\<close> are defined any more, though their precondition is only a task that is not empty and done.
\<close>

theorem named_task_await_is_direct_style:
  assumes "tw_fresh_ok s" and "tw_fr s h = Some (task_promise_init b)" and "no_task_at w s"
  shows "case await_task left n w kind (Some h) s of
      None \<Rightarrow> n < resumes b
    | Some (r, s') \<Rightarrow> resumes b \<le> n \<and> r = (if gives_result kind then Some (eval b) else None)
        \<and> (tw_fr s')(h := None) = (tw_fr s)(h := None)
        \<and> tw_log s' = tw_log s @ [OnOwner (shown_owner kind w) h, OnStart h] @ calls b h (tw_fresh s) @ [OnEnd h]
        \<and> task_dtor (Some h) s' = Some (s'\<lparr>tw_fr := (tw_fr s)(h := None)\<rparr>)
        \<and> (\<forall>w' again. map_option fst (await_task left 0 w' again (Some h) s') =
            (if \<not> gives_result again then Some None
             else (case eval b of
                 Inl v \<Rightarrow> Some (Some (Inl (if kind = CoAwaitValue then left v else v)))
               | Inr e \<Rightarrow> if gives_result kind then None else Some (Some (Inr e)))))
        \<and> map_option fst (task_get left 0 (Some h) s') = (case eval b of
             Inl v \<Rightarrow> Some (Inl (if kind = CoAwaitValue then left v else v))
           | Inr e \<Rightarrow> if gives_result kind then None else Some (Inr e))"
proof (cases "n < resumes b")
  case True
  then show ?thesis by (simp add: await_task_first[OF assms])
next
  case False
  let ?s' = "awaited_world kind w h b (block_after left kind (eval b)) s"
  have upd: "(tw_fr s)(h := x, h := y) = (tw_fr s)(h := y)" for x y by simp
  have "task_dtor (Some h) ?s' = Some (?s'\<lparr>tw_fr := (tw_fr s)(h := None)\<rparr>)"
    by (cases "eval b") (simp_all add: task_dtor_def destroy_task.simps awaited_world_def block_after_def block_of_def block_simps)
  moreover have "map_option fst (await_task left 0 w' again (Some h) ?s') =
            (if \<not> gives_result again then Some None
             else (case eval b of
                 Inl v \<Rightarrow> Some (Some (Inl (if kind = CoAwaitValue then left v else v)))
               | Inr e \<Rightarrow> if gives_result kind then None else Some (Some (Inr e))))" for w' again
    by (cases "eval b") (simp_all add: await_task_again awaiter_resume_ended awaiter_resume_taken block_after_def)
  moreover have "map_option fst (task_get left 0 (Some h) ?s') = (case eval b of
             Inl v \<Rightarrow> Some (Inl (if kind = CoAwaitValue then left v else v))
           | Inr e \<Rightarrow> if gives_result kind then None else Some (Inr e))"
    by (cases "eval b") (simp_all add: task_get_def awaited_world_def result_or_rethrow_def upd_task_def
        block_after_def block_of_def block_simps move_result_def)
  ultimately show ?thesis using False upd
    by (simp add: await_task_first[OF assms]) (simp add: awaited_world_def)
qed

text \<open>Coroutine 2 waits for the task of \<open>one_task\<close>, which shows 9 as its owner.\<close>

theorem named_task_await_is_direct_style_witness:
  "map_option (\<lambda>(r, s). (r, tw_log s, map_option fst (task_get (\<lambda>v. 0) 0 (Some 3) s))) (await_task (\<lambda>v. 0) 1 2 (WaitProxy 9) (Some 3) one_task)
   = Some (None, [OnOwner 9 3, OnStart 3, OnOwner 3 4, OnStart 4, OnEnd 4, OnEnd 3], Some (Inl 8))"
proof -
  let ?b = "Await (Ext (Thr 7)) (\<lambda>r. case r of Inl v \<Rightarrow> Ret v | Inr e \<Rightarrow> Ret (e + 1)) :: (nat, nat) tbody"
  have ok: "tw_fresh_ok one_task" "tw_fr one_task 3 = Some (task_promise_init ?b)" "no_task_at 2 one_task"
    by (simp_all add: one_task_def tw_fresh_ok_def no_task_at_def)
  from named_task_await_is_direct_style[OF ok, where left = "\<lambda>v. 0" and n = 1 and kind = "WaitProxy 9"] show ?thesis
    by (auto simp: gives_result_def shown_owner_def one_task_def split: option.splits)
qed

end
