(* ===== verification/Clear_Loop.thy ===== *)
theory Clear_Loop
  imports Prelude
begin

text \<open>
  \<open>clear\<close> of \<open>generator.hpp\<close> and \<open>channel.hpp\<close>, which is also what their destructors do, is a loop: the
  destructors of the locals of a coroutine may put a new coroutine into the object that is just being
  cleared. Here a frame is given by what these destructors do to generators (or channels) when the frame is
  destroyed, in their order: assign one that is made by a call of a coroutine function (\<open>PutNew\<close>), swap two,
  or clear one, which may be the one that is being cleared. The functions are a table \<open>P\<close>: what the destructors
  of a new coroutine of the function \<open>f\<close> do is \<open>P f\<close>, which may call any function, \<open>f\<close> itself included. So
  the loop may run forever; it ends if the calls of destructors do not come back (\<open>calls_decrease\<close>). (A channel
  sets the consumer when it is iterated, not when it is swapped; this makes no difference for what is destroyed.)
\<close>

section \<open>Frames, objects, destructors\<close>

datatype dtor = PutNew addr nat | SwapWith addr addr | ClearObj addr

text \<open>
  The frames that were not destroyed, and the \<open>_consumer\<close> in their promises; the objects that live, each with
  its \<open>top\<close> (what they show plays no role here); the frames that were destroyed, in this order; the next
  frame, and the next address of a temporary object.
\<close>

record clear_store =
  cl_fr :: "handle \<Rightarrow> dtor list option"
  cl_consumer :: "handle \<Rightarrow> addr option"
  cl_ob :: "addr \<Rightarrow> handle option option"
  cl_destroyed :: "handle list"
  cl_next :: handle
  cl_tmp :: addr

definition obj_prepare :: "addr \<Rightarrow> clear_store \<Rightarrow> clear_store option" where
  "obj_prepare a s = do {
     t \<leftarrow> cl_ob s a;
     case t of
       None \<Rightarrow> Some s
     | Some h \<Rightarrow> do { _ \<leftarrow> cl_fr s h; Some (s\<lparr>cl_consumer := (cl_consumer s)(h \<mapsto> a)\<rparr>) } }"

definition obj_swap :: "addr \<Rightarrow> addr \<Rightarrow> clear_store \<Rightarrow> clear_store option" where
  "obj_swap a b s = do {
     x \<leftarrow> cl_ob s a;
     y \<leftarrow> cl_ob s b;
     s1 \<leftarrow> obj_prepare a (s\<lparr>cl_ob := (cl_ob s)(a \<mapsto> y, b \<mapsto> x)\<rparr>);
     obj_prepare b s1 }"

text \<open>Calling a coroutine function in an expression: a new frame and the temporary object that holds it.\<close>

definition make_temporary :: "dtor list \<Rightarrow> clear_store \<Rightarrow> addr \<times> clear_store" where
  "make_temporary ds s = (cl_tmp s, s\<lparr>cl_fr := (cl_fr s)(cl_next s \<mapsto> ds), cl_consumer := (cl_consumer s)(cl_next s \<mapsto> cl_tmp s),
     cl_ob := (cl_ob s)(cl_tmp s \<mapsto> Some (cl_next s)), cl_next := Suc (cl_next s), cl_tmp := Suc (cl_tmp s)\<rparr>)"

text \<open>\<open>std::exchange(top, nullptr)\<close> and the part of \<open>destroy()\<close> that ends the frame.\<close>

definition take_top :: "addr \<Rightarrow> clear_store \<Rightarrow> (handle option \<times> clear_store) option" where
  "take_top a s = do { t \<leftarrow> cl_ob s a; Some (t, s\<lparr>cl_ob := (cl_ob s)(a \<mapsto> None)\<rparr>) }"

definition end_frame :: "handle \<Rightarrow> clear_store \<Rightarrow> (dtor list \<times> clear_store) option" where
  "end_frame h s = do {
     ds \<leftarrow> cl_fr s h;
     Some (ds, s\<lparr>cl_fr := (cl_fr s)(h := None), cl_destroyed := cl_destroyed s @ [h]\<rparr>) }"

text \<open>\<open>clear()\<close> of an object, and a sequence of destructors.\<close>

datatype work = Clear addr | Dtors "dtor list"

partial_function (option) clearing :: "(nat \<Rightarrow> dtor list) \<Rightarrow> work \<Rightarrow> clear_store \<Rightarrow> clear_store option" where
  "clearing P w s = (case w of
      Clear a \<Rightarrow> do {
        (t, s1) \<leftarrow> take_top a s;
        case t of
          None \<Rightarrow> Some s1
        | Some h \<Rightarrow> do {
            (ds, s2) \<leftarrow> end_frame h s1;
            s3 \<leftarrow> clearing P (Dtors ds) s2;
            clearing P (Clear a) s3 } }
    | Dtors [] \<Rightarrow> Some s
    | Dtors (PutNew a f # ds) \<Rightarrow> (let (t, s1) = make_temporary (P f) s in do {
        s2 \<leftarrow> obj_swap a t s1;
        s3 \<leftarrow> clearing P (Clear t) s2;
        clearing P (Dtors ds) (s3\<lparr>cl_ob := (cl_ob s3)(t := None)\<rparr>) })
    | Dtors (SwapWith a b # ds) \<Rightarrow> do { s1 \<leftarrow> obj_swap a b s; clearing P (Dtors ds) s1 }
    | Dtors (ClearObj a # ds) \<Rightarrow> do { s1 \<leftarrow> clearing P (Clear a) s; clearing P (Dtors ds) s1 })"

definition obj_clear :: "(nat \<Rightarrow> dtor list) \<Rightarrow> addr \<Rightarrow> clear_store \<Rightarrow> clear_store option" where
  "obj_clear P a s = clearing P (Clear a) s"

section \<open>Ownership\<close>

fun mentions :: "dtor \<Rightarrow> addr set" where
  "mentions (PutNew a f) = {a}"
| "mentions (SwapWith a b) = {a, b}"
| "mentions (ClearObj a) = {a}"

definition all_mention :: "addr set \<Rightarrow> dtor list \<Rightarrow> bool" where
  "all_mention A ds \<longleftrightarrow> (\<forall>d\<in>set ds. mentions d \<subseteq> A)"

text \<open>
  The objects \<open>A\<close>, which the destructors use, live; every frame that was made and not destroyed is the top
  of exactly one object, which it knows as its consumer, and no frame was destroyed twice.
\<close>

definition objs_live :: "addr set \<Rightarrow> clear_store \<Rightarrow> bool" where
  "objs_live A s \<longleftrightarrow> (\<forall>a\<in>A. cl_ob s a \<noteq> None \<and> a < cl_tmp s) \<and> (\<forall>a\<ge>cl_tmp s. cl_ob s a = None)"

definition tops_live :: "clear_store \<Rightarrow> bool" where
  "tops_live s \<longleftrightarrow> (\<forall>a h. cl_ob s a = Some (Some h) \<longrightarrow> cl_fr s h \<noteq> None)"

definition one_owner :: "clear_store \<Rightarrow> bool" where
  "one_owner s \<longleftrightarrow> (\<forall>a b h. cl_ob s a = Some (Some h) \<longrightarrow> cl_ob s b = Some (Some h) \<longrightarrow> a = b)"

definition no_orphan :: "clear_store \<Rightarrow> bool" where
  "no_orphan s \<longleftrightarrow> (\<forall>h. cl_fr s h \<noteq> None \<longrightarrow> (\<exists>a. cl_ob s a = Some (Some h)))"

definition frames_mention :: "addr set \<Rightarrow> clear_store \<Rightarrow> bool" where
  "frames_mention A s \<longleftrightarrow> (\<forall>h ds. cl_fr s h = Some ds \<longrightarrow> all_mention A ds)"

definition tops_prepared :: "clear_store \<Rightarrow> bool" where
  "tops_prepared s \<longleftrightarrow> (\<forall>a h. cl_ob s a = Some (Some h) \<longrightarrow> cl_consumer s h = Some a)"

definition once_destroyed :: "clear_store \<Rightarrow> bool" where
  "once_destroyed s \<longleftrightarrow> distinct (cl_destroyed s) \<and> (\<forall>h. h < cl_next s \<longleftrightarrow> h \<in> set (cl_destroyed s) \<or> cl_fr s h \<noteq> None)
     \<and> (\<forall>h\<in>set (cl_destroyed s). cl_fr s h = None)"

definition owned :: "addr set \<Rightarrow> clear_store \<Rightarrow> bool" where
  "owned A s \<longleftrightarrow> objs_live A s \<and> tops_live s \<and> one_owner s \<and> no_orphan s \<and> frames_mention A s \<and> tops_prepared s
     \<and> once_destroyed s"

lemma all_mention_simps [simp]:
  "all_mention A []"
  "all_mention A (PutNew a f # ds) \<longleftrightarrow> a \<in> A \<and> all_mention A ds"
  "all_mention A (SwapWith a b # ds) \<longleftrightarrow> a \<in> A \<and> b \<in> A \<and> all_mention A ds"
  "all_mention A (ClearObj a # ds) \<longleftrightarrow> a \<in> A \<and> all_mention A ds"
  by (auto simp: all_mention_def)

lemma owned_temporary:
  assumes own: "owned A s" and "all_mention A es" and t: "make_temporary es s = (t, s1)"
  shows "owned A s1" and "t \<notin> A" and "cl_ob s1 t = Some (Some (cl_next s))"
proof -
  let ?n = "cl_next s"
  have s1: "t = cl_tmp s" "cl_fr s1 = (cl_fr s)(?n \<mapsto> es)" "cl_ob s1 = (cl_ob s)(t \<mapsto> Some ?n)" "cl_destroyed s1 = cl_destroyed s"
    "cl_next s1 = Suc ?n" "cl_tmp s1 = Suc t" "cl_consumer s1 = (cl_consumer s)(?n \<mapsto> t)" using t by (auto simp: make_temporary_def)
  have fresh: "cl_fr s ?n = None" "?n \<notin> set (cl_destroyed s)" using own by (auto simp: owned_def once_destroyed_def)
  have nobody: "cl_ob s a \<noteq> Some (Some ?n)" for a using own fresh(1) unfolding owned_def tops_live_def by blast
  have tmp: "cl_ob s t = None" using own s1(1) by (simp add: owned_def objs_live_def)
  show "t \<notin> A" using own s1(1) by (auto simp: owned_def objs_live_def)
  show "cl_ob s1 t = Some (Some ?n)" using s1(3) by simp
  have "objs_live A s1" using own s1(1,3,6) by (auto simp: owned_def objs_live_def less_Suc_eq)
  moreover have "tops_live s1" using own s1(2,3) by (auto simp: owned_def tops_live_def)
  moreover have "one_owner s1" using own s1(3) nobody by (auto simp: owned_def one_owner_def)
  moreover have "no_orphan s1" unfolding no_orphan_def
  proof (intro allI impI)
    fix h assume "cl_fr s1 h \<noteq> None"
    then have "h = ?n \<or> cl_fr s h \<noteq> None" using s1(2) by (auto split: if_splits)
    then show "\<exists>a. cl_ob s1 a = Some (Some h)"
    proof
      assume "cl_fr s h \<noteq> None"
      then obtain a where "cl_ob s a = Some (Some h)" using own by (auto simp: owned_def no_orphan_def)
      then have "cl_ob s1 a = Some (Some h)" using s1(3) tmp by auto
      then show ?thesis ..
    qed (use s1(3) in auto)
  qed
  moreover have "frames_mention A s1" using own assms(2) s1(2) by (auto simp: owned_def frames_mention_def)
  moreover have "tops_prepared s1" using own nobody s1(3,7) by (auto simp: owned_def tops_prepared_def)
  moreover have "once_destroyed s1" using own fresh s1(2,4,5) by (auto simp: owned_def once_destroyed_def less_Suc_eq)
  ultimately show "owned A s1" by (simp add: owned_def)
qed

lemma swapped_prepared:
  assumes own: "owned A s" and x: "cl_ob s a = Some x" and y: "cl_ob s b = Some y"
  shows "\<exists>c. obj_swap a b s = Some (s\<lparr>cl_ob := (cl_ob s)(a \<mapsto> y, b \<mapsto> x), cl_consumer := c\<rparr>)
    \<and> tops_prepared (s\<lparr>cl_ob := (cl_ob s)(a \<mapsto> y, b \<mapsto> x), cl_consumer := c\<rparr>)"
proof -
  let ?ob = "(cl_ob s)(a \<mapsto> y, b \<mapsto> x)" and ?set = "\<lambda>t a c. case t of None \<Rightarrow> c | Some h \<Rightarrow> c(h \<mapsto> a)"
  let ?c = "?set x b (?set (if a = b then x else y) a (cl_consumer s))"
  have live: "cl_fr s h \<noteq> None" if "cl_ob s d = Some (Some h)" for d h using own that unfolding owned_def tops_live_def by blast
  have one: "d = e" if "cl_ob s d = Some (Some h)" "cl_ob s e = Some (Some h)" for d e h
    using own that unfolding owned_def one_owner_def by blast
  have old: "cl_consumer s h = Some d" if "cl_ob s d = Some (Some h)" for d h using own that unfolding owned_def tops_prepared_def by blast
  have "obj_swap a b s = Some (s\<lparr>cl_ob := ?ob, cl_consumer := ?c\<rparr>)"
    using x y live[of a] live[of b] by (cases x; cases y; cases s) (auto simp: obj_swap_def obj_prepare_def)
  moreover have "?c h = Some d" if d: "?ob d = Some (Some h)" for d h
  proof -
    consider "d = b" "x = Some h" | "d = a" "a \<noteq> b" "y = Some h" | "d \<noteq> a" "d \<noteq> b" "cl_ob s d = Some (Some h)"
      using d by (auto split: if_splits)
    then show ?thesis
    proof cases
      case 1
      then show ?thesis by simp
    next
      case 2
      then have "x \<noteq> Some h" using one[of a h b] x y by auto
      with 2 show ?thesis by (auto split: option.splits)
    next
      case 3
      then have "x \<noteq> Some h" "y \<noteq> Some h" using one[of a h d] one[of b h d] x y by auto
      with 3 old[of d h] show ?thesis by (auto split: option.splits)
    qed
  qed
  then have "tops_prepared (s\<lparr>cl_ob := ?ob, cl_consumer := ?c\<rparr>)" unfolding tops_prepared_def by simp
  ultimately show ?thesis by blast
qed

lemma owned_swap:
  assumes own: "owned A s" and "cl_ob s a \<noteq> None" "cl_ob s b \<noteq> None"
  obtains s1 where "obj_swap a b s = Some s1" "owned A s1" "cl_ob s1 b = cl_ob s a" "cl_fr s1 = cl_fr s"
    "cl_destroyed s1 = cl_destroyed s" "cl_next s1 = cl_next s" "\<And>c. cl_ob s1 c \<noteq> None \<longleftrightarrow> cl_ob s c \<noteq> None"
proof -
  from assms obtain x y where x: "cl_ob s a = Some x" and y: "cl_ob s b = Some y" by auto
  from swapped_prepared[OF own x y] obtain c where c: "obj_swap a b s = Some (s\<lparr>cl_ob := (cl_ob s)(a \<mapsto> y, b \<mapsto> x), cl_consumer := c\<rparr>)"
    "tops_prepared (s\<lparr>cl_ob := (cl_ob s)(a \<mapsto> y, b \<mapsto> x), cl_consumer := c\<rparr>)" by blast
  let ?s1 = "s\<lparr>cl_ob := (cl_ob s)(a \<mapsto> y, b \<mapsto> x), cl_consumer := c\<rparr>" and ?f = "\<lambda>c. if c = a then b else if c = b then a else c"
  have ob: "cl_ob ?s1 c = cl_ob s (?f c)" for c using x y by auto
  have inv: "?f (?f c) = c" for c by simp
  have "objs_live A ?s1" using own x y by (auto simp: owned_def objs_live_def)
  moreover have "tops_live ?s1" using own unfolding owned_def tops_live_def ob by simp
  moreover have "one_owner ?s1" unfolding one_owner_def
  proof (intro allI impI)
    fix c d h assume "cl_ob ?s1 c = Some (Some h)" "cl_ob ?s1 d = Some (Some h)"
    then have "?f c = ?f d" using own unfolding owned_def one_owner_def ob by blast
    then show "c = d" by (auto split: if_splits)
  qed
  moreover have "no_orphan ?s1" unfolding no_orphan_def
  proof (intro allI impI)
    fix h assume "cl_fr ?s1 h \<noteq> None"
    then obtain c where "cl_ob s c = Some (Some h)" using own by (auto simp: owned_def no_orphan_def)
    then have "cl_ob ?s1 (?f c) = Some (Some h)" using ob[of "?f c"] inv[of c] by simp
    then show "\<exists>c. cl_ob ?s1 c = Some (Some h)" ..
  qed
  moreover have "frames_mention A ?s1" "once_destroyed ?s1"
    using own by (simp_all add: owned_def frames_mention_def once_destroyed_def)
  ultimately have "owned A ?s1" using c(2) by (simp add: owned_def)
  moreover have "cl_ob ?s1 c \<noteq> None \<longleftrightarrow> cl_ob s c \<noteq> None" for c using x y by auto
  ultimately show ?thesis using x y c(1) by (intro that[of ?s1]) auto
qed

lemma owned_null:
  assumes own: "owned A s" and t: "cl_ob s t = Some None" "t \<notin> A"
  shows "owned A (s\<lparr>cl_ob := (cl_ob s)(t := None)\<rparr>)"
proof -
  let ?s1 = "s\<lparr>cl_ob := (cl_ob s)(t := None)\<rparr>"
  have ob: "cl_ob ?s1 c = Some (Some h) \<longleftrightarrow> cl_ob s c = Some (Some h)" for c h using t by auto
  have "objs_live A ?s1" using own t by (auto simp: owned_def objs_live_def)
  moreover have "tops_live ?s1" "one_owner ?s1" using own unfolding owned_def tops_live_def one_owner_def ob by simp_all
  moreover have "no_orphan ?s1" using own unfolding owned_def no_orphan_def ob by simp
  moreover have "tops_prepared ?s1" using own unfolding owned_def tops_prepared_def ob by simp
  moreover have "frames_mention A ?s1" "once_destroyed ?s1"
    using own by (simp_all add: owned_def frames_mention_def once_destroyed_def)
  ultimately show ?thesis by (simp add: owned_def)
qed

text \<open>One round of the loop up to the destructors.\<close>

lemma owned_destroy:
  assumes own: "owned A s" and t: "cl_ob s a = Some (Some h)"
  obtains ds s1 s2 where "take_top a s = Some (Some h, s1)" "end_frame h s1 = Some (ds, s2)" "owned A s2" "cl_fr s h = Some ds"
    "all_mention A ds" "cl_fr s2 = (cl_fr s)(h := None)" "cl_ob s2 = (cl_ob s)(a \<mapsto> None)" "cl_destroyed s2 = cl_destroyed s @ [h]"
    "cl_next s2 = cl_next s"
proof -
  from own t obtain ds where ds: "cl_fr s h = Some ds" by (auto simp: owned_def tops_live_def)
  let ?s1 = "s\<lparr>cl_ob := (cl_ob s)(a \<mapsto> None)\<rparr>"
  let ?s2 = "?s1\<lparr>cl_fr := (cl_fr s)(h := None), cl_destroyed := cl_destroyed s @ [h]\<rparr>"
  have men: "all_mention A ds" using own ds by (auto simp: owned_def frames_mention_def)
  have other: "cl_ob ?s2 c = Some (Some k) \<longleftrightarrow> cl_ob s c = Some (Some k) \<and> k \<noteq> h" for c k
    using own t by (auto simp: owned_def one_owner_def)
  have "objs_live A ?s2" using own t by (auto simp: owned_def objs_live_def)
  moreover have "cl_fr ?s2 k = None \<longleftrightarrow> cl_fr s k = None \<or> k = h" for k by simp
  then have "tops_live ?s2" using own unfolding owned_def tops_live_def other by blast
  moreover have "one_owner ?s2" using own unfolding owned_def one_owner_def other by blast
  moreover have "no_orphan ?s2" using own unfolding owned_def no_orphan_def other by auto
  moreover have "tops_prepared ?s2" using own unfolding owned_def tops_prepared_def other by simp
  moreover have "frames_mention A ?s2" using own by (auto simp: owned_def frames_mention_def)
  moreover have "once_destroyed ?s2" using own ds by (auto simp: owned_def once_destroyed_def)
  ultimately have "owned A ?s2" by (simp add: owned_def)
  moreover have "take_top a s = Some (Some h, ?s1)" "end_frame h ?s1 = Some (ds, ?s2)"
    using t ds by (simp_all add: take_top_def end_frame_def)
  ultimately show ?thesis using ds men by (intro that[of ?s1 ds ?s2]) simp_all
qed

section \<open>Why the loop ends\<close>

text \<open>Every round consumes a frame; what its destructors create weighs less than the destructors.\<close>

definition calls_decrease :: "(nat \<Rightarrow> nat) \<Rightarrow> (nat \<Rightarrow> dtor list) \<Rightarrow> bool" where
  "calls_decrease rank P \<longleftrightarrow> (\<forall>f a g. PutNew a g \<in> set (P f) \<longrightarrow> rank g < rank f)"

text \<open>\<open>W f\<close> is the weight of a coroutine of the function \<open>f\<close>.\<close>

primrec dtor_weight :: "(nat \<Rightarrow> nat) \<Rightarrow> dtor \<Rightarrow> nat" where
  "dtor_weight W (PutNew a f) = 4 + W f"
| "dtor_weight W (SwapWith a b) = 1"
| "dtor_weight W (ClearObj a) = 2"

definition dtors_weight :: "(nat \<Rightarrow> nat) \<Rightarrow> dtor list \<Rightarrow> nat" where
  "dtors_weight W ds = (\<Sum>d\<leftarrow>ds. dtor_weight W d)"

definition frame_weight :: "(nat \<Rightarrow> nat) \<Rightarrow> clear_store \<Rightarrow> handle \<Rightarrow> nat" where
  "frame_weight W s h = (case cl_fr s h of None \<Rightarrow> 0 | Some ds \<Rightarrow> 2 + dtors_weight W ds)"

definition frames_weight :: "(nat \<Rightarrow> nat) \<Rightarrow> clear_store \<Rightarrow> nat" where
  "frames_weight W s = (\<Sum>h<cl_next s. frame_weight W s h)"

definition work_weight :: "(nat \<Rightarrow> nat) \<Rightarrow> work \<Rightarrow> clear_store \<Rightarrow> nat" where
  "work_weight W w s = frames_weight W s + (case w of Clear a \<Rightarrow> 1 | Dtors ds \<Rightarrow> dtors_weight W ds)"

lemma dtors_weight_simps [simp]:
  "dtors_weight W [] = 0"
  "dtors_weight W (PutNew a f # ds) = 4 + W f + dtors_weight W ds"
  "dtors_weight W (SwapWith a b # ds) = 1 + dtors_weight W ds"
  "dtors_weight W (ClearObj a # ds) = 2 + dtors_weight W ds"
  by (simp_all add: dtors_weight_def)

text \<open>The weights of the functions, by recursion to the depth of their calls.\<close>

primrec call_weight :: "(nat \<Rightarrow> dtor list) \<Rightarrow> nat \<Rightarrow> nat \<Rightarrow> nat" where
  "call_weight P 0 f = 0"
| "call_weight P (Suc n) f = dtors_weight (call_weight P n) (P f)"

lemma call_weight_deep:
  assumes "calls_decrease rank P"
  shows "rank f < n \<Longrightarrow> rank f < m \<Longrightarrow> call_weight P n f = call_weight P m f"
proof (induction n arbitrary: m f)
  case (Suc n)
  then obtain k where m: "m = Suc k" by (cases m) auto
  have "dtor_weight (call_weight P n) d = dtor_weight (call_weight P k) d" if "d \<in> set (P f)" for d
  proof (cases d)
    case (PutNew a g)
    with assms that have "rank g < rank f" by (auto simp: calls_decrease_def)
    with Suc.prems m have "rank g < n" "rank g < k" by simp_all
    with PutNew Suc.IH[of g k] show ?thesis by simp
  qed simp_all
  then show ?case unfolding m by (simp add: dtors_weight_def cong: map_cong)
qed simp

lemma calls_have_weights:
  assumes "calls_decrease rank P"
  shows "\<exists>W. \<forall>f. dtors_weight W (P f) = W f"
proof -
  let ?W = "\<lambda>f. call_weight P (Suc (rank f)) f"
  have "dtor_weight ?W d = dtor_weight (call_weight P (rank f)) d" if "d \<in> set (P f)" for d f
  proof (cases d)
    case (PutNew a g)
    with assms that have "rank g < rank f" by (auto simp: calls_decrease_def)
    then have "?W g = call_weight P (rank f) g" by (intro call_weight_deep[OF assms]) simp_all
    with PutNew show ?thesis by simp
  qed simp_all
  then have "dtors_weight ?W (P f) = ?W f" for f by (simp add: dtors_weight_def cong: map_cong)
  then show ?thesis by blast
qed

lemma temporary_weight:
  assumes "make_temporary es s = (t, s1)"
  shows "frames_weight W s1 = frames_weight W s + 2 + dtors_weight W es"
proof -
  have "cl_next s1 = Suc (cl_next s)" "cl_fr s1 = (cl_fr s)(cl_next s \<mapsto> es)" using assms by (auto simp: make_temporary_def)
  then show ?thesis by (simp add: frames_weight_def frame_weight_def)
qed

lemma destroy_weight:
  assumes "cl_fr s h = Some ds" "h < cl_next s" "cl_fr s2 = (cl_fr s)(h := None)" "cl_next s2 = cl_next s"
  shows "frames_weight W s = frames_weight W s2 + 2 + dtors_weight W ds"
proof -
  have "frames_weight W s = frame_weight W s h + (\<Sum>k\<in>{..<cl_next s} - {h}. frame_weight W s k)"
    unfolding frames_weight_def by (rule sum.remove) (use assms(2) in simp_all)
  also have "(\<Sum>k\<in>{..<cl_next s} - {h}. frame_weight W s k) = (\<Sum>k\<in>{..<cl_next s} - {h}. frame_weight W s2 k)"
    by (rule sum.cong) (simp_all add: frame_weight_def assms(3))
  also have "\<dots> = frames_weight W s2"
    unfolding frames_weight_def assms(4) by (subst sum.remove[of _ h]) (use assms(2,3) in \<open>simp_all add: frame_weight_def\<close>)
  finally show ?thesis using assms(1) by (simp add: frame_weight_def)
qed

text \<open>What a piece of work leaves, whatever is cleared or swapped in between.\<close>

definition keeps :: "addr set \<Rightarrow> clear_store \<Rightarrow> clear_store \<Rightarrow> bool" where
  "keeps A s s' \<longleftrightarrow> owned A s' \<and> (\<forall>c. cl_ob s c \<noteq> None \<longrightarrow> cl_ob s' c \<noteq> None)
     \<and> cl_next s \<le> cl_next s' \<and> (\<exists>hs. cl_destroyed s' = cl_destroyed s @ hs)"

lemma keeps_trans [trans]: "keeps A s s1 \<Longrightarrow> keeps A s1 s2 \<Longrightarrow> keeps A s s2"
  by (auto simp: keeps_def)

definition work_ok :: "addr set \<Rightarrow> work \<Rightarrow> clear_store \<Rightarrow> bool" where
  "work_ok A w s \<longleftrightarrow> (case w of Clear a \<Rightarrow> cl_ob s a \<noteq> None | Dtors ds \<Rightarrow> all_mention A ds)"

definition work_done :: "(nat \<Rightarrow> nat) \<Rightarrow> addr set \<Rightarrow> work \<Rightarrow> clear_store \<Rightarrow> clear_store \<Rightarrow> bool" where
  "work_done W A w s s' \<longleftrightarrow> keeps A s s' \<and> (case w of
      Clear a \<Rightarrow> cl_ob s' a = Some None \<and> frames_weight W s' \<le> frames_weight W s
    | Dtors ds \<Rightarrow> frames_weight W s' \<le> frames_weight W s + dtors_weight W ds)"

lemma clear_round:
  assumes own: "owned A s" and t: "cl_ob s a = Some (Some h)"
    and IH: "\<And>w' s'. work_weight W w' s' < work_weight W (Clear a) s \<Longrightarrow> owned A s' \<Longrightarrow> work_ok A w' s' \<Longrightarrow>
      \<exists>s''. clearing P w' s' = Some s'' \<and> work_done W A w' s' s''"
  shows "\<exists>s'. clearing P (Clear a) s = Some s' \<and> work_done W A (Clear a) s s'"
proof -
  from owned_destroy[OF own t] obtain ds s1 s2 where
    d: "take_top a s = Some (Some h, s1)" "end_frame h s1 = Some (ds, s2)" "owned A s2" "cl_fr s h = Some ds" "all_mention A ds"
      "cl_fr s2 = (cl_fr s)(h := None)" "cl_ob s2 = (cl_ob s)(a \<mapsto> None)" "cl_destroyed s2 = cl_destroyed s @ [h]" "cl_next s2 = cl_next s" .
  have "h < cl_next s" using own d(4) by (auto simp: owned_def once_destroyed_def)
  from destroy_weight[OF d(4) this d(6,9)] have wt: "frames_weight W s = frames_weight W s2 + 2 + dtors_weight W ds" .
  have "keeps A s s2" using d(3,7-9) by (auto simp: keeps_def)
  moreover from IH[of "Dtors ds" s2] d(3,5) wt obtain s3 where
    s3: "clearing P (Dtors ds) s2 = Some s3" "keeps A s2 s3" "frames_weight W s3 \<le> frames_weight W s2 + dtors_weight W ds"
    by (auto simp: work_weight_def work_ok_def work_done_def)
  ultimately have k: "keeps A s s3" by (blast intro: keeps_trans)
  then have "cl_ob s3 a \<noteq> None" using t by (simp add: keeps_def)
  with IH[of "Clear a" s3] k s3(3) wt obtain s4 where
    s4: "clearing P (Clear a) s3 = Some s4" "keeps A s3 s4" "cl_ob s4 a = Some None" "frames_weight W s4 \<le> frames_weight W s3"
    by (auto simp: work_weight_def work_ok_def work_done_def keeps_def)
  have "clearing P (Clear a) s = Some s4" by (subst clearing.simps) (simp add: d(1,2) s3(1) s4(1))
  moreover have "keeps A s s4" using keeps_trans[OF k s4(2)] .
  ultimately show ?thesis using s4(3,4) s3(3) wt by (simp add: work_done_def)
qed

lemma put_new_round:
  assumes own: "owned A s" and men: "all_mention A (PutNew a f # ds)" and fn: "all_mention A (P f)" "dtors_weight W (P f) = W f"
    and IH: "\<And>w' s'. work_weight W w' s' < work_weight W (Dtors (PutNew a f # ds)) s \<Longrightarrow> owned A s' \<Longrightarrow> work_ok A w' s' \<Longrightarrow>
      \<exists>s''. clearing P w' s' = Some s'' \<and> work_done W A w' s' s''"
  shows "\<exists>s'. clearing P (Dtors (PutNew a f # ds)) s = Some s' \<and> work_done W A (Dtors (PutNew a f # ds)) s s'"
proof -
  obtain t s1 where t: "make_temporary (P f) s = (t, s1)" by force
  from men fn have a: "a \<in> A" "all_mention A (P f)" "all_mention A ds" by simp_all
  note own1 = owned_temporary[OF own a(2) t]
  have t_new: "cl_ob s t = None" "cl_ob s1 = (cl_ob s)(t \<mapsto> Some (cl_next s))" "cl_destroyed s1 = cl_destroyed s" "cl_next s1 = Suc (cl_next s)"
    using own t by (auto simp: make_temporary_def owned_def objs_live_def)
  have live: "cl_ob s1 a \<noteq> None" "cl_ob s1 t \<noteq> None" using own1(1,3) a(1) by (auto simp: owned_def objs_live_def)
  from owned_swap[OF own1(1) live] obtain s2 where
    s2: "obj_swap a t s1 = Some s2" "owned A s2" "cl_fr s2 = cl_fr s1" "cl_destroyed s2 = cl_destroyed s1" "cl_next s2 = cl_next s1"
      "\<And>c. cl_ob s2 c \<noteq> None \<longleftrightarrow> cl_ob s1 c \<noteq> None" by metis
  have "frames_weight W s2 = frames_weight W s1" by (simp add: frames_weight_def frame_weight_def s2(3,5))
  with temporary_weight[OF t] have wt: "frames_weight W s2 = frames_weight W s + 2 + W f" by (simp add: fn(2))
  have "cl_ob s2 t \<noteq> None" using s2(6) live(2) by blast
  with IH[of "Clear t" s2] s2(2) wt obtain s3 where
    s3: "clearing P (Clear t) s2 = Some s3" "keeps A s2 s3" "cl_ob s3 t = Some None" "frames_weight W s3 \<le> frames_weight W s2"
    by (auto simp: work_weight_def work_ok_def work_done_def)
  let ?s4 = "s3\<lparr>cl_ob := (cl_ob s3)(t := None)\<rparr>"
  have own4: "owned A ?s4" using owned_null[of A s3 t] s3(2,3) own1(2) by (simp add: keeps_def)
  have w4: "frames_weight W ?s4 = frames_weight W s3" by (simp add: frames_weight_def frame_weight_def)
  from IH[of "Dtors ds" ?s4] own4 a(3) wt s3(4) w4 obtain s5 where
    s5: "clearing P (Dtors ds) ?s4 = Some s5" "keeps A ?s4 s5" "frames_weight W s5 \<le> frames_weight W s3 + dtors_weight W ds"
    by (auto simp: work_weight_def work_ok_def work_done_def)
  have "cl_ob ?s4 c \<noteq> None" if "cl_ob s c \<noteq> None" for c
    using that t_new(1,2) s2(6)[of c] s3(2) by (auto simp: keeps_def)
  then have "keeps A s ?s4" using own4 s3(2) s2(4,5) t_new(3,4) by (auto simp: keeps_def)
  then have "keeps A s s5" using s5(2) by (rule keeps_trans)
  moreover have "clearing P (Dtors (PutNew a f # ds)) s = Some s5"
    by (subst clearing.simps) (simp add: t s2(1) s3(1) s5(1))
  ultimately show ?thesis using s5(3) s3(4) wt by (simp add: work_done_def)
qed

lemma clearing_ends:
  assumes "owned A s" and "work_ok A w s" and fn: "\<And>f. all_mention A (P f)" "\<And>f. dtors_weight W (P f) = W f"
  shows "\<exists>s'. clearing P w s = Some s' \<and> work_done W A w s s'"
  using assms(1,2)
proof (induction "work_weight W w s" arbitrary: w s rule: less_induct)
  case less
  show ?case
  proof (cases w)
    case (Clear a)
    then obtain tp where tp: "cl_ob s a = Some tp" using less.prems(2) by (auto simp: work_ok_def)
    show ?thesis
    proof (cases tp)
      case None
      then have "clearing P (Clear a) s = Some s" using tp
        by (subst clearing.simps) (simp add: take_top_def fun_upd_idem)
      then show ?thesis using Clear tp None less.prems(1) by (auto simp: work_done_def keeps_def)
    next
      case (Some h)
      with tp less.hyps show ?thesis unfolding Clear by (intro clear_round less.prems(1)) simp_all
    qed
  next
    case (Dtors all)
    show ?thesis
    proof (cases all)
      case Nil
      then show ?thesis using Dtors less.prems(1) by (subst clearing.simps) (auto simp: work_done_def keeps_def)
    next
      case (Cons d ds)
      have men: "all_mention A (d # ds)" using less.prems(2) Dtors Cons by (simp add: work_ok_def)
      show ?thesis
      proof (cases d)
        case (PutNew a f)
        then show ?thesis using Dtors Cons men less.hyps less.prems(1) by (simp only:) (rule put_new_round[OF _ _ fn])
      next
        case (SwapWith a b)
        with men have ab: "cl_ob s a \<noteq> None" "cl_ob s b \<noteq> None" "all_mention A ds"
          using less.prems(1) by (auto simp: owned_def objs_live_def)
        from owned_swap[OF less.prems(1) ab(1,2)] obtain s1 where
          s1: "obj_swap a b s = Some s1" "owned A s1" "cl_fr s1 = cl_fr s" "cl_destroyed s1 = cl_destroyed s" "cl_next s1 = cl_next s"
            "\<And>c. cl_ob s1 c \<noteq> None \<longleftrightarrow> cl_ob s c \<noteq> None" by metis
        have wt: "frames_weight W s1 = frames_weight W s" by (simp add: frames_weight_def frame_weight_def s1(3,5))
        from less.hyps[of "Dtors ds" s1] s1(2) ab(3) wt obtain s2 where
          s2: "clearing P (Dtors ds) s1 = Some s2" "keeps A s1 s2" "frames_weight W s2 \<le> frames_weight W s + dtors_weight W ds"
          using Dtors Cons SwapWith by (auto simp: work_weight_def work_ok_def work_done_def)
        have "keeps A s s1" using s1 by (simp add: keeps_def)
        then have "keeps A s s2" using s2(2) by (rule keeps_trans)
        then show ?thesis using Dtors Cons SwapWith s1(1) s2(1,3)
          by (subst clearing.simps) (simp add: work_done_def)
      next
        case (ClearObj a)
        with men have a: "cl_ob s a \<noteq> None" "all_mention A ds" using less.prems(1) by (auto simp: owned_def objs_live_def)
        from less.hyps[of "Clear a" s] less.prems(1) a(1) obtain s1 where
          s1: "clearing P (Clear a) s = Some s1" "keeps A s s1" "frames_weight W s1 \<le> frames_weight W s"
          using Dtors Cons ClearObj by (auto simp: work_weight_def work_ok_def work_done_def)
        from less.hyps[of "Dtors ds" s1] s1(2,3) a(2) obtain s2 where
          s2: "clearing P (Dtors ds) s1 = Some s2" "keeps A s1 s2" "frames_weight W s2 \<le> frames_weight W s1 + dtors_weight W ds"
          using Dtors Cons ClearObj by (auto simp: work_weight_def work_ok_def work_done_def keeps_def)
        have "keeps A s s2" using keeps_trans[OF s1(2) s2(2)] .
        then show ?thesis using Dtors Cons ClearObj s1(1,3) s2(1,3)
          by (subst clearing.simps) (simp add: work_done_def)
      qed
    qed
  qed
qed

section \<open>What holds whenever it ends\<close>

definition work_left :: "addr set \<Rightarrow> work \<Rightarrow> clear_store \<Rightarrow> clear_store \<Rightarrow> bool" where
  "work_left A w s s' \<longleftrightarrow> keeps A s s' \<and> (case w of Clear a \<Rightarrow> cl_ob s' a = Some None | Dtors ds \<Rightarrow> True)"

lemma new_left:
  assumes own: "owned A s" and a: "a \<in> A" and fn: "all_mention A (P f)" and t: "make_temporary (P f) s = (t, s1)"
    and s2: "obj_swap a t s1 = Some s2" and s3: "owned A s2 \<Longrightarrow> cl_ob s2 t \<noteq> None \<Longrightarrow> work_left A (Clear t) s2 s3"
  shows "keeps A s (s3\<lparr>cl_ob := (cl_ob s3)(t := None)\<rparr>)"
proof -
  note own1 = owned_temporary[OF own fn t]
  have t_new: "cl_ob s t = None" "cl_ob s1 = (cl_ob s)(t \<mapsto> Some (cl_next s))" "cl_destroyed s1 = cl_destroyed s" "cl_next s1 = Suc (cl_next s)"
    using own t by (auto simp: make_temporary_def owned_def objs_live_def)
  have live: "cl_ob s1 a \<noteq> None" "cl_ob s1 t \<noteq> None" using own1(1,3) a by (auto simp: owned_def objs_live_def)
  from owned_swap[OF own1(1) live] s2 have k2: "owned A s2" "cl_destroyed s2 = cl_destroyed s1" "cl_next s2 = cl_next s1"
    "\<And>c. cl_ob s2 c \<noteq> None \<longleftrightarrow> cl_ob s1 c \<noteq> None" by (metis option.inject)+
  have "cl_ob s2 t \<noteq> None" using k2(4) live(2) by blast
  from s3[OF k2(1) this] have k3: "keeps A s2 s3" "cl_ob s3 t = Some None" by (auto simp: work_left_def)
  let ?s4 = "s3\<lparr>cl_ob := (cl_ob s3)(t := None)\<rparr>"
  have own4: "owned A ?s4" using owned_null[of A s3 t] k3 own1(2) by (simp add: keeps_def)
  have "cl_ob ?s4 c \<noteq> None" if "cl_ob s c \<noteq> None" for c
    using that t_new(1,2) k2(4)[of c] k3(1) by (auto simp: keeps_def)
  then show ?thesis using own4 k3(1) k2(2,3) t_new(3,4) by (auto simp: keeps_def)
qed

lemma clearing_leaves:
  assumes "clearing P w s = Some s'"
  shows "case ((P, w), s) of ((P, w), s) \<Rightarrow> (\<forall>f. all_mention A (P f)) \<longrightarrow> owned A s \<longrightarrow> work_ok A w s \<longrightarrow> work_left A w s s'"
proof (induction rule: clearing.raw_induct[where Pa = "\<lambda>x s'. case x of ((P, w), s) \<Rightarrow>
    (\<forall>f. all_mention A (P f)) \<longrightarrow> owned A s \<longrightarrow> work_ok A w s \<longrightarrow> work_left A w s s'", OF _ assms, consumes 0])
  case (1 clr P w s s')
  note step = 1(2)
  show ?case unfolding prod.case
  proof (intro impI)
    assume fn: "\<forall>f. all_mention A (P f)" and own: "owned A s" and ok: "work_ok A w s"
    note IH = 1(1)[unfolded prod.case, where w = P, THEN mp, THEN mp, THEN mp, OF _ fn]
    show "work_left A w s s'"
    proof (cases w)
    case (Clear a)
    then obtain tp where tp: "cl_ob s a = Some tp" using ok Clear by (auto simp: work_ok_def)
    show ?thesis
    proof (cases tp)
      case None
      with tp step Clear have "s' = s" by (simp add: take_top_def fun_upd_idem)
      with tp None own Clear show ?thesis by (auto simp: work_left_def keeps_def)
    next
      case (Some h)
      from owned_destroy[OF own tp[unfolded Some]] obtain ds s1 s2 where
        d: "take_top a s = Some (Some h, s1)" "end_frame h s1 = Some (ds, s2)" "owned A s2" "all_mention A ds"
          "cl_ob s2 = (cl_ob s)(a \<mapsto> None)" "cl_destroyed s2 = cl_destroyed s @ [h]" "cl_next s2 = cl_next s" .
      from step d(1,2) Clear obtain s3 where s3: "clr P (Dtors ds) s2 = Some s3" "clr P (Clear a) s3 = Some s'"
        by (auto split: bind_splits)
      have "keeps A s s2" using d(3,5-7) by (auto simp: keeps_def)
      moreover from IH[OF s3(1) d(3)] d(4) have "keeps A s2 s3" by (simp add: work_ok_def work_left_def)
      ultimately have k: "keeps A s s3" by (rule keeps_trans)
      then have "owned A s3" "work_ok A (Clear a) s3" using tp by (auto simp: keeps_def work_ok_def)
      from IH[OF s3(2) this] keeps_trans[OF k] Clear show ?thesis by (simp add: work_left_def)
    qed
  next
    case (Dtors all)
    show ?thesis
    proof (cases all)
      case Nil
      with step Dtors own show ?thesis by (auto simp: work_left_def keeps_def)
    next
      case (Cons d ds)
      have men: "all_mention A (d # ds)" using ok Dtors Cons by (simp add: work_ok_def)
      show ?thesis
      proof (cases d)
        case (PutNew a f)
        obtain t s1 where t: "make_temporary (P f) s = (t, s1)" by force
        from step Dtors Cons PutNew t obtain s2 s3 where s3: "obj_swap a t s1 = Some s2" "clr P (Clear t) s2 = Some s3"
          "clr P (Dtors ds) (s3\<lparr>cl_ob := (cl_ob s3)(t := None)\<rparr>) = Some s'" by (auto split: bind_splits)
        have a: "a \<in> A" "all_mention A ds" "all_mention A (P f)" using men PutNew fn by simp_all
        have k: "keeps A s (s3\<lparr>cl_ob := (cl_ob s3)(t := None)\<rparr>)"
          by (rule new_left[where P = P and f = f, OF own a(1,3) t s3(1)]) (rule IH[OF s3(2)], simp_all add: work_ok_def)
        then have "owned A (s3\<lparr>cl_ob := (cl_ob s3)(t := None)\<rparr>)" by (simp add: keeps_def)
        from IH[OF s3(3) this] a(2) keeps_trans[OF k] Dtors show ?thesis by (simp add: work_left_def work_ok_def)
      next
        case (SwapWith a b)
        with men have ab: "cl_ob s a \<noteq> None" "cl_ob s b \<noteq> None" "all_mention A ds"
          using own by (auto simp: owned_def objs_live_def)
        from owned_swap[OF own ab(1,2)] obtain s1 where
          s1: "obj_swap a b s = Some s1" "owned A s1" "cl_destroyed s1 = cl_destroyed s" "cl_next s1 = cl_next s"
            "\<And>c. cl_ob s1 c \<noteq> None \<longleftrightarrow> cl_ob s c \<noteq> None" by metis
        with step Dtors Cons SwapWith have "clr P (Dtors ds) s1 = Some s'" by simp
        from IH[OF this s1(2)] ab(3) have "keeps A s1 s'" by (simp add: work_ok_def work_left_def)
        moreover have "keeps A s s1" using s1 by (simp add: keeps_def)
        ultimately have "keeps A s s'" by (rule keeps_trans[rotated])
        with Dtors show ?thesis by (simp add: work_left_def)
      next
        case (ClearObj a)
        with men have a: "cl_ob s a \<noteq> None" "all_mention A ds" using own by (auto simp: owned_def objs_live_def)
        from step Dtors Cons ClearObj obtain s1 where s1: "clr P (Clear a) s = Some s1" "clr P (Dtors ds) s1 = Some s'"
          by (auto split: bind_splits)
        from IH[OF s1(1) own] a(1) have k: "keeps A s s1" by (simp add: work_ok_def work_left_def)
        then have "owned A s1" by (simp add: keeps_def)
        from IH[OF s1(2) this] a(2) keeps_trans[OF k] Dtors show ?thesis by (simp add: work_ok_def work_left_def)
      qed
    qed
    qed
  qed
qed

text \<open>
  A loop that never ends: the destructors of a coroutine of the function \<open>f\<close> put a new coroutine of \<open>f\<close> into
  the object \<open>a\<close>. \<open>recreating\<close> says that such a coroutine is in the object, \<open>recreated\<close> that its destructors run.
\<close>

definition recreating :: "addr \<Rightarrow> nat \<Rightarrow> clear_store \<Rightarrow> bool" where
  "recreating a f s \<longleftrightarrow> (\<exists>h. cl_ob s a = Some (Some h) \<and> cl_fr s h = Some [PutNew a f]) \<and> a < cl_tmp s"

definition recreated :: "(nat \<Rightarrow> dtor list) \<Rightarrow> addr \<Rightarrow> nat \<Rightarrow> work \<Rightarrow> clear_store \<Rightarrow> clear_store \<Rightarrow> bool" where
  "recreated P a f w s s' \<longleftrightarrow> (case w of
      Clear b \<Rightarrow> (b = a \<longrightarrow> \<not> recreating a f s) \<and> (cl_ob s b = Some None \<longrightarrow> s' = s)
    | Dtors ds \<Rightarrow> (ds = [] \<longrightarrow> s' = s) \<and> (ds = [PutNew a f] \<longrightarrow> cl_ob s a = Some None \<longrightarrow> a < cl_tmp s \<longrightarrow> recreating a f s'))"

lemma clearing_recreates:
  assumes "clearing P w s = Some s'"
  shows "case ((P, w), s) of ((P, w), s) \<Rightarrow> P f = [PutNew a f] \<longrightarrow> recreated P a f w s s'"
proof (induction rule: clearing.raw_induct[where Pa = "\<lambda>x s'. case x of ((P, w), s) \<Rightarrow> P f = [PutNew a f] \<longrightarrow> recreated P a f w s s'",
    OF _ assms, consumes 0])
  case (1 clr P w s s')
  note step = 1(2)
  show ?case unfolding prod.case
  proof (intro impI)
    assume fn: "P f = [PutNew a f]"
    note IH = 1(1)[unfolded prod.case, where w = P, THEN mp, OF _ fn]
    show "recreated P a f w s s'"
    proof (cases w)
    case (Clear b)
    have "\<not> recreating a f s" if "b = a"
    proof
      assume rec: "recreating a f s"
      then obtain h where h: "cl_ob s a = Some (Some h)" "cl_fr s h = Some [PutNew a f]" "a < cl_tmp s"
        by (auto simp: recreating_def)
      let ?s2 = "s\<lparr>cl_ob := (cl_ob s)(a \<mapsto> None), cl_fr := (cl_fr s)(h := None), cl_destroyed := cl_destroyed s @ [h]\<rparr>"
      have "take_top a s = Some (Some h, s\<lparr>cl_ob := (cl_ob s)(a \<mapsto> None)\<rparr>)"
        "end_frame h (s\<lparr>cl_ob := (cl_ob s)(a \<mapsto> None)\<rparr>) = Some ([PutNew a f], ?s2)"
        using h by (simp_all add: take_top_def end_frame_def)
      with step Clear that obtain s3 where s3: "clr P (Dtors [PutNew a f]) ?s2 = Some s3" "clr P (Clear a) s3 = Some s'"
        by (auto split: bind_splits)
      from IH[OF s3(1)] h(3) have "recreating a f s3" by (simp add: recreated_def)
      with IH[OF s3(2)] show False by (simp add: recreated_def)
    qed
    moreover have "s' = s" if "cl_ob s b = Some None" using step Clear that by (simp add: take_top_def fun_upd_idem)
    ultimately show ?thesis using Clear by (simp add: recreated_def)
  next
    case (Dtors ds)
    have "s' = s" if "ds = []" using step Dtors that by simp
    moreover have "recreating a f s'" if ds: "ds = [PutNew a f]" and a: "cl_ob s a = Some None" "a < cl_tmp s"
    proof -
      obtain t s1 where t: "make_temporary (P f) s = (t, s1)" by force
      from step Dtors ds t obtain s2 s3 where s3: "obj_swap a t s1 = Some s2" "clr P (Clear t) s2 = Some s3"
        "clr P (Dtors []) (s3\<lparr>cl_ob := (cl_ob s3)(t := None)\<rparr>) = Some s'" by (auto split: bind_splits)
      have s2: "cl_ob s2 t = Some None" "cl_ob s2 a = Some (Some (cl_next s))" "cl_fr s2 (cl_next s) = Some [PutNew a f]"
        "t = cl_tmp s" "cl_tmp s2 = Suc t"
        using s3(1) t a fn by (auto simp: make_temporary_def obj_swap_def obj_prepare_def split: bind_splits option.splits)
      from IH[OF s3(2)] s2(1) have "s3 = s2" by (simp add: recreated_def)
      moreover from IH[OF s3(3)] have "s' = s3\<lparr>cl_ob := (cl_ob s3)(t := None)\<rparr>" by (simp add: recreated_def)
      ultimately show ?thesis using s2 a(2) by (auto simp: recreating_def)
    qed
    ultimately show ?thesis using Dtors by (simp add: recreated_def)
    qed
  qed
qed

lemma clear_never_ends:
  assumes "P f = [PutNew a f]" and "recreating a f s"
  shows "obj_clear P a s = None"
  using clearing_recreates[of P "Clear a" s _ f a] assms by (cases "obj_clear P a s") (auto simp: obj_clear_def recreated_def)

section \<open>Properties\<close>

text \<open>
  C26. Whenever \<open>clear\<close> returns, its object is empty, whatever the destructors that ran meanwhile did: put new
  coroutines into this or other objects, swap them, clear this object once more. No frame was destroyed twice,
  and none is lost: every frame that was ever made has been destroyed or is the top of exactly one object,
  which its promise knows as the consumer. It returns if the coroutines that destructors create have, by some
  rank, only destructors that create smaller ones; without that it need not: a coroutine whose destructors
  assign a new call of its own function to the object keeps the loop running forever.
\<close>

theorem clear_ends_empty:
  assumes "owned A s" and "a \<in> A" and "\<forall>f. all_mention A (P f)"
  shows "(calls_decrease rank P \<longrightarrow> obj_clear P a s \<noteq> None)
    \<and> (\<forall>f. P f = [PutNew a f] \<and> recreating a f s \<longrightarrow> obj_clear P a s = None)
    \<and> (\<forall>s'. obj_clear P a s = Some s' \<longrightarrow> cl_ob s' a = Some None \<and> owned A s'
        \<and> (\<exists>hs. cl_destroyed s' = cl_destroyed s @ hs) \<and> distinct (cl_destroyed s')
        \<and> (\<forall>h<cl_next s'. if h \<in> set (cl_destroyed s') then cl_fr s' h = None else (\<exists>!b. cl_ob s' b = Some (Some h)))
        \<and> (\<forall>b h. cl_ob s' b = Some (Some h) \<longrightarrow> cl_consumer s' h = Some b))"
proof (intro conjI allI impI; (elim conjE)?)
  have ok: "work_ok A (Clear a) s" using assms(1,2) by (auto simp: work_ok_def owned_def objs_live_def)
  {
    assume "calls_decrease rank P"
    from calls_have_weights[OF this] obtain W where "\<And>f. dtors_weight W (P f) = W f" by blast
    from clearing_ends[OF assms(1) ok assms(3)[rule_format] this] show "obj_clear P a s \<noteq> None" by (auto simp: obj_clear_def)
  }
  show "obj_clear P a s = None" if "P f = [PutNew a f]" "recreating a f s" for f using that by (rule clear_never_ends[where P = P and f = f])
  fix s' assume "obj_clear P a s = Some s'"
  with clearing_leaves[of P "Clear a" s s' A] assms(1,3) ok have left: "keeps A s s'" "cl_ob s' a = Some None"
    by (auto simp: obj_clear_def work_left_def)
  from left(1) have own: "owned A s'" and hs: "\<exists>hs. cl_destroyed s' = cl_destroyed s @ hs" by (auto simp: keeps_def)
  show "cl_ob s' a = Some None" "owned A s'" "\<exists>hs. cl_destroyed s' = cl_destroyed s @ hs" by fact+
  show "distinct (cl_destroyed s')" using own by (simp add: owned_def once_destroyed_def)
  show "cl_consumer s' h = Some b" if "cl_ob s' b = Some (Some h)" for b h
    using own that unfolding owned_def tops_prepared_def by blast
  show "if h \<in> set (cl_destroyed s') then cl_fr s' h = None else (\<exists>!b. cl_ob s' b = Some (Some h))" if "h < cl_next s'" for h
  proof (cases "h \<in> set (cl_destroyed s')")
    case False
    then obtain b where "cl_ob s' b = Some (Some h)" using own \<open>h < cl_next s'\<close>
      unfolding owned_def once_destroyed_def no_orphan_def by blast
    with False own show ?thesis unfolding owned_def one_owner_def by auto
  qed (use own in \<open>simp add: owned_def once_destroyed_def\<close>)
qed

text \<open>
  Object 0 holds a coroutine of the function 1, whose destructor puts one of the function 0 into the object,
  whose destructor swaps it with object 1.
\<close>

definition two_calls :: "nat \<Rightarrow> dtor list" where
  "two_calls f = (if f = 1 then [PutNew 0 0] else if f = 0 then [SwapWith 0 1] else [])"

definition put_back :: clear_store where
  "put_back = \<lparr>cl_fr = [0 \<mapsto> [PutNew 0 0], 1 \<mapsto> [ClearObj 0]], cl_consumer = [0 \<mapsto> 0, 1 \<mapsto> 1], cl_ob = [0 \<mapsto> Some 0, 1 \<mapsto> Some 1],
     cl_destroyed = [], cl_next = 2, cl_tmp = 2\<rparr>"

lemma put_back_owned: "owned {0, 1} put_back" "\<forall>f. all_mention {0, 1} (two_calls f)" "calls_decrease (\<lambda>f. f) two_calls"
  by (auto simp: owned_def objs_live_def tops_live_def one_owner_def no_orphan_def frames_mention_def tops_prepared_def once_destroyed_def
      put_back_def two_calls_def calls_decrease_def split: if_splits)

lemma clear_ends_empty_witness:
  "\<exists>s'. obj_clear two_calls 0 put_back = Some s' \<and> cl_ob s' 0 = Some None \<and> distinct (cl_destroyed s')"
  using clear_ends_empty[OF put_back_owned(1) _ put_back_owned(2), of 0 "\<lambda>f. f"] put_back_owned(3) by auto

lemma put_back_destroyed: "map_option cl_destroyed (obj_clear two_calls 0 put_back) = Some [0, 2, 1]"
  by (simp add: obj_clear_def put_back_def two_calls_def clearing.simps take_top_def end_frame_def make_temporary_def obj_swap_def obj_prepare_def)

end
