(* ===== verification/Loop_Break.thy ===== *)
theory Loop_Break
  imports Iteration
begin

text \<open>
  Range-based \<open>for\<close> over a generator that is left by \<open>break\<close>, and a second loop over the same generator:
  its \<open>begin\<close> resumes the coroutine, so it goes on with the element after the one at which the first stopped.
\<close>

text \<open>\<open>visit\<close> also answers whether the body of the loop breaks; the result says whether it did.\<close>

partial_function (option) gen_loop_until :: "('y \<Rightarrow> 'u \<Rightarrow> bool \<times> 'u) \<Rightarrow> objref \<Rightarrow> 'u \<Rightarrow> ('y, 'e) gen_store
    \<Rightarrow> ('e option \<times> bool \<times> 'u \<times> ('y, 'e) gen_store) option" where
  "gen_loop_until visit c u s = do {
     stop \<leftarrow> at_end c s;
     if stop then Some (None, False, u, s)
     else do {
       y \<leftarrow> gen_deref c s;
       let (brk, u1) = visit y u;
       if brk then Some (None, True, u1, s)
       else do {
         (t, s1) \<leftarrow> gen_incr c s;
         case t of
           Back \<Rightarrow> gen_loop_until visit c u1 s1
         | Exc e \<Rightarrow> Some (Some e, False, u1, s1)
         | Again _ \<Rightarrow> None } } }"

definition gen_for_until :: "('y \<Rightarrow> 'u \<Rightarrow> bool \<times> 'u) \<Rightarrow> objref \<Rightarrow> 'u \<Rightarrow> ('y, 'e) gen_store
    \<Rightarrow> ('e option \<times> bool \<times> 'u \<times> ('y, 'e) gen_store) option" where
  "gen_for_until visit c u s = do {
     (t, s1) \<leftarrow> gen_begin c s;
     case t of
       Back \<Rightarrow> gen_loop_until visit c u s1
     | Exc e \<Rightarrow> Some (Some e, False, u, s1)
     | Again _ \<Rightarrow> None }"

text \<open>The same on a list: the elements that are left if the loop breaks, and the state of the user.\<close>

fun fold_until :: "('y \<Rightarrow> 'u \<Rightarrow> bool \<times> 'u) \<Rightarrow> 'y list \<Rightarrow> 'u \<Rightarrow> 'y list option \<times> 'u" where
  "fold_until visit [] u = (None, u)"
| "fold_until visit (y # ys) u = (let (brk, u1) = visit y u in if brk then (Some ys, u1) else fold_until visit ys u1)"

lemma until_stop: "at_end c s = Some True \<Longrightarrow> gen_loop_until visit c u s = Some (None, False, u, s)"
  by (subst gen_loop_until.simps) simp

lemma until_break:
  "at_end c s = Some False \<Longrightarrow> gen_deref c s = Some y \<Longrightarrow> visit y u = (True, u1) \<Longrightarrow>
   gen_loop_until visit c u s = Some (None, True, u1, s)"
  by (subst gen_loop_until.simps) simp

lemma until_step:
  "at_end c s = Some False \<Longrightarrow> gen_deref c s = Some y \<Longrightarrow> visit y u = (False, u1) \<Longrightarrow> gen_incr c s = Some (t, s1) \<Longrightarrow>
   gen_loop_until visit c u s = (case t of Back \<Rightarrow> gen_loop_until visit c u1 s1
     | Exc e \<Rightarrow> Some (Some e, False, u1, s1) | Again _ \<Rightarrow> None)"
  by (subst gen_loop_until.simps) simp

text \<open>
  What a loop does that would visit \<open>ys\<close> if it did not break, and then throw \<open>x\<close> or leave \<open>A'\<close>: it visits
  them all, or it breaks and leaves a generator that still has the rest.
\<close>

definition until_result ::
  "addr \<Rightarrow> ('e option \<times> bool \<times> 'u \<times> ('y, 'e) gen_store) option \<Rightarrow> 'y list option \<times> 'u \<Rightarrow> 'e option \<Rightarrow> ('y, 'e) stacks \<Rightarrow> bool" where
  "until_result a res outcome x A' \<longleftrightarrow> (case outcome of
      (None, u) \<Rightarrow> (\<exists>s F. res = Some (x, False, u, s) \<and> gen_rel s A' F)
    | (Some rest, u) \<Rightarrow> (\<exists>s F A r stk. res = Some (None, True, u, s) \<and> gen_rel s A F \<and> finite (dom A) \<and> refs_ok a A
        \<and> A a = Some (r, stk) \<and> stk \<noteq> [] \<and> drain a A = Some (rest, x, A')))"

lemma gen_loop_until_drains:
  assumes "gen_rel s A F" "finite (dom A)" "refs_ok a A" "A a = Some (Some y, stk)" "stk \<noteq> []"
  shows "\<exists>ys x A'. drain a A = Some (ys, x, A')
    \<and> until_result a (gen_loop_until visit (Obj a) u s) (fold_until visit (y # ys) u) x A'"
  using assms
proof (induction "total_size A" arbitrary: A s F u y stk rule: less_induct)
  case less
  obtain b rest where stk: "stk = b # rest" using less.prems(5) by (cases stk) auto
  note a = less.prems(4)[unfolded stk]
  note shown = gen_shown[OF less.prems(1) a]
  obtain brk u1 where v: "visit y u = (brk, u1)" by force
  show ?case
  proof (cases brk)
    case True
    obtain ys x A' where dr: "drain a A = Some (ys, x, A')"
      using gen_loop_drains[OF less.prems, of "\<lambda>_ w. w" u] by blast
    have "gen_loop_until visit (Obj a) u s = Some (None, True, u1, s)"
      using until_break[of "Obj a" s y visit u u1] shown v True by simp
    with dr v True less.prems show ?thesis by (auto simp: until_result_def)
  next
    case False
    from generator_next_sim[OF less.prems(1-3) a] obtain t s1 F1 o1 A1 where n: "stack_run (Suc (total_size A)) a A = Some (o1, A1)"
      "gen_incr (Obj a) s = Some (t, s1)" "gen_rel s1 A1 F1" "turn_match o1 t s1 a" "o1 \<noteq> SAgain" by blast
    have loop: "gen_loop_until visit (Obj a) u s = (case t of Back \<Rightarrow> gen_loop_until visit (Obj a) u1 s1
        | Exc e \<Rightarrow> Some (Some e, False, u1, s1) | Again _ \<Rightarrow> None)"
      by (rule until_step) (use shown v False n(2) in simp_all)
    from stack_run_props[OF n(1) less.prems(2,3) a] have pr: "dom A1 = dom A" "refs_ok a A1" "total_size A1 < total_size A" by auto
    have dr: "drain a A = next_drain a o1 A1" by (rule stack_run_drain[OF n(1) a]) simp
    obtain r1 stk1 where a1: "A1 a = Some (r1, stk1)" using pr(1) a by (metis domD domI surj_pair)
    show ?thesis
    proof (cases o1)
      case SAgain
      with n(5) show ?thesis by simp
    next
      case (SExc e)
      with dr loop n(3,4) v False show ?thesis by (auto simp: next_drain_def until_result_def)
    next
      case SBack
      with n(4) have t: "t = Back" by simp
      show ?thesis
      proof (cases r1)
        case None
        then have "gen_loop_until visit (Obj a) u1 s1 = Some (None, False, u1, s1)"
          using gen_shown(1)[OF n(3) a1] by (simp add: until_stop)
        with SBack dr loop n(3) t a1 None v False show ?thesis by (auto simp: next_drain_def until_result_def)
      next
        case (Some y1)
        have ne: "stk1 \<noteq> []" using stack_run_yield[OF n(1)[unfolded SBack] a] a1 Some by auto
        obtain ys x A' where ih: "drain a A1 = Some (ys, x, A')"
          "until_result a (gen_loop_until visit (Obj a) u1 s1) (fold_until visit (y1 # ys) u1) x A'"
          using less.hyps[OF pr(3) n(3) _ pr(2) a1[unfolded Some] ne, of u1] pr(1) less.prems(2) by auto
        have "drain a A1 = drain a (A1(a \<mapsto> (None, stk1)))"
          using drain_shown[OF ne, of a A1 r1] a1 by (simp add: fun_upd_idem)
        with SBack dr a1 Some ih(1) have "drain a A = Some (y1 # ys, x, A')" by (simp add: next_drain_def)
        moreover have "fold_until visit (y # y1 # ys) u = fold_until visit (y1 # ys) u1" using v False by simp
        ultimately show ?thesis using ih(2) loop t by auto
      qed
    qed
  qed
qed

lemma gen_for_until_drains:
  assumes "gen_rel s A F" "finite (dom A)" "refs_ok a A" "A a = Some (r, stk)" "stk = [] \<longrightarrow> r = None"
  shows "\<exists>ys x A'. drain a A = Some (ys, x, A')
    \<and> until_result a (gen_for_until visit (Obj a) u s) (fold_until visit ys u) x A'"
proof (cases stk)
  case Nil
  with assms(4,5) have a: "A a = Some (None, [])" by simp
  have "gen_begin (Obj a) s = Some (Back, s)"
    using gen_ok_empty[OF gen_rel_obj(1)[OF assms(1) a]] by (simp add: gen_begin_def)
  with gen_shown(1)[OF assms(1) a] drain_empty[where A = A and a = a and r = None] a assms(1) show ?thesis
    by (auto simp: gen_for_until_def until_stop until_result_def)
next
  case (Cons b rest)
  note a = assms(4)[unfolded Cons]
  from generator_next_sim[OF assms(1-3) a] obtain t s1 F1 o1 A1 where n: "stack_run (Suc (total_size A)) a A = Some (o1, A1)"
    "gen_begin (Obj a) s = Some (t, s1)" "gen_rel s1 A1 F1" "turn_match o1 t s1 a" "o1 \<noteq> SAgain" by blast
  from stack_run_props[OF n(1) assms(2,3) a] have pr: "dom A1 = dom A" "refs_ok a A1" by auto
  have dr: "drain a A = next_drain a o1 A1" by (rule stack_run_drain[OF n(1) a]) simp
  obtain r1 stk1 where a1: "A1 a = Some (r1, stk1)" using pr(1) a by (metis domD domI surj_pair)
  show ?thesis
  proof (cases o1)
    case SAgain
    with n(5) show ?thesis by simp
  next
    case (SExc e)
    with dr n show ?thesis by (auto simp: next_drain_def gen_for_until_def until_result_def)
  next
    case SBack
    with n have f: "gen_for_until visit (Obj a) u s = gen_loop_until visit (Obj a) u s1" by (simp add: gen_for_until_def)
    show ?thesis
    proof (cases r1)
      case None
      with SBack dr f n(3) a1 gen_shown(1)[OF n(3) a1] show ?thesis
        by (auto simp: next_drain_def until_stop until_result_def)
    next
      case (Some y1)
      have ne: "stk1 \<noteq> []" using stack_run_yield[OF n(1)[unfolded SBack] a] a1 Some by auto
      obtain ys x A' where l: "drain a A1 = Some (ys, x, A')"
        "until_result a (gen_loop_until visit (Obj a) u s1) (fold_until visit (y1 # ys) u) x A'"
        using gen_loop_until_drains[OF n(3) _ pr(2) a1[unfolded Some] ne, of visit u] pr(1) assms(2) by auto
      have "drain a A1 = drain a (A1(a \<mapsto> (None, stk1)))"
        using drain_shown[OF ne, of a A1 r1] a1 by (simp add: fun_upd_idem)
      with SBack dr a1 Some l(1) have "drain a A = Some (y1 # ys, x, A')" by (simp add: next_drain_def)
      with l(2) f show ?thesis by auto
    qed
  qed
qed

section \<open>Properties\<close>

text \<open>C9. A loop over a generator that may be left by \<open>break\<close> visits the elements in order up to the one at
  which it breaks; a second loop over the same generator then visits exactly the elements that are left, so
  no element is lost or visited twice, and throws what the generator throws. A loop that does not break
  visits all elements, those of nested generators in place, until the end or the first exception, which
  leaves the loop. Either way the store is well-formed afterwards, the generators that were moved from are
  empty, and after an exception another loop goes on with what the failed coroutine leaves.\<close>

theorem loop_continues_after_break:
  assumes "gen_rel s A F" and "finite (dom A)" and "refs_ok a A" and "A a = Some (r, stk)" and "stk = [] \<longrightarrow> r = None"
  shows "\<exists>ys x A'. drain a A = Some (ys, x, A') \<and> (case fold_until visit ys u of
      (None, u1) \<Rightarrow> \<exists>s1 F1. gen_for_until visit (Obj a) u s = Some (x, False, u1, s1) \<and> gen_rel s1 A' F1
    | (Some rest, u1) \<Rightarrow> \<exists>s1 s2 F2. gen_for_until visit (Obj a) u s = Some (None, True, u1, s1)
        \<and> gen_for visit2 (Obj a) w s1 = Some (x, fold visit2 rest w, s2) \<and> gen_rel s2 A' F2)"
proof -
  obtain ys x A' where d: "drain a A = Some (ys, x, A')"
    "until_result a (gen_for_until visit (Obj a) u s) (fold_until visit ys u) x A'"
    using gen_for_until_drains[OF assms, of visit u] by blast
  obtain left u1 where f: "fold_until visit ys u = (left, u1)" by force
  show ?thesis
  proof (cases left)
    case None
    with d f show ?thesis by (auto simp: until_result_def)
  next
    case (Some rest)
    with d(2) f obtain s1 F1 A1 r1 stk1 where b: "gen_for_until visit (Obj a) u s = Some (None, True, u1, s1)" "gen_rel s1 A1 F1"
      "finite (dom A1)" "refs_ok a A1" "A1 a = Some (r1, stk1)" "stk1 \<noteq> []" "drain a A1 = Some (rest, x, A')"
      by (auto simp: until_result_def)
    from gen_for_drains[OF b(2-5), of visit2 w] b(6,7) obtain s2 F2 where
      "gen_for visit2 (Obj a) w s1 = Some (x, fold visit2 rest w, s2)" "gen_rel s2 A' F2" by auto
    with d(1) f Some b(1) show ?thesis by auto
  qed
qed

text \<open>The first loop breaks at the element 1; the second one gets 5 and the exception.\<close>

theorem loop_continues_after_break_witness:
  "\<exists>s s1 s2. gen_for_until (\<lambda>y ys. (y = 1, ys @ [y])) (Obj 0) [] s = Some (None :: nat option, True, [1::nat], s1)
     \<and> gen_for (\<lambda>y ys. ys @ [y]) (Obj 0) [] s1 = Some (Some 6, [5], s2)"
proof -
  from ex_store obtain s where s: "gen_rel s ex_stacks ((\<lambda>_. [])(1 := [10], 0 := [20]))" by blast
  from loop_continues_after_break[OF s ex_facts, of "\<lambda>y ys. (y = 1, ys @ [y])" "[]" "\<lambda>y ys. ys @ [y]" "[]"] show ?thesis
    by (auto simp: ex_drain)
qed

end
