(* ===== verification/Started_Task.thy ===== *)
theory Started_Task
  imports Task_Get
begin

text \<open>
  \<open>task.hpp\<close>: \<open>task::start\<close> and the awaiting of its \<open>start_result\<close> by a coroutine \<open>w\<close> that is not a task,
  before or after the task has ended. If it has not, \<open>already_started_awaiter::await_suspend\<close> enters \<open>w\<close> as
  the one who waits and returns, so that control goes back to whoever resumed \<open>w\<close>; the task resumes \<open>w\<close>
  at its end.
\<close>

section \<open>A run does not look at the log\<close>

definition with_log :: "ctx_call list \<Rightarrow> ('v, 'e) task_world \<Rightarrow> ('v, 'e) task_world" where
  "with_log l s = s\<lparr>tw_log := l\<rparr>"

lemma with_log_simps [simp]:
  "tw_fr (with_log l s) = tw_fr s" "tw_fresh (with_log l s) = tw_fresh s" "tw_log (with_log l s) = l"
  "(with_log l s)\<lparr>tw_fr := f\<rparr> = with_log l (s\<lparr>tw_fr := f\<rparr>)" "with_log l (with_log m s) = with_log l s"
  "with_log l (s\<lparr>tw_log := m\<rparr>) = with_log l s" "(with_log l s)\<lparr>tw_log := m\<rparr> = with_log m s"
  "(with_log l s)\<lparr>tw_fresh := n\<rparr> = with_log l (s\<lparr>tw_fresh := n\<rparr>)"
  by (simp_all add: with_log_def)








section \<open>Awaiting a start_result\<close>













end
