(* ===== verification/Promise_Hashes.thy ===== *)
theory Promise_Hashes
  imports Channel_Refinement Operation_Hash Task_Awaiters Started_Task
begin

text \<open>
  The specialisations of \<open>operation_hash\<close> in \<open>task.hpp\<close>, \<open>channel.hpp\<close> and \<open>memory_support.hpp\<close>: the hash of
  a task is made from the address of the coroutine that waits for it, the hash of a channel from that of its
  root, the hash of a coroutine with a memory resource is that of the coroutine without. \<open>noop\<close> is the address of
  \<open>std::noop_coroutine()\<close> and \<open>std_hash\<close> is \<open>std::hash<const void*>\<close>.
\<close>

definition waiter_address :: "64 word \<Rightarrow> waiter \<Rightarrow> 64 word" where
  "waiter_address noop w = (case w of NoOne \<Rightarrow> 0 | NoopCoro \<Rightarrow> noop | Waits h \<Rightarrow> handle_address h)"

definition operation_hash_task :: "64 word \<Rightarrow> handle \<Rightarrow> ('v, 'e) task_world \<Rightarrow> operation_hash_t option" where
  "operation_hash_task noop h s = do { p \<leftarrow> tw_fr s h; Some (do_hash (waiter_address noop (tk_who p))) }"

text \<open>\<open>calculate_operation_hash\<close> of a coroutine that is a task or of a type without a specialisation.\<close>

definition calculate_operation_hash :: "64 word \<Rightarrow> handle \<Rightarrow> ('v, 'e) task_world \<Rightarrow> operation_hash_t option" where
  "calculate_operation_hash noop h s =
     (case tw_fr s h of None \<Rightarrow> Some (operation_hash_handle h) | Some _ \<Rightarrow> operation_hash_task noop h s)"

definition operation_hash_channel ::
  "(64 word \<Rightarrow> operation_hash_t) \<Rightarrow> handle \<Rightarrow> ('y, 'e) chan_store \<Rightarrow> operation_hash_t option" where
  "operation_hash_channel std_hash h s = do { p \<leftarrow> cs_fr s h; Some (std_hash (handle_address (cp_root p))) }"

text \<open>A promise with a memory resource has the address of the promise; its hash is that of the promise.\<close>

definition operation_hash_resourced :: "(handle \<Rightarrow> operation_hash_t option) \<Rightarrow> handle \<Rightarrow> operation_hash_t option" where
  "operation_hash_resourced hash_of_promise h = hash_of_promise h"

section \<open>Who waits for a task does not change while coroutines run\<close>

definition same_waiter :: "handle \<Rightarrow> ('v, 'e) task_world \<Rightarrow> ('v, 'e) task_world \<Rightarrow> bool" where
  "same_waiter k s s' \<longleftrightarrow> (\<forall>p'. tw_fr s' k = Some p' \<longrightarrow> (\<exists>p. tw_fr s k = Some p \<and> tk_who p' = tk_who p))"

lemma same_waiter_refl [simp]: "same_waiter k s s"
  by (simp add: same_waiter_def)



lemma call_ctx_same_waiter [simp]: "same_waiter k s (call_ctx c s') = same_waiter k s s'"
  by (simp add: same_waiter_def call_ctx_def)












section \<open>Channels\<close>

lemma channel_worker_root:
  assumes "chan_rel c A F" and "A a = Some (r, b # rest)"
  shows "\<exists>g t p q. cs_ob c (Obj a) = Some g \<and> ch_top g = Some t \<and> cs_fr c t = Some p
    \<and> cs_fr c (cp_worker p) = Some q \<and> cp_root q = t"
proof -
  from assms(1) obtain s where s: "gen_rel s A F" "store_rel {} c s" by (auto simp: chan_rel_def)
  from gen_rel_obj(1)[OF s(1) assms(2)] obtain gg w vs x where g: "gs_ob s (Obj a) = Some gg" "gn_top gg = Some (last (w # vs))"
    "running s a w vs x (b # rest)" by (auto simp: gen_ok_def)
  then obtain p q where w: "gs_fr s w = Some q" "gp_root q = last (w # vs)" "gs_fr s (last (w # vs)) = Some p" "gp_worker p = w"
    by (auto simp: running_def simp del: last.simps)
  have nd: "\<not> gp_done q" using g(3) w(1) by (cases vs) (auto simp: running_def fv_def frame_view_def)
  from store_rel_frD[OF s(2) w(3)] obtain p' where p': "cs_fr c (last (w # vs)) = Some p'" "cp_worker p' = w"
    using w(4) by (auto simp: frame_rel_def)
  from store_rel_frD[OF s(2) w(1)] obtain q' where q': "cs_fr c w = Some q'" "cp_root q' = last (w # vs)"
    using w(2) nd by (auto simp: frame_rel_def)
  from store_rel_ob[OF s(2), of "Obj a"] g(1) obtain g' where g': "cs_ob c (Obj a) = Some g'" "gen_view g' = gg"
    by (cases "cs_ob c (Obj a)") auto
  with g(2) have "ch_top g' = Some (last (w # vs))" by (auto simp: gen_view_def)
  with g' p' q' show ?thesis by auto
qed

text \<open>The coroutine of a channel that runs, however deep the \<open>elements_of\<close> are nested, has the hash of the top.\<close>

theorem channel_hash_is_root_hash:
  assumes "chan_rel c A F" and "A a = Some (r, b # rest)"
  shows "\<exists>g t p. cs_ob c (Obj a) = Some g \<and> ch_top g = Some t \<and> cs_fr c t = Some p
    \<and> operation_hash_channel std_hash (cp_worker p) c = Some (std_hash (handle_address t))"
  using channel_worker_root[OF assms] by (fastforce simp: operation_hash_channel_def)

section \<open>Properties\<close>



lemma hashes_differ: "do_hash 8 \<noteq> do_hash 9"
proof -
  have "ptr_byte 8 j = ptr_byte 9 j" if "j < 8" "j \<noteq> 0" for j
  proof -
    from that have "j \<in> {1, 2, 3, 4, 5, 6, 7}" by auto
    then show ?thesis by (auto simp: ptr_byte_def drop_bit_word_beyond)
  qed
  then show ?thesis by (intro do_hash_differs[of _ _ 0]) auto
qed

text \<open>Coroutine 8 awaits the task 9, which awaits the task 10: the two tasks have different hashes.\<close>

definition nested_tasks :: "(unit, unit) task_world" where
  "nested_tasks = \<lparr>tw_fr = [9 \<mapsto> (task_promise_init (Ret ()))\<lparr>tk_who := Waits 8\<rparr>, 10 \<mapsto> (task_promise_init (Ret ()))\<lparr>tk_who := Waits 9\<rparr>],
     tw_fresh = 11, tw_log = []\<rparr>"

lemma nested_tasks_differ:
  "calculate_operation_hash noop 8 nested_tasks = calculate_operation_hash noop 9 nested_tasks
   \<and> calculate_operation_hash noop 9 nested_tasks \<noteq> calculate_operation_hash noop 10 nested_tasks"
  using hashes_differ by (simp add: nested_tasks_def calculate_operation_hash_def operation_hash_task_def waiter_address_def
      operation_hash_handle_def handle_address_def)

text \<open>
  A pool does not use these specialisations: \<open>jump_on_thread_pool\<close> hashes the handle it has stored in the
  node, which is a \<open>std::coroutine_handle<>\<close>. So a task that jumps goes to the queue of its own address, not to
  that of the coroutine that waits for it, although \<open>co_await this_coro::operation_hash\<close> gives it the hash of
  the latter.
\<close>

lemma jump_ignores_specialisation:
  "operation_hash_task noop 8 \<lparr>tw_fr = [8 \<mapsto> (task_promise_init (Ret ()))\<lparr>tk_who := Waits 9\<rparr>], tw_fresh = 10, tw_log = []\<rparr>
   = Some (operation_hash_handle 9) \<and> operation_hash_handle 8 \<noteq> operation_hash_handle 9"
  using hashes_differ by (simp add: operation_hash_task_def waiter_address_def operation_hash_handle_def handle_address_def)

end
