(* ===== verification/Spec2Isabelle.thy ===== *)
theory Spec2Isabelle
  imports Road_Runs Gate Latch Thread_Pool_Runs Stack_Resource Async_Task When_All When_Any Fixed_Array Monitoring Generator_Refinement
    Channel_Refinement Chain Logical_Thread Events Event_Waits Iteration Pool_Jobs Pool_Lifecycle Frame_Memory Task_Get When_Any_Vector
    Channel_Conversion Yielded_Values Thread_Group When_Any_Destroyed Event_Errors Task_Awaiters Clear_Loop Loop_Break Promise_Hashes Started_Task
begin

text \<open>
  Verification of kelcoro, a header-only C++20 library of coroutine types, their synchronisation
  primitives, executors and memory resources. Paths below are relative to \<open>src/include/kelcoro\<close>.

  \<^bold>\<open>The program.\<close> The coroutine types are \<open>task\<close> (lazy, awaited, started or detached), \<open>generator\<close> and
  \<open>channel\<close> (recursive producers of elements, synchronous and asynchronous), \<open>async_task\<close> and
  \<open>logical_thread\<close> (started at once and joined from another thread) and \<open>job\<close> (fire and forget). Their
  promises store results in \<open>return_block\<close> and hand control to each other by symmetric transfer. The
  algorithms \<open>when_all\<close>, \<open>when_any\<close>, \<open>with\<close> and \<open>chain\<close> combine awaitables. \<open>road\<close>, \<open>gate\<close>, \<open>latch\<close> and
  \<open>event\<close> suspend coroutines as intrusive task nodes in a queue or a lock-free stack; when they open,
  the nodes go to an executor, which resumes them: in place, or on a \<open>worker\<close> or \<open>thread_pool\<close>, whose
  threads serve intrusive queues. Frames are allocated through memory resources, which are chosen by
  the types of the coroutine and of its last argument.

  \<^bold>\<open>How it is modelled.\<close> Every operation is a function on an explicit state: records for the classes,
  datatypes for enums, variants and program counters, machine words where arithmetic may wrap
  (\<open>Word\<close>), partial maps from addresses for nodes, frames and blocks. \<open>None\<close> is undefined behaviour, a
  failed \<open>assert\<close> or \<open>KELCORO_ASSUME\<close>, \<open>std::terminate\<close>, or a loop that does not end, so a theorem
  \<open>op s = Some s'\<close> excludes all of these. Exceptions are values. Code that the library calls but does
  not contain (callables, bodies of coroutines, resumed handles, allocators) is a parameter. Threads
  are interleaved by inductive relations (\<open>pool_reach\<close>, \<open>at_reach\<close>, ...) whose steps are the single
  atomic accesses or critical sections of the code; program counters mark where others may
  interfere. Memory is sequentially consistent.

  \<^bold>\<open>The theories.\<close>
  \<^item> \<open>Prelude\<close>: fallible folds, list segments, collections of simplification rules.
  \<^item> \<open>Executor\<close> (\<open>executor_interface.hpp\<close>): task nodes, the executor contract as the locale \<open>executor\<close>,
    \<open>attach_list\<close>, \<open>reverse_list\<close>, \<open>jump_on\<close>. \<open>Awaiters_Queue\<close>, \<open>Road\<close>, \<open>Road_Runs\<close> (\<open>road.hpp\<close>): the contract
    \<open>intrusive_queue\<close> of an intrusive FIFO and its first instance; no waiter of a road is lost, in runs with a
    run queue (\<open>Road\<close>) and with any executor, also one that resumes inside of \<open>attach\<close> (\<open>Road_Runs\<close>).
    \<open>Gate\<close> (\<open>gate.hpp\<close>): close waiters resume on a closed gate without running operations only.
  \<^item> \<open>Lockfree_Stack\<close> (\<open>nonowner_lockfree_stack.hpp\<close>): linearizability and progress of the closable
    stack. \<open>Latch\<close> (\<open>latch.hpp\<close>) uses its contract \<open>closable_stack\<close>: no early and no lost wakeup.
    \<open>Events\<close>, \<open>Event_Errors\<close>, \<open>Event_Waits\<close> (\<open>events.hpp\<close>): \<open>notify_all\<close>, also when a copy of the input
    throws; callbacks are called once; coroutines that wait for all or any of several events are resumed once.
  \<^item> \<open>Operation_Hash\<close> (\<open>operation_hash.hpp\<close>), \<open>Promise_Hashes\<close> (the hashes of tasks and channels), \<open>Task_Queue\<close>, \<open>Thread_Pool\<close>, \<open>Thread_Pool_Runs\<close>, \<open>Pool_Jobs\<close>,
    \<open>Pool_Lifecycle\<close> (\<open>thread_pool.hpp\<close>, \<open>job.hpp\<close>): queues with their condition variable, the pool and its
    destructor, runs of any number of threads with their invariant (\<open>pool_inv\<close>: one \<open>lane\<close> per queue),
    jobs scheduled on it, the constructor with its error path, and the class \<open>worker\<close>. Proved: FIFO,
    exactly once, cancellation behind the pill, no undefined behaviour, joins return.
    \<open>Monitoring\<close> (\<open>noexport/thread_pool_monitoring.hpp\<close>): the counters.
    \<open>Fixed_Array\<close> (\<open>noexport/fixed_array.hpp\<close>): life cycle of the arrays of the pool.
  \<^item> \<open>Return_Block\<close>, \<open>Coro_Awaiters\<close> (\<open>common.hpp\<close>): the storage of results with the contract
    \<open>return_slot\<close>; the small awaiters under the rules of \<open>co_await\<close>, \<open>scope_exit\<close>, \<open>build_awaiter\<close>.
  \<^item> \<open>Task\<close>, \<open>Started_Task\<close>, \<open>Task_Get\<close>, \<open>Task_Awaiters\<close> (\<open>task.hpp\<close>), \<open>Chain\<close>, \<open>When_All\<close>, \<open>When_Any\<close>, \<open>When_Any_Vector\<close>,
    \<open>When_Any_Destroyed\<close> (\<open>algorithm.hpp\<close>), \<open>Expected_Result\<close> (\<open>noexport/expected.hpp\<close>): running a task is
    evaluating its body in direct style, however it is awaited; frames of detached tasks are freed; the owner
    of \<open>when_all\<close> or \<open>when_any\<close> is resumed exactly once, and may be destroyed while jobs of \<open>when_any\<close> run.
  \<^item> \<open>Async_Task\<close> (\<open>async_task.hpp\<close>), \<open>Logical_Thread\<close>, \<open>Thread_Group\<close> (\<open>logical_thread.hpp\<close>): the frame
    shared by a coroutine and its owner is destroyed once, by the last of them; objects that are moved,
    swapped and stopped together. \<open>try_inform\<close> of \<open>logical_thread\<close> notifies a flag in the frame after the other
    side may have destroyed it: that step is \<open>None\<close>, and the theorems say exactly when it happens.
  \<^item> \<open>Generator\<close>, \<open>Generator_Refinement\<close> (\<open>generator.hpp\<close>), \<open>Channel\<close>, \<open>Channel_Refinement\<close>
    (\<open>channel.hpp\<close>), \<open>Clear_Loop\<close> (their \<open>clear\<close>), \<open>Iteration\<close>, \<open>Loop_Break\<close>, \<open>Channel_Conversion\<close>,
    \<open>Yielded_Values\<close> (the loops and \<open>noexport/generators_common.hpp\<close>): the pointers between root, leafs and
    current worker implement a stack of bodies; whenever \<open>clear\<close> returns, the object is empty although destructors may
    have filled it again; loops visit all elements in order, across a \<open>break\<close>; a converted channel; which object a
    consumer gets at.
  \<^item> \<open>Memory_Support\<close>, \<open>Frame_Memory\<close> (\<open>memory_support.hpp\<close>), \<open>Stack_Resource\<close>
    (\<open>stack_memory_resource.hpp\<close>): alignment, placement of a resource behind the frame, the choice of
    the resource, and the chunks of the stack resource: live allocations are disjoint and aligned,
    as long as no sum of sizes wraps around.

  \<^bold>\<open>Bounds and fuel.\<close> Loops of the code are structural recursion, \<open>partial_function (option)\<close> or carry
  fuel that a theorem discharges: \<open>stack_run\<close> runs a stack of bodies with \<open>Suc (total_size)\<close>, which is
  always enough; \<open>lt_rank\<close>, the rank of \<open>When_All\<close> and \<open>worker_rank\<close> are measures that every step
  decreases; \<open>prod_run\<close> needs at most four steps of the producer of an \<open>async_task\<close>. Counters are words:
  \<open>when_all\<close> and \<open>when_any\<close> assume fewer than \<open>2^64\<close> tasks, waits for events fewer than 256 events (the
  code counts them in an index type of that size). The sums of sizes in \<open>Stack_Resource\<close> are taken
  modulo \<open>2^64\<close>, as \<open>size_t\<close> is, and its runs assume of each allocation that they do not wrap (\<open>size_fits\<close>;
  \<open>stack_resource_size_wraps\<close> is what happens without). Two \<open>size_t\<close> values are unbounded numbers because the bound
  cannot be reached: the counter of a \<open>gate\<close>, which would need \<open>2^64\<close> operations at once, and the size of a frame
  with the resource behind it, which the compiler knows. \<open>clear\<close> is a \<open>partial_function\<close>, since a coroutine whose destructors
  assign a new call of its own function keeps its loop running forever; it returns under the premise
  \<open>calls_decrease\<close>, that coroutine functions have a rank which decreases from a function to those that its destructors call
  (the measure is \<open>work_weight\<close>). Addresses and
  hashes are those of a 64-bit little-endian target; the alignment of frames is 16.

  \<^bold>\<open>Not modelled.\<close> Memory orders (the code uses acquire and release, the model is sequentially
  consistent); attributes and macros (\<open>noexport/macro.hpp\<close>), the umbrella header, concepts that only
  restrict templates, accessors of thread handles and spans, the output of the monitoring; which overload
  of \<open>extract_from\<close> a range selects, and the arguments that \<open>with\<close> keeps alive; exceptions of \<open>attach\<close> in
  \<open>events.hpp\<close>, which the code itself marks as open, while those of the copies there are modelled. Tests and examples are not
  part of the library.
\<close>

end
